(* ===== verification/Prelude.thy ===== *)
theory Prelude
  imports Main "HOL-Library.Word"
begin

text \<open>
  Shared vocabulary of the development: the machine integer types of the i386 C code, the
  table scan that the kernel writes as a \<open>for\<close> loop with an early exit, and the generic
  facts about words, lists and tables that the component theories use.
\<close>

unbundle bit_operations_syntax

section \<open>Machine integers\<close>

type_synonym u8 = "8 word"
type_synonym u16 = "16 word"
type_synonym u32 = "32 word"
type_synonym bytes = "8 word list"

named_theorems bit_facts \<open>single-bit masks of C expressed with \<^const>\<open>bit\<close>\<close>

lemma unat_of_nat_small: "n < 2 ^ LENGTH('a) \<Longrightarrow> unat (of_nat n :: 'a::len word) = n"
  by (simp add: unat_of_nat take_bit_nat_eq_self)

lemma unat32_less: "unat n < 4294967296" for n :: u32
proof -
  have "unat n < 2 ^ LENGTH(32)" by (rule unsigned_less)
  then show ?thesis by simp
qed

lemma unat_plus_of_nat:
  "unat p + n < 2 ^ LENGTH('a) \<Longrightarrow> unat (p + of_nat n) = unat p + n" for p :: "'a::len word"
  by (simp add: unat_word_ariths unat_of_nat)

lemma sint_eq_iff: "sint x = sint y \<longleftrightarrow> x = y" for x y :: "'a::len word"
  by (auto intro: signed_word_eqI)

lemma sint_eq_0_iff: "sint x = 0 \<longleftrightarrow> x = 0" for x :: "'a::len word"
  by (rule signed_eq_0_iff)

text \<open>The mask \<open>1 << n\<close>.\<close>

definition mask1 :: "nat \<Rightarrow> 'a::len word" where
  "mask1 n = push_bit n 1"

lemma and_mask1_eq_0 [bit_facts]: "(w AND mask1 n = 0) = (\<not> bit w n)"
  for w :: "'a::len word"
  unfolding mask1_def by (metis and_exp_eq_0_iff_not_bit push_bit_of_1)

lemma bit_or_mask1 [bit_facts]:
  "bit (w OR mask1 n) m = (bit w m \<or> (m = n \<and> m < LENGTH('a)))" for w :: "'a::len word"
  unfolding mask1_def by (auto simp: bit_simps)

lemma bit_and_not_mask1 [bit_facts]:
  "bit (w AND NOT (mask1 n)) m = (bit w m \<and> m \<noteq> n)" for w :: "'a::len word"
  unfolding mask1_def using bit_imp_le_length by (auto simp: bit_simps)

text \<open>Setting a clear bit and clearing it again gives the word back.\<close>

lemma set_clear_mask1:
  "\<not> bit w n \<Longrightarrow> (w OR mask1 n) AND NOT (mask1 n) = w" for w :: "'a::len word"
  by (rule bit_word_eqI) (auto simp: bit_facts)

text \<open>A byte that is not \<open>0xFF\<close> has a clear bit, the test with which every bitmap scan of the
  kernel skips full bytes.\<close>

lemma byte_not_full: "(w::u8) \<noteq> 0xFF \<longleftrightarrow> (\<exists>b<8. \<not> bit w b)"
proof -
  have *: "(0xFF::u8) = -1" by simp
  show ?thesis unfolding * by (auto simp: bit_eq_iff)
qed

lemma byte_full_bit: "b < 8 \<Longrightarrow> bit (0xFF::u8) b"
  using byte_not_full [of "0xFF"] by blast

section \<open>Table scans\<close>

text \<open>
  \<open>for (i = 0; i < N; i++) if (p (t[i])) return i;\<close> over a table of the kernel.
\<close>

fun first_index :: "('a \<Rightarrow> bool) \<Rightarrow> 'a list \<Rightarrow> nat option" where
  "first_index p [] = None"
| "first_index p (x # xs) = (if p x then Some 0 else map_option Suc (first_index p xs))"

lemma first_index_None: "first_index p xs = None \<longleftrightarrow> (\<forall>x\<in>set xs. \<not> p x)"
  by (induction xs) auto

lemma first_index_Some:
  "first_index p xs = Some i \<longleftrightarrow> i < length xs \<and> p (xs ! i) \<and> (\<forall>j<i. \<not> p (xs ! j))"
proof (induction xs arbitrary: i)
  case Nil
  then show ?case by simp
next
  case (Cons x xs)
  then show ?case
    by (cases i) (auto simp: nth_Cons' less_Suc_eq_0_disj)
qed

lemma first_index_SomeD:
  assumes "first_index p xs = Some i"
  shows "i < length xs" and "p (xs ! i)" and "j < i \<Longrightarrow> \<not> p (xs ! j)"
  using assms by (auto simp: first_index_Some)

lemma first_index_ex: "x \<in> set xs \<Longrightarrow> p x \<Longrightarrow> \<exists>i. first_index p xs = Some i"
  using first_index_None [of p xs] by (cases "first_index p xs") auto

lemma first_index_replicate [simp]:
  "first_index p (replicate n x) = (if 0 < n \<and> p x then Some 0 else None)"
  by (induction n) auto

lemma first_index_cong_nth:
  "length xs = length ys \<Longrightarrow> (\<And>i. i < length xs \<Longrightarrow> p (xs ! i) = q (ys ! i)) \<Longrightarrow>
   first_index p xs = first_index q ys"
proof (induction xs ys rule: list_induct2)
  case Nil
  then show ?case by simp
next
  case (Cons x xs y ys)
  from Cons.prems [of 0] have "p x = q y" by simp
  moreover have "first_index p xs = first_index q ys"
    using Cons.prems [of "Suc i" for i] by (intro Cons.IH) fastforce
  ultimately show ?case by simp
qed

section \<open>Lists\<close>

lemma bex_set_nth: "(\<exists>x\<in>set xs. P x) \<longleftrightarrow> (\<exists>i<length xs. P (xs ! i))"
  by (metis in_set_conv_nth)

lemma ball_set_nth: "(\<forall>x\<in>set xs. P x) \<longleftrightarrow> (\<forall>i<length xs. P (xs ! i))"
  by (metis in_set_conv_nth)

lemma list_update_swap_eq:
  "i < length xs \<Longrightarrow> (xs[i := x])[i := y] = xs[i := y]"
  by simp

lemma nth_list_update_if:
  "j < length xs \<Longrightarrow> (xs[i := x]) ! j = (if i = j then x else xs ! j)"
  by (simp add: nth_list_update)

lemma list_update_id_iff: "i < length xs \<Longrightarrow> (xs[i := x] = xs) = (xs ! i = x)"
  by (metis list_update_id nth_list_update_eq)

text \<open>Overwriting a segment of a byte array, which is what \<open>memcpy\<close> into a buffer does.\<close>

definition overwrite :: "'a list \<Rightarrow> nat \<Rightarrow> 'a list \<Rightarrow> 'a list" where
  "overwrite xs off ys = take off xs @ ys @ drop (off + length ys) xs"

lemma length_overwrite [simp]:
  "off + length ys \<le> length xs \<Longrightarrow> length (overwrite xs off ys) = length xs"
  by (simp add: overwrite_def)

lemma nth_overwrite:
  assumes "off + length ys \<le> length xs" and "i < length xs"
  shows "overwrite xs off ys ! i =
    (if off \<le> i \<and> i < off + length ys then ys ! (i - off) else xs ! i)"
  using assms by (auto simp: overwrite_def nth_append min_def)

lemma overwrite_same_segment:
  assumes "off + length ys \<le> length xs"
  shows "take (length ys) (drop off (overwrite xs off ys)) = ys"
  using assms by (simp add: overwrite_def)

lemma overwrite_id: "overwrite xs off (take n (drop off xs)) = xs"
proof -
  have "take n (drop off xs) @ drop (off + length (take n (drop off xs))) xs = drop off xs"
  proof (cases "n \<le> length xs - off")
    case True
    then show ?thesis
      using append_take_drop_id [of n "drop off xs"] by (simp add: min_def add.commute)
  next
    case False
    then show ?thesis by (simp add: min_def)
  qed
  then show ?thesis unfolding overwrite_def by simp
qed

end
