(* ===== verification/Codec.thy ===== *)
theory Codec
  imports Prelude
begin

text \<open>
  The layout of C structures in memory and on disk: little-endian 16- and 32-bit fields at byte
  offsets, as the i386 lays out the packed structures \<open>struct minix_inode\<close>, \<open>struct fs\<close> and
  \<open>struct dirent\<close>, and the conversions between \<open>long\<close> and the unsigned fields.
\<close>

section \<open>Signed conversions\<close>

definition to_long :: "int \<Rightarrow> int" where
  "to_long n = signed_take_bit 31 n"

lemma to_long_id: "- (2 ^ 31) \<le> n \<Longrightarrow> n < 2 ^ 31 \<Longrightarrow> to_long n = n"
  unfolding to_long_def by (rule signed_take_bit_int_eq_self) simp_all

lemma to_long_uint_of_int: "to_long n = n \<Longrightarrow> to_long (uint (of_int n :: 32 word)) = n"
  unfolding to_long_def by (simp add: uint_word_of_int_eq signed_take_bit_take_bit)

section \<open>Fields\<close>

definition le16 :: "u16 \<Rightarrow> bytes" where
  "le16 w = [ucast w, ucast (drop_bit 8 w)]"

definition le32 :: "u32 \<Rightarrow> bytes" where
  "le32 w = [ucast w, ucast (drop_bit 8 w), ucast (drop_bit 16 w), ucast (drop_bit 24 w)]"

definition get16 :: "bytes \<Rightarrow> nat \<Rightarrow> u16" where
  "get16 bs off = ucast (bs ! off) OR push_bit 8 (ucast (bs ! (off + 1)))"

definition get32 :: "bytes \<Rightarrow> nat \<Rightarrow> u32" where
  "get32 bs off = ucast (bs ! off) OR push_bit 8 (ucast (bs ! (off + 1)))
     OR push_bit 16 (ucast (bs ! (off + 2))) OR push_bit 24 (ucast (bs ! (off + 3)))"

lemma length_le [simp]: "length (le16 w) = 2" "length (le32 v) = 4"
  by (simp_all add: le16_def le32_def)

lemma nth_le16 [simp]: "le16 w ! 0 = ucast w" "le16 w ! Suc 0 = ucast (drop_bit 8 w)"
  by (simp_all add: le16_def)

lemma get16_parts: "ucast (ucast w :: u8) OR push_bit 8 (ucast (ucast (drop_bit 8 w) :: u8)) = (w :: u16)"
proof (rule bit_word_eqI)
  fix n
  assume "n < LENGTH(16)"
  then show "bit (ucast (ucast w :: u8) OR push_bit 8 (ucast (ucast (drop_bit 8 w) :: u8)) :: u16) n = bit w n"
    by (cases "n < 8") (auto simp: bit_simps)
qed

lemma get32_parts:
  "ucast (ucast w :: u8) OR push_bit 8 (ucast (ucast (drop_bit 8 w) :: u8))
     OR push_bit 16 (ucast (ucast (drop_bit 16 w) :: u8)) OR push_bit 24 (ucast (ucast (drop_bit 24 w) :: u8)) = (w :: u32)"
proof (rule bit_word_eqI)
  fix n
  assume n: "n < LENGTH(32)"
  consider "n < 8" | "8 \<le> n" "n < 16" | "16 \<le> n" "n < 24" | "24 \<le> n" by linarith
  then show "bit (ucast (ucast w :: u8) OR push_bit 8 (ucast (ucast (drop_bit 8 w) :: u8))
     OR push_bit 16 (ucast (ucast (drop_bit 16 w) :: u8)) OR push_bit 24 (ucast (ucast (drop_bit 24 w) :: u8)) :: u32) n = bit w n"
    using n by cases (auto simp: bit_simps)
qed

lemma get16_le16: "get16 (xs @ le16 w @ ys) (length xs) = w"
  using get16_parts [of w] by (simp add: get16_def le16_def nth_append)

lemma get32_le32: "get32 (xs @ le32 w @ ys) (length xs) = w"
  using get32_parts [of w] by (simp add: get32_def le32_def nth_append add.commute)

text \<open>A field is read inside the segment that holds it.\<close>

lemma get16_segment: "off + 1 < n \<Longrightarrow> base + n \<le> length bs \<Longrightarrow>
    get16 (take n (drop base bs)) off = get16 bs (base + off)"
  by (simp add: get16_def)

lemma get32_segment: "off + 3 < n \<Longrightarrow> base + n \<le> length bs \<Longrightarrow>
    get32 (take n (drop base bs)) off = get32 bs (base + off)"
  by (simp add: get32_def add.assoc)

text \<open>An array of 16-bit fields, \<open>uint16_t a[n]\<close>.\<close>

definition get16s :: "bytes \<Rightarrow> nat \<Rightarrow> nat \<Rightarrow> u16 list" where
  "get16s bs off n = map (\<lambda>j. get16 bs (off + 2 * j)) [0..<n]"

definition put16 :: "bytes \<Rightarrow> nat \<Rightarrow> u16 \<Rightarrow> bytes" where
  "put16 bs off w = overwrite bs off (le16 w)"

lemma length_put16 [simp]: "off + 2 \<le> length bs \<Longrightarrow> length (put16 bs off w) = length bs"
  by (simp add: put16_def)

lemma get16_put16_same: "off + 2 \<le> length bs \<Longrightarrow> get16 (put16 bs off w) off = w"
  using get16_le16 [of "take off bs" w "drop (off + 2) bs"] by (simp add: put16_def overwrite_def min_def)

lemma get16_put16_other:
  "off + 2 \<le> length bs \<Longrightarrow> off' + 2 \<le> length bs \<Longrightarrow> off' + 2 \<le> off \<or> off + 2 \<le> off' \<Longrightarrow>
   get16 (put16 bs off w) off' = get16 bs off'"
  by (auto simp: get16_def put16_def nth_overwrite)

lemma concat_le16_nth:
  assumes "j < length ws"
  shows "get16 (xs @ concat (map le16 ws) @ ys) (length xs + 2 * j) = ws ! j"
  using assms
proof (induction ws arbitrary: xs j)
  case Nil
  then show ?case by simp
next
  case (Cons w ws)
  show ?case
  proof (cases j)
    case 0
    then show ?thesis using get16_le16 [of xs w "concat (map le16 ws) @ ys"] by simp
  next
    case (Suc j')
    then show ?thesis using Cons.IH [of j' "xs @ le16 w"] Cons.prems by simp
  qed
qed

lemma length_concat_le16: "length (concat (map le16 ws)) = 2 * length ws"
  by (induction ws) auto

lemma get16s_concat:
  "length ws = n \<Longrightarrow> get16s (xs @ concat (map le16 ws) @ ys) (length xs) n = ws"
  by (rule nth_equalityI) (simp_all add: get16s_def concat_le16_nth)

end
