(* ===== verification/Ctype.thy ===== *)
theory Ctype
  imports Codec
begin

text \<open>
  C strings as the lists of the bytes before their terminator, for the code that only reads them; the
  character classes of \<open>include/ctype.h\<close>; and \<open>atoi\<close> of the C library.  Characters are signed, and
  arithmetic on \<open>int\<close> is written out with its wrap-around.
\<close>

section \<open>Strings\<close>

text \<open>\<open>*p\<close> for a string \<open>p\<close>: the terminator at its end.\<close>

definition at0 :: "bytes \<Rightarrow> u8" where
  "at0 xs = (case xs of [] \<Rightarrow> 0 | c # cs \<Rightarrow> c)"

lemma at0_simps [simp]: "at0 [] = 0" "at0 (c # cs) = c"
  by (simp_all add: at0_def)

lemma at0_nonzero: "0 \<notin> set xs \<Longrightarrow> at0 xs = 0 \<longleftrightarrow> xs = []"
  by (cases xs) auto

section \<open>Character classes\<close>

definition isprint :: "int \<Rightarrow> bool" where
  "isprint c \<longleftrightarrow> 32 \<le> c \<and> c < 127"

definition isdigit :: "int \<Rightarrow> bool" where
  "isdigit c \<longleftrightarrow> 48 \<le> c \<and> c \<le> 57"

definition isspace :: "int \<Rightarrow> bool" where
  "isspace c \<longleftrightarrow> c = 32 \<or> c = 9 \<or> c = 10 \<or> c = 11 \<or> c = 12 \<or> c = 13"

definition ispunct :: "int \<Rightarrow> bool" where
  "ispunct c \<longleftrightarrow> c \<in> {33, 34, 35, 36, 37, 38, 39, 40, 41, 42, 43, 44, 45, 46, 47, 58, 59, 60,
     61, 62, 63, 64, 91, 92, 93, 94, 95, 96, 123, 124, 125, 126}"

section \<open>Numbers\<close>

fun atoi_loop :: "bytes \<Rightarrow> int \<Rightarrow> bool \<Rightarrow> int \<times> bool" where
  "atoi_loop [] i neg = (i, neg)"
| "atoi_loop (c # s) i neg =
     (if isdigit (sint c) then atoi_loop s (to_long (to_long (i * 10) + (sint c - 48))) neg
      else if c = 45 \<and> i = 0 then atoi_loop s i True
      else (i, neg))"

definition atoi :: "bytes \<Rightarrow> int" where
  "atoi s = (case atoi_loop s 0 False of (i, neg) \<Rightarrow> if neg then to_long (- i) else i)"

end
