(* ===== verification/Cons.thy ===== *)
theory Cons
  imports Ctype
begin

text \<open>
  The VGA text console, \<open>sys/i386/cons.c\<close> with \<open>SERIAL_CONSOLE\<close> set to 0: a screen of 80 by 25 cells, a
  cursor and a small recogniser of escape sequences.  Its variables are static to the file, so they
  form a state of their own.  A store outside the screen or outside the array of arguments is no
  result.
\<close>

abbreviation (input) VGA_WIDTH :: nat where "VGA_WIDTH \<equiv> 80"
abbreviation (input) VGA_HEIGHT :: nat where "VGA_HEIGHT \<equiv> 25"

datatype esc_state = ESC_NORMAL | ESC_START | ESC_BRACKET

record cons =
  cn_color :: u16
  cn_cursor_pos :: u16
  cn_buffer :: "u16 list"
  esc :: esc_state
  args_count :: int
  args :: "int list"

text \<open>\<open>crt\<close> is the cursor position that the adapter reports.\<close>

definition cn_init :: "u16 \<Rightarrow> cons \<Rightarrow> cons" where
  "cn_init crt k = k\<lparr>cn_color := push_bit 8 10, cn_cursor_pos := crt\<rparr>"

section \<open>Output\<close>

definition scroll :: "cons \<Rightarrow> cons" where
  "scroll k =
     (if unat (cn_cursor_pos k) \<ge> VGA_WIDTH * VGA_HEIGHT
      then k\<lparr>cn_buffer := drop VGA_WIDTH (cn_buffer k) @ replicate VGA_WIDTH 32,
             cn_cursor_pos := of_nat (VGA_WIDTH * (VGA_HEIGHT - 1))\<rparr>
      else k)"

definition line_start :: "u16 \<Rightarrow> nat" where
  "line_start pos = unat pos div VGA_WIDTH * VGA_WIDTH"

definition cn_putchar_raw :: "int \<Rightarrow> cons \<Rightarrow> cons option" where
  "cn_putchar_raw c k =
     (let pos = cn_cursor_pos k in
      if c = 13 then Some (scroll (k\<lparr>cn_cursor_pos := of_nat (line_start pos)\<rparr>))
      else if c = 10 then Some (scroll (k\<lparr>cn_cursor_pos := of_nat (line_start pos + VGA_WIDTH)\<rparr>))
      else if c = 8 then Some (scroll (k\<lparr>cn_cursor_pos := pos - 1\<rparr>))
      else if c = 9 then Some (scroll (k\<lparr>cn_cursor_pos := of_nat ((unat pos + 8) div 4 * 4)\<rparr>))
      else if unat pos < length (cn_buffer k) then
        Some (scroll (k\<lparr>cn_buffer := (cn_buffer k)[unat pos := word_of_int c OR cn_color k],
                        cn_cursor_pos := pos + 1\<rparr>))
      else None)"

definition cn_erase_line :: "cons \<Rightarrow> cons option" where
  "cn_erase_line k =
     (let start = line_start (cn_cursor_pos k) in
      if start + VGA_WIDTH \<le> length (cn_buffer k) then
        Some (k\<lparr>cn_buffer := overwrite (cn_buffer k) start
          (map (\<lambda>w. w AND 0xFF00) (take VGA_WIDTH (drop start (cn_buffer k))))\<rparr>)
      else None)"

definition cn_goto :: "u32 \<Rightarrow> u32 \<Rightarrow> cons \<Rightarrow> cons" where
  "cn_goto x y k =
     k\<lparr>cn_cursor_pos := of_nat (unat ((y - 1) mod of_nat VGA_HEIGHT) * VGA_WIDTH + unat (x mod of_nat VGA_WIDTH))\<rparr>"

definition cn_clear :: "cons \<Rightarrow> cons" where
  "cn_clear k = k\<lparr>cn_buffer := map (\<lambda>w. w AND 0xFF00) (cn_buffer k)\<rparr>"

text \<open>A digit extends the current argument; the first digit starts the first one.\<close>

definition esc_digit :: "int \<Rightarrow> cons \<Rightarrow> cons option" where
  "esc_digit c k =
     (let n = (if args_count k = 0 then 1 else args_count k) in
      if 1 \<le> n \<and> n \<le> int (length (args k)) then
        Some (k\<lparr>args_count := n,
                args := (args k)[nat (n - 1) := to_long (to_long (args k ! nat (n - 1) * 10) + (c - 48))]\<rparr>)
      else None)"

text \<open>The character that ends a sequence: \<open>H\<close>, \<open>J\<close>, \<open>K\<close> or \<open>f\<close>; others do nothing.\<close>

definition esc_final :: "int \<Rightarrow> cons \<Rightarrow> cons option" where
  "esc_final c k =
     (if c = 72 then Some (k\<lparr>cn_cursor_pos := 0\<rparr>)
      else if c = 74 then Some (cn_clear k)
      else if c = 75 then (if args_count k = 1 then cn_erase_line k else Some k)
      else if c = 102 then (if args_count k = 2 then Some (cn_goto (word_of_int (args k ! 1)) (word_of_int (args k ! 0)) k) else Some k)
      else Some k)"

definition cn_putchar :: "int \<Rightarrow> cons \<Rightarrow> cons option" where
  "cn_putchar c k =
     (case esc k of
        ESC_NORMAL \<Rightarrow>
          (if c = 27 then Some (k\<lparr>esc := ESC_START, args_count := 0, args := replicate 4 0\<rparr>)
           else cn_putchar_raw c k)
      | ESC_START \<Rightarrow>
          (if c = 91 then Some (k\<lparr>esc := ESC_BRACKET\<rparr>)
           else (case cn_putchar_raw 27 (k\<lparr>esc := ESC_NORMAL\<rparr>) of None \<Rightarrow> None | Some k' \<Rightarrow> cn_putchar_raw c k'))
      | ESC_BRACKET \<Rightarrow>
          (if isprint c then
             (if isdigit c then esc_digit c k
              else if c = 59 then Some (k\<lparr>args_count := to_long (args_count k + 1)\<rparr>)
              else map_option (\<lambda>k'. k'\<lparr>esc := ESC_NORMAL\<rparr>) (esc_final c k))
           else Some (k\<lparr>esc := ESC_NORMAL\<rparr>)))"

text \<open>The characters of a buffer are signed.\<close>

fun cn_write :: "bytes \<Rightarrow> cons \<Rightarrow> cons option" where
  "cn_write [] k = Some k"
| "cn_write (c # cs) k = (case cn_putchar (sint c) k of None \<Rightarrow> None | Some k' \<Rightarrow> cn_write cs k')"

section \<open>The cursor stays on the screen\<close>

definition cons_inv :: "cons \<Rightarrow> bool" where
  "cons_inv k \<longleftrightarrow> length (cn_buffer k) = VGA_WIDTH * VGA_HEIGHT \<and> unat (cn_cursor_pos k) < VGA_WIDTH * VGA_HEIGHT
     \<and> (esc k \<noteq> ESC_NORMAL \<longrightarrow> length (args k) = 4)"

text \<open>The only store outside an array: a digit of a fifth or later argument.\<close>

definition args_overrun :: "int \<Rightarrow> cons \<Rightarrow> bool" where
  "args_overrun c k \<longleftrightarrow> esc k = ESC_BRACKET \<and> isdigit c \<and> (args_count k < 0 \<or> 4 < args_count k)"

lemma scroll_inv:
  "length (cn_buffer k) = VGA_WIDTH * VGA_HEIGHT \<Longrightarrow> (esc k \<noteq> ESC_NORMAL \<longrightarrow> length (args k) = 4) \<Longrightarrow> cons_inv (scroll k)"
  by (simp add: scroll_def cons_inv_def)

lemma cn_putchar_raw_total:
  assumes "cons_inv k"
  obtains k' where "cn_putchar_raw c k = Some k'" "cons_inv k'" "esc k' = esc k"
proof -
  have "\<exists>j. cn_putchar_raw c k = Some (scroll j) \<and> length (cn_buffer j) = VGA_WIDTH * VGA_HEIGHT \<and> esc j = esc k \<and> args j = args k"
    using assms unfolding cn_putchar_raw_def Let_def cons_inv_def
    by (cases "c = 13"; cases "c = 10"; cases "c = 8"; cases "c = 9") (auto intro!: exI)
  then obtain j where j: "cn_putchar_raw c k = Some (scroll j)" "length (cn_buffer j) = VGA_WIDTH * VGA_HEIGHT" "esc j = esc k" "args j = args k"
    by blast
  have "cons_inv (scroll j)" by (rule scroll_inv) (use j assms in \<open>simp_all add: cons_inv_def\<close>)
  moreover have "esc (scroll j) = esc k" using j by (simp add: scroll_def)
  ultimately show ?thesis using that j(1) by blast
qed

lemma cn_goto_inv:
  assumes "cons_inv k"
  shows "cons_inv (cn_goto x y k)"
proof -
  define n where "n = unat ((y - 1) mod of_nat VGA_HEIGHT) * VGA_WIDTH + unat (x mod of_nat VGA_WIDTH)"
  have "unat ((y - 1) mod of_nat VGA_HEIGHT) < VGA_HEIGHT" "unat (x mod of_nat VGA_WIDTH) < VGA_WIDTH"
    by (simp_all add: unat_mod)
  then have "n < VGA_WIDTH * VGA_HEIGHT" by (simp add: n_def)
  then have "unat (of_nat n :: u16) < VGA_WIDTH * VGA_HEIGHT" by (simp add: unat_of_nat take_bit_nat_eq_self)
  moreover have "cn_goto x y k = k\<lparr>cn_cursor_pos := of_nat n\<rparr>" by (simp only: cn_goto_def n_def)
  ultimately show ?thesis using assms by (simp add: cons_inv_def)
qed

lemma cn_erase_line_total:
  assumes "cons_inv k"
  obtains k' where "cn_erase_line k = Some k'" "cons_inv k'"
proof -
  have "unat (cn_cursor_pos k) div VGA_WIDTH \<le> (VGA_WIDTH * VGA_HEIGHT - 1) div VGA_WIDTH"
    using assms by (intro div_le_mono) (simp add: cons_inv_def)
  then have "line_start (cn_cursor_pos k) + VGA_WIDTH \<le> length (cn_buffer k)"
    using assms by (simp add: cons_inv_def line_start_def)
  then show ?thesis using assms
    by (intro that [of "the (cn_erase_line k)"]) (auto simp: cn_erase_line_def Let_def cons_inv_def length_overwrite)
qed

lemma esc_final_total:
  assumes "cons_inv k"
  obtains k' where "esc_final c k = Some k'" "cons_inv k'"
proof -
  obtain j where "cn_erase_line k = Some j" "cons_inv j" using cn_erase_line_total [OF assms] .
  moreover have "cons_inv (k\<lparr>cn_cursor_pos := 0\<rparr>)" "cons_inv (cn_clear k)" using assms by (simp_all add: cons_inv_def cn_clear_def)
  ultimately have "esc_final c k \<noteq> None \<and> cons_inv (the (esc_final c k))"
    using cn_goto_inv [OF assms] assms by (simp add: esc_final_def)
  then show ?thesis using that by auto
qed

lemma cn_putchar_step:
  assumes inv: "cons_inv k"
  shows "if args_overrun c k then cn_putchar c k = None else \<exists>k'. cn_putchar c k = Some k' \<and> cons_inv k'"
proof (cases "esc k")
  case ESC_NORMAL
  obtain k1 where "cn_putchar_raw c k = Some k1" "cons_inv k1" using cn_putchar_raw_total [OF inv] .
  then show ?thesis using ESC_NORMAL inv by (simp add: cn_putchar_def args_overrun_def cons_inv_def)
next
  case ESC_START
  have "cons_inv (k\<lparr>esc := ESC_NORMAL\<rparr>)" using inv by (simp add: cons_inv_def)
  then obtain k1 where k1: "cn_putchar_raw 27 (k\<lparr>esc := ESC_NORMAL\<rparr>) = Some k1" "cons_inv k1" using cn_putchar_raw_total by metis
  obtain k2 where "cn_putchar_raw c k1 = Some k2" "cons_inv k2" using cn_putchar_raw_total [OF k1(2)] .
  then show ?thesis using ESC_START k1(1) inv by (simp add: cn_putchar_def args_overrun_def cons_inv_def)
next
  case ESC_BRACKET
  obtain k1 where k1: "esc_final c k = Some k1" "cons_inv k1" using esc_final_total [OF inv] .
  have n: "cons_inv (j\<lparr>esc := ESC_NORMAL\<rparr>)" if "cons_inv j" for j using that by (simp add: cons_inv_def)
  show ?thesis
  proof (cases "isdigit c")
    case True
    then have "isprint c" by (simp add: isdigit_def isprint_def)
    then show ?thesis using True ESC_BRACKET inv
      by (auto simp: cn_putchar_def args_overrun_def esc_digit_def Let_def cons_inv_def)
  next
    case False
    then show ?thesis using ESC_BRACKET k1 n [OF k1(2)] n [OF inv] inv
      by (auto simp: cn_putchar_def args_overrun_def cons_inv_def)
  qed
qed

text \<open>
  C39: The cursor of the console stays on the screen.  Whatever bytes are written, every store goes to a
  cell of the screen, the screen keeps its size, and the cursor is on the screen after each byte, as
  long as no escape sequence has a digit in a fifth argument; that byte, and nothing else, makes the
  driver store outside the array of arguments.
\<close>

theorem cn_write_bounds:
  assumes "cons_inv k"
  shows "(\<exists>k'. cn_write cs k = Some k' \<and> cons_inv k')
    \<or> (\<exists>pre c post k'. cs = pre @ c # post \<and> cn_write pre k = Some k' \<and> cons_inv k' \<and> args_overrun (sint c) k' \<and> cn_write cs k = None)"
  using assms
proof (induction cs arbitrary: k)
  case Nil
  then show ?case by simp
next
  case (Cons c cs)
  show ?case
  proof (cases "args_overrun (sint c) k")
    case True
    then have "cn_write (c # cs) k = None" using cn_putchar_step [OF Cons.prems, of "sint c"] by simp
    then show ?thesis using True Cons.prems by (intro disjI2 exI [of _ "[]"]) auto
  next
    case False
    then obtain k1 where k1: "cn_putchar (sint c) k = Some k1" "cons_inv k1"
      using cn_putchar_step [OF Cons.prems, of "sint c"] by auto
    from Cons.IH [OF k1(2)] show ?thesis
    proof
      assume "\<exists>k'. cn_write cs k1 = Some k' \<and> cons_inv k'"
      then show ?thesis using k1 by simp
    next
      assume "\<exists>pre d post k'. cs = pre @ d # post \<and> cn_write pre k1 = Some k' \<and> cons_inv k' \<and> args_overrun (sint d) k' \<and> cn_write cs k1 = None"
      then obtain pre d post k' where "cs = pre @ d # post" "cn_write pre k1 = Some k'" "cons_inv k'" "args_overrun (sint d) k'" "cn_write cs k1 = None"
        by blast
      then show ?thesis using k1 by (intro disjI2 exI [of _ "c # pre"] exI [of _ d] exI [of _ post] exI [of _ k']) simp
    qed
  qed
qed

text \<open>Clearing the line and five arguments.\<close>

definition blank_screen :: cons where
  "blank_screen = \<lparr>cn_color = 0xA00, cn_cursor_pos = 1999, cn_buffer = replicate (VGA_WIDTH * VGA_HEIGHT) 32,
     esc = ESC_NORMAL, args_count = 0, args = [0, 0, 0, 0]\<rparr>"

theorem cn_write_witness:
  "cons_inv blank_screen \<and> (\<exists>k. cn_write [65, 8, 10] blank_screen = Some k \<and> cons_inv k)
   \<and> cn_write [27, 91, 59, 59, 59, 59, 59, 49] blank_screen = None"
proof -
  have inv: "cons_inv blank_screen" by (simp add: cons_inv_def blank_screen_def)
  have n: "cn_write [27, 91, 59, 59, 59, 59, 59, 49] blank_screen = None"
    by (simp add: cn_putchar_def blank_screen_def isprint_def isdigit_def esc_digit_def to_long_def Let_def)
  have "cn_write [65, 8, 10] blank_screen \<noteq> None"
    by (simp add: cn_putchar_def cn_putchar_raw_def scroll_def blank_screen_def Let_def)
  then show ?thesis using cn_write_bounds [OF inv, of "[65, 8, 10]"] inv n by auto
qed

end
