(* ===== verification/Kmonad.thy ===== *)
theory Kmonad
  imports Prelude
begin

text \<open>
  Kernel code as state passing.  A kernel path either returns a value and the new kernel
  state, gives up the processor in \<open>sleep()\<close> (the state is the one it leaves to the other
  processes), stops the machine in \<open>panic()\<close>, or performs an access the C language leaves
  undefined (a NULL dereference or an index outside an array).  The last two are kept apart:
  a panic is the kernel's own check.
\<close>

section \<open>Wait channels\<close>

text \<open>
  The \<open>void *wchan\<close> of \<open>sleep()\<close> and \<open>wakeup()\<close>: the address of a table entry, of a handler
  function, or a number of clock ticks cast to a pointer.
\<close>

datatype wchan =
    WNull
  | WBuf nat
  | WInode nat
  | WPipe nat
  | WTty nat
  | WProc nat
  | WTick u32
  | WFun string

section \<open>Outcomes and sequencing\<close>

datatype ('a, 's) outcome = Ok 'a 's | Sleeping wchan 's | Panic string | Fault

type_synonym ('s, 'a) kern = "'s \<Rightarrow> ('a, 's) outcome"

definition returnK :: "'a \<Rightarrow> ('s, 'a) kern" where
  "returnK x s = Ok x s"

definition bindK :: "('s, 'a) kern \<Rightarrow> ('a \<Rightarrow> ('s, 'b) kern) \<Rightarrow> ('s, 'b) kern" where
  "bindK m f s =
     (case m s of
        Ok x s' \<Rightarrow> f x s'
      | Sleeping w s' \<Rightarrow> Sleeping w s'
      | Panic msg \<Rightarrow> Panic msg
      | Fault \<Rightarrow> Fault)"

definition thenK :: "('s, 'a) kern \<Rightarrow> ('s, 'b) kern \<Rightarrow> ('s, 'b) kern" where
  "thenK m k = bindK m (\<lambda>_. k)"

definition panic :: "string \<Rightarrow> ('s, 'a) kern" where
  "panic msg s = Panic msg"

definition faultK :: "('s, 'a) kern" where
  "faultK s = Fault"

definition getK :: "('s \<Rightarrow> 'a) \<Rightarrow> ('s, 'a) kern" where
  "getK f s = Ok (f s) s"

definition modifyK :: "('s \<Rightarrow> 's) \<Rightarrow> ('s, unit) kern" where
  "modifyK f s = Ok () (f s)"

definition whenK :: "bool \<Rightarrow> ('s, unit) kern \<Rightarrow> ('s, unit) kern" where
  "whenK c m = (if c then m else returnK ())"

text \<open>\<open>for (x in xs) body\<close>, without an early exit.\<close>

fun forK :: "'b list \<Rightarrow> ('b \<Rightarrow> ('s, unit) kern) \<Rightarrow> ('s, unit) kern" where
  "forK [] body = returnK ()"
| "forK (x # xs) body = thenK (body x) (forK xs body)"

section \<open>Weakest preconditions\<close>

text \<open>
  \<open>wp m Q s\<close>: run in \<open>s\<close>, the path returns, and the value and the final state satisfy \<open>Q\<close>.
  It is total: a path that sleeps, panics or faults satisfies no postcondition.
\<close>

definition wp :: "('s, 'a) kern \<Rightarrow> ('a \<Rightarrow> 's \<Rightarrow> bool) \<Rightarrow> 's \<Rightarrow> bool" where
  "wp m Q s \<longleftrightarrow> (case m s of Ok x s' \<Rightarrow> Q x s' | _ \<Rightarrow> False)"

named_theorems kern_simps \<open>execution of the kernel combinators\<close>

lemma returnK_exec [kern_simps]: "returnK x s = Ok x s"
  by (simp add: returnK_def)

lemma panic_exec [kern_simps]: "panic msg s = Panic msg"
  by (simp add: panic_def)

lemma faultK_exec [kern_simps]: "faultK s = Fault"
  by (simp add: faultK_def)

lemma getK_exec [kern_simps]: "getK f s = Ok (f s) s"
  by (simp add: getK_def)

lemma modifyK_exec [kern_simps]: "modifyK f s = Ok () (f s)"
  by (simp add: modifyK_def)

lemma whenK_exec [kern_simps]: "whenK c m s = (if c then m s else Ok () s)"
  by (simp add: whenK_def returnK_def)

lemma bindK_Ok: "m s = Ok x s' \<Longrightarrow> bindK m f s = f x s'"
  by (simp add: bindK_def)

lemma thenK_Ok: "m s = Ok x s' \<Longrightarrow> thenK m k s = k s'"
  by (simp add: thenK_def bindK_def)

lemma bindK_Panic: "m s = Panic msg \<Longrightarrow> bindK m f s = Panic msg"
  by (simp add: bindK_def)

lemma thenK_Panic: "m s = Panic msg \<Longrightarrow> thenK m k s = Panic msg"
  by (simp add: thenK_def bindK_def)

lemma bindK_exec [kern_simps]:
  "bindK (returnK x) f s = f x s"
  "bindK (panic msg) f s = Panic msg"
  "bindK faultK f s = Fault"
  "bindK (getK g) f s = f (g s) s"
  "bindK (modifyK h) k s = k () (h s)"
  by (simp_all add: bindK_def kern_simps)

lemma bindK_if [kern_simps]:
  "bindK (if c then m else n) f s = (if c then bindK m f s else bindK n f s)"
  by simp

lemma bindK_bindK [kern_simps]: "bindK (bindK m f) g s = bindK m (\<lambda>x. bindK (f x) g) s"
  by (simp add: bindK_def split: outcome.split)

lemma thenK_exec [kern_simps]:
  "thenK (returnK x) k s = k s"
  "thenK (panic msg) k s = Panic msg"
  "thenK faultK k s = Fault"
  "thenK (getK g) k s = k s"
  "thenK (modifyK h) k s = k (h s)"
  "thenK (bindK m f) k s = bindK m (\<lambda>x. thenK (f x) k) s"
  "thenK (thenK m n) k s = thenK m (thenK n k) s"
  "bindK (thenK m n) f s = thenK m (bindK n f) s"
  "thenK (if c then m else n) k s = (if c then thenK m k s else thenK n k s)"
  "thenK (whenK c m) k s = (if c then thenK m k s else k s)"
  by (simp_all add: thenK_def bindK_def kern_simps split: outcome.split)

lemma thenK_bindK: "thenK (bindK m f) k s = bindK m (\<lambda>x. thenK (f x) k) s"
  by (simp add: thenK_def bindK_def split: outcome.split)

lemma wp_returnK [simp]: "wp (returnK x) Q s = Q x s"
  by (simp add: wp_def kern_simps)

lemma wp_bindK [simp]: "wp (bindK m f) Q s = wp m (\<lambda>x. wp (f x) Q) s"
  by (simp add: wp_def bindK_def split: outcome.split)

lemma wp_thenK [simp]: "wp (thenK m k) Q s = wp m (\<lambda>_. wp k Q) s"
  by (simp add: thenK_def)

lemma wp_panic [simp]: "wp (panic msg) Q s = False"
  by (simp add: wp_def kern_simps)

lemma wp_faultK [simp]: "wp faultK Q s = False"
  by (simp add: wp_def kern_simps)

lemma wp_getK [simp]: "wp (getK f) Q s = Q (f s) s"
  by (simp add: wp_def kern_simps)

lemma wp_modifyK [simp]: "wp (modifyK f) Q s = Q () (f s)"
  by (simp add: wp_def kern_simps)

lemma wp_whenK [simp]: "wp (whenK c m) Q s = (if c then wp m Q s else Q () s)"
  by (simp add: wp_def kern_simps)

lemma wp_Ok: "m s = Ok x s' \<Longrightarrow> wp m Q s = Q x s'"
  by (simp add: wp_def)

lemma wp_mono: "wp m Q s \<Longrightarrow> (\<And>x t. Q x t \<Longrightarrow> R x t) \<Longrightarrow> wp m R s"
  by (auto simp: wp_def split: outcome.splits)

lemma wp_exE:
  assumes "wp m Q s"
  obtains x s' where "m s = Ok x s'" and "Q x s'"
  using assms by (auto simp: wp_def split: outcome.splits)

lemma wp_conj: "wp m (\<lambda>x t. P x t \<and> Q x t) s = (wp m P s \<and> wp m Q s)"
  by (auto simp: wp_def split: outcome.split)

lemma wp_forK:
  assumes "I [] s"
    and "\<And>ds x rest t. xs = ds @ x # rest \<Longrightarrow> I ds t \<Longrightarrow>
           wp (body x) (\<lambda>_ t'. I (ds @ [x]) t') t"
  shows "wp (forK xs body) (\<lambda>_ t. I xs t) s"
proof -
  have "wp (forK rest body) (\<lambda>_ t. I xs t) t" if "xs = ds @ rest" and "I ds t" for ds rest t
    using that
  proof (induction rest arbitrary: ds t)
    case Nil
    then show ?case by simp
  next
    case (Cons x rest)
    have "wp (body x) (\<lambda>_ t'. I (ds @ [x]) t') t"
      using Cons.prems by (intro assms(2)) auto
    moreover have "wp (forK rest body) (\<lambda>_ t. I xs t) t'" if "I (ds @ [x]) t'" for t'
      using Cons.IH [of "ds @ [x]" t'] Cons.prems that by simp
    ultimately show ?case
      by (auto intro: wp_mono)
  qed
  from this [of "[]"] assms(1) show ?thesis by simp
qed

end
