(* ===== verification/KTypes.thy ===== *)
theory KTypes
  imports Kmonad
begin

text \<open>
  The data of the kernel: the constants and structures of \<open>sys/sys/*.h\<close>, \<open>sys/i386/*.h\<close> and
  \<open>include/*.h\<close>, and one record for the kernel's global variables.  Pointers into a static
  table are indices into the list that models the table; \<open>NULL\<close> is \<^const>\<open>None\<close>.
\<close>

section \<open>Constants\<close>

text \<open>\<open>include/errno.h\<close>; the code returns the negated number.\<close>

abbreviation (input) EPERM :: int where "EPERM \<equiv> 1"
abbreviation (input) ENOENT :: int where "ENOENT \<equiv> 2"
abbreviation (input) ESRCH :: int where "ESRCH \<equiv> 3"
abbreviation (input) EINTR :: int where "EINTR \<equiv> 4"
abbreviation (input) EIO :: int where "EIO \<equiv> 5"
abbreviation (input) ENOEXEC :: int where "ENOEXEC \<equiv> 8"
abbreviation (input) EBADF :: int where "EBADF \<equiv> 9"
abbreviation (input) ECHILD :: int where "ECHILD \<equiv> 10"
abbreviation (input) ENOMEM :: int where "ENOMEM \<equiv> 12"
abbreviation (input) EACCES :: int where "EACCES \<equiv> 13"
abbreviation (input) EFAULT :: int where "EFAULT \<equiv> 14"
abbreviation (input) ENODEV :: int where "ENODEV \<equiv> 19"
abbreviation (input) ENOTDIR :: int where "ENOTDIR \<equiv> 20"
abbreviation (input) EINVAL :: int where "EINVAL \<equiv> 22"
abbreviation (input) ENFILE :: int where "ENFILE \<equiv> 23"
abbreviation (input) EMFILE :: int where "EMFILE \<equiv> 24"
abbreviation (input) ENOTTY :: int where "ENOTTY \<equiv> 25"

text \<open>Table sizes.\<close>

abbreviation (input) NPROC :: nat where "NPROC \<equiv> 8"
abbreviation (input) NFILE :: nat where "NFILE \<equiv> 32"
abbreviation (input) NPIPES :: nat where "NPIPES \<equiv> 16"
abbreviation (input) SERIAL_PORTS :: nat where "SERIAL_PORTS \<equiv> 2"
abbreviation (input) NTTY :: nat where "NTTY \<equiv> 3"
abbreviation (input) NBUF :: nat where "NBUF \<equiv> 64"
abbreviation (input) NUM_INODES :: nat where "NUM_INODES \<equiv> 32"
abbreviation (input) NSIG :: nat where "NSIG \<equiv> 16"
abbreviation (input) NGROUPS :: nat where "NGROUPS \<equiv> 4"
abbreviation (input) NDIRECT :: nat where "NDIRECT \<equiv> 7"
abbreviation (input) NINDIRECT :: nat where "NINDIRECT \<equiv> 512"
abbreviation (input) BLOCK_SIZE :: nat where "BLOCK_SIZE \<equiv> 1024"
abbreviation (input) PIPE_BUF :: nat where "PIPE_BUF \<equiv> 1024"
abbreviation (input) PROC_NAME_LEN :: nat where "PROC_NAME_LEN \<equiv> 16"
abbreviation (input) PAGE_SIZE :: nat where "PAGE_SIZE \<equiv> 4096"

text \<open>Buffer flags (\<open>sys/sys/buf.h\<close>), inode flags (\<open>sys/sys/inode.h\<close>), modes
  (\<open>sys/sys/stat.h\<close>), open flags (\<open>include/fcntl.h\<close>).\<close>

abbreviation (input) B_READ :: u32 where "B_READ \<equiv> 1"
abbreviation (input) B_WRITE :: u32 where "B_WRITE \<equiv> 2"
abbreviation (input) B_DONE :: u32 where "B_DONE \<equiv> 4"
abbreviation (input) B_ERROR :: u32 where "B_ERROR \<equiv> 8"
abbreviation (input) B_BUSY :: u32 where "B_BUSY \<equiv> 16"
abbreviation (input) B_WANTED :: u32 where "B_WANTED \<equiv> 32"
abbreviation (input) B_DIRTY :: u32 where "B_DIRTY \<equiv> 64"

abbreviation (input) I_LOCK :: u32 where "I_LOCK \<equiv> 1"
abbreviation (input) I_WANTED :: u32 where "I_WANTED \<equiv> 2"
abbreviation (input) I_DIRTY :: u32 where "I_DIRTY \<equiv> 4"

abbreviation (input) S_IFMT :: u16 where "S_IFMT \<equiv> 0xF000"
abbreviation (input) S_IFREG :: u16 where "S_IFREG \<equiv> 0x8000"
abbreviation (input) S_IFBLK :: u16 where "S_IFBLK \<equiv> 0x6000"
abbreviation (input) S_IFDIR :: u16 where "S_IFDIR \<equiv> 0x4000"
abbreviation (input) S_IFCHR :: u16 where "S_IFCHR \<equiv> 0x2000"
abbreviation (input) S_IFIFO :: u16 where "S_IFIFO \<equiv> 0x1000"
abbreviation (input) IEXEC :: u16 where "IEXEC \<equiv> 1"
abbreviation (input) IWRITE :: u16 where "IWRITE \<equiv> 2"
abbreviation (input) IREAD :: u16 where "IREAD \<equiv> 4"

abbreviation (input) O_RDONLY :: u32 where "O_RDONLY \<equiv> 0"
abbreviation (input) O_WRONLY :: u32 where "O_WRONLY \<equiv> 1"
abbreviation (input) O_RDWR :: u32 where "O_RDWR \<equiv> 2"
abbreviation (input) O_CREAT :: u32 where "O_CREAT \<equiv> 4"
abbreviation (input) O_APPEND :: u32 where "O_APPEND \<equiv> 8"
abbreviation (input) O_TRUNC :: u32 where "O_TRUNC \<equiv> 16"

abbreviation (input) FT_INODE :: int where "FT_INODE \<equiv> 0"
abbreviation (input) FT_PIPE :: int where "FT_PIPE \<equiv> 1"

abbreviation (input) SIGHUP :: int where "SIGHUP \<equiv> 1"
abbreviation (input) SIGINT :: int where "SIGINT \<equiv> 2"
abbreviation (input) SIGKILL :: int where "SIGKILL \<equiv> 9"
abbreviation (input) SIGTERM :: int where "SIGTERM \<equiv> 15"
abbreviation (input) SIG_DFL :: u32 where "SIG_DFL \<equiv> 0"
abbreviation (input) SIG_IGN :: u32 where "SIG_IGN \<equiv> 1"

abbreviation (input) USER_TEXT :: u32 where "USER_TEXT \<equiv> 0x100000"
abbreviation (input) USER_USTACK :: u32 where "USER_USTACK \<equiv> 0x1FF000"

text \<open>\<open>sys/sys/types.h\<close>: device numbers.\<close>

definition major :: "u16 \<Rightarrow> u16" where
  "major x = (drop_bit 8 x) AND 0xFF"

definition minor :: "u16 \<Rightarrow> u16" where
  "minor x = x AND 0xFF"

definition makedev :: "u16 \<Rightarrow> u16 \<Rightarrow> u16" where
  "makedev maj mnr = (push_bit 8 maj) OR mnr"

text \<open>Conversion to \<open>short\<close>, the type of \<open>pid_t\<close>.\<close>

definition to_short :: "int \<Rightarrow> int" where
  "to_short n = signed_take_bit 15 n"

section \<open>Structures\<close>

datatype procstate = STATE_NULL | STATE_IDLE | STATE_RUNNING | STATE_SLEEP | STATE_ZOMBIE

text \<open>\<open>struct interrupt_frame\<close> (\<open>sys/i386/idt.h\<close>): the user registers of a process.\<close>

record interrupt_frame =
  fr_ds :: u32
  fr_edi :: u32
  fr_esi :: u32
  fr_ebp :: u32
  fr_esp :: u32
  fr_ebx :: u32
  fr_edx :: u32
  fr_ecx :: u32
  fr_eax :: u32
  fr_int_no :: u32
  fr_err_code :: u32
  fr_eip :: u32
  fr_cs :: u32
  fr_eflags :: u32
  fr_user_esp :: u32
  fr_ss :: u32

definition zero_frame :: interrupt_frame where
  "zero_frame =
     \<lparr>fr_ds = 0, fr_edi = 0, fr_esi = 0, fr_ebp = 0, fr_esp = 0, fr_ebx = 0, fr_edx = 0,
      fr_ecx = 0, fr_eax = 0, fr_int_no = 0, fr_err_code = 0, fr_eip = 0, fr_cs = 0,
      fr_eflags = 0, fr_user_esp = 0, fr_ss = 0\<rparr>"

text \<open>\<open>struct sigacts\<close> (\<open>sys/sys/signal.h\<close>); a handler is the user address of a function.\<close>

record sigacts =
  handlers :: "u32 list"
  sig_context :: interrupt_frame
  dispatcher :: u32

text \<open>\<open>struct proc\<close> (\<open>sys/sys/proc.h\<close>).  \<open>pg_dir_paddr\<close> is the one field of \<open>struct pmap\<close>.\<close>

record proc =
  p_state :: procstate
  p_pid :: int
  p_pgrp :: int
  p_parent :: "nat option"
  p_esp0 :: u32
  p_kstack :: u32
  p_brk :: u32
  pg_dir_paddr :: u32
  p_context :: interrupt_frame
  p_exit_status :: int
  p_wchan :: wchan
  p_cwd :: "nat option"
  p_ofile :: "nat option list"
  p_uid :: u16
  p_gid :: u16
  p_ngroups :: int
  p_groups :: "u16 list"
  p_sigact :: sigacts
  p_sig_pending :: u32
  p_sig_mask :: u32
  p_command :: bytes

text \<open>\<open>struct buf\<close> (\<open>sys/sys/buf.h\<close>); the free list is a ring through the head \<open>bfreelist\<close>.\<close>

datatype bptr = BHead | BBuf nat

record buf =
  b_next :: bptr
  b_prev :: bptr
  b_dev :: u16
  b_block_no :: u32
  b_flags :: u32
  b_ref_count :: nat
  b_data :: bytes

text \<open>\<open>struct inode\<close> (\<open>sys/sys/inode.h\<close>).\<close>

record inode =
  i_dev :: u16
  i_inodeno :: u32
  i_flags :: u32
  i_refcount :: nat
  i_mode :: u16
  i_nlinks :: u16
  i_uid :: u16
  i_gid :: u16
  i_time :: int
  i_size :: int
  i_direct :: "u16 list"
  i_indirect :: u16
  i_dblindirect :: u16

text \<open>\<open>struct fs\<close>, the super block (\<open>sys/sys/fs.h\<close>).\<close>

record fs =
  s_ninodes :: u16
  s_nzones :: u16
  s_imap_blocks :: u16
  s_zmap_blocks :: u16
  s_firstdatazone :: u16
  s_log_zone_size :: u16
  s_max_size :: u32
  s_magic :: u16
  s_state :: u16
  s_zones :: u32

text \<open>\<open>struct file\<close> (\<open>sys/sys/file.h\<close>), \<open>struct pipe\<close> (\<open>sys/sys/pipe.h\<close>),
  \<open>struct tty\<close> (\<open>sys/sys/tty.h\<close>).\<close>

record kfile =
  f_flags :: u32
  f_ref_count :: int
  f_inode :: "nat option"
  f_pipe :: "nat option"
  f_offset :: int
  f_type :: int

record pipe =
  p_buffer :: bytes
  read_pos :: u32
  write_pos :: u32
  readers :: int
  writers :: int

record tty =
  rx_buf :: bytes
  rx_head :: u8
  rx_tail :: u8
  t_pgrp :: int
  c_lflag :: u32

text \<open>\<open>part_t\<close> and \<open>wd_t\<close> of the disk driver (\<open>sys/i386/wd.c\<close>).\<close>

record part =
  part_type :: u8
  part_offset :: u32
  part_size :: u32

record wd =
  wd_blocks :: u32
  rdbuf :: "nat option"
  wrbuf :: "nat option"
  wd_part :: "part list"

text \<open>The keyboard's buffer and modifiers (\<open>sys/i386/kb.c\<close>) and \<open>uart_t\<close> (\<open>sys/i386/uart.c\<close>).\<close>

record kb =
  kb_buffer :: bytes
  kb_head :: u8
  kb_tail :: u8
  lshift :: bool
  rshift :: bool
  ctrl :: bool
  alt :: bool

record uart =
  u_port :: u16
  u_rx_buffer :: bytes
  u_rx_head :: u8
  u_rx_tail :: u8
  u_dev :: u16

section \<open>The kernel state\<close>

text \<open>
  The global variables of the kernel, by the file that defines them: the process table and
  the address the linker gives to \<open>kstack\<close> (\<open>proc.c\<close>), the buffer cache and the head of its free list (\<open>bio.c\<close>), the inode cache
  (\<open>inode.c\<close>), the super block (\<open>fs.c\<close>), the file table (\<open>file.c\<close>), the pipes (\<open>pipe.c\<close>), the
  terminals (\<open>tty.c\<close>), the keyboard (\<open>kb.c\<close>), the serial ports (\<open>uart.c\<close>) with the bytes that
  each has transmitted, the drives (\<open>wd.c\<close>) with the sectors of each disk, the physical page
  bitmap (\<open>vmm.c\<close>), the current page map and the directory of \<open>kernel_pmap\<close> (\<open>pmap.c\<close>) with the
  contents of physical memory as pages of 1024 words, the page directory register of the processor
  and the addresses the linker gives to \<open>sys_pg_dir\<close>, \<open>sys_pg_table\<close> and the end of the kernel, and
  the clock (\<open>pit.c\<close>).
\<close>

datatype pmapref = PKernel | PProc nat

record kstate =
  procs :: "proc list"
  kstack_base :: u32
  cur_proc :: "nat option"
  nextpid :: int
  bcache :: "buf list"
  bfree_next :: bptr
  bfree_prev :: bptr
  inodes :: "inode list"
  super :: fs
  root_inode :: "nat option"
  files :: "kfile list"
  pipes :: "pipe list"
  ttys :: "tty list"
  kbd :: kb
  uart_devsw :: "uart list"
  uart_tx :: "nat \<Rightarrow> bytes"
  wd_devsw :: "wd list"
  sectors :: "nat \<Rightarrow> u32 \<Rightarrow> bytes"
  vmm_bitmap :: "u8 list"
  vmm_bitmap_index :: nat
  frames :: "u32 \<Rightarrow> nat \<Rightarrow> u32"
  cur_pmap :: pmapref
  kernel_pg_dir :: u32
  cr3 :: u32
  sys_pg_dir :: u32
  sys_pg_table :: u32
  kernel_end :: u32
  pit_ticks :: u32
  pit_ticks_loop :: u32
  pit_time :: int

type_synonym 'a kernel = "(kstate, 'a) kern"

section \<open>The state at boot\<close>

text \<open>
  The kernel's tables lie in the BSS segment, which is zero when \<open>main()\<close> starts; \<open>nextpid\<close> has
  an initialiser.  In a cleared process entry the frame at the top of the kernel stack is not part of
  \<open>struct proc\<close> and survives the clearing.\<close>

definition zero_proc :: "interrupt_frame \<Rightarrow> proc" where
  "zero_proc fr =
     \<lparr>p_state = STATE_NULL, p_pid = 0, p_pgrp = 0, p_parent = None, p_esp0 = 0, p_kstack = 0,
      p_brk = 0, pg_dir_paddr = 0, p_context = fr, p_exit_status = 0, p_wchan = WNull,
      p_cwd = None, p_ofile = replicate NFILE None, p_uid = 0, p_gid = 0, p_ngroups = 0,
      p_groups = replicate NGROUPS 0,
      p_sigact = \<lparr>handlers = replicate NSIG 0, sig_context = zero_frame, dispatcher = 0\<rparr>,
      p_sig_pending = 0, p_sig_mask = 0, p_command = replicate PROC_NAME_LEN 0\<rparr>"

definition zero_buf :: buf where
  "zero_buf = \<lparr>b_next = BHead, b_prev = BHead, b_dev = 0, b_block_no = 0, b_flags = 0,
               b_ref_count = 0, b_data = replicate BLOCK_SIZE 0\<rparr>"

definition zero_inode :: inode where
  "zero_inode = \<lparr>i_dev = 0, i_inodeno = 0, i_flags = 0, i_refcount = 0, i_mode = 0, i_nlinks = 0,
                 i_uid = 0, i_gid = 0, i_time = 0, i_size = 0, i_direct = replicate NDIRECT 0,
                 i_indirect = 0, i_dblindirect = 0\<rparr>"

definition zero_fs :: fs where
  "zero_fs = \<lparr>s_ninodes = 0, s_nzones = 0, s_imap_blocks = 0, s_zmap_blocks = 0,
              s_firstdatazone = 0, s_log_zone_size = 0, s_max_size = 0, s_magic = 0,
              s_state = 0, s_zones = 0\<rparr>"

definition zero_file :: kfile where
  "zero_file = \<lparr>f_flags = 0, f_ref_count = 0, f_inode = None, f_pipe = None, f_offset = 0,
                f_type = FT_INODE\<rparr>"

definition zero_pipe :: pipe where
  "zero_pipe = \<lparr>p_buffer = replicate PIPE_BUF 0, read_pos = 0, write_pos = 0, readers = 0,
                writers = 0\<rparr>"

definition zero_tty :: tty where
  "zero_tty = \<lparr>rx_buf = replicate 256 0, rx_head = 0, rx_tail = 0, t_pgrp = 0, c_lflag = 0\<rparr>"

definition zero_wd :: wd where
  "zero_wd = \<lparr>wd_blocks = 0, rdbuf = None, wrbuf = None,
              wd_part = replicate 4 \<lparr>part_type = 0, part_offset = 0, part_size = 0\<rparr>\<rparr>"

definition zero_kb :: kb where
  "zero_kb = \<lparr>kb_buffer = replicate 256 0, kb_head = 0, kb_tail = 0,
              lshift = False, rshift = False, ctrl = False, alt = False\<rparr>"

definition zero_uart :: uart where
  "zero_uart = \<lparr>u_port = 0, u_rx_buffer = replicate 256 0, u_rx_head = 0, u_rx_tail = 0, u_dev = 0\<rparr>"

definition bss_state :: kstate where
  "bss_state =
     \<lparr>procs = replicate NPROC (zero_proc zero_frame), kstack_base = 0x80200000, cur_proc = None,
      nextpid = 1, bcache = replicate NBUF zero_buf, bfree_next = BHead, bfree_prev = BHead,
      inodes = replicate NUM_INODES zero_inode, super = zero_fs, root_inode = None,
      files = replicate NFILE zero_file, pipes = replicate NPIPES zero_pipe,
      ttys = replicate NTTY zero_tty, kbd = zero_kb,
      uart_devsw = replicate SERIAL_PORTS zero_uart, uart_tx = (\<lambda>_. []), wd_devsw = replicate 4 zero_wd,
      sectors = (\<lambda>_ _. replicate 512 0), vmm_bitmap = replicate 4096 0, vmm_bitmap_index = 0,
      frames = (\<lambda>_ _. 0), cur_pmap = PKernel, kernel_pg_dir = 0, cr3 = 0x103000,
      sys_pg_dir = 0x80103000, sys_pg_table = 0x80104000, kernel_end = 0x80220000, pit_ticks = 0, pit_ticks_loop = 0, pit_time = 0\<rparr>"

section \<open>Device numbers\<close>

lemma minor_less: "unat (minor x) < 256"
proof -
  have "minor x \<le> 0xFF"
    unfolding minor_def by (rule word_and_le1)
  then show ?thesis by (simp add: word_le_nat_alt)
qed

lemma byte_mask16: "(0xFF::u16) = mask 8"
  by (simp add: mask_eq_exp_minus_1)

lemma major_minor_split: "makedev (major x) (minor x) = x"
proof (rule bit_word_eqI)
  fix n
  assume "n < LENGTH(16)"
  then show "bit (makedev (major x) (minor x)) n = bit x n"
    unfolding makedev_def major_def minor_def byte_mask16
    by (simp only: bit_or_iff bit_and_iff bit_push_bit_iff bit_drop_bit_eq bit_mask_iff
        comp_def possible_bit_word) auto
qed

end
