(* ===== verification/Cstring.thy ===== *)
theory Cstring
  imports Prelude
begin

text \<open>
  The string and memory routines of \<open>sys/libkern\<close>, on an explicit store: an address space of
  \<open>2 ^ 32\<close> bytes in which pointer arithmetic wraps.  Aliasing matters here, since \<open>memmove\<close>
  exists for overlapping ranges.  The scans \<open>strlen\<close> and \<open>strcmp\<close> stop only at a terminator, so
  they are partial functions whose value is \<^const>\<open>None\<close> when there is none.
\<close>

type_synonym mem = "u32 \<Rightarrow> u8"

section \<open>The routines\<close>

partial_function (option) strlen_loop :: "mem \<Rightarrow> u32 \<Rightarrow> u32 \<Rightarrow> u32 option" where
  "strlen_loop m str len = (if m (str + len) \<noteq> 0 then strlen_loop m str (len + 1) else Some len)"

definition strlen :: "mem \<Rightarrow> u32 \<Rightarrow> u32 option" where
  "strlen m str = strlen_loop m str 0"

text \<open>\<open>char\<close> is signed on the i386, so the difference of two characters is one of signed bytes.\<close>

partial_function (option) strcmp :: "mem \<Rightarrow> u32 \<Rightarrow> u32 \<Rightarrow> int option" where
  "strcmp m s1 s2 =
     (if m s1 = m s2
      then if m s1 = 0 then Some 0 else strcmp m (s1 + 1) (s2 + 1)
      else Some (sint (m s1) - sint (m s2)))"

function strncmp_loop :: "mem \<Rightarrow> u32 \<Rightarrow> u32 \<Rightarrow> nat \<Rightarrow> nat \<Rightarrow> int" where
  "strncmp_loop m str1 str2 n i =
     (if i < n then
        let c1 = m (str1 + of_nat i); c2 = m (str2 + of_nat i) in
        if c1 \<noteq> c2 then sint c1 - sint c2
        else if c1 = 0 then 0
        else strncmp_loop m str1 str2 n (Suc i)
      else 0)"
  by pat_completeness auto
termination
  by (relation "measure (\<lambda>(m, str1, str2, n, i). n - i)") auto

definition strncmp :: "mem \<Rightarrow> u32 \<Rightarrow> u32 \<Rightarrow> u32 \<Rightarrow> int" where
  "strncmp m str1 str2 n = strncmp_loop m str1 str2 (unat n) 0"

text \<open>The inner loop of \<open>strncpy\<close>, \<open>while (--n != 0) *d++ = 0\<close>, with \<open>n\<close> rounds left.\<close>

fun zero_fill :: "mem \<Rightarrow> u32 \<Rightarrow> nat \<Rightarrow> mem" where
  "zero_fill m d 0 = m"
| "zero_fill m d (Suc n) = zero_fill (m(d := 0)) (d + 1) n"

fun strncpy_loop :: "mem \<Rightarrow> u32 \<Rightarrow> u32 \<Rightarrow> nat \<Rightarrow> mem" where
  "strncpy_loop m d src 0 = m"
| "strncpy_loop m d src (Suc n) =
     (let m' = m(d := m src)
      in if m src = 0 then zero_fill m' (d + 1) n
         else strncpy_loop m' (d + 1) (src + 1) n)"

definition strncpy :: "mem \<Rightarrow> u32 \<Rightarrow> u32 \<Rightarrow> u32 \<Rightarrow> mem" where
  "strncpy m dst src n = (if n \<noteq> 0 then strncpy_loop m dst src (unat n) else m)"

fun memcpy_loop :: "mem \<Rightarrow> u32 \<Rightarrow> u32 \<Rightarrow> nat \<Rightarrow> mem" where
  "memcpy_loop m d s 0 = m"
| "memcpy_loop m d s (Suc n) = memcpy_loop (m(d := m s)) (d + 1) (s + 1) n"

definition memcpy :: "mem \<Rightarrow> u32 \<Rightarrow> u32 \<Rightarrow> u32 \<Rightarrow> mem" where
  "memcpy m dst src n = memcpy_loop m dst src (unat n)"

fun memset_loop :: "mem \<Rightarrow> u32 \<Rightarrow> u8 \<Rightarrow> nat \<Rightarrow> mem" where
  "memset_loop m d c 0 = m"
| "memset_loop m d c (Suc n) = memset_loop (m(d := c)) (d + 1) c n"

definition memset :: "mem \<Rightarrow> u32 \<Rightarrow> u32 \<Rightarrow> u32 \<Rightarrow> mem" where
  "memset m dst c n = memset_loop m dst (ucast c) (unat n)"

text \<open>
  The upward loop of \<open>memmove\<close> is indexed by \<open>i\<close>; the downward loop decrements \<open>n\<close> before it
  copies and tests it afterwards, so its argument is the value \<open>n\<close> has after the decrement.
\<close>

function memmove_up :: "mem \<Rightarrow> u32 \<Rightarrow> u32 \<Rightarrow> nat \<Rightarrow> nat \<Rightarrow> mem" where
  "memmove_up m d s n i =
     (if i < n then memmove_up (m(d + of_nat i := m (s + of_nat i))) d s n (Suc i) else m)"
  by pat_completeness auto
termination
  by (relation "measure (\<lambda>(m, d, s, n, i). n - i)") auto

function memmove_down :: "mem \<Rightarrow> u32 \<Rightarrow> u32 \<Rightarrow> u32 \<Rightarrow> mem" where
  "memmove_down m d s n =
     (let m' = m(d + n := m (s + n))
      in if n > 0 then memmove_down m' d s (n - 1) else m')"
  by pat_completeness auto
termination
  by (relation "measure (\<lambda>(m, d, s, n). unat n)") (auto simp: unat_minus_one word_gt_0 unat_gt_0)

definition memmove :: "mem \<Rightarrow> u32 \<Rightarrow> u32 \<Rightarrow> u32 \<Rightarrow> mem" where
  "memmove m dst src n =
     (if dst < src then memmove_up m dst src (unat n) 0
      else if dst > src then memmove_down m dst src (n - 1)
      else m)"

declare strncmp_loop.simps [simp del] memmove_up.simps [simp del] memmove_down.simps [simp del]

section \<open>Ranges of memory and C strings\<close>

definition read_bytes :: "mem \<Rightarrow> u32 \<Rightarrow> nat \<Rightarrow> bytes" where
  "read_bytes m p n = map (\<lambda>i. m (p + of_nat i)) [0..<n]"

text \<open>The bytes of the C string at \<open>p\<close>: \<open>xs\<close> holds no zero and a zero follows it.\<close>

definition cstring_at :: "mem \<Rightarrow> u32 \<Rightarrow> bytes \<Rightarrow> bool" where
  "cstring_at m p xs \<longleftrightarrow>
     length xs < 2 ^ 32 \<and> (\<forall>i<length xs. m (p + of_nat i) = xs ! i \<and> xs ! i \<noteq> 0)
     \<and> m (p + of_nat (length xs)) = 0"

text \<open>What a character array holds as a C string, and what \<open>strncpy\<close> of \<open>n\<close> bytes stores.\<close>

definition cstr_of :: "bytes \<Rightarrow> bytes" where
  "cstr_of arr = takeWhile (\<lambda>c. c \<noteq> 0) arr"

definition strncpy_bytes :: "nat \<Rightarrow> bytes \<Rightarrow> bytes" where
  "strncpy_bytes n xs = take n xs @ replicate (n - length xs) 0"

lemma length_strncpy_bytes [simp]: "length (strncpy_bytes n xs) = n"
  by (simp add: strncpy_bytes_def)

lemma length_read_bytes [simp]: "length (read_bytes m p n) = n"
  by (simp add: read_bytes_def)

lemma nth_read_bytes [simp]: "i < n \<Longrightarrow> read_bytes m p n ! i = m (p + of_nat i)"
  by (simp add: read_bytes_def)

lemma addr_eq_iff [simp]:
  "i < 2 ^ 32 \<Longrightarrow> j < 2 ^ 32 \<Longrightarrow> (p + of_nat i = p + (of_nat j :: u32)) = (i = j)"
  by (simp add: word_of_nat_eq_iff take_bit_nat_eq_self)

lemma cstring_at_Nil [simp]: "cstring_at m p [] \<longleftrightarrow> m p = 0"
  by (simp add: cstring_at_def)

lemma cstring_at_Cons:
  "cstring_at m p (x # xs) \<longleftrightarrow>
     m p = x \<and> x \<noteq> 0 \<and> length xs < 2 ^ 32 - 1 \<and> cstring_at m (p + 1) xs"
proof -
  have "(\<forall>i<Suc (length xs). P i) \<longleftrightarrow> P 0 \<and> (\<forall>i<length xs. P (Suc i))" for P
    by (auto simp: less_Suc_eq_0_disj)
  then show ?thesis
    by (auto simp: cstring_at_def algebra_simps)
qed

section \<open>Scans\<close>

lemma strlen_loop_cstring:
  "cstring_at m (str + len) xs \<Longrightarrow> strlen_loop m str len = Some (len + of_nat (length xs))"
proof (induction xs arbitrary: len)
  case Nil
  then show ?case by (simp add: strlen_loop.simps)
next
  case (Cons x xs)
  then have "m (str + len) \<noteq> 0" and "cstring_at m (str + (len + 1)) xs"
    by (simp_all add: cstring_at_Cons add.assoc)
  with Cons.IH [of "len + 1"] show ?case
    by (simp add: strlen_loop.simps add.assoc)
qed

lemma strlen_cstring:
  assumes "cstring_at m str xs"
  shows "strlen m str = Some (of_nat (length xs))" and "unat (of_nat (length xs) :: u32) = length xs"
  using strlen_loop_cstring [of m str 0 xs] assms
  by (simp_all add: strlen_def cstring_at_def unat_of_nat_small)

text \<open>The comparison of two byte strings as signed characters, the reference for \<open>strcmp\<close>.\<close>

fun bytes_cmp :: "bytes \<Rightarrow> bytes \<Rightarrow> int" where
  "bytes_cmp [] [] = 0"
| "bytes_cmp [] (y # ys) = - sint y"
| "bytes_cmp (x # xs) [] = sint x"
| "bytes_cmp (x # xs) (y # ys) = (if x = y then bytes_cmp xs ys else sint x - sint y)"

lemma bytes_cmp_eq_0:
  "0 \<notin> set xs \<Longrightarrow> 0 \<notin> set ys \<Longrightarrow> bytes_cmp xs ys = 0 \<longleftrightarrow> xs = ys"
  by (induction xs ys rule: bytes_cmp.induct) (auto simp: sint_eq_iff sint_eq_0_iff)

lemma cstring_at_no_0: "cstring_at m p xs \<Longrightarrow> 0 \<notin> set xs"
  by (auto simp: cstring_at_def in_set_conv_nth)

lemma strcmp_cstring:
  "cstring_at m s1 xs \<Longrightarrow> cstring_at m s2 ys \<Longrightarrow> strcmp m s1 s2 = Some (bytes_cmp xs ys)"
  by (induction xs ys arbitrary: s1 s2 rule: bytes_cmp.induct)
    (auto simp: cstring_at_Cons strcmp.simps)

lemma strncmp_loop_cstring:
  assumes "cstring_at m (str1 + of_nat i) xs" and "cstring_at m (str2 + of_nat i) ys"
    and "i \<le> n"
  shows "strncmp_loop m str1 str2 n i = bytes_cmp (take (n - i) xs) (take (n - i) ys)"
  using assms
proof (induction "n - i" arbitrary: i xs ys)
  case 0
  then show ?case by (simp add: strncmp_loop.simps)
next
  case (Suc k)
  then have i: "i < n" and n: "n - i = Suc (n - Suc i)" by auto
  have IH: "strncmp_loop m str1 str2 n (Suc i) = bytes_cmp (take (n - Suc i) xs') (take (n - Suc i) ys')"
    if "cstring_at m (str1 + of_nat (Suc i)) xs'" "cstring_at m (str2 + of_nat (Suc i)) ys'" for xs' ys'
    using Suc.hyps(1) [of "Suc i"] Suc.hyps(2) that i by simp
  show ?case
    using Suc.prems i IH unfolding n strncmp_loop.simps [of m str1 str2 n i]
    by (cases xs; cases ys) (auto simp: cstring_at_Cons Let_def algebra_simps)
qed

lemma strncmp_cstring:
  "cstring_at m s1 xs \<Longrightarrow> cstring_at m s2 ys \<Longrightarrow>
   strncmp m s1 s2 n = bytes_cmp (take (unat n) xs) (take (unat n) ys)"
  using strncmp_loop_cstring [of m s1 0 xs s2 ys "unat n"] by (simp add: strncmp_def)

section \<open>Copies\<close>

lemma memset_loop_spec:
  "n \<le> 2 ^ 32 \<Longrightarrow>
   memset_loop m d c n a = (if \<exists>i<n. a = d + of_nat i then c else m a)"
proof (induction n arbitrary: m d)
  case 0
  then show ?case by simp
next
  case (Suc n)
  have "(\<exists>i<Suc n. a = d + of_nat i) \<longleftrightarrow> a = d \<or> (\<exists>i<n. a = d + 1 + of_nat i)"
    by (auto simp: less_Suc_eq_0_disj algebra_simps)
  with Suc show ?case by auto
qed

lemma zero_fill_memset: "zero_fill m d n = memset_loop m d 0 n"
  by (induction n arbitrary: m d) auto

lemma memcpy_loop_frame:
  "(\<And>i. i < n \<Longrightarrow> a \<noteq> d + of_nat i) \<Longrightarrow> memcpy_loop m d s n a = m a"
proof (induction n arbitrary: m d s)
  case 0
  then show ?case by simp
next
  case (Suc n)
  have "a \<noteq> d + 1 + of_nat i" if "i < n" for i
    using Suc.prems [of "Suc i"] that by (simp add: algebra_simps)
  moreover have "a \<noteq> d" using Suc.prems [of 0] by simp
  ultimately show ?case using Suc.IH by simp
qed

text \<open>
  A copy that runs upwards is right when no byte is overwritten before it is read: the ranges
  do not overlap, or the destination lies below the source.
\<close>

lemma memcpy_loop_copies:
  assumes "n \<le> 2 ^ 32" and "\<And>i j. i < n \<Longrightarrow> j < i \<Longrightarrow> d + of_nat j \<noteq> s + of_nat i"
    and "k < n"
  shows "memcpy_loop m d s n (d + of_nat k) = m (s + of_nat k)"
  using assms
proof (induction n arbitrary: m d s k)
  case 0
  then show ?case by simp
next
  case (Suc n)
  show ?case
  proof (cases k)
    case 0
    have "d \<noteq> d + 1 + of_nat i" if "i < n" for i
      using addr_eq_iff [of 0 "Suc i" d] that Suc.prems(1) by (simp add: add.assoc)
    then have "memcpy_loop (m(d := m s)) (d + 1) (s + 1) n d = (m(d := m s)) d"
      by (intro memcpy_loop_frame) auto
    with 0 show ?thesis by simp
  next
    case (Suc k')
    have sep: "d + 1 + of_nat j \<noteq> s + 1 + of_nat i" if "i < n" "j < i" for i j
      using Suc.prems(2) [of "Suc i" "Suc j"] that by (simp add: algebra_simps)
    have "memcpy_loop (m(d := m s)) (d + 1) (s + 1) n (d + 1 + of_nat k')
        = (m(d := m s)) (s + 1 + of_nat k')"
      by (rule Suc.IH) (use Suc.prems(1,3) Suc sep in auto)
    moreover have "s + 1 + of_nat k' \<noteq> d"
      using Suc.prems(2) [of k 0] Suc.prems(3) Suc by (auto simp: algebra_simps)
    ultimately show ?thesis using Suc by (simp add: algebra_simps)
  qed
qed

lemma memmove_up_memcpy:
  "i \<le> n \<Longrightarrow> memmove_up m d s n i = memcpy_loop m (d + of_nat i) (s + of_nat i) (n - i)"
proof (induction m d s n i rule: memmove_up.induct)
  case (1 m d s n i)
  then show ?case
  proof (cases "i < n")
    case True
    then have "n - i = Suc (n - Suc i)" by simp
    with 1 True show ?thesis
      by (simp add: memmove_up.simps [of m d s n i] fun_upd_def algebra_simps)
  next
    case False
    with 1 have "i = n" by simp
    then show ?thesis by (simp add: memmove_up.simps [of m d s n n])
  qed
qed

lemma memmove_down_frame:
  "(\<And>i. i \<le> unat n \<Longrightarrow> a \<noteq> d + of_nat i) \<Longrightarrow> memmove_down m d s n a = m a"
proof (induction m d s n rule: memmove_down.induct)
  case (1 m d s n)
  have a: "a \<noteq> d + n" using "1.prems" [of "unat n"] by simp
  show ?case
  proof (cases "n > 0")
    case True
    then have "unat (n - 1) < unat n"
      by (metis diff_less unat_gt_0 unat_minus_one word_gt_0 zero_less_one)
    then have "memmove_down (m(d + n := m (s + n))) d s (n - 1) a = (m(d + n := m (s + n))) a"
      using True "1.prems" by (intro "1.IH") auto
    with True a show ?thesis by (simp add: memmove_down.simps [of m d s n] Let_def)
  next
    case False
    with a show ?thesis by (simp add: memmove_down.simps [of m d s n] Let_def)
  qed
qed

lemma memmove_down_copies:
  assumes "\<And>i j. j \<le> unat n \<Longrightarrow> i < j \<Longrightarrow> d + of_nat j \<noteq> s + of_nat i"
    and "k \<le> unat n"
  shows "memmove_down m d s n (d + of_nat k) = m (s + of_nat k)"
  using assms
proof (induction m d s n rule: memmove_down.induct)
  case (1 m d s n)
  let ?m = "m(d + n := m (s + n))"
  have lt: "unat i < 2 ^ 32" for i :: u32
    using unat32_less [of i] by simp
  show ?case
  proof (cases "k = unat n")
    case True
    have "memmove_down ?m d s (n - 1) (d + n) = ?m (d + n)" if "n > 0"
    proof (rule memmove_down_frame)
      fix i assume "i \<le> unat (n - 1)"
      moreover have "unat (n - 1) < unat n"
        using that by (metis diff_less unat_gt_0 unat_minus_one word_gt_0 zero_less_one)
      ultimately show "d + n \<noteq> d + of_nat i"
        using addr_eq_iff [of "unat n" i d] lt [of n] by auto
    qed
    with True show ?thesis by (auto simp: memmove_down.simps [of m d s n] Let_def word_gt_0)
  next
    case False
    with "1.prems"(2) have k: "k < unat n" by simp
    then have n: "n > 0" and "n \<noteq> 0" by (auto simp: word_gt_0)
    then have u: "unat (n - 1) = unat n - 1" by (simp add: unat_minus_one)
    have "memmove_down ?m d s (n - 1) (d + of_nat k) = ?m (s + of_nat k)"
      using n k u "1.prems"(1) by (intro "1.IH") auto
    moreover have "s + of_nat k \<noteq> d + n"
      using "1.prems"(1) [of "unat n" k] k by auto
    ultimately show ?thesis
      using n by (simp add: memmove_down.simps [of m d s n] Let_def)
  qed
qed

lemma strncpy_loop_frame:
  "(\<And>i. i < n \<Longrightarrow> a \<noteq> d + of_nat i) \<Longrightarrow> n \<le> 2 ^ 32 \<Longrightarrow> strncpy_loop m d s n a = m a"
proof (induction n arbitrary: m d s)
  case 0
  then show ?case by simp
next
  case (Suc n)
  have "a \<noteq> d + 1 + of_nat i" if "i < n" for i
    using Suc.prems(1) [of "Suc i"] that by (simp add: algebra_simps)
  moreover have "a \<noteq> d" using Suc.prems(1) [of 0] by simp
  ultimately show ?case
    using Suc.IH Suc.prems(2) by (auto simp: Let_def zero_fill_memset memset_loop_spec)
qed

lemma strncpy_loop_copies:
  assumes "n \<le> 2 ^ 32" and "cstring_at m s xs"
    and "\<And>i j. i < n \<Longrightarrow> j \<le> length xs \<Longrightarrow> d + of_nat i \<noteq> s + of_nat j"
    and "k < n"
  shows "strncpy_loop m d s n (d + of_nat k) = strncpy_bytes n xs ! k"
  using assms
proof (induction n arbitrary: m d s k xs)
  case 0
  then show ?case by simp
next
  case (Suc n)
  have fr: "d \<noteq> d + 1 + of_nat i" if "i < n" for i
    using addr_eq_iff [of 0 "Suc i" d] that Suc.prems(1) by (simp add: add.assoc)
  show ?case
  proof (cases xs)
    case Nil
    with Suc.prems(2) have "m s = 0" by simp
    moreover have "\<exists>i<n. d + of_nat k = d + 1 + of_nat i" if "k \<noteq> 0"
      using that Suc.prems(4) by (intro exI [of _ "k - 1"]) (auto simp: of_nat_diff)
    ultimately show ?thesis
      using Suc.prems(1,4) Nil fr
      by (cases k) (auto simp: zero_fill_memset memset_loop_spec strncpy_bytes_def)
  next
    case (Cons x ys)
    let ?m = "m(d := m s)"
    from Suc.prems(2) Cons have x: "m s = x" "x \<noteq> 0" and ys: "cstring_at m (s + 1) ys"
      by (auto simp: cstring_at_Cons)
    have "s + 1 + of_nat j \<noteq> d" if "j \<le> length ys" for j
      using Suc.prems(3) [of 0 "Suc j"] that Cons by (auto simp: algebra_simps)
    then have ys': "cstring_at ?m (s + 1) ys"
      using ys by (auto simp: cstring_at_def)
    have sep: "d + 1 + of_nat i \<noteq> s + 1 + of_nat j" if "i < n" "j \<le> length ys" for i j
      using Suc.prems(3) [of "Suc i" "Suc j"] that Cons by (auto simp: algebra_simps)
    have IH: "strncpy_loop ?m (d + 1) (s + 1) n (d + 1 + of_nat j) = strncpy_bytes n ys ! j"
      if "j < n" for j
      using Suc.prems(1) ys' sep that by (intro Suc.IH) (auto simp: fun_upd_def)
    have "strncpy_loop ?m (d + 1) (s + 1) n d = ?m d"
      using fr Suc.prems(1) by (intro strncpy_loop_frame) auto
    then show ?thesis
      using x IH [of "k - 1"] Suc.prems(4) Cons
      by (cases k) (auto simp: strncpy_bytes_def algebra_simps)
  qed
qed

section \<open>Properties\<close>

lemma no_wrap_less:
  assumes "d < s" and "unat s + n \<le> 2 ^ 32" and "i < n" and "j \<le> i"
  shows "d + of_nat j \<noteq> s + (of_nat i :: u32)"
proof -
  have "unat d < unat s" using assms(1) by (simp add: word_less_nat_alt)
  then have "unat (d + of_nat j) < unat (s + (of_nat i :: u32))"
    using assms by (simp add: unat_plus_of_nat)
  then show ?thesis by auto
qed

text \<open>
  \<open>memmove\<close> moves a non-empty range correctly however the two ranges overlap, as long as
  neither wraps around the address space: afterwards the destination holds what the source
  held before, and no other byte has changed.
\<close>

theorem memmove_correct:
  assumes "0 < n" and "unat dst + unat n \<le> 2 ^ 32" and "unat src + unat n \<le> 2 ^ 32"
  shows "read_bytes (memmove m dst src n) dst (unat n) = read_bytes m src (unat n)
    \<and> (\<forall>a. a \<notin> {dst + of_nat i | i. i < unat n} \<longrightarrow> memmove m dst src n a = m a)"
proof -
  have n: "unat n \<le> 2 ^ 32" and n1: "unat (n - 1) = unat n - 1" and pos: "0 < unat n"
    using unat32_less [of n] assms(1) by (auto simp: unat_minus_one word_gt_0 unat_gt_0)
  consider (up) "dst < src" | (down) "src < dst" | (same) "dst = src" by fastforce
  then show ?thesis
  proof cases
    case up
    have "memcpy_loop m dst src (unat n) (dst + of_nat k) = m (src + of_nat k)" if "k < unat n" for k
      by (rule memcpy_loop_copies [OF n _ that])
        (meson assms(3) less_imp_le no_wrap_less up)
    with up show ?thesis
      by (auto simp: memmove_def memmove_up_memcpy intro!: nth_equalityI memcpy_loop_frame)
  next
    case down
    have "memmove_down m dst src (n - 1) (dst + of_nat k) = m (src + of_nat k)" if "k < unat n" for k
    proof (rule memmove_down_copies)
      show "dst + of_nat j \<noteq> src + of_nat i" if "j \<le> unat (n - 1)" "i < j" for i j
      proof -
        have "j < unat n" using that(1) n1 pos by linarith
        then show ?thesis
          using no_wrap_less [of src dst "unat n" j i] down assms(2) that(2) by auto
      qed
      show "k \<le> unat (n - 1)" using that n1 by simp
    qed
    moreover have "memmove_down m dst src (n - 1) a = m a"
      if "a \<notin> {dst + of_nat i | i. i < unat n}" for a
      by (rule memmove_down_frame) (use that n1 pos in auto)
    ultimately show ?thesis
      using down by (auto simp: memmove_def intro!: nth_equalityI)
  next
    case same
    then show ?thesis by (simp add: memmove_def)
  qed
qed

theorem memmove_correct_witness:
  "read_bytes (memmove (\<lambda>a. ucast a) 101 100 3) 101 3 = [100, 101, 102]"
proof -
  have "read_bytes (memmove (\<lambda>a. ucast a) 101 100 3) 101 (unat (3::u32))
      = read_bytes (\<lambda>a. ucast a) 100 (unat (3::u32))"
    using memmove_correct [of 3 101 100 "\<lambda>a. ucast a"] by simp
  then show ?thesis by (simp add: read_bytes_def upt_rec)
qed

text \<open>
  The case \<open>memmove_correct\<close> excludes is broken: with \<open>n = 0\<close> and the destination above the
  source the downward loop decrements \<open>n\<close> to \<open>2 ^ 32 - 1\<close> before it tests it, and overwrites the
  byte before the destination with the byte before the source, although nothing was to be moved.
\<close>

theorem memmove_zero_length_overwrites:
  assumes "src < dst"
  shows "memmove m dst src 0 (dst - 1) = m (src - 1)"
proof -
  have "memmove_down m' dst src (- 2) (dst - 1) = m' (dst - 1)" for m'
  proof (rule memmove_down_frame)
    fix i
    assume "i \<le> unat (- 2 :: u32)"
    then have i: "i \<le> 2 ^ 32 - 2" by simp
    have "dst - 1 = dst + of_nat (2 ^ 32 - 1)" by simp
    then show "dst - 1 \<noteq> dst + of_nat i"
      using addr_eq_iff [of "2 ^ 32 - 1" i dst] i by (simp only:) simp
  qed
  with assms less_not_sym [OF assms] show ?thesis
    by (simp add: memmove_def memmove_down.simps [of _ _ _ "- 1"] Let_def)
qed

theorem memmove_zero_length_witness:
  "memmove (\<lambda>a. ucast a) 101 100 0 100 = 99 \<and> (ucast (100::u32) :: u8) = 100"
  using memmove_zero_length_overwrites [of 100 101 "\<lambda>a. ucast a"] by simp

text \<open>
  \<open>strncpy\<close> stores exactly \<open>n\<close> bytes: the first \<open>n\<close> of the source string, filled up with
  zeros when the string is shorter, and nothing outside the destination.
\<close>

theorem strncpy_correct:
  assumes "cstring_at m src xs"
    and "\<forall>i<unat n. \<forall>j\<le>length xs. dst + of_nat i \<noteq> src + of_nat j"
  shows "read_bytes (strncpy m dst src n) dst (unat n) = strncpy_bytes (unat n) xs
    \<and> (\<forall>a. a \<notin> {dst + of_nat i | i. i < unat n} \<longrightarrow> strncpy m dst src n a = m a)"
proof -
  have n: "unat n \<le> 2 ^ 32" using unat32_less [of n] by simp
  have "strncpy_loop m dst src (unat n) (dst + of_nat k) = strncpy_bytes (unat n) xs ! k"
    if "k < unat n" for k
    by (rule strncpy_loop_copies [OF n assms(1) _ that]) (use assms(2) in auto)
  then show ?thesis
    using n by (auto simp: strncpy_def strncpy_bytes_def intro!: nth_equalityI strncpy_loop_frame)
qed

theorem strncpy_correct_witness:
  "read_bytes (strncpy (\<lambda>a. if a = 10 then 65 else 0) 20 10 4) 20 4 = [65, 0, 0, 0]"
proof -
  let ?m = "(\<lambda>a. if a = 10 then 65 else 0) :: mem"
  have "cstring_at ?m 10 [65]" by (simp add: cstring_at_Cons)
  moreover have "\<forall>i<unat (4::u32). \<forall>j\<le>length [65::u8]. (20::u32) + of_nat i \<noteq> 10 + of_nat j"
  proof (intro allI impI)
    fix i j
    assume "i < unat (4::u32)" and "j \<le> length [65::u8]"
    then have "unat ((20::u32) + of_nat i) \<noteq> unat ((10::u32) + of_nat j)"
      by (simp add: unat_plus_of_nat)
    then show "(20::u32) + of_nat i \<noteq> 10 + of_nat j" by metis
  qed
  ultimately show ?thesis
    using strncpy_correct [of ?m 10 "[65]" 4 20]
    by (simp add: strncpy_bytes_def numeral_3_eq_3)
qed

text \<open>
  On C strings \<open>strlen\<close> returns the number of bytes before the terminator, and \<open>strcmp\<close>
  returns, with the value 0 exactly for equal strings.
\<close>

theorem strlen_strcmp_cstrings:
  assumes "cstring_at m s1 xs" and "cstring_at m s2 ys"
  shows "map_option unat (strlen m s1) = Some (length xs)
    \<and> (\<exists>r. strcmp m s1 s2 = Some r \<and> (r = 0 \<longleftrightarrow> xs = ys))"
  using strlen_cstring [OF assms(1)] strcmp_cstring [OF assms]
    bytes_cmp_eq_0 [OF cstring_at_no_0 cstring_at_no_0, OF assms]
  by simp

theorem strlen_strcmp_witness:
  "map_option unat (strlen (\<lambda>a. if a = 10 then 65 else 0) 10) = Some 1
   \<and> (\<exists>r. strcmp (\<lambda>a. if a = 10 then 65 else 0) 10 20 = Some r \<and> r \<noteq> 0)"
  using strlen_strcmp_cstrings [of "\<lambda>a. if a = 10 then 65 else 0" 10 "[65]" 20 "[]"]
  by (auto simp: cstring_at_Cons)

end
