(* ===== verification/Proctab.thy ===== *)
theory Proctab
  imports KTypes Cstring "HOL-Library.Sublist"
begin

text \<open>
  The process table: \<open>sys/kern/proc.c\<close> (allocation, sleep and wakeup, wait, the process
  listing), \<open>sys/kern/sched.c\<close>, \<open>sys/kern/kern_prot.c\<close> (credentials), the table part of
  \<open>sys/kern/kern_signal.c\<close>, and the clock interrupt of \<open>sys/i386/pit.c\<close> that wakes sleepers.
\<close>

section \<open>Access to the table\<close>

definition upd_proc :: "nat \<Rightarrow> (proc \<Rightarrow> proc) \<Rightarrow> kstate \<Rightarrow> kstate" where
  "upd_proc i f s = s\<lparr>procs := (procs s)[i := f (procs s ! i)]\<rparr>"

text \<open>\<open>cur_proc->...\<close>: a NULL \<open>cur_proc\<close> is a fault.\<close>

definition with_cur :: "(nat \<Rightarrow> 'a kernel) \<Rightarrow> 'a kernel" where
  "with_cur f = bindK (getK cur_proc) (\<lambda>c. case c of None \<Rightarrow> faultK | Some p \<Rightarrow> f p)"

abbreviation (input) cur :: "kstate \<Rightarrow> proc" where
  "cur s \<equiv> procs s ! the (cur_proc s)"

section \<open>Sleep and wakeup\<close>

definition wakeup_proc :: "wchan \<Rightarrow> proc \<Rightarrow> proc" where
  "wakeup_proc w p =
     (if p_state p = STATE_SLEEP \<and> p_wchan p = w
      then p\<lparr>p_state := STATE_RUNNING, p_wchan := WNull\<rparr> else p)"

definition wakeup_state :: "wchan \<Rightarrow> kstate \<Rightarrow> kstate" where
  "wakeup_state w s = s\<lparr>procs := map (wakeup_proc w) (procs s)\<rparr>"

definition wakeup :: "wchan \<Rightarrow> unit kernel" where
  "wakeup w = modifyK (wakeup_state w)"

definition sleep :: "wchan \<Rightarrow> 'a kernel" where
  "sleep w s =
     (case cur_proc s of
        None \<Rightarrow> Panic ''sleep: no current process''
      | Some p \<Rightarrow> Sleeping w (upd_proc p (\<lambda>q. q\<lparr>p_wchan := w, p_state := STATE_SLEEP\<rparr>) s))"

section \<open>Allocation\<close>

text \<open>The kernel stack: the frame of the user registers lies at its top, below it the return
  address of \<open>sysleave\<close> and the four registers that \<open>swtch\<close> pops.\<close>

definition proc_init_kstack :: "proc \<Rightarrow> proc" where
  "proc_init_kstack p = p\<lparr>p_esp0 := p_kstack p + of_nat PAGE_SIZE - 64 - 4 - 4 * 4\<rparr>"

definition proc_alloc :: "nat option kernel" where
  "proc_alloc =
     bindK (getK procs) (\<lambda>tab.
     case first_index (\<lambda>p. p_state p = STATE_NULL) tab of
       None \<Rightarrow> returnK None
     | Some i \<Rightarrow>
         thenK (modifyK (\<lambda>s. upd_proc i (\<lambda>p. (zero_proc (p_context p))
                  \<lparr>p_kstack := kstack_base s + of_nat (PAGE_SIZE * i)\<rparr>) s))
         (bindK (getK nextpid) (\<lambda>pid.
          if pid = 0x7FFF then returnK None
          else
            thenK (modifyK (upd_proc i (\<lambda>p. proc_init_kstack
                     (p\<lparr>p_cwd := None, p_wchan := WNull, p_state := STATE_IDLE, p_pid := pid,
                        p_brk := USER_TEXT,
                        p_sigact := (p_sigact p)\<lparr>handlers := replicate NSIG SIG_DFL\<rparr>\<rparr>))))
            (thenK (modifyK (\<lambda>s. s\<lparr>nextpid := pid + 1\<rparr>))
            (returnK (Some i))))))"

definition proc_init_user_context :: "nat \<Rightarrow> u32 \<Rightarrow> unit kernel" where
  "proc_init_user_context i user_esp =
     modifyK (upd_proc i (\<lambda>p. p\<lparr>p_context := (p_context p)
       \<lparr>fr_cs := 0x18 OR 3, fr_ds := 0x20 OR 3, fr_ss := 0x20 OR 3, fr_esp := 0,
        fr_eflags := 0x200, fr_eip := 0x100000, fr_user_esp := user_esp\<rparr>\<rparr>))"

definition proc_init :: "unit kernel" where
  "proc_init = modifyK (\<lambda>s. s\<lparr>procs := map (\<lambda>p. p\<lparr>p_state := STATE_NULL\<rparr>) (procs s)\<rparr>)"

section \<open>Signals pending on a process\<close>

definition signal_pending_proc :: "proc \<Rightarrow> bool" where
  "signal_pending_proc p \<longleftrightarrow> (p_sig_pending p AND NOT (p_sig_mask p)) \<noteq> 0"

definition signal_pending :: "nat \<Rightarrow> bool kernel" where
  "signal_pending i = getK (\<lambda>s. signal_pending_proc (procs s ! i))"

definition killproc :: "nat option \<Rightarrow> int \<Rightarrow> int kernel" where
  "killproc p sig =
     (case p of
        None \<Rightarrow> returnK (- EINVAL)
      | Some i \<Rightarrow>
          thenK (modifyK (upd_proc i (\<lambda>q. q\<lparr>p_sig_pending := p_sig_pending q OR mask1 (nat (sig - 1))\<rparr>)))
          (returnK 0))"

definition live_proc :: "proc \<Rightarrow> bool" where
  "live_proc p \<longleftrightarrow> p_state p \<noteq> STATE_NULL \<and> p_state p \<noteq> STATE_ZOMBIE"

text \<open>The loop of \<open>killpgrp\<close> runs from the last entry of the table down to the first.\<close>

fun killpgrp_loop :: "nat \<Rightarrow> int \<Rightarrow> int \<Rightarrow> int \<Rightarrow> int kernel" where
  "killpgrp_loop 0 pgrp sig ret = returnK ret"
| "killpgrp_loop (Suc p) pgrp sig ret =
     bindK (getK (\<lambda>s. procs s ! p)) (\<lambda>q.
     if live_proc q \<and> p_pgrp q = pgrp then
       bindK (killproc (Some p) sig) (\<lambda>r.
       killpgrp_loop p pgrp sig (if r = 0 then 0 else ret))
     else killpgrp_loop p pgrp sig ret)"

definition killpgrp :: "int \<Rightarrow> int \<Rightarrow> int kernel" where
  "killpgrp pgrp sig = killpgrp_loop NPROC pgrp sig (- ESRCH)"

definition kill :: "int \<Rightarrow> int \<Rightarrow> int kernel" where
  "kill pid sig =
     (if sig < SIGHUP \<or> sig > SIGTERM then returnK (- EINVAL)
      else if pid < - 1 then killpgrp (to_short (- pid)) sig
      else
        bindK (getK procs) (\<lambda>tab.
        case first_index (\<lambda>q. live_proc q \<and> p_pid q = pid) tab of
          None \<Rightarrow> returnK (- ESRCH)
        | Some i \<Rightarrow> killproc (Some i) sig))"

text \<open>The value is the old handler, or \<open>-EINVAL\<close> cast to a pointer.\<close>

definition kern_signal :: "int \<Rightarrow> u32 \<Rightarrow> u32 \<Rightarrow> u32 kernel" where
  "kern_signal sig handler sig_dispatcher =
     (if sig = SIGKILL \<or> sig < SIGHUP \<or> sig > SIGTERM then returnK (word_of_int (- EINVAL))
      else
        with_cur (\<lambda>c.
        bindK (getK (\<lambda>s. handlers (p_sigact (procs s ! c)) ! nat (sig - 1))) (\<lambda>old.
        thenK (modifyK (upd_proc c (\<lambda>p. p\<lparr>p_sigact := (p_sigact p)
                 \<lparr>handlers := (handlers (p_sigact p))[nat (sig - 1) := handler],
                  dispatcher := sig_dispatcher\<rparr>\<rparr>)))
        (returnK old))))"

definition sigreturn :: "int \<Rightarrow> unit kernel" where
  "sigreturn sig =
     with_cur (\<lambda>c. modifyK (upd_proc c (\<lambda>p. p
       \<lparr>p_sig_mask := p_sig_mask p AND NOT (mask1 (nat (sig - 1))),
        p_context := sig_context (p_sigact p)\<rparr>)))"

section \<open>Wait\<close>

text \<open>
  One pass of the loop of \<open>wait()\<close>; a process that is woken from the \<open>sleep\<close> starts the next
  pass, which is again \<open>wait\<close>.  The value is the returned pid and the status stored through
  the pointer, if any.
\<close>

definition wait :: "bool \<Rightarrow> (int \<times> int option) kernel" where
  "wait status =
     with_cur (\<lambda>c.
     bindK (getK procs) (\<lambda>tab.
     case first_index (\<lambda>p. p_state p \<noteq> STATE_NULL \<and> p_parent p = Some c
                           \<and> p_state p = STATE_ZOMBIE) tab of
       Some i \<Rightarrow>
         thenK (modifyK (upd_proc i (\<lambda>p. p\<lparr>p_state := STATE_NULL\<rparr>)))
         (returnK (p_pid (tab ! i), if status then Some (p_exit_status (tab ! i)) else None))
     | None \<Rightarrow>
         (if \<exists>p\<in>set tab. p_state p \<noteq> STATE_NULL \<and> p_parent p = Some c then
            bindK (signal_pending c) (\<lambda>sp.
            if sp then returnK (- EINTR, None) else sleep (WProc c))
          else returnK (- ECHILD, None))))"

section \<open>The clock\<close>

abbreviation (input) PIT_FREQ :: u32 where "PIT_FREQ \<equiv> 20"

definition sys_sleep :: "u32 \<Rightarrow> u32 kernel" where
  "sys_sleep seconds = bindK (getK pit_ticks) (\<lambda>t. sleep (WTick (t + PIT_FREQ * seconds)))"

text \<open>What \<open>sys_sleep\<close> does once its \<open>sleep\<close> has returned.\<close>

definition sys_sleep_resume :: "u32 \<Rightarrow> u32 kernel" where
  "sys_sleep_resume wakeup_time =
     bindK (getK pit_ticks) (\<lambda>t.
     returnK ((if t < wakeup_time then wakeup_time - t else 0) div PIT_FREQ))"

text \<open>
  \<open>yield\<close> gives up the processor to the loop of the scheduler, which clears \<open>cur_proc\<close>.  The clock interrupt ends with it, so
  the running process is preempted.
\<close>

definition yield :: "kstate \<Rightarrow> kstate" where
  "yield s = (if cur_proc s = None then s else s\<lparr>cur_proc := None\<rparr>)"

definition pit_irq :: "kstate \<Rightarrow> kstate" where
  "pit_irq s0 =
     (let s1 = s0\<lparr>pit_ticks := pit_ticks s0 + 1\<rparr>;
          s2 = wakeup_state (WTick (pit_ticks s1)) s1;
          s3 = s2\<lparr>pit_ticks_loop := pit_ticks_loop s2 + 1\<rparr>
      in yield (if pit_ticks_loop s3 \<ge> PIT_FREQ
                then s3\<lparr>pit_ticks_loop := 0, pit_time := pit_time s3 + 1\<rparr> else s3))"

definition time :: "int kernel" where
  "time = getK pit_time"

section \<open>The scheduler\<close>

text \<open>
  One round of the loop of \<open>sched()\<close> over the table.  \<open>run p\<close> is what process \<open>p\<close> does with the
  kernel state from \<open>swtch\<close> until it switches back.  The value is the number of processes run.
\<close>

definition runnable :: "proc \<Rightarrow> bool" where
  "runnable p \<longleftrightarrow> p_state p = STATE_RUNNING \<or> (p_state p = STATE_SLEEP \<and> signal_pending_proc p)"

fun sched_round :: "(nat \<Rightarrow> kstate \<Rightarrow> kstate) \<Rightarrow> nat list \<Rightarrow> nat \<Rightarrow> kstate \<Rightarrow> nat \<times> kstate" where
  "sched_round run [] nrunnable s = (nrunnable, s)"
| "sched_round run (p # ps) nrunnable s =
     (if runnable (procs s ! p)
      then sched_round run ps (Suc nrunnable)
             ((run p (s\<lparr>cur_proc := Some p, cur_pmap := PProc p, cr3 := pg_dir_paddr (procs s ! p)\<rparr>))\<lparr>cur_proc := None\<rparr>)
      else sched_round run ps nrunnable s)"

definition sched_pass :: "(nat \<Rightarrow> kstate \<Rightarrow> kstate) \<Rightarrow> kstate \<Rightarrow> nat \<times> kstate" where
  "sched_pass run s = sched_round run [0..<NPROC] 0 s"

section \<open>Credentials\<close>

definition getpid :: "int kernel" where
  "getpid = with_cur (\<lambda>c. getK (\<lambda>s. p_pid (procs s ! c)))"

definition getppid :: "int kernel" where
  "getppid = with_cur (\<lambda>c. getK (\<lambda>s.
     case p_parent (procs s ! c) of None \<Rightarrow> 0 | Some q \<Rightarrow> p_pid (procs s ! q)))"

definition getuid :: "u16 kernel" where
  "getuid = with_cur (\<lambda>c. getK (\<lambda>s. p_uid (procs s ! c)))"

definition getgid :: "u16 kernel" where
  "getgid = with_cur (\<lambda>c. getK (\<lambda>s. p_gid (procs s ! c)))"

definition setuid :: "u16 \<Rightarrow> int kernel" where
  "setuid uid = with_cur (\<lambda>c.
     bindK (getK (\<lambda>s. p_uid (procs s ! c))) (\<lambda>u.
     if u \<noteq> 0 then returnK (- EPERM)
     else thenK (modifyK (upd_proc c (\<lambda>p. p\<lparr>p_uid := uid\<rparr>))) (returnK 0)))"

definition setgid :: "u16 \<Rightarrow> int kernel" where
  "setgid gid = with_cur (\<lambda>c.
     bindK (getK (\<lambda>s. p_uid (procs s ! c))) (\<lambda>u.
     if u \<noteq> 0 then returnK (- EPERM)
     else thenK (modifyK (upd_proc c (\<lambda>p. p\<lparr>p_gid := gid\<rparr>))) (returnK 0)))"

text \<open>The user array is the list of the groups that lie behind the pointer; reading past its
  end is a fault.\<close>

definition sys_setgroups :: "int \<Rightarrow> u16 list option \<Rightarrow> int kernel" where
  "sys_setgroups ngroups groups = with_cur (\<lambda>c.
     bindK (getK (\<lambda>s. p_uid (procs s ! c))) (\<lambda>u.
     if u \<noteq> 0 then returnK (- EPERM)
     else
       thenK (modifyK (upd_proc c (\<lambda>p. p\<lparr>p_ngroups := 0\<rparr>)))
       (case groups of
          None \<Rightarrow> returnK 0
        | Some gs \<Rightarrow>
            if ngroups > 0 \<and> ngroups \<le> int NGROUPS then
              (if nat ngroups \<le> length gs then
                 thenK (modifyK (upd_proc c (\<lambda>p. p
                   \<lparr>p_groups := overwrite (p_groups p) 0 (take (nat ngroups) gs),
                    p_ngroups := ngroups\<rparr>)))
                 (returnK 0)
               else faultK)
            else returnK 0)))"

text \<open>The value is the return code and the groups stored into the user array.\<close>

definition sys_getgroups :: "int \<Rightarrow> (int \<times> u16 list) kernel" where
  "sys_getgroups sz = with_cur (\<lambda>c.
     bindK (getK (\<lambda>s. procs s ! c)) (\<lambda>p.
     if sz = 0 then returnK (p_ngroups p, [])
     else
       (let n = min sz (p_ngroups p)
        in if n < 0 then returnK (- EINVAL, [])
           else returnK (n, take (nat n) (p_groups p)))))"

section \<open>The process listing\<close>

record procinfo =
  pi_pid :: int
  pi_ppid :: int
  pi_state :: procstate
  pi_name :: bytes

abbreviation (input) sizeof_procinfo :: nat where "sizeof_procinfo \<equiv> 24"

definition procinfo_of :: "proc list \<Rightarrow> proc \<Rightarrow> procinfo" where
  "procinfo_of tab p =
     \<lparr>pi_pid = p_pid p,
      pi_ppid = (case p_parent p of None \<Rightarrow> 0 | Some q \<Rightarrow> p_pid (tab ! q)),
      pi_state = p_state p,
      pi_name = (strncpy_bytes PROC_NAME_LEN (cstr_of (p_command p)))[PROC_NAME_LEN - 1 := 0]\<rparr>"

text \<open>
  \<open>len\<close> is the size of the user buffer, \<open>buf\<close> whether the pointer is not NULL.  The value is
  the return code, the entries stored and the length stored through \<open>len\<close>, which \<open>-ENOMEM\<close>
  leaves as it was.
\<close>

fun getprocs_loop :: "proc list \<Rightarrow> proc list \<Rightarrow> bool \<Rightarrow> nat \<Rightarrow> nat \<Rightarrow> procinfo list
    \<Rightarrow> int \<times> procinfo list \<times> nat" where
  "getprocs_loop tab [] buf len offset acc = (0, acc, offset)"
| "getprocs_loop tab (p # ps) buf len offset acc =
     (if p_state p \<noteq> STATE_NULL then
        if buf \<and> offset + sizeof_procinfo > len then (- ENOMEM, acc, len)
        else getprocs_loop tab ps buf len (offset + sizeof_procinfo)
               (if buf then acc @ [procinfo_of tab p] else acc)
      else getprocs_loop tab ps buf len offset acc)"

definition sys_getprocs :: "bool \<Rightarrow> nat \<Rightarrow> (int \<times> procinfo list \<times> nat) kernel" where
  "sys_getprocs buf len = getK (\<lambda>s. getprocs_loop (procs s) (procs s) buf len 0 [])"

section \<open>Wakeup and the table\<close>

lemma length_upd_proc [simp]: "length (procs (upd_proc i f s)) = length (procs s)"
  by (simp add: upd_proc_def)

lemma nth_upd_proc:
  "j < length (procs s) \<Longrightarrow> procs (upd_proc i f s) ! j = (if i = j then f (procs s ! j) else procs s ! j)"
  by (simp add: upd_proc_def nth_list_update)

lemma upd_proc_same [simp]: "i < length (procs s) \<Longrightarrow> procs (upd_proc i f s) ! i = f (procs s ! i)"
  by (simp add: upd_proc_def)

lemma upd_proc_frame [simp]:
  "cur_proc (upd_proc i f s) = cur_proc s" "nextpid (upd_proc i f s) = nextpid s"
  "pit_ticks (upd_proc i f s) = pit_ticks s" "files (upd_proc i f s) = files s"
  "pipes (upd_proc i f s) = pipes s" "inodes (upd_proc i f s) = inodes s"
  "bcache (upd_proc i f s) = bcache s" "ttys (upd_proc i f s) = ttys s"
  "kstack_base (upd_proc i f s) = kstack_base s"
  "pit_ticks_loop (upd_proc i f s) = pit_ticks_loop s"
  by (simp_all add: upd_proc_def)

lemma wakeup_state_frame [simp]:
  "length (procs (wakeup_state w s)) = length (procs s)"
  "cur_proc (wakeup_state w s) = cur_proc s" "nextpid (wakeup_state w s) = nextpid s"
  "pit_ticks (wakeup_state w s) = pit_ticks s" "files (wakeup_state w s) = files s"
  "pipes (wakeup_state w s) = pipes s" "inodes (wakeup_state w s) = inodes s"
  "bcache (wakeup_state w s) = bcache s" "ttys (wakeup_state w s) = ttys s"
  by (simp_all add: wakeup_state_def)

lemma nth_wakeup_state [simp]:
  "i < length (procs s) \<Longrightarrow> procs (wakeup_state w s) ! i = wakeup_proc w (procs s ! i)"
  by (simp add: wakeup_state_def)

lemma wakeup_proc_frame [simp]:
  "p_pid (wakeup_proc w p) = p_pid p" "p_parent (wakeup_proc w p) = p_parent p"
  "p_uid (wakeup_proc w p) = p_uid p" "p_gid (wakeup_proc w p) = p_gid p"
  "p_sig_pending (wakeup_proc w p) = p_sig_pending p" "p_sig_mask (wakeup_proc w p) = p_sig_mask p"
  "p_ofile (wakeup_proc w p) = p_ofile p" "p_cwd (wakeup_proc w p) = p_cwd p"
  by (simp_all add: wakeup_proc_def)

lemma wakeup_proc_null [simp]: "p_state (wakeup_proc w p) = STATE_NULL \<longleftrightarrow> p_state p = STATE_NULL"
  by (auto simp: wakeup_proc_def)

lemma with_cur_exec [kern_simps]:
  "with_cur f s = (case cur_proc s of None \<Rightarrow> Fault | Some p \<Rightarrow> f p s)"
  by (simp add: with_cur_def kern_simps faultK_def split: option.split)

lemma wp_with_cur [simp]:
  "wp (with_cur f) Q s = (case cur_proc s of None \<Rightarrow> False | Some p \<Rightarrow> wp (f p) Q s)"
  by (simp add: with_cur_def split: option.split)

section \<open>Unique process ids\<close>

text \<open>
  The invariant of the table: it has its size, ids in use are positive, below the next id to
  be given out, and no two entries in use share one.
\<close>

definition proctab_inv :: "kstate \<Rightarrow> bool" where
  "proctab_inv s \<longleftrightarrow>
     length (procs s) = NPROC \<and> 0 < nextpid s \<and> nextpid s \<le> 0x7FFF
     \<and> (\<forall>i<NPROC. p_state (procs s ! i) \<noteq> STATE_NULL \<longrightarrow>
           0 < p_pid (procs s ! i) \<and> p_pid (procs s ! i) < nextpid s)
     \<and> (\<forall>i<NPROC. \<forall>j<NPROC. p_state (procs s ! i) \<noteq> STATE_NULL \<longrightarrow>
           p_state (procs s ! j) \<noteq> STATE_NULL \<longrightarrow> p_pid (procs s ! i) = p_pid (procs s ! j) \<longrightarrow> i = j)"

lemma proctab_inv_cong:
  assumes "length (procs t) = length (procs s)" and "nextpid t = nextpid s"
    and "\<And>i. i < length (procs s) \<Longrightarrow> p_pid (procs t ! i) = p_pid (procs s ! i)"
    and "\<And>i. i < length (procs s) \<Longrightarrow>
       p_state (procs t ! i) \<noteq> STATE_NULL \<Longrightarrow> p_state (procs s ! i) \<noteq> STATE_NULL"
    and "proctab_inv s"
  shows "proctab_inv t"
  using assms unfolding proctab_inv_def by (metis (no_types, lifting))

lemma proctab_inv_wakeup: "proctab_inv s \<Longrightarrow> proctab_inv (wakeup_state w s)"
  by (erule proctab_inv_cong [rotated 4]) auto

lemma proctab_inv_upd:
  assumes "proctab_inv s" and "\<And>p. p_pid (f p) = p_pid p"
    and "\<And>p. p_state (f p) \<noteq> STATE_NULL \<Longrightarrow> p_state p \<noteq> STATE_NULL"
  shows "proctab_inv (upd_proc i f s)"
  using assms by (intro proctab_inv_cong [OF _ _ _ _ assms(1)]) (auto simp: nth_upd_proc split: if_splits)

lemma proctab_inv_new:
  assumes s: "proctab_inv s" and i: "i < NPROC" and pid: "nextpid s \<noteq> 0x7FFF" "p_pid q = nextpid s"
  shows "proctab_inv ((upd_proc i (\<lambda>_. q) s)\<lparr>nextpid := nextpid s + 1\<rparr>)" (is "proctab_inv ?t")
proof -
  have len: "length (procs s) = NPROC" and pids: "\<And>j. j < NPROC \<Longrightarrow>
      p_state (procs s ! j) \<noteq> STATE_NULL \<Longrightarrow> 0 < p_pid (procs s ! j) \<and> p_pid (procs s ! j) < nextpid s"
    using s by (auto simp: proctab_inv_def)
  have old: "procs ?t ! j = procs s ! j" if "j < NPROC" "j \<noteq> i" for j
    using that len by (simp add: nth_upd_proc)
  have new: "p_pid (procs ?t ! i) = nextpid s" and nx: "nextpid ?t = nextpid s + 1"
    using len i pid by (simp_all add: nth_upd_proc)
  show ?thesis
    unfolding proctab_inv_def
  proof (intro conjI allI impI)
    show "length (procs ?t) = NPROC" "0 < nextpid ?t" "nextpid ?t \<le> 0x7FFF"
      using s pid by (auto simp: proctab_inv_def)
  next
    fix j
    assume j: "j < NPROC" "p_state (procs ?t ! j) \<noteq> STATE_NULL"
    have "0 < nextpid s" using s by (simp add: proctab_inv_def)
    then show "0 < p_pid (procs ?t ! j)" "p_pid (procs ?t ! j) < nextpid ?t"
      using j old [of j] new pids [of j] by (cases "j = i"; simp add: nx)+
  next
    fix j k
    assume jk: "j < NPROC" "k < NPROC" "p_state (procs ?t ! j) \<noteq> STATE_NULL"
      "p_state (procs ?t ! k) \<noteq> STATE_NULL" "p_pid (procs ?t ! j) = p_pid (procs ?t ! k)"
    show "j = k"
    proof (cases "j = i \<or> k = i")
      case True
      then show ?thesis using jk old [of j] old [of k] new pids [of j] pids [of k] by (cases "j = i"; cases "k = i"; simp)
    next
      case False
      then show ?thesis using jk old [of j] old [of k] s by (auto simp: proctab_inv_def)
    qed
  qed
qed

lemma proc_alloc_exec:
  "proc_alloc s =
     (case first_index (\<lambda>p. p_state p = STATE_NULL) (procs s) of
        None \<Rightarrow> Ok None s
      | Some i \<Rightarrow>
          let q = (zero_proc (p_context (procs s ! i)))
                    \<lparr>p_kstack := kstack_base s + of_nat (PAGE_SIZE * i)\<rparr>;
              s1 = upd_proc i (\<lambda>_. q) s
          in if nextpid s = 0x7FFF then Ok None s1
             else Ok (Some i)
               ((upd_proc i (\<lambda>_. proc_init_kstack (q\<lparr>p_state := STATE_IDLE, p_pid := nextpid s,
                    p_brk := USER_TEXT\<rparr>)) s)\<lparr>nextpid := nextpid s + 1\<rparr>))"
proof (cases "first_index (\<lambda>p. p_state p = STATE_NULL) (procs s)")
  case None
  then show ?thesis by (simp add: proc_alloc_def kern_simps)
next
  case (Some i)
  then have "i < length (procs s)" by (rule first_index_SomeD)
  with Some show ?thesis
    by (simp add: proc_alloc_def kern_simps Let_def upd_proc_def zero_proc_def proc_init_kstack_def)
qed


lemma proctab_inv_bss: "proctab_inv bss_state"
  by (simp add: proctab_inv_def bss_state_def zero_proc_def)


section \<open>Waiting for children\<close>

definition child_of :: "nat \<Rightarrow> proc \<Rightarrow> bool" where
  "child_of c p \<longleftrightarrow> p_state p \<noteq> STATE_NULL \<and> p_parent p = Some c"

text \<open>
  C25: the four ways out of \<open>wait()\<close>.  It returns the id of the first zombie child in the table
  and frees exactly that entry, also when a signal is pending; \<open>-ECHILD\<close> exactly when there is no child; \<open>-EINTR\<close> when
  there are children, none of them a zombie, and a signal is pending; without a signal it then sleeps on the parent's own channel.
\<close>

theorem wait_cases:
  assumes "cur_proc s = Some c" and "c < length (procs s)"
  shows "case wait st s of
      Ok (pid, status) t \<Rightarrow>
        (\<exists>i<length (procs s).
           child_of c (procs s ! i) \<and> p_state (procs s ! i) = STATE_ZOMBIE
           \<and> (\<forall>j<i. \<not> (child_of c (procs s ! j) \<and> p_state (procs s ! j) = STATE_ZOMBIE))
           \<and> pid = p_pid (procs s ! i)
           \<and> status = (if st then Some (p_exit_status (procs s ! i)) else None)
           \<and> t = upd_proc i (\<lambda>p. p\<lparr>p_state := STATE_NULL\<rparr>) s)
        \<or> (pid = - ECHILD \<and> t = s \<and> (\<forall>p\<in>set (procs s). \<not> child_of c p))
        \<or> (pid = - EINTR \<and> t = s \<and> (\<exists>p\<in>set (procs s). child_of c p)
           \<and> (\<forall>p\<in>set (procs s). child_of c p \<longrightarrow> p_state p \<noteq> STATE_ZOMBIE)
           \<and> signal_pending_proc (procs s ! c))
    | Sleeping w t \<Rightarrow>
        w = WProc c \<and> (\<exists>p\<in>set (procs s). child_of c p)
        \<and> (\<forall>p\<in>set (procs s). child_of c p \<longrightarrow> p_state p \<noteq> STATE_ZOMBIE)
        \<and> \<not> signal_pending_proc (procs s ! c)
        \<and> p_state (procs t ! c) = STATE_SLEEP \<and> p_wchan (procs t ! c) = WProc c
    | _ \<Rightarrow> False"
proof -
  let ?z = "\<lambda>p. p_state p \<noteq> STATE_NULL \<and> p_parent p = Some c \<and> p_state p = STATE_ZOMBIE"
  show ?thesis
  proof (cases "first_index ?z (procs s)")
    case (Some i)
    note i = first_index_SomeD [OF Some]
    show ?thesis
      using Some assms i by (auto simp: wait_def kern_simps child_of_def intro!: exI [of _ i])
  next
    case None
    then have nz: "\<forall>p\<in>set (procs s). \<not> ?z p" by (simp only: first_index_None)
    show ?thesis
      using None assms nz
      by (auto simp: wait_def kern_simps child_of_def signal_pending_def sleep_def)
  qed
qed

definition two_procs :: kstate where
  "two_procs = bss_state\<lparr>cur_proc := Some 0,
     procs := (replicate NPROC (zero_proc zero_frame))
       [0 := (zero_proc zero_frame)\<lparr>p_state := STATE_RUNNING, p_pid := 1\<rparr>,
        1 := (zero_proc zero_frame)\<lparr>p_state := STATE_ZOMBIE, p_pid := 2, p_parent := Some 0,
               p_exit_status := 7\<rparr>], nextpid := 3\<rparr>"

lemma two_procs_simps [simp]:
  "cur_proc two_procs = Some 0" "length (procs two_procs) = 8" "nextpid two_procs = 3"
  "procs two_procs ! 0 = (zero_proc zero_frame)\<lparr>p_state := STATE_RUNNING, p_pid := 1\<rparr>"
  "procs two_procs ! Suc 0 = (zero_proc zero_frame)\<lparr>p_state := STATE_ZOMBIE, p_pid := 2,
     p_parent := Some 0, p_exit_status := 7\<rparr>"
  by (simp_all add: two_procs_def)

lemma procs_two_procs:
  "procs two_procs = (zero_proc zero_frame)\<lparr>p_state := STATE_RUNNING, p_pid := 1\<rparr>
     # (zero_proc zero_frame)\<lparr>p_state := STATE_ZOMBIE, p_pid := 2, p_parent := Some 0, p_exit_status := 7\<rparr>
     # replicate 6 (zero_proc zero_frame)"
  by (simp add: two_procs_def numeral_eq_Suc)

theorem wait_cases_witness:
  "\<exists>t. wait True two_procs = Ok (2, Some 7) t
     \<and> t = upd_proc 1 (\<lambda>p. p\<lparr>p_state := STATE_NULL\<rparr>) two_procs"
proof -
  have "wait True two_procs =
      Ok (2, Some 7) (upd_proc 1 (\<lambda>p. p\<lparr>p_state := STATE_NULL\<rparr>) two_procs)"
    by (simp add: wait_def kern_simps procs_two_procs zero_proc_def)
  with wait_cases [of two_procs 0 True] show ?thesis by simp
qed

section \<open>Signals to processes and process groups\<close>

text \<open>The entry of a process after a signal was sent to it.\<close>

definition signalled :: "int \<Rightarrow> proc \<Rightarrow> proc" where
  "signalled sig q = q\<lparr>p_sig_pending := p_sig_pending q OR mask1 (nat (sig - 1))\<rparr>"

lemma killproc_exec [kern_simps]: "killproc (Some i) sig s = Ok 0 (upd_proc i (signalled sig) s)"
  by (simp add: killproc_def kern_simps signalled_def [abs_def])

lemma signalled_frame [simp]:
  "p_pgrp (signalled sig q) = p_pgrp q" "p_state (signalled sig q) = p_state q"
  "p_pid (signalled sig q) = p_pid q" "live_proc (signalled sig q) = live_proc q"
  by (simp_all add: signalled_def live_proc_def)

lemma killpgrp_loop_spec:
  "n \<le> length (procs s) \<Longrightarrow>
   killpgrp_loop n pgrp sig ret s =
     Ok (if \<exists>i<n. live_proc (procs s ! i) \<and> p_pgrp (procs s ! i) = pgrp then 0 else ret)
        (s\<lparr>procs := map (\<lambda>(i, q). if i < n \<and> live_proc q \<and> p_pgrp q = pgrp then signalled sig q else q)
                      (enumerate 0 (procs s))\<rparr>)"
proof (induction n arbitrary: s ret)
  case 0
  have "map (\<lambda>(i, q). q) (enumerate 0 (procs s)) = procs s"
    by (rule nth_equalityI) (auto simp: nth_enumerate_eq)
  then show ?case by (simp add: kern_simps)
next
  case (Suc n)
  let ?m = "live_proc (procs s ! n) \<and> p_pgrp (procs s ! n) = pgrp"
  have n: "n < length (procs s)" using Suc.prems by simp
  show ?case
  proof (cases ?m)
    case True
    let ?s = "upd_proc n (signalled sig) s"
    have "(\<lambda>i. i < n \<and> live_proc (procs ?s ! i) \<and> p_pgrp (procs ?s ! i) = pgrp)
        = (\<lambda>i. i < n \<and> live_proc (procs s ! i) \<and> p_pgrp (procs s ! i) = pgrp)"
      using n by (auto simp: nth_upd_proc fun_eq_iff)
    moreover have "map (\<lambda>(i, q). if i < n \<and> live_proc q \<and> p_pgrp q = pgrp then signalled sig q else q)
          (enumerate 0 (procs ?s))
        = map (\<lambda>(i, q). if i < Suc n \<and> live_proc q \<and> p_pgrp q = pgrp then signalled sig q else q)
          (enumerate 0 (procs s))"
      using n True by (intro nth_equalityI) (auto simp: nth_enumerate_eq nth_upd_proc less_Suc_eq)
    moreover have "n \<le> length (procs ?s)" using n by simp
    ultimately show ?thesis
      using True Suc.IH [of ?s 0]
      by (auto simp: kern_simps bindK_def [of "killproc _ _"] upd_proc_def less_Suc_eq)
  next
    case False
    have "map (\<lambda>(i, q). if i < n \<and> live_proc q \<and> p_pgrp q = pgrp then signalled sig q else q)
          (enumerate 0 (procs s))
        = map (\<lambda>(i, q). if i < Suc n \<and> live_proc q \<and> p_pgrp q = pgrp then signalled sig q else q)
          (enumerate 0 (procs s))"
      using n False by (intro nth_equalityI) (auto simp: nth_enumerate_eq less_Suc_eq)
    then show ?thesis
      using False Suc.IH [of s ret] n by (auto simp: kern_simps less_Suc_eq)
  qed
qed

text \<open>
  C26: \<open>kill()\<close> reaches exactly its targets.  A signal outside \<open>SIGHUP..SIGTERM\<close> is refused.  For
  a pid below -1 the signal is marked pending on every live process of the group and on no
  other; for other pids on the one live process with that id.  Zombies and unused entries are
  never signalled, and without a target the answer is \<open>-ESRCH\<close> and nothing changes.
\<close>

theorem kill_targets:
  assumes "proctab_inv s"
  shows "\<exists>r t. kill pid sig s = Ok r t \<and> length (procs t) = NPROC \<and>
     (let target = (\<lambda>q. live_proc q \<and> (if pid < - 1 then p_pgrp q = to_short (- pid) else p_pid q = pid)) in
      if sig < SIGHUP \<or> sig > SIGTERM then r = - EINVAL \<and> t = s
      else r = (if \<exists>q\<in>set (procs s). target q then 0 else - ESRCH) \<and>
           (\<forall>i<NPROC. procs t ! i = (if target (procs s ! i) then signalled sig (procs s ! i)
                                    else procs s ! i)))"
proof (cases "sig < SIGHUP \<or> sig > SIGTERM")
  case True
  with assms show ?thesis by (auto simp: kill_def kern_simps proctab_inv_def)
next
  case ok: False
  have len: "length (procs s) = NPROC" using assms by (simp add: proctab_inv_def)
  show ?thesis
  proof (cases "pid < - 1")
    case True
    then show ?thesis
      using ok len
      by (auto simp: kill_def killpgrp_def killpgrp_loop_spec nth_enumerate_eq bex_set_nth Let_def)
  next
    case False
    let ?t = "\<lambda>q. live_proc q \<and> p_pid q = pid"
    show ?thesis
    proof (cases "first_index ?t (procs s)")
      case None
      then have "\<forall>q\<in>set (procs s). \<not> ?t q" by (simp only: first_index_None)
      with None False ok len show ?thesis by (auto simp: kill_def kern_simps Let_def)
    next
      case (Some i)
      note i = first_index_SomeD [OF Some]
      have uniq: "\<not> ?t (procs s ! j)" if "j < NPROC" "j \<noteq> i" for j
        using assms that i(1,2) len unfolding proctab_inv_def live_proc_def by metis
      have "?t (procs s ! j) \<longleftrightarrow> j = i" if "j < NPROC" for j
        using uniq that i(2) by blast
      moreover have "\<exists>q\<in>set (procs s). ?t q" using i(1,2) nth_mem by blast
      ultimately show ?thesis
        using Some False ok len by (auto simp: kill_def kern_simps Let_def nth_upd_proc)
    qed
  qed
qed

lemma proctab_inv_two_procs: "proctab_inv two_procs"
proof -
  have "procs two_procs ! i = (if i = 0 then (zero_proc zero_frame)\<lparr>p_state := STATE_RUNNING, p_pid := 1\<rparr>
      else if i = 1 then (zero_proc zero_frame)\<lparr>p_state := STATE_ZOMBIE, p_pid := 2,
        p_parent := Some 0, p_exit_status := 7\<rparr> else zero_proc zero_frame)" if "i < 8" for i
    using that by (auto simp: two_procs_def nth_list_update)
  then show ?thesis
    by (auto simp: proctab_inv_def zero_proc_def split: if_splits)
qed

theorem kill_targets_witness:
  "\<exists>t. kill 1 SIGTERM two_procs = Ok 0 t \<and> p_sig_pending (procs t ! 0) = 0x4000"
proof -
  obtain r t where rt: "kill 1 SIGTERM two_procs = Ok r t"
    "r = (if \<exists>q\<in>set (procs two_procs). live_proc q \<and> p_pid q = 1 then 0 else - ESRCH)"
    "\<forall>i<NPROC. procs t ! i = (if live_proc (procs two_procs ! i) \<and> p_pid (procs two_procs ! i) = 1
       then signalled SIGTERM (procs two_procs ! i) else procs two_procs ! i)"
    using kill_targets [OF proctab_inv_two_procs, of 1 SIGTERM] by (auto simp: Let_def)
  from rt(3) [rule_format, of 0] have "procs t ! 0 = signalled SIGTERM (procs two_procs ! 0)"
    by (simp add: live_proc_def)
  moreover have "r = 0" using rt(2) by (simp add: procs_two_procs live_proc_def)
  ultimately show ?thesis
    using rt(1) by (simp add: signalled_def zero_proc_def mask1_def)
qed

section \<open>Sleeping for a time\<close>

lemma yield_fields [simp]:
  "procs (yield s) = procs s" "pit_ticks (yield s) = pit_ticks s" "pit_time (yield s) = pit_time s" "files (yield s) = files s"
  "cur_proc (yield s) = None"
  by (simp_all add: yield_def)

lemma pit_irq_ticks [simp]: "pit_ticks (pit_irq s) = pit_ticks s + 1"
  by (simp add: pit_irq_def Let_def)

lemma pit_irq_procs [simp]: "procs (pit_irq s) = map (wakeup_proc (WTick (pit_ticks s + 1))) (procs s)"
  by (simp add: pit_irq_def Let_def wakeup_state_def)

lemma pit_irqs_ticks: "pit_ticks ((pit_irq ^^ k) s) = pit_ticks s + of_nat k"
  by (induction k) auto

lemma pit_irqs_length: "length (procs ((pit_irq ^^ k) s)) = length (procs s)"
  by (induction k) auto

lemma pit_irqs_asleep:
  assumes "c < length (procs t)" and "p_state (procs t ! c) = STATE_SLEEP"
    and "p_wchan (procs t ! c) = WTick (pit_ticks t + of_nat n)" and "k < n" and "n \<le> 2 ^ 32"
  shows "procs ((pit_irq ^^ k) t) ! c = procs t ! c"
  using assms(4)
proof (induction k)
  case 0
  then show ?case by simp
next
  case (Suc k)
  have "(of_nat n :: u32) \<noteq> of_nat (Suc k)"
  proof (cases "n = 2 ^ 32")
    case True
    then have "(of_nat n :: u32) = 0" by simp
    moreover have "(of_nat (Suc k) :: u32) \<noteq> 0"
      using Suc.prems True addr_eq_iff [of "Suc k" 0 0] by (simp del: of_nat_Suc)
    ultimately show ?thesis by metis
  next
    case False
    then show ?thesis using Suc.prems assms(5) addr_eq_iff [of n "Suc k" 0] by simp
  qed
  then have "wakeup_proc (WTick (pit_ticks t + of_nat k + 1)) (procs t ! c) = procs t ! c"
    using assms(3) by (simp add: wakeup_proc_def add.assoc add.commute)
  with Suc assms(1) show ?case
    by (simp add: pit_irqs_ticks pit_irqs_length)
qed



section \<open>Credentials of unprivileged processes\<close>

text \<open>The calls of \<open>kern_prot.c\<close> that change credentials, and a process making them in turn.\<close>

datatype cred_call = CSetuid u16 | CSetgid u16 | CSetgroups int "u16 list option"

fun run_cred :: "cred_call \<Rightarrow> int kernel" where
  "run_cred (CSetuid u) = setuid u"
| "run_cred (CSetgid g) = setgid g"
| "run_cred (CSetgroups n gs) = sys_setgroups n gs"

fun cred_calls :: "cred_call list \<Rightarrow> int list kernel" where
  "cred_calls [] = returnK []"
| "cred_calls (c # cs) = bindK (run_cred c) (\<lambda>r. bindK (cred_calls cs) (\<lambda>rs. returnK (r # rs)))"

lemma cred_call_unprivileged:
  assumes "cur_proc s = Some c" and "p_uid (procs s ! c) \<noteq> 0"
  shows "run_cred k s = Ok (- EPERM) s"
  using assms by (cases k) (simp_all add: setuid_def setgid_def sys_setgroups_def kern_simps)

lemma cred_calls_unprivileged:
  assumes "cur_proc s = Some c" and "p_uid (procs s ! c) \<noteq> 0"
  shows "cred_calls ks s = Ok (replicate (length ks) (- EPERM)) s"
  by (induction ks) (simp_all add: kern_simps bindK_def cred_call_unprivileged [OF assms])

text \<open>
  C29: giving up root is final.  Once root has become another user, every later sequence of
  \<open>setuid\<close>, \<open>setgid\<close> and \<open>setgroups\<close> calls of the process answers \<open>-EPERM\<close> each time and leaves
  the kernel state as it is.
\<close>

theorem setuid_irrevocable:
  assumes "cur_proc s = Some c" and "c < length (procs s)" and "p_uid (procs s ! c) = 0" and "u \<noteq> 0"
  shows "\<exists>t. setuid u s = Ok 0 t \<and> p_uid (procs t ! c) = u
     \<and> (\<forall>ks. cred_calls ks t = Ok (replicate (length ks) (- EPERM)) t)"
proof -
  define t where "t = upd_proc c (\<lambda>p. p\<lparr>p_uid := u\<rparr>) s"
  have "setuid u s = Ok 0 t" using assms by (simp add: setuid_def kern_simps t_def)
  moreover have "p_uid (procs t ! c) = u" "cur_proc t = Some c"
    using assms by (simp_all add: t_def)
  ultimately show ?thesis using cred_calls_unprivileged [of t c] assms(4) by auto
qed

theorem setuid_irrevocable_witness:
  "\<exists>t. setuid 5 two_procs = Ok 0 t
     \<and> cred_calls [CSetuid 0, CSetgroups 1 (Some [0])] t = Ok [- 1, - 1] t"
proof -
  have "p_uid (procs two_procs ! 0) = 0" by (simp add: zero_proc_def)
  with setuid_irrevocable [of two_procs 0 5]
  obtain t where "setuid 5 two_procs = Ok 0 t"
    "\<forall>ks. cred_calls ks t = Ok (replicate (length ks) (- EPERM)) t"
    by auto
  then show ?thesis
    by (intro exI [of _ t]) (simp del: cred_calls.simps add: numeral_eq_Suc)
qed

text \<open>
  \<open>getgroups\<close> gives back what \<open>setgroups\<close> stored.  After root has stored a list of at most
  \<open>NGROUPS\<close> groups, size 0 asks for their number, a buffer that is large enough receives exactly the list, a
  smaller one its first entries, and a negative size is refused.
\<close>

theorem setgroups_getgroups:
  assumes "cur_proc s = Some c" and "c < length (procs s)" and "p_uid (procs s ! c) = 0"
    and "length (p_groups (procs s ! c)) = NGROUPS" and "gs \<noteq> []" and "length gs \<le> NGROUPS"
  shows "\<exists>t. sys_setgroups (int (length gs)) (Some gs) s = Ok 0 t
     \<and> sys_getgroups 0 t = Ok (int (length gs), []) t
     \<and> (\<forall>n>0. sys_getgroups (int n) t = Ok (int (min n (length gs)), take n gs) t)
     \<and> (\<forall>n>0. sys_getgroups (- int n) t = Ok (- EINVAL, []) t)"
proof -
  define t where "t = upd_proc c (\<lambda>p. p\<lparr>p_groups := overwrite (p_groups p) 0 gs,
    p_ngroups := int (length gs)\<rparr>) s"
  have "sys_setgroups (int (length gs)) (Some gs) s = Ok 0 t"
    using assms by (simp add: sys_setgroups_def kern_simps t_def upd_proc_def)
  moreover have t: "cur_proc t = Some c" "p_ngroups (procs t ! c) = int (length gs)"
    "p_groups (procs t ! c) = overwrite (p_groups (procs s ! c)) 0 gs"
    using assms by (simp_all add: t_def)
  have "take n (overwrite (p_groups (procs s ! c)) 0 gs) = take n gs" if "n \<le> length gs" for n
    using that by (simp add: overwrite_def)
  then have "take (min n (length gs)) (overwrite (p_groups (procs s ! c)) 0 gs) = take n gs" for n
    by (cases "n \<le> length gs") auto
  moreover have "nat (min (int n) (int (length gs))) = min n (length gs)" for n by simp
  ultimately show ?thesis
    using t by (auto simp: sys_getgroups_def kern_simps Let_def)
qed

theorem setgroups_getgroups_witness:
  "\<exists>t. sys_setgroups 2 (Some [10, 20]) two_procs = Ok 0 t \<and> sys_getgroups 4 t = Ok (2, [10, 20]) t"
proof -
  have "p_uid (procs two_procs ! 0) = 0" "length (p_groups (procs two_procs ! 0)) = NGROUPS"
    by (simp_all add: zero_proc_def)
  with setgroups_getgroups [of two_procs 0 "[10, 20]"] obtain t where
    "sys_setgroups 2 (Some [10, 20]) two_procs = Ok 0 t"
    "\<forall>n>0. sys_getgroups (int n) t = Ok (int (min n (length [10, 20 :: u16])), take n [10, 20]) t"
    by auto
  then show ?thesis by (auto dest: spec [of _ 4])
qed

section \<open>The process listing and the scheduler\<close>

definition used :: "proc \<Rightarrow> bool" where
  "used p \<longleftrightarrow> p_state p \<noteq> STATE_NULL"

lemma getprocs_loop_count:
  "getprocs_loop tab ps False len off acc = (0, acc, off + 24 * length (filter used ps))"
  by (induction ps arbitrary: off) (simp_all add: used_def)

lemma getprocs_loop_fill:
  assumes "24 * k \<le> len"
  shows "getprocs_loop tab ps True len (24 * k) acc =
     (let u = filter used ps in
      if 24 * (k + length u) \<le> len then (0, acc @ map (procinfo_of tab) u, 24 * (k + length u))
      else (- ENOMEM, acc @ map (procinfo_of tab) (take (len div 24 - k) u), len))"
  using assms
proof (induction ps arbitrary: k acc)
  case Nil
  then show ?case by simp
next
  case (Cons p ps)
  show ?case
  proof (cases "used p \<and> 24 * k + 24 \<le> len")
    case True
    then have "len div 24 - k = Suc (len div 24 - Suc k)" by linarith
    then show ?thesis
      using True Cons.IH [of "Suc k" "acc @ [procinfo_of tab p]"]
      by (simp add: used_def Let_def add.commute [of _ 24] add.assoc [symmetric])
  next
    case False
    then show ?thesis
      using Cons.IH [of k acc] Cons.prems by (auto simp: used_def Let_def)
  qed
qed

text \<open>
  The two-call protocol of \<open>getprocs\<close>.  A call without a buffer returns the length that the
  listing needs; a call with a buffer of at least that length stores one entry per used table
  entry, in table order; a shorter buffer gets the entries that fit and \<open>-ENOMEM\<close>.
\<close>

theorem getprocs_protocol:
  "\<exists>n. sys_getprocs False len0 s = Ok (0, [], n) s \<and>
     (\<forall>len. sys_getprocs True len s =
        (let es = map (procinfo_of (procs s)) (filter used (procs s)) in
         if n \<le> len then Ok (0, es, n) s
         else Ok (- ENOMEM, take (len div sizeof_procinfo) es, len) s))"
  by (intro exI [of _ "24 * length (filter used (procs s))"])
    (simp add: sys_getprocs_def kern_simps getprocs_loop_count
      getprocs_loop_fill [of 0, simplified] Let_def take_map)

definition slice :: "(nat \<Rightarrow> kstate \<Rightarrow> kstate) \<Rightarrow> nat \<Rightarrow> kstate \<Rightarrow> kstate" where
  "slice run p s = (run p (s\<lparr>cur_proc := Some p, cur_pmap := PProc p, cr3 := pg_dir_paddr (procs s ! p)\<rparr>))\<lparr>cur_proc := None\<rparr>"

lemma subseq_sorted_wrt: "subseq xs ys \<Longrightarrow> sorted_wrt P ys \<Longrightarrow> sorted_wrt P xs"
  by (induction rule: list_emb.induct) (auto dest: list_emb_set)

lemma sched_round_trace:
  assumes "\<And>p t. length (procs t) = NPROC \<Longrightarrow> length (procs (run p t)) = NPROC"
    and "\<And>p q t. length (procs t) = NPROC \<Longrightarrow> q < NPROC \<Longrightarrow> q \<noteq> p \<Longrightarrow>
           runnable (procs t ! q) \<Longrightarrow> runnable (procs (run p t) ! q)"
    and "distinct ps" and "set ps \<subseteq> {..<NPROC}" and "length (procs s) = NPROC"
  shows "\<exists>rs. sched_round run ps n s = (n + length rs, fold (slice run) rs s)
     \<and> subseq rs ps \<and> (\<forall>p\<in>set ps. runnable (procs s ! p) \<longrightarrow> p \<in> set rs)"
  using assms(3-5)
proof (induction ps arbitrary: n s)
  case Nil
  then show ?case by simp
next
  case (Cons p ps)
  show ?case
  proof (cases "runnable (procs s ! p)")
    case True
    have len: "length (procs (slice run p s)) = NPROC"
      using assms(1) Cons.prems by (simp add: slice_def)
    obtain rs where rs: "sched_round run ps (Suc n) (slice run p s)
        = (Suc n + length rs, fold (slice run) rs (slice run p s))" "subseq rs ps"
      "\<forall>q\<in>set ps. runnable (procs (slice run p s) ! q) \<longrightarrow> q \<in> set rs"
      using Cons.IH [of "slice run p s" "Suc n"] Cons.prems len by auto
    have "runnable (procs (slice run p s) ! q)" if "q \<in> set ps" "runnable (procs s ! q)" for q
      using assms(2) [of "s\<lparr>cur_proc := Some p, cur_pmap := PProc p, cr3 := pg_dir_paddr (procs s ! p)\<rparr>" q p] that Cons.prems
      by (auto simp: slice_def)
    then show ?thesis
      using rs True by (intro exI [of _ "p # rs"]) (auto simp: slice_def [of _ p])
  next
    case False
    obtain rs where "sched_round run ps n s = (n + length rs, fold (slice run) rs s)" "subseq rs ps"
      "\<forall>q\<in>set ps. runnable (procs s ! q) \<longrightarrow> q \<in> set rs"
      using Cons.IH [of s n] Cons.prems by auto
    then show ?thesis using False by (intro exI [of _ rs]) (auto intro: list_emb_Cons)
  qed
qed

text \<open>
  C28: a round of the scheduler starves nobody.  As long as running a process never takes
  another one off the run queue, the processes that get a slice form an ascending list without
  repetitions which contains every process that could run when the round began, and the
  counter that decides whether to halt is the length of that list.
\<close>

theorem sched_pass_fair:
  assumes "\<And>p t. length (procs t) = NPROC \<Longrightarrow> length (procs (run p t)) = NPROC"
    and "\<And>p q t. length (procs t) = NPROC \<Longrightarrow> q < NPROC \<Longrightarrow> q \<noteq> p \<Longrightarrow>
           runnable (procs t ! q) \<Longrightarrow> runnable (procs (run p t) ! q)"
    and "length (procs s) = NPROC"
  shows "\<exists>rs. sched_pass run s = (length rs, fold (slice run) rs s)
     \<and> sorted_wrt (<) rs \<and> set rs \<subseteq> {..<NPROC}
     \<and> (\<forall>p<NPROC. runnable (procs s ! p) \<longrightarrow> p \<in> set rs)"
proof -
  have "\<exists>rs. sched_round run [0..<NPROC] 0 s = (0 + length rs, fold (slice run) rs s)
     \<and> subseq rs [0..<NPROC] \<and> (\<forall>p\<in>set [0..<NPROC]. runnable (procs s ! p) \<longrightarrow> p \<in> set rs)"
    by (rule sched_round_trace) (use assms in auto)
  then obtain rs where rs: "sched_round run [0..<NPROC] 0 s = (length rs, fold (slice run) rs s)"
    "subseq rs [0..<NPROC]" "\<forall>p\<in>set [0..<NPROC]. runnable (procs s ! p) \<longrightarrow> p \<in> set rs"
    by auto
  have "sorted_wrt (<) rs"
    using rs(2) subseq_sorted_wrt [of rs "[0..<NPROC]" "(<)"] by simp
  moreover have "set rs \<subseteq> {..<NPROC}"
    using list_emb_set [OF rs(2)] by (metis atLeast_upt subsetI)
  ultimately show ?thesis
    using rs unfolding sched_pass_def by (intro exI [of _ rs]) auto
qed

theorem sched_pass_witness:
  "\<exists>rs. fst (sched_pass (\<lambda>p t. wakeup_state (WProc p) t) two_procs) = length rs \<and> (0::nat) \<in> set rs"
proof -
  have "runnable (procs (wakeup_state (WProc p) t) ! q)"
    if "length (procs t) = NPROC" "q < NPROC" "runnable (procs t ! q)" for p q t
    using that by (auto simp: runnable_def wakeup_proc_def signal_pending_proc_def)
  with sched_pass_fair [of "\<lambda>p t. wakeup_state (WProc p) t" two_procs]
  obtain rs where "sched_pass (\<lambda>p t. wakeup_state (WProc p) t) two_procs
      = (length rs, fold (slice (\<lambda>p t. wakeup_state (WProc p) t)) rs two_procs)"
    "\<forall>p<NPROC. runnable (procs two_procs ! p) \<longrightarrow> p \<in> set rs"
    by auto
  moreover have "runnable (procs two_procs ! 0)" by (simp add: runnable_def)
  ultimately show ?thesis by (intro exI [of _ rs]) simp
qed

end
