(* ===== verification/Wd.thy ===== *)
theory Wd
  imports Proctab
begin

text \<open>
  The disk driver, \<open>sys/i386/wd.c\<close>, and the end of an I/O operation, \<open>iodone\<close> of
  \<open>sys/kern/bio.c\<close>.  The drive is the array \<open>sectors\<close>: it answers a READ MULTIPLE command of two
  sectors with their contents and stores the data of a WRITE MULTIPLE command.  A read waits
  until its interrupt has arrived; a write returns once the data is with the drive, and its
  interrupt is a later event of its own.
\<close>

section \<open>Buffers\<close>

definition upd_buf :: "nat \<Rightarrow> (buf \<Rightarrow> buf) \<Rightarrow> kstate \<Rightarrow> kstate" where
  "upd_buf i f s = s\<lparr>bcache := (bcache s)[i := f (bcache s ! i)]\<rparr>"

definition or_flags :: "u32 \<Rightarrow> buf \<Rightarrow> buf" where
  "or_flags m b = b\<lparr>b_flags := b_flags b OR m\<rparr>"

definition clear_flags :: "u32 \<Rightarrow> buf \<Rightarrow> buf" where
  "clear_flags m b = b\<lparr>b_flags := b_flags b AND NOT m\<rparr>"

definition iodone :: "nat \<Rightarrow> unit kernel" where
  "iodone i =
     thenK (modifyK (upd_buf i (or_flags B_DONE)))
     (bindK (getK (\<lambda>s. b_flags (bcache s ! i))) (\<lambda>f.
      thenK (whenK (f AND B_WANTED \<noteq> 0) (wakeup (WBuf i)))
      (modifyK (upd_buf i (clear_flags B_WANTED)))))"

section \<open>The drive\<close>

abbreviation (input) IDE_MAX_DEV :: nat where "IDE_MAX_DEV \<equiv> 4"

text \<open>The sector number that reaches the drive: the LBA registers hold 28 bits.\<close>

definition lba28 :: "u32 \<Rightarrow> u32" where
  "lba28 sector = sector AND 0x0FFFFFFF"

definition ide_read_multiple :: "nat \<Rightarrow> u32 \<Rightarrow> kstate \<Rightarrow> bytes" where
  "ide_read_multiple d sector s = sectors s d (lba28 sector) @ sectors s d (lba28 sector + 1)"

definition ide_write_multiple :: "nat \<Rightarrow> u32 \<Rightarrow> bytes \<Rightarrow> kstate \<Rightarrow> kstate" where
  "ide_write_multiple d sector data s =
     s\<lparr>sectors := (sectors s)(d := (sectors s d)
        (lba28 sector := take 512 data, lba28 sector + 1 := take 512 (drop 512 data)))\<rparr>"

section \<open>Interrupt, read and write\<close>

definition upd_wd :: "nat \<Rightarrow> (wd \<Rightarrow> wd) \<Rightarrow> kstate \<Rightarrow> kstate" where
  "upd_wd d f s = s\<lparr>wd_devsw := (wd_devsw s)[d := f (wd_devsw s ! d)]\<rparr>"

text \<open>The status register as its bits RDY and DRQ, and the words the data port delivers.\<close>

definition wd_intr :: "nat \<Rightarrow> bool \<Rightarrow> bool \<Rightarrow> bytes \<Rightarrow> unit kernel" where
  "wd_intr d rdy drq data =
     bindK (getK (\<lambda>s. wd_devsw s ! d)) (\<lambda>w.
     case (rdy \<and> drq, rdbuf w) of
       (True, Some b) \<Rightarrow>
         thenK (modifyK (upd_buf b (\<lambda>x. x\<lparr>b_data := data\<rparr>)))
         (thenK (iodone b)
         (thenK (modifyK (upd_wd d (\<lambda>x. x\<lparr>rdbuf := None\<rparr>)))
         (wakeup (WFun ''wd_intr''))))
     | _ \<Rightarrow>
         (case (rdy, wrbuf w) of
            (True, Some b) \<Rightarrow> thenK (iodone b) (modifyK (upd_wd d (\<lambda>x. x\<lparr>wrbuf := None\<rparr>)))
          | _ \<Rightarrow> returnK ()))"

definition wd_drive :: "u16 \<Rightarrow> nat" where
  "wd_drive dev = unat (drop_bit 4 (minor dev))"

definition wd_part_no :: "u16 \<Rightarrow> nat" where
  "wd_part_no dev = unat (minor dev AND 0x0F)"

text \<open>The checks at the start of \<open>wd_read\<close> and \<open>wd_write\<close>: the drive and the first sector of the
  block, or \<open>None\<close> for the paths that end with \<open>B_ERROR\<close>.\<close>

definition wd_locate :: "wd list \<Rightarrow> u16 \<Rightarrow> u32 \<Rightarrow> (nat \<times> u32) option" where
  "wd_locate tab dev block_no =
     (let d = wd_drive dev; p = wd_part_no dev; sector = block_no * 2
      in if d \<ge> IDE_MAX_DEV \<or> wd_blocks (tab ! d) = 0 then None
         else if p > 0 then
           (if p > 4 \<or> part_type (wd_part (tab ! d) ! (p - 1)) = 0 then None
            else Some (d, sector + part_offset (wd_part (tab ! d) ! (p - 1))))
         else Some (d, sector))"

text \<open>The wait of \<open>wd_read\<close>.  A process sleeps on the handler and is woken by it; the kernel
  itself halts until the interrupt.  In both cases the interrupt of the read ends the loop.\<close>

definition wd_await :: "nat \<Rightarrow> u32 \<Rightarrow> unit kernel" where
  "wd_await d sector =
     bindK (getK (\<lambda>s. (cur_proc s, ide_read_multiple d sector s))) (\<lambda>(c, data).
     thenK (case c of
              Some p \<Rightarrow> modifyK (upd_proc p (\<lambda>q. q\<lparr>p_wchan := WFun ''wd_intr'', p_state := STATE_SLEEP\<rparr>))
            | None \<Rightarrow> returnK ())
     (wd_intr d True True data))"

definition wd_read :: "nat \<Rightarrow> unit kernel" where
  "wd_read i =
     bindK (getK (\<lambda>s. wd_locate (wd_devsw s) (b_dev (bcache s ! i)) (b_block_no (bcache s ! i)))) (\<lambda>loc.
     case loc of
       None \<Rightarrow> thenK (modifyK (upd_buf i (or_flags B_ERROR))) (iodone i)
     | Some (d, sector) \<Rightarrow>
         thenK (modifyK (upd_wd d (\<lambda>x. x\<lparr>rdbuf := Some i\<rparr>)))
         (wd_await d sector))"

definition wd_write :: "nat \<Rightarrow> unit kernel" where
  "wd_write i =
     bindK (getK (\<lambda>s. wd_locate (wd_devsw s) (b_dev (bcache s ! i)) (b_block_no (bcache s ! i)))) (\<lambda>loc.
     case loc of
       None \<Rightarrow> thenK (modifyK (upd_buf i (or_flags B_ERROR))) (iodone i)
     | Some (d, sector) \<Rightarrow>
         thenK (modifyK (upd_wd d (\<lambda>x. x\<lparr>wrbuf := Some i\<rparr>)))
         (modifyK (\<lambda>s. ide_write_multiple d sector (b_data (bcache s ! i)) s)))"

text \<open>\<open>sys/i386/conf.c\<close>: the table of block devices.\<close>

definition bdevsw :: "(string \<times> (nat \<Rightarrow> unit kernel) option \<times> (nat \<Rightarrow> unit kernel) option) list" where
  "bdevsw = [(''wd'', Some wd_read, Some wd_write)]"

definition num_bdev :: nat where
  "num_bdev = length bdevsw"

section \<open>Execution\<close>

lemma upd_buf_frame [simp]:
  "length (bcache (upd_buf i f s)) = length (bcache s)" "procs (upd_buf i f s) = procs s"
  "cur_proc (upd_buf i f s) = cur_proc s" "sectors (upd_buf i f s) = sectors s"
  "wd_devsw (upd_buf i f s) = wd_devsw s" "bfree_next (upd_buf i f s) = bfree_next s"
  "bfree_prev (upd_buf i f s) = bfree_prev s" "super (upd_buf i f s) = super s"
  "inodes (upd_buf i f s) = inodes s" "pit_time (upd_buf i f s) = pit_time s"
  by (simp_all add: upd_buf_def)

lemma nth_upd_buf:
  "j < length (bcache s) \<Longrightarrow> bcache (upd_buf i f s) ! j = (if i = j then f (bcache s ! j) else bcache s ! j)"
  by (simp add: upd_buf_def nth_list_update)

lemma upd_buf_same [simp]: "i < length (bcache s) \<Longrightarrow> bcache (upd_buf i f s) ! i = f (bcache s ! i)"
  by (simp add: upd_buf_def)

lemma upd_wd_frame [simp]:
  "bcache (upd_wd d f s) = bcache s" "procs (upd_wd d f s) = procs s" "cur_proc (upd_wd d f s) = cur_proc s"
  "sectors (upd_wd d f s) = sectors s" "bfree_next (upd_wd d f s) = bfree_next s"
  "bfree_prev (upd_wd d f s) = bfree_prev s" "super (upd_wd d f s) = super s"
  "inodes (upd_wd d f s) = inodes s" "length (wd_devsw (upd_wd d f s)) = length (wd_devsw s)"
  by (simp_all add: upd_wd_def)

lemma flags_frame [simp]:
  "b_data (or_flags m b) = b_data b" "b_dev (or_flags m b) = b_dev b"
  "b_block_no (or_flags m b) = b_block_no b" "b_ref_count (or_flags m b) = b_ref_count b"
  "b_next (or_flags m b) = b_next b" "b_prev (or_flags m b) = b_prev b"
  "b_data (clear_flags m b) = b_data b" "b_dev (clear_flags m b) = b_dev b"
  "b_block_no (clear_flags m b) = b_block_no b" "b_ref_count (clear_flags m b) = b_ref_count b"
  "b_next (clear_flags m b) = b_next b" "b_prev (clear_flags m b) = b_prev b"
  "b_flags (or_flags m b) = b_flags b OR m" "b_flags (clear_flags m b) = b_flags b AND NOT m"
  by (simp_all add: or_flags_def clear_flags_def)

end
