(* ===== verification/Bitmap.thy ===== *)
theory Bitmap
  imports Kmonad
begin

text \<open>
  Bitmap allocators.  The kernel keeps three bitmaps of the same kind: the physical pages
  (\<open>sys/i386/vmm.c\<close>), the zones and the inodes of the file system (\<open>balloc\<close> and \<open>bfree\<close> of
  \<open>sys/kern/bio.c\<close>, \<open>ialloc\<close> and \<open>ifree\<close> of \<open>sys/kern/inode.c\<close>).  This theory holds the facts about
  bytes and bits they share and the contract of an allocator as the locale \<open>slot_pool\<close>.
\<close>

section \<open>Bits of a byte array\<close>

definition bmap_bit :: "bytes \<Rightarrow> nat \<Rightarrow> bool" where
  "bmap_bit bm n \<longleftrightarrow> n div 8 < length bm \<and> bit (bm ! (n div 8)) (n mod 8)"

definition bmap_set :: "bytes \<Rightarrow> nat set" where
  "bmap_set bm = {n. bmap_bit bm n}"

lemma div_mod_8: "b < 8 \<Longrightarrow> (n div 8 = i \<and> n mod 8 = b) \<longleftrightarrow> n = 8 * i + b" for n i b :: nat
  by (auto simp: mult.commute)

lemma bmap_set_insert:
  assumes "i < length bm" and "b < 8"
  shows "bmap_set (bm[i := bm ! i OR mask1 b]) = insert (8 * i + b) (bmap_set bm)"
proof (rule set_eqI)
  fix n
  have "n = 8 * i + b \<longleftrightarrow> n div 8 = i \<and> n mod 8 = b"
    using div_mod_8 [of b n i] assms by simp
  then show "n \<in> bmap_set (bm[i := bm ! i OR mask1 b]) \<longleftrightarrow> n \<in> insert (8 * i + b) (bmap_set bm)"
    using assms by (cases "n div 8 = i") (auto simp: bmap_set_def bmap_bit_def bit_facts)
qed

lemma bmap_set_remove:
  assumes "i < length bm" and "b < 8"
  shows "bmap_set (bm[i := bm ! i AND NOT (mask1 b)]) = bmap_set bm - {8 * i + b}"
proof (rule set_eqI)
  fix n
  have "n = 8 * i + b \<longleftrightarrow> n div 8 = i \<and> n mod 8 = b"
    using div_mod_8 [of b n i] assms by simp
  then show "n \<in> bmap_set (bm[i := bm ! i AND NOT (mask1 b)]) \<longleftrightarrow> n \<in> bmap_set bm - {8 * i + b}"
    using assms by (cases "n div 8 = i") (auto simp: bmap_set_def bmap_bit_def bit_facts)
qed

lemma bmap_set_mem: "i < length bm \<Longrightarrow> b < 8 \<Longrightarrow> 8 * i + b \<in> bmap_set bm \<longleftrightarrow> bit (bm ! i) b"
  by (simp add: bmap_set_def bmap_bit_def)

lemma bmap_set_bound: "bmap_set bm \<subseteq> {..<8 * length bm}"
  by (auto simp: bmap_set_def bmap_bit_def)

lemma bmap_full_iff:
  "{..<8 * length bm} \<subseteq> bmap_set bm \<longleftrightarrow> (\<forall>i<length bm. bm ! i = 0xFF)"
proof
  assume *: "{..<8 * length bm} \<subseteq> bmap_set bm"
  show "\<forall>i<length bm. bm ! i = 0xFF"
  proof (intro allI impI)
    fix i assume i: "i < length bm"
    have "bit (bm ! i) b" if "b < 8" for b
    proof -
      have "8 * i + b < 8 * length bm" using i that by linarith
      then show ?thesis using * bmap_set_mem [OF i that] by blast
    qed
    then show "bm ! i = 0xFF" using byte_not_full by blast
  qed
next
  assume "\<forall>i<length bm. bm ! i = 0xFF"
  moreover have "bit (0xFF::u8) (n mod 8)" for n by (rule byte_full_bit) simp
  ultimately show "{..<8 * length bm} \<subseteq> bmap_set bm"
    by (auto simp: bmap_set_def bmap_bit_def less_mult_imp_div_less mult.commute simp del: bit_numeral_simps)
qed

section \<open>The contract of an allocator\<close>

text \<open>
  \<open>taken s\<close> are the numbers out of the finite set \<open>slots\<close> in use.  An allocation returns a number that was not in use and
  takes exactly it, and fails exactly when all are in use; a release of a number in use gives
  exactly it back, and a release of a free number is refused.
\<close>

locale slot_pool =
  fixes inv :: "'s \<Rightarrow> bool"
    and taken :: "'s \<Rightarrow> nat set"
    and slots :: "nat set"
    and alloc :: "'s \<Rightarrow> (nat \<times> 's) option"
    and release :: "nat \<Rightarrow> 's \<Rightarrow> 's option"
  assumes finite_slots: "finite slots"
    and taken_bound: "inv s \<Longrightarrow> taken s \<subseteq> slots"
    and alloc_Some: "inv s \<Longrightarrow> alloc s = Some (n, t) \<Longrightarrow>
      inv t \<and> n \<in> slots \<and> n \<notin> taken s \<and> taken t = insert n (taken s)"
    and alloc_ex: "inv s \<Longrightarrow> taken s \<noteq> slots \<Longrightarrow> \<exists>n t. alloc s = Some (n, t)"
    and release_Some: "inv s \<Longrightarrow> n \<in> taken s \<Longrightarrow>
      \<exists>t. release n s = Some t \<and> inv t \<and> taken t = taken s - {n}"
    and release_None: "inv s \<Longrightarrow> n \<in> slots \<Longrightarrow> n \<notin> taken s \<Longrightarrow> release n s = None"
begin

text \<open>Allocating \<open>k\<close> times in a row, and releasing a list of numbers.\<close>

fun alloc_many :: "nat \<Rightarrow> 's \<Rightarrow> (nat list \<times> 's) option" where
  "alloc_many 0 s = Some ([], s)"
| "alloc_many (Suc k) s =
     (case alloc s of
        None \<Rightarrow> None
      | Some (n, t) \<Rightarrow> map_option (\<lambda>(ns, u). (n # ns, u)) (alloc_many k t))"

fun release_many :: "nat list \<Rightarrow> 's \<Rightarrow> 's option" where
  "release_many [] s = Some s"
| "release_many (n # ns) s = (case release n s of None \<Rightarrow> None | Some t \<Rightarrow> release_many ns t)"

definition room :: "'s \<Rightarrow> nat" where
  "room s = card (slots - taken s)"

lemma taken_finite: "inv s \<Longrightarrow> finite (taken s)"
  using taken_bound finite_slots finite_subset by blast

lemma room_zero: "inv s \<Longrightarrow> room s = 0 \<longleftrightarrow> taken s = slots"
  using taken_bound [of s] finite_slots by (auto simp: room_def)

lemma alloc_full: "inv s \<Longrightarrow> room s = 0 \<Longrightarrow> alloc s = None"
  using alloc_Some [of s] room_zero [of s] by (cases "alloc s") auto

lemma alloc_step:
  assumes "inv s" and "0 < room s"
  obtains n t where "alloc s = Some (n, t)" "inv t" "n \<in> slots" "n \<notin> taken s"
    "taken t = insert n (taken s)" "room t = room s - 1"
proof -
  obtain n t where nt: "alloc s = Some (n, t)"
    using alloc_ex [OF assms(1)] assms room_zero [OF assms(1)] by fastforce
  note a = alloc_Some [OF assms(1) nt]
  have "slots - taken t = (slots - taken s) - {n}" using a by auto
  moreover have "n \<in> slots - taken s" using a by auto
  ultimately have "room t = room s - 1" by (simp add: room_def)
  with nt a that show thesis by blast
qed

text \<open>As many allocations succeed as there is room, with distinct fresh results.\<close>

lemma alloc_many_fresh:
  assumes "inv s" and "k \<le> room s"
  shows "\<exists>ns t. alloc_many k s = Some (ns, t) \<and> inv t \<and> length ns = k \<and> distinct ns
    \<and> set ns \<subseteq> slots - taken s \<and> taken t = taken s \<union> set ns \<and> room t = room s - k"
  using assms
proof (induction k arbitrary: s)
  case 0
  then show ?case by simp
next
  case (Suc k)
  then have "0 < room s" by simp
  with Suc.prems(1) obtain n t where t: "alloc s = Some (n, t)" "inv t" "n \<in> slots" "n \<notin> taken s"
    "taken t = insert n (taken s)" "room t = room s - 1"
    by (rule alloc_step)
  then have "k \<le> room t" using Suc.prems by simp
  from Suc.IH [OF t(2) this] obtain ns u where
    "alloc_many k t = Some (ns, u)" "inv u" "length ns = k" "distinct ns"
    "set ns \<subseteq> slots - taken t" "taken u = taken t \<union> set ns" "room u = room t - k"
    by blast
  with t show ?case by (intro exI [of _ "n # ns"] exI [of _ u]) auto
qed

lemma alloc_many_exhausted: "inv s \<Longrightarrow> room s < k \<Longrightarrow> alloc_many k s = None"
proof (induction k arbitrary: s)
  case 0
  then show ?case by simp
next
  case (Suc k)
  show ?case
  proof (cases "room s = 0")
    case True
    then show ?thesis using Suc.prems alloc_full by simp
  next
    case False
    with Suc.prems(1) obtain n t where "alloc s = Some (n, t)" "inv t" "room t = room s - 1"
      by (auto elim: alloc_step)
    then show ?thesis using Suc.IH [of t] Suc.prems False by simp
  qed
qed

text \<open>Releasing what was allocated restores the set in use.\<close>

lemma release_many_taken:
  assumes "inv s" and "distinct ns" and "set ns \<subseteq> taken s"
  shows "\<exists>t. release_many ns s = Some t \<and> inv t \<and> taken t = taken s - set ns"
  using assms
proof (induction ns arbitrary: s)
  case Nil
  then show ?case by simp
next
  case (Cons n ns)
  then obtain t where t: "release n s = Some t" "inv t" "taken t = taken s - {n}"
    using release_Some [of s n] by auto
  then have "set ns \<subseteq> taken t" using Cons.prems by auto
  from Cons.IH [OF t(2) _ this] Cons.prems obtain u where
    "release_many ns t = Some u" "inv u" "taken u = taken t - set ns" by auto
  with t show ?case by auto
qed

lemma alloc_release_many:
  assumes "inv s" and "k \<le> room s"
  shows "\<exists>ns t u. alloc_many k s = Some (ns, t) \<and> release_many ns t = Some u
    \<and> inv u \<and> taken u = taken s"
proof -
  obtain ns t where t: "alloc_many k s = Some (ns, t)" "inv t" "distinct ns"
    "set ns \<subseteq> slots - taken s" "taken t = taken s \<union> set ns"
    using alloc_many_fresh [OF assms] by blast
  obtain u where "release_many ns t = Some u" "inv u" "taken u = taken t - set ns"
    using release_many_taken [of t ns] t by auto
  with t show ?thesis by auto
qed

lemma double_release:
  assumes "inv s" and "n \<in> taken s" and "release n s = Some t"
  shows "release n t = None"
proof -
  from release_Some [OF assms(1,2)] assms(3) have "inv t" "taken t = taken s - {n}" by auto
  then show ?thesis using release_None [of t n] taken_bound [OF assms(1)] assms(2) by auto
qed

end

end
