(* ===== verification/Vmm.thy ===== *)
theory Vmm
  imports KTypes Bitmap
begin

text \<open>
  The physical page allocator, \<open>sys/i386/vmm.c\<close>: one bit per page, set when the page is in
  use, and a rotating index of the byte where the next search starts.
\<close>

section \<open>Operations\<close>

abbreviation (input) PAGE_BITMAP_SIZE :: nat where "PAGE_BITMAP_SIZE \<equiv> 4096"

text \<open>The first loop of \<open>vmm_alloc_page\<close>; the first argument is what remains of \<open>count\<close>.\<close>

fun vmm_scan :: "nat \<Rightarrow> bytes \<Rightarrow> nat \<Rightarrow> nat" where
  "vmm_scan 0 bm i = i"
| "vmm_scan (Suc k) bm i =
     (if bm ! i = 0xFF then vmm_scan k bm (if i + 1 \<ge> PAGE_BITMAP_SIZE then 0 else i + 1) else i)"

text \<open>The second loop; after eight shifts \<open>page_bit\<close> is 0, so it has at most eight rounds.\<close>

fun vmm_bit_loop :: "nat \<Rightarrow> u8 \<Rightarrow> u8 \<Rightarrow> u32 \<Rightarrow> u8 \<times> u32" where
  "vmm_bit_loop 0 byte page_bit page_addr = (page_bit, page_addr)"
| "vmm_bit_loop (Suc k) byte page_bit page_addr =
     (if page_bit \<noteq> 0 \<and> byte AND page_bit \<noteq> 0
      then vmm_bit_loop k byte (push_bit (Suc 0) page_bit) (page_addr + of_nat PAGE_SIZE)
      else (page_bit, page_addr))"

definition vmm_alloc_page :: "u32 kernel" where
  "vmm_alloc_page =
     bindK (getK (\<lambda>s. vmm_scan PAGE_BITMAP_SIZE (vmm_bitmap s) (vmm_bitmap_index s))) (\<lambda>i.
     thenK (modifyK (\<lambda>s. s\<lparr>vmm_bitmap_index := i\<rparr>))
     (bindK (getK vmm_bitmap) (\<lambda>bm.
      if bm ! i = 0xFF then panic ''Out of memory!''
      else
        (case vmm_bit_loop 8 (bm ! i) 1 (of_nat (i * PAGE_SIZE * 8)) of (page_bit, page_addr) \<Rightarrow>
         thenK (modifyK (\<lambda>s. s\<lparr>vmm_bitmap := bm[i := bm ! i OR page_bit]\<rparr>))
         (returnK page_addr)))))"

definition page_no :: "u32 \<Rightarrow> nat" where
  "page_no page_addr = unat page_addr div PAGE_SIZE"

definition vmm_free_page :: "u32 \<Rightarrow> int kernel" where
  "vmm_free_page page_addr =
     (let page_index = page_no page_addr div 8; bit_no = page_no page_addr mod 8
      in if page_index \<ge> PAGE_BITMAP_SIZE then panic ''free page out of bounds''
         else
           bindK (getK vmm_bitmap) (\<lambda>bm.
           if bm ! page_index AND mask1 bit_no = 0 then panic ''page already free!''
           else
             thenK (modifyK (\<lambda>s. s\<lparr>vmm_bitmap := bm[page_index := bm ! page_index AND NOT (mask1 bit_no)]\<rparr>))
             (returnK 0)))"

definition vmm_is_free :: "u32 \<Rightarrow> bool kernel" where
  "vmm_is_free page_addr =
     (let page_index = page_no page_addr div 8
      in if page_index \<ge> PAGE_BITMAP_SIZE then returnK False
         else getK (\<lambda>s. vmm_bitmap s ! page_index AND mask1 (page_no page_addr mod 4) = 0))"

definition vmm_alloc_addr :: "u32 \<Rightarrow> u32 kernel" where
  "vmm_alloc_addr page_addr =
     (let page_index = page_no page_addr div 8; page_bit = mask1 (page_no page_addr mod 4)
      in if page_index \<ge> PAGE_BITMAP_SIZE then returnK 0
         else
           bindK (getK vmm_bitmap) (\<lambda>bm.
           if bm ! page_index AND page_bit \<noteq> 0 then returnK 0
           else
             thenK (modifyK (\<lambda>s. s\<lparr>vmm_bitmap := bm[page_index := bm ! page_index OR page_bit]\<rparr>))
             (returnK page_addr)))"

definition vmm_bitmap_init :: "unit kernel" where
  "vmm_bitmap_init =
     modifyK (\<lambda>s. s\<lparr>vmm_bitmap := replicate PAGE_BITMAP_SIZE 0xFF, vmm_bitmap_index := 0\<rparr>)"

section \<open>The searches\<close>

definition vmm_inv :: "kstate \<Rightarrow> bool" where
  "vmm_inv s \<longleftrightarrow> length (vmm_bitmap s) = PAGE_BITMAP_SIZE \<and> vmm_bitmap_index s < PAGE_BITMAP_SIZE"

definition pages_used :: "kstate \<Rightarrow> nat set" where
  "pages_used s = bmap_set (vmm_bitmap s)"

lemma vmm_scan_bound: "i < PAGE_BITMAP_SIZE \<Longrightarrow> vmm_scan k bm i < PAGE_BITMAP_SIZE"
  by (induction k arbitrary: i) auto

lemma vmm_scan_full:
  assumes "bm ! vmm_scan k bm i = 0xFF" and "i < PAGE_BITMAP_SIZE" and "j < k"
  shows "bm ! ((i + j) mod PAGE_BITMAP_SIZE) = 0xFF"
  using assms
proof (induction k arbitrary: i j)
  case 0
  then show ?case by simp
next
  case (Suc k)
  have full: "bm ! i = 0xFF" using Suc.prems(1) by (auto split: if_splits)
  show ?case
  proof (cases j)
    case 0
    then show ?thesis using full Suc.prems by simp
  next
    case (Suc j')
    let ?i = "if i + 1 \<ge> PAGE_BITMAP_SIZE then 0 else i + 1"
    have "(i + j) mod PAGE_BITMAP_SIZE = (?i + j') mod PAGE_BITMAP_SIZE"
    proof (cases "i + 1 \<ge> PAGE_BITMAP_SIZE")
      case True
      then have "i + j = PAGE_BITMAP_SIZE + j'" using Suc Suc.prems by simp
      then show ?thesis using True by simp
    next
      case False
      then show ?thesis using Suc by simp
    qed
    moreover have "bm ! ((?i + j') mod PAGE_BITMAP_SIZE) = 0xFF"
      using Suc.IH [of ?i j'] Suc.prems full Suc by (auto split: if_splits)
    ultimately show ?thesis by simp
  qed
qed

lemma vmm_scan_all_full:
  assumes "bm ! vmm_scan PAGE_BITMAP_SIZE bm i = 0xFF" and "i < PAGE_BITMAP_SIZE" and "m < PAGE_BITMAP_SIZE"
  shows "bm ! m = 0xFF"
proof -
  define j where "j = (m + PAGE_BITMAP_SIZE - i) mod PAGE_BITMAP_SIZE"
  have "(i + j) mod PAGE_BITMAP_SIZE = m"
    using assms(2,3) unfolding j_def by (simp add: mod_add_right_eq)
  moreover have "j < PAGE_BITMAP_SIZE" unfolding j_def by simp
  ultimately show ?thesis using vmm_scan_full [OF assms(1,2), of j] by simp
qed

lemma push_mask1: "push_bit (Suc 0) (mask1 n) = mask1 (Suc n)"
  by (simp add: mask1_def push_bit_push_bit)

lemma vmm_bit_loop_finds:
  assumes "b < 8" and "\<not> bit byte b" and "\<And>m. m < b \<Longrightarrow> bit byte m" and "n \<le> b" and "b - n \<le> k"
  shows "vmm_bit_loop k byte (mask1 n) addr = (mask1 b, addr + of_nat ((b - n) * PAGE_SIZE))"
  using assms(4,5)
proof (induction k arbitrary: n addr)
  case 0
  then show ?case by simp
next
  case (Suc k)
  show ?case
  proof (cases "n = b")
    case True
    then show ?thesis using assms(2) and_mask1_eq_0 [of byte b] by simp
  next
    case False
    then have "bit byte n" using assms(3) Suc.prems by simp
    then have "byte AND mask1 n \<noteq> 0" using and_mask1_eq_0 by blast
    moreover from this have "mask1 n \<noteq> (0::u8)" by auto
    moreover have "b - n = Suc (b - Suc n)" using False Suc.prems by simp
    ultimately show ?thesis
      using Suc.IH [of "Suc n" "addr + of_nat PAGE_SIZE"] False Suc.prems
      by (simp add: push_mask1 algebra_simps del: push_bit_Suc)
  qed
qed


text \<open>What a successful allocation finds.\<close>

lemma vmm_alloc_page_cases:
  assumes "vmm_inv s"
  shows "(\<exists>msg. vmm_alloc_page s = Panic msg \<and> pages_used s = {..<32768})
    \<or> (\<exists>n t. vmm_alloc_page s = Ok (of_nat (n * PAGE_SIZE)) t \<and> n < 32768 \<and> n \<notin> pages_used s
         \<and> pages_used t = insert n (pages_used s) \<and> vmm_inv t
         \<and> t = s\<lparr>vmm_bitmap_index := vmm_bitmap_index t, vmm_bitmap := vmm_bitmap t\<rparr>)"
proof -
  define bm where "bm = vmm_bitmap s"
  define i where "i = vmm_scan PAGE_BITMAP_SIZE bm (vmm_bitmap_index s)"
  have len: "length bm = PAGE_BITMAP_SIZE" and i: "i < PAGE_BITMAP_SIZE"
    using assms by (simp_all add: vmm_inv_def bm_def i_def vmm_scan_bound)
  show ?thesis
  proof (cases "bm ! i = 0xFF")
    case True
    then have "\<forall>m<length bm. bm ! m = 0xFF"
      using vmm_scan_all_full [of bm "vmm_bitmap_index s"] assms len
      by (simp add: i_def vmm_inv_def)
    then have "pages_used s = {..<32768}"
      using bmap_full_iff [of bm] bmap_set_bound [of bm] len by (simp add: pages_used_def bm_def)
    moreover have "vmm_alloc_page s = Panic ''Out of memory!''"
      using True by (simp add: vmm_alloc_page_def kern_simps i_def bm_def)
    ultimately show ?thesis by blast
  next
    case False
    define b where "b = (LEAST b. \<not> bit (bm ! i) b)"
    obtain b0 where b0: "b0 < 8" "\<not> bit (bm ! i) b0" using False byte_not_full by blast
    have b: "\<not> bit (bm ! i) b" "b < 8" and least: "\<And>m. m < b \<Longrightarrow> bit (bm ! i) m"
      unfolding b_def using b0 LeastI [of "\<lambda>b. \<not> bit (bm ! i) b" b0]
        Least_le [of "\<lambda>b. \<not> bit (bm ! i) b" b0] not_less_Least by auto
    have "vmm_bit_loop 8 (bm ! i) (mask1 0) (of_nat (i * PAGE_SIZE * 8))
        = (mask1 b, of_nat (i * PAGE_SIZE * 8) + of_nat ((b - 0) * PAGE_SIZE))"
      by (rule vmm_bit_loop_finds) (use b least in auto)
    then have lp: "vmm_bit_loop 8 (bm ! i) 1 (of_nat (i * PAGE_SIZE * 8))
        = (mask1 b, of_nat ((8 * i + b) * PAGE_SIZE))"
      by (simp add: mask1_def algebra_simps)
    let ?t = "s\<lparr>vmm_bitmap_index := i, vmm_bitmap := bm[i := bm ! i OR mask1 b]\<rparr>"
    have run: "vmm_alloc_page s = Ok (of_nat ((8 * i + b) * PAGE_SIZE)) ?t"
      using False lp by (simp add: vmm_alloc_page_def kern_simps i_def [symmetric] bm_def [symmetric])
    have "8 * i + b < 32768" using i b(2) by linarith
    moreover have "8 * i + b \<notin> pages_used s"
      using bmap_set_mem [of i bm b] len i b by (simp add: pages_used_def bm_def)
    moreover have "pages_used ?t = insert (8 * i + b) (pages_used s)"
      using bmap_set_insert [of i bm b] len i b by (simp add: pages_used_def bm_def)
    moreover have "vmm_inv ?t" using len i by (simp add: vmm_inv_def)
    moreover have "?t = s\<lparr>vmm_bitmap_index := vmm_bitmap_index ?t, vmm_bitmap := vmm_bitmap ?t\<rparr>"
      by simp
    ultimately show ?thesis using run by blast
  qed
qed

lemma vmm_alloc_pageE:
  assumes "vmm_inv s"
  obtains (full) msg where "vmm_alloc_page s = Panic msg" "pages_used s = {..<32768}"
  | (page) n t where "vmm_alloc_page s = Ok (of_nat (n * PAGE_SIZE)) t" "n < 32768"
      "n \<notin> pages_used s" "pages_used t = insert n (pages_used s)" "vmm_inv t"
  using vmm_alloc_page_cases [OF assms] by metis

lemma page_no_of_nat: "n < 32768 \<Longrightarrow> page_no (of_nat (n * PAGE_SIZE)) = n"
  unfolding page_no_def by (subst unat_of_nat_small) simp_all

lemma vmm_free_page_exec:
  assumes "vmm_inv s" and "n < 32768"
  shows "vmm_free_page (of_nat (n * PAGE_SIZE)) s =
    (if n \<in> pages_used s
     then Ok 0 (s\<lparr>vmm_bitmap := (vmm_bitmap s)[n div 8 := vmm_bitmap s ! (n div 8) AND NOT (mask1 (n mod 8))]\<rparr>)
     else Panic ''page already free!'')"
proof -
  have "n div 8 < PAGE_BITMAP_SIZE" using assms(2) by simp
  moreover have "n \<in> pages_used s \<longleftrightarrow> bit (vmm_bitmap s ! (n div 8)) (n mod 8)"
    using bmap_set_mem [of "n div 8" "vmm_bitmap s" "n mod 8"] assms calculation
    by (simp add: pages_used_def vmm_inv_def)
  ultimately show ?thesis
    using assms page_no_of_nat [OF assms(2)] and_mask1_eq_0 [of "vmm_bitmap s ! (n div 8)" "n mod 8"]
    by (simp add: vmm_free_page_def Let_def kern_simps)
qed

lemma pages_used_free:
  assumes "vmm_inv s" and "n < 32768"
  shows "pages_used (s\<lparr>vmm_bitmap := (vmm_bitmap s)[n div 8 := vmm_bitmap s ! (n div 8) AND NOT (mask1 (n mod 8))]\<rparr>)
    = pages_used s - {n}"
  using bmap_set_remove [of "n div 8" "vmm_bitmap s" "n mod 8"] assms
  by (simp add: pages_used_def vmm_inv_def)

section \<open>The allocator keeps its contract\<close>

text \<open>The two operations on page numbers; a panic is the failure.\<close>

definition page_alloc :: "kstate \<Rightarrow> (nat \<times> kstate) option" where
  "page_alloc s = (case vmm_alloc_page s of Ok a t \<Rightarrow> Some (page_no a, t) | _ \<Rightarrow> None)"

definition page_release :: "nat \<Rightarrow> kstate \<Rightarrow> kstate option" where
  "page_release n s = (case vmm_free_page (of_nat (n * PAGE_SIZE)) s of Ok _ t \<Rightarrow> Some t | _ \<Rightarrow> None)"

interpretation page_pool: slot_pool vmm_inv pages_used "{..<32768}" page_alloc page_release
proof
  show "finite {..<32768::nat}" by simp
next
  show "pages_used s \<subseteq> {..<32768}" if "vmm_inv s" for s
    using bmap_set_bound [of "vmm_bitmap s"] that by (simp add: pages_used_def vmm_inv_def)
next
  fix s n t
  assume s: "vmm_inv s" and "page_alloc s = Some (n, t)"
  with s show "vmm_inv t \<and> n \<in> {..<32768} \<and> n \<notin> pages_used s \<and> pages_used t = insert n (pages_used s)"
    by (cases rule: vmm_alloc_pageE [OF s])
      (auto simp: page_alloc_def page_no_of_nat simp del: of_nat_mult)
next
  fix s
  assume s: "vmm_inv s" and "pages_used s \<noteq> {..<32768}"
  then show "\<exists>n t. page_alloc s = Some (n, t)"
    by (cases rule: vmm_alloc_pageE [OF s]) (auto simp: page_alloc_def)
next
  fix s n
  assume s: "vmm_inv s" and n: "n \<in> pages_used s"
  then have "n < 32768"
    using bmap_set_bound [of "vmm_bitmap s"] by (auto simp: pages_used_def vmm_inv_def)
  with s n vmm_free_page_exec [OF s this] pages_used_free [OF s this]
  show "\<exists>t. page_release n s = Some t \<and> vmm_inv t \<and> pages_used t = pages_used s - {n}"
    by (simp add: page_release_def vmm_inv_def)
next
  fix s n
  assume "vmm_inv s" "n \<in> {..<32768}" "n \<notin> pages_used s"
  then show "page_release n s = None"
    by (simp add: page_release_def vmm_free_page_exec del: of_nat_mult)
qed

text \<open>A sequence of calls of \<open>vmm_alloc_page\<close>, as \<open>proc_break\<close> makes them; the addresses in order.\<close>

fun vmm_alloc_pages :: "nat \<Rightarrow> u32 list kernel" where
  "vmm_alloc_pages 0 = returnK []"
| "vmm_alloc_pages (Suc k) =
     bindK vmm_alloc_page (\<lambda>a. bindK (vmm_alloc_pages k) (\<lambda>as. returnK (a # as)))"

lemma vmm_alloc_page_addr:
  assumes "vmm_inv s" and "vmm_alloc_page s = Ok a t"
  shows "a = of_nat (page_no a * PAGE_SIZE)"
  using assms(2) by (cases rule: vmm_alloc_pageE [OF assms(1)])
    (auto simp: page_no_of_nat simp del: of_nat_mult)

lemma vmm_alloc_pages_pool:
  assumes "vmm_inv s" and "page_pool.alloc_many k s = Some (ns, t)"
  shows "vmm_alloc_pages k s = Ok (map (\<lambda>n. of_nat (n * PAGE_SIZE)) ns) t"
  using assms
proof (induction k arbitrary: s ns)
  case 0
  then show ?case by (simp add: kern_simps)
next
  case (Suc k)
  from Suc.prems(2) obtain n u ns' where u: "page_alloc s = Some (n, u)"
    "page_pool.alloc_many k u = Some (ns', t)" "ns = n # ns'"
    by (auto split: option.splits)
  then obtain a where a: "vmm_alloc_page s = Ok a u" "n = page_no a"
    by (auto simp: page_alloc_def split: outcome.splits)
  have "vmm_inv u" using page_pool.alloc_Some [OF Suc.prems(1) u(1)] by simp
  from Suc.IH [OF this u(2)] a vmm_alloc_page_addr [OF Suc.prems(1) a(1)] u(3)
  show ?case by (simp add: bindK_def kern_simps)
qed

lemma vmm_alloc_pages_panic:
  assumes "vmm_inv s" and "page_pool.alloc_many k s = None"
  shows "\<exists>msg. vmm_alloc_pages k s = Panic msg"
  using assms
proof (induction k arbitrary: s)
  case 0
  then show ?case by simp
next
  case (Suc k)
  show ?case
  proof (cases "page_alloc s")
    case None
    then show ?thesis
      by (cases rule: vmm_alloc_pageE [OF Suc.prems(1)]) (auto simp: page_alloc_def bindK_def)
  next
    case (Some nu)
    then obtain n u where u: "page_alloc s = Some (n, u)" by (cases nu) auto
    then obtain a where a: "vmm_alloc_page s = Ok a u"
      by (auto simp: page_alloc_def split: outcome.splits)
    have "vmm_inv u" using page_pool.alloc_Some [OF Suc.prems(1) u] by simp
    moreover have "page_pool.alloc_many k u = None" using Suc.prems(2) u by simp
    ultimately show ?thesis using Suc.IH [of u] a by (auto simp: bindK_def)
  qed
qed

text \<open>
  C19: the page allocator never hands out a page twice and uses all of memory.  With \<open>m\<close> free
  pages, \<open>k \<le> m\<close> calls of \<open>vmm_alloc_page\<close> in a row return the addresses of \<open>k\<close> different pages that were
  free, exactly these become used, and the rest of the kernel state stays; more than \<open>m\<close> calls
  panic.
\<close>

theorem vmm_alloc_pages_correct:
  assumes "vmm_inv s" and "m = card ({..<32768} - pages_used s)"
  shows "if k \<le> m
    then \<exists>ns t. vmm_alloc_pages k s = Ok (map (\<lambda>n. of_nat (n * PAGE_SIZE)) ns) t
      \<and> length ns = k \<and> distinct ns \<and> set ns \<inter> pages_used s = {} \<and> set ns \<subseteq> {..<32768}
      \<and> pages_used t = pages_used s \<union> set ns \<and> vmm_inv t
    else \<exists>msg. vmm_alloc_pages k s = Panic msg"
proof (cases "k \<le> m")
  case True
  then have "k \<le> page_pool.room s" using assms(2) by (simp add: page_pool.room_def)
  from page_pool.alloc_many_fresh [OF assms(1) this] obtain ns t where
    "page_pool.alloc_many k s = Some (ns, t)" "vmm_inv t" "length ns = k" "distinct ns"
    "set ns \<subseteq> {..<32768} - pages_used s" "pages_used t = pages_used s \<union> set ns"
    by blast
  then show ?thesis using True vmm_alloc_pages_pool [OF assms(1)] by auto
next
  case False
  then have "page_pool.room s < k" using assms(2) by (simp add: page_pool.room_def)
  then show ?thesis
    using False vmm_alloc_pages_panic [OF assms(1)] page_pool.alloc_many_exhausted [OF assms(1)] by auto
qed

text \<open>A memory with two free pages, 9 and 300, the search starting between them.\<close>

definition two_free_pages :: kstate where
  "two_free_pages = bss_state\<lparr>vmm_bitmap :=
     (replicate PAGE_BITMAP_SIZE 0xFF)[1 := 0xFF AND NOT (mask1 1), 37 := 0xFF AND NOT (mask1 4)],
     vmm_bitmap_index := 5\<rparr>"

lemma vmm_inv_two_free: "vmm_inv two_free_pages"
  by (simp add: vmm_inv_def two_free_pages_def)

lemma pages_used_two_free: "pages_used two_free_pages = {..<32768} - {9, 300}"
proof -
  let ?b = "replicate PAGE_BITMAP_SIZE (0xFF::u8)"
  let ?b1 = "?b[1 := ?b ! 1 AND NOT (mask1 1)]"
  have "{..<32768} \<subseteq> bmap_set ?b" using bmap_full_iff [of ?b] by simp
  then have "bmap_set ?b = {..<32768}" using bmap_set_bound [of ?b] by auto
  moreover have "bmap_set ?b1 = bmap_set ?b - {8 * 1 + 1}"
    by (rule bmap_set_remove) simp_all
  moreover have "bmap_set (?b1[37 := ?b1 ! 37 AND NOT (mask1 4)]) = bmap_set ?b1 - {8 * 37 + 4}"
    by (rule bmap_set_remove) simp_all
  ultimately show ?thesis by (auto simp: pages_used_def two_free_pages_def)
qed

theorem vmm_alloc_pages_witness:
  "(\<exists>ns t. vmm_alloc_pages 2 two_free_pages = Ok (map (\<lambda>n. of_nat (n * PAGE_SIZE)) ns) t
     \<and> set ns = {9, 300}) \<and> (\<exists>msg. vmm_alloc_pages 3 two_free_pages = Panic msg)"
proof -
  have "{..<32768} - pages_used two_free_pages = {9, 300}"
    by (auto simp: pages_used_two_free)
  then have m: "2 = card ({..<32768} - pages_used two_free_pages)" by simp
  have "\<exists>msg. vmm_alloc_pages 3 two_free_pages = Panic msg"
    using vmm_alloc_pages_correct [OF vmm_inv_two_free m, of 3] by simp
  moreover obtain ns t where ns: "vmm_alloc_pages 2 two_free_pages = Ok (map (\<lambda>n. of_nat (n * PAGE_SIZE)) ns) t"
    "length ns = 2" "distinct ns" "set ns \<inter> pages_used two_free_pages = {}" "set ns \<subseteq> {..<32768}"
    using vmm_alloc_pages_correct [OF vmm_inv_two_free m, of 2] by auto
  have sub: "set ns \<subseteq> {9, 300}" using ns(4,5) by (auto simp: pages_used_two_free)
  have "card (set ns) = 2" using ns(2,3) by (simp add: distinct_card)
  with sub have "set ns = {9, 300}" by (intro card_subset_eq) auto
  ultimately show ?thesis using ns(1) by blast
qed

text \<open>
  Freeing is the inverse of allocating, and a double free is caught.  Freeing a page that
  is used gives back exactly this page; a second \<open>vmm_free_page\<close> of the same address, or the
  free of any page that is not in use, panics.
\<close>

theorem vmm_free_page_correct:
  assumes "vmm_inv s" and "n < 32768"
  shows "if n \<in> pages_used s
    then \<exists>t. vmm_free_page (of_nat (n * PAGE_SIZE)) s = Ok 0 t \<and> vmm_inv t
      \<and> pages_used t = pages_used s - {n} \<and> t = s\<lparr>vmm_bitmap := vmm_bitmap t\<rparr>
      \<and> vmm_free_page (of_nat (n * PAGE_SIZE)) t = Panic ''page already free!''
    else vmm_free_page (of_nat (n * PAGE_SIZE)) s = Panic ''page already free!''"
proof (cases "n \<in> pages_used s")
  case True
  define t where "t = s\<lparr>vmm_bitmap := (vmm_bitmap s)[n div 8 := vmm_bitmap s ! (n div 8) AND NOT (mask1 (n mod 8))]\<rparr>"
  have run: "vmm_free_page (of_nat (n * PAGE_SIZE)) s = Ok 0 t"
    using True vmm_free_page_exec [OF assms] by (simp add: t_def)
  have t: "vmm_inv t" "pages_used t = pages_used s - {n}" "t = s\<lparr>vmm_bitmap := vmm_bitmap t\<rparr>"
    using assms pages_used_free [OF assms] by (simp_all add: t_def vmm_inv_def)
  then have "vmm_free_page (of_nat (n * PAGE_SIZE)) t = Panic ''page already free!''"
    using vmm_free_page_exec [OF t(1) assms(2)] by simp
  with True run t(1,2) show ?thesis
    by (simp only: if_True, intro exI [of _ t] conjI t(3) refl) simp_all
next
  case False
  then show ?thesis using vmm_free_page_exec [OF assms] by simp
qed

theorem vmm_free_page_witness:
  "\<exists>t. vmm_free_page (of_nat (8 * PAGE_SIZE)) two_free_pages = Ok 0 t
     \<and> pages_used t = {..<32768} - {8, 9, 300}"
proof -
  obtain t where "vmm_free_page (of_nat (8 * PAGE_SIZE)) two_free_pages = Ok 0 t"
    "pages_used t = pages_used two_free_pages - {8}"
    using vmm_free_page_correct [OF vmm_inv_two_free, of 8] by (auto simp: pages_used_two_free)
  then show ?thesis by (intro exI [of _ t]) (auto simp: pages_used_two_free)
qed

text \<open>
  \<open>vmm_is_free\<close> and \<open>vmm_alloc_addr\<close> test and set the wrong bit for half of all pages: they
  reduce the page number modulo 4 where \<open>vmm_free_page\<close> uses modulo 8.  So for a page whose
  number is 4 or more modulo 8, allocating by address marks the page four below it: the page itself stays free,
  and freeing it panics unless it was used before.
\<close>

theorem vmm_alloc_addr_wrong_page:
  assumes "vmm_inv s" and "n < 32768" and "4 \<le> n mod 8" and "n \<notin> pages_used s" and "n - 4 \<notin> pages_used s"
  shows "\<exists>t. vmm_alloc_addr (of_nat (n * PAGE_SIZE)) s = Ok (of_nat (n * PAGE_SIZE)) t
    \<and> pages_used t = insert (n - 4) (pages_used s)
    \<and> vmm_free_page (of_nat (n * PAGE_SIZE)) t = Panic ''page already free!''"
proof -
  let ?i = "n div 8" and ?b = "n mod 4"
  have b: "n mod 8 = ?b + 4" using assms(3) by presburger
  then have n4: "n - 4 = 8 * ?i + ?b" using mult_div_mod_eq [of 8 n] by linarith
  have i: "?i < PAGE_BITMAP_SIZE" "?i < length (vmm_bitmap s)" "?b < 8"
    using assms by (auto simp: vmm_inv_def)
  define t where "t = s\<lparr>vmm_bitmap := (vmm_bitmap s)[?i := vmm_bitmap s ! ?i OR mask1 ?b]\<rparr>"
  have used: "pages_used t = insert (n - 4) (pages_used s)"
    using bmap_set_insert [OF i(2,3)] n4 by (simp add: pages_used_def t_def)
  have "\<not> bit (vmm_bitmap s ! ?i) ?b"
    using assms(5) bmap_set_mem [OF i(2,3)] n4 by (simp add: pages_used_def)
  then have "vmm_alloc_addr (of_nat (n * PAGE_SIZE)) s = Ok (of_nat (n * PAGE_SIZE)) t"
    using i page_no_of_nat [OF assms(2)] and_mask1_eq_0 [of "vmm_bitmap s ! ?i" ?b]
    by (simp add: vmm_alloc_addr_def Let_def kern_simps t_def)
  moreover have "vmm_inv t" using assms(1) by (simp add: vmm_inv_def t_def)
  then have "vmm_free_page (of_nat (n * PAGE_SIZE)) t = Panic ''page already free!''"
    using vmm_free_page_exec [of t n] assms(2-4) used by auto
  ultimately show ?thesis using used by blast
qed

theorem vmm_alloc_addr_witness:
  "\<exists>t u. vmm_free_page (of_nat (296 * PAGE_SIZE)) two_free_pages = Ok 0 t
     \<and> vmm_alloc_addr (of_nat (300 * PAGE_SIZE)) t = Ok (of_nat (300 * PAGE_SIZE)) u
     \<and> 300 \<notin> pages_used u \<and> 296 \<in> pages_used u"
proof -
  obtain t where t: "vmm_free_page (of_nat (296 * PAGE_SIZE)) two_free_pages = Ok 0 t" "vmm_inv t"
    "pages_used t = pages_used two_free_pages - {296}"
    using vmm_free_page_exec [OF vmm_inv_two_free, of 296] pages_used_free [OF vmm_inv_two_free, of 296]
      vmm_inv_two_free by (auto simp: pages_used_two_free vmm_inv_def)
  have free: "300 \<notin> pages_used t" "296 \<notin> pages_used t" using t(3) by (simp_all add: pages_used_two_free)
  obtain u where u: "vmm_alloc_addr (of_nat (300 * PAGE_SIZE)) t = Ok (of_nat (300 * PAGE_SIZE)) u"
    "pages_used u = insert 296 (pages_used t)"
    using vmm_alloc_addr_wrong_page [OF t(2), of 300] free by (simp del: of_nat_mult) blast
  have "300 \<notin> pages_used u" "296 \<in> pages_used u" using u(2) free by simp_all
  with t(1) u(1) show ?thesis by blast
qed

end
