(* ===== verification/Bio.thy ===== *)
theory Bio
  imports Wd Vmm
begin

text \<open>
  The buffer cache, \<open>sys/kern/bio.c\<close>: 64 buffers of one block each, with a doubly linked ring
  of the buffers nobody holds.  A buffer is found by device and block number; a miss recycles
  the first buffer of the ring, and a release puts the buffer at its end.
\<close>

section \<open>The ring of free buffers\<close>

definition bnext :: "kstate \<Rightarrow> bptr \<Rightarrow> bptr" where
  "bnext s p = (case p of BHead \<Rightarrow> bfree_next s | BBuf i \<Rightarrow> b_next (bcache s ! i))"

definition bprev :: "kstate \<Rightarrow> bptr \<Rightarrow> bptr" where
  "bprev s p = (case p of BHead \<Rightarrow> bfree_prev s | BBuf i \<Rightarrow> b_prev (bcache s ! i))"

definition set_next :: "bptr \<Rightarrow> bptr \<Rightarrow> kstate \<Rightarrow> kstate" where
  "set_next p q s = (case p of BHead \<Rightarrow> s\<lparr>bfree_next := q\<rparr> | BBuf i \<Rightarrow> upd_buf i (\<lambda>b. b\<lparr>b_next := q\<rparr>) s)"

definition set_prev :: "bptr \<Rightarrow> bptr \<Rightarrow> kstate \<Rightarrow> kstate" where
  "set_prev p q s = (case p of BHead \<Rightarrow> s\<lparr>bfree_prev := q\<rparr> | BBuf i \<Rightarrow> upd_buf i (\<lambda>b. b\<lparr>b_prev := q\<rparr>) s)"

text \<open>\<open>buf->prev->next = buf->next; buf->next->prev = buf->prev\<close>\<close>

definition free_remove :: "nat \<Rightarrow> kstate \<Rightarrow> kstate" where
  "free_remove i s =
     (let s1 = set_next (bprev s (BBuf i)) (bnext s (BBuf i)) s
      in set_prev (bnext s1 (BBuf i)) (bprev s1 (BBuf i)) s1)"

text \<open>\<open>buf->next = &bfreelist; buf->prev = bfreelist.prev; bfreelist.prev->next = buf; bfreelist.prev = buf\<close>\<close>

definition free_append :: "nat \<Rightarrow> kstate \<Rightarrow> kstate" where
  "free_append i s =
     (let s1 = set_next (BBuf i) BHead s;
          s2 = set_prev (BBuf i) (bprev s1 BHead) s1;
          s3 = set_next (bprev s2 BHead) (BBuf i) s2
      in set_prev BHead (BBuf i) s3)"

section \<open>Operations\<close>

definition bwrite :: "nat \<Rightarrow> unit kernel" where
  "bwrite i =
     thenK (modifyK (upd_buf i (clear_flags (B_DIRTY OR B_DONE OR B_ERROR))))
     (bindK (getK (\<lambda>s. unat (major (b_dev (bcache s ! i))))) (\<lambda>maj.
      if maj \<ge> num_bdev then panic ''bwrite: no write function''
      else (case snd (snd (bdevsw ! maj)) of
              None \<Rightarrow> panic ''bwrite: no write function''
            | Some write \<Rightarrow> write i)))"

text \<open>A process that finds its buffer busy sleeps and then searches again from the start.\<close>

definition getblk :: "u16 \<Rightarrow> u32 \<Rightarrow> nat kernel" where
  "getblk dev block_no =
     (if unat (major dev) \<ge> num_bdev then panic ''getblk''
      else
        bindK (getK bcache) (\<lambda>bc.
        case first_index (\<lambda>b. b_dev b = dev \<and> b_block_no b = block_no) bc of
          Some i \<Rightarrow>
            if b_flags (bc ! i) AND B_BUSY \<noteq> 0 then
              thenK (modifyK (upd_buf i (or_flags B_WANTED))) (sleep (WBuf i))
            else
              thenK (whenK (b_ref_count (bc ! i) = 0) (modifyK (free_remove i)))
              (thenK (modifyK (upd_buf i (\<lambda>b. b\<lparr>b_ref_count := b_ref_count b + 1\<rparr>)))
              (returnK i))
        | None \<Rightarrow>
            bindK (getK bfree_next) (\<lambda>h.
            case h of
              BHead \<Rightarrow> panic ''no buffers free''
            | BBuf i \<Rightarrow>
                thenK (whenK (b_flags (bc ! i) AND B_DIRTY \<noteq> 0) (bwrite i))
                (thenK (modifyK (upd_buf i (\<lambda>b. b\<lparr>b_dev := dev, b_block_no := block_no,
                          b_flags := B_BUSY, b_ref_count := 1\<rparr>)))
                (thenK (modifyK (free_remove i))
                (returnK i))))))"

definition bread :: "u16 \<Rightarrow> u32 \<Rightarrow> nat kernel" where
  "bread dev block_no =
     bindK (getblk dev block_no) (\<lambda>i.
     bindK (getK (\<lambda>s. b_flags (bcache s ! i))) (\<lambda>f.
     thenK (whenK (f AND B_DONE = 0)
              (thenK (modifyK (upd_buf i (clear_flags B_ERROR)))
               (if unat (major dev) \<ge> num_bdev then panic ''bread: no read function''
                else (case fst (snd (bdevsw ! unat (major dev))) of
                        None \<Rightarrow> panic ''bread: no read function''
                      | Some read \<Rightarrow> read i))))
     (returnK i)))"

definition brelse :: "nat \<Rightarrow> unit kernel" where
  "brelse i =
     bindK (getK (\<lambda>s. b_flags (bcache s ! i))) (\<lambda>f.
     thenK (whenK (f AND B_WANTED \<noteq> 0) (wakeup (WBuf i)))
     (thenK (modifyK (upd_buf i (clear_flags (B_WANTED OR B_BUSY))))
     (bindK (getK (\<lambda>s. b_ref_count (bcache s ! i))) (\<lambda>n.
      if n = 0 then panic ''bad ref_count''
      else
        thenK (modifyK (upd_buf i (\<lambda>b. b\<lparr>b_ref_count := n - 1\<rparr>)))
        (whenK (n - 1 = 0)
           (bindK (getK (\<lambda>s. b_flags (bcache s ! i))) (\<lambda>f.
            thenK (whenK (f AND B_DIRTY \<noteq> 0) (bwrite i))
            (bindK (getK (\<lambda>s. b_flags (bcache s ! i))) (\<lambda>f.
             whenK (f AND B_DIRTY = 0) (modifyK (free_append i)))))))))))"

definition buf_init_one :: "nat \<Rightarrow> kstate \<Rightarrow> kstate" where
  "buf_init_one i s =
     upd_buf i (\<lambda>b. b\<lparr>b_flags := 0, b_dev := 0xFFFF\<rparr>) (free_append i s)"

definition buf_init :: "unit kernel" where
  "buf_init =
     modifyK (\<lambda>s. fold buf_init_one [0..<NBUF] (s\<lparr>bfree_next := BHead, bfree_prev := BHead\<rparr>))"

section \<open>The ring refines a list\<close>

text \<open>\<open>dlpath nxt prv x is z\<close>: from \<open>x\<close> the links lead through the buffers \<open>is\<close> to \<open>z\<close> and back.\<close>

fun dlpath :: "(bptr \<Rightarrow> bptr) \<Rightarrow> (bptr \<Rightarrow> bptr) \<Rightarrow> bptr \<Rightarrow> nat list \<Rightarrow> bptr \<Rightarrow> bool" where
  "dlpath nxt prv x [] z \<longleftrightarrow> nxt x = z \<and> prv z = x"
| "dlpath nxt prv x (i # is) z \<longleftrightarrow> nxt x = BBuf i \<and> prv (BBuf i) = x \<and> dlpath nxt prv (BBuf i) is z"

lemma dlpath_append:
  "dlpath nxt prv x (as @ i # bs) z \<longleftrightarrow> dlpath nxt prv x as (BBuf i) \<and> dlpath nxt prv (BBuf i) bs z"
  by (induction "as" arbitrary: x) auto

lemma dlpath_cong:
  assumes "nxt' x = nxt x" and "prv' z = prv z"
    and "\<And>i. i \<in> set is \<Longrightarrow> nxt' (BBuf i) = nxt (BBuf i)"
    and "\<And>i. i \<in> set is \<Longrightarrow> prv' (BBuf i) = prv (BBuf i)"
  shows "dlpath nxt' prv' x is z = dlpath nxt prv x is z"
  using assms by (induction "is" arbitrary: x) auto

lemma dlpath_retarget_end:
  assumes "dlpath nxt prv x as y" and "x \<notin> BBuf ` set as" and "distinct as"
    and "y \<notin> BBuf ` set as" and "w \<notin> BBuf ` set as"
  shows "dlpath (nxt(prv y := w)) (prv(w := prv y)) x as w"
proof (cases "as" rule: rev_cases)
  case Nil
  then show ?thesis using assms(1) by simp
next
  case (snoc as' a)
  have p: "dlpath nxt prv x as' (BBuf a)" "nxt (BBuf a) = y" "prv y = BBuf a"
    using assms(1) unfolding snoc dlpath_append by auto
  have "dlpath (nxt(BBuf a := w)) (prv(w := BBuf a)) x as' (BBuf a)"
    using p(1) assms snoc by (subst dlpath_cong [of _ _ nxt _ _ prv]) auto
  then show ?thesis using p unfolding snoc dlpath_append by simp
qed

definition ring :: "kstate \<Rightarrow> nat list \<Rightarrow> bool" where
  "ring s L \<longleftrightarrow> dlpath (bnext s) (bprev s) BHead L BHead"

lemma bnext_set_next:
  assumes "\<And>i. p = BBuf i \<Longrightarrow> i < length (bcache s)"
  shows "bnext (set_next p q s) = (bnext s)(p := q)" "bprev (set_next p q s) = bprev s"
  using assms
  by (auto simp: bnext_def bprev_def set_next_def upd_buf_def fun_eq_iff nth_list_update split: bptr.splits)

lemma bprev_set_prev:
  assumes "\<And>i. p = BBuf i \<Longrightarrow> i < length (bcache s)"
  shows "bprev (set_prev p q s) = (bprev s)(p := q)" "bnext (set_prev p q s) = bnext s"
  using assms
  by (auto simp: bnext_def bprev_def set_prev_def upd_buf_def fun_eq_iff nth_list_update split: bptr.splits)

lemma length_set_links [simp]:
  "length (bcache (set_next p q s)) = length (bcache s)"
  "length (bcache (set_prev p q s)) = length (bcache s)"
  by (simp_all add: set_next_def set_prev_def split: bptr.split)

lemma dlpath_last: "dlpath nxt prv x as z \<Longrightarrow> prv z = (if as = [] then x else BBuf (last as))"
  by (induction "as" arbitrary: x) auto

lemma dlpath_hd: "dlpath nxt prv x as z \<Longrightarrow> nxt x = (if as = [] then z else BBuf (hd as))"
  by (cases "as") auto

lemma ring_remove:
  assumes "ring s (as @ i # bs)" and "distinct (as @ i # bs)"
    and "\<And>j. j \<in> set (as @ i # bs) \<Longrightarrow> j < length (bcache s)"
  shows "ring (free_remove i s) (as @ bs)"
proof -
  let ?n = "bnext s" and ?p = "bprev s" and ?i = "BBuf i"
  have A: "dlpath ?n ?p BHead as ?i" and B: "dlpath ?n ?p ?i bs BHead"
    using assms(1) by (auto simp: ring_def dlpath_append)
  have pi: "?p ?i = (if as = [] then BHead else BBuf (last as))" using dlpath_last [OF A] .
  have ni: "?n ?i = (if bs = [] then BHead else BBuf (hd bs))" using dlpath_hd [OF B] .
  have las: "as \<noteq> [] \<Longrightarrow> last as \<in> set as" and hbs: "bs \<noteq> [] \<Longrightarrow> hd bs \<in> set bs" by simp_all
  define s1 where "s1 = set_next (?p ?i) (?n ?i) s"
  have s1: "bnext s1 = ?n(?p ?i := ?n ?i)" "bprev s1 = ?p"
    unfolding s1_def using pi las assms(3) by (auto intro!: bnext_set_next split: if_splits)
  have ne: "?p ?i \<noteq> ?i" using pi las assms(2) by (auto split: if_splits)
  have pnb: "\<forall>j\<in>set bs. BBuf j \<noteq> ?p ?i"
    using pi las assms(2) by (auto simp: disjoint_iff split: if_splits)
  have rem: "free_remove i s = set_prev (?n ?i) (?p ?i) s1"
    unfolding free_remove_def Let_def s1_def [symmetric] using s1 ne by simp
  have lk: "bnext (free_remove i s) = ?n(?p ?i := ?n ?i)" "bprev (free_remove i s) = ?p(?n ?i := ?p ?i)"
    unfolding rem using s1 ni hbs assms(3)
    by (subst bprev_set_prev; auto simp: s1_def split: if_splits)+
  have r: "dlpath (?n(?p ?i := ?n ?i)) (?p(?n ?i := ?p ?i)) BHead as (?n ?i)"
    using A assms(2) ni hbs by (intro dlpath_retarget_end) (auto split: if_splits)
  show ?thesis
  proof (cases bs)
    case Nil
    then show ?thesis using r ni unfolding ring_def lk by simp
  next
    case (Cons b bs')
    then have b: "?n ?i = BBuf b" "dlpath ?n ?p (BBuf b) bs' BHead" using B by auto
    have "dlpath (?n(?p ?i := ?n ?i)) (?p(?n ?i := ?p ?i)) (BBuf b) bs' BHead"
      using b(2) assms(2) Cons pnb
      by (subst dlpath_cong [of _ _ ?n _ _ ?p]) (auto simp: b(1))
    with r show ?thesis unfolding ring_def lk Cons dlpath_append b(1) by simp
  qed
qed

lemma ring_append:
  assumes "ring s L" and "i \<notin> set L" and "i < length (bcache s)"
    and "\<And>j. j \<in> set L \<Longrightarrow> j < length (bcache s)" and "distinct L"
  shows "ring (free_append i s) (L @ [i])"
proof -
  let ?n = "bnext s" and ?p = "bprev s" and ?i = "BBuf i"
  have R: "dlpath ?n ?p BHead L BHead" using assms(1) by (simp add: ring_def)
  have ph: "?p BHead = (if L = [] then BHead else BBuf (last L))" using dlpath_last [OF R] .
  have ll: "L \<noteq> [] \<Longrightarrow> last L \<in> set L" by simp
  define s1 where "s1 = set_next ?i BHead s"
  define s2 where "s2 = set_prev ?i (?p BHead) s1"
  define s3 where "s3 = set_next (?p BHead) ?i s2"
  have s1: "bnext s1 = ?n(?i := BHead)" "bprev s1 = ?p"
    unfolding s1_def using assms(3) by (auto intro!: bnext_set_next)
  have s2: "bnext s2 = ?n(?i := BHead)" "bprev s2 = ?p(?i := ?p BHead)"
    unfolding s2_def using assms(3) s1 by (subst bprev_set_prev; simp add: s1_def)+
  have s3: "bnext s3 = ?n(?i := BHead, ?p BHead := ?i)" "bprev s3 = ?p(?i := ?p BHead)"
    unfolding s3_def using s2 ph ll assms(4)
    by (subst bnext_set_next; auto simp: s2_def s1_def split: if_splits)+
  have app: "free_append i s = set_prev BHead ?i s3"
    unfolding free_append_def Let_def s1_def [symmetric] using s1 s2
    by (simp add: s2_def [symmetric] s3_def [symmetric])
  have lk: "bnext (free_append i s) = ?n(?i := BHead, ?p BHead := ?i)"
    "bprev (free_append i s) = ?p(?i := ?p BHead, BHead := ?i)"
    unfolding app using s3 by (subst bprev_set_prev; simp)+
  have "dlpath (?n(?p BHead := ?i)) (?p(?i := ?p BHead)) BHead L ?i"
    using R assms(2,5) by (intro dlpath_retarget_end) auto
  then have "dlpath (?n(?i := BHead, ?p BHead := ?i)) (?p(?i := ?p BHead, BHead := ?i)) BHead L ?i"
    using assms(2) by (subst dlpath_cong [of _ _ "?n(?p BHead := ?i)" _ _ "?p(?i := ?p BHead)"]) auto
  moreover have "?p BHead \<noteq> ?i" using ph ll assms(2) by (auto split: if_splits)
  ultimately show ?thesis unfolding ring_def lk dlpath_append by simp
qed

text \<open>The links are the only part of the state that the ring operations change.\<close>

lemma set_links_frame [simp]:
  "sectors (set_next p q s) = sectors s" "wd_devsw (set_next p q s) = wd_devsw s"
  "procs (set_next p q s) = procs s" "cur_proc (set_next p q s) = cur_proc s"
  "sectors (set_prev p q s) = sectors s" "wd_devsw (set_prev p q s) = wd_devsw s"
  "procs (set_prev p q s) = procs s" "cur_proc (set_prev p q s) = cur_proc s"
  by (simp_all add: set_next_def set_prev_def split: bptr.split)

lemma set_links_fields [simp]:
  assumes "j < length (bcache s)"
  shows "b_dev (bcache (set_next p q s) ! j) = b_dev (bcache s ! j)"
    "b_block_no (bcache (set_next p q s) ! j) = b_block_no (bcache s ! j)"
    "b_flags (bcache (set_next p q s) ! j) = b_flags (bcache s ! j)"
    "b_ref_count (bcache (set_next p q s) ! j) = b_ref_count (bcache s ! j)"
    "b_data (bcache (set_next p q s) ! j) = b_data (bcache s ! j)"
    "b_dev (bcache (set_prev p q s) ! j) = b_dev (bcache s ! j)"
    "b_block_no (bcache (set_prev p q s) ! j) = b_block_no (bcache s ! j)"
    "b_flags (bcache (set_prev p q s) ! j) = b_flags (bcache s ! j)"
    "b_ref_count (bcache (set_prev p q s) ! j) = b_ref_count (bcache s ! j)"
    "b_data (bcache (set_prev p q s) ! j) = b_data (bcache s ! j)"
  using assms by (simp_all add: set_next_def set_prev_def nth_upd_buf split: bptr.split)

lemma free_links_frame [simp]:
  "sectors (free_remove i s) = sectors s" "wd_devsw (free_remove i s) = wd_devsw s"
  "procs (free_remove i s) = procs s" "cur_proc (free_remove i s) = cur_proc s"
  "length (bcache (free_remove i s)) = length (bcache s)"
  "sectors (free_append i s) = sectors s" "wd_devsw (free_append i s) = wd_devsw s"
  "procs (free_append i s) = procs s" "cur_proc (free_append i s) = cur_proc s"
  "length (bcache (free_append i s)) = length (bcache s)"
  by (simp_all add: free_remove_def free_append_def Let_def)

lemma free_links_fields [simp]:
  assumes "j < length (bcache s)"
  shows "b_dev (bcache (free_remove i s) ! j) = b_dev (bcache s ! j)"
    "b_block_no (bcache (free_remove i s) ! j) = b_block_no (bcache s ! j)"
    "b_flags (bcache (free_remove i s) ! j) = b_flags (bcache s ! j)"
    "b_ref_count (bcache (free_remove i s) ! j) = b_ref_count (bcache s ! j)"
    "b_data (bcache (free_remove i s) ! j) = b_data (bcache s ! j)"
    "b_dev (bcache (free_append i s) ! j) = b_dev (bcache s ! j)"
    "b_block_no (bcache (free_append i s) ! j) = b_block_no (bcache s ! j)"
    "b_flags (bcache (free_append i s) ! j) = b_flags (bcache s ! j)"
    "b_ref_count (bcache (free_append i s) ! j) = b_ref_count (bcache s ! j)"
    "b_data (bcache (free_append i s) ! j) = b_data (bcache s ! j)"
  using assms by (simp_all add: free_remove_def free_append_def Let_def)

text \<open>An update of a buffer that keeps its links keeps the ring.\<close>

lemma nth_upd_buf_keep:
  "(\<And>b. g (f b) = g b) \<Longrightarrow> g (bcache (upd_buf i f s) ! j) = g (bcache s ! j)"
  by (cases "i = j"; cases "i < length (bcache s)") (simp_all add: upd_buf_def list_update_beyond)

lemma ring_upd_buf:
  assumes "\<And>b. b_next (f b) = b_next b" and "\<And>b. b_prev (f b) = b_prev b"
  shows "ring (upd_buf i f s) L = ring s L"
proof -
  have "bnext (upd_buf i f s) = bnext s" "bprev (upd_buf i f s) = bprev s"
    using assms by (auto simp: bnext_def bprev_def fun_eq_iff nth_upd_buf_keep split: bptr.split)
  then show ?thesis by (simp add: ring_def)
qed

lemma ring_cong:
  "bcache t = bcache s \<Longrightarrow> bfree_next t = bfree_next s \<Longrightarrow> bfree_prev t = bfree_prev s \<Longrightarrow> ring t L = ring s L"
  by (simp add: ring_def bnext_def [abs_def] bprev_def [abs_def])

section \<open>The disk under the cache\<close>

text \<open>The configuration of the drives, which reads and writes do not change.\<close>

definition wd_conf :: "wd list \<Rightarrow> (u32 \<times> part list) list" where
  "wd_conf tab = map (\<lambda>w. (wd_blocks w, wd_part w)) tab"

text \<open>The device answers, and its blocks below \<open>2 ^ 26\<close> have different 28-bit sector numbers.\<close>

definition dev_ok :: "u16 \<Rightarrow> kstate \<Rightarrow> bool" where
  "dev_ok dv s \<longleftrightarrow> length (wd_devsw s) = IDE_MAX_DEV \<and> unat (major dv) < num_bdev \<and>
     (case wd_locate (wd_devsw s) dv 0 of None \<Rightarrow> False | Some (d, base) \<Rightarrow> unat base < 2 ^ 27)"

definition block_ok :: "u32 \<Rightarrow> bool" where
  "block_ok n \<longleftrightarrow> unat n < 2 ^ 26"

text \<open>The 1024 bytes of a block as the disk holds them.\<close>

definition disk_block :: "u16 \<Rightarrow> kstate \<Rightarrow> u32 \<Rightarrow> bytes" where
  "disk_block dv s n =
     (case wd_locate (wd_devsw s) dv n of None \<Rightarrow> [] | Some (d, sector) \<Rightarrow> ide_read_multiple d sector s)"

lemma wd_locate_base:
  assumes "wd_locate tab dv 0 = Some (d, base)"
  shows "wd_locate tab dv n = Some (d, n * 2 + base)" and "d < IDE_MAX_DEV"
  using assms by (auto simp: wd_locate_def Let_def split: if_splits)

lemma wd_locate_conf:
  assumes "wd_conf tab = wd_conf tab'" and "length tab = IDE_MAX_DEV"
  shows "wd_locate tab dv n = wd_locate tab' dv n"
proof -
  have len: "length tab' = IDE_MAX_DEV"
    using assms by (metis length_map wd_conf_def)
  have "wd_blocks (tab ! d) = wd_blocks (tab' ! d) \<and> wd_part (tab ! d) = wd_part (tab' ! d)"
    if "d < IDE_MAX_DEV" for d
  proof -
    have "wd_conf tab ! d = wd_conf tab' ! d" using assms(1) by simp
    then show ?thesis using that assms(2) len by (simp add: wd_conf_def)
  qed
  then show ?thesis by (auto simp: wd_locate_def Let_def)
qed

lemma length_wd_conf: "wd_conf tab = wd_conf tab' \<Longrightarrow> length tab = length tab'"
  unfolding wd_conf_def by (rule map_eq_imp_length_eq)

lemma dev_okE:
  assumes "dev_ok dv s"
  obtains d base where "wd_locate (wd_devsw s) dv 0 = Some (d, base)" "d < IDE_MAX_DEV" "unat base < 2 ^ 27"
    "\<And>n. wd_locate (wd_devsw s) dv n = Some (d, n * 2 + base)" "length (wd_devsw s) = IDE_MAX_DEV"
    "unat (major dv) = 0"
proof -
  obtain d base where *: "wd_locate (wd_devsw s) dv 0 = Some (d, base)" "unat base < 2 ^ 27"
    using assms by (auto simp: dev_ok_def split: option.splits)
  show thesis
    using that [OF *(1)] wd_locate_base [OF *(1)] *(2) assms
    by (auto simp: dev_ok_def num_bdev_def bdevsw_def)
qed

lemma dev_ok_cong:
  "dev_ok dv s \<Longrightarrow> wd_conf (wd_devsw t) = wd_conf (wd_devsw s) \<Longrightarrow> dev_ok dv t"
  using wd_locate_conf [of "wd_devsw s" "wd_devsw t" dv 0]
  by (auto simp: dev_ok_def wd_conf_def dest: map_eq_imp_length_eq)

lemma disk_block_cong:
  assumes "dev_ok dv s" and "wd_conf (wd_devsw t) = wd_conf (wd_devsw s)" and "sectors t = sectors s"
  shows "disk_block dv t = disk_block dv s"
proof -
  have "wd_locate (wd_devsw s) dv n = wd_locate (wd_devsw t) dv n" for n
    using wd_locate_conf [of "wd_devsw s" "wd_devsw t"] assms(1,2) by (simp add: dev_ok_def)
  then show ?thesis
    using assms(3) by (auto simp: disk_block_def fun_eq_iff ide_read_multiple_def split: option.split)
qed

text \<open>The two sectors of a block, as numbers.\<close>

lemma lba28_unat: "unat sec < 2 ^ 28 \<Longrightarrow> lba28 sec = sec"
proof -
  assume *: "unat sec < 2 ^ 28"
  have "lba28 sec = take_bit 28 sec"
    unfolding lba28_def by (simp add: take_bit_eq_mask mask_eq_exp_minus_1)
  moreover have "unat (take_bit 28 sec) = unat sec"
    using * by (simp add: unsigned_take_bit_eq take_bit_nat_eq_self)
  ultimately show ?thesis by (metis unsigned_word_eqI)
qed

lemma block_sector:
  assumes "block_ok n" and "unat base < 2 ^ 27"
  shows "lba28 (n * 2 + base) = n * 2 + base" and "unat (n * 2 + base) = 2 * unat n + unat base"
    and "unat (n * 2 + base + 1) = 2 * unat n + unat base + 1"
proof -
  have "unat n * 2 + unat base + 1 < 2 ^ 28" using assms by (simp add: block_ok_def)
  then show s: "unat (n * 2 + base) = 2 * unat n + unat base"
    "unat (n * 2 + base + 1) = 2 * unat n + unat base + 1"
    by (simp_all add: unat_word_ariths)
  then show "lba28 (n * 2 + base) = n * 2 + base"
    using assms by (intro lba28_unat) (simp add: block_ok_def)
qed

lemma block_sectors_distinct:
  assumes "block_ok n" and "block_ok m" and "unat base < 2 ^ 27" and "m \<noteq> n"
  shows "m * 2 + base \<noteq> n * 2 + base" "m * 2 + base \<noteq> n * 2 + base + 1"
    "m * 2 + base + 1 \<noteq> n * 2 + base" "m * 2 + base + 1 \<noteq> n * 2 + base + 1"
proof -
  have ne: "unat m \<noteq> unat n" using assms(4) unsigned_word_eqI by blast
  note n = block_sector [OF assms(1,3)] and m = block_sector [OF assms(2,3)]
  show "m * 2 + base \<noteq> n * 2 + base" using n(2) m(2) ne by force
  show "m * 2 + base \<noteq> n * 2 + base + 1"
  proof
    assume "m * 2 + base = n * 2 + base + 1"
    then have "2 * unat m + unat base = 2 * unat n + unat base + 1" using n(3) m(2) by metis
    then show False by presburger
  qed
  show "m * 2 + base + 1 \<noteq> n * 2 + base"
  proof
    assume "m * 2 + base + 1 = n * 2 + base"
    then have "2 * unat m + unat base + 1 = 2 * unat n + unat base" using n(2) m(3) by metis
    then show False by presburger
  qed
  show "m * 2 + base + 1 \<noteq> n * 2 + base + 1" using n(3) m(3) ne by force
qed

lemma disk_block_write:
  assumes "dev_ok dv s" and "wd_locate (wd_devsw s) dv n = Some (d, sec)" and "length data = BLOCK_SIZE"
    and "block_ok n" and "block_ok m"
  shows "disk_block dv (ide_write_multiple d sec data s) m = (if m = n then data else disk_block dv s m)"
proof -
  obtain base where base: "unat base < 2 ^ 27" "sec = n * 2 + base"
    "\<And>k. wd_locate (wd_devsw s) dv k = Some (d, k * 2 + base)"
    using assms(1,2) by (elim dev_okE) auto
  note n = block_sector [OF assms(4) base(1)] and m = block_sector [OF assms(5) base(1)]
  have "n * 2 + base \<noteq> n * 2 + base + 1" by simp
  moreover have "take 512 data @ take 512 (drop 512 data) = data"
    using assms(3) by (metis add_diff_cancel_left' append_take_drop_id length_drop numeral_Bit0 take_all_iff order_refl)
  ultimately show ?thesis
    using base(3) n(1) m(1) block_sectors_distinct [OF assms(4,5) base(1)]
    by (auto simp: disk_block_def ide_write_multiple_def ide_read_multiple_def base(2))
qed

section \<open>What the driver changes\<close>

text \<open>Two process tables that differ in scheduling states only, and the part of the kernel that
  the buffer cache leaves alone.\<close>

definition procs_eqv :: "proc list \<Rightarrow> proc list \<Rightarrow> bool" where
  "procs_eqv ps qs \<longleftrightarrow>
     map (\<lambda>p. p\<lparr>p_state := STATE_NULL, p_wchan := WNull\<rparr>) ps = map (\<lambda>p. p\<lparr>p_state := STATE_NULL, p_wchan := WNull\<rparr>) qs"

definition bio_frame :: "kstate \<Rightarrow> kstate \<Rightarrow> bool" where
  "bio_frame s t \<longleftrightarrow>
     procs_eqv (procs s) (procs t) \<and> wd_conf (wd_devsw t) = wd_conf (wd_devsw s)
     \<and> super t = super s \<and> inodes t = inodes s \<and> root_inode t = root_inode s \<and> files t = files s
     \<and> pipes t = pipes s \<and> ttys t = ttys s \<and> cur_proc t = cur_proc s \<and> nextpid t = nextpid s
     \<and> vmm_bitmap t = vmm_bitmap s \<and> vmm_bitmap_index t = vmm_bitmap_index s \<and> frames t = frames s
     \<and> cur_pmap t = cur_pmap s \<and> pit_ticks t = pit_ticks s \<and> pit_time t = pit_time s"

lemma procs_eqv_refl [simp]: "procs_eqv ps ps"
  by (simp add: procs_eqv_def)

lemma procs_eqv_map:
  "(\<And>p. (f p)\<lparr>p_state := STATE_NULL, p_wchan := WNull\<rparr> = p\<lparr>p_state := STATE_NULL, p_wchan := WNull\<rparr>) \<Longrightarrow>
   procs_eqv ps (map f ps)"
  by (simp add: procs_eqv_def)

lemma procs_eqv_wakeup [simp]: "procs_eqv (procs s) (procs (wakeup_state w s))"
  unfolding wakeup_state_def by (simp, rule procs_eqv_map) (simp add: wakeup_proc_def)

lemma procs_eqv_update [simp]:
  "procs_eqv (procs s) (procs (upd_proc p (\<lambda>q. q\<lparr>p_wchan := w, p_state := st\<rparr>) s))"
  unfolding upd_proc_def procs_eqv_def
  by (rule nth_equalityI) (auto simp: nth_list_update_if)

lemma procs_eqv_trans: "procs_eqv a b \<Longrightarrow> procs_eqv b c \<Longrightarrow> procs_eqv a c"
  by (simp add: procs_eqv_def)

lemma procs_eqv_nth:
  assumes "procs_eqv ps qs" and "i < length ps"
  shows "\<exists>st w. qs ! i = (ps ! i)\<lparr>p_state := st, p_wchan := w\<rparr>" and "length qs = length ps"
proof -
  let ?f = "\<lambda>p. p\<lparr>p_state := STATE_NULL, p_wchan := WNull\<rparr>"
  show len: "length qs = length ps" using assms(1) unfolding procs_eqv_def by (metis length_map)
  have "?f (ps ! i) = ?f (qs ! i)"
    using assms len unfolding procs_eqv_def by (metis (no_types, lifting) nth_map)
  then have "(ps ! i)\<lparr>p_state := p_state (qs ! i), p_wchan := p_wchan (qs ! i)\<rparr>
      = (qs ! i)\<lparr>p_state := p_state (qs ! i), p_wchan := p_wchan (qs ! i)\<rparr>"
    by (cases "ps ! i"; cases "qs ! i") simp
  then have "qs ! i = (ps ! i)\<lparr>p_state := p_state (qs ! i), p_wchan := p_wchan (qs ! i)\<rparr>" by simp
  then show "\<exists>st w. qs ! i = (ps ! i)\<lparr>p_state := st, p_wchan := w\<rparr>" by metis
qed

lemma bio_frame_refl [simp]: "bio_frame s s"
  by (simp add: bio_frame_def)

lemma bio_frame_trans: "bio_frame s t \<Longrightarrow> bio_frame t u \<Longrightarrow> bio_frame s u"
  by (auto simp: bio_frame_def intro: procs_eqv_trans)

lemma bio_frame_upd [simp]:
  "bio_frame s (upd_buf i f t) = bio_frame s t"
  "bio_frame s (set_next p q t) = bio_frame s t" "bio_frame s (set_prev p q t) = bio_frame s t"
  by (simp_all add: bio_frame_def upd_buf_def set_next_def set_prev_def split: bptr.split)

lemma bio_frame_links [simp]:
  "bio_frame s (free_remove i t) = bio_frame s t" "bio_frame s (free_append i t) = bio_frame s t"
  by (simp_all add: free_remove_def free_append_def Let_def)

lemma wd_conf_upd [simp]:
  assumes "\<And>w. wd_blocks (f w) = wd_blocks w" and "\<And>w. wd_part (f w) = wd_part w"
  shows "wd_conf (wd_devsw (upd_wd d f s)) = wd_conf (wd_devsw s)"
  using assms unfolding upd_wd_def wd_conf_def
  by (cases "d < length (wd_devsw s)") (simp_all add: map_update list_update_same_conv list_update_beyond)

lemma bio_frame_wakeup [simp]: "bio_frame s t \<Longrightarrow> bio_frame s (wakeup_state w t)"
  using procs_eqv_wakeup [of t w]
  by (auto simp: bio_frame_def wakeup_state_def intro: procs_eqv_trans)

lemma bio_frame_upd_wd [simp]:
  assumes "\<And>w. wd_blocks (f w) = wd_blocks w" and "\<And>w. wd_part (f w) = wd_part w"
  shows "bio_frame s (upd_wd d f t) = bio_frame s t"
  using wd_conf_upd [of f d t] assms by (simp add: bio_frame_def upd_wd_def)

lemma iodone_exec:
  assumes "i < length (bcache s)"
  shows "\<exists>t. iodone i s = Ok () t \<and> bio_frame s t \<and> sectors t = sectors s \<and> wd_devsw t = wd_devsw s
    \<and> bfree_next t = bfree_next s \<and> bfree_prev t = bfree_prev s
    \<and> bcache t = (bcache s)[i := clear_flags B_WANTED (or_flags B_DONE (bcache s ! i))]"
  using assms
  by (simp add: iodone_def kern_simps wakeup_def)
    (simp add: upd_buf_def wakeup_state_def bio_frame_def wakeup_proc_def procs_eqv_def)

text \<open>A read fills the buffer from the disk; a write copies the buffer to the disk.\<close>

definition read_done :: "bytes \<Rightarrow> buf \<Rightarrow> buf" where
  "read_done data b = clear_flags B_WANTED (or_flags B_DONE (b\<lparr>b_data := data\<rparr>))"

lemma wd_read_exec:
  assumes "i < length (bcache s)" and "d < length (wd_devsw s)"
    and "wd_locate (wd_devsw s) (b_dev (bcache s ! i)) (b_block_no (bcache s ! i)) = Some (d, sec)"
  shows "\<exists>t. wd_read i s = Ok () t \<and> bio_frame s t \<and> sectors t = sectors s
    \<and> bfree_next t = bfree_next s \<and> bfree_prev t = bfree_prev s
    \<and> bcache t = (bcache s)[i := read_done (ide_read_multiple d sec s) (bcache s ! i)]"
proof -
  define data where "data = ide_read_multiple d sec s"
  define s1 where "s1 = upd_wd d (\<lambda>x. x\<lparr>rdbuf := Some i\<rparr>) s"
  define s2 where "s2 = (case cur_proc s of
      Some p \<Rightarrow> upd_proc p (\<lambda>q. q\<lparr>p_wchan := WFun ''wd_intr'', p_state := STATE_SLEEP\<rparr>) s1 | None \<Rightarrow> s1)"
  define s3 where "s3 = upd_buf i (\<lambda>x. x\<lparr>b_data := data\<rparr>) s2"
  have s2: "bcache s2 = bcache s" "sectors s2 = sectors s" "wd_devsw s2 = wd_devsw s1"
    "bfree_next s2 = bfree_next s" "bfree_prev s2 = bfree_prev s"
    by (simp_all add: s2_def s1_def upd_proc_def split: option.split)
  have f2: "bio_frame s s2"
    using procs_eqv_update [of s] wd_conf_upd [of "\<lambda>x. x\<lparr>rdbuf := Some i\<rparr>" d s]
    by (auto simp: s2_def s1_def bio_frame_def upd_wd_def upd_proc_def split: option.split)
  have rd: "rdbuf (wd_devsw s2 ! d) = Some i"
    using assms(2) s2(3) by (simp add: s1_def upd_wd_def)
  have "i < length (bcache s3)" using assms(1) s2 by (simp add: s3_def)
  from iodone_exec [OF this] obtain s4 where s4: "iodone i s3 = Ok () s4" "bio_frame s3 s4"
    "sectors s4 = sectors s3" "bfree_next s4 = bfree_next s3" "bfree_prev s4 = bfree_prev s3"
    "bcache s4 = (bcache s3)[i := clear_flags B_WANTED (or_flags B_DONE (bcache s3 ! i))]" by blast
  define t where "t = wakeup_state (WFun ''wd_intr'') (upd_wd d (\<lambda>x. x\<lparr>rdbuf := None\<rparr>) s4)"
  have "ide_read_multiple d sec s1 = data" by (simp add: data_def ide_read_multiple_def s1_def)
  then have "wd_read i s = wd_intr d True True data s2"
    using assms(3)
    by (simp add: wd_read_def kern_simps wd_await_def s1_def [symmetric] s2_def split: option.split)
      (simp add: s1_def)
  also have "\<dots> = Ok () t"
    using rd s4(1) by (simp add: wd_intr_def kern_simps s3_def [symmetric] thenK_Ok t_def wakeup_def)
  finally have "wd_read i s = Ok () t" .
  moreover have "bio_frame s s4"
    using f2 s4(2) by (intro bio_frame_trans [of s s3 s4]) (simp_all add: s3_def)
  then have "bio_frame s t" by (simp add: t_def)
  moreover have "bcache t = (bcache s)[i := read_done data (bcache s ! i)]"
    using s4(6) assms(1) s2(1) by (simp add: t_def s3_def upd_buf_def read_done_def wakeup_state_def)
  ultimately show ?thesis
    using s4 s2 by (auto simp: t_def s3_def data_def wakeup_state_def upd_wd_def)
qed

lemma bwrite_exec:
  assumes "i < length (bcache s)" and "dev_ok dv s" and "b_dev (bcache s ! i) = dv"
  shows "\<exists>t d sec. bwrite i s = Ok () t \<and> bio_frame s t
    \<and> wd_locate (wd_devsw s) dv (b_block_no (bcache s ! i)) = Some (d, sec)
    \<and> sectors t = sectors (ide_write_multiple d sec (b_data (bcache s ! i)) s)
    \<and> bfree_next t = bfree_next s \<and> bfree_prev t = bfree_prev s
    \<and> bcache t = (bcache s)[i := clear_flags (B_DIRTY OR B_DONE OR B_ERROR) (bcache s ! i)]"
proof -
  obtain d base where loc: "wd_locate (wd_devsw s) dv n = Some (d, n * 2 + base)" for n
    using dev_okE [OF assms(2)] by metis
  have maj: "unat (major dv) = 0" using dev_okE [OF assms(2)] by metis
  define s1 where "s1 = upd_buf i (clear_flags (B_DIRTY OR B_DONE OR B_ERROR)) s"
  define t where "t = ide_write_multiple d (b_block_no (bcache s ! i) * 2 + base) (b_data (bcache s1 ! i))
      (upd_wd d (\<lambda>x. x\<lparr>wrbuf := Some i\<rparr>) s1)"
  have s1: "b_dev (bcache s1 ! i) = dv" "b_block_no (bcache s1 ! i) = b_block_no (bcache s ! i)"
    "b_data (bcache s1 ! i) = b_data (bcache s ! i)"
    using assms(1,3) by (simp_all add: s1_def)
  have "bwrite i s = wd_write i s1"
    using maj s1(1) by (simp add: bwrite_def kern_simps num_bdev_def bdevsw_def s1_def)
  also have "\<dots> = Ok () t"
    using s1 loc by (simp add: wd_write_def kern_simps t_def) (simp add: s1_def kern_simps)
  finally have "bwrite i s = Ok () t" .
  moreover have "bio_frame s t"
    by (simp add: t_def s1_def ide_write_multiple_def bio_frame_def)
      (simp add: upd_buf_def upd_wd_def wd_conf_upd [unfolded upd_wd_def, simplified])
  ultimately show ?thesis
    using loc s1 by (auto simp: t_def s1_def ide_write_multiple_def upd_buf_def upd_wd_def)
qed

section \<open>The invariant of the cache\<close>

lemma flag_facts [bit_facts]:
  "f AND 4 = 0 \<longleftrightarrow> \<not> bit f 2" "f AND 8 = 0 \<longleftrightarrow> \<not> bit f 3" "f AND 16 = 0 \<longleftrightarrow> \<not> bit f 4"
  "f AND 32 = 0 \<longleftrightarrow> \<not> bit f 5" "f AND 64 = 0 \<longleftrightarrow> \<not> bit f 6" for f :: u32
  using and_mask1_eq_0 [of f 2] and_mask1_eq_0 [of f 3] and_mask1_eq_0 [of f 4]
    and_mask1_eq_0 [of f 5] and_mask1_eq_0 [of f 6]
  by (simp_all add: mask1_def)

lemma read_done_not_dirty:
  "f AND 64 = 0 \<Longrightarrow> (((f AND NOT 8) OR 4) AND NOT 32) AND 64 = 0" for f :: u32
  unfolding flag_facts by (simp add: bit_simps)

text \<open>What a buffer is apart from its links, and a buffer in a good state.\<close>

definition payload :: "buf \<Rightarrow> u16 \<times> u32 \<times> u32 \<times> nat \<times> bytes" where
  "payload b = (b_dev b, b_block_no b, b_flags b, b_ref_count b, b_data b)"

definition buf_ok :: "u16 \<Rightarrow> kstate \<Rightarrow> buf \<Rightarrow> bool" where
  "buf_ok dv s b \<longleftrightarrow> length (b_data b) = BLOCK_SIZE \<and> (b_dev b = dv \<longrightarrow> block_ok (b_block_no b))
     \<and> (b_ref_count b = 0 \<longrightarrow> b_flags b AND B_BUSY = 0 \<and> b_flags b AND B_DIRTY = 0
          \<and> (b_dev b = dv \<longrightarrow> b_data b = disk_block dv s (b_block_no b)))"

text \<open>
  The invariant for a device \<open>dv\<close> with the ring \<open>L\<close>: the ring holds exactly the buffers that nobody
  references, no block of the device is cached twice, and a buffer of the device on the ring
  agrees with the disk.
\<close>

definition bio_inv :: "u16 \<Rightarrow> kstate \<Rightarrow> nat list \<Rightarrow> bool" where
  "bio_inv dv s L \<longleftrightarrow>
     length (bcache s) = NBUF \<and> dev_ok dv s \<and> (\<forall>d n. length (sectors s d n) = 512)
     \<and> ring s L \<and> distinct L \<and> set L = {i. i < NBUF \<and> b_ref_count (bcache s ! i) = 0}
     \<and> (\<forall>i<NBUF. buf_ok dv s (bcache s ! i))
     \<and> (\<forall>i<NBUF. \<forall>j<NBUF. b_dev (bcache s ! i) = dv \<longrightarrow> b_dev (bcache s ! j) = dv \<longrightarrow>
          b_block_no (bcache s ! i) = b_block_no (bcache s ! j) \<longrightarrow> i = j)"

text \<open>Buffer \<open>i\<close> caches block \<open>n\<close>.\<close>

definition caches :: "u16 \<Rightarrow> kstate \<Rightarrow> nat \<Rightarrow> u32 \<Rightarrow> bool" where
  "caches dv s i n \<longleftrightarrow> i < NBUF \<and> b_dev (bcache s ! i) = dv \<and> b_block_no (bcache s ! i) = n"

lemma bio_inv_simps:
  assumes "bio_inv dv s L"
  shows "length (bcache s) = NBUF" "dev_ok dv s" "ring s L" "distinct L"
    "i \<in> set L \<longleftrightarrow> i < NBUF \<and> b_ref_count (bcache s ! i) = 0"
    "i < NBUF \<Longrightarrow> buf_ok dv s (bcache s ! i)" "length (sectors s d n) = 512"
    "caches dv s i m \<Longrightarrow> caches dv s j m \<Longrightarrow> i = j"
  using assms unfolding bio_inv_def caches_def by auto

lemma length_disk_block:
  assumes "bio_inv dv s L"
  shows "length (disk_block dv s n) = BLOCK_SIZE"
proof -
  obtain d base where "\<And>n. wd_locate (wd_devsw s) dv n = Some (d, n * 2 + base)"
    using dev_okE [OF bio_inv_simps(2) [OF assms]] by metis
  then show ?thesis
    by (simp add: disk_block_def ide_read_multiple_def bio_inv_simps(7) [OF assms])
qed

lemma payload_eq:
  "payload b = payload c \<longleftrightarrow> b_dev b = b_dev c \<and> b_block_no b = b_block_no c \<and> b_flags b = b_flags c
     \<and> b_ref_count b = b_ref_count c \<and> b_data b = b_data c"
  by (simp add: payload_def)

text \<open>One buffer changes; every operation of the cache is such a step.\<close>

lemma bio_inv_step:
  assumes inv: "bio_inv dv s L" and i: "caches dv t i n" "block_ok n"
    and len: "length (bcache t) = NBUF" "\<And>d n. length (sectors t d n) = 512"
    and conf: "wd_conf (wd_devsw t) = wd_conf (wd_devsw s)"
    and others: "\<And>j. j < NBUF \<Longrightarrow> j \<noteq> i \<Longrightarrow> payload (bcache t ! j) = payload (bcache s ! j)"
    and sole: "\<And>j. caches dv s j n \<Longrightarrow> j = i"
    and disk: "\<And>m. block_ok m \<Longrightarrow> m \<noteq> n \<Longrightarrow> disk_block dv t m = disk_block dv s m"
    and ring: "ring t L'" "distinct L'"
      "set L' = (if b_ref_count (bcache t ! i) = 0 then insert i (set L) else set L - {i})"
    and ok: "buf_ok dv t (bcache t ! i)"
  shows "bio_inv dv t L'"
proof -
  note s = bio_inv_simps [OF inv]
  have pay: "b_dev (bcache t ! j) = b_dev (bcache s ! j)" "b_block_no (bcache t ! j) = b_block_no (bcache s ! j)"
    "b_flags (bcache t ! j) = b_flags (bcache s ! j)" "b_ref_count (bcache t ! j) = b_ref_count (bcache s ! j)"
    "b_data (bcache t ! j) = b_data (bcache s ! j)" if "j < NBUF" "j \<noteq> i" for j
    using others [OF that] by (simp_all add: payload_eq)
  have ne: "\<not> (b_dev (bcache s ! j) = dv \<and> b_block_no (bcache s ! j) = n)" if "j < NBUF" "j \<noteq> i" for j
    using sole [of j] that by (auto simp: caches_def)
  have "buf_ok dv t (bcache t ! j)" if "j < NBUF" for j
  proof (cases "j = i")
    case True
    then show ?thesis using ok by simp
  next
    case False
    then show ?thesis
      using s(6) [OF that] pay [OF that False] ne [OF that False] disk by (auto simp: buf_ok_def)
  qed
  moreover have "set L' = {j. j < NBUF \<and> b_ref_count (bcache t ! j) = 0}"
  proof (rule set_eqI)
    fix j
    have "i < NBUF" using i(1) by (simp add: caches_def)
    then show "j \<in> set L' \<longleftrightarrow> j \<in> {j. j < NBUF \<and> b_ref_count (bcache t ! j) = 0}"
      using ring(3) s(5) [of j] pay(4) [of j] by (cases "j = i") auto
  qed
  moreover have "j = k" if "j < NBUF" "k < NBUF" "b_dev (bcache t ! j) = dv" "b_dev (bcache t ! k) = dv"
    "b_block_no (bcache t ! j) = b_block_no (bcache t ! k)" for j k
  proof -
    have "b_block_no (bcache t ! i) = n" using i(1) by (simp add: caches_def)
    moreover have "caches dv s j (b_block_no (bcache s ! j))" "caches dv s k (b_block_no (bcache s ! j))"
      if "j \<noteq> i" "k \<noteq> i"
      using that \<open>j < NBUF\<close> \<open>k < NBUF\<close> pay \<open>b_dev (bcache t ! j) = dv\<close> \<open>b_dev (bcache t ! k) = dv\<close>
        \<open>b_block_no (bcache t ! j) = b_block_no (bcache t ! k)\<close> by (simp_all add: caches_def)
    ultimately show ?thesis
      using that ne [of j] ne [of k] pay [of j] pay [of k] s(8) by (cases "j = i"; cases "k = i") auto
  qed
  ultimately show ?thesis
    using len ring dev_ok_cong [OF s(2) conf] unfolding bio_inv_def by blast
qed

section \<open>Getting a buffer\<close>

lemma ring_hd:
  "ring s L \<Longrightarrow> bfree_next s = (case L of [] \<Rightarrow> BHead | i # _ \<Rightarrow> BBuf i)"
  by (cases L) (auto simp: ring_def bnext_def)

lemma ring_remove1:
  assumes "bio_inv dv s L" and "i \<in> set L"
  shows "ring (free_remove i s) (remove1 i L)"
proof -
  note s = bio_inv_simps [OF assms(1)]
  obtain as bs where L: "L = as @ i # bs" using assms(2) split_list by fastforce
  then have "i \<notin> set as" using s(4) by auto
  then have r: "remove1 i L = as @ bs" using L by (simp add: remove1_append)
  show ?thesis unfolding r by (rule ring_remove) (use s L in auto)
qed

text \<open>The state of a buffer just taken by \<open>bread\<close>.\<close>

definition fresh_hold :: "u16 \<Rightarrow> kstate \<Rightarrow> nat \<Rightarrow> u32 \<Rightarrow> bytes \<Rightarrow> bool" where
  "fresh_hold dv t i n data \<longleftrightarrow> caches dv t i n \<and> b_ref_count (bcache t ! i) = 1
     \<and> b_data (bcache t ! i) = data \<and> b_flags (bcache t ! i) AND B_DIRTY = 0"

text \<open>\<open>getblk\<close> takes the buffer that caches the block, or recycles the first of the ring.\<close>

lemma getblk_exec:
  assumes inv: "bio_inv dv s L" and n: "block_ok n" and L: "L \<noteq> []"
    and free: "\<And>j. caches dv s j n \<Longrightarrow> b_ref_count (bcache s ! j) = 0"
  shows "\<exists>i t. getblk dv n s = Ok i t \<and> i \<in> set L \<and> bio_frame s t \<and> sectors t = sectors s
    \<and> ring t (remove1 i L) \<and> length (bcache t) = NBUF
    \<and> (\<forall>j<NBUF. j \<noteq> i \<longrightarrow> payload (bcache t ! j) = payload (bcache s ! j))
    \<and> (\<forall>j. caches dv s j n \<longrightarrow> j = i) \<and> caches dv t i n \<and> b_ref_count (bcache t ! i) = 1
    \<and> length (b_data (bcache t ! i)) = BLOCK_SIZE \<and> b_flags (bcache t ! i) AND B_DIRTY = 0
    \<and> (b_flags (bcache t ! i) AND B_DONE \<noteq> 0 \<longrightarrow> b_data (bcache t ! i) = disk_block dv s n)"
proof -
  note s = bio_inv_simps [OF inv]
  have maj: "unat (major dv) < num_bdev" using s(2) by (simp add: dev_ok_def)
  let ?f = "first_index (\<lambda>b. b_dev b = dv \<and> b_block_no b = n) (bcache s)"
  show ?thesis
  proof (cases ?f)
    case (Some i)
    note i = first_index_SomeD [OF Some]
    have c: "caches dv s i n" using i(1,2) s(1) by (simp add: caches_def)
    have iL: "i \<in> set L" using s(5) [of i] free [OF c] c by (simp add: caches_def)
    have ok: "buf_ok dv s (bcache s ! i)" using s(6) c by (simp add: caches_def)
    define t where "t = upd_buf i (\<lambda>b. b\<lparr>b_ref_count := b_ref_count b + 1\<rparr>) (free_remove i s)"
    have run: "getblk dv n s = Ok i t"
      using Some maj free [OF c] ok by (simp add: getblk_def kern_simps t_def buf_ok_def)
    have "ring t (remove1 i L)"
      using ring_remove1 [OF inv iL] by (simp add: t_def ring_upd_buf)
    moreover have "payload (bcache t ! j) = payload (bcache s ! j)" if "j < NBUF" "j \<noteq> i" for j
      using that s(1) by (simp add: t_def nth_upd_buf payload_eq)
    moreover have "b_ref_count (bcache t ! i) = 1" "b_data (bcache t ! i) = b_data (bcache s ! i)"
      "caches dv t i n" "b_flags (bcache t ! i) = b_flags (bcache s ! i)"
      using c free [OF c] s(1) by (simp_all add: t_def caches_def)
    moreover have "bio_frame s t" "sectors t = sectors s" "length (bcache t) = NBUF"
      using s(1) by (simp_all add: t_def)
    moreover have "b_data (bcache s ! i) = disk_block dv s n" "length (b_data (bcache s ! i)) = BLOCK_SIZE"
      "b_flags (bcache s ! i) AND B_DIRTY = 0"
      using ok free [OF c] c length_disk_block [OF inv] by (auto simp: buf_ok_def caches_def)
    ultimately show ?thesis
      using run iL s(8) [OF _ c] by (intro exI [of _ i] exI [of _ t]) auto
  next
    case None
    then have no: "\<not> caches dv s j n" for j
      using s(1) by (auto simp: caches_def first_index_None)
    obtain i L' where Li: "L = i # L'" using L by (cases L) auto
    have iL: "i \<in> set L" "i < NBUF" "b_ref_count (bcache s ! i) = 0" using Li s(5) [of i] by auto
    have ok: "buf_ok dv s (bcache s ! i)" using s(6) iL by simp
    define u where "u = upd_buf i (\<lambda>b. b\<lparr>b_dev := dv, b_block_no := n, b_flags := B_BUSY, b_ref_count := 1\<rparr>) s"
    define t where "t = free_remove i u"
    have run: "getblk dv n s = Ok i t"
      using None maj ring_hd [OF s(3)] Li ok iL
      by (simp add: getblk_def kern_simps u_def t_def buf_ok_def)
    have ru: "ring u L" using s(3) by (simp add: u_def ring_upd_buf)
    have "ring t (remove1 i L)"
      unfolding t_def Li using ring_remove [of u "[]" i L'] ru s(1,4,5) Li by (auto simp: u_def)
    moreover have "payload (bcache t ! j) = payload (bcache s ! j)" if "j < NBUF" "j \<noteq> i" for j
      using that s(1) by (simp add: t_def u_def nth_upd_buf payload_eq)
    moreover have "bio_frame s t" "sectors t = sectors s" "length (bcache t) = NBUF"
      using s(1) by (simp_all add: t_def u_def)
    moreover have "caches dv t i n" "b_ref_count (bcache t ! i) = 1" "b_flags (bcache t ! i) = B_BUSY"
      "length (b_data (bcache t ! i)) = BLOCK_SIZE"
      using s(1) iL ok by (simp_all add: t_def u_def caches_def buf_ok_def)
    ultimately show ?thesis
      using run iL no by (intro exI [of _ i] exI [of _ t]) auto
  qed
qed

lemma bread_spec:
  assumes inv: "bio_inv dv s L" and n: "block_ok n" and L: "L \<noteq> []"
    and free: "\<And>j. caches dv s j n \<Longrightarrow> b_ref_count (bcache s ! j) = 0"
  shows "\<exists>i t. bread dv n s = Ok i t \<and> i \<in> set L \<and> bio_inv dv t (remove1 i L)
    \<and> fresh_hold dv t i n (disk_block dv s n) \<and> bio_frame s t \<and> sectors t = sectors s
    \<and> (\<forall>j<NBUF. j \<noteq> i \<longrightarrow> payload (bcache t ! j) = payload (bcache s ! j))"
proof -
  note s = bio_inv_simps [OF inv]
  obtain i u where u: "getblk dv n s = Ok i u" "i \<in> set L" "bio_frame s u" "sectors u = sectors s"
    "ring u (remove1 i L)" "length (bcache u) = NBUF"
    "\<And>j. j < NBUF \<Longrightarrow> j \<noteq> i \<Longrightarrow> payload (bcache u ! j) = payload (bcache s ! j)"
    "\<And>j. caches dv s j n \<Longrightarrow> j = i" "caches dv u i n" "b_ref_count (bcache u ! i) = 1"
    "length (b_data (bcache u ! i)) = BLOCK_SIZE" "b_flags (bcache u ! i) AND B_DIRTY = 0"
    "b_flags (bcache u ! i) AND B_DONE \<noteq> 0 \<Longrightarrow> b_data (bcache u ! i) = disk_block dv s n"
    using getblk_exec [OF assms] by metis
  have cu: "wd_conf (wd_devsw u) = wd_conf (wd_devsw s)" using u(3) by (simp add: bio_frame_def)
  have du: "disk_block dv u = disk_block dv s" using disk_block_cong [OF s(2) cu u(4)] .
  have step: "\<exists>t. thenK (whenK (b_flags (bcache u ! i) AND B_DONE = 0)
              (thenK (modifyK (upd_buf i (clear_flags B_ERROR))) (wd_read i))) (returnK i) u = Ok i t
       \<and> bio_frame u t \<and> sectors t = sectors u \<and> ring t (remove1 i L)
       \<and> length (bcache t) = NBUF
       \<and> (\<forall>j<NBUF. j \<noteq> i \<longrightarrow> payload (bcache t ! j) = payload (bcache u ! j))
       \<and> fresh_hold dv t i n (disk_block dv s n)"
  proof (cases "b_flags (bcache u ! i) AND B_DONE = 0")
    case True
    define v where "v = upd_buf i (clear_flags B_ERROR) u"
    have iv: "i < length (bcache v)" "b_dev (bcache v ! i) = dv" "b_block_no (bcache v ! i) = n"
      using u(6,9) by (simp_all add: v_def caches_def)
    obtain d base where loc: "\<And>m. wd_locate (wd_devsw s) dv m = Some (d, m * 2 + base)" "d < 4"
      "length (wd_devsw s) = 4"
      using dev_okE [OF s(2)] by metis
    have lu: "wd_locate (wd_devsw v) dv n = Some (d, n * 2 + base)"
      using wd_locate_conf [of "wd_devsw s" "wd_devsw u" dv n] cu loc by (simp add: v_def)
    have "length (wd_devsw v) = 4"
      using length_wd_conf [OF cu] loc(3) by (simp add: v_def)
    then have "d < length (wd_devsw v)" using loc(2) by simp
    from wd_read_exec [OF iv(1) this] iv lu obtain t where t: "wd_read i v = Ok () t" "bio_frame v t"
      "sectors t = sectors v" "bfree_next t = bfree_next v" "bfree_prev t = bfree_prev v"
      "bcache t = (bcache v)[i := read_done (ide_read_multiple d (n * 2 + base) v) (bcache v ! i)]"
      by auto
    have dt: "ide_read_multiple d (n * 2 + base) v = disk_block dv s n"
      using loc(1) u(4) by (simp add: disk_block_def ide_read_multiple_def v_def)
    have "ring t (remove1 i L)"
    proof -
      have "t\<lparr>bfree_next := bfree_next v, bfree_prev := bfree_prev v\<rparr> = t" using t(4,5) by simp
      have "ring (upd_buf i (read_done (disk_block dv s n)) v) (remove1 i L)"
        using u(5) by (simp add: v_def ring_upd_buf read_done_def)
      moreover have "ring t (remove1 i L) = ring (upd_buf i (read_done (disk_block dv s n)) v) (remove1 i L)"
        by (rule ring_cong) (use t dt in \<open>simp_all add: upd_buf_def\<close>)
      ultimately show ?thesis by simp
    qed
    moreover have "bio_frame u t" using t(2) by (intro bio_frame_trans [of u v t]) (simp_all add: v_def)
    moreover have "fresh_hold dv t i n (disk_block dv s n)"
      using t(6) iv u(9,10) dt read_done_not_dirty [OF u(12)]
      by (simp add: fresh_hold_def caches_def v_def read_done_def)
    moreover have "thenK (whenK (b_flags (bcache u ! i) AND B_DONE = 0)
              (thenK (modifyK (upd_buf i (clear_flags B_ERROR))) (wd_read i))) (returnK i) u = Ok i t"
      using True t(1) by (simp add: kern_simps v_def thenK_Ok)
    ultimately show ?thesis
      using t u(6) by (intro exI [of _ t]) (auto simp: v_def nth_upd_buf)
  next
    case False
    then show ?thesis
      using u by (intro exI [of _ u]) (auto simp: kern_simps fresh_hold_def)
  qed
  then obtain t where t: "thenK (whenK (b_flags (bcache u ! i) AND B_DONE = 0)
              (thenK (modifyK (upd_buf i (clear_flags B_ERROR))) (wd_read i))) (returnK i) u = Ok i t"
    "bio_frame u t" "sectors t = sectors u" "ring t (remove1 i L)" "length (bcache t) = NBUF"
    "\<And>j. j < NBUF \<Longrightarrow> j \<noteq> i \<Longrightarrow> payload (bcache t ! j) = payload (bcache u ! j)"
    "fresh_hold dv t i n (disk_block dv s n)" by blast
  have "unat (major dv) = 0" using dev_okE [OF s(2)] by metis
  then have run: "bread dv n s = Ok i t"
    using u(1) t(1) by (simp add: bread_def bindK_Ok kern_simps num_bdev_def bdevsw_def)
  have fr: "bio_frame s t" using u(3) t(2) by (rule bio_frame_trans)
  then have ct: "wd_conf (wd_devsw t) = wd_conf (wd_devsw s)" by (simp add: bio_frame_def)
  have st: "sectors t = sectors s" using u(4) t(3) by simp
  have pay: "payload (bcache t ! j) = payload (bcache s ! j)" if "j < NBUF" "j \<noteq> i" for j
    using t(6) u(7) that by simp
  have "bio_inv dv t (remove1 i L)"
  proof (rule bio_inv_step [OF inv])
    show "caches dv t i n" using t(7) by (simp add: fresh_hold_def)
    show "set (remove1 i L) = (if b_ref_count (bcache t ! i) = 0 then insert i (set L) else set L - {i})"
      using t(7) s(4) by (simp add: fresh_hold_def set_remove1_eq)
    show "buf_ok dv t (bcache t ! i)"
      using t(7) n length_disk_block [OF inv] by (auto simp: buf_ok_def fresh_hold_def caches_def)
  qed (use n t s st ct pay u disk_block_cong [OF s(2) ct st] in auto)
  with run u(2) t(7) fr st pay show ?thesis by blast
qed

section \<open>Changing, writing and releasing a buffer\<close>

lemma caches_held:
  assumes "bio_inv dv s L" and "caches dv s i n"
  shows "i < length (bcache s)" "block_ok n" "\<And>j. caches dv s j n \<Longrightarrow> j = i"
    "length (b_data (bcache s ! i)) = BLOCK_SIZE" "b_dev (bcache s ! i) = dv" "b_block_no (bcache s ! i) = n"
  using assms bio_inv_simps [OF assms(1)] by (auto simp: caches_def buf_ok_def)

text \<open>A holder may change data and flags of its buffer.\<close>

lemma bio_inv_held_upd:
  assumes inv: "bio_inv dv s L" and c: "caches dv s i n" and ref: "b_ref_count (bcache s ! i) \<noteq> 0"
    and g: "\<And>b. b_dev (g b) = b_dev b" "\<And>b. b_block_no (g b) = b_block_no b"
      "\<And>b. b_ref_count (g b) = b_ref_count b" "\<And>b. b_next (g b) = b_next b" "\<And>b. b_prev (g b) = b_prev b"
    and len: "length (b_data (g (bcache s ! i))) = BLOCK_SIZE"
  shows "bio_inv dv (upd_buf i g s) L"
proof (rule bio_inv_step [OF inv])
  note s = bio_inv_simps [OF inv] and h = caches_held [OF inv c]
  show "caches dv (upd_buf i g s) i n" using c g h(1) by (simp add: caches_def)
  show "length (bcache (upd_buf i g s)) = NBUF" using s(1) by simp
  show "disk_block dv (upd_buf i g s) m = disk_block dv s m" for m
    by (rule disk_block_cong [THEN fun_cong]) (simp_all add: s(2))
  show "set L = (if b_ref_count (bcache (upd_buf i g s) ! i) = 0 then insert i (set L) else set L - {i})"
    using ref g h(1) s(5) [of i] by auto
  show "buf_ok dv (upd_buf i g s) (bcache (upd_buf i g s) ! i)"
    using len ref g h by (simp add: buf_ok_def)
qed (use bio_inv_simps [OF inv] caches_held [OF inv c] g in \<open>auto simp: nth_upd_buf ring_upd_buf\<close>)

lemma disk_block_sectors_write:
  assumes "bio_inv dv s L" and "caches dv s i n" and "block_ok m"
    and "wd_locate (wd_devsw s) dv n = Some (d, sec)" and "length data = BLOCK_SIZE"
    and "sectors t = sectors (ide_write_multiple d sec data s)"
    and "wd_conf (wd_devsw t) = wd_conf (wd_devsw s)"
  shows "disk_block dv t m = (if m = n then data else disk_block dv s m)"
proof -
  note s = bio_inv_simps [OF assms(1)]
  let ?w = "ide_write_multiple d sec data s"
  have "dev_ok dv ?w" by (rule dev_ok_cong [OF s(2)]) (simp add: ide_write_multiple_def)
  then have "disk_block dv t = disk_block dv ?w"
    by (rule disk_block_cong) (use assms(6,7) in \<open>simp_all add: ide_write_multiple_def\<close>)
  then show ?thesis
    using disk_block_write [OF s(2) assms(4,5) caches_held(2) [OF assms(1,2)] assms(3)] by simp
qed

lemma length_ide_write:
  "(\<And>d n. length (sectors s d n) = 512) \<Longrightarrow> length data = BLOCK_SIZE \<Longrightarrow>
   length (sectors (ide_write_multiple d sec data s) d' n) = 512"
  by (simp add: ide_write_multiple_def)

lemma bwrite_spec:
  assumes inv: "bio_inv dv s L" and c: "caches dv s i n" and ref: "b_ref_count (bcache s ! i) \<noteq> 0"
  shows "\<exists>t. bwrite i s = Ok () t \<and> bio_inv dv t L \<and> bio_frame s t
    \<and> bcache t = (bcache s)[i := clear_flags (B_DIRTY OR B_DONE OR B_ERROR) (bcache s ! i)]
    \<and> (\<forall>m. block_ok m \<longrightarrow> disk_block dv t m = (if m = n then b_data (bcache s ! i) else disk_block dv s m))"
proof -
  note s = bio_inv_simps [OF inv] and h = caches_held [OF inv c]
  obtain t d sec where t: "bwrite i s = Ok () t" "bio_frame s t" "wd_locate (wd_devsw s) dv n = Some (d, sec)"
    "sectors t = sectors (ide_write_multiple d sec (b_data (bcache s ! i)) s)"
    "bfree_next t = bfree_next s" "bfree_prev t = bfree_prev s"
    "bcache t = (bcache s)[i := clear_flags (B_DIRTY OR B_DONE OR B_ERROR) (bcache s ! i)]"
    using bwrite_exec [OF h(1) s(2) h(5)] h(6) by metis
  have conf: "wd_conf (wd_devsw t) = wd_conf (wd_devsw s)" using t(2) by (simp add: bio_frame_def)
  have disk: "disk_block dv t m = (if m = n then b_data (bcache s ! i) else disk_block dv s m)"
    if "block_ok m" for m
    by (rule disk_block_sectors_write [OF inv c that t(3) h(4) t(4) conf])
  have ti: "bcache t ! i = clear_flags (B_DIRTY OR B_DONE OR B_ERROR) (bcache s ! i)" using t(7) h(1) by simp
  have "bio_inv dv t L"
  proof (rule bio_inv_step [OF inv])
    show "caches dv t i n" using c ti by (simp add: caches_def)
    show "length (sectors t d n) = 512" for d n
      unfolding t(4) by (rule length_ide_write) (use s(7) h(4) in auto)
    show "ring t L"
      using s(3) ring_cong [of t "upd_buf i (clear_flags (B_DIRTY OR B_DONE OR B_ERROR)) s" L] t(5-7)
      by (simp add: upd_buf_def [symmetric] ring_upd_buf) (simp add: upd_buf_def)
    show "set L = (if b_ref_count (bcache t ! i) = 0 then insert i (set L) else set L - {i})"
      using ref ti s(5) [of i] by auto
    show "buf_ok dv t (bcache t ! i)" using h ref ti by (simp add: buf_ok_def)
  qed (use s h t(7) conf disk in auto)
  with t disk show ?thesis by blast
qed

lemma brelse_spec:
  assumes inv: "bio_inv dv s L" and c: "caches dv s i n" and ref: "b_ref_count (bcache s ! i) = 1"
    and clean: "b_flags (bcache s ! i) AND B_DIRTY = 0 \<Longrightarrow> b_data (bcache s ! i) = disk_block dv s n"
  shows "\<exists>t. brelse i s = Ok () t \<and> bio_inv dv t (L @ [i]) \<and> bio_frame s t
    \<and> (\<forall>j<NBUF. j \<noteq> i \<longrightarrow> payload (bcache t ! j) = payload (bcache s ! j))
    \<and> (\<forall>m. block_ok m \<longrightarrow> disk_block dv t m = (if m = n then b_data (bcache s ! i) else disk_block dv s m))"
proof -
  note s = bio_inv_simps [OF inv] and h = caches_held [OF inv c]
  define f where "f = b_flags (bcache s ! i)"
  define s1 where "s1 = (if f AND B_WANTED \<noteq> 0 then wakeup_state (WBuf i) s else s)"
  define rel where "rel = (\<lambda>b. (clear_flags (B_WANTED OR B_BUSY) b)\<lparr>b_ref_count := 0\<rparr>)"
  define s3 where "s3 = upd_buf i rel s1"
  have s1: "bcache s1 = bcache s" "bio_frame s s1" "sectors s1 = sectors s" "wd_devsw s1 = wd_devsw s"
    "bfree_next s1 = bfree_next s" "bfree_prev s1 = bfree_prev s"
    by (simp_all add: s1_def) (simp_all add: wakeup_state_def)
  have r3: "ring s3 L"
    using s(3) ring_cong [of s1 s L] s1 by (simp add: s3_def rel_def ring_upd_buf clear_flags_def)
  have b3: "bcache s3 = (bcache s)[i := rel (bcache s ! i)]" using s1 by (simp add: s3_def upd_buf_def)
  have i3: "i < length (bcache s3)" "b_dev (bcache s3 ! i) = dv" "b_block_no (bcache s3 ! i) = n"
    using h b3 by (simp_all add: rel_def)
  have f3: "b_flags (bcache s3 ! i) = f AND NOT (B_WANTED OR B_BUSY)"
    "b_data (bcache s3 ! i) = b_data (bcache s ! i)" "b_ref_count (bcache s3 ! i) = 0"
    using b3 h(1) by (simp_all add: rel_def f_def)
  have dirty3: "(b_flags (bcache s3 ! i) AND B_DIRTY = 0) = (f AND B_DIRTY = 0)"
    unfolding f3 flag_facts by (simp add: bit_simps)
  have dev3: "dev_ok dv s3" by (rule dev_ok_cong [OF s(2)]) (simp add: s3_def s1)
  have run: "brelse i s = thenK (whenK (f AND B_DIRTY \<noteq> 0) (bwrite i))
      (bindK (getK (\<lambda>s. b_flags (bcache s ! i))) (\<lambda>f. whenK (f AND B_DIRTY = 0) (modifyK (free_append i)))) s3"
  proof -
    have "upd_buf i (\<lambda>b. b\<lparr>b_ref_count := 0\<rparr>) (upd_buf i (clear_flags (B_WANTED OR B_BUSY)) s1) = s3"
      using h(1) s1(1) by (simp add: upd_buf_def s3_def rel_def)
    moreover have "b_ref_count (bcache (upd_buf i (clear_flags (B_WANTED OR B_BUSY)) s1) ! i) = 1"
      using h(1) s1(1) ref by simp
    ultimately show ?thesis
      using dirty3 unfolding s1_def
      by (cases "f AND B_WANTED = 0")
        (simp_all add: brelse_def kern_simps wakeup_def f_def [symmetric])
  qed
  have step: "\<exists>u. brelse i s = Ok () (free_append i u) \<and> bio_frame s3 u \<and> ring u L
    \<and> length (bcache u) = NBUF \<and> (\<forall>d k. length (sectors u d k) = 512)
    \<and> (\<forall>j<NBUF. j \<noteq> i \<longrightarrow> bcache u ! j = bcache s ! j)
    \<and> caches dv u i n \<and> b_ref_count (bcache u ! i) = 0 \<and> b_data (bcache u ! i) = b_data (bcache s ! i)
    \<and> b_flags (bcache u ! i) AND B_DIRTY = 0 \<and> b_flags (bcache u ! i) AND B_BUSY = 0
    \<and> (\<forall>m. block_ok m \<longrightarrow> disk_block dv u m = (if m = n then b_data (bcache s ! i) else disk_block dv s m))"
  proof (cases "f AND B_DIRTY = 0")
    case True
    have "disk_block dv s3 = disk_block dv s"
      by (rule disk_block_cong [OF s(2)]) (simp_all add: s3_def s1)
    moreover have "b_flags (bcache s3 ! i) AND B_BUSY = 0"
      unfolding f3 flag_facts by (simp add: bit_simps)
    ultimately show ?thesis
      using True run dirty3 r3 b3 f3 i3 h s clean s1
      by (intro exI [of _ s3]) (auto simp: kern_simps caches_def f_def [symmetric] s3_def)
  next
    case False
    obtain u d sec where u: "bwrite i s3 = Ok () u" "bio_frame s3 u" "wd_locate (wd_devsw s3) dv n = Some (d, sec)"
      "sectors u = sectors (ide_write_multiple d sec (b_data (bcache s3 ! i)) s3)"
      "bfree_next u = bfree_next s3" "bfree_prev u = bfree_prev s3"
      "bcache u = (bcache s3)[i := clear_flags (B_DIRTY OR B_DONE OR B_ERROR) (bcache s3 ! i)]"
      using bwrite_exec [OF i3(1) dev3 i3(2)] i3(3) by metis
    have su: "sectors u = sectors (ide_write_multiple d sec (b_data (bcache s ! i)) s)"
      using u(4) f3 s1 by (simp add: ide_write_multiple_def s3_def)
    have locu: "wd_locate (wd_devsw s) dv n = Some (d, sec)" using u(3) s1 by (simp add: s3_def)
    have confu: "wd_conf (wd_devsw u) = wd_conf (wd_devsw s)"
      using u(2) s1 by (simp add: bio_frame_def s3_def)
    have disk: "disk_block dv u m = (if m = n then b_data (bcache s ! i) else disk_block dv s m)" if "block_ok m" for m
      by (rule disk_block_sectors_write [OF inv c that locu h(4) su confu])
    have fl: "b_flags (bcache u ! i) = (f AND NOT (B_WANTED OR B_BUSY)) AND NOT (B_DIRTY OR B_DONE OR B_ERROR)"
      using u(7) i3(1) f3 by simp
    have flags: "b_flags (bcache u ! i) AND B_DIRTY = 0" "b_flags (bcache u ! i) AND B_BUSY = 0"
      unfolding fl flag_facts by (simp_all add: bit_simps)
    have "ring u L"
      using r3 ring_cong [of u "upd_buf i (clear_flags (B_DIRTY OR B_DONE OR B_ERROR)) s3" L] u(5-7)
      by (simp add: upd_buf_def [symmetric] ring_upd_buf) (simp add: upd_buf_def)
    moreover have "length (sectors u d k) = 512" for d k
      unfolding su by (rule length_ide_write) (use s(7) h(4) in auto)
    moreover have "brelse i s = Ok () (free_append i u)"
      using run False u(1) flags by (simp add: kern_simps thenK_Ok)
    ultimately show ?thesis
      using u(2,7) i3 f3 h(1) s(1) b3 flags disk
      by (intro exI [of _ u]) (auto simp: caches_def)
  qed
  then obtain u where u: "brelse i s = Ok () (free_append i u)" "bio_frame s3 u" "ring u L"
    "length (bcache u) = NBUF" "\<And>d k. length (sectors u d k) = 512"
    "\<And>j. j < NBUF \<Longrightarrow> j \<noteq> i \<Longrightarrow> bcache u ! j = bcache s ! j"
    "caches dv u i n" "b_ref_count (bcache u ! i) = 0" "b_data (bcache u ! i) = b_data (bcache s ! i)"
    "b_flags (bcache u ! i) AND B_DIRTY = 0" "b_flags (bcache u ! i) AND B_BUSY = 0"
    "\<And>m. block_ok m \<Longrightarrow> disk_block dv u m = (if m = n then b_data (bcache s ! i) else disk_block dv s m)"
    by blast
  define t where "t = free_append i u"
  have iN: "i < NBUF" using c by (simp add: caches_def)
  have fr: "bio_frame s t"
    using s1(2) u(2) by (intro bio_frame_trans [of s s3 t]) (simp_all add: s3_def t_def)
  have ct: "wd_conf (wd_devsw t) = wd_conf (wd_devsw s)" using fr by (simp add: bio_frame_def)
  have "dev_ok dv u" by (rule dev_ok_cong [OF s(2)]) (use ct in \<open>simp add: t_def\<close>)
  then have dt: "disk_block dv t = disk_block dv u"
    by (rule disk_block_cong) (simp_all add: t_def)
  have pay: "payload (bcache t ! j) = payload (bcache s ! j)" if "j < NBUF" "j \<noteq> i" for j
    using u(4,6) that by (simp add: t_def payload_eq)
  have "bio_inv dv t (L @ [i])"
  proof (rule bio_inv_step [OF inv])
    show "caches dv t i n" using u(4,7) by (simp add: t_def caches_def)
    show "ring t (L @ [i])"
      unfolding t_def by (rule ring_append) (use u(3,4) s(4,5) ref iN in auto)
    show "buf_ok dv t (bcache t ! i)"
    proof -
      have "b_data (bcache t ! i) = b_data (bcache s ! i)" "b_block_no (bcache t ! i) = n"
        "b_flags (bcache t ! i) = b_flags (bcache u ! i)"
        using u(4,7,9) iN by (simp_all add: t_def caches_def)
      then show ?thesis using u(10,11) u(12) [OF h(2)] h(2,4) by (simp add: buf_ok_def dt)
    qed
    show "set (L @ [i]) = (if b_ref_count (bcache t ! i) = 0 then insert i (set L) else set L - {i})"
      using u(4,8) iN by (simp add: t_def)
    show "distinct (L @ [i])" using s(4) s(5) [of i] ref by simp
  qed (use h ct pay dt u(4,5,12) in \<open>auto simp: t_def\<close>)
  with u(1,12) fr pay dt show ?thesis unfolding t_def by auto
qed

end
