(* ===== verification/Blockio.thy ===== *)
theory Blockio
  imports Bio
begin

text \<open>
  What the buffer cache promises its clients.  The locale \<open>block_store\<close> states the contract of
  a store of numbered blocks; the ways in which the kernel uses the cache (read and release;
  change, write and release; change, mark dirty and release) satisfy it, so that a program of such
  accesses cannot tell the cache from the bare disk.
\<close>

section \<open>A store of blocks\<close>

datatype block_op = Fetch u32 | Store u32 bytes

fun op_block :: "block_op \<Rightarrow> u32" where
  "op_block (Fetch n) = n"
| "op_block (Store n data) = n"

definition op_ok :: "block_op \<Rightarrow> bool" where
  "op_ok p \<longleftrightarrow> block_ok (op_block p) \<and> (case p of Fetch _ \<Rightarrow> True | Store _ data \<Rightarrow> length data = BLOCK_SIZE)"

text \<open>The same operations on an array of blocks.\<close>

fun disk_ops :: "block_op list \<Rightarrow> (u32 \<Rightarrow> bytes) \<Rightarrow> bytes list \<times> (u32 \<Rightarrow> bytes)" where
  "disk_ops [] m = ([], m)"
| "disk_ops (Fetch n # ps) m = (let (rs, m') = disk_ops ps m in (m n # rs, m'))"
| "disk_ops (Store n data # ps) m = disk_ops ps (m(n := data))"

locale block_store =
  fixes inv :: "'s \<Rightarrow> bool"
    and view :: "'s \<Rightarrow> u32 \<Rightarrow> bytes"
    and fetch :: "u32 \<Rightarrow> ('s, bytes) kern"
    and store :: "u32 \<Rightarrow> bytes \<Rightarrow> ('s, unit) kern"
  assumes fetch_law: "inv s \<Longrightarrow> block_ok n \<Longrightarrow>
      \<exists>t. fetch n s = Ok (view s n) t \<and> inv t \<and> (\<forall>m. block_ok m \<longrightarrow> view t m = view s m)"
    and store_law: "inv s \<Longrightarrow> block_ok n \<Longrightarrow> length data = BLOCK_SIZE \<Longrightarrow>
      \<exists>t. store n data s = Ok () t \<and> inv t
        \<and> (\<forall>m. block_ok m \<longrightarrow> view t m = (if m = n then data else view s m))"
begin

fun run_ops :: "block_op list \<Rightarrow> ('s, bytes list) kern" where
  "run_ops [] = returnK []"
| "run_ops (Fetch n # ps) = bindK (fetch n) (\<lambda>d. bindK (run_ops ps) (\<lambda>ds. returnK (d # ds)))"
| "run_ops (Store n data # ps) = thenK (store n data) (run_ops ps)"

lemma run_ops_disk:
  assumes "inv s" and "\<forall>p\<in>set ps. op_ok p" and "\<And>m. block_ok m \<Longrightarrow> view s m = mem m"
  shows "\<exists>t. run_ops ps s = Ok (fst (disk_ops ps mem)) t \<and> inv t
    \<and> (\<forall>m. block_ok m \<longrightarrow> view t m = snd (disk_ops ps mem) m)"
  using assms
proof (induction ps arbitrary: s mem)
  case Nil
  then show ?case by (auto simp: kern_simps)
next
  case (Cons p ps)
  show ?case
  proof (cases p)
    case (Fetch n)
    then have n: "block_ok n" using Cons.prems(2) by (simp add: op_ok_def)
    from fetch_law [OF Cons.prems(1) n] obtain t where t: "fetch n s = Ok (view s n) t" "inv t"
      "\<And>m. block_ok m \<Longrightarrow> view t m = view s m" by blast
    then obtain u where "run_ops ps t = Ok (fst (disk_ops ps mem)) u" "inv u"
      "\<forall>m. block_ok m \<longrightarrow> view u m = snd (disk_ops ps mem) m"
      using Cons.IH [OF t(2), of mem] Cons.prems by auto
    then show ?thesis
      using Fetch t Cons.prems(3) [OF n]
      by (intro exI [of _ u]) (simp add: bindK_Ok kern_simps split: prod.split)
  next
    case (Store n data)
    then have n: "block_ok n" "length data = BLOCK_SIZE" using Cons.prems(2) by (simp_all add: op_ok_def)
    from store_law [OF Cons.prems(1) n] obtain t where t: "store n data s = Ok () t" "inv t"
      "\<And>m. block_ok m \<Longrightarrow> view t m = (if m = n then data else view s m)" by blast
    have ops: "\<forall>p\<in>set ps. op_ok p" using Cons.prems(2) by simp
    have "view t m = (mem(n := data)) m" if "block_ok m" for m
      using t(3) Cons.prems(3) that by simp
    from Cons.IH [OF t(2) ops this] obtain u where "run_ops ps t = Ok (fst (disk_ops ps (mem(n := data)))) u" "inv u"
      "\<forall>m. block_ok m \<longrightarrow> view u m = snd (disk_ops ps (mem(n := data))) m"
      by blast
    then show ?thesis using Store t by (intro exI [of _ u]) (simp add: thenK_Ok)
  qed
qed

end

section \<open>The cache is such a store\<close>

text \<open>Between operations nobody holds a buffer.\<close>

definition bio_idle :: "u16 \<Rightarrow> kstate \<Rightarrow> bool" where
  "bio_idle dv s \<longleftrightarrow> (\<exists>L. bio_inv dv s L \<and> set L = {..<NBUF})"

definition block_fetch :: "u16 \<Rightarrow> u32 \<Rightarrow> bytes kernel" where
  "block_fetch dv n =
     bindK (bread dv n) (\<lambda>i.
     bindK (getK (\<lambda>s. b_data (bcache s ! i))) (\<lambda>data.
     thenK (brelse i) (returnK data)))"

definition block_store_now :: "u16 \<Rightarrow> u32 \<Rightarrow> bytes \<Rightarrow> unit kernel" where
  "block_store_now dv n data =
     bindK (bread dv n) (\<lambda>i.
     thenK (modifyK (upd_buf i (\<lambda>b. b\<lparr>b_data := data\<rparr>)))
     (thenK (bwrite i) (brelse i)))"

definition block_store_dirty :: "u16 \<Rightarrow> u32 \<Rightarrow> bytes \<Rightarrow> unit kernel" where
  "block_store_dirty dv n data =
     bindK (bread dv n) (\<lambda>i.
     thenK (modifyK (upd_buf i (\<lambda>b. or_flags B_DIRTY (b\<lparr>b_data := data\<rparr>))))
     (brelse i))"

lemma bio_idle_bread:
  assumes "bio_idle dv s" and "block_ok n"
  obtains i t L where "bread dv n s = Ok i t" "bio_inv dv t L" "insert i (set L) = {..<NBUF}"
    "fresh_hold dv t i n (disk_block dv s n)" "bio_frame s t" "disk_block dv t = disk_block dv s"
proof -
  obtain L where L: "bio_inv dv s L" "set L = {..<NBUF}" using assms(1) by (auto simp: bio_idle_def)
  have "0 \<in> set L" using L(2) by simp
  then have ne: "L \<noteq> []" by auto
  have free: "b_ref_count (bcache s ! j) = 0" if "caches dv s j n" for j
    using that bio_inv_simps(5) [OF L(1), of j] L(2) by (simp add: caches_def)
  obtain i t where t: "bread dv n s = Ok i t" "i \<in> set L" "bio_inv dv t (remove1 i L)"
    "fresh_hold dv t i n (disk_block dv s n)" "bio_frame s t" "sectors t = sectors s"
    using bread_spec [OF L(1) assms(2) ne free] by blast
  have "insert i (set (remove1 i L)) = {..<NBUF}"
    using t(2) L bio_inv_simps(4) [OF L(1)] by (simp add: set_remove1_eq insert_absorb)
  moreover have "disk_block dv t = disk_block dv s"
    by (rule disk_block_cong [OF bio_inv_simps(2) [OF L(1)]]) (use t(5,6) in \<open>simp_all add: bio_frame_def\<close>)
  ultimately show thesis using that t by blast
qed

lemma bio_idle_brelse:
  assumes "bio_inv dv s L" and "insert i (set L) = {..<NBUF}" and "caches dv s i n"
    and "b_ref_count (bcache s ! i) = 1"
    and "b_flags (bcache s ! i) AND B_DIRTY = 0 \<Longrightarrow> b_data (bcache s ! i) = disk_block dv s n"
  obtains t where "brelse i s = Ok () t" "bio_idle dv t" "bio_frame s t"
    "\<And>m. block_ok m \<Longrightarrow> disk_block dv t m = (if m = n then b_data (bcache s ! i) else disk_block dv s m)"
proof -
  obtain t where t: "brelse i s = Ok () t" "bio_inv dv t (L @ [i])" "bio_frame s t"
    "\<And>m. block_ok m \<Longrightarrow> disk_block dv t m = (if m = n then b_data (bcache s ! i) else disk_block dv s m)"
    using brelse_spec [OF assms(1,3,4,5)] by blast
  have "set (L @ [i]) = {..<NBUF}" using assms(2) by simp
  with t(2) have "bio_idle dv t" unfolding bio_idle_def by blast
  then show thesis using that t by blast
qed

lemma block_fetch_spec:
  assumes "bio_idle dv s" and "block_ok n"
  shows "\<exists>t. block_fetch dv n s = Ok (disk_block dv s n) t \<and> bio_idle dv t \<and> bio_frame s t
    \<and> (\<forall>m. block_ok m \<longrightarrow> disk_block dv t m = disk_block dv s m)"
proof -
  obtain i t L where t: "bread dv n s = Ok i t" "bio_inv dv t L" "insert i (set L) = {..<NBUF}"
    "fresh_hold dv t i n (disk_block dv s n)" "bio_frame s t" "disk_block dv t = disk_block dv s"
    using bio_idle_bread [OF assms] by metis
  obtain u where u: "brelse i t = Ok () u" "bio_idle dv u" "bio_frame t u"
    "\<And>m. block_ok m \<Longrightarrow> disk_block dv u m = (if m = n then b_data (bcache t ! i) else disk_block dv t m)"
    using bio_idle_brelse [OF t(2,3), of n] t(4,6) by (auto simp: fresh_hold_def)
  have "block_fetch dv n s = Ok (disk_block dv s n) u"
    using t u by (simp add: block_fetch_def bindK_Ok thenK_Ok kern_simps fresh_hold_def)
  then show ?thesis
    using u t bio_frame_trans [OF t(5) u(3)] by (auto simp: fresh_hold_def)
qed

text \<open>Replacing the data of a buffer just read.\<close>

lemma fresh_hold_upd:
  assumes "bio_inv dv t L" and "fresh_hold dv t i n d" and "length data = BLOCK_SIZE"
  shows "bio_inv dv (upd_buf i (\<lambda>b. b\<lparr>b_data := data\<rparr>) t) L"
    and "bio_inv dv (upd_buf i (\<lambda>b. or_flags B_DIRTY (b\<lparr>b_data := data\<rparr>)) t) L"
  using assms by (auto simp: fresh_hold_def intro!: bio_inv_held_upd)

lemma hold_store:
  assumes inv: "bio_inv dv t L" and L: "insert i (set L) = {..<NBUF}"
    and hold: "fresh_hold dv t i n d" and len: "length data = BLOCK_SIZE"
  obtains w where
    "\<And>k. thenK (modifyK (upd_buf i (\<lambda>b. b\<lparr>b_data := data\<rparr>))) (thenK (bwrite i) (thenK (brelse i) k)) t = k w"
    "thenK (modifyK (upd_buf i (\<lambda>b. b\<lparr>b_data := data\<rparr>))) (thenK (bwrite i) (brelse i)) t = Ok () w"
    "bio_idle dv w" "bio_frame t w"
    "\<And>m. block_ok m \<Longrightarrow> disk_block dv w m = (if m = n then data else disk_block dv t m)"
proof -
  define u where "u = upd_buf i (\<lambda>b. b\<lparr>b_data := data\<rparr>) t"
  have iu: "bio_inv dv u L" unfolding u_def using fresh_hold_upd [OF inv hold len] by simp
  have il: "i < length (bcache t)" using inv hold bio_inv_simps(1) by (auto simp: fresh_hold_def caches_def)
  have cu: "caches dv u i n" "b_ref_count (bcache u ! i) = 1" "b_data (bcache u ! i) = data"
    using hold il by (simp_all add: u_def fresh_hold_def caches_def)
  have n: "block_ok n" using caches_held(2) [OF iu cu(1)] .
  have du: "disk_block dv u = disk_block dv t"
    by (rule disk_block_cong [OF bio_inv_simps(2) [OF inv]]) (simp_all add: u_def)
  obtain v where v: "bwrite i u = Ok () v" "bio_inv dv v L" "bio_frame u v"
    "bcache v = (bcache u)[i := clear_flags (B_DIRTY OR B_DONE OR B_ERROR) (bcache u ! i)]"
    "\<And>m. block_ok m \<Longrightarrow> disk_block dv v m = (if m = n then data else disk_block dv t m)"
    using bwrite_spec [OF iu cu(1)] cu du by auto
  have cv: "caches dv v i n" "b_ref_count (bcache v ! i) = 1" "b_data (bcache v ! i) = data"
    using cu v(4) il by (simp_all add: caches_def u_def)
  obtain w where w: "brelse i v = Ok () w" "bio_idle dv w" "bio_frame v w"
    "\<And>m. block_ok m \<Longrightarrow> disk_block dv w m = (if m = n then data else disk_block dv v m)"
    using bio_idle_brelse [OF v(2) L cv(1,2)] cv(3) v(5) [OF n] by auto
  show thesis
  proof (rule that [of w])
    show "bio_frame t w" using v(3) w(3) by (metis bio_frame_trans bio_frame_refl bio_frame_upd(1) u_def)
  qed (use v w in \<open>auto simp: kern_simps thenK_Ok u_def [symmetric]\<close>)
qed

lemma block_store_now_spec:
  assumes "bio_idle dv s" and "block_ok n" and "length data = BLOCK_SIZE"
  shows "\<exists>t. block_store_now dv n data s = Ok () t \<and> bio_idle dv t \<and> bio_frame s t
    \<and> (\<forall>m. block_ok m \<longrightarrow> disk_block dv t m = (if m = n then data else disk_block dv s m))"
proof -
  obtain i t L where t: "bread dv n s = Ok i t" "bio_inv dv t L" "insert i (set L) = {..<NBUF}"
    "fresh_hold dv t i n (disk_block dv s n)" "bio_frame s t" "disk_block dv t = disk_block dv s"
    using bio_idle_bread [OF assms(1,2)] by metis
  obtain w where w: "thenK (modifyK (upd_buf i (\<lambda>b. b\<lparr>b_data := data\<rparr>))) (thenK (bwrite i) (brelse i)) t = Ok () w"
    "bio_idle dv w" "bio_frame t w"
    "\<And>m. block_ok m \<Longrightarrow> disk_block dv w m = (if m = n then data else disk_block dv t m)"
    using hold_store [OF t(2,3,4) assms(3)] by metis
  have "block_store_now dv n data s = Ok () w"
    using t(1) w(1) by (simp add: block_store_now_def bindK_Ok)
  then show ?thesis using w(2,4) t(6) bio_frame_trans [OF t(5) w(3)] by auto
qed

lemma block_store_dirty_spec:
  assumes "bio_idle dv s" and "block_ok n" and "length data = BLOCK_SIZE"
  shows "\<exists>t. block_store_dirty dv n data s = Ok () t \<and> bio_idle dv t \<and> bio_frame s t
    \<and> (\<forall>m. block_ok m \<longrightarrow> disk_block dv t m = (if m = n then data else disk_block dv s m))"
proof -
  obtain i t L where t: "bread dv n s = Ok i t" "bio_inv dv t L" "insert i (set L) = {..<NBUF}"
    "fresh_hold dv t i n (disk_block dv s n)" "bio_frame s t" "disk_block dv t = disk_block dv s"
    using bio_idle_bread [OF assms(1,2)] by metis
  define u where "u = upd_buf i (\<lambda>b. or_flags B_DIRTY (b\<lparr>b_data := data\<rparr>)) t"
  have iu: "bio_inv dv u L" unfolding u_def using fresh_hold_upd [OF t(2,4) assms(3)] by simp
  have il: "i < length (bcache t)" using t(2,4) bio_inv_simps(1) by (auto simp: fresh_hold_def caches_def)
  have cu: "caches dv u i n" "b_ref_count (bcache u ! i) = 1" "b_data (bcache u ! i) = data"
    "b_flags (bcache u ! i) = b_flags (bcache t ! i) OR B_DIRTY"
    using t(4) il by (simp_all add: u_def fresh_hold_def caches_def)
  have du: "disk_block dv u = disk_block dv s"
    using disk_block_cong [OF bio_inv_simps(2) [OF t(2)], of u] t(6) by (simp add: u_def)
  have "b_flags (bcache u ! i) AND B_DIRTY \<noteq> 0"
    unfolding cu(4) flag_facts by (simp add: bit_simps)
  then obtain w where w: "brelse i u = Ok () w" "bio_idle dv w" "bio_frame u w"
    "\<And>m. block_ok m \<Longrightarrow> disk_block dv w m = (if m = n then data else disk_block dv u m)"
    using bio_idle_brelse [OF iu t(3) cu(1,2)] cu(3) by auto
  have "block_store_dirty dv n data s = Ok () w"
    using t(1) w(1) by (simp add: block_store_dirty_def bindK_Ok thenK_Ok kern_simps u_def [symmetric])
  moreover have "bio_frame s w"
    using t(5) w(3) by (metis bio_frame_trans bio_frame_upd(1) u_def)
  ultimately show ?thesis using w du by auto
qed

interpretation cache: block_store "bio_idle dv" "disk_block dv" "block_fetch dv" "block_store_now dv" for dv
  by unfold_locales (use block_fetch_spec block_store_now_spec in blast)+

interpretation cache_delayed: block_store "bio_idle dv" "disk_block dv" "block_fetch dv" "block_store_dirty dv" for dv
  by unfold_locales (use block_fetch_spec block_store_dirty_spec in blast)+

section \<open>The cache after boot\<close>

text \<open>The state of the cache's memory before \<open>buf_init\<close>, with a disk that answers.\<close>

definition bio_boot :: "u16 \<Rightarrow> kstate \<Rightarrow> bool" where
  "bio_boot dv s \<longleftrightarrow> length (bcache s) = NBUF \<and> dev_ok dv s \<and> (\<forall>d n. length (sectors s d n) = 512)
     \<and> (\<forall>b\<in>set (bcache s). b_ref_count b = 0 \<and> length (b_data b) = BLOCK_SIZE)"

lemma buf_init_one_frame:
  "length (bcache (buf_init_one i s)) = length (bcache s)" "sectors (buf_init_one i s) = sectors s"
  "wd_devsw (buf_init_one i s) = wd_devsw s" "bio_frame r (buf_init_one i s) = bio_frame r s"
  by (simp_all add: buf_init_one_def)

lemma buf_init_one_nth:
  assumes "j < length (bcache s)" "i < length (bcache s)"
  shows "b_ref_count (bcache (buf_init_one i s) ! j) = b_ref_count (bcache s ! j)"
    "b_data (bcache (buf_init_one i s) ! j) = b_data (bcache s ! j)"
    "b_flags (bcache (buf_init_one i s) ! j) = (if j = i then 0 else b_flags (bcache s ! j))"
    "b_dev (bcache (buf_init_one i s) ! j) = (if j = i then 0xFFFF else b_dev (bcache s ! j))"
  using assms by (simp_all add: buf_init_one_def nth_upd_buf)

lemma buf_init_fold:
  assumes "k \<le> length (bcache s)"
  defines "t \<equiv> fold buf_init_one [0..<k] (s\<lparr>bfree_next := BHead, bfree_prev := BHead\<rparr>)"
  shows "ring t [0..<k] \<and> length (bcache t) = length (bcache s) \<and> sectors t = sectors s
    \<and> wd_devsw t = wd_devsw s \<and> bio_frame s t
    \<and> (\<forall>j<length (bcache s). b_ref_count (bcache t ! j) = b_ref_count (bcache s ! j)
         \<and> b_data (bcache t ! j) = b_data (bcache s ! j)
         \<and> (j < k \<longrightarrow> b_flags (bcache t ! j) = 0 \<and> b_dev (bcache t ! j) = 0xFFFF))"
  using assms(1) unfolding t_def
proof (induction k)
  case 0
  then show ?case by (simp add: ring_def bnext_def bprev_def bio_frame_def)
next
  case (Suc k)
  define u where "u = fold buf_init_one [0..<k] (s\<lparr>bfree_next := BHead, bfree_prev := BHead\<rparr>)"
  have u: "ring u [0..<k]" "length (bcache u) = length (bcache s)" "sectors u = sectors s"
    "wd_devsw u = wd_devsw s" "bio_frame s u"
    "\<And>j. j < length (bcache s) \<Longrightarrow> b_ref_count (bcache u ! j) = b_ref_count (bcache s ! j)
         \<and> b_data (bcache u ! j) = b_data (bcache s ! j)
         \<and> (j < k \<longrightarrow> b_flags (bcache u ! j) = 0 \<and> b_dev (bcache u ! j) = 0xFFFF)"
    using Suc.IH Suc.prems unfolding u_def by auto
  have "ring (free_append k u) ([0..<k] @ [k])"
    by (rule ring_append) (use u(1,2) Suc.prems in auto)
  then have r: "ring (buf_init_one k u) [0..<Suc k]"
    by (simp add: buf_init_one_def ring_upd_buf)
  show ?case
    using u Suc.prems r
    by (simp add: u_def [symmetric] buf_init_one_frame buf_init_one_nth)
qed

lemma buf_init_inv:
  assumes "bio_boot dv s" and "dv \<noteq> 0xFFFF"
  shows "\<exists>t. buf_init s = Ok () t \<and> bio_inv dv t [0..<NBUF] \<and> bio_frame s t
    \<and> disk_block dv t = disk_block dv s"
proof -
  define t where "t = fold buf_init_one [0..<NBUF] (s\<lparr>bfree_next := BHead, bfree_prev := BHead\<rparr>)"
  have s: "length (bcache s) = NBUF" "dev_ok dv s" "\<And>d n. length (sectors s d n) = 512"
    "\<And>i. i < NBUF \<Longrightarrow> b_ref_count (bcache s ! i) = 0 \<and> length (b_data (bcache s ! i)) = BLOCK_SIZE"
    using assms(1) by (auto simp: bio_boot_def)
  have "NBUF \<le> length (bcache s)" using s(1) by simp
  note f = buf_init_fold [OF this, folded t_def]
  have t: "ring t [0..<NBUF]" "length (bcache t) = NBUF" "sectors t = sectors s" "wd_devsw t = wd_devsw s"
    "bio_frame s t" "\<And>j. j < NBUF \<Longrightarrow> b_ref_count (bcache t ! j) = 0 \<and> length (b_data (bcache t ! j)) = BLOCK_SIZE
        \<and> b_flags (bcache t ! j) = 0 \<and> b_dev (bcache t ! j) = 0xFFFF"
    using f s by simp_all
  have dt: "disk_block dv t = disk_block dv s"
    by (rule disk_block_cong [OF s(2)]) (simp_all add: t(3,4))
  have "bio_inv dv t [0..<NBUF]"
    unfolding bio_inv_def
  proof (intro conjI allI impI)
    show "set [0..<NBUF] = {i. i < NBUF \<and> b_ref_count (bcache t ! i) = 0}" using t(6) by auto
    show "dev_ok dv t" by (rule dev_ok_cong [OF s(2)]) (simp add: t(4))
    show "length (sectors t d n) = 512" for d n using s(3) t(3) by simp
    show "buf_ok dv t (bcache t ! i)" if "i < NBUF" for i
      using t(6) [OF that] assms(2) by (auto simp: buf_ok_def)
  qed (use t assms(2) in auto)
  moreover have "buf_init s = Ok () t" by (simp add: buf_init_def kern_simps t_def)
  ultimately show ?thesis using t(5) dt by blast
qed

text \<open>A machine with one drive whose first partition starts at sector 2048.\<close>

definition one_disk :: kstate where
  "one_disk = bss_state\<lparr>wd_devsw := (replicate 4 zero_wd)
     [0 := zero_wd\<lparr>wd_blocks := 100000,
        wd_part := [\<lparr>part_type = 0x81, part_offset = 2048, part_size = 90000\<rparr>,
          \<lparr>part_type = 0, part_offset = 0, part_size = 0\<rparr>, \<lparr>part_type = 0, part_offset = 0, part_size = 0\<rparr>,
          \<lparr>part_type = 0, part_offset = 0, part_size = 0\<rparr>]\<rparr>]\<rparr>"

abbreviation (input) ROOT_DEV :: u16 where "ROOT_DEV \<equiv> 1"

lemma bio_boot_one_disk: "bio_boot ROOT_DEV one_disk"
  by (simp add: bio_boot_def one_disk_def bss_state_def dev_ok_def wd_locate_def wd_drive_def
      wd_part_no_def minor_def major_def num_bdev_def bdevsw_def zero_wd_def zero_buf_def)

text \<open>
  \<open>buf_init\<close> establishes the invariant of the buffer cache.  From cleared buffers and a disk
  that answers, it builds a ring through all 64 buffers in which nothing is cached yet, and
  leaves the disk and the rest of the kernel alone.
\<close>

theorem buf_init_establishes:
  assumes "bio_boot dv s" and "dv \<noteq> 0xFFFF"
  shows "\<exists>t. buf_init s = Ok () t \<and> bio_inv dv t [0..<NBUF] \<and> bio_frame s t
    \<and> disk_block dv t = disk_block dv s"
  using buf_init_inv [OF assms] .

theorem buf_init_witness:
  "\<exists>t. buf_init one_disk = Ok () t \<and> bio_inv ROOT_DEV t [0..<NBUF]"
  using buf_init_establishes [OF bio_boot_one_disk] by auto

text \<open>
  C1: the buffer cache is transparent.  Whatever sequence of block reads and writes goes
  through \<open>bread\<close>, \<open>bwrite\<close> and \<open>brelse\<close>, with buffers being recycled in between, every read
  returns what the bare disk would have returned, and afterwards the disk holds exactly the
  blocks that were written.
\<close>

theorem cache_transparent:
  assumes "bio_idle dv s" and "\<forall>p\<in>set ps. op_ok p"
  shows "\<exists>t. cache.run_ops dv ps s = Ok (fst (disk_ops ps (disk_block dv s))) t \<and> bio_idle dv t
    \<and> (\<forall>m. block_ok m \<longrightarrow> disk_block dv t m = snd (disk_ops ps (disk_block dv s)) m)"
  using cache.run_ops_disk [OF assms, of "disk_block dv s"] by blast

lemma bio_inv_idle: "bio_inv dv t [0..<NBUF] \<Longrightarrow> bio_idle dv t"
  unfolding bio_idle_def using atLeast_upt [of NBUF] by metis

theorem cache_transparent_witness:
  "\<exists>s t. buf_init one_disk = Ok () s
     \<and> cache.run_ops ROOT_DEV [Store 7 (replicate 1024 1), Store 8 (replicate 1024 2), Fetch 7] s
       = Ok [replicate 1024 1] t \<and> disk_block ROOT_DEV t 8 = replicate 1024 2"
proof -
  obtain s where s: "buf_init one_disk = Ok () s" "bio_inv ROOT_DEV s [0..<NBUF]"
    using buf_init_inv [OF bio_boot_one_disk] by auto
  let ?ps = "[Store 7 (replicate 1024 1), Store 8 (replicate 1024 2), Fetch 7]"
  have ok: "\<forall>p\<in>set ?ps. op_ok p" "block_ok 8" by (simp_all add: op_ok_def block_ok_def)
  obtain t where t: "cache.run_ops ROOT_DEV ?ps s = Ok (fst (disk_ops ?ps (disk_block ROOT_DEV s))) t"
    "\<forall>m. block_ok m \<longrightarrow> disk_block ROOT_DEV t m = snd (disk_ops ?ps (disk_block ROOT_DEV s)) m"
    using cache_transparent [OF bio_inv_idle [OF s(2)] ok(1)] by blast
  have "fst (disk_ops ?ps (disk_block ROOT_DEV s)) = [replicate 1024 1]"
    "snd (disk_ops ?ps (disk_block ROOT_DEV s)) 8 = replicate 1024 2" by simp_all
  with t ok(2) s(1) show ?thesis by metis
qed

text \<open>
  The same holds for delayed writes: data that was only marked dirty is on the disk by the
  time its buffer is released, so that no change is lost when the buffer is recycled.
\<close>

theorem cache_delayed_transparent:
  assumes "bio_idle dv s" and "\<forall>p\<in>set ps. op_ok p"
  shows "\<exists>t. cache_delayed.run_ops dv ps s = Ok (fst (disk_ops ps (disk_block dv s))) t \<and> bio_idle dv t
    \<and> (\<forall>m. block_ok m \<longrightarrow> disk_block dv t m = snd (disk_ops ps (disk_block dv s)) m)"
  using cache_delayed.run_ops_disk [OF assms, of "disk_block dv s"] by blast

theorem cache_delayed_witness:
  "\<exists>s t. buf_init one_disk = Ok () s
     \<and> cache_delayed.run_ops ROOT_DEV [Store 7 (replicate 1024 1), Fetch 7] s = Ok [replicate 1024 1] t"
proof -
  obtain s where s: "buf_init one_disk = Ok () s" "bio_inv ROOT_DEV s [0..<NBUF]"
    using buf_init_inv [OF bio_boot_one_disk] by auto
  let ?ps = "[Store 7 (replicate 1024 1), Fetch 7]"
  have "\<forall>p\<in>set ?ps. op_ok p" by (simp add: op_ok_def block_ok_def)
  then obtain t where t: "cache_delayed.run_ops ROOT_DEV ?ps s = Ok (fst (disk_ops ?ps (disk_block ROOT_DEV s))) t"
    using cache_delayed_transparent [OF bio_inv_idle [OF s(2)]] by blast
  have "fst (disk_ops ?ps (disk_block ROOT_DEV s)) = [replicate 1024 1]" by simp
  with t s(1) show ?thesis by metis
qed

end
