(* ===== verification/Zones.thy ===== *)
theory Zones
  imports Blockio
begin

text \<open>
  Allocation of disk blocks, \<open>balloc\<close> and \<open>bfree\<close> of \<open>sys/kern/bio.c\<close>, and the super block,
  \<open>sys/kern/fs.c\<close>.  The zone map is a bitmap over the zone map blocks of the disk; both operations
  go through the buffer cache.
\<close>

section \<open>Operations\<close>

text \<open>The loop over the bits of a byte of the map, and over the bytes of a block of it.  \<open>Inl\<close> is
  the position and number of the first free block, \<open>Inr\<close> the running block number at the end.\<close>

fun zone_bits :: "u8 \<Rightarrow> nat list \<Rightarrow> u32 \<Rightarrow> (nat \<times> u32) + u32" where
  "zone_bits byte [] block_no = Inr block_no"
| "zone_bits byte (b # bs) block_no =
     (if byte AND mask1 b = 0 then Inl (b, block_no) else zone_bits byte bs (block_no + 1))"

fun zone_scan :: "bytes \<Rightarrow> nat \<Rightarrow> u32 \<Rightarrow> (nat \<times> nat \<times> u32) + u32" where
  "zone_scan [] z block_no = Inr block_no"
| "zone_scan (byte # rest) z block_no =
     (if byte \<noteq> 0xFF then
        (case zone_bits byte [0..<8] block_no of
           Inl (b, no) \<Rightarrow> Inl (z, b, no)
         | Inr no \<Rightarrow> zone_scan rest (Suc z) no)
      else zone_scan rest (Suc z) (block_no + 8))"

fun balloc_loop :: "u16 \<Rightarrow> u32 list \<Rightarrow> u32 \<Rightarrow> u32 kernel" where
  "balloc_loop dev [] block_no = returnK 0"
| "balloc_loop dev (zb # zbs) block_no =
     bindK (bread dev zb) (\<lambda>i.
     bindK (getK (\<lambda>s. b_data (bcache s ! i))) (\<lambda>zmap.
     case zone_scan zmap 0 block_no of
       Inl (z, b, no) \<Rightarrow>
         thenK (modifyK (upd_buf i (\<lambda>x. x\<lparr>b_data := zmap[z := zmap ! z OR mask1 b]\<rparr>)))
         (thenK (bwrite i)
         (thenK (brelse i)
         (returnK no)))
     | Inr no \<Rightarrow> thenK (brelse i) (balloc_loop dev zbs no)))"

definition zmap_begin :: "fs \<Rightarrow> nat" where
  "zmap_begin sb = 2 + unat (s_imap_blocks sb)"

definition zmap_list :: "fs \<Rightarrow> u32 list" where
  "zmap_list sb = map of_nat [zmap_begin sb..<zmap_begin sb + unat (s_zmap_blocks sb)]"

definition balloc :: "u16 \<Rightarrow> u32 kernel" where
  "balloc dev =
     bindK (getK super) (\<lambda>sb. balloc_loop dev (zmap_list sb) (ucast (s_firstdatazone sb) - 1))"

definition bfree :: "u16 \<Rightarrow> u32 \<Rightarrow> unit kernel" where
  "bfree dev block_no =
     bindK (getK super) (\<lambda>sb.
     if block_no < 1 \<or> block_no > ucast (s_nzones sb) then panic ''bfree: bad block_no''
     else
       (let zone_index = block_no - ucast (s_firstdatazone sb) + 1;
            zmap_block = unat zone_index div (BLOCK_SIZE * 8) + zmap_begin sb;
            index = (unat zone_index mod (BLOCK_SIZE * 8)) div 8;
            bit = unat zone_index mod 8
        in bindK (bread dev (of_nat zmap_block)) (\<lambda>i.
           bindK (getK (\<lambda>s. b_data (bcache s ! i))) (\<lambda>zmap.
           if zmap ! index AND mask1 bit = 0 then panic ''bfree: block not allocated''
           else
             thenK (modifyK (upd_buf i (\<lambda>x. x\<lparr>b_data := zmap[index := zmap ! index AND NOT (mask1 bit)]\<rparr>)))
             (thenK (bwrite i)
             (brelse i))))))"

section \<open>The scans\<close>

lemma zone_bits_spec:
  "\<not> (\<forall>b\<in>set bs. bit byte b) \<Longrightarrow>
   \<exists>k<length bs. \<not> bit byte (bs ! k) \<and> zone_bits byte bs no = Inl (bs ! k, no + of_nat k)"
proof (induction bs arbitrary: no)
  case Nil
  then show ?case by simp
next
  case (Cons b bs)
  show ?case
  proof (cases "bit byte b")
    case True
    then obtain k where "k < length bs" "\<not> bit byte (bs ! k)"
      "zone_bits byte bs (no + 1) = Inl (bs ! k, no + 1 + of_nat k)"
      using Cons.IH [of "no + 1"] Cons.prems by auto
    then show ?thesis
      using True by (intro exI [of _ "Suc k"]) (simp add: and_mask1_eq_0 add.assoc)
  next
    case False
    then show ?thesis by (intro exI [of _ 0]) (simp add: and_mask1_eq_0)
  qed
qed

lemma zone_scan_spec:
  "if \<forall>x\<in>set zmap. x = 0xFF then zone_scan zmap z no = Inr (no + of_nat (8 * length zmap))
   else \<exists>k b. k < length zmap \<and> b < 8 \<and> \<not> bit (zmap ! k) b
     \<and> zone_scan zmap z no = Inl (z + k, b, no + of_nat (8 * k + b))"
proof (induction zmap arbitrary: z no)
  case Nil
  then show ?case by simp
next
  case (Cons x xs)
  show ?case
  proof (cases "x = 0xFF")
    case False
    then have "\<not> (\<forall>b\<in>set [0..<8]. bit x b)" using byte_not_full by auto
    from zone_bits_spec [OF this, of no] obtain b where
      "b < 8" "\<not> bit x b" "zone_bits x [0..<8] no = Inl (b, no + of_nat b)" by auto
    then show ?thesis using False by (auto intro!: exI [of _ 0] exI [of _ b])
  next
    case True
    show ?thesis
    proof (cases "\<forall>x\<in>set xs. x = 0xFF")
      case all: True
      then show ?thesis using True Cons.IH [of "Suc z" "no + 8"] by (simp add: algebra_simps)
    next
      case False
      then obtain k b where kb: "k < length xs" "b < 8" "\<not> bit (xs ! k) b"
        "zone_scan xs (Suc z) (no + 8) = Inl (Suc z + k, b, no + 8 + of_nat (8 * k + b))"
        using Cons.IH [of "Suc z" "no + 8"] unfolding if_not_P [OF False] by blast
      then show ?thesis
        using True False by (auto intro!: exI [of _ "Suc k"] exI [of _ b] simp: algebra_simps)
    qed
  qed
qed

section \<open>The zone map as one bitmap\<close>

definition zmap_bytes :: "u16 \<Rightarrow> fs \<Rightarrow> kstate \<Rightarrow> bytes" where
  "zmap_bytes dv sb s = concat (map (disk_block dv s) (zmap_list sb))"

lemma concat_nth_blocks:
  assumes "\<And>x. x \<in> set xs \<Longrightarrow> length (f x) = n" and "k < length xs" and "j < n"
  shows "concat (map f xs) ! (n * k + j) = f (xs ! k) ! j"
  using assms
proof (induction xs arbitrary: k)
  case Nil
  then show ?case by simp
next
  case (Cons x xs)
  show ?case
  proof (cases k)
    case 0
    then show ?thesis using Cons.prems by (simp add: nth_append)
  next
    case (Suc k')
    then show ?thesis
      using Cons.IH [of k'] Cons.prems by (simp add: nth_append)
  qed
qed

lemma length_concat_blocks:
  "(\<And>x. x \<in> set xs \<Longrightarrow> length (f x) = n) \<Longrightarrow> length (concat (map f xs)) = n * length xs"
  by (induction xs) auto

lemma concat_update_block:
  assumes "\<And>x. x \<in> set xs \<Longrightarrow> length (f x) = n" and "k < length xs" and "j < n" and "distinct xs"
    and "\<And>x. x \<in> set xs \<Longrightarrow> g x = (if x = xs ! k then (f x)[j := v] else f x)"
  shows "concat (map g xs) = (concat (map f xs))[n * k + j := v]"
  using assms
proof (induction xs arbitrary: k)
  case Nil
  then show ?case by simp
next
  case (Cons x xs)
  show ?case
  proof (cases k)
    case 0
    have "map g xs = map f xs" using Cons.prems(4,5) 0 by auto
    moreover have "g x = (f x)[j := v]" "j < length (f x)" using Cons.prems 0 by simp_all
    ultimately show ?thesis using 0 by (simp add: list_update_append del: map_eq_conv)
  next
    case (Suc k')
    have "g x = f x" using Cons.prems(2,4,5) Suc by (auto simp: nth_mem)
    moreover have "concat (map g xs) = (concat (map f xs))[n * k' + j := v]"
      using Cons.prems Suc by (intro Cons.IH) auto
    ultimately show ?thesis
      using Cons.prems(1) Suc by (simp add: list_update_append)
  qed
qed

lemma zmap_list_facts:
  "length (zmap_list sb) = unat (s_zmap_blocks sb)" "distinct (zmap_list sb)"
  "x \<in> set (zmap_list sb) \<Longrightarrow> block_ok x"
  "k < unat (s_zmap_blocks sb) \<Longrightarrow> zmap_list sb ! k = of_nat (k + zmap_begin sb)"
proof -
  have 16: "unat (y::u16) < 65536" for y using unsigned_less [of y, where ?'a = nat] by simp
  have small: "n < 2 ^ 32" if "n < zmap_begin sb + unat (s_zmap_blocks sb)" for n
    using that 16 [of "s_imap_blocks sb"] 16 [of "s_zmap_blocks sb"] by (simp add: zmap_begin_def)
  show "length (zmap_list sb) = unat (s_zmap_blocks sb)" by (simp add: zmap_list_def)
  show "distinct (zmap_list sb)"
    unfolding zmap_list_def distinct_map
  proof (intro conjI inj_onI)
    fix x y
    assume xy: "x \<in> set [zmap_begin sb..<zmap_begin sb + unat (s_zmap_blocks sb)]"
      "y \<in> set [zmap_begin sb..<zmap_begin sb + unat (s_zmap_blocks sb)]"
      and eq: "(of_nat x :: u32) = of_nat y"
    have "x < 2 ^ LENGTH(32)" "y < 2 ^ LENGTH(32)" using xy small by simp_all
    then have "unat (of_nat x :: u32) = x" "unat (of_nat y :: u32) = y"
      by (simp_all only: unat_of_nat_small)
    with eq show "x = y" by metis
  qed simp
  show "k < unat (s_zmap_blocks sb) \<Longrightarrow> zmap_list sb ! k = of_nat (k + zmap_begin sb)"
    by (simp add: zmap_list_def add.commute)
  show "block_ok x" if zx: "x \<in> set (zmap_list sb)"
  proof -
    obtain n where n: "x = of_nat n" "n < zmap_begin sb + unat (s_zmap_blocks sb)"
      using zx by (auto simp: zmap_list_def)
    then have "unat x = n" using small by (simp add: unat_of_nat_small)
    then show ?thesis
      using n 16 [of "s_imap_blocks sb"] 16 [of "s_zmap_blocks sb"] by (simp add: block_ok_def zmap_begin_def)
  qed
qed

lemma length_disk_block_idle: "bio_idle dv s \<Longrightarrow> length (disk_block dv s n) = BLOCK_SIZE"
  unfolding bio_idle_def using length_disk_block by blast

lemma length_zmap_bytes: "bio_idle dv s \<Longrightarrow> length (zmap_bytes dv sb s) = BLOCK_SIZE * unat (s_zmap_blocks sb)"
  unfolding zmap_bytes_def
  by (subst length_concat_blocks [where n = BLOCK_SIZE]) (simp_all add: length_disk_block_idle zmap_list_facts)

lemma zmap_bytes_nth:
  "bio_idle dv s \<Longrightarrow> k < unat (s_zmap_blocks sb) \<Longrightarrow> z < BLOCK_SIZE \<Longrightarrow>
   zmap_bytes dv sb s ! (BLOCK_SIZE * k + z) = disk_block dv s (zmap_list sb ! k) ! z"
  unfolding zmap_bytes_def
  by (rule concat_nth_blocks) (simp_all add: length_disk_block_idle zmap_list_facts)

text \<open>What \<open>balloc\<close> finds.\<close>

lemma balloc_loop_spec:
  assumes "bio_idle dv s" and "\<forall>x\<in>set zbs. block_ok x"
  shows "(\<exists>t. balloc_loop dv zbs no s = Ok 0 t \<and> bio_idle dv t \<and> bio_frame s t
      \<and> (\<forall>m. block_ok m \<longrightarrow> disk_block dv t m = disk_block dv s m)
      \<and> (\<forall>x\<in>set zbs. \<forall>y\<in>set (disk_block dv s x). y = 0xFF))
    \<or> (\<exists>t k z b. k < length zbs \<and> z < BLOCK_SIZE \<and> b < 8 \<and> \<not> bit (disk_block dv s (zbs ! k) ! z) b
      \<and> balloc_loop dv zbs no s = Ok (no + of_nat (8 * (BLOCK_SIZE * k + z) + b)) t
      \<and> bio_idle dv t \<and> bio_frame s t
      \<and> (\<forall>m. block_ok m \<longrightarrow> disk_block dv t m = (if m = zbs ! k
           then (disk_block dv s m)[z := disk_block dv s m ! z OR mask1 b] else disk_block dv s m)))"
  using assms
proof (induction zbs arbitrary: no s)
  case Nil
  then show ?case by (auto simp: kern_simps)
next
  case (Cons zb zbs)
  have zb: "block_ok zb" using Cons.prems(2) by simp
  obtain i t L where t: "bread dv zb s = Ok i t" "bio_inv dv t L" "insert i (set L) = {..<NBUF}"
    "fresh_hold dv t i zb (disk_block dv s zb)" "bio_frame s t" "disk_block dv t = disk_block dv s"
    using bio_idle_bread [OF Cons.prems(1) zb] by metis
  let ?d = "disk_block dv s zb"
  have d: "b_data (bcache t ! i) = ?d" "length ?d = BLOCK_SIZE"
    using t(4) length_disk_block_idle [OF Cons.prems(1)] by (simp_all add: fresh_hold_def)
  show ?case
  proof (cases "\<forall>y\<in>set ?d. y = 0xFF")
    case True
    then have scan: "zone_scan ?d 0 no = Inr (no + of_nat (8 * BLOCK_SIZE))"
      using zone_scan_spec [of ?d 0 no] d(2) by simp
    obtain u where u: "brelse i t = Ok () u" "bio_idle dv u" "bio_frame t u"
      "\<And>m. block_ok m \<Longrightarrow> disk_block dv u m = (if m = zb then b_data (bcache t ! i) else disk_block dv t m)"
      using bio_idle_brelse [OF t(2,3), of zb] t(4,6) by (auto simp: fresh_hold_def)
    have du: "disk_block dv u m = disk_block dv s m" if "block_ok m" for m using u(4) [OF that] d t(6) by auto
    have run: "balloc_loop dv (zb # zbs) no s = balloc_loop dv zbs (no + of_nat (8 * BLOCK_SIZE)) u"
      using t(1) d scan u(1) by (simp add: bindK_Ok kern_simps thenK_Ok)
    have fr: "bio_frame s u" using t(5) u(3) by (rule bio_frame_trans)
    have ok: "\<forall>x\<in>set zbs. block_ok x" using Cons.prems(2) by simp
    from Cons.IH [OF u(2) ok, of "no + of_nat (8 * BLOCK_SIZE)"] show ?thesis
    proof (elim disjE exE conjE)
      fix v
      assume "balloc_loop dv zbs (no + of_nat (8 * BLOCK_SIZE)) u = Ok 0 v" "bio_idle dv v" "bio_frame u v"
        "\<forall>m. block_ok m \<longrightarrow> disk_block dv v m = disk_block dv u m"
        "\<forall>x\<in>set zbs. \<forall>y\<in>set (disk_block dv u x). y = 0xFF"
      then show ?thesis
        using run du True ok bio_frame_trans [OF fr, of v] by (intro disjI1 exI [of _ v]) auto
    next
      fix v k z b
      assume found: "k < length zbs" "z < BLOCK_SIZE" "b < 8" "\<not> bit (disk_block dv u (zbs ! k) ! z) b"
        "balloc_loop dv zbs (no + of_nat (8 * BLOCK_SIZE)) u
           = Ok (no + of_nat (8 * BLOCK_SIZE) + of_nat (8 * (BLOCK_SIZE * k + z) + b)) v"
        "bio_idle dv v" "bio_frame u v"
        "\<forall>m. block_ok m \<longrightarrow> disk_block dv v m = (if m = zbs ! k
           then (disk_block dv u m)[z := disk_block dv u m ! z OR mask1 b] else disk_block dv u m)"
      have zk: "block_ok (zbs ! k)" using ok found(1) by simp
      have eq: "no + of_nat (8 * BLOCK_SIZE) + of_nat (8 * (BLOCK_SIZE * k + z) + b)
          = no + of_nat (8 * (BLOCK_SIZE * Suc k + z) + b)" by (simp add: algebra_simps)
      have "\<not> bit (disk_block dv s ((zb # zbs) ! Suc k) ! z) b" using found(4) du [OF zk] by simp
      moreover have "balloc_loop dv (zb # zbs) no s = Ok (no + of_nat (8 * (BLOCK_SIZE * Suc k + z) + b)) v"
        using run found(5) eq by metis
      moreover have "\<forall>m. block_ok m \<longrightarrow> disk_block dv v m = (if m = (zb # zbs) ! Suc k
           then (disk_block dv s m)[z := disk_block dv s m ! z OR mask1 b] else disk_block dv s m)"
        using found(8) du by simp
      moreover have "bio_frame s v" by (rule bio_frame_trans [OF fr found(7)])
      moreover have "Suc k < length (zb # zbs)" using found(1) by simp
      ultimately show ?thesis using found(2,3,6) by blast
    qed
  next
    case False
    then obtain z b where zb': "z < BLOCK_SIZE" "b < 8" "\<not> bit (?d ! z) b"
      "zone_scan ?d 0 no = Inl (z, b, no + of_nat (8 * z + b))"
      using zone_scan_spec [of ?d 0 no] d(2) unfolding if_not_P [OF False] by auto
    have "length (?d[z := ?d ! z OR mask1 b]) = BLOCK_SIZE" using d(2) by simp
    then obtain w where w:
      "\<And>k :: u32 kernel. thenK (modifyK (upd_buf i (\<lambda>x. x\<lparr>b_data := ?d[z := ?d ! z OR mask1 b]\<rparr>))) (thenK (bwrite i) (thenK (brelse i) k)) t = k w"
      "bio_idle dv w" "bio_frame t w"
      "\<And>m. block_ok m \<Longrightarrow> disk_block dv w m = (if m = zb then ?d[z := ?d ! z OR mask1 b] else disk_block dv t m)"
      using hold_store [OF t(2,3,4)] by metis
    have "balloc_loop dv (zb # zbs) no s = Ok (no + of_nat (8 * z + b)) w"
      using t(1) d zb'(4) w(1) [of "returnK (no + of_nat (8 * z + b))"]
      by (simp add: bindK_Ok getK_def bindK_def [of "\<lambda>s. Ok (b_data (bcache s ! i)) s"] returnK_exec)
    then show ?thesis
      using zb' w(2,4) t(6) bio_frame_trans [OF t(5) w(3)]
      by (intro disjI2 exI [of _ w] exI [of _ 0] exI [of _ z] exI [of _ b]) auto
  qed
qed

section \<open>Zones are a pool\<close>

text \<open>The zones that may be given out: bit 0 and the bits past the last zone are reserved.\<close>

definition zone_slots :: "fs \<Rightarrow> nat set" where
  "zone_slots sb = {n. 1 \<le> n \<and> n < 8 * (BLOCK_SIZE * unat (s_zmap_blocks sb))
     \<and> unat (s_firstdatazone sb) - 1 + n \<le> unat (s_nzones sb)}"

definition zone_block :: "fs \<Rightarrow> nat \<Rightarrow> u32" where
  "zone_block sb n = of_nat (unat (s_firstdatazone sb) - 1 + n)"

definition zones_used :: "u16 \<Rightarrow> fs \<Rightarrow> kstate \<Rightarrow> nat set" where
  "zones_used dv sb s = bmap_set (zmap_bytes dv sb s) \<inter> zone_slots sb"

definition zones_inv :: "u16 \<Rightarrow> fs \<Rightarrow> kstate \<Rightarrow> bool" where
  "zones_inv dv sb s \<longleftrightarrow> bio_idle dv s \<and> super s = sb \<and> 1 \<le> unat (s_firstdatazone sb)
     \<and> {..<8 * length (zmap_bytes dv sb s)} - zone_slots sb \<subseteq> bmap_set (zmap_bytes dv sb s)"

lemma zone_block_facts:
  assumes "1 \<le> unat (s_firstdatazone sb)" and "n \<in> zone_slots sb"
  shows "unat (zone_block sb n) = unat (s_firstdatazone sb) - 1 + n"
    "zone_block sb n - ucast (s_firstdatazone sb) + 1 = of_nat n"
    "\<not> zone_block sb n < 1" "\<not> zone_block sb n > ucast (s_nzones sb)" "zone_block sb n \<noteq> 0"
proof -
  have 16: "unat (y::u16) < 65536" for y using unsigned_less [of y, where ?'a = nat] by simp
  have le: "unat (s_firstdatazone sb) - 1 + n \<le> unat (s_nzones sb)" "1 \<le> n"
    using assms(2) by (simp_all add: zone_slots_def)
  then have "unat (s_firstdatazone sb) - 1 + n < 2 ^ LENGTH(32)" using 16 [of "s_nzones sb"] by simp
  then show u: "unat (zone_block sb n) = unat (s_firstdatazone sb) - 1 + n"
    unfolding zone_block_def by (rule unat_of_nat_small)
  have "zone_block sb n + 1 = of_nat (unat (s_firstdatazone sb) + n)"
    using assms(1) unfolding zone_block_def
    by (simp add: of_nat_diff)
  then show "zone_block sb n - ucast (s_firstdatazone sb) + 1 = of_nat n"
    by (simp add: algebra_simps)
  show "\<not> zone_block sb n < 1" "zone_block sb n \<noteq> 0" using u le(2) by (auto simp: word_less_nat_alt)
  have "unat (ucast (s_nzones sb) :: u32) = unat (s_nzones sb)"
    using 16 [of "s_nzones sb"] by (simp add: unsigned_ucast_eq take_bit_nat_eq_self)
  then show "\<not> zone_block sb n > ucast (s_nzones sb)" using u le(1) by (simp add: word_less_nat_alt)
qed

text \<open>Setting or clearing one bit of the map on the disk.\<close>

lemma zmap_bytes_update:
  assumes "bio_idle dv s" and "k < unat (s_zmap_blocks sb)" and "z < BLOCK_SIZE"
    and "\<And>m. block_ok m \<Longrightarrow> disk_block dv t m = (if m = zmap_list sb ! k then (disk_block dv s m)[z := v] else disk_block dv s m)"
  shows "zmap_bytes dv sb t = (zmap_bytes dv sb s)[BLOCK_SIZE * k + z := v]"
  unfolding zmap_bytes_def
  by (rule concat_update_block) (use assms zmap_list_facts length_disk_block_idle in auto)

text \<open>The other blocks of the device, which neither operation touches.\<close>

definition zones_frame :: "u16 \<Rightarrow> fs \<Rightarrow> kstate \<Rightarrow> kstate \<Rightarrow> bool" where
  "zones_frame dv sb s t \<longleftrightarrow> bio_frame s t
     \<and> (\<forall>m. block_ok m \<longrightarrow> m \<notin> set (zmap_list sb) \<longrightarrow> disk_block dv t m = disk_block dv s m)"

lemma zones_inv_step:
  assumes "zones_inv dv sb s" and "bio_idle dv t" and "bio_frame s t"
    and "bmap_set (zmap_bytes dv sb s) - zone_slots sb \<subseteq> bmap_set (zmap_bytes dv sb t)"
  shows "zones_inv dv sb t"
proof -
  have "length (zmap_bytes dv sb t) = length (zmap_bytes dv sb s)"
    using assms(1,2) by (simp add: zones_inv_def length_zmap_bytes)
  then show ?thesis using assms by (auto simp: zones_inv_def bio_frame_def)
qed

lemma balloc_spec:
  assumes inv: "zones_inv dv sb s"
  shows "(\<exists>t. balloc dv s = Ok 0 t \<and> zones_inv dv sb t \<and> zones_frame dv sb s t
      \<and> zones_used dv sb t = zones_used dv sb s \<and> zones_used dv sb s = zone_slots sb)
    \<or> (\<exists>n t. balloc dv s = Ok (zone_block sb n) t \<and> zones_inv dv sb t \<and> zones_frame dv sb s t
      \<and> n \<in> zone_slots sb \<and> n \<notin> zones_used dv sb s
      \<and> zones_used dv sb t = insert n (zones_used dv sb s))"
proof -
  have i: "bio_idle dv s" "super s = sb" "1 \<le> unat (s_firstdatazone sb)" using inv by (simp_all add: zones_inv_def)
  let ?no = "ucast (s_firstdatazone sb) - 1 :: u32"
  have run: "balloc dv s = balloc_loop dv (zmap_list sb) ?no s" using i(2) by (simp add: balloc_def kern_simps)
  have ok: "\<forall>x\<in>set (zmap_list sb). block_ok x" using zmap_list_facts(3) by blast
  have len: "length (zmap_bytes dv sb s) = BLOCK_SIZE * unat (s_zmap_blocks sb)" by (rule length_zmap_bytes [OF i(1)])
  from balloc_loop_spec [OF i(1) ok, of ?no] show ?thesis
  proof (elim disjE exE conjE)
    fix t
    assume t: "balloc_loop dv (zmap_list sb) ?no s = Ok 0 t" "bio_idle dv t" "bio_frame s t"
      "\<forall>m. block_ok m \<longrightarrow> disk_block dv t m = disk_block dv s m"
      "\<forall>x\<in>set (zmap_list sb). \<forall>y\<in>set (disk_block dv s x). y = 0xFF"
    have eq: "zmap_bytes dv sb t = zmap_bytes dv sb s"
      using t(4) ok by (auto simp: zmap_bytes_def intro!: arg_cong [where f = concat])
    have "\<forall>y\<in>set (zmap_bytes dv sb s). y = 0xFF" using t(5) by (auto simp: zmap_bytes_def)
    then have "\<forall>j<length (zmap_bytes dv sb s). zmap_bytes dv sb s ! j = 0xFF" by simp
    then have "{..<8 * length (zmap_bytes dv sb s)} \<subseteq> bmap_set (zmap_bytes dv sb s)"
      using bmap_full_iff by blast
    then have "zones_used dv sb s = zone_slots sb"
      using len by (auto simp: zones_used_def zone_slots_def)
    moreover have "zones_inv dv sb t" by (rule zones_inv_step [OF inv t(2,3)]) (use eq in auto)
    ultimately show ?thesis
      using run t eq by (intro disjI1 exI [of _ t]) (simp add: zones_used_def zones_frame_def)
  next
    fix t k z b
    assume t: "k < length (zmap_list sb)" "z < BLOCK_SIZE" "b < 8"
      "\<not> bit (disk_block dv s (zmap_list sb ! k) ! z) b"
      "balloc_loop dv (zmap_list sb) ?no s = Ok (?no + of_nat (8 * (BLOCK_SIZE * k + z) + b)) t"
      "bio_idle dv t" "bio_frame s t"
      "\<forall>m. block_ok m \<longrightarrow> disk_block dv t m = (if m = zmap_list sb ! k
           then (disk_block dv s m)[z := disk_block dv s m ! z OR mask1 b] else disk_block dv s m)"
    define q where "q = BLOCK_SIZE * k + z"
    define n where "n = 8 * q + b"
    have k: "k < unat (s_zmap_blocks sb)" using t(1) zmap_list_facts(1) by simp
    have q: "q < length (zmap_bytes dv sb s)"
    proof -
      have "BLOCK_SIZE * k + z < BLOCK_SIZE * Suc k" using t(2) by simp
      also have "\<dots> \<le> BLOCK_SIZE * unat (s_zmap_blocks sb)" using k by (intro mult_le_mono2) simp
      finally show ?thesis by (simp add: len q_def)
    qed
    have zq: "zmap_bytes dv sb s ! q = disk_block dv s (zmap_list sb ! k) ! z"
      unfolding q_def by (rule zmap_bytes_nth [OF i(1) k t(2)])
    have bytes: "zmap_bytes dv sb t = (zmap_bytes dv sb s)[q := zmap_bytes dv sb s ! q OR mask1 b]"
      unfolding zq unfolding q_def by (rule zmap_bytes_update [OF i(1) k t(2)]) (use t(8) in auto)
    have set': "bmap_set (zmap_bytes dv sb t) = insert n (bmap_set (zmap_bytes dv sb s))"
      unfolding bytes n_def by (rule bmap_set_insert [OF q t(3)])
    have free: "n \<notin> bmap_set (zmap_bytes dv sb s)"
      using t(4) zq bmap_set_mem [OF q t(3)] by (simp add: n_def)
    have nslot: "n \<in> zone_slots sb"
    proof (rule ccontr)
      assume "n \<notin> zone_slots sb"
      moreover have "n < 8 * length (zmap_bytes dv sb s)" using q t(3) by (simp add: n_def)
      ultimately show False using inv free by (auto simp: zones_inv_def)
    qed
    have "zones_inv dv sb t" by (rule zones_inv_step [OF inv t(6,7)]) (use set' in auto)
    moreover have "zones_used dv sb t = insert n (zones_used dv sb s)"
      using set' nslot by (auto simp: zones_used_def)
    moreover have "zones_frame dv sb s t" using t(1,7,8) by (auto simp: zones_frame_def)
    moreover have "balloc dv s = Ok (zone_block sb n) t"
      using run t(5) i(3) by (simp add: zone_block_def n_def q_def of_nat_diff)
    ultimately show ?thesis using nslot free by (intro disjI2 exI [of _ n] exI [of _ t]) (auto simp: zones_used_def)
  qed
qed

lemma bfree_spec:
  assumes inv: "zones_inv dv sb s" and n: "n \<in> zone_slots sb"
  shows "if n \<in> zones_used dv sb s
    then \<exists>t. bfree dv (zone_block sb n) s = Ok () t \<and> zones_inv dv sb t \<and> zones_frame dv sb s t
      \<and> zones_used dv sb t = zones_used dv sb s - {n}
    else bfree dv (zone_block sb n) s = Panic ''bfree: block not allocated''"
proof -
  have i: "bio_idle dv s" "super s = sb" "1 \<le> unat (s_firstdatazone sb)" using inv by (simp_all add: zones_inv_def)
  note zb = zone_block_facts [OF i(3) n]
  define k where "k = n div (BLOCK_SIZE * 8)"
  define z where "z = (n mod (BLOCK_SIZE * 8)) div 8"
  define b where "b = n mod 8"
  define q where "q = BLOCK_SIZE * k + z"
  have nlt: "n < 8 * (BLOCK_SIZE * unat (s_zmap_blocks sb))" using n by (simp add: zone_slots_def)
  have k: "k < unat (s_zmap_blocks sb)" unfolding k_def using nlt by (simp add: less_mult_imp_div_less mult.commute)
  have z: "z < BLOCK_SIZE" "b < 8" by (simp_all add: z_def b_def less_mult_imp_div_less)
  have nq: "n = 8 * q + b"
  proof -
    have "n mod 8192 mod 8 = n mod 8" by (simp add: mod_mod_cancel)
    then have "n mod 8192 = 8 * z + b" using mult_div_mod_eq [of 8 "n mod 8192"] by (simp add: z_def b_def)
    moreover have "n = 8192 * k + n mod 8192" by (simp add: k_def)
    ultimately show ?thesis unfolding q_def by simp
  qed
  have un: "unat (of_nat n :: u32) = n"
  proof (rule unat_of_nat_small)
    have "n \<le> unat (s_nzones sb)" using n by (auto simp: zone_slots_def)
    also have "\<dots> < 2 ^ LENGTH(16)" by (rule unsigned_less)
    finally show "n < 2 ^ LENGTH(32)" by simp
  qed
  have q: "q < length (zmap_bytes dv sb s)"
    using nlt nq unfolding length_zmap_bytes [OF i(1)] by simp
  have kzb: "n div 8192 = k" "n mod 8192 div 8 = z" "n mod 8 = b" by (simp_all add: k_def z_def b_def)
  define zbn where "zbn = (of_nat (k + zmap_begin sb) :: u32)"
  have zk: "zmap_list sb ! k = zbn" unfolding zbn_def by (rule zmap_list_facts(4) [OF k])
  have ok: "block_ok zbn" using zmap_list_facts(1,3) zk k by (metis nth_mem)
  obtain h t L where t: "bread dv zbn s = Ok h t" "bio_inv dv t L" "insert h (set L) = {..<NBUF}"
    "fresh_hold dv t h zbn (disk_block dv s zbn)" "bio_frame s t" "disk_block dv t = disk_block dv s"
    using bio_idle_bread [OF i(1) ok] by metis
  let ?d = "disk_block dv s zbn"
  have d: "b_data (bcache t ! h) = ?d" "length ?d = BLOCK_SIZE"
    using t(4) length_disk_block_idle [OF i(1)] by (simp_all add: fresh_hold_def)
  have zq: "zmap_bytes dv sb s ! q = ?d ! z"
    unfolding q_def using zmap_bytes_nth [OF i(1) k z(1)] zk by simp
  have used: "n \<in> zones_used dv sb s \<longleftrightarrow> bit (?d ! z) b"
    using n bmap_set_mem [OF q z(2)] zq nq by (simp add: zones_used_def)
  have run: "bfree dv (zone_block sb n) s =
      (if ?d ! z AND mask1 b = 0 then Panic ''bfree: block not allocated''
       else thenK (modifyK (upd_buf h (\<lambda>x. x\<lparr>b_data := ?d[z := ?d ! z AND NOT (mask1 b)]\<rparr>)))
              (thenK (bwrite h) (brelse h)) t)"
    using i(2) zb t(1) d(1) un kzb
    by (simp add: bfree_def kern_simps Let_def bindK_Ok zbn_def [symmetric] del: of_nat_add cong: if_cong)
  show ?thesis
  proof (cases "n \<in> zones_used dv sb s")
    case False
    then show ?thesis using run used and_mask1_eq_0 [of "?d ! z" b] by simp
  next
    case True
    have "length (?d[z := ?d ! z AND NOT (mask1 b)]) = BLOCK_SIZE" using d(2) by simp
    then obtain w where w: "thenK (modifyK (upd_buf h (\<lambda>x. x\<lparr>b_data := ?d[z := ?d ! z AND NOT (mask1 b)]\<rparr>)))
        (thenK (bwrite h) (brelse h)) t = Ok () w" "bio_idle dv w" "bio_frame t w"
      "\<And>m. block_ok m \<Longrightarrow> disk_block dv w m = (if m = zbn then ?d[z := ?d ! z AND NOT (mask1 b)] else disk_block dv t m)"
      using hold_store [OF t(2,3,4)] by metis
    have fr: "bio_frame s w" using t(5) w(3) by (rule bio_frame_trans)
    have bytes: "zmap_bytes dv sb w = (zmap_bytes dv sb s)[q := zmap_bytes dv sb s ! q AND NOT (mask1 b)]"
      unfolding zq unfolding q_def
      by (rule zmap_bytes_update [OF i(1) k z(1)]) (use w(4) t(6) zk in auto)
    have set': "bmap_set (zmap_bytes dv sb w) = bmap_set (zmap_bytes dv sb s) - {n}"
      unfolding bytes nq by (rule bmap_set_remove [OF q z(2)])
    have "zones_inv dv sb w" by (rule zones_inv_step [OF inv w(2) fr]) (use set' n in auto)
    moreover have "zones_used dv sb w = zones_used dv sb s - {n}" using set' by (auto simp: zones_used_def)
    moreover have "zones_frame dv sb s w"
      using fr w(4) t(6) zk k zmap_list_facts(1) by (auto simp: zones_frame_def in_set_conv_nth)
    moreover have "bfree dv (zone_block sb n) s = Ok () w"
      using run w(1) True used and_mask1_eq_0 [of "?d ! z" b] by simp
    ultimately show ?thesis using True by auto
  qed
qed

text \<open>The operations on zone numbers; the zone number 0 that \<open>balloc\<close> returns on a full disk is a
  failure.\<close>

definition zone_alloc :: "u16 \<Rightarrow> fs \<Rightarrow> kstate \<Rightarrow> (nat \<times> kstate) option" where
  "zone_alloc dv sb s =
     (case balloc dv s of
        Ok no t \<Rightarrow> if no = 0 then None else Some (unat no - (unat (s_firstdatazone sb) - 1), t)
      | _ \<Rightarrow> None)"

definition zone_release :: "u16 \<Rightarrow> fs \<Rightarrow> nat \<Rightarrow> kstate \<Rightarrow> kstate option" where
  "zone_release dv sb n s = (case bfree dv (zone_block sb n) s of Ok _ t \<Rightarrow> Some t | _ \<Rightarrow> None)"

interpretation zone_pool: slot_pool "zones_inv dv sb" "zones_used dv sb" "zone_slots sb"
  "zone_alloc dv sb" "zone_release dv sb" for dv sb
proof
  show "finite (zone_slots sb)" by (simp add: zone_slots_def)
  show "zones_used dv sb s \<subseteq> zone_slots sb" if "zones_inv dv sb s" for s by (simp add: zones_used_def)
next
  fix s n t
  assume s: "zones_inv dv sb s" and a: "zone_alloc dv sb s = Some (n, t)"
  have f: "1 \<le> unat (s_firstdatazone sb)" using s by (simp add: zones_inv_def)
  from balloc_spec [OF s] a
  obtain m u where m: "balloc dv s = Ok (zone_block sb m) u" "zones_inv dv sb u" "m \<in> zone_slots sb"
    "m \<notin> zones_used dv sb s" "zones_used dv sb u = insert m (zones_used dv sb s)"
    by (auto simp: zone_alloc_def)
  then have "n = m" "t = u" using a zone_block_facts(1,5) [OF f m(3)] by (auto simp: zone_alloc_def)
  with m show "zones_inv dv sb t \<and> n \<in> zone_slots sb \<and> n \<notin> zones_used dv sb s
    \<and> zones_used dv sb t = insert n (zones_used dv sb s)" by simp
next
  fix s
  assume s: "zones_inv dv sb s" and "zones_used dv sb s \<noteq> zone_slots sb"
  moreover have "1 \<le> unat (s_firstdatazone sb)" using s by (simp add: zones_inv_def)
  ultimately show "\<exists>n t. zone_alloc dv sb s = Some (n, t)"
    using balloc_spec [OF s] zone_block_facts(5) by (fastforce simp: zone_alloc_def)
next
  fix s n
  assume "zones_inv dv sb s" "n \<in> zones_used dv sb s"
  then show "\<exists>t. zone_release dv sb n s = Some t \<and> zones_inv dv sb t \<and> zones_used dv sb t = zones_used dv sb s - {n}"
    using bfree_spec [of dv sb s n] by (auto simp: zone_release_def zones_used_def)
next
  fix s n
  assume "zones_inv dv sb s" "n \<in> zone_slots sb" "n \<notin> zones_used dv sb s"
  then show "zone_release dv sb n s = None"
    using bfree_spec [of dv sb s n] by (simp add: zone_release_def)
qed

section \<open>Properties\<close>

text \<open>
  C4: \<open>balloc\<close> never hands out a block in use.  It returns a data block of the file system
  whose bit was clear, sets exactly this bit on the disk, and changes no block outside the
  zone map; it returns 0 only when every zone is in use, and then changes nothing.
\<close>

theorem balloc_correct:
  assumes "zones_inv dv sb s"
  shows "\<exists>no t. balloc dv s = Ok no t \<and> zones_inv dv sb t \<and> zones_frame dv sb s t
    \<and> (if zones_used dv sb s = zone_slots sb then no = 0 \<and> zones_used dv sb t = zones_used dv sb s
       else \<exists>n\<in>zone_slots sb - zones_used dv sb s. no = zone_block sb n \<and> no \<noteq> 0
              \<and> zones_used dv sb t = insert n (zones_used dv sb s))"
proof -
  have f: "1 \<le> unat (s_firstdatazone sb)" using assms by (simp add: zones_inv_def)
  from balloc_spec [OF assms] show ?thesis
  proof (elim disjE exE conjE)
    fix n t
    assume t: "balloc dv s = Ok (zone_block sb n) t" "zones_inv dv sb t" "zones_frame dv sb s t"
      "n \<in> zone_slots sb" "n \<notin> zones_used dv sb s" "zones_used dv sb t = insert n (zones_used dv sb s)"
    then show ?thesis
      using zone_block_facts(5) [OF f t(4)]
      by (intro exI [of _ "zone_block sb n"] exI [of _ t]) auto
  qed auto
qed

text \<open>A freshly made file system: one block of zone map with only the reserved bit 0 set.\<close>

definition mini_super :: fs where
  "mini_super = zero_fs\<lparr>s_imap_blocks := 1, s_zmap_blocks := 1, s_firstdatazone := 10, s_nzones := 8200\<rparr>"

definition mini_disk :: kstate where
  "mini_disk = one_disk\<lparr>super := mini_super,
     sectors := (\<lambda>d n. if n = 2054 then 1 # replicate 511 0 else replicate 512 0)\<rparr>"

lemma mini_disk_zones:
  obtains s where "buf_init mini_disk = Ok () s" "zones_inv ROOT_DEV mini_super s"
    "zones_used ROOT_DEV mini_super s = {}"
proof -
  have boot: "bio_boot ROOT_DEV mini_disk"
    using bio_boot_one_disk by (simp add: bio_boot_def mini_disk_def dev_ok_def)
  then obtain s where s: "buf_init mini_disk = Ok () s" "bio_inv ROOT_DEV s [0..<NBUF]" "bio_frame mini_disk s"
    "disk_block ROOT_DEV s = disk_block ROOT_DEV mini_disk"
    using buf_init_inv [OF boot] by auto
  have idle: "bio_idle ROOT_DEV s" by (rule bio_inv_idle [OF s(2)])
  have zl: "zmap_list mini_super = [3]"
    by (simp add: zmap_list_def zmap_begin_def mini_super_def upt_rec)
  have db: "disk_block ROOT_DEV s 3 = (1 # replicate 511 0) @ replicate 512 0"
    unfolding s(4)
    by (simp add: disk_block_def mini_disk_def one_disk_def wd_locate_def wd_drive_def wd_part_no_def
        minor_def ide_read_multiple_def lba28_def zero_wd_def)
  have nth: "((1::u8) # replicate 511 0 @ replicate 512 0) ! j = (if j = 0 then 1 else 0)" if "j < 1024" for j
    using that by (auto simp: nth_Cons' nth_append)
  have bits: "bmap_set (zmap_bytes ROOT_DEV mini_super s) = {0}"
    using nth by (auto simp: zmap_bytes_def zl db bmap_set_def bmap_bit_def bit_1_iff split: if_splits)
  have slots: "zone_slots mini_super = {1..<8192}"
    by (auto simp: zone_slots_def mini_super_def)
  have len: "length (zmap_bytes ROOT_DEV mini_super s) = 1024"
    by (simp add: length_zmap_bytes [OF idle] mini_super_def)
  have "super s = mini_super" using s(3) by (simp add: bio_frame_def mini_disk_def)
  then have "zones_inv ROOT_DEV mini_super s"
    using idle by (auto simp: zones_inv_def len slots bits) (simp_all add: mini_super_def)
  moreover have "zones_used ROOT_DEV mini_super s = {}" by (simp add: zones_used_def bits slots)
  ultimately show thesis using that s(1) by blast
qed

theorem balloc_witness:
  "\<exists>s n t. buf_init mini_disk = Ok () s \<and> balloc ROOT_DEV s = Ok (zone_block mini_super n) t
     \<and> n \<in> zone_slots mini_super \<and> zones_used ROOT_DEV mini_super t = {n}"
proof -
  obtain s where s: "buf_init mini_disk = Ok () s" "zones_inv ROOT_DEV mini_super s"
    "zones_used ROOT_DEV mini_super s = {}" by (rule mini_disk_zones)
  have "1 \<in> zone_slots mini_super" by (simp add: zone_slots_def mini_super_def)
  then have "zones_used ROOT_DEV mini_super s \<noteq> zone_slots mini_super" using s(3) by auto
  with balloc_correct [OF s(2)] s(1,3) show ?thesis by auto
qed

text \<open>
  C5: the zone map survives any allocate and free cycle.  After allocating \<open>k\<close> blocks, as many as
  there are free ones at most, all are different; freeing them again restores the map, and
  freeing a block twice panics.
\<close>

theorem zones_roundtrip:
  assumes "zones_inv dv sb s" and "k \<le> card (zone_slots sb - zones_used dv sb s)"
  shows "\<exists>ns t u. zone_pool.alloc_many dv sb k s = Some (ns, t) \<and> length ns = k \<and> distinct ns
    \<and> set ns \<subseteq> zone_slots sb - zones_used dv sb s \<and> zones_used dv sb t = zones_used dv sb s \<union> set ns
    \<and> zone_pool.release_many dv sb ns t = Some u \<and> zones_inv dv sb u \<and> zones_used dv sb u = zones_used dv sb s
    \<and> (\<forall>n\<in>set ns. bfree dv (zone_block sb n) u = Panic ''bfree: block not allocated'')"
proof -
  have room: "k \<le> zone_pool.room dv sb s" using assms(2) by (simp add: zone_pool.room_def)
  obtain ns t where t: "zone_pool.alloc_many dv sb k s = Some (ns, t)" "zones_inv dv sb t" "length ns = k"
    "distinct ns" "set ns \<subseteq> zone_slots sb - zones_used dv sb s" "zones_used dv sb t = zones_used dv sb s \<union> set ns"
    using zone_pool.alloc_many_fresh [OF assms(1) room] by blast
  have "set ns \<subseteq> zones_used dv sb t" using t(6) by simp
  from zone_pool.release_many_taken [OF t(2,4) this] obtain u where u: "zone_pool.release_many dv sb ns t = Some u"
    "zones_inv dv sb u" "zones_used dv sb u = zones_used dv sb t - set ns" by blast
  have uu: "zones_used dv sb u = zones_used dv sb s" using u(3) t(5,6) by auto
  have "bfree dv (zone_block sb n) u = Panic ''bfree: block not allocated''" if "n \<in> set ns" for n
  proof -
    have n: "n \<in> zone_slots sb" "n \<notin> zones_used dv sb u" using that t(5) uu by auto
    show ?thesis using bfree_spec [OF u(2) n(1)] n(2) by simp
  qed
  with t u uu show ?thesis by blast
qed

theorem zones_roundtrip_witness:
  "\<exists>s ns t u. buf_init mini_disk = Ok () s \<and> zone_pool.alloc_many ROOT_DEV mini_super 2 s = Some (ns, t)
     \<and> zone_pool.release_many ROOT_DEV mini_super ns t = Some u \<and> zones_used ROOT_DEV mini_super u = {}"
proof -
  obtain s where s: "buf_init mini_disk = Ok () s" "zones_inv ROOT_DEV mini_super s"
    "zones_used ROOT_DEV mini_super s = {}" by (rule mini_disk_zones)
  have "zone_slots mini_super = {1..<8192}" by (auto simp: zone_slots_def mini_super_def)
  then have "2 \<le> card (zone_slots mini_super - zones_used ROOT_DEV mini_super s)" using s(3) by simp
  from zones_roundtrip [OF s(2) this] obtain ns t u where
    "zone_pool.alloc_many ROOT_DEV mini_super 2 s = Some (ns, t)"
    "zone_pool.release_many ROOT_DEV mini_super ns t = Some u"
    "zones_used ROOT_DEV mini_super u = zones_used ROOT_DEV mini_super s" by blast
  with s(1,3) show ?thesis by blast
qed

end
