(* ===== verification/Inode.thy ===== *)
theory Inode
  imports Zones Codec
begin

text \<open>
  The inode cache, the first half of \<open>sys/kern/inode.c\<close>, and the super block, \<open>sys/kern/fs.c\<close>:
  locking, reference counting, loading an inode from its disk block and writing it back, and
  the permission check.  The blocks are reached through the buffer cache.
\<close>

section \<open>Disk structures\<close>

text \<open>\<open>struct minix_inode\<close> (\<open>sys/sys/fs.h\<close>): 32 bytes, 32 inodes to a block.\<close>

record minix_inode =
  di_mode :: u16
  di_uid :: u16
  di_size :: u32
  di_time :: u32
  di_gid :: u8
  di_nlinks :: u8
  di_zone :: "u16 list"
  di_indirect :: u16
  di_dblindirect :: u16

abbreviation (input) DINODE_SIZE :: nat where "DINODE_SIZE \<equiv> 32"
abbreviation (input) INODES_PER_BLOCK :: nat where "INODES_PER_BLOCK \<equiv> 32"

definition dinode_at :: "bytes \<Rightarrow> nat \<Rightarrow> minix_inode" where
  "dinode_at bs off =
     \<lparr>di_mode = get16 bs off, di_uid = get16 bs (off + 2), di_size = get32 bs (off + 4),
      di_time = get32 bs (off + 8), di_gid = bs ! (off + 12), di_nlinks = bs ! (off + 13),
      di_zone = get16s bs (off + 14) NDIRECT, di_indirect = get16 bs (off + 28),
      di_dblindirect = get16 bs (off + 30)\<rparr>"

definition dinode_bytes :: "minix_inode \<Rightarrow> bytes" where
  "dinode_bytes d =
     le16 (di_mode d) @ le16 (di_uid d) @ le32 (di_size d) @ le32 (di_time d)
     @ [di_gid d, di_nlinks d] @ concat (map le16 (di_zone d)) @ le16 (di_indirect d) @ le16 (di_dblindirect d)"

text \<open>Copying between the two structures, with the conversions of the C assignments.\<close>

definition inode_of_disk :: "minix_inode \<Rightarrow> inode \<Rightarrow> inode" where
  "inode_of_disk d i = i
     \<lparr>i_mode := di_mode d, i_nlinks := ucast (di_nlinks d), i_uid := di_uid d, i_gid := ucast (di_gid d),
      i_time := to_long (uint (di_time d)), i_size := to_long (uint (di_size d)),
      i_direct := di_zone d, i_indirect := di_indirect d, i_dblindirect := di_dblindirect d\<rparr>"

definition disk_of_inode :: "inode \<Rightarrow> minix_inode" where
  "disk_of_inode i =
     \<lparr>di_mode = i_mode i, di_uid = i_uid i, di_size = of_int (i_size i), di_time = of_int (i_time i),
      di_gid = ucast (i_gid i), di_nlinks = ucast (i_nlinks i), di_zone = i_direct i,
      di_indirect = i_indirect i, di_dblindirect = i_dblindirect i\<rparr>"

section \<open>The super block\<close>

definition fs_at :: "bytes \<Rightarrow> fs" where
  "fs_at bs =
     \<lparr>s_ninodes = get16 bs 0, s_nzones = get16 bs 2, s_imap_blocks = get16 bs 4, s_zmap_blocks = get16 bs 6,
      s_firstdatazone = get16 bs 8, s_log_zone_size = get16 bs 10, s_max_size = get32 bs 12,
      s_magic = get16 bs 16, s_state = get16 bs 18, s_zones = get32 bs 20\<rparr>"

definition readsb :: "u16 \<Rightarrow> unit kernel" where
  "readsb dev =
     bindK (bread dev 1) (\<lambda>b.
     thenK (modifyK (\<lambda>s. s\<lparr>super := fs_at (b_data (bcache s ! b))\<rparr>))
     (brelse b))"

section \<open>Operations on the cache\<close>

definition upd_inode :: "nat \<Rightarrow> (inode \<Rightarrow> inode) \<Rightarrow> kstate \<Rightarrow> kstate" where
  "upd_inode k f s = s\<lparr>inodes := (inodes s)[k := f (inodes s ! k)]\<rparr>"

definition set_iflags :: "u32 \<Rightarrow> inode \<Rightarrow> inode" where
  "set_iflags m i = i\<lparr>i_flags := i_flags i OR m\<rparr>"

definition clear_iflags :: "u32 \<Rightarrow> inode \<Rightarrow> inode" where
  "clear_iflags m i = i\<lparr>i_flags := i_flags i AND NOT m\<rparr>"

definition inode_init :: "unit kernel" where
  "inode_init = modifyK (\<lambda>s. s\<lparr>inodes := map (\<lambda>i. i\<lparr>i_dev := 0xFFFF, i_flags := 0, i_refcount := 0\<rparr>) (inodes s)\<rparr>)"

definition inode_block :: "fs \<Rightarrow> u32 \<Rightarrow> u32" where
  "inode_block sb inodeno =
     2 + ucast (s_imap_blocks sb) + ucast (s_zmap_blocks sb) + (inodeno - 1) div of_nat INODES_PER_BLOCK"

definition inode_offset :: "u32 \<Rightarrow> u32" where
  "inode_offset inodeno = (inodeno - 1) mod of_nat INODES_PER_BLOCK"

definition iunlock :: "nat \<Rightarrow> unit kernel" where
  "iunlock k =
     bindK (getK (\<lambda>s. i_flags (inodes s ! k))) (\<lambda>f.
     if f AND I_LOCK = 0 then panic ''iunlock''
     else
       thenK (whenK (f AND I_WANTED \<noteq> 0) (wakeup (WInode k)))
       (modifyK (upd_inode k (clear_iflags (I_WANTED OR I_LOCK)))))"

text \<open>\<open>ilock\<close>: after the first test the loop condition is false, so the loop never runs.\<close>

definition ilock :: "nat \<Rightarrow> int kernel" where
  "ilock k =
     bindK (getK (\<lambda>s. i_flags (inodes s ! k))) (\<lambda>f.
     if f AND I_LOCK \<noteq> 0 then panic ''ilock''
     else thenK (modifyK (upd_inode k (set_iflags I_LOCK))) (returnK 0))"

text \<open>A process that finds the inode locked sleeps and then searches again from the start.\<close>

definition iget :: "u16 \<Rightarrow> u32 \<Rightarrow> nat kernel" where
  "iget dev inodeno =
     bindK (getK inodes) (\<lambda>tab.
     case first_index (\<lambda>i. i_dev i = dev \<and> i_inodeno i = inodeno) tab of
       Some k \<Rightarrow>
         if i_flags (tab ! k) AND I_LOCK \<noteq> 0 then
           thenK (modifyK (upd_inode k (set_iflags I_WANTED))) (sleep (WInode k))
         else
           thenK (modifyK (upd_inode k (\<lambda>i. (set_iflags I_LOCK i)\<lparr>i_refcount := i_refcount i + 1\<rparr>)))
           (thenK (iunlock k) (returnK k))
     | None \<Rightarrow>
         (case first_index (\<lambda>i. i_refcount i = 0 \<and> i_flags i AND I_DIRTY = 0) tab of
            None \<Rightarrow> panic ''inode cache full!''
          | Some k \<Rightarrow>
              thenK (modifyK (upd_inode k (\<lambda>i. i\<lparr>i_dev := dev, i_inodeno := inodeno, i_refcount := 1, i_flags := I_LOCK\<rparr>)))
              (bindK (getK super) (\<lambda>sb.
              bindK (bread dev (inode_block sb inodeno)) (\<lambda>b.
              thenK (modifyK (\<lambda>s. upd_inode k (inode_of_disk
                       (dinode_at (b_data (bcache s ! b)) (DINODE_SIZE * unat (inode_offset inodeno)))) s))
              (thenK (brelse b)
              (thenK (iunlock k) (returnK k))))))))"

definition iupdate :: "nat \<Rightarrow> unit kernel" where
  "iupdate k =
     bindK (getK (\<lambda>s. inodes s ! k)) (\<lambda>i.
     whenK (i_flags i AND I_DIRTY \<noteq> 0)
       (bindK (getK super) (\<lambda>sb.
        bindK (bread (i_dev i) (inode_block sb (i_inodeno i))) (\<lambda>b.
        thenK (modifyK (\<lambda>s. upd_buf b (\<lambda>x. x\<lparr>b_data := overwrite (b_data x)
                 (DINODE_SIZE * unat (inode_offset (i_inodeno i)))
                 (dinode_bytes (disk_of_inode (inodes s ! k)))\<rparr>) s))
        (thenK (modifyK (upd_inode k (clear_iflags I_DIRTY)))
        (thenK (bwrite b)
        (brelse b)))))))"

definition idup :: "nat \<Rightarrow> nat kernel" where
  "idup k = thenK (modifyK (upd_inode k (\<lambda>i. i\<lparr>i_refcount := i_refcount i + 1\<rparr>))) (returnK k)"

text \<open>\<open>access\<close>: 0 if allowed, -1 if not; \<open>None\<close> is the NULL pointer.\<close>

definition access :: "nat option \<Rightarrow> u16 \<Rightarrow> int kernel" where
  "access ip mode =
     (case ip of
        None \<Rightarrow> returnK (-1)
      | Some k \<Rightarrow>
          bindK (getK cur_proc) (\<lambda>c.
          case c of
            None \<Rightarrow> returnK 0
          | Some p \<Rightarrow>
              bindK (getK (\<lambda>s. procs s ! p)) (\<lambda>pr.
              bindK (getK (\<lambda>s. inodes s ! k)) (\<lambda>i.
              if p_uid pr = 0 then returnK 0
              else if i_uid i = p_uid pr \<and> i_mode i AND push_bit 6 mode \<noteq> 0 then returnK 0
              else if i_gid i = p_gid pr \<and> i_mode i AND push_bit 3 mode \<noteq> 0 then returnK 0
              else if i_mode i AND mode \<noteq> 0 then returnK 0
              else returnK (-1)))))"

text \<open>\<open>struct stat\<close> (\<open>sys/sys/stat.h\<close>).\<close>

record stat =
  st_dev :: u16
  st_ino :: u32
  st_mode :: u16
  st_nlink :: u16
  st_uid :: u16
  st_gid :: u16
  st_size :: int
  st_time :: int
  st_direct :: "u16 list"
  st_indirect :: u16
  st_dblindirect :: u16

definition istat :: "nat \<Rightarrow> stat kernel" where
  "istat k = getK (\<lambda>s. let i = inodes s ! k in
     \<lparr>st_dev = i_dev i, st_ino = i_inodeno i, st_mode = i_mode i, st_nlink = i_nlinks i, st_uid = i_uid i,
      st_gid = i_gid i, st_size = i_size i, st_time = i_time i, st_direct = i_direct i,
      st_indirect = i_indirect i, st_dblindirect = i_dblindirect i\<rparr>)"

text \<open>\<open>mount\<close>; the messages it prints are left out.\<close>

definition mount :: "u16 \<Rightarrow> unit kernel" where
  "mount dev =
     thenK (readsb dev)
     (bindK (getK super) (\<lambda>sb.
      if s_magic sb \<noteq> 0x138F then returnK ()
      else if s_state sb AND 1 = 0 then returnK ()
      else if s_state sb AND 2 \<noteq> 0 then returnK ()
      else bindK (iget dev 1) (\<lambda>k. modifyK (\<lambda>s. s\<lparr>root_inode := Some k\<rparr>))))"

section \<open>The layout of an inode on disk\<close>

lemma length_dinode_bytes: "length (di_zone d) = NDIRECT \<Longrightarrow> length (dinode_bytes d) = DINODE_SIZE"
  by (simp add: dinode_bytes_def length_concat_le16)

lemma dinode_at_bytes:
  assumes "length (di_zone d) = NDIRECT"
  shows "dinode_at (xs @ dinode_bytes d @ ys) (length xs) = d"
proof -
  let ?z = "concat (map le16 (di_zone d))" and ?bs = "xs @ dinode_bytes d @ ys"
  have z: "length ?z = 14" using assms by (simp add: length_concat_le16)
  have 1: "get16 ?bs (length xs) = di_mode d" "get16 ?bs (length xs + 2) = di_uid d"
    "get32 ?bs (length xs + 4) = di_size d" "get32 ?bs (length xs + 8) = di_time d"
    using get16_le16 [of xs "di_mode d"] get16_le16 [of "xs @ le16 (di_mode d)" "di_uid d"]
      get32_le32 [of "xs @ le16 (di_mode d) @ le16 (di_uid d)" "di_size d"]
      get32_le32 [of "xs @ le16 (di_mode d) @ le16 (di_uid d) @ le32 (di_size d)" "di_time d"]
    by (simp_all add: dinode_bytes_def)
  define head where "head = xs @ le16 (di_mode d) @ le16 (di_uid d) @ le32 (di_size d) @ le32 (di_time d)"
  have bs: "?bs = head @ di_gid d # di_nlinks d # ?z @ le16 (di_indirect d) @ le16 (di_dblindirect d) @ ys"
    by (simp add: dinode_bytes_def head_def)
  have lh: "length head = length xs + 12" by (simp add: head_def)
  have 2: "?bs ! (length xs + 12) = di_gid d" "?bs ! (length xs + 13) = di_nlinks d"
    unfolding bs using lh by (simp_all add: nth_append)
  have "get16s ?bs (length xs + 14) NDIRECT = di_zone d"
    using get16s_concat [of "di_zone d" NDIRECT "head @ [di_gid d, di_nlinks d]"] assms lh unfolding bs
    by (simp add: add.commute)
  moreover have "get16 ?bs (length xs + 28) = di_indirect d"
    using get16_le16 [of "head @ di_gid d # di_nlinks d # ?z" "di_indirect d"] z lh unfolding bs
    by (simp add: add.commute)
  moreover have "get16 ?bs (length xs + 30) = di_dblindirect d"
    using get16_le16 [of "head @ di_gid d # di_nlinks d # ?z @ le16 (di_indirect d)" "di_dblindirect d"] z lh
    unfolding bs by (simp add: add.commute)
  ultimately show ?thesis using 1 2 by (simp add: dinode_at_def)
qed

lemma dinode_at_overwrite:
  assumes "length (di_zone d) = NDIRECT" and "off + DINODE_SIZE \<le> length bs"
  shows "dinode_at (overwrite bs off (dinode_bytes d)) off = d"
  using dinode_at_bytes [OF assms(1), of "take off bs"] assms(2) by (simp add: overwrite_def)

lemma dinode_at_cong:
  assumes "\<And>j. off \<le> j \<Longrightarrow> j < off + DINODE_SIZE \<Longrightarrow> bs ! j = bs' ! j"
  shows "dinode_at bs off = dinode_at bs' off"
  using assms by (simp add: dinode_at_def get16_def get32_def get16s_def)

lemma dinode_at_overwrite_other:
  assumes "length (di_zone d) = NDIRECT" and "DINODE_SIZE * a + DINODE_SIZE \<le> length bs"
    and "DINODE_SIZE * b + DINODE_SIZE \<le> length bs" and "a \<noteq> b"
  shows "dinode_at (overwrite bs (DINODE_SIZE * a) (dinode_bytes d)) (DINODE_SIZE * b) = dinode_at bs (DINODE_SIZE * b)"
proof (rule dinode_at_cong)
  fix j
  assume j: "DINODE_SIZE * b \<le> j" "j < DINODE_SIZE * b + DINODE_SIZE"
  have "\<not> (DINODE_SIZE * a \<le> j \<and> j < DINODE_SIZE * a + DINODE_SIZE)"
    using j assms(4) by (cases "a < b") auto
  then show "overwrite bs (DINODE_SIZE * a) (dinode_bytes d) ! j = bs ! j"
    using assms j by (subst nth_overwrite) (auto simp: length_dinode_bytes)
qed

text \<open>An inode that fits the narrower fields of the disk: 8 bits for the group and the link count.\<close>

definition inode_fits :: "inode \<Rightarrow> bool" where
  "inode_fits i \<longleftrightarrow> unat (i_nlinks i) < 256 \<and> unat (i_gid i) < 256 \<and> to_long (i_size i) = i_size i
     \<and> to_long (i_time i) = i_time i \<and> length (i_direct i) = NDIRECT"

lemma ucast_16_8_16: "unat (w::u16) < 256 \<Longrightarrow> ucast (ucast w :: u8) = w"
  by (rule unsigned_word_eqI [where ?'a = nat]) (simp add: unsigned_ucast_eq unsigned_take_bit_eq take_bit_nat_eq_self)

lemma inode_of_disk_of_inode:
  "inode_fits i \<Longrightarrow> inode_of_disk (disk_of_inode i) j =
     i\<lparr>i_dev := i_dev j, i_inodeno := i_inodeno j, i_flags := i_flags j, i_refcount := i_refcount j\<rparr>"
  by (simp add: inode_of_disk_def disk_of_inode_def inode_fits_def ucast_16_8_16 to_long_uint_of_int)

section \<open>Inodes and the buffer cache\<close>

text \<open>The buffer cache does not look at the inodes.\<close>

lemma upd_inode_other [simp]:
  "bcache (upd_inode k f s) = bcache s" "sectors (upd_inode k f s) = sectors s"
  "wd_devsw (upd_inode k f s) = wd_devsw s" "super (upd_inode k f s) = super s"
  "procs (upd_inode k f s) = procs s" "cur_proc (upd_inode k f s) = cur_proc s"
  "files (upd_inode k f s) = files s" "pit_time (upd_inode k f s) = pit_time s"
  "inodes (upd_inode k f s) = (inodes s)[k := f (inodes s ! k)]"
  "bfree_next (upd_inode k f s) = bfree_next s" "bfree_prev (upd_inode k f s) = bfree_prev s"
  by (simp_all add: upd_inode_def)

lemma upd_inode_upd_inode: "k < length (inodes s) \<Longrightarrow> upd_inode k g (upd_inode k f s) = upd_inode k (\<lambda>i. g (f i)) s"
  by (simp add: upd_inode_def)

lemma upd_inode_upd_buf: "upd_inode k f (upd_buf b g s) = upd_buf b g (upd_inode k f s)"
  by (simp add: upd_inode_def upd_buf_def)

lemma disk_block_inode [simp]: "disk_block dv (upd_inode k f s) = disk_block dv s"
  by (rule ext) (simp add: disk_block_def ide_read_multiple_def split: option.split)

lemma ring_inode [simp]: "ring (upd_inode k f s) L = ring s L"
  by (rule ring_cong) simp_all

lemma buf_ok_inode [simp]: "buf_ok dv (upd_inode k f s) b = buf_ok dv s b"
  by (simp add: buf_ok_def)

lemma bio_inv_inode [simp]: "bio_inv dv (upd_inode k f s) L = bio_inv dv s L"
  by (simp add: bio_inv_def dev_ok_def)

lemma bio_idle_inode [simp]: "bio_idle dv (upd_inode k f s) = bio_idle dv s"
  by (simp add: bio_idle_def)

lemma bio_same_cache:
  assumes "bcache t = bcache s" "sectors t = sectors s" "wd_devsw t = wd_devsw s"
    "bfree_next t = bfree_next s" "bfree_prev t = bfree_prev s"
  shows "disk_block dv t = disk_block dv s" "bio_inv dv t L = bio_inv dv s L" "bio_idle dv t = bio_idle dv s"
proof -
  show d: "disk_block dv t = disk_block dv s"
    using assms by (intro ext) (simp add: disk_block_def ide_read_multiple_def split: option.split)
  have "ring t L = ring s L" for L by (rule ring_cong) (simp_all add: assms)
  then show "bio_inv dv t L = bio_inv dv s L" for L
    using assms d by (simp add: bio_inv_def dev_ok_def buf_ok_def)
  then show "bio_idle dv t = bio_idle dv s" by (simp add: bio_idle_def)
qed

lemma hold_inode [simp]:
  "caches dv (upd_inode k f s) i n = caches dv s i n"
  "fresh_hold dv (upd_inode k f s) i n d = fresh_hold dv s i n d"
  by (simp_all add: caches_def fresh_hold_def)

lemma bio_frame_inode: "bio_frame s t \<Longrightarrow> bio_frame (upd_inode k f s) (upd_inode k f t)"
  by (simp add: bio_frame_def upd_inode_def)

lemma bio_frame_inode_trans:
  "bio_frame (upd_inode k f s) t \<Longrightarrow> k < length (inodes s) \<Longrightarrow> upd_inode k g t = t' \<Longrightarrow>
   bio_frame (upd_inode k (\<lambda>i. g (f i)) s) t'"
  using bio_frame_inode [of "upd_inode k f s" t k g] by (auto simp: upd_inode_upd_inode)

lemma bio_frame_inodes: "bio_frame s t \<Longrightarrow> inodes t = inodes s"
  and bio_frame_super: "bio_frame s t \<Longrightarrow> super t = super s"
  by (simp_all add: bio_frame_def)

text \<open>The inode with a given number as the disk has it.\<close>

definition disk_inode :: "u16 \<Rightarrow> kstate \<Rightarrow> u32 \<Rightarrow> minix_inode" where
  "disk_inode dv s no =
     dinode_at (disk_block dv s (inode_block (super s) no)) (DINODE_SIZE * unat (inode_offset no))"

lemma inode_offset_less: "unat (inode_offset no) < INODES_PER_BLOCK"
  by (simp add: inode_offset_def unat_mod)

lemma inode_slot_bound: "DINODE_SIZE * unat (inode_offset no) + DINODE_SIZE \<le> BLOCK_SIZE"
  using inode_offset_less [of no] by simp

section \<open>Locking\<close>

lemma iunlock_exec:
  assumes "i_flags (inodes s ! k) AND I_LOCK \<noteq> 0" and "k < length (inodes s)"
  shows "\<exists>t. iunlock k s = Ok () t \<and> bio_frame (upd_inode k (clear_iflags (I_WANTED OR I_LOCK)) s) t
    \<and> bcache t = bcache s \<and> sectors t = sectors s \<and> wd_devsw t = wd_devsw s
    \<and> bfree_next t = bfree_next s \<and> bfree_prev t = bfree_prev s"
proof -
  let ?u = "if i_flags (inodes s ! k) AND I_WANTED \<noteq> 0 then wakeup_state (WInode k) s else s"
  have "iunlock k s = Ok () (upd_inode k (clear_iflags (I_WANTED OR I_LOCK)) ?u)"
    using assms by (simp add: iunlock_def kern_simps wakeup_def)
  moreover have "bio_frame s ?u" by simp
  ultimately show ?thesis using bio_frame_inode [of s ?u] by (auto simp: wakeup_state_def)
qed

section \<open>Writing back and loading\<close>

lemma bio_frame_sym_inode: "bio_frame s t \<Longrightarrow> k < length (inodes s) \<Longrightarrow> k < length (inodes t)"
  by (simp add: bio_frame_inodes)

lemma iupdate_clean: "i_flags (inodes s ! k) AND I_DIRTY = 0 \<Longrightarrow> iupdate k s = Ok () s"
  by (simp add: iupdate_def kern_simps)

lemma iupdate_spec:
  assumes idle: "bio_idle dv s" and k: "k < length (inodes s)" and i: "inodes s ! k = i" "i_dev i = dv"
    and dirty: "i_flags i AND I_DIRTY \<noteq> 0" and ok: "block_ok (inode_block (super s) (i_inodeno i))"
    and z: "length (i_direct i) = NDIRECT"
  shows "\<exists>t. iupdate k s = Ok () t \<and> bio_idle dv t \<and> bio_frame (upd_inode k (clear_iflags I_DIRTY) s) t
    \<and> (\<forall>m. block_ok m \<longrightarrow> disk_block dv t m = (if m = inode_block (super s) (i_inodeno i)
         then overwrite (disk_block dv s m) (DINODE_SIZE * unat (inode_offset (i_inodeno i))) (dinode_bytes (disk_of_inode i))
         else disk_block dv s m))"
proof -
  let ?n = "inode_block (super s) (i_inodeno i)" and ?off = "DINODE_SIZE * unat (inode_offset (i_inodeno i))"
  obtain b t L where t: "bread dv ?n s = Ok b t" "bio_inv dv t L" "insert b (set L) = {..<NBUF}"
    "fresh_hold dv t b ?n (disk_block dv s ?n)" "bio_frame s t" "disk_block dv t = disk_block dv s"
    using bio_idle_bread [OF idle ok] by metis
  define data where "data = overwrite (disk_block dv s ?n) ?off (dinode_bytes (disk_of_inode i))"
  define u where "u = upd_inode k (clear_iflags I_DIRTY) t"
  have dt: "b_data (bcache t ! b) = disk_block dv s ?n" using t(4) by (simp add: fresh_hold_def)
  have len: "length data = BLOCK_SIZE"
    using inode_slot_bound [of "i_inodeno i"] z
    by (simp add: data_def length_dinode_bytes disk_of_inode_def length_disk_block_idle [OF idle])
  have it: "inodes t ! k = i" using i bio_frame_inodes [OF t(5)] by simp
  have upd: "upd_inode k (clear_iflags I_DIRTY) (upd_buf b (\<lambda>x. x\<lparr>b_data := overwrite (b_data x) ?off (dinode_bytes (disk_of_inode i))\<rparr>) t)
      = upd_buf b (\<lambda>x. x\<lparr>b_data := data\<rparr>) u"
    unfolding u_def by (simp add: upd_inode_upd_buf) (simp add: upd_buf_def upd_inode_def data_def dt)
  have bu: "bio_inv dv u L" "fresh_hold dv u b ?n (disk_block dv s ?n)" using t(2,4) by (simp_all add: u_def)
  obtain w where w: "thenK (modifyK (upd_buf b (\<lambda>x. x\<lparr>b_data := data\<rparr>))) (thenK (bwrite b) (brelse b)) u = Ok () w"
    "bio_idle dv w" "bio_frame u w"
    "\<And>m. block_ok m \<Longrightarrow> disk_block dv w m = (if m = ?n then data else disk_block dv u m)"
    using hold_store [OF bu(1) t(3) bu(2) len] by metis
  have "iupdate k s = thenK (bwrite b) (brelse b) (upd_buf b (\<lambda>x. x\<lparr>b_data := data\<rparr>) u)"
    using i dirty t(1) it by (simp add: iupdate_def kern_simps bindK_Ok upd)
  then have "iupdate k s = Ok () w" using w(1) by (simp add: kern_simps)
  moreover have "bio_frame (upd_inode k (clear_iflags I_DIRTY) s) w"
    using bio_frame_trans [OF bio_frame_inode [OF t(5)]] w(3) by (simp add: u_def)
  ultimately show ?thesis using w(2,4) t(6) by (auto simp: data_def u_def)
qed

text \<open>A cached inode is returned with one more reference.\<close>

lemma iget_hit:
  assumes k: "first_index (\<lambda>i. i_dev i = dv \<and> i_inodeno i = no) (inodes s) = Some k"
    and free: "i_flags (inodes s ! k) AND I_LOCK = 0"
  shows "\<exists>t. iget dv no s = Ok k t
    \<and> bio_frame (upd_inode k (\<lambda>i. (clear_iflags (I_WANTED OR I_LOCK) i)\<lparr>i_refcount := i_refcount i + 1\<rparr>) s) t
    \<and> bcache t = bcache s \<and> sectors t = sectors s \<and> wd_devsw t = wd_devsw s
    \<and> bfree_next t = bfree_next s \<and> bfree_prev t = bfree_prev s"
proof -
  have kl: "k < length (inodes s)" using first_index_SomeD(1) [OF k] .
  define u where "u = upd_inode k (\<lambda>i. (set_iflags I_LOCK i)\<lparr>i_refcount := i_refcount i + 1\<rparr>) s"
  have "bit (i_flags (inodes u ! k) AND I_LOCK) 0"
    using kl by (simp add: u_def set_iflags_def bit_simps)
  then have "i_flags (inodes u ! k) AND I_LOCK \<noteq> 0" by auto
  moreover have "k < length (inodes u)" using kl by (simp add: u_def)
  ultimately obtain t where t: "iunlock k u = Ok () t" "bio_frame (upd_inode k (clear_iflags (I_WANTED OR I_LOCK)) u) t"
    "bcache t = bcache u" "sectors t = sectors u" "wd_devsw t = wd_devsw u"
    "bfree_next t = bfree_next u" "bfree_prev t = bfree_prev u" using iunlock_exec [of u k] by blast
  have "upd_inode k (clear_iflags (I_WANTED OR I_LOCK)) u
      = upd_inode k (\<lambda>i. (clear_iflags (I_WANTED OR I_LOCK) i)\<lparr>i_refcount := i_refcount i + 1\<rparr>) s"
  proof -
    have "(x OR 1) AND NOT 3 = x AND NOT (3 :: u32)" for x by (rule bit_word_eqI) (auto simp: bit_simps)
    then show ?thesis
      using kl by (cases "inodes s ! k") (simp add: u_def upd_inode_def clear_iflags_def set_iflags_def)
  qed
  moreover have "iget dv no s = Ok k t"
    using k free t(1) unfolding u_def by (simp add: iget_def kern_simps thenK_Ok)
  ultimately show ?thesis using t by (auto simp: u_def)
qed

text \<open>An inode that is not cached is loaded from the disk into the first unused entry.\<close>

lemma iget_miss:
  assumes idle: "bio_idle dv s" and none: "first_index (\<lambda>i. i_dev i = dv \<and> i_inodeno i = no) (inodes s) = None"
    and k: "first_index (\<lambda>i. i_refcount i = 0 \<and> i_flags i AND I_DIRTY = 0) (inodes s) = Some k"
    and ok: "block_ok (inode_block (super s) no)"
  shows "\<exists>t. iget dv no s = Ok k t \<and> bio_idle dv t \<and> (\<forall>m. block_ok m \<longrightarrow> disk_block dv t m = disk_block dv s m)
    \<and> bio_frame (upd_inode k (\<lambda>i. (inode_of_disk (disk_inode dv s no) i)
         \<lparr>i_dev := dv, i_inodeno := no, i_refcount := 1, i_flags := 0\<rparr>) s) t"
proof -
  let ?n = "inode_block (super s) no"
  have kl: "k < length (inodes s)" using first_index_SomeD(1) [OF k] .
  define s1 where "s1 = upd_inode k (\<lambda>i. i\<lparr>i_dev := dv, i_inodeno := no, i_refcount := 1, i_flags := I_LOCK\<rparr>) s"
  have idle1: "bio_idle dv s1" "super s1 = super s" "disk_block dv s1 = disk_block dv s"
    using idle by (simp_all add: s1_def)
  obtain b t L where t: "bread dv ?n s1 = Ok b t" "bio_inv dv t L" "insert b (set L) = {..<NBUF}"
    "fresh_hold dv t b ?n (disk_block dv s1 ?n)" "bio_frame s1 t" "disk_block dv t = disk_block dv s1"
    using bio_idle_bread [OF idle1(1) ok] by metis
  define f where "f = inode_of_disk (disk_inode dv s no)"
  define u where "u = upd_inode k f t"
  have dt: "b_data (bcache t ! b) = disk_block dv s ?n" using t(4) idle1 by (simp add: fresh_hold_def)
  have hold: "caches dv u b ?n" "b_ref_count (bcache u ! b) = 1" "b_data (bcache u ! b) = disk_block dv u ?n"
    using t(4,6) dt idle1 by (simp_all add: u_def fresh_hold_def)
  have iu: "bio_inv dv u L" using t(2) by (simp add: u_def)
  obtain v where v: "brelse b u = Ok () v" "bio_idle dv v" "bio_frame u v"
    "\<And>m. block_ok m \<Longrightarrow> disk_block dv v m = (if m = ?n then b_data (bcache u ! b) else disk_block dv u m)"
    using bio_idle_brelse [OF iu t(3) hold(1,2)] hold(3) by blast
  have iv: "inodes v = (inodes s)[k := f ((inodes s ! k)\<lparr>i_dev := dv, i_inodeno := no, i_refcount := 1, i_flags := I_LOCK\<rparr>)]"
    using bio_frame_inodes [OF t(5)] bio_frame_inodes [OF v(3)] kl by (simp add: u_def s1_def)
  have "i_flags (inodes v ! k) AND I_LOCK \<noteq> 0" using kl by (simp add: iv f_def inode_of_disk_def)
  moreover have "k < length (inodes v)" using kl by (simp add: iv)
  ultimately obtain w where w: "iunlock k v = Ok () w" "bio_frame (upd_inode k (clear_iflags (I_WANTED OR I_LOCK)) v) w"
    "bcache w = bcache v" "sectors w = sectors v" "wd_devsw w = wd_devsw v"
    "bfree_next w = bfree_next v" "bfree_prev w = bfree_prev v" using iunlock_exec [of v k] by blast
  have run: "iget dv no s = Ok k w"
    using none k t(1) v(1) w(1) dt idle1(2) unfolding s1_def
    by (simp add: iget_def kern_simps bindK_Ok thenK_Ok u_def f_def disk_inode_def)
  let ?c = "clear_iflags (I_WANTED OR I_LOCK)"
  have "bio_frame (upd_inode k ?c (upd_inode k f s1)) w"
    using bio_frame_trans [OF bio_frame_inode [OF bio_frame_trans [OF bio_frame_inode [OF t(5)]]] w(2)] v(3) u_def by blast
  moreover have "upd_inode k ?c (upd_inode k f s1) = upd_inode k (\<lambda>i. (f i)
       \<lparr>i_dev := dv, i_inodeno := no, i_refcount := 1, i_flags := 0\<rparr>) s"
    using kl by (cases "inodes s ! k") (simp add: s1_def upd_inode_def clear_iflags_def f_def inode_of_disk_def)
  ultimately have fr: "bio_frame (upd_inode k (\<lambda>i. (f i)\<lparr>i_dev := dv, i_inodeno := no, i_refcount := 1, i_flags := 0\<rparr>) s) w"
    by simp
  have "bio_idle dv w = bio_idle dv v" and "disk_block dv w = disk_block dv v"
    using bio_same_cache [OF w(3-7)] by simp_all
  then show ?thesis
    using run fr v(2,4) hold(3) t(6) idle1(3) by (auto simp: f_def u_def)
qed

section \<open>Properties\<close>

lemma inode_position_inj:
  assumes "inode_block sb a = inode_block sb b" and "inode_offset a = inode_offset b"
  shows "a = b"
proof -
  have "(a - 1) div of_nat INODES_PER_BLOCK = (b - 1) div of_nat INODES_PER_BLOCK"
    using assms(1) by (simp add: inode_block_def)
  moreover have "(a - 1) mod of_nat INODES_PER_BLOCK = (b - 1) mod of_nat INODES_PER_BLOCK"
    using assms(2) by (simp add: inode_offset_def)
  ultimately have "a - 1 = b - 1" by (metis div_mult_mod_eq)
  then show ?thesis by simp
qed

lemma iupdate_disk_inode:
  assumes "bio_idle dv s" and "length (i_direct i) = NDIRECT" and "super t = super s" and "block_ok (inode_block (super s) m)"
    and "\<And>n. block_ok n \<Longrightarrow> disk_block dv t n = (if n = inode_block (super s) no
         then overwrite (disk_block dv s n) (DINODE_SIZE * unat (inode_offset no)) (dinode_bytes (disk_of_inode i))
         else disk_block dv s n)"
  shows "disk_inode dv t m = (if m = no then disk_of_inode i else disk_inode dv s m)"
proof (cases "inode_block (super s) m = inode_block (super s) no")
  case False
  then show ?thesis using assms(3,4,5) by (auto simp: disk_inode_def)
next
  case True
  let ?d = "disk_block dv s (inode_block (super s) no)"
  have len: "length ?d = BLOCK_SIZE" by (rule length_disk_block_idle [OF assms(1)])
  have z: "length (di_zone (disk_of_inode i)) = NDIRECT" using assms(2) by (simp add: disk_of_inode_def)
  have eq: "disk_inode dv t m = dinode_at (overwrite ?d (DINODE_SIZE * unat (inode_offset no)) (dinode_bytes (disk_of_inode i)))
      (DINODE_SIZE * unat (inode_offset m))"
    using assms(3) assms(5) [OF assms(4)] True by (simp add: disk_inode_def)
  show ?thesis
  proof (cases "m = no")
    case same: True
    then show ?thesis
      using dinode_at_overwrite [OF z, of "DINODE_SIZE * unat (inode_offset no)" ?d] inode_slot_bound [of no] len eq by simp
  next
    case False
    then have "inode_offset no \<noteq> inode_offset m" using True inode_position_inj by metis
    then have "unat (inode_offset no) \<noteq> unat (inode_offset m)" using unsigned_word_eqI by blast
    then show ?thesis
      using dinode_at_overwrite_other [OF z, of "unat (inode_offset no)" ?d "unat (inode_offset m)"]
        inode_slot_bound [of no] inode_slot_bound [of m] len eq False True by (simp add: disk_inode_def)
  qed
qed

text \<open>
  C6: an inode that is written back and loaded again is the same inode.  \<open>iupdate\<close> of a dirty inode
  stores it at its place on the disk and changes no other inode there; when the cache has meanwhile
  dropped it, \<open>iget\<close> loads it with the mode, owner, size, times and block numbers it had.
\<close>

theorem inode_write_back:
  assumes "bio_idle dv s" and "k < length (inodes s)" and "inodes s ! k = i" and "i_dev i = dv"
    and "i_flags i AND I_DIRTY \<noteq> 0" and "inode_fits i" and "block_ok (inode_block (super s) (i_inodeno i))"
  shows "\<exists>t. iupdate k s = Ok () t
    \<and> (\<forall>m. m \<noteq> i_inodeno i \<longrightarrow> block_ok (inode_block (super s) m) \<longrightarrow> disk_inode dv t m = disk_inode dv s m)
    \<and> (\<forall>tab j. (\<forall>x\<in>set tab. \<not> (i_dev x = dv \<and> i_inodeno x = i_inodeno i))
         \<longrightarrow> first_index (\<lambda>x. i_refcount x = 0 \<and> i_flags x AND I_DIRTY = 0) tab = Some j
         \<longrightarrow> (\<exists>u. iget dv (i_inodeno i) (t\<lparr>inodes := tab\<rparr>) = Ok j u
               \<and> inodes u ! j = i\<lparr>i_flags := 0, i_refcount := 1\<rparr>))"
proof -
  let ?no = "i_inodeno i"
  have z: "length (i_direct i) = NDIRECT" using assms(6) by (simp add: inode_fits_def)
  obtain t where t: "iupdate k s = Ok () t" "bio_idle dv t" "bio_frame (upd_inode k (clear_iflags I_DIRTY) s) t"
    "\<And>m. block_ok m \<Longrightarrow> disk_block dv t m = (if m = inode_block (super s) ?no
         then overwrite (disk_block dv s m) (DINODE_SIZE * unat (inode_offset ?no)) (dinode_bytes (disk_of_inode i))
         else disk_block dv s m)"
    using iupdate_spec [OF assms(1-5,7) z] by auto
  have sup: "super t = super s" using bio_frame_super [OF t(3)] by simp
  have di: "disk_inode dv t m = (if m = ?no then disk_of_inode i else disk_inode dv s m)"
    if "block_ok (inode_block (super s) m)" for m
    by (rule iupdate_disk_inode [OF assms(1) z sup that t(4)])
  have "\<exists>u. iget dv ?no (t\<lparr>inodes := tab\<rparr>) = Ok j u \<and> inodes u ! j = i\<lparr>i_flags := 0, i_refcount := 1\<rparr>"
    if tab: "\<forall>x\<in>set tab. \<not> (i_dev x = dv \<and> i_inodeno x = ?no)"
      "first_index (\<lambda>x. i_refcount x = 0 \<and> i_flags x AND I_DIRTY = 0) tab = Some j" for tab j
  proof -
    let ?t = "t\<lparr>inodes := tab\<rparr>"
    have c: "disk_block dv ?t = disk_block dv t" "bio_idle dv ?t" "super ?t = super s"
      using bio_same_cache [of ?t t dv] t(2) sup by simp_all
    have miss: "first_index (\<lambda>i. i_dev i = dv \<and> i_inodeno i = ?no) (inodes ?t) = None"
      using tab(1) by (simp add: first_index_None)
    have free: "first_index (\<lambda>i. i_refcount i = 0 \<and> i_flags i AND I_DIRTY = 0) (inodes ?t) = Some j" using tab(2) by simp
    have "disk_inode dv ?t ?no = disk_of_inode i"
      using di [OF assms(7)] c(1) sup by (simp add: disk_inode_def)
    moreover have "j < length tab" using first_index_SomeD(1) [OF tab(2)] .
    moreover obtain u where "iget dv ?no ?t = Ok j u"
      "bio_frame (upd_inode j (\<lambda>i. (inode_of_disk (disk_inode dv ?t ?no) i)
         \<lparr>i_dev := dv, i_inodeno := ?no, i_refcount := 1, i_flags := 0\<rparr>) ?t) u"
      using iget_miss [OF c(2) miss free] assms(7) c(3) by auto
    ultimately show ?thesis
      using bio_frame_inodes inode_of_disk_of_inode [OF assms(6)] assms(4)
      by (intro exI [of _ u]) (cases i, simp)
  qed
  with t(1) di show ?thesis by (intro exI [of _ t]) auto
qed

text \<open>The small disk of the zone map with an empty inode cache.\<close>

lemma mini_disk_idle:
  obtains s where "buf_init mini_disk = Ok () s" "bio_idle ROOT_DEV s" "super s = mini_super"
    "inodes s = replicate NUM_INODES zero_inode"
proof -
  have "bio_boot ROOT_DEV mini_disk"
    using bio_boot_one_disk by (simp add: bio_boot_def mini_disk_def dev_ok_def)
  from buf_init_inv [OF this] obtain s where s: "buf_init mini_disk = Ok () s" "bio_inv ROOT_DEV s [0..<NBUF]"
    "bio_frame mini_disk s" by auto
  have "super s = mini_super" "inodes s = replicate NUM_INODES zero_inode"
    using s(3) by (simp_all add: bio_frame_def mini_disk_def one_disk_def bss_state_def)
  with s(1) bio_inv_idle [OF s(2)] show thesis using that by blast
qed

theorem inode_write_back_witness:
  "\<exists>s t u. i_size (inodes s ! 3) = 77 \<and> iupdate 3 s = Ok () t
     \<and> iget ROOT_DEV 9 (t\<lparr>inodes := replicate NUM_INODES zero_inode\<rparr>) = Ok 0 u \<and> i_size (inodes u ! 0) = 77"
proof -
  obtain s where s: "bio_idle ROOT_DEV s" "super s = mini_super" "inodes s = replicate NUM_INODES zero_inode"
    by (rule mini_disk_idle)
  define i where "i = zero_inode\<lparr>i_dev := ROOT_DEV, i_inodeno := 9, i_flags := I_DIRTY, i_size := 77\<rparr>"
  have no: "i_inodeno i = 9" by (simp add: i_def)
  have "inode_fits i" by (simp add: i_def inode_fits_def zero_inode_def to_long_def)
  moreover have ok: "block_ok (inode_block mini_super (i_inodeno i))"
    by (simp add: no inode_block_def mini_super_def block_ok_def unat_div)
  ultimately obtain t where t: "iupdate 3 (upd_inode 3 (\<lambda>_. i) s) = Ok () t"
    "\<And>tab j. (\<forall>x\<in>set tab. \<not> (i_dev x = ROOT_DEV \<and> i_inodeno x = i_inodeno i)) \<Longrightarrow>
         first_index (\<lambda>x. i_refcount x = 0 \<and> i_flags x AND I_DIRTY = 0) tab = Some j \<Longrightarrow>
         \<exists>u. iget ROOT_DEV (i_inodeno i) (t\<lparr>inodes := tab\<rparr>) = Ok j u
           \<and> inodes u ! j = i\<lparr>i_flags := 0, i_refcount := 1\<rparr>"
    using inode_write_back [of ROOT_DEV "upd_inode 3 (\<lambda>_. i) s" 3 i] s by (auto simp: i_def)
  have "first_index (\<lambda>x. i_refcount x = 0 \<and> i_flags x AND I_DIRTY = 0) (replicate NUM_INODES zero_inode) = Some 0"
    by (simp add: zero_inode_def)
  from t(2) [OF _ this] obtain u where
    "iget ROOT_DEV 9 (t\<lparr>inodes := replicate NUM_INODES zero_inode\<rparr>) = Ok 0 u"
    "inodes u ! 0 = i\<lparr>i_flags := 0, i_refcount := 1\<rparr>"
    by (auto simp: no zero_inode_def)
  moreover have "i_size (inodes (upd_inode 3 (\<lambda>_. i) s) ! 3) = 77" using s(3) by (simp add: i_def)
  ultimately show ?thesis
    using t(1) by (intro exI [of _ "upd_inode 3 (\<lambda>_. i) s"] exI [of _ t] exI [of _ u]) (simp add: i_def)
qed

text \<open>
  What the permission check grants.  A user other than root is let through when any one of the
  requested bits is set for any of the classes the user belongs to.  So a request for reading
  and writing is granted on a file that its mode lets nobody write to, although the request for
  writing alone is refused.
\<close>

theorem access_any_bit:
  assumes "cur_proc s = Some p" and "p_uid (procs s ! p) \<noteq> 0"
    and "i_mode (inodes s ! k) AND IREAD \<noteq> 0"
    and "i_mode (inodes s ! k) AND (push_bit 6 IWRITE OR push_bit 3 IWRITE OR IWRITE) = 0"
  shows "access (Some k) (IREAD OR IWRITE) s = Ok 0 s \<and> access (Some k) IWRITE s = Ok (-1) s"
proof -
  let ?m = "i_mode (inodes s ! k)"
  have bits: "bit ?m 2" "\<not> bit ?m 7" "\<not> bit ?m 4" "\<not> bit ?m 1"
  proof -
    have "bit (?m AND IREAD) 2" if "?m AND IREAD \<noteq> 0"
      using that by (auto simp: and_mask1_eq_0 [of ?m 2, unfolded mask1_def, simplified] bit_simps)
    then show "bit ?m 2" using assms(3) by (simp add: bit_and_iff)
    have "bit (?m AND (push_bit 6 IWRITE OR push_bit 3 IWRITE OR IWRITE)) j = (bit ?m j \<and> bit (0x92::u16) j)" for j
      by (simp add: bit_and_iff)
    then have "\<not> (bit ?m j \<and> bit (0x92::u16) j)" for j using assms(4) by (metis bit_0_eq bot_apply bot_bool_def)
    from this [of 7] this [of 4] this [of 1] show "\<not> bit ?m 7" "\<not> bit ?m 4" "\<not> bit ?m 1" by simp_all
  qed
  have rw: "?m AND (IREAD OR IWRITE) \<noteq> 0"
  proof
    assume "?m AND (IREAD OR IWRITE) = 0"
    then have "\<not> bit (?m AND (IREAD OR IWRITE)) 2" by simp
    then show False using bits(1) by (simp add: bit_and_iff)
  qed
  have "access (Some k) (IREAD OR IWRITE) s = Ok 0 s"
    using assms(1,2) rw by (simp add: access_def kern_simps)
  moreover have "?m AND push_bit 6 IWRITE = 0" "?m AND push_bit 3 IWRITE = 0" "?m AND IWRITE = 0"
    using bits and_mask1_eq_0 [of ?m 7] and_mask1_eq_0 [of ?m 4] and_mask1_eq_0 [of ?m 1] by (simp_all add: mask1_def)
  then have "access (Some k) IWRITE s = Ok (-1) s"
    using assms(1,2) by (simp add: access_def kern_simps)
  ultimately show ?thesis by blast
qed

theorem access_any_bit_witness:
  "access (Some 0) (IREAD OR IWRITE) (upd_proc 1 (\<lambda>p. p\<lparr>p_uid := 100\<rparr>)
     (two_procs\<lparr>cur_proc := Some 1, inodes := [zero_inode\<lparr>i_mode := 0x124\<rparr>]\<rparr>))
   = Ok 0 (upd_proc 1 (\<lambda>p. p\<lparr>p_uid := 100\<rparr>) (two_procs\<lparr>cur_proc := Some 1, inodes := [zero_inode\<lparr>i_mode := 0x124\<rparr>]\<rparr>))"
  by (rule access_any_bit [where p = 1, THEN conjunct1]) (simp_all add: upd_proc_def two_procs_def bss_state_def)

end
