(* ===== verification/Fifo.thy ===== *)
theory Fifo
  imports Kmonad
begin

text \<open>
  Contracts of byte queues.  \<open>bounded_fifo\<close> is a queue that refuses an element when it is full, as
  the pipe does; \<open>lossy_ring\<close> is a ring of 256 places with 8-bit indices that drops its oldest element
  instead, as the input buffers of the terminals do.
\<close>

section \<open>A bounded queue\<close>

locale bounded_fifo =
  fixes inv :: "'q \<Rightarrow> bool"
    and contents :: "'q \<Rightarrow> 'a list"
    and cap :: nat
    and put :: "'a \<Rightarrow> 'q \<Rightarrow> 'q option"
    and get :: "'q \<Rightarrow> ('a \<times> 'q) option"
  assumes bound: "inv q \<Longrightarrow> length (contents q) \<le> cap"
    and put_room: "inv q \<Longrightarrow> length (contents q) < cap \<Longrightarrow>
      \<exists>r. put x q = Some r \<and> inv r \<and> contents r = contents q @ [x]"
    and put_full: "inv q \<Longrightarrow> length (contents q) = cap \<Longrightarrow> put x q = None"
    and get_cons: "inv q \<Longrightarrow> contents q = x # xs \<Longrightarrow> \<exists>r. get q = Some (x, r) \<and> inv r \<and> contents r = xs"
    and get_empty: "inv q \<Longrightarrow> contents q = [] \<Longrightarrow> get q = None"
begin

text \<open>Putting as much of a list as fits, and getting up to \<open>n\<close> elements.\<close>

fun put_list :: "'a list \<Rightarrow> 'q \<Rightarrow> 'a list \<times> 'q" where
  "put_list [] q = ([], q)"
| "put_list (x # xs) q = (case put x q of None \<Rightarrow> (x # xs, q) | Some r \<Rightarrow> put_list xs r)"

fun get_list :: "nat \<Rightarrow> 'q \<Rightarrow> 'a list \<times> 'q" where
  "get_list 0 q = ([], q)"
| "get_list (Suc n) q =
     (case get q of None \<Rightarrow> ([], q) | Some (x, r) \<Rightarrow> (let (xs, r') = get_list n r in (x # xs, r')))"

lemma put_list_spec:
  assumes "inv q"
  shows "inv (snd (put_list xs q))
    \<and> contents (snd (put_list xs q)) = contents q @ take (cap - length (contents q)) xs
    \<and> fst (put_list xs q) = drop (cap - length (contents q)) xs"
  using assms
proof (induction xs arbitrary: q)
  case Nil
  then show ?case by simp
next
  case (Cons x xs)
  show ?case
  proof (cases "length (contents q) < cap")
    case True
    then obtain r where r: "put x q = Some r" "inv r" "contents r = contents q @ [x]"
      using put_room [OF Cons.prems] by blast
    have "cap - length (contents q) = Suc (cap - length (contents r))" using True r(3) by simp
    then show ?thesis using r Cons.IH [OF r(2)] by simp
  next
    case False
    then have "length (contents q) = cap" using bound [OF Cons.prems] by simp
    then show ?thesis using put_full [OF Cons.prems] Cons.prems by simp
  qed
qed

lemma get_list_spec:
  assumes "inv q"
  shows "inv (snd (get_list n q)) \<and> fst (get_list n q) = take n (contents q)
    \<and> contents (snd (get_list n q)) = drop n (contents q)"
  using assms
proof (induction n arbitrary: q)
  case 0
  then show ?case by simp
next
  case (Suc n)
  show ?case
  proof (cases "contents q")
    case Nil
    then show ?thesis using get_empty [OF Suc.prems] Suc.prems by simp
  next
    case (Cons x xs)
    then obtain r where r: "get q = Some (x, r)" "inv r" "contents r = xs" using get_cons [OF Suc.prems] by blast
    then show ?thesis using Suc.IH [OF r(2)] Cons by (auto simp: Let_def split: prod.split)
  qed
qed

end

section \<open>A ring that overwrites\<close>

text \<open>\<open>lastn k xs\<close>: the last \<open>k\<close> elements of \<open>xs\<close>.\<close>

definition lastn :: "nat \<Rightarrow> 'a list \<Rightarrow> 'a list" where
  "lastn k xs = drop (length xs - k) xs"

lemma lastn_short: "length xs \<le> k \<Longrightarrow> lastn k xs = xs"
  by (simp add: lastn_def)

lemma length_lastn [simp]: "length (lastn k xs) = min k (length xs)"
  by (simp add: lastn_def min_def)

lemma lastn_snoc_full: "0 < k \<Longrightarrow> lastn k (lastn k xs @ [x]) = lastn k (xs @ [x])"
  by (cases "length xs \<le> k") (auto simp: lastn_def Suc_diff_le)

locale lossy_ring =
  fixes inv :: "'q \<Rightarrow> bool"
    and contents :: "'q \<Rightarrow> 'a list"
    and cap :: nat
    and push :: "'a \<Rightarrow> 'q \<Rightarrow> 'q"
    and pop :: "'q \<Rightarrow> ('a \<times> 'q) option"
  assumes cap_pos: "0 < cap"
    and bound: "inv q \<Longrightarrow> length (contents q) \<le> cap"
    and push_law: "inv q \<Longrightarrow> inv (push x q) \<and> contents (push x q) = lastn cap (contents q @ [x])"
    and pop_cons: "inv q \<Longrightarrow> contents q = x # xs \<Longrightarrow> \<exists>r. pop q = Some (x, r) \<and> inv r \<and> contents r = xs"
    and pop_empty: "inv q \<Longrightarrow> contents q = [] \<Longrightarrow> pop q = None"
begin

lemma push_list:
  assumes "inv q"
  shows "inv (fold push xs q) \<and> contents (fold push xs q) = lastn cap (contents q @ xs)"
proof (induction xs rule: rev_induct)
  case Nil
  then show ?case using assms bound by (simp add: lastn_short)
next
  case (snoc x xs)
  then show ?case
    using push_law [of "fold push xs q" x] lastn_snoc_full [OF cap_pos, of "contents q @ xs" x] by simp
qed

end

end
