(* ===== verification/Rxring.thy ===== *)
theory Rxring
  imports Proctab Fifo
begin

text \<open>
  The input rings of the kernel: 256 bytes with a head and a tail of 8 bits, so that the
  indices wrap by themselves, and the oldest byte is dropped when the head runs into the
  tail.  The keyboard (\<open>sys/i386/kb.c\<close>), the serial ports (\<open>sys/i386/uart.c\<close>) and the
  terminals (\<open>sys/kern/tty.c\<close>) each have one; the facts are proved once, for a triple of buffer, head and tail.
\<close>

type_synonym ring8 = "bytes \<times> u8 \<times> u8"

definition ring_push :: "u8 \<Rightarrow> ring8 \<Rightarrow> ring8" where
  "ring_push c q = (case q of (buf, head, tail) \<Rightarrow>
     (buf[unat head := c], head + 1, if head + 1 = tail then tail + 1 else tail))"

definition ring_pop :: "ring8 \<Rightarrow> (u8 \<times> ring8) option" where
  "ring_pop q = (case q of (buf, head, tail) \<Rightarrow>
     if head = tail then None else Some (buf ! unat tail, (buf, head, tail + 1)))"

definition ring_inv :: "ring8 \<Rightarrow> bool" where
  "ring_inv q = (case q of (buf, head, tail) \<Rightarrow> length buf = 256)"

definition ring_contents :: "ring8 \<Rightarrow> bytes" where
  "ring_contents q = (case q of (buf, head, tail) \<Rightarrow>
     map (\<lambda>k. buf ! unat (tail + of_nat k)) [0..<unat (head - tail)])"

lemma u8_less: "unat (x::u8) < 256"
  using unsigned_less [of x, where ?'a = nat] by simp

lemma u8_of_nat_inj: "k < 256 \<Longrightarrow> j < 256 \<Longrightarrow> (of_nat k :: u8) = of_nat j \<Longrightarrow> k = j"
proof -
  assume k: "k < 256" and j: "j < 256" and eq: "(of_nat k :: u8) = of_nat j"
  have "unat (of_nat k :: u8) = k" by (rule unat_of_nat_small) (use k in simp)
  moreover have "unat (of_nat j :: u8) = j" by (rule unat_of_nat_small) (use j in simp)
  ultimately show ?thesis using eq by metis
qed

lemma length_ring_contents: "length (ring_contents (buf, h, t)) = unat (h - t)"
  by (simp add: ring_contents_def)

lemma ring_pop_contents:
  assumes "ring_inv q"
  shows "ring_pop q = (case ring_contents q of [] \<Rightarrow> None
    | x # xs \<Rightarrow> Some (x, (fst q, fst (snd q), snd (snd q) + 1)))"
    and "ring_contents q = x # xs \<Longrightarrow> ring_contents (fst q, fst (snd q), snd (snd q) + 1) = xs"
proof -
  obtain buf h t where q: "q = (buf, h, t)" by (cases q) auto
  show "ring_pop q = (case ring_contents q of [] \<Rightarrow> None
    | x # xs \<Rightarrow> Some (x, (fst q, fst (snd q), snd (snd q) + 1)))"
  proof (cases "h = t")
    case True
    then show ?thesis by (simp add: q ring_pop_def ring_contents_def)
  next
    case False
    then obtain n where "unat (h - t) = Suc n" by (metis not0_implies_Suc right_minus_eq unat_eq_0)
    then show ?thesis
      using False by (simp add: q ring_pop_def ring_contents_def upt_conv_Cons del: upt_Suc)
  qed
  assume c: "ring_contents q = x # xs"
  then have n: "unat (h - t) = Suc (length xs)" using arg_cong [OF c, of length] unfolding q length_ring_contents by simp
  have "h - (t + 1) = (h - t) - 1" by (simp add: algebra_simps)
  moreover have "unat ((h - t) - 1) = unat (h - t) - unat (1::u8)"
    by (rule unat_sub) (use n in \<open>simp add: word_le_nat_alt\<close>)
  ultimately have n': "unat (h - (t + 1)) = length xs" using n by (metis diff_Suc_1 unat_1)
  have "xs = map (\<lambda>k. buf ! unat (t + of_nat (Suc k))) [0..<length xs]"
    using c n by (auto simp: q ring_contents_def upt_conv_Cons map_Suc_upt [symmetric] comp_def
        simp del: upt_Suc map_Suc_upt of_nat_Suc)
  then show "ring_contents (fst q, fst (snd q), snd (snd q) + 1) = xs"
    by (simp add: q ring_contents_def n' add.assoc)
qed

lemma ring_push_contents:
  assumes "ring_inv q"
  shows "ring_inv (ring_push c q) \<and> ring_contents (ring_push c q) = lastn 255 (ring_contents q @ [c])"
proof -
  obtain buf h t where q: "q = (buf, h, t)" by (cases q) auto
  have len: "length buf = 256" using assms by (simp add: q ring_inv_def)
  define n where "n = unat (h - t)"
  have h: "h = t + of_nat n" by (simp add: n_def)
  have n: "n < 256" using u8_less by (simp add: n_def)
  have old: "buf[unat h := c] ! unat (t + of_nat k) = buf ! unat (t + of_nat k)" if "k < n" for k
  proof -
    have "h \<noteq> t + of_nat k" using u8_of_nat_inj [of k n] that n by (auto simp: h)
    then have "unat h \<noteq> unat (t + of_nat k)" using unsigned_word_eqI by blast
    then show ?thesis by simp
  qed
  have new: "buf[unat h := c] ! unat (t + of_nat n) = c" using len u8_less by (simp add: h [symmetric])
  have ext: "map (\<lambda>k. buf[unat h := c] ! unat (t + of_nat k)) [0..<Suc n] = ring_contents q @ [c]"
    using old new by (simp add: q ring_contents_def n_def [symmetric])
  have lc: "length (ring_contents q) = n" by (simp add: q ring_contents_def n_def)
  show ?thesis
  proof (cases "h + 1 = t")
    case True
    then have "h - t = - 1" by (metis add_diff_cancel_left' add_diff_cancel_right' cancel_ab_semigroup_add_class.diff_right_commute diff_0 diff_self)
    moreover have "(- 1 :: u8) = 255" by simp
    ultimately have "n = unat (255::u8)" unfolding n_def by metis
    then have "n = 255" by simp
    then have cnt: "unat (h + 1 - (t + 1)) = 255" by (simp add: n_def)
    have "ring_contents (ring_push c q) = map (\<lambda>k. buf[unat h := c] ! unat (t + of_nat (Suc k))) [0..<255]"
      using True cnt by (simp add: q ring_push_def ring_contents_def add.assoc)
    also have "\<dots> = tl (map (\<lambda>k. buf[unat h := c] ! unat (t + of_nat k)) [0..<Suc 255])"
      by (simp add: upt_conv_Cons map_Suc_upt [symmetric] comp_def del: upt_Suc map_Suc_upt of_nat_Suc)
    also have "\<dots> = lastn 255 (ring_contents q @ [c])"
      using ext lc \<open>n = 255\<close> by (cases "ring_contents q") (simp_all add: lastn_def drop_Suc)
    finally show ?thesis using len True by (simp add: q ring_push_def ring_inv_def)
  next
    case False
    have "n \<noteq> 255"
    proof
      assume "n = 255"
      then have "h + 1 = t + (255 + 1)" using h by (simp add: add.assoc)
      then show False using False by simp
    qed
    then have n1: "Suc n < 256" using n by simp
    have "h + 1 - t = of_nat (Suc n)" by (simp add: h)
    moreover have "unat (of_nat (Suc n) :: u8) = Suc n" by (rule unat_of_nat_small) (use n1 in simp)
    ultimately have cnt: "unat (h + 1 - t) = Suc n" by metis
    have "ring_contents (ring_push c q) = ring_contents q @ [c]"
      using False cnt ext by (simp add: q ring_push_def ring_contents_def del: upt_Suc)
    moreover have "lastn 255 (ring_contents q @ [c]) = ring_contents q @ [c]"
      using lc n1 by (intro lastn_short) simp
    ultimately show ?thesis using len by (simp add: q ring_push_def ring_inv_def)
  qed
qed

interpretation ring8: lossy_ring ring_inv ring_contents 255 ring_push ring_pop
proof
  show "length (ring_contents q) \<le> 255" if "ring_inv q" for q
  proof (cases q)
    case (fields buf h t)
    then show ?thesis using u8_less [of "h - t"] by (simp add: length_ring_contents)
  qed
next
  show "ring_inv (ring_push x q) \<and> ring_contents (ring_push x q) = lastn 255 (ring_contents q @ [x])"
    if "ring_inv q" for q x using ring_push_contents [OF that] .
next
  fix q x xs
  assume q: "ring_inv q" "ring_contents q = x # xs"
  then show "\<exists>r. ring_pop q = Some (x, r) \<and> ring_inv r \<and> ring_contents r = xs"
    using ring_pop_contents [OF q(1)] by (auto simp: ring_inv_def split: prod.splits)
next
  fix q
  assume "ring_inv q" "ring_contents q = []"
  then show "ring_pop q = None" using ring_pop_contents(1) by simp
qed simp

end
