(* ===== verification/Tty.thy ===== *)
theory Tty
  imports Rxring
begin

text \<open>
  Terminals: the line discipline and the input side of \<open>sys/kern/tty.c\<close>, and the keyboard and
  serial input of \<open>sys/i386/kb.c\<close> and \<open>sys/i386/uart.c\<close>, which feed it from their interrupts.
\<close>

section \<open>Terminals of the devices\<close>

abbreviation (input) ECHO :: u32 where "ECHO \<equiv> 8"
abbreviation (input) ICANON :: u32 where "ICANON \<equiv> 256"

text \<open>The \<open>tty\<close> column of \<open>cdevsw\<close> (\<open>sys/i386/conf.c\<close>): the first terminal of the devices
  \<open>null\<close>, \<open>console\<close>, \<open>zero\<close> and \<open>tty\<close>.\<close>

definition cdev_tty :: "nat option list" where
  "cdev_tty = [None, Some 0, None, Some 1]"

definition num_cdev :: nat where
  "num_cdev = length cdev_tty"

text \<open>\<open>&cdevsw[major(dev)].tty[minor(dev)]\<close>; an entry outside \<open>ttys\<close> is a fault.\<close>

definition with_tty :: "u16 \<Rightarrow> (nat \<Rightarrow> 'a kernel) \<Rightarrow> 'a kernel" where
  "with_tty dev k =
     (if unat (major dev) \<ge> num_cdev then faultK
      else (case cdev_tty ! unat (major dev) of
              None \<Rightarrow> faultK
            | Some base \<Rightarrow> if base + unat (minor dev) < NTTY then k (base + unat (minor dev)) else faultK))"

definition upd_tty :: "nat \<Rightarrow> (tty \<Rightarrow> tty) \<Rightarrow> kstate \<Rightarrow> kstate" where
  "upd_tty i f s = s\<lparr>ttys := (ttys s)[i := f (ttys s ! i)]\<rparr>"

definition tty_init :: "unit kernel" where
  "tty_init = modifyK (\<lambda>s. s\<lparr>ttys := map (\<lambda>t. t\<lparr>c_lflag := ECHO OR ICANON\<rparr>) (ttys s)\<rparr>)"

section \<open>Input\<close>

definition tty_push :: "u8 \<Rightarrow> tty \<Rightarrow> tty" where
  "tty_push c t =
     (let t1 = t\<lparr>rx_buf := (rx_buf t)[unat (rx_head t) := c], rx_head := rx_head t + 1\<rparr>
      in if rx_head t1 = rx_tail t1 then t1\<lparr>rx_tail := rx_tail t1 + 1\<rparr> else t1)"

definition tty_input :: "u16 \<Rightarrow> u8 \<Rightarrow> unit kernel" where
  "tty_input dev c =
     (if unat (minor dev) \<ge> NTTY then returnK ()
      else
        with_tty dev (\<lambda>i.
        if c = 3 then
          bindK (getK (\<lambda>s. t_pgrp (ttys s ! i))) (\<lambda>pgrp.
          if pgrp > 1 then thenK (kill (- pgrp) SIGINT) (returnK ()) else returnK ())
        else thenK (modifyK (upd_tty i (tty_push c))) (wakeup (WTty i))))"

datatype termios_op = TIOCGETA | TIOCSETA u32 | TIOCOTHER

text \<open>\<open>tty_ioctl\<close>: the value is the return code and the flags stored through the pointer.\<close>

definition tty_ioctl :: "u16 \<Rightarrow> termios_op \<Rightarrow> bool \<Rightarrow> (int \<times> u32 option) kernel" where
  "tty_ioctl dev op ptr =
     (if unat (minor dev) \<ge> NTTY \<or> cdev_tty ! unat (major dev) = None then returnK (- ENOTTY, None)
      else if \<not> ptr then returnK (- EFAULT, None)
      else
        with_tty dev (\<lambda>i.
        case op of
          TIOCGETA \<Rightarrow> bindK (getK (\<lambda>s. c_lflag (ttys s ! i))) (\<lambda>f. returnK (0, Some f))
        | TIOCSETA f \<Rightarrow> thenK (modifyK (upd_tty i (\<lambda>t. t\<lparr>c_lflag := f\<rparr>))) (returnK (0, None))
        | TIOCOTHER \<Rightarrow> returnK (- EINVAL, None)))"

section \<open>The line discipline\<close>

text \<open>One character taken from the ring by \<open>tty_read\<close>, with the user buffer and the number of
  characters in it: the loop goes on (with the character it saw and what it echoed), stops,
  or returns 0 at once.\<close>

datatype edit = EGo bytes nat u8 bytes | EStop bytes nat bytes | EEof

definition rubout :: bytes where
  "rubout = [8, 32, 8]"

fun back_while :: "(u8 \<Rightarrow> bool) \<Rightarrow> bytes \<Rightarrow> nat \<Rightarrow> nat" where
  "back_while P dest 0 = 0"
| "back_while P dest (Suc i) = (if P (dest ! Suc i) then back_while P dest i else Suc i)"

definition echo :: "u32 \<Rightarrow> nat \<Rightarrow> bytes \<Rightarrow> bytes" where
  "echo lflag n str = (if lflag AND ECHO \<noteq> 0 then concat (replicate n str) else [])"

definition tty_char :: "u32 \<Rightarrow> u8 \<Rightarrow> bytes \<Rightarrow> nat \<Rightarrow> edit" where
  "tty_char lflag ch dest i =
     (if lflag AND ICANON = 0 then EStop (dest[i := ch]) (i + 1) []
      else
        let c = (if ch = 13 then 10 else ch)
        in if c = 127 \<or> c = 8 then
             (if i > 0 then EGo (dest[i - 1 := 0]) (i - 1) c (echo lflag 1 rubout) else EGo dest i c [])
           else if c = 23 then
             (let i1 = i - 1;
                  i2 = back_while (\<lambda>x. x = 32) dest i1;
                  i3 = back_while (\<lambda>x. x \<noteq> 32) dest i2
              in EGo dest i3 c (echo lflag (i - i3) rubout))
           else if c = 21 then EGo dest 0 c (echo lflag i rubout)
           else if c = 12 then
             (if i = 0 then EStop dest i (echo lflag 1 [27, 91, 72, 27, 91, 50, 74]) else EGo dest i c [])
           else if c = 4 then EEof
           else EGo (dest[i := c]) (i + 1) c (echo lflag 1 [c]))"

text \<open>The loop of \<open>tty_read\<close> until it returns or finds the ring empty.\<close>

datatype tty_result = TRet int bytes tty bytes | TWait bytes nat u8 tty bytes

function tty_loop :: "tty \<Rightarrow> nat \<Rightarrow> bytes \<Rightarrow> nat \<Rightarrow> u8 \<Rightarrow> bytes \<Rightarrow> tty_result" where
  "tty_loop tt count dest i c out =
     (if \<not> (i < count \<and> c \<noteq> 13 \<and> c \<noteq> 10) then TRet (int i) dest tt out
      else if rx_head tt = rx_tail tt then TWait dest i c tt out
      else
        let tt' = tt\<lparr>rx_tail := rx_tail tt + 1\<rparr>
        in case tty_char (c_lflag tt) (rx_buf tt ! unat (rx_tail tt)) dest i of
             EGo dest' i' c' e \<Rightarrow> tty_loop tt' count dest' i' c' (out @ e)
           | EStop dest' i' e \<Rightarrow> TRet (int i') dest' tt' (out @ e)
           | EEof \<Rightarrow> TRet 0 dest tt' out)"
  by pat_completeness auto

lemma ring_distance_dec: "h \<noteq> t \<Longrightarrow> unat (h - (t + 1)) < unat (h - t)" for h t :: u8
proof -
  assume "h \<noteq> t"
  then have "unat (h - t) > 0" by (simp add: unat_gt_0)
  then have "1 \<le> h - t" by (simp add: word_le_nat_alt)
  then have "unat ((h - t) - 1) = unat (h - t) - unat (1::u8)" by (rule unat_sub)
  moreover have "h - (t + 1) = (h - t) - 1" by (simp add: algebra_simps)
  ultimately show ?thesis using \<open>unat (h - t) > 0\<close> by (metis One_nat_def diff_Suc_less unat_1)
qed

termination tty_loop
  by (relation "measure (\<lambda>(tt, _). unat (rx_head tt - rx_tail tt))") (auto simp: ring_distance_dec)

declare tty_loop.simps [simp del]

section \<open>The keyboard and the serial ports\<close>

definition kb_push :: "u8 \<Rightarrow> kb \<Rightarrow> kb" where
  "kb_push c k =
     (let k1 = k\<lparr>kb_buffer := (kb_buffer k)[unat (kb_head k) := c], kb_head := kb_head k + 1\<rparr>
      in if kb_head k1 = kb_tail k1 then k1\<lparr>kb_tail := kb_tail k1 + 1\<rparr> else k1)"

definition upd_kb :: "(kb \<Rightarrow> kb) \<Rightarrow> kstate \<Rightarrow> kstate" where
  "upd_kb f s = s\<lparr>kbd := f (kbd s)\<rparr>"

definition kb_input :: "u8 \<Rightarrow> unit kernel" where
  "kb_input c =
     whenK (c \<noteq> 0)
       (thenK (modifyK (upd_kb (kb_push c)))
       (thenK (wakeup (WFun ''kb_irq''))
       (tty_input (makedev 1 0) c)))"

definition kb_init :: "unit kernel" where
  "kb_init = modifyK (upd_kb (\<lambda>k. k\<lparr>kb_head := 0, kb_tail := 0,
     lshift := False, rshift := False, ctrl := False, alt := False\<rparr>))"

definition upd_uart :: "nat \<Rightarrow> (uart \<Rightarrow> uart) \<Rightarrow> kstate \<Rightarrow> kstate" where
  "upd_uart i f s = s\<lparr>uart_devsw := (uart_devsw s)[i := f (uart_devsw s ! i)]\<rparr>"

definition uart_push :: "u8 \<Rightarrow> uart \<Rightarrow> uart" where
  "uart_push c u =
     (let u1 = u\<lparr>u_rx_buffer := (u_rx_buffer u)[unat (u_rx_head u) := c], u_rx_head := u_rx_head u + 1\<rparr>
      in if u_rx_head u1 = u_rx_tail u1 then u1\<lparr>u_rx_tail := u_rx_tail u1 + 1\<rparr> else u1)"

text \<open>The handler of serial port \<open>i\<close>; the line status has a character, \<open>Some c\<close>, or has not.\<close>

definition uart_intr :: "nat \<Rightarrow> u8 option \<Rightarrow> unit kernel" where
  "uart_intr i data =
     (case data of
        None \<Rightarrow> returnK ()
      | Some c \<Rightarrow>
          thenK (modifyK (upd_uart i (uart_push c)))
          (thenK (wakeup (WFun ''uart_intr''))
          (bindK (getK (\<lambda>s. u_dev (uart_devsw s ! i))) (\<lambda>dev. tty_input dev c))))"

text \<open>The software side of opening a port; the register writes that set the line parameters
  have no effect on the kernel's data.  With the serial console (\<open>SERIAL_CONSOLE\<close> of
  \<open>sys/conf/config.h\<close>) the first port is the console.\<close>

definition uart_init_port :: "u16 \<Rightarrow> u16 \<Rightarrow> unit kernel" where
  "uart_init_port dev port =
     modifyK (upd_uart (unat (minor dev))
       (\<lambda>u. u\<lparr>u_port := port, u_rx_head := 0, u_rx_tail := 0, u_dev := dev\<rparr>))"

definition uart_init :: "unit kernel" where
  "uart_init = thenK (uart_init_port (makedev 1 0) 0x3F8) (uart_init_port (makedev 3 1) 0x2F8)"

section \<open>Output\<close>

text \<open>\<open>outb\<close> to the data register of a port; the loop that waits for the line to be ready ends.\<close>

definition transmit :: "nat \<Rightarrow> u8 \<Rightarrow> kstate \<Rightarrow> kstate" where
  "transmit i c s = s\<lparr>uart_tx := (uart_tx s)(i := uart_tx s i @ [c])\<rparr>"

definition uart_usable :: "u16 \<Rightarrow> kstate \<Rightarrow> bool" where
  "uart_usable dev s \<longleftrightarrow> unat (minor dev) < SERIAL_PORTS \<and> u_port (uart_devsw s ! unat (minor dev)) \<noteq> 0"

definition uart_putchar :: "u16 \<Rightarrow> u8 \<Rightarrow> int kernel" where
  "uart_putchar dev c =
     bindK (getK (uart_usable dev)) (\<lambda>ok.
     if \<not> ok then returnK (- ENODEV)
     else
       thenK (whenK (c = 10) (modifyK (transmit (unat (minor dev)) 13)))
       (thenK (modifyK (transmit (unat (minor dev)) c))
       (returnK (sint c))))"

definition uart_write :: "u16 \<Rightarrow> bytes \<Rightarrow> int kernel" where
  "uart_write dev str =
     bindK (getK (uart_usable dev)) (\<lambda>ok.
     if \<not> ok then returnK (- ENODEV)
     else
       thenK (forK str (\<lambda>c. modifyK (transmit (unat (minor dev)) c)))
       (returnK (int (length str))))"

text \<open>The \<open>putchar\<close> column of \<open>cdevsw\<close>: the console is the serial console.\<close>

definition cdev_putchar :: "(u16 \<Rightarrow> u8 \<Rightarrow> int kernel) option list" where
  "cdev_putchar = [None, Some uart_putchar, None, Some uart_putchar]"

fun putchars :: "(u8 \<Rightarrow> int kernel) \<Rightarrow> bytes \<Rightarrow> int \<Rightarrow> int kernel" where
  "putchars putc [] count = returnK count"
| "putchars putc (c # cs) count =
     bindK (putc c) (\<lambda>len. if len < 0 then returnK len else putchars putc cs count)"

definition tty_write :: "u16 \<Rightarrow> bytes \<Rightarrow> int kernel" where
  "tty_write dev str =
     (if unat (major dev) \<ge> num_cdev then returnK (- ENODEV)
      else (case cdev_putchar ! unat (major dev) of
              None \<Rightarrow> returnK (- ENODEV)
            | Some putc \<Rightarrow> putchars (putc dev) str (int (length str))))"

section \<open>Reading\<close>

text \<open>
  A path that waits leaves the inode of the terminal unlocked; \<open>unlock\<close> stands for
  \<open>iunlock(inode)\<close>, which comes with the inodes.  A buffer to read into is its contents; the value is the
  return code and the new contents.  \<open>dest\<close>, \<open>i\<close> and \<open>c\<close> are the local variables, so that a process woken up
  goes on where it slept.
\<close>

definition tty_read_from :: "unit kernel \<Rightarrow> u16 \<Rightarrow> nat \<Rightarrow> bytes \<Rightarrow> nat \<Rightarrow> u8 \<Rightarrow> (int \<times> bytes) kernel" where
  "tty_read_from unlock dev count dest i c =
     with_tty dev (\<lambda>k.
     bindK (getK (\<lambda>s. ttys s ! k)) (\<lambda>tt.
     case tty_loop tt count dest i c [] of
       TRet r dest' tt' out \<Rightarrow>
         thenK (modifyK (upd_tty k (\<lambda>_. tt')))
         (thenK (tty_write dev out) (returnK (r, dest')))
     | TWait dest' i' c' tt' out \<Rightarrow>
         thenK (modifyK (upd_tty k (\<lambda>_. tt')))
         (thenK (tty_write dev out)
         (with_cur (\<lambda>p.
          bindK (signal_pending p) (\<lambda>sig.
          if sig then returnK (- EINTR, dest')
          else thenK unlock (sleep (WTty k))))))))"

definition tty_read :: "unit kernel \<Rightarrow> u16 \<Rightarrow> bytes \<Rightarrow> (int \<times> bytes) kernel" where
  "tty_read unlock dev dst =
     (if unat (major dev) \<ge> num_cdev then returnK (- ENODEV, dst)
      else
        with_tty dev (\<lambda>k.
        with_cur (\<lambda>p.
        bindK (getK (\<lambda>s. p_pgrp (procs s ! p))) (\<lambda>pgrp.
        thenK (modifyK (upd_tty k (\<lambda>t. t\<lparr>t_pgrp := pgrp\<rparr>)))
        (tty_read_from unlock dev (length dst) dst 0 0)))))"

section \<open>The three rings\<close>

definition tty_ring :: "tty \<Rightarrow> ring8" where
  "tty_ring t = (rx_buf t, rx_head t, rx_tail t)"

definition tty_pop :: "tty \<Rightarrow> (u8 \<times> tty) option" where
  "tty_pop t = (if rx_head t = rx_tail t then None
     else Some (rx_buf t ! unat (rx_tail t), t\<lparr>rx_tail := rx_tail t + 1\<rparr>))"

definition kb_ring :: "kb \<Rightarrow> ring8" where
  "kb_ring k = (kb_buffer k, kb_head k, kb_tail k)"

definition kb_pop :: "kb \<Rightarrow> (u8 \<times> kb) option" where
  "kb_pop k = (if kb_head k = kb_tail k then None
     else Some (kb_buffer k ! unat (kb_tail k), k\<lparr>kb_tail := kb_tail k + 1\<rparr>))"

definition uart_ring :: "uart \<Rightarrow> ring8" where
  "uart_ring u = (u_rx_buffer u, u_rx_head u, u_rx_tail u)"

definition uart_pop :: "uart \<Rightarrow> (u8 \<times> uart) option" where
  "uart_pop u = (if u_rx_head u = u_rx_tail u then None
     else Some (u_rx_buffer u ! unat (u_rx_tail u), u\<lparr>u_rx_tail := u_rx_tail u + 1\<rparr>))"

text \<open>A component whose push and pop follow those of the ring keeps the contract of the ring.\<close>

lemma lossy_ring_via:
  assumes push: "\<And>c q. f (push c q) = ring_push c (f q)"
    and pop: "\<And>q. map_option (\<lambda>(x, r). (x, f r)) (pop q) = ring_pop (f q)"
  shows "lossy_ring (\<lambda>q. ring_inv (f q)) (\<lambda>q. ring_contents (f q)) 255 push pop"
proof
  show "length (ring_contents (f q)) \<le> 255" if "ring_inv (f q)" for q using ring8.bound [OF that] .
  show "ring_inv (f (push x q)) \<and> ring_contents (f (push x q)) = lastn 255 (ring_contents (f q) @ [x])"
    if "ring_inv (f q)" for q x using ring8.push_law [OF that] by (simp add: push)
next
  fix q x xs
  assume q: "ring_inv (f q)" "ring_contents (f q) = x # xs"
  from ring8.pop_cons [OF q] pop [of q]
  show "\<exists>r. pop q = Some (x, r) \<and> ring_inv (f r) \<and> ring_contents (f r) = xs"
    by (cases "pop q") auto
next
  fix q
  assume q: "ring_inv (f q)" "ring_contents (f q) = []"
  from ring8.pop_empty [OF q] pop [of q] show "pop q = None" by (cases "pop q") auto
qed simp

interpretation tty_queue: lossy_ring "\<lambda>t. ring_inv (tty_ring t)" "\<lambda>t. ring_contents (tty_ring t)" 255 tty_push tty_pop
  by (rule lossy_ring_via) (auto simp: tty_ring_def tty_push_def tty_pop_def ring_push_def ring_pop_def Let_def)

interpretation kb_queue: lossy_ring "\<lambda>k. ring_inv (kb_ring k)" "\<lambda>k. ring_contents (kb_ring k)" 255 kb_push kb_pop
  by (rule lossy_ring_via) (auto simp: kb_ring_def kb_push_def kb_pop_def ring_push_def ring_pop_def Let_def)

interpretation uart_queue: lossy_ring "\<lambda>u. ring_inv (uart_ring u)" "\<lambda>u. ring_contents (uart_ring u)" 255 uart_push uart_pop
  by (rule lossy_ring_via) (auto simp: uart_ring_def uart_push_def uart_pop_def ring_push_def ring_pop_def Let_def)

section \<open>Typing ahead\<close>

lemma with_tty_exec:
  "unat (major dev) < num_cdev \<Longrightarrow> cdev_tty ! unat (major dev) = Some base \<Longrightarrow>
   base + unat (minor dev) < NTTY \<Longrightarrow> with_tty dev k = k (base + unat (minor dev))"
  by (simp add: with_tty_def)

lemma tty_input_exec:
  assumes "unat (major dev) < num_cdev" and "cdev_tty ! unat (major dev) = Some base"
    and "i = base + unat (minor dev)" and "i < NTTY" and "c \<noteq> 3"
  shows "tty_input dev c s = Ok () (wakeup_state (WTty i) (upd_tty i (tty_push c) s))"
  using assms by (simp add: tty_input_def with_tty_exec kern_simps wakeup_def)

text \<open>
  Characters typed ahead wait in the terminal in the order they were typed.  If nobody reads while
  \<open>cs\<close> arrive, none of them CTRL-c, the terminal afterwards holds the last 255 of the old
  contents followed by \<open>cs\<close>; the 8-bit indices wrap around without a character being confused
  or read twice, and no other terminal changes.
\<close>

theorem tty_input_type_ahead:
  assumes "unat (major dev) < num_cdev" and "cdev_tty ! unat (major dev) = Some base"
    and "i = base + unat (minor dev)" and "i < NTTY" and "length (ttys s) = NTTY"
    and "ring_inv (tty_ring (ttys s ! i))" and "3 \<notin> set cs"
  shows "\<exists>t. forK cs (tty_input dev) s = Ok () t
    \<and> ring_contents (tty_ring (ttys t ! i)) = lastn 255 (ring_contents (tty_ring (ttys s ! i)) @ cs)
    \<and> (\<forall>j<NTTY. j \<noteq> i \<longrightarrow> ttys t ! j = ttys s ! j)"
proof -
  have run: "\<exists>t. forK cs (tty_input dev) s = Ok () t \<and> ttys t = (ttys s)[i := fold tty_push cs (ttys s ! i)]"
    using assms(5,7)
  proof (induction cs arbitrary: s)
    case Nil
    then show ?case by (simp add: kern_simps)
  next
    case (Cons c cs)
    define u where "u = wakeup_state (WTty i) (upd_tty i (tty_push c) s)"
    have u: "tty_input dev c s = Ok () u" unfolding u_def
      by (rule tty_input_exec [OF assms(1-4)]) (use Cons.prems in auto)
    have tu: "ttys u = (ttys s)[i := tty_push c (ttys s ! i)]" by (simp add: u_def upd_tty_def)
    obtain t where "forK cs (tty_input dev) u = Ok () t" "ttys t = (ttys u)[i := fold tty_push cs (ttys u ! i)]"
      using Cons.IH [of u] Cons.prems tu by auto
    then show ?case using u tu assms(4) Cons.prems by (simp add: thenK_Ok)
  qed
  then obtain t where "forK cs (tty_input dev) s = Ok () t" "ttys t = (ttys s)[i := fold tty_push cs (ttys s ! i)]"
    by blast
  then show ?thesis
    using tty_queue.push_list [OF assms(6), of cs] assms(4,5) by auto
qed

theorem tty_input_witness:
  "\<exists>t. forK [104, 105, 13] (tty_input (makedev 1 0)) two_procs = Ok () t
     \<and> ring_contents (tty_ring (ttys t ! 0)) = [104, 105, 13]"
proof -
  have d: "unat (major (makedev 1 0)) = 1" "unat (minor (makedev 1 0)) = 0"
    by (simp_all add: makedev_def major_def minor_def)
  have s: "length (ttys two_procs) = NTTY" "ttys two_procs ! 0 = zero_tty"
    by (simp_all add: two_procs_def bss_state_def)
  have r: "ring_inv (tty_ring zero_tty)" "ring_contents (tty_ring zero_tty) = []"
    by (simp_all add: ring_inv_def tty_ring_def zero_tty_def ring_contents_def)
  from tty_input_type_ahead [of "makedev 1 0" 0 0 two_procs "[104, 105, 13]"] show ?thesis
    using d s r by (auto simp: num_cdev_def cdev_tty_def lastn_def simp del: forK.simps)
qed

section \<open>Line editing\<close>

text \<open>What the editing characters mean for the line typed so far.\<close>

definition kill_word :: "bytes \<Rightarrow> bytes" where
  "kill_word l = rev (tl (dropWhile (\<lambda>x. x \<noteq> 32) (dropWhile (\<lambda>x. x = 32) (rev l))))"

definition line_edit :: "u8 \<Rightarrow> bytes \<Rightarrow> bytes" where
  "line_edit c l =
     (if c = 127 \<or> c = 8 then butlast l
      else if c = 23 then kill_word l
      else if c = 21 then []
      else if c = 12 then l
      else l @ [c])"

lemma back_while_le: "back_while P dest i \<le> i"
  by (induction i) auto

text \<open>Walking back from index \<open>i\<close> is dropping from the end of the first \<open>i + 1\<close> characters.\<close>

lemma back_while_dropWhile:
  assumes "i < length dest"
  shows "take (back_while P dest i) dest = rev (tl (dropWhile P (rev (take (Suc i) dest))))"
  using assms
proof (induction i)
  case 0
  then show ?case by (cases dest) auto
next
  case (Suc i)
  have "rev (take (Suc (Suc i)) dest) = dest ! Suc i # rev (take (Suc i) dest)"
    using Suc.prems by (simp add: take_Suc_conv_app_nth)
  then show ?case using Suc by simp
qed

lemma back_while_rest:
  assumes "i < length dest"
  shows "if back_while P dest i = 0 \<and> P (dest ! 0) then dropWhile P (rev (take (Suc i) dest)) = []
    else dropWhile P (rev (take (Suc i) dest)) = rev (take (Suc (back_while P dest i)) dest)"
  using assms
proof (induction i)
  case 0
  then show ?case by (cases dest) auto
next
  case (Suc i)
  have "rev (take (Suc (Suc i)) dest) = dest ! Suc i # rev (take (Suc i) dest)"
    using Suc.prems by (simp add: take_Suc_conv_app_nth)
  then show ?case using Suc by simp
qed

lemma kill_word_back_while:
  assumes "i \<le> length dest"
  shows "take (back_while (\<lambda>x. x \<noteq> 32) dest (back_while (\<lambda>x. x = 32) dest (i - 1))) dest = kill_word (take i dest)"
proof (cases i)
  case 0
  then show ?thesis by (simp add: kill_word_def)
next
  case (Suc k)
  then have k: "k < length dest" using assms by simp
  let ?j = "back_while (\<lambda>x. x = 32) dest k"
  have j: "?j < length dest" using back_while_le [of "\<lambda>x. x = 32" dest k] k by simp
  show ?thesis
  proof (cases "?j = 0 \<and> dest ! 0 = 32")
    case True
    have "dropWhile (\<lambda>x. x = 32) (rev (take (Suc k) dest)) = []"
      using back_while_rest [OF k, of "\<lambda>x. x = 32"] unfolding if_P [OF True] .
    then show ?thesis using True unfolding Suc kill_word_def by (simp del: dropWhile_eq_Nil_conv)
  next
    case False
    then have "dropWhile (\<lambda>x. x = 32) (rev (take (Suc k) dest)) = rev (take (Suc ?j) dest)"
      using back_while_rest [OF k, of "\<lambda>x. x = 32"] by auto
    then show ?thesis using back_while_dropWhile [OF j] Suc by (simp add: kill_word_def)
  qed
qed

lemma take_update_end: "i < length xs \<Longrightarrow> take (Suc i) (xs[i := x]) = take i xs @ [x]"
  by (simp add: take_Suc_conv_app_nth)

text \<open>A character in the middle of a line.\<close>

lemma tty_char_refines:
  assumes "lflag AND ICANON \<noteq> 0" and "i < length dest" and "ch \<notin> {10, 13, 4, 12}"
  shows "\<exists>dest' i' e. tty_char lflag ch dest i = EGo dest' i' ch e \<and> length dest' = length dest
    \<and> i' \<le> Suc i \<and> take i' dest' = line_edit ch (take i dest)"
proof -
  have "take (i - 1) (dest[i - 1 := 0]) = butlast (take i dest)"
    using assms(2) by (simp add: butlast_take)
  moreover have "take i (dest[i - 1 := 0]) = take i dest" if "i = 0" using that by simp
  moreover have "back_while (\<lambda>x. x \<noteq> 32) dest (back_while (\<lambda>x. x = 32) dest (i - 1)) \<le> Suc i"
    using back_while_le [of "\<lambda>x. x = 32" dest "i - 1"]
      back_while_le [of "\<lambda>x. x \<noteq> 32" dest "back_while (\<lambda>x. x = 32) dest (i - 1)"] by simp
  ultimately show ?thesis
    using assms kill_word_back_while [of i dest] take_update_end [of i dest ch]
    by (auto simp: tty_char_def line_edit_def Let_def)
qed

lemma tty_loop_step:
  assumes "ring_inv (tty_ring tt)" and "ring_contents (tty_ring tt) = x # xs" and "i < count" and "c \<noteq> 13" and "c \<noteq> 10"
  obtains tt' where "ring_inv (tty_ring tt')" "ring_contents (tty_ring tt') = xs" "c_lflag tt' = c_lflag tt"
    "tty_loop tt count dest i c out = (case tty_char (c_lflag tt) x dest i of
        EGo dest' i' c' e \<Rightarrow> tty_loop tt' count dest' i' c' (out @ e)
      | EStop dest' i' e \<Rightarrow> TRet (int i') dest' tt' (out @ e)
      | EEof \<Rightarrow> TRet 0 dest tt' out)"
proof -
  obtain r where r: "tty_pop tt = Some (x, r)" "ring_inv (tty_ring r)" "ring_contents (tty_ring r) = xs"
    using tty_queue.pop_cons [OF assms(1,2)] by blast
  have f: "rx_head tt \<noteq> rx_tail tt" "rx_buf tt ! unat (rx_tail tt) = x" "tt\<lparr>rx_tail := rx_tail tt + 1\<rparr> = r"
    using r(1) by (auto simp: tty_pop_def split: if_splits)
  have "tty_loop tt count dest i c out = (case tty_char (c_lflag tt) x dest i of
        EGo dest' i' c' e \<Rightarrow> tty_loop r count dest' i' c' (out @ e)
      | EStop dest' i' e \<Rightarrow> TRet (int i') dest' r (out @ e)
      | EEof \<Rightarrow> TRet 0 dest r out)"
    using assms(3-5) f by (subst tty_loop.simps) (simp add: Let_def)
  moreover have "c_lflag r = c_lflag tt" unfolding f(3) [symmetric] by simp
  ultimately show thesis using that [of r] r by blast
qed

lemma tty_loop_line:
  assumes "c_lflag tt AND ICANON \<noteq> 0" and "ring_inv (tty_ring tt)" and "ring_contents (tty_ring tt) = cs @ [nl]"
    and "nl \<in> {10, 13}" and "set cs \<inter> {10, 13, 4, 12} = {}" and "i + length cs < count"
    and "count \<le> length dest" and "c \<noteq> 13" and "c \<noteq> 10"
  shows "\<exists>n dest' tt' out'. tty_loop tt count dest i c out = TRet (int n) dest' tt' out'
    \<and> take n dest' = fold line_edit cs (take i dest) @ [10] \<and> ring_contents (tty_ring tt') = []"
  using assms
proof (induction cs arbitrary: tt dest i c out)
  case Nil
  have ic: "i < count" using Nil.prems by simp
  from Nil.prems(3) have c1: "ring_contents (tty_ring tt) = nl # []" by simp
  obtain tt' where t: "ring_contents (tty_ring tt') = []"
    "tty_loop tt count dest i c out = (case tty_char (c_lflag tt) nl dest i of
        EGo dest' i' c' e \<Rightarrow> tty_loop tt' count dest' i' c' (out @ e)
      | EStop dest' i' e \<Rightarrow> TRet (int i') dest' tt' (out @ e)
      | EEof \<Rightarrow> TRet 0 dest tt' out)"
    by (rule tty_loop_step [OF Nil.prems(2) c1 ic Nil.prems(8,9)])
  have "tty_char (c_lflag tt) nl dest i = EGo (dest[i := 10]) (i + 1) 10 (echo (c_lflag tt) 1 [10])"
    using Nil.prems by (auto simp: tty_char_def Let_def)
  then have "tty_loop tt count dest i c out = TRet (int (i + 1)) (dest[i := 10]) tt' (out @ echo (c_lflag tt) 1 [10])"
    using t(2) by (simp add: tty_loop.simps)
  moreover have "take (i + 1) (dest[i := 10]) = take i dest @ [10]" using take_update_end [of i dest 10] Nil.prems by simp
  ultimately show ?case using t(1) by (simp only: fold_Nil id_apply) blast
next
  case (Cons x cs)
  have ic: "i < count" "i < length dest" using Cons.prems by simp_all
  from Cons.prems(3) have c1: "ring_contents (tty_ring tt) = x # (cs @ [nl])" by simp
  obtain tt' where t: "ring_inv (tty_ring tt')" "ring_contents (tty_ring tt') = cs @ [nl]" "c_lflag tt' = c_lflag tt"
    "tty_loop tt count dest i c out = (case tty_char (c_lflag tt) x dest i of
        EGo dest' i' c' e \<Rightarrow> tty_loop tt' count dest' i' c' (out @ e)
      | EStop dest' i' e \<Rightarrow> TRet (int i') dest' tt' (out @ e)
      | EEof \<Rightarrow> TRet 0 dest tt' out)"
    by (rule tty_loop_step [OF Cons.prems(2) c1 ic(1) Cons.prems(8,9)])
  have x: "x \<notin> {10, 13, 4, 12}" using Cons.prems(5) by auto
  obtain dest' i' e where e: "tty_char (c_lflag tt) x dest i = EGo dest' i' x e" "length dest' = length dest"
    "i' \<le> Suc i" "take i' dest' = line_edit x (take i dest)"
    using tty_char_refines [OF Cons.prems(1) ic(2) x] by blast
  have "\<exists>n dest'' tt'' out'. tty_loop tt' count dest' i' x (out @ e) = TRet (int n) dest'' tt'' out'
    \<and> take n dest'' = fold line_edit cs (take i' dest') @ [10] \<and> ring_contents (tty_ring tt'') = []"
    using Cons.prems t(1-3) e(2,3) x by (intro Cons.IH) auto
  then show ?case using t(4) e(1,4) by simp
qed



end
