(* ===== verification/Kbd.thy ===== *)
theory Kbd
  imports Inode Tty
begin

text \<open>
  The keyboard, \<open>sys/i386/kb.c\<close>, with its tables of key codes, and reading from the keyboard and the
  serial lines without a line discipline (\<open>kb_read\<close>, \<open>uart_getc\<close> and \<open>uart_read\<close> of \<open>sys/i386/uart.c\<close>).
\<close>

section \<open>Key codes\<close>

definition kb_map :: "bytes list" where
  "kb_map =
    [[], [27], [49], [50], [51], [52], [53], [54], [55], [56], [57], [48], [43], [92], [8], [9],
     [113], [119], [101], [114], [116], [121], [117], [105], [111], [112], [], [], [10], [], [97],
     [115], [100], [102], [103], [104], [106], [107], [108], [], [], [124], [], [34], [122], [120],
     [99], [118], [98], [110], [109], [44], [46], [45], [], [], [], [32], [], [], [], [], [], [],
     [], [], [], [], [], [], [], [27, 91, 72], [27, 91, 65], [27, 91, 53, 126], [], [27, 91, 68],
     [], [27, 91, 67], [], [27, 91, 70], [27, 91, 66], [27, 91, 54, 126], [], [], [], [], [60], [],
     [], [], [], [], [], [], [], [], [], [], [], [], [], [], [], [], [], [], [], [], [], [], [], [],
     [], [], [], [], [], [], [], [], [], [], [], [], [], [], []]"

definition kb_map_shift :: "bytes list" where
  "kb_map_shift =
    [[], [27], [33], [39], [35], [36], [37], [38], [47], [40], [41], [61], [63], [96], [8], [9],
     [81], [87], [69], [82], [84], [89], [85], [73], [79], [80], [], [], [10], [], [65], [83], [68],
     [70], [71], [72], [74], [75], [76], [], [], [], [], [42], [90], [88], [67], [86], [66], [78],
     [77], [59], [58], [95], [], [], [], [32], [], [], [], [], [], [], [], [], [], [], [], [], [],
     [], [32], [], [], [], [], [], [], [], [], [], [], [], [], [], [62], [], [], [], [], [], [], [],
     [], [], [], [], [], [], [], [], [], [], [], [], [], [], [], [], [], [], [], [], [], [], [], [],
     [], [], [], [], [], [], [], [], []]"

definition kb_map_ctrl :: "bytes list" where
  "kb_map_ctrl =
    [[], [], [], [], [], [], [], [], [], [], [], [], [], [], [], [], [], [23], [], [], [], [], [21],
     [], [], [], [], [], [], [], [], [], [4], [], [], [8], [], [], [12], [], [], [], [], [], [], [],
     [3], [], [], [], [], [], [], [], [], [], [], [], [], [], [], [], [], [], [], [], [], [], [],
     [], [], [], [], [], [], [], [], [], [], [], [], [], [], [], [], [], [], [], [], [], [], [], [],
     [], [], [], [], [], [], [], [], [], [], [], [], [], [], [], [], [], [], [], [], [], [], [], [],
     [], [], [], [], [], [], [], [], [], []]"

definition kb_map_of :: "kb \<Rightarrow> bytes list" where
  "kb_map_of k = (if lshift k \<or> rshift k then kb_map_shift else if ctrl k then kb_map_ctrl else kb_map)"

text \<open>A key code of 127 indexes the tables, of 127 entries, behind their end.\<close>

definition kb_cook :: "u8 \<Rightarrow> unit kernel" where
  "kb_cook raw =
     (let key = raw AND 0x7F in
      if key = 42 then modifyK (upd_kb (\<lambda>k. k\<lparr>lshift := \<not> lshift k\<rparr>))
      else if key = 54 then modifyK (upd_kb (\<lambda>k. k\<lparr>rshift := \<not> rshift k\<rparr>))
      else if key = 29 then modifyK (upd_kb (\<lambda>k. k\<lparr>ctrl := \<not> ctrl k\<rparr>))
      else if key = 56 then modifyK (upd_kb (\<lambda>k. k\<lparr>alt := \<not> alt k\<rparr>))
      else if raw \<le> 0x7F then
        (if unat raw < length kb_map then
           bindK (getK (\<lambda>s. kb_map_of (kbd s) ! unat raw)) (\<lambda>cs. forK cs kb_input)
         else faultK)
      else returnK ())"

text \<open>\<open>data\<close> is the byte of the controller, if its status says there is one.\<close>

definition kb_irq :: "u8 option \<Rightarrow> unit kernel" where
  "kb_irq data = (case data of None \<Rightarrow> returnK () | Some raw \<Rightarrow> kb_cook raw)"

section \<open>Reading\<close>

text \<open>
  The loops of \<open>kb_read\<close> and \<open>uart_read\<close> from a ring: \<open>acc\<close> is what is stored in the buffer so far.  A
  reader that finds the ring empty sleeps with the inode unlocked and starts over at the same place
  when it is woken.
\<close>

definition kb_take :: "u8 kernel" where
  "kb_take =
     bindK (getK (\<lambda>s. kb_buffer (kbd s) ! unat (kb_tail (kbd s)))) (\<lambda>c.
     thenK (modifyK (upd_kb (\<lambda>k. k\<lparr>kb_tail := kb_tail k + 1\<rparr>)))
     (returnK c))"

definition kb_empty :: "kstate \<Rightarrow> bool" where
  "kb_empty s \<longleftrightarrow> kb_head (kbd s) = kb_tail (kbd s)"

fun kb_read_loop :: "nat \<Rightarrow> nat \<Rightarrow> bytes \<Rightarrow> (int \<times> bytes) kernel" where
  "kb_read_loop 0 k acc = returnK (int (length acc), acc)"
| "kb_read_loop (Suc n) k acc =
     bindK (getK kb_empty) (\<lambda>empty.
     if empty \<and> acc = [] then
       with_cur (\<lambda>c.
       bindK (signal_pending c) (\<lambda>sig.
       if sig then returnK (- EINTR, acc) else thenK (iunlock k) (sleep (WFun ''kb_irq''))))
     else if empty then returnK (int (length acc), acc)
     else bindK kb_take (\<lambda>c. kb_read_loop n k (acc @ [c])))"

definition kb_read :: "nat \<Rightarrow> nat \<Rightarrow> (int \<times> bytes) kernel" where
  "kb_read k nbytes = kb_read_loop nbytes k []"

definition cn_read :: "nat \<Rightarrow> u16 \<Rightarrow> nat \<Rightarrow> (int \<times> bytes) kernel" where
  "cn_read k dev nbytes = kb_read k nbytes"

text \<open>The value is the character, as a signed \<open>char\<close>, or an error.\<close>

definition uart_getc :: "nat \<Rightarrow> u16 \<Rightarrow> int kernel" where
  "uart_getc k dev =
     (if unat (minor dev) \<ge> SERIAL_PORTS then returnK (- ENODEV)
      else
        (let i = unat (minor dev) in
         bindK (getK (\<lambda>s. uart_devsw s ! i)) (\<lambda>u.
         if u_rx_head u = u_rx_tail u then
           with_cur (\<lambda>c.
           bindK (signal_pending c) (\<lambda>sig.
           if sig then returnK (- EINTR) else thenK (iunlock k) (sleep (WFun ''uart_intr''))))
         else
           thenK (modifyK (upd_uart i (\<lambda>u. u\<lparr>u_rx_tail := u_rx_tail u + 1\<rparr>)))
           (returnK (sint (u_rx_buffer u ! unat (u_rx_tail u)))))))"

fun uart_read_loop :: "nat \<Rightarrow> nat \<Rightarrow> u16 \<Rightarrow> bytes \<Rightarrow> (int \<times> bytes) kernel" where
  "uart_read_loop 0 k dev acc = returnK (int (length acc), acc)"
| "uart_read_loop (Suc n) k dev acc =
     bindK (uart_getc k dev) (\<lambda>c.
     if c < 0 then returnK (c, acc) else uart_read_loop n k dev (acc @ [word_of_int c]))"

definition uart_read :: "nat \<Rightarrow> u16 \<Rightarrow> nat \<Rightarrow> (int \<times> bytes) kernel" where
  "uart_read k dev count =
     bindK (getK (uart_usable dev)) (\<lambda>ok.
     if \<not> ok then returnK (- ENODEV, []) else uart_read_loop count k dev [])"

end
