(* ===== verification/Clock.thy ===== *)
theory Clock
  imports Codec "HOL-Library.Signed_Division"
begin

text \<open>
  Calendar time: \<open>mktime\<close>, which the kernel (\<open>sys/libkern/mktime.c\<close>) and the C library
  (\<open>lib/libc/time.c\<close>) have in the same form, \<open>gmtime\<close> of the library, and the real time clock
  (\<open>sys/i386/rtc.c\<close>).  An index outside the table of months is no result.
\<close>

record tm =
  tm_sec :: int
  tm_min :: int
  tm_hour :: int
  tm_mday :: int
  tm_mon :: int
  tm_year :: int
  tm_wday :: int
  tm_yday :: int
  tm_isdst :: int

definition days_in_month :: "int list" where
  "days_in_month = [31, 28, 31, 30, 31, 30, 31, 31, 30, 31, 30, 31]"

definition is_leap_year :: "int \<Rightarrow> bool" where
  "is_leap_year year \<longleftrightarrow> year smod 4 = 0 \<and> (year smod 100 \<noteq> 0 \<or> (year + 1900) smod 400 = 0)"

definition days_in_year :: "int \<Rightarrow> int" where
  "days_in_year year = (if is_leap_year year then 366 else 365)"

section \<open>From a date to seconds\<close>

fun month_loop :: "nat \<Rightarrow> int \<Rightarrow> int option" where
  "month_loop 0 result = Some result"
| "month_loop (Suc m) result =
     (if m < length days_in_month then month_loop m (result + days_in_month ! m) else None)"

function year_loop :: "int \<Rightarrow> int \<Rightarrow> int \<Rightarrow> int" where
  "year_loop y year result = (if y < year then year_loop (y + 1) year (result + days_in_year y) else result)"
  by pat_completeness auto

termination year_loop
  by (relation "measure (\<lambda>(y, year, _). nat (year - y))") auto

declare year_loop.simps [simp del]

text \<open>\<open>NULL\<close> gives 0; the sums wrap at 32 bits.\<close>

definition mktime :: "tm option \<Rightarrow> int option" where
  "mktime p =
     (case p of
        None \<Rightarrow> Some 0
      | Some tm \<Rightarrow>
          (case month_loop (nat (tm_mon tm)) (tm_mday tm - 1) of
             None \<Rightarrow> None
           | Some days \<Rightarrow>
               let days' = (if tm_mon tm > 1 \<and> days_in_year (tm_year tm) = 366 then days + 1 else days);
                   total = year_loop 70 (tm_year tm) days'
               in Some (to_long (total * (60 * 60 * 24) + (tm_sec tm + tm_min tm * 60 + tm_hour tm * 60 * 60)))))"

section \<open>From seconds to a date\<close>

function gm_year :: "int \<Rightarrow> int \<Rightarrow> int \<times> int" where
  "gm_year t year = (if t \<ge> days_in_year year then gm_year (t - days_in_year year) (year + 1) else (t, year))"
  by pat_completeness auto

termination gm_year
  by (relation "measure (\<lambda>(t, _). nat t)") (auto simp: days_in_year_def split: if_splits)

declare gm_year.simps [simp del]

definition month_len :: "bool \<Rightarrow> nat \<Rightarrow> int" where
  "month_len leap month = days_in_month ! month + (if leap \<and> month = 1 then 1 else 0)"

function gm_month :: "bool \<Rightarrow> int \<Rightarrow> nat \<Rightarrow> (int \<times> nat) option" where
  "gm_month leap t month =
     (if month \<ge> length days_in_month then None
      else if t \<ge> month_len leap month then gm_month leap (t - month_len leap month) (month + 1)
      else Some (t, month))"
  by pat_completeness auto

termination gm_month
  by (relation "measure (\<lambda>(_, _, month). length days_in_month - month)") auto

declare gm_month.simps [simp del]

definition gmtime :: "int \<Rightarrow> tm option" where
  "gmtime timep =
     (let t1 = timep sdiv 60; t2 = t1 sdiv 60; (t, year) = gm_year (t2 sdiv 24) 1970; leap = is_leap_year year
      in case gm_month leap t 0 of
           None \<Rightarrow> None
         | Some (d, month) \<Rightarrow>
             Some \<lparr>tm_sec = timep smod 60, tm_min = t1 smod 60, tm_hour = t2 smod 24, tm_mday = d, tm_mon = int month,
                   tm_year = year - 1900, tm_wday = (d + 5) smod 7,
                   tm_yday = d - 1 + sum_list (take month days_in_month) + (if month \<ge> 2 \<and> leap then 1 else 0),
                   tm_isdst = 0\<rparr>)"

section \<open>The real time clock\<close>

definition rtc_bcd2bin :: "u8 \<Rightarrow> int" where
  "rtc_bcd2bin bcd = uint (bcd AND 0x0F) + uint (drop_bit 4 bcd) * 10"

text \<open>\<open>cmos\<close> is what \<open>cmos_read\<close> finds in the registers of the clock.\<close>

definition rtc_read_clock :: "(u8 \<Rightarrow> u8) \<Rightarrow> tm \<Rightarrow> tm" where
  "rtc_read_clock cmos tm = tm
     \<lparr>tm_sec := rtc_bcd2bin (cmos 0), tm_min := rtc_bcd2bin (cmos 2), tm_hour := rtc_bcd2bin (cmos 4),
      tm_mday := rtc_bcd2bin (cmos 7), tm_mon := rtc_bcd2bin (cmos 8) - 1,
      tm_year := rtc_bcd2bin (cmos 9) + rtc_bcd2bin (cmos 0x32) * 100 - 1900\<rparr>"

text \<open>The clock is read twice until both readings agree; \<open>readings\<close> is what the successive readings find.\<close>

fun rtc_read :: "(u8 \<Rightarrow> u8) list \<Rightarrow> tm \<Rightarrow> (int \<times> tm) option" where
  "rtc_read (c1 # c2 # readings) tm =
     (let tm1 = rtc_read_clock c1 tm; tm2 = rtc_read_clock c2 tm1
      in case (mktime (Some tm1), mktime (Some tm2)) of
           (Some time1, Some time2) \<Rightarrow> if time1 = time2 then Some (time1, tm2) else rtc_read readings tm2
         | _ \<Rightarrow> None)"
| "rtc_read _ tm = None"

section \<open>The calendar\<close>

text \<open>The Gregorian calendar, by the length of a month and the date of the next day; a month counts from 0.\<close>

definition greg_leap :: "int \<Rightarrow> bool" where
  "greg_leap y \<longleftrightarrow> 4 dvd y \<and> (\<not> 100 dvd y \<or> 400 dvd y)"

definition greg_month :: "int \<Rightarrow> nat \<Rightarrow> int" where
  "greg_month y m = (if m = 1 then (if greg_leap y then 29 else 28) else if m \<in> {3, 5, 8, 10} then 30 else 31)"

type_synonym date = "int \<times> nat \<times> int"

fun next_day :: "date \<Rightarrow> date" where
  "next_day (y, m, d) =
     (if d < greg_month y m then (y, m, d + 1) else if m < 11 then (y, m + 1, 1) else (y + 1, 0, 1))"

definition epoch :: date where "epoch = (1970, 0, 1)"

fun valid_date :: "date \<Rightarrow> bool" where
  "valid_date (y, m, d) \<longleftrightarrow> 1970 \<le> y \<and> m < 12 \<and> 1 \<le> d \<and> d \<le> greg_month y m"

definition tm_of :: "date \<Rightarrow> int \<Rightarrow> tm" where
  "tm_of dt secs = (case dt of (y, m, d) \<Rightarrow>
     \<lparr>tm_sec = secs mod 60, tm_min = secs div 60 mod 60, tm_hour = secs div 3600, tm_mday = d, tm_mon = int m,
      tm_year = y - 1900, tm_wday = 0, tm_yday = 0, tm_isdst = 0\<rparr>)"

text \<open>The days before a date, as \<open>mktime\<close> counts them.\<close>

definition day_count :: "date \<Rightarrow> int" where
  "day_count dt = (case dt of (y, m, d) \<Rightarrow>
     year_loop 70 (y - 1900) (d - 1 + sum_list (take m days_in_month) + (if 1 < m \<and> greg_leap y then 1 else 0)))"

lemma length_dim [simp]: "length days_in_month = 12"
  by (simp add: days_in_month_def)

lemma smod_pos: "0 \<le> a \<Longrightarrow> 0 < b \<Longrightarrow> (a :: int) smod b = a mod b" "0 \<le> a \<Longrightarrow> 0 < b \<Longrightarrow> (a :: int) sdiv b = a div b"
  by (simp_all add: smod_int_alt_def signed_divide_int_def sgn_if)

lemma is_leap_year_greg:
  assumes "0 \<le> y"
  shows "is_leap_year y = greg_leap (y + 1900)"
proof -
  have "4 dvd y + 1900 \<longleftrightarrow> 4 dvd y" "100 dvd y + 1900 \<longleftrightarrow> 100 dvd y" by (rule dvd_add_left_iff, simp)+
  then show ?thesis using assms unfolding is_leap_year_def greg_leap_def by (simp add: smod_pos dvd_eq_mod_eq_0)
qed

lemma is_leap_year_abs:
  assumes "1970 \<le> y" and "y < 2000"
  shows "is_leap_year y = greg_leap y"
proof -
  have "y mod 100 = (y - 1900 + 100 * 19) mod 100" by simp
  also have "\<dots> = y - 1900" using assms by (subst mod_mult_self2) (simp add: mod_pos_pos_trivial)
  finally show ?thesis using assms unfolding is_leap_year_def greg_leap_def by (simp add: smod_pos dvd_eq_mod_eq_0)
qed

definition greg_year :: "int \<Rightarrow> int" where
  "greg_year y = (if greg_leap y then 366 else 365)"

lemma sum_int_last: "a \<le> (b :: int) \<Longrightarrow> sum f {a..<b + 1} = sum f {a..<b} + f b"
proof -
  assume "a \<le> b"
  then have "{a..<b + 1} = insert b {a..<b}" by auto
  then show ?thesis by (simp add: add.commute)
qed

lemma sum_int_first: "a < (b :: int) \<Longrightarrow> sum f {a..<b} = f a + sum f {a + 1..<b}"
proof -
  assume "a < b"
  then have "{a..<b} = insert a {a + 1..<b}" by auto
  then show ?thesis by simp
qed

lemma year_loop_sum: "70 \<le> y \<Longrightarrow> year_loop y year r = r + sum greg_year {y + 1900..<year + 1900}"
proof (induction y year r rule: year_loop.induct)
  case (1 y year r)
  show ?case
  proof (cases "y < year")
    case True
    have "days_in_year y = greg_year (y + 1900)" using 1 by (simp add: days_in_year_def greg_year_def is_leap_year_greg)
    then show ?thesis using 1 True sum_int_first [of "y + 1900" "year + 1900" greg_year]
      by (subst year_loop.simps) (simp add: add.commute add.left_commute)
  next
    case False
    then show ?thesis by (subst year_loop.simps) simp
  qed
qed

lemma month_loop_sum: "m \<le> 12 \<Longrightarrow> month_loop m r = Some (r + sum_list (take m days_in_month))"
proof (induction m arbitrary: r)
  case (Suc m)
  then show ?case by (simp add: take_Suc_conv_app_nth)
qed simp

text \<open>The days of the year before a date.\<close>

definition year_day :: "date \<Rightarrow> int" where
  "year_day dt = (case dt of (y, m, d) \<Rightarrow> d - 1 + sum_list (take m days_in_month) + (if 1 < m \<and> greg_leap y then 1 else 0))"

lemma day_count_sum: "valid_date (y, m, d) \<Longrightarrow> day_count (y, m, d) = year_day (y, m, d) + sum greg_year {1970..<y}"
  by (simp add: day_count_def year_day_def year_loop_sum)

lemma mktime_day_count:
  assumes "valid_date dt" and "0 \<le> secs" and "secs < 86400"
  shows "mktime (Some (tm_of dt secs)) = Some (to_long (day_count dt * 86400 + secs))"
proof -
  obtain y m d where dt: "dt = (y, m, d)" by (cases dt)
  have m: "m \<le> 12" using assms dt by simp
  have leap: "days_in_year (y - 1900) = 366 \<longleftrightarrow> greg_leap y"
    using assms(1) is_leap_year_greg [of "y - 1900"] dt by (simp add: days_in_year_def)
  have "secs div 3600 = secs div 60 div 60" by (simp add: zdiv_zmult2_eq [of 60 secs 60, symmetric])
  then have s: "secs mod 60 + secs div 60 mod 60 * 60 + secs div 3600 * 60 * 60 = secs"
    unfolding minus_div_mult_eq_mod [symmetric] by simp
  have "mktime (Some (tm_of dt secs)) = Some (to_long (day_count dt * (60 * 60 * 24)
      + (secs mod 60 + secs div 60 mod 60 * 60 + secs div 3600 * 60 * 60)))"
    unfolding mktime_def tm_of_def day_count_def dt using month_loop_sum [OF m, of "d - 1"] leap
    by (simp add: Let_def add.commute)
  then show ?thesis by (simp only: s) simp
qed

lemma month_cases: "m < 12 \<Longrightarrow> P 0 \<Longrightarrow> P 1 \<Longrightarrow> P 2 \<Longrightarrow> P 3 \<Longrightarrow> P 4 \<Longrightarrow> P 5 \<Longrightarrow> P 6 \<Longrightarrow> P 7 \<Longrightarrow> P 8 \<Longrightarrow> P 9 \<Longrightarrow> P 10 \<Longrightarrow> P 11 \<Longrightarrow> P (m :: nat)"
  by (simp add: numeral_eq_Suc less_Suc_eq, elim disjE) simp_all

lemma greg_month_len: "m < 12 \<Longrightarrow> greg_month y m = days_in_month ! m + (if m = 1 \<and> greg_leap y then 1 else 0)"
  by (erule month_cases) (simp_all add: greg_month_def days_in_month_def)

lemma year_day_next:
  assumes "valid_date (y, m, d)"
  shows "day_count (next_day (y, m, d)) = day_count (y, m, d) + 1 \<and> valid_date (next_day (y, m, d))"
proof (cases "d < greg_month y m")
  case True
  then show ?thesis using assms day_count_sum [of y m d] day_count_sum [of y m "d + 1"] by (simp add: year_day_def)
next
  case False
  then have d: "d = greg_month y m" using assms by simp
  have g: "1 \<le> greg_month y' m'" for y' m' by (simp add: greg_month_def)
  show ?thesis
  proof (cases "m < 11")
    case True
    then have v: "valid_date (y, m + 1, 1)" using assms g by simp
    have "year_day (y, m + 1, 1) = year_day (y, m, d) + 1"
      using True by (simp add: year_day_def d greg_month_len take_Suc_conv_app_nth)
    then show ?thesis using day_count_sum [OF assms] day_count_sum [OF v] v False True by simp
  next
    case m: False
    then have m: "m = 11" using assms by simp
    then have v: "valid_date (y + 1, 0, 1)" using assms g by simp
    have "year_day (y, 11, d) + 1 = greg_year y"
      using d m by (simp add: year_day_def greg_year_def greg_month_def days_in_month_def)
    then show ?thesis using day_count_sum [OF assms] day_count_sum [OF v] v False m assms sum_int_last [of 1970 y greg_year]
      by (simp add: year_day_def)
  qed
qed

lemma day_count_iterate: "day_count ((next_day ^^ n) epoch) = int n \<and> valid_date ((next_day ^^ n) epoch)"
proof (induction n)
  case 0
  then show ?case by (simp add: epoch_def day_count_def year_loop.simps greg_month_def)
next
  case (Suc n)
  then show ?case using year_day_next by (cases "(next_day ^^ n) epoch") fastforce
qed

text \<open>
  C38: \<open>mktime\<close> agrees with the calendar.  For the date reached from the first of January 1970 by going to
  the next day of the Gregorian calendar n times, with any time of day, it returns the n days in
  seconds and the time of day, as long as that fits a \<open>time_t\<close> of 32 bits.
\<close>

theorem mktime_calendar:
  assumes "0 \<le> secs" and "secs < 86400" and "int n * 86400 + secs < 2 ^ 31"
  shows "mktime (Some (tm_of ((next_day ^^ n) epoch) secs)) = Some (int n * 86400 + secs)"
proof -
  have "to_long (int n * 86400 + secs) = int n * 86400 + secs"
    using assms unfolding to_long_def by (intro signed_take_bit_int_eq_self) auto
  then show ?thesis using mktime_day_count [of "(next_day ^^ n) epoch" secs] day_count_iterate [of n] assms(1,2) by simp
qed

theorem mktime_witness: "mktime (Some (tm_of ((next_day ^^ 60) epoch) 3661)) = Some 5187661"
  using mktime_calendar [of 3661 60] by simp

section \<open>The way back\<close>

lemma year_day_bounds:
  assumes "valid_date (y, m, d)"
  shows "0 \<le> year_day (y, m, d)" and "year_day (y, m, d) < greg_year y"
proof -
  have m: "m < 12" and d: "1 \<le> d" "d \<le> greg_month y m" using assms by simp_all
  have "d \<le> greg_month y m \<longrightarrow> 0 \<le> year_day (y, m, d) \<and> year_day (y, m, d) < greg_year y"
    by (rule month_cases [OF m]) (use d(1) in \<open>auto simp: year_day_def greg_month_def greg_year_def days_in_month_def\<close>)
  then show "0 \<le> year_day (y, m, d)" "year_day (y, m, d) < greg_year y" using d(2) by simp_all
qed

lemma gm_year_sum:
  "1970 \<le> y0 \<Longrightarrow> y0 \<le> y \<Longrightarrow> y < 2000 \<Longrightarrow> 0 \<le> r \<Longrightarrow> r < greg_year y \<Longrightarrow> gm_year (r + sum greg_year {y0..<y}) y0 = (r, y)"
proof (induction "nat (y - y0)" arbitrary: y0)
  case 0
  then show ?case by (subst gm_year.simps) (simp add: days_in_year_def greg_year_def is_leap_year_abs)
next
  case (Suc n)
  then have lt: "y0 < y" by simp
  have diy: "days_in_year y0 = greg_year y0" using Suc lt by (simp add: days_in_year_def greg_year_def is_leap_year_abs)
  have pos: "0 \<le> sum greg_year {y0 + 1..<y}" by (intro sum_nonneg) (simp add: greg_year_def)
  have "gm_year (r + sum greg_year {y0 + 1..<y}) (y0 + 1) = (r, y)" using Suc lt by (intro Suc.hyps(1)) auto
  then show ?case using Suc.prems sum_int_first [OF lt, of greg_year] pos diy by (subst gm_year.simps) (simp add: algebra_simps)
qed

lemma gm_month_sum:
  "m0 \<le> m \<Longrightarrow> m < 12 \<Longrightarrow> 0 \<le> r \<Longrightarrow> r < month_len leap m \<Longrightarrow> gm_month leap (r + sum (month_len leap) {m0..<m}) m0 = Some (r, m)"
proof (induction "m - m0" arbitrary: m0)
  case 0
  then show ?case by (subst gm_month.simps) simp
next
  case (Suc n)
  then have lt: "m0 < m" by simp
  have "0 \<le> month_len leap k" if "k < 12" for k
    using that by (rule month_cases) (simp_all add: month_len_def days_in_month_def)
  then have pos: "0 \<le> sum (month_len leap) {Suc m0..<m}" using Suc.prems(2) by (intro sum_nonneg) auto
  have "gm_month leap (r + sum (month_len leap) {Suc m0..<m}) (Suc m0) = Some (r, m)" using Suc lt by (intro Suc.hyps(1)) auto
  then show ?case using Suc.prems lt pos by (subst gm_month.simps) (simp add: sum.atLeast_Suc_lessThan algebra_simps)
qed

lemma month_len_sum: "m \<le> 12 \<Longrightarrow> sum (month_len leap) {0..<m} = sum_list (take m days_in_month) + (if 1 < m \<and> leap then 1 else 0)"
proof (induction m)
  case (Suc m)
  then show ?case by (auto simp: take_Suc_conv_app_nth month_len_def)
qed simp

text \<open>
  \<open>gmtime\<close> counts the days of a month from 0.  For every day before the year 2000 it returns the right
  year, month and time of day, but a day of the month that is one too small, so that the first of a
  month becomes the 0th; in particular it does not undo \<open>mktime\<close>.
\<close>

theorem gmtime_day_off_by_one:
  assumes dt: "(next_day ^^ n) epoch = (y, m, d)" and "y < 2000" and "0 \<le> secs" and "secs < 86400"
  shows "\<exists>r. gmtime (int n * 86400 + secs) = Some r \<and> tm_year r = y - 1900 \<and> tm_mon r = int m \<and> tm_mday r = d - 1
    \<and> tm_hour r * 3600 + tm_min r * 60 + tm_sec r = secs"
proof -
  define T where "T = int n * 86400 + secs"
  have c: "day_count (y, m, d) = int n" and v: "valid_date (y, m, d)" using day_count_iterate [of n] dt by simp_all
  have "T div 60 = int n * 1440 + secs div 60" by (simp add: T_def)
  then have "T div 60 div 60 = int n * 24 + secs div 60 div 60" by simp
  then have day: "T div 60 div 60 div 24 = int n" using assms(3,4) by (simp add: div_pos_pos_trivial zdiv_zmult2_eq [symmetric])
  have leap: "is_leap_year y = greg_leap y" using v assms(2) by (intro is_leap_year_abs) simp_all
  have "greg_month y m = month_len (greg_leap y) m" using v by (simp add: greg_month_len month_len_def)
  then have d: "0 \<le> d - 1" "d - 1 < month_len (greg_leap y) m" "m < 12" using v by simp_all
  have yd: "year_day (y, m, d) = d - 1 + sum (month_len (greg_leap y)) {0..<m}"
    using d(3) month_len_sum [of m "greg_leap y"] by (simp add: year_day_def)
  have gy: "gm_year (int n) 1970 = (year_day (y, m, d), y)"
    using gm_year_sum [of 1970 y "year_day (y, m, d)"] year_day_bounds [OF v] v assms(2) day_count_sum [OF v] c by simp
  have gm: "gm_month (greg_leap y) (year_day (y, m, d)) 0 = Some (d - 1, m)"
    using gm_month_sum [of 0 m "d - 1"] d unfolding yd by simp
  have time: "T div 60 div 60 mod 24 * 3600 + T div 60 mod 60 * 60 + T mod 60 = secs"
    using day by (simp add: minus_div_mult_eq_mod [symmetric] T_def)
  have "0 \<le> T" "0 \<le> T div 60" "0 \<le> T div 60 div 60" using assms(3) by (simp_all add: pos_imp_zdiv_nonneg_iff T_def)
  note sd = smod_pos [OF this(1), of 60] smod_pos [OF this(2), of 60] smod_pos [OF this(3), of 24]
  have "\<exists>wd yd. gmtime T = Some \<lparr>tm_sec = T mod 60, tm_min = T div 60 mod 60, tm_hour = T div 60 div 60 mod 24, tm_mday = d - 1,
      tm_mon = int m, tm_year = y - 1900, tm_wday = wd, tm_yday = yd, tm_isdst = 0\<rparr>"
    unfolding gmtime_def Let_def sd [OF zero_less_numeral] day gy case_prod_conv leap gm option.case by blast
  then obtain wd yd' where g: "gmtime T = Some \<lparr>tm_sec = T mod 60, tm_min = T div 60 mod 60, tm_hour = T div 60 div 60 mod 24,
      tm_mday = d - 1, tm_mon = int m, tm_year = y - 1900, tm_wday = wd, tm_yday = yd', tm_isdst = 0\<rparr>" by blast
  show ?thesis
    unfolding T_def [symmetric] g option.inject by (intro exI, rule conjI, rule refl) (simp only: tm.simps time simp_thms)
qed

theorem gmtime_witness: "\<exists>r. gmtime 0 = Some r \<and> tm_mday r = 0 \<and> mktime (Some r) \<noteq> Some 0"
proof -
  obtain r where r: "gmtime 0 = Some r" "tm_mday r = 0"
    using gmtime_day_off_by_one [of 0 1970 0 1 0] by (auto simp: epoch_def)
  have "gmtime 0 = Some \<lparr>tm_sec = 0, tm_min = 0, tm_hour = 0, tm_mday = 0, tm_mon = 0, tm_year = 70, tm_wday = 5, tm_yday = - 1, tm_isdst = 0\<rparr>"
    by (simp add: gmtime_def Let_def gm_year.simps gm_month.simps days_in_year_def month_len_def days_in_month_def smod_pos)
  then show ?thesis using r by (auto simp: mktime_def year_loop.simps days_in_year_def to_long_def)
qed

end
