(* ===== verification/Globs.thy ===== *)
theory Globs
  imports Ctype
begin

text \<open>
  File name patterns of the shell, \<open>pattern_match\<close> of \<open>bin/sh.c\<close>.   The function keeps the
  pattern after the last star and the next text position to try, and falls back to them; here it is a
  partial function, so that a search which does not end, or the use of a null pointer, has no value.
\<close>

abbreviation (input) STAR :: u8 where "STAR \<equiv> 42"
abbreviation (input) QUERY :: u8 where "QUERY \<equiv> 63"

section \<open>The matcher\<close>

text \<open>The first loop: up to the first star.  \<open>Inl\<close> is the early return.\<close>

fun pm_prefix :: "bytes \<Rightarrow> bytes \<Rightarrow> bool + bytes \<times> bytes" where
  "pm_prefix pattern [] = Inr (pattern, [])"
| "pm_prefix pattern (c # s) =
     (if at0 pattern \<noteq> STAR then
        (if at0 pattern \<noteq> c \<and> at0 pattern \<noteq> QUERY then Inl False else pm_prefix (tl pattern) s)
      else Inr (pattern, c # s))"

text \<open>The second loop, with the variables \<open>mp\<close> and \<open>cp\<close>.\<close>

partial_function (option) pm_loop :: "bytes \<Rightarrow> bytes \<Rightarrow> bytes option \<Rightarrow> bytes \<Rightarrow> (bool + bytes) option" where
  "pm_loop pattern s mp cp =
     (if at0 s = 0 then Some (Inr pattern)
      else if at0 pattern = STAR then
        (if at0 (tl pattern) = 0 then Some (Inl True)
         else pm_loop (tl pattern) s (Some (tl pattern)) (tl s))
      else if at0 pattern = at0 s \<or> at0 pattern = QUERY then pm_loop (tl pattern) (tl s) mp cp
      else (case mp of None \<Rightarrow> None | Some q \<Rightarrow> pm_loop q cp mp (tl cp)))"

fun skip_stars :: "bytes \<Rightarrow> bytes" where
  "skip_stars [] = []"
| "skip_stars (c # p) = (if c = STAR then skip_stars p else c # p)"

definition pattern_match :: "bytes \<Rightarrow> bytes \<Rightarrow> bool option" where
  "pattern_match pattern s =
     (case pm_prefix pattern s of
        Inl r \<Rightarrow> Some r
      | Inr (p, t) \<Rightarrow>
          (case pm_loop p t None [] of
             None \<Rightarrow> None
           | Some (Inl r) \<Rightarrow> Some r
           | Some (Inr q) \<Rightarrow> Some (at0 (skip_stars q) = 0)))"

section \<open>What a pattern means\<close>

text \<open>A star stands for any text, a question mark for any character, everything else for itself.\<close>

inductive globs :: "bytes \<Rightarrow> bytes \<Rightarrow> bool" where
  globs_Nil: "globs [] []"
| globs_Star: "globs p t \<Longrightarrow> globs (STAR # p) (u @ t)"
| globs_Query: "globs p t \<Longrightarrow> globs (QUERY # p) (c # t)"
| globs_Char: "globs p t \<Longrightarrow> globs (c # p) (c # t)"

inductive_simps globs_Nil_iff [simp]: "globs [] t"
inductive_cases globs_ConsE: "globs (c # p) t"

lemma globs_Star_iff: "globs (STAR # p) t \<longleftrightarrow> (\<exists>u v. t = u @ v \<and> globs p v)"
proof
  assume "globs (STAR # p) t"
  then show "\<exists>u v. t = u @ v \<and> globs p v"
    by (elim globs_ConsE) (auto, metis append_Cons append_Nil)
qed (auto intro: globs_Star)

lemma globs_Star_Nil [simp]: "globs (STAR # p) [] = globs p []"
  by (simp add: globs_Star_iff)

lemma globs_Star_suffix: "globs (STAR # p) v \<Longrightarrow> globs (STAR # p) (u @ v)"
  by (auto simp: globs_Star_iff) (metis append_assoc)

lemma globs_Star_Cons: "globs (STAR # p) (c # t) \<longleftrightarrow> globs p (c # t) \<or> globs (STAR # p) t"
proof
  assume "globs (STAR # p) (c # t)"
  then obtain u v where uv: "c # t = u @ v" "globs p v" by (auto simp: globs_Star_iff)
  then show "globs p (c # t) \<or> globs (STAR # p) t"
    by (cases u) (auto simp: globs_Star_iff)
next
  assume "globs p (c # t) \<or> globs (STAR # p) t"
  then show "globs (STAR # p) (c # t)"
    using globs_Star [of p "c # t" "[]"] globs_Star_suffix [of p t "[c]"] by auto
qed

definition one_char :: "u8 \<Rightarrow> u8 \<Rightarrow> bool" where
  "one_char c x \<longleftrightarrow> c = QUERY \<or> c = x"

lemma globs_Cons_iff:
  "c \<noteq> STAR \<Longrightarrow> globs (c # p) t \<longleftrightarrow> (\<exists>x v. t = x # v \<and> one_char c x \<and> globs p v)"
  by (auto simp: one_char_def intro: globs_Query globs_Char elim: globs_ConsE)

text \<open>A part of a pattern without stars stands for a text of its own length.\<close>

definition plain :: "bytes \<Rightarrow> bytes \<Rightarrow> bool" where
  "plain w u \<longleftrightarrow> STAR \<notin> set w \<and> list_all2 one_char w u"

lemma plain_length: "plain w u \<Longrightarrow> length w = length u"
  by (auto simp: plain_def list_all2_lengthD)

lemma plain_snoc: "plain w u \<Longrightarrow> c \<noteq> STAR \<Longrightarrow> one_char c x \<Longrightarrow> plain (w @ [c]) (u @ [x])"
  by (simp add: plain_def list_all2_appendI)

lemma globs_plainD: "STAR \<notin> set w \<Longrightarrow> globs (w @ p) t \<Longrightarrow> \<exists>u v. t = u @ v \<and> length u = length w \<and> globs p v"
proof (induction w arbitrary: t)
  case (Cons c w)
  have c: "c \<noteq> STAR" "STAR \<notin> set w" using Cons.prems(1) by auto
  obtain x v where t: "t = x # v" and v: "globs (w @ p) v"
    using globs_Cons_iff [OF c(1), of "w @ p" t] Cons.prems(2) by auto
  obtain u v' where "v = u @ v'" "length u = length w" "globs p v'" using Cons.IH [OF c(2) v] by blast
  with t show ?case by (intro exI [of _ "x # u"] exI [of _ v']) simp
qed simp

lemma skip_stars_globs: "0 \<notin> set p \<Longrightarrow> at0 (skip_stars p) = 0 \<longleftrightarrow> globs p []"
proof (induction p)
  case (Cons c p)
  then show ?case by (cases "c = STAR") (simp_all add: globs_Cons_iff)
qed simp

section \<open>The matcher decides the meaning\<close>

text \<open>
  When a later star is reached, the fall back to an earlier one is given up.  Nothing is lost: what
  the earlier star could still reach, the later one reaches from here.
\<close>

lemma earlier_star_obsolete:
  assumes g: "globs (STAR # w @ STAR # p) cp" and w: "plain w u" and s: "x # cp = u @ s"
  shows "globs (STAR # p) s"
proof -
  obtain a b where ab: "cp = a @ b" "globs (w @ STAR # p) b" using g by (auto simp: globs_Star_iff)
  obtain b1 b2 where b: "b = b1 @ b2" "length b1 = length w" "globs (STAR # p) b2"
    using globs_plainD [OF _ ab(2)] w by (auto simp: plain_def)
  have l: "length b2 \<le> length s"
    using arg_cong [OF s, of length] plain_length [OF w] ab b by simp
  have "u @ s = (x # a @ b1) @ b2" using s ab b by simp
  then have "\<exists>d. d @ s = b2 \<or> s = d @ b2" unfolding append_eq_append_conv2 by blast
  then obtain d where "s = d @ b2" using l by (metis append_self_conv2 le_add2 length_0_conv length_append nle_le add_cancel_left_left)
  then show ?thesis using globs_Star_suffix [OF b(3)] by simp
qed

lemma matched_too_long:
  assumes w: "plain w u" and s: "x # cp = u"
  shows "\<not> globs (STAR # w @ p) cp"
proof
  assume "globs (STAR # w @ p) cp"
  then obtain a b where ab: "cp = a @ b" "globs (w @ p) b" by (auto simp: globs_Star_iff)
  obtain b1 b2 where "b = b1 @ b2" "length b1 = length w"
    using globs_plainD [OF _ ab(2)] w by (auto simp: plain_def)
  then show False using ab plain_length [OF w] arg_cong [OF s, of length] by simp
qed

definition accepts :: "bool + bytes \<Rightarrow> bool" where
  "accepts r = (case r of Inl b \<Rightarrow> b | Inr q \<Rightarrow> at0 (skip_stars q) = 0)"

lemma accepts_simps [simp]: "accepts (Inl b) = b" "accepts (Inr q) = (at0 (skip_stars q) = 0)"
  by (simp_all add: accepts_def)

lemma pm_loop_decides:
  assumes "0 \<notin> set mp" "0 \<notin> set (x # cp)" "plain w u" "mp = w @ p" "x # cp = u @ s"
  shows "\<exists>r. pm_loop p s (Some mp) cp = Some r \<and> accepts r = (globs p s \<or> globs (STAR # mp) cp)"
  using assms
proof (induction "(length cp, length p)" arbitrary: p s mp x cp w u
    rule: wf_induct_rule [OF wf_lex_prod [OF wf_less_than wf_less_than]])
  case 1
  note IH = 1(1) and mp0 = 1(2) and cp0 = 1(3) and w = 1(4) and mp = 1(5) and s = 1(6)
  have p0: "0 \<notin> set p" and s0: "0 \<notin> set s" using mp0 mp cp0 unfolding s by auto
  show ?case
  proof (cases s)
    case Nil
    then have "\<not> globs (STAR # mp) cp" using matched_too_long [OF w, of x cp p] s mp by simp
    then show ?thesis by (subst pm_loop.simps) (simp add: Nil skip_stars_globs [OF p0])
  next
    case (Cons c t)
    then have c: "c \<noteq> 0" "at0 s = c" "at0 s \<noteq> 0" using s0 by auto
    show ?thesis
    proof (cases "at0 p = STAR")
      case True
      then obtain p' where p': "p = STAR # p'" by (cases p) auto
      have old: "globs (STAR # mp) cp \<Longrightarrow> globs p s" using earlier_star_obsolete [of w p' cp u x s] w s mp p' by simp
      show ?thesis
      proof (cases "p' = []")
        case True
        have "globs p s" using p' True by (simp add: globs_Star_iff)
        then show ?thesis by (subst pm_loop.simps) (simp add: c p' True)
      next
        case False
        have less: "length t \<le> length cp" using arg_cong [OF s, of length] Cons by simp
        have "\<exists>r. pm_loop p' s (Some p') t = Some r \<and> accepts r = (globs p' s \<or> globs (STAR # p') t)"
          by (rule IH [of t p' p' c "[]" "[]" s]) (use less p' p0 s0 Cons in \<open>auto simp: plain_def\<close>)
        moreover have "(globs p' s \<or> globs (STAR # p') t) = globs p s"
          using globs_Star_Cons [of p' c t] p' Cons by simp
        ultimately show ?thesis using old p0 p' False
          by (subst pm_loop.simps) (auto simp: c Cons at0_nonzero)
      qed
    next
      case nostar: False
      show ?thesis
      proof (cases "at0 p = c \<or> at0 p = QUERY")
        case True
        then obtain d p' where p': "p = d # p'" using c by (cases p) auto
        have d: "one_char d c" "d \<noteq> STAR" using True p' nostar by (auto simp: one_char_def)
        have "\<exists>r. pm_loop p' t (Some mp) cp = Some r \<and> accepts r = (globs p' t \<or> globs (STAR # mp) cp)"
          by (rule IH [of cp p' mp x "w @ [d]" "u @ [c]" t])
            (use p' mp0 cp0 s Cons mp plain_snoc [OF w d(2,1)] in \<open>auto\<close>)
        moreover have "globs p s = globs p' t" using p' d Cons by (simp add: globs_Cons_iff)
        ultimately show ?thesis using True nostar c
          by (subst pm_loop.simps) (auto simp: Cons p')
      next
        case False
        have no: "\<not> globs p s" using False nostar Cons by (cases p) (auto simp: globs_Cons_iff one_char_def)
        have step: "pm_loop p s (Some mp) cp = pm_loop mp cp (Some mp) (tl cp)"
          using False nostar c by (subst pm_loop.simps) (simp add: Cons)
        show ?thesis
        proof (cases cp)
          case Nil
          then have "pm_loop mp cp (Some mp) (tl cp) = Some (Inr mp)" by (subst pm_loop.simps) simp
          then show ?thesis using step no Nil by (simp add: skip_stars_globs [OF mp0])
        next
          case (Cons y cp')
          have "\<exists>r. pm_loop mp cp (Some mp) cp' = Some r \<and> accepts r = (globs mp cp \<or> globs (STAR # mp) cp')"
            by (rule IH [of cp' mp mp y "[]" "[]" cp]) (use Cons mp0 cp0 in \<open>auto simp: plain_def\<close>)
          then show ?thesis using step no Cons globs_Star_Cons [of mp y cp'] by simp
        qed
      qed
    qed
  qed
qed

lemma pm_prefix_decides:
  assumes "0 \<notin> set p" "0 \<notin> set s"
  shows "(\<exists>r. pm_prefix p s = Inl r \<and> r = globs p s)
    \<or> (\<exists>q t. pm_prefix p s = Inr (q, t) \<and> globs p s = globs q t \<and> 0 \<notin> set q \<and> 0 \<notin> set t \<and> (t = [] \<or> at0 q = STAR))"
  using assms
proof (induction p s rule: pm_prefix.induct)
  case (2 pattern c s)
  then show ?case
    by (cases pattern) (auto simp: globs_Cons_iff one_char_def)
qed simp

lemma pattern_match_globs:
  assumes "0 \<notin> set pattern" "0 \<notin> set s"
  shows "pattern_match pattern s = Some (globs pattern s)"
proof -
  consider r where "pm_prefix pattern s = Inl r" "r = globs pattern s"
    | q t where "pm_prefix pattern s = Inr (q, t)" "globs pattern s = globs q t" "0 \<notin> set q" "0 \<notin> set t" "t = [] \<or> at0 q = STAR"
    using pm_prefix_decides [OF assms] by blast
  then show ?thesis
  proof cases
    case 1
    then show ?thesis by (simp add: pattern_match_def)
  next
    case 2
    have "\<exists>r. pm_loop q t None [] = Some r \<and> accepts r = globs q t"
    proof (cases t)
      case Nil
      then show ?thesis using 2 by (subst pm_loop.simps) (simp add: skip_stars_globs)
    next
      case (Cons c t')
      then obtain q' where q': "q = STAR # q'" using 2 by (cases q) auto
      show ?thesis
      proof (cases "q' = []")
        case True
        then show ?thesis using 2 Cons q' by (subst pm_loop.simps) (auto simp: globs_Star_iff)
      next
        case False
        then have "pm_loop q t None [] = pm_loop q' t (Some q') t'"
          using 2 Cons q' by (subst pm_loop.simps) (auto simp: at0_nonzero)
        moreover have "\<exists>r. pm_loop q' t (Some q') t' = Some r \<and> accepts r = (globs q' t \<or> globs (STAR # q') t')"
          by (rule pm_loop_decides [of _ c _ "[]" "[]"]) (use 2 q' Cons in \<open>auto simp: plain_def\<close>)
        ultimately show ?thesis using Cons q' by (simp add: globs_Star_Cons)
      qed
    qed
    then show ?thesis using 2 by (auto simp: pattern_match_def split: sum.splits)
  qed
qed

text \<open>
  C30: For a pattern and a text that are C strings, \<open>pattern_match\<close> of the shell ends, never uses the null
  pointer, and returns whether the text is one the pattern stands for.
\<close>

theorem pattern_match_correct:
  assumes "0 \<notin> set pattern" "0 \<notin> set s"
  shows "pattern_match pattern s = Some (globs pattern s)"
  using assms by (rule pattern_match_globs)

theorem pattern_match_witness:
  "pattern_match [42, 97, 42, 98] [97, 97, 99, 98, 98] = Some True"
proof -
  have "globs [98] [98]" by (intro globs.intros)
  then have "globs [42, 98] ([97, 99, 98] @ [98])" by (rule globs_Star)
  then have "globs [97, 42, 98] (97 # [97, 99, 98] @ [98])" by (rule globs_Char)
  then have "globs [42, 97, 42, 98] [97, 97, 99, 98, 98]" using globs_Star [of _ _ "[]"] by simp
  then show ?thesis using pattern_match_correct [of "[42, 97, 42, 98]" "[97, 97, 99, 98, 98]"] by simp
qed

end
