(* ===== verification/Grep.thy ===== *)
theory Grep
  imports Ctype
begin

text \<open>
  The regular expressions of \<open>bin/grep.c\<close>: \<open>match\<close>, \<open>matchhere\<close> and \<open>matchstar\<close> on C strings.
\<close>

section \<open>The matcher\<close>

text \<open>\<open>regexp[1]\<close> is read only when \<open>regexp[0]\<close> is not the terminator.\<close>

function matchhere :: "bytes \<Rightarrow> bytes \<Rightarrow> bool"
  and matchstar :: "u8 \<Rightarrow> bytes \<Rightarrow> bytes \<Rightarrow> bool" where
  "matchhere regexp text =
     (case regexp of
        [] \<Rightarrow> True
      | c # rest \<Rightarrow>
          if at0 rest = 42 then matchstar c (tl rest) text
          else if c = 36 \<and> at0 rest = 0 then at0 text = 0
          else if at0 text \<noteq> 0 \<and> (c = 46 \<or> c = at0 text) then matchhere rest (tl text)
          else False)"
| "matchstar c regexp text =
     (if matchhere regexp text then True
      else if at0 text \<noteq> 0 \<and> (at0 text = c \<or> c = 46) then matchstar c regexp (tl text)
      else False)"
  by pat_completeness auto
termination
  by (relation "measures [\<lambda>x. case x of Inl (r, t) \<Rightarrow> length r | Inr (c, r, t) \<Rightarrow> length r,
      \<lambda>x. case x of Inl (r, t) \<Rightarrow> length t | Inr (c, r, t) \<Rightarrow> length t,
      \<lambda>x. case x of Inl (r, t) \<Rightarrow> 0 | Inr (c, r, t) \<Rightarrow> Suc 0]")
    (auto simp: at0_def split: list.splits)

fun match_from :: "bytes \<Rightarrow> bytes \<Rightarrow> bool" where
  "match_from regexp [] = matchhere regexp []"
| "match_from regexp (c # text) = (if matchhere regexp (c # text) then True else match_from regexp text)"

text \<open>\<open>match\<close>, with the loop over the starting points.\<close>

definition match_text :: "bytes \<Rightarrow> bytes \<Rightarrow> bool" where
  "match_text regexp text = (if at0 regexp = 94 then matchhere (tl regexp) text else match_from regexp text)"

declare matchhere.simps [simp del] matchstar.simps [simp del]

section \<open>What a regular expression means\<close>

datatype item = One u8 | Many u8

text \<open>The items of an expression and whether it ends with \<open>$\<close>.\<close>

fun items :: "bytes \<Rightarrow> item list" where
  "items [] = []"
| "items [c] = (if c = 36 then [] else [One c])"
| "items (c # d # r) = (if d = 42 then Many c # items r else One c # items (d # r))"

fun at_end :: "bytes \<Rightarrow> bool" where
  "at_end [] = False"
| "at_end [c] = (c = 36)"
| "at_end (c # d # r) = (if d = 42 then at_end r else at_end (d # r))"

definition stands_for :: "u8 \<Rightarrow> u8 \<Rightarrow> bool" where
  "stands_for c x \<longleftrightarrow> c = 46 \<or> c = x"

inductive denotes :: "item list \<Rightarrow> bytes \<Rightarrow> bool" where
  denotes_Nil: "denotes [] []"
| denotes_One: "stands_for c x \<Longrightarrow> denotes its xs \<Longrightarrow> denotes (One c # its) (x # xs)"
| denotes_Many0: "denotes its xs \<Longrightarrow> denotes (Many c # its) xs"
| denotes_Many: "stands_for c x \<Longrightarrow> denotes (Many c # its) xs \<Longrightarrow> denotes (Many c # its) (x # xs)"

inductive_simps denotes_Nil_iff [simp]: "denotes [] xs"
inductive_simps denotes_One_iff: "denotes (One c # its) xs"
inductive_simps denotes_Many_iff: "denotes (Many c # its) xs"

text \<open>The items stand for a beginning of the text, for all of it if the expression ends with \<open>$\<close>.\<close>

definition begins :: "item list \<Rightarrow> bool \<Rightarrow> bytes \<Rightarrow> bool" where
  "begins its e text \<longleftrightarrow> (\<exists>u v. text = u @ v \<and> denotes its u \<and> (e \<longrightarrow> v = []))"

lemma begins_Nil: "begins [] e text \<longleftrightarrow> (e \<longrightarrow> text = [])"
  by (auto simp: begins_def)

lemma begins_One: "begins (One c # its) e text \<longleftrightarrow> (\<exists>x t. text = x # t \<and> stands_for c x \<and> begins its e t)"
  unfolding begins_def denotes_One_iff by (metis append_Cons)

lemma begins_Many:
  "begins (Many c # its) e text \<longleftrightarrow>
     begins its e text \<or> (\<exists>x t. text = x # t \<and> stands_for c x \<and> begins (Many c # its) e t)"
proof
  assume "begins (Many c # its) e text"
  then obtain u v where uv: "text = u @ v" "denotes (Many c # its) u" "e \<longrightarrow> v = []" by (auto simp: begins_def)
  from uv(2) show "begins its e text \<or> (\<exists>x t. text = x # t \<and> stands_for c x \<and> begins (Many c # its) e t)"
    unfolding denotes_Many_iff [of c its u] begins_def using uv by (metis append_Cons)
next
  assume "begins its e text \<or> (\<exists>x t. text = x # t \<and> stands_for c x \<and> begins (Many c # its) e t)"
  then show "begins (Many c # its) e text"
    unfolding begins_def by (metis append_Cons denotes_Many denotes_Many0)
qed

lemma match_means:
  "0 \<notin> set r \<Longrightarrow> 0 \<notin> set t \<Longrightarrow> matchhere r t = begins (items r) (at_end r) t"
  "0 \<notin> set r \<Longrightarrow> 0 \<notin> set t \<Longrightarrow> matchstar c r t = begins (Many c # items r) (at_end r) t"
proof (induction r t and c r t rule: matchhere_matchstar.induct)
  case (1 r t)
  show ?case
  proof (cases r rule: items.cases)
    case 1
    then show ?thesis by (subst matchhere.simps) (simp add: begins_Nil)
  next
    case (2 c)
    have "matchhere [] t'" for t' by (subst matchhere.simps) simp
    with 1(4) 2 show ?thesis
      by (subst matchhere.simps) (cases t; simp add: begins_Nil begins_One stands_for_def)
  next
    case (3 c d r')
    show ?thesis
    proof (cases "d = 42")
      case True
      then show ?thesis using 1 3 by (subst matchhere.simps) simp
    next
      case False
      have "d \<noteq> 0" using 1 3 by auto
      then have "matchhere r t \<longleftrightarrow> at0 t \<noteq> 0 \<and> (c = 46 \<or> c = at0 t) \<and> matchhere (d # r') (tl t)"
        using 3 False by (subst matchhere.simps) simp
      moreover have "matchhere (d # r') (tl t) = begins (items (d # r')) (at_end (d # r')) (tl t)"
        if "at0 t \<noteq> 0 \<and> (c = 46 \<or> c = at0 t)"
        by (rule 1(2)) (use 1(3,4) 3 False \<open>d \<noteq> 0\<close> that in \<open>auto dest: list.set_sel(2) [rotated]\<close>)
      ultimately show ?thesis using 1(4) 3 False
        by (cases t) (auto simp: begins_One stands_for_def)
    qed
  qed
next
  case (2 c r t)
  show ?case
  proof (cases t)
    case Nil
    then show ?thesis using 2 by (subst matchstar.simps, subst begins_Many) simp
  next
    case (Cons x t')
    then have "x \<noteq> 0" using 2 by auto
    then show ?thesis using 2 Cons by (subst matchstar.simps, subst begins_Many) (auto simp: stands_for_def)
  qed
qed

lemma match_from_means:
  "0 \<notin> set r \<Longrightarrow> 0 \<notin> set t \<Longrightarrow> match_from r t \<longleftrightarrow> (\<exists>a b. t = a @ b \<and> begins (items r) (at_end r) b)"
proof (induction r t rule: match_from.induct)
  case (2 regexp c t)
  have "(\<exists>a b. c # t = a @ b \<and> begins (items regexp) (at_end regexp) b) \<longleftrightarrow>
    begins (items regexp) (at_end regexp) (c # t) \<or> (\<exists>a b. t = a @ b \<and> begins (items regexp) (at_end regexp) b)"
    by (auto simp: Cons_eq_append_conv)
  then show ?case using 2 by (simp add: match_means)
qed (simp add: match_means)

text \<open>
  C32: \<open>match\<close> of grep returns whether the expression occurs in the text: there is a part of the text that
  its items stand for, at the beginning if the expression starts with a caret and at the end if it ends
  with a dollar sign.
\<close>

theorem match_correct:
  assumes "0 \<notin> set regexp" "0 \<notin> set text"
  shows "match_text regexp text \<longleftrightarrow>
    (let anchored = at0 regexp = 94; body = (if anchored then tl regexp else regexp)
     in \<exists>a b c. text = a @ b @ c \<and> denotes (items body) b \<and> (anchored \<longrightarrow> a = []) \<and> (at_end body \<longrightarrow> c = []))"
proof (cases "at0 regexp = 94")
  case True
  have "0 \<notin> set (tl regexp)" using assms(1) by (cases regexp) auto
  then show ?thesis using True assms by (simp add: match_text_def match_means begins_def Let_def)
next
  case False
  then show ?thesis using assms by (simp add: match_text_def match_from_means begins_def Let_def) blast
qed

theorem match_witness: "match_text [97, 42, 98, 36] [99, 97, 97, 98]"
proof -
  have "denotes [Many 97, One 98] [97, 97, 98]"
    by (intro denotes_Many denotes_Many0 denotes_One denotes_Nil) (simp_all add: stands_for_def)
  then have "\<exists>a b c. [99, 97, 97, 98] = a @ b @ c \<and> denotes (items [97, 42, 98, 36]) b
      \<and> (False \<longrightarrow> a = []) \<and> (at_end [97, 42, 98, 36] \<longrightarrow> c = [])"
    by (intro exI [of _ "[99]"] exI [of _ "[97, 97, 98]"] exI [of _ "[]"]) simp
  then show ?thesis by (subst match_correct) (simp_all add: Let_def del: items.simps at_end.simps)
qed

end
