(* ===== verification/Qsort.thy ===== *)
theory Qsort
  imports Cstring Codec "HOL-Library.Multiset"
begin

text \<open>
  \<open>memswap\<close> and \<open>qsort\<close> of \<open>lib/libc/stdlib.c\<close>, on the byte-addressed store of the string routines, with
  elements of any size and any comparison function that reads the store.
\<close>

section \<open>The routines\<close>

fun store_list :: "mem \<Rightarrow> u32 \<Rightarrow> bytes \<Rightarrow> mem" where
  "store_list m d [] = m"
| "store_list m d (c # cs) = store_list (m(d := c)) (d + 1) cs"

text \<open>\<open>temp\<close> is a local array.\<close>

definition memswap :: "mem \<Rightarrow> u32 \<Rightarrow> u32 \<Rightarrow> u32 \<Rightarrow> mem" where
  "memswap m a b sz =
     (let temp = read_bytes m a (unat sz)
      in store_list (memcpy m a b sz) b temp)"

text \<open>The loop over \<open>j\<close> with \<open>n\<close> rounds left; it returns \<open>i\<close> and the store.\<close>

fun qs_part :: "(mem \<Rightarrow> u32 \<Rightarrow> u32 \<Rightarrow> int) \<Rightarrow> u32 \<Rightarrow> u32 \<Rightarrow> u32 \<Rightarrow> nat \<Rightarrow> nat \<Rightarrow> nat \<Rightarrow> mem \<Rightarrow> nat \<times> mem" where
  "qs_part compar arr pivot sz 0 j i m = (i, m)"
| "qs_part compar arr pivot sz (Suc n) j i m =
     (if compar m (arr + of_nat j * sz) pivot < 0
      then qs_part compar arr pivot sz n (Suc j) (Suc i) (memswap m (arr + of_nat i * sz) (arr + of_nat j * sz) sz)
      else qs_part compar arr pivot sz n (Suc j) i m)"

lemma qs_part_bound: "fst (qs_part compar arr pivot sz n j i m) \<le> i + n"
proof (induction n arbitrary: j i m)
  case (Suc n)
  show ?case using Suc.IH [of "Suc j" "Suc i"] Suc.IH [of "Suc j" i] by (auto simp: le_SucI)
qed simp

function qsort :: "(mem \<Rightarrow> u32 \<Rightarrow> u32 \<Rightarrow> int) \<Rightarrow> u32 \<Rightarrow> nat \<Rightarrow> u32 \<Rightarrow> mem \<Rightarrow> mem" where
  "qsort compar arr cnt sz m =
     (if cnt < 2 then m
      else
        let pivot = arr + of_nat (cnt - 1) * sz;
            (i, m1) = qs_part compar arr pivot sz (cnt - 1) 0 0 m;
            m2 = memswap m1 (arr + of_nat i * sz) pivot sz;
            m3 = qsort compar arr i sz m2
        in qsort compar (arr + of_nat (i + 1) * sz) (cnt - i - 1) sz m3)"
  by pat_completeness auto
termination
proof (relation "measure (\<lambda>(compar, arr, cnt, sz, m). cnt)", goal_cases)
  case (2 compar arr cnt sz m pivot p i m1 m2)
  then have "fst (qs_part compar arr pivot sz (cnt - 1) 0 0 m) = i" by (metis fst_conv)
  then show ?case using qs_part_bound [of compar arr pivot sz "cnt - 1" 0 0 m] 2(1) by simp
qed auto

declare qsort.simps [simp del]

section \<open>Arrays in the store\<close>

lemma store_list_frame: "(\<And>k. k < length cs \<Longrightarrow> a \<noteq> d + of_nat k) \<Longrightarrow> store_list m d cs a = m a"
proof (induction cs arbitrary: m d)
  case (Cons c cs)
  have "a \<noteq> d + 1 + of_nat k" if "k < length cs" for k
    using Cons.prems [of "Suc k"] that by (simp add: algebra_simps)
  moreover have "a \<noteq> d" using Cons.prems [of 0] by simp
  ultimately show ?case using Cons.IH by simp
qed simp

lemma store_list_at: "length cs \<le> 2 ^ 32 \<Longrightarrow> k < length cs \<Longrightarrow> store_list m d cs (d + of_nat k) = cs ! k"
proof (induction cs arbitrary: m d k)
  case (Cons c cs)
  show ?case
  proof (cases k)
    case 0
    have "d \<noteq> d + 1 + of_nat i" if "i < length cs" for i
      using addr_eq_iff [of 0 "Suc i" d] that Cons.prems(1) by (simp add: add.assoc)
    then show ?thesis using 0 store_list_frame [of cs d "d + 1" "m(d := c)"] by simp
  next
    case (Suc k')
    then show ?thesis using Cons.IH [of k' "m(d := c)" "d + 1"] Cons.prems by (simp add: add.assoc fun_upd_def)
  qed
qed simp

lemma memcpy_same: "memcpy_loop m d d n = m"
  by (induction n arbitrary: m d) auto

lemma store_list_same: "(\<And>k. k < length cs \<Longrightarrow> m (d + of_nat k) = cs ! k) \<Longrightarrow> store_list m d cs = m"
proof (induction cs arbitrary: m d)
  case (Cons c cs)
  have "m (d + 1 + of_nat k) = cs ! k" if "k < length cs" for k
    using Cons.prems [of "Suc k"] that by (simp add: algebra_simps)
  then show ?case using Cons.IH [of m "d + 1"] Cons.prems [of 0] by (simp add: fun_upd_idem)
qed simp

text \<open>The elements of an array of \<open>n\<close> elements of \<open>s\<close> bytes, and stores that agree outside an array.\<close>

definition elems :: "mem \<Rightarrow> u32 \<Rightarrow> nat \<Rightarrow> nat \<Rightarrow> bytes list" where
  "elems m arr n s = map (\<lambda>k. read_bytes m (arr + of_nat (k * s)) s) [0..<n]"

definition outside :: "u32 \<Rightarrow> nat \<Rightarrow> mem \<Rightarrow> mem \<Rightarrow> bool" where
  "outside arr N m m' \<longleftrightarrow> (\<forall>a. (\<forall>p<N. a \<noteq> arr + of_nat p) \<longrightarrow> m' a = m a)"

definition swap :: "nat \<Rightarrow> nat \<Rightarrow> 'a list \<Rightarrow> 'a list" where
  "swap i j xs = xs[i := xs ! j, j := xs ! i]"

lemma length_elems [simp]: "length (elems m arr n s) = n"
  by (simp add: elems_def)

lemma nth_elems [simp]: "k < n \<Longrightarrow> elems m arr n s ! k = read_bytes m (arr + of_nat (k * s)) s"
  by (simp add: elems_def)

lemma length_swap [simp]: "length (swap i j xs) = length xs"
  by (simp add: swap_def)

lemma nth_swap: "i < length xs \<Longrightarrow> j < length xs \<Longrightarrow> k < length xs \<Longrightarrow>
    swap i j xs ! k = (if k = j then xs ! i else if k = i then xs ! j else xs ! k)"
  by (simp add: swap_def)

lemma mset_swap' [simp]: "i < length xs \<Longrightarrow> j < length xs \<Longrightarrow> mset (swap i j xs) = mset xs"
  using mset_swap [of j xs i] by (simp add: swap_def)

lemma outside_refl [simp]: "outside arr N m m"
  by (simp add: outside_def)

lemma outside_trans: "outside arr N m m' \<Longrightarrow> outside arr N m' m'' \<Longrightarrow> outside arr N m m''"
  by (simp add: outside_def)

lemma outside_part: "outside (arr + of_nat q) N m m' \<Longrightarrow> q + N \<le> N' \<Longrightarrow> outside arr N' m m'"
  unfolding outside_def
proof (intro allI impI)
  fix a
  assume *: "\<forall>a. (\<forall>p<N. a \<noteq> arr + of_nat q + of_nat p) \<longrightarrow> m' a = m a" and N: "q + N \<le> N'"
    and a: "\<forall>p<N'. a \<noteq> arr + of_nat p"
  have "a \<noteq> arr + of_nat q + of_nat p" if "p < N" for p
    using a [rule_format, of "q + p"] that N by (simp add: add.assoc)
  then show "m' a = m a" using * by blast
qed

text \<open>A byte of one element is at another address than a byte of another.\<close>

lemma cell_neq:
  assumes "i < n" "j < n" "i \<noteq> j" "n * s \<le> 2 ^ 32" "k < s" "l < s"
  shows "arr + of_nat (i * s) + of_nat k \<noteq> arr + of_nat (j * s) + (of_nat l :: u32)"
proof -
  have "i * s + k < n * s" "j * s + l < n * s"
    using assms mult_le_mono1 [of "Suc i" n s] mult_le_mono1 [of "Suc j" n s] by auto
  moreover have "i * s + k \<noteq> j * s + l"
  proof
    assume "i * s + k = j * s + l"
    then have "(i * s + k) div s = (j * s + l) div s" by simp
    then show False using assms by simp
  qed
  ultimately have "arr + of_nat (i * s + k) \<noteq> arr + (of_nat (j * s + l) :: u32)"
    using assms(4) by (subst addr_eq_iff) auto
  then show ?thesis by (simp add: add.assoc)
qed

lemma memswap_self: "memswap m a a sz = m"
  unfolding memswap_def memcpy_def memcpy_same Let_def by (rule store_list_same) simp

lemma memswap_bytes:
  fixes arr :: u32 and m :: mem
  assumes ij: "i < n" "j < n" "i \<noteq> j" and n: "n * unat sz \<le> 2 ^ 32" and k: "k < unat sz"
  defines "a \<equiv> \<lambda>i. arr + of_nat (i * unat sz)"
  defines "m' \<equiv> memswap m (a i) (a j) sz"
  shows "m' (a j + of_nat k) = m (a i + of_nat k)" and "m' (a i + of_nat k) = m (a j + of_nat k)"
    and "(\<And>l. l < unat sz \<Longrightarrow> b \<noteq> a i + of_nat l) \<Longrightarrow> (\<And>l. l < unat sz \<Longrightarrow> b \<noteq> a j + of_nat l) \<Longrightarrow> m' b = m b"
proof -
  have s: "unat sz \<le> 2 ^ 32" using unat32_less [of sz] by simp
  note neq = cell_neq [OF _ _ _ n, of _ _ _ _ arr]
  show "m' (a j + of_nat k) = m (a i + of_nat k)"
    unfolding m'_def memswap_def Let_def using k s by (subst store_list_at) simp_all
  have "m' (a i + of_nat k) = memcpy m (a i) (a j) sz (a i + of_nat k)"
    unfolding m'_def memswap_def Let_def a_def
    by (rule store_list_frame) (use neq [OF ij(1,2) ij(3) k] in simp)
  also have "\<dots> = m (a j + of_nat k)"
    unfolding memcpy_def by (rule memcpy_loop_copies [OF s _ k]) (use neq [OF ij] in \<open>simp add: a_def\<close>)
  finally show "m' (a i + of_nat k) = m (a j + of_nat k)" .
  show "m' b = m b" if "\<And>l. l < unat sz \<Longrightarrow> b \<noteq> a i + of_nat l" "\<And>l. l < unat sz \<Longrightarrow> b \<noteq> a j + of_nat l"
    unfolding m'_def memswap_def Let_def memcpy_def
    by (subst store_list_frame, use that in simp, rule memcpy_loop_frame) (use that in simp)
qed

lemma memswap_elems:
  fixes arr :: u32 and m :: mem
  assumes ij: "i < n" "j < n" and n: "n * unat sz \<le> 2 ^ 32"
  defines "m' \<equiv> memswap m (arr + of_nat i * sz) (arr + of_nat j * sz) sz"
  shows "elems m' arr n (unat sz) = swap i j (elems m arr n (unat sz))" and "outside arr (n * unat sz) m m'"
proof -
  have a: "arr + of_nat i * sz = arr + of_nat (i * unat sz)" for i by simp
  have cell: "i * unat sz + l < n * unat sz" if "i < n" "l < unat sz" for i l
    using that mult_le_mono1 [of "Suc i" n "unat sz"] by auto
  have "elems m' arr n (unat sz) = swap i j (elems m arr n (unat sz)) \<and> outside arr (n * unat sz) m m'"
  proof (cases "i = j")
    case True
    then show ?thesis unfolding m'_def by (simp add: memswap_self swap_def)
  next
    case False
    note bytes = memswap_bytes [OF ij False n, where arr = arr and m = m, folded a, folded m'_def]
    have "elems m' arr n (unat sz) ! k = swap i j (elems m arr n (unat sz)) ! k" if k: "k < n" for k
    proof (rule nth_equalityI)
      fix l assume "l < length (elems m' arr n (unat sz) ! k)"
      then have l: "l < unat sz" using k by simp
      show "elems m' arr n (unat sz) ! k ! l = swap i j (elems m arr n (unat sz)) ! k ! l"
      proof (cases "k = i \<or> k = j")
        case True
        then show ?thesis using bytes(1,2) [OF l] l k ij False by (auto simp: nth_swap)
      next
        case other: False
        have "m' (arr + of_nat (k * unat sz) + of_nat l) = m (arr + of_nat (k * unat sz) + of_nat l)"
        proof (rule bytes(3) [OF l])
          fix q assume q: "q < unat sz"
          show "arr + of_nat (k * unat sz) + of_nat l \<noteq> arr + of_nat i * sz + of_nat q"
            using cell_neq [OF k ij(1) _ n l q, of arr] other by simp
          show "arr + of_nat (k * unat sz) + of_nat l \<noteq> arr + of_nat j * sz + of_nat q"
            using cell_neq [OF k ij(2) _ n l q, of arr] other by simp
        qed
        then show ?thesis using l k ij other by (simp add: nth_swap)
      qed
    qed (use k ij in \<open>simp add: nth_swap\<close>)
    then have "elems m' arr n (unat sz) = swap i j (elems m arr n (unat sz))" by (intro nth_equalityI) simp_all
    moreover have "outside arr (n * unat sz) m m'"
    proof (cases "unat sz = 0")
      case True
      then show ?thesis by (simp add: m'_def memswap_def memcpy_def read_bytes_def)
    next
      case False
      then have z: "0 < unat sz" by simp
      show ?thesis unfolding outside_def
      proof (intro allI impI)
        fix b assume b: "\<forall>p<n * unat sz. b \<noteq> arr + of_nat p"
        show "m' b = m b"
        proof (rule bytes(3) [OF z])
          fix q assume q: "q < unat sz"
          show "b \<noteq> arr + of_nat i * sz + of_nat q"
            using b [rule_format, OF cell [OF ij(1) q]] by (simp add: add.assoc)
          show "b \<noteq> arr + of_nat j * sz + of_nat q"
            using b [rule_format, OF cell [OF ij(2) q]] by (simp add: add.assoc)
        qed
      qed
    qed
    ultimately show ?thesis by blast
  qed
  then show "elems m' arr n (unat sz) = swap i j (elems m arr n (unat sz))" and "outside arr (n * unat sz) m m'" by auto
qed

lemma elems_take: "q \<le> n \<Longrightarrow> elems m arr q s = take q (elems m arr n s)"
  by (rule nth_equalityI) simp_all

lemma elems_drop: "q \<le> n \<Longrightarrow> elems m (arr + of_nat q * sz) (n - q) (unat sz) = drop q (elems m arr n (unat sz))"
  by (rule nth_equalityI) (simp_all add: algebra_simps)

lemma elems_frame:
  assumes "outside (arr + of_nat q * sz) (l * unat sz) m m'" "q + l \<le> n" "n * unat sz \<le> 2 ^ 32" "k < n" "k < q \<or> q + l \<le> k"
  shows "elems m' arr n (unat sz) ! k = elems m arr n (unat sz) ! k"
proof -
  have "m' (arr + of_nat (k * unat sz) + of_nat o') = m (arr + of_nat (k * unat sz) + of_nat o')" if o: "o' < unat sz" for o'
  proof (rule assms(1) [unfolded outside_def, rule_format])
    fix p assume p: "p < l * unat sz"
    have ends: "Suc k * unat sz \<le> n * unat sz" "(q + l) * unat sz \<le> n * unat sz"
      using assms(2,4) by (simp_all only: mult_le_mono1 Suc_leI)
    have "Suc k * unat sz \<le> q * unat sz \<or> (q + l) * unat sz \<le> k * unat sz"
      using assms(5) by (auto intro: mult_le_mono1 simp del: mult_Suc)
    then have "k * unat sz + o' \<noteq> q * unat sz + p" using p o by (auto simp: add_mult_distrib)
    moreover have "k * unat sz + o' < 2 ^ 32" "q * unat sz + p < 2 ^ 32"
      using ends p o assms(3) by (auto simp: add_mult_distrib)
    ultimately have "arr + of_nat (k * unat sz + o') \<noteq> arr + (of_nat (q * unat sz + p) :: u32)"
      by (subst addr_eq_iff)
    then show "arr + of_nat (k * unat sz) + of_nat o' \<noteq> arr + of_nat q * sz + of_nat p" by (simp add: add.assoc)
  qed
  then show ?thesis using assms(4) by (auto intro: nth_equalityI)
qed

section \<open>Partition\<close>

text \<open>
  The comparison function looks at its two elements and at memory outside the array only: on every store
  that has elements of the array of \<open>m\<close> in the array and agrees with \<open>m\<close> outside, it computes \<open>cmp\<close>.
\<close>

definition rearranged :: "u32 \<Rightarrow> nat \<Rightarrow> u32 \<Rightarrow> mem \<Rightarrow> mem \<Rightarrow> bool" where
  "rearranged arr n sz m m' \<longleftrightarrow>
     outside arr (n * unat sz) m m' \<and> set (elems m' arr n (unat sz)) \<subseteq> set (elems m arr n (unat sz))"

definition compares :: "(mem \<Rightarrow> u32 \<Rightarrow> u32 \<Rightarrow> int) \<Rightarrow> (bytes \<Rightarrow> bytes \<Rightarrow> int) \<Rightarrow> u32 \<Rightarrow> nat \<Rightarrow> u32 \<Rightarrow> mem \<Rightarrow> bool" where
  "compares compar cmp arr n sz m \<longleftrightarrow>
     (\<forall>m' i j. rearranged arr n sz m m' \<longrightarrow> i < n \<longrightarrow> j < n \<longrightarrow>
        compar m' (arr + of_nat i * sz) (arr + of_nat j * sz)
          = cmp (elems m' arr n (unat sz) ! i) (elems m' arr n (unat sz) ! j))"

lemma rearranged_refl [simp]: "rearranged arr n sz m m"
  by (simp add: rearranged_def)

lemma rearranged_trans: "rearranged arr n sz m m' \<Longrightarrow> rearranged arr n sz m' m'' \<Longrightarrow> rearranged arr n sz m m''"
  using outside_trans by (auto simp: rearranged_def)

lemma rearranged_part:
  assumes "rearranged (arr + of_nat q * sz) l sz m m'" "q + l \<le> n" "n * unat sz \<le> 2 ^ 32"
  shows "rearranged arr n sz m m'"
proof -
  have o: "outside (arr + of_nat q * sz) (l * unat sz) m m'" using assms(1) by (simp add: rearranged_def)
  have "q * unat sz + l * unat sz \<le> n * unat sz" using assms(2) by (metis add_mult_distrib mult_le_mono1)
  then have "outside arr (n * unat sz) m m'" using outside_part [of arr "q * unat sz" "l * unat sz" m m'] o by simp
  moreover have "elems m' arr n (unat sz) ! k \<in> set (elems m arr n (unat sz))" if k: "k < n" for k
  proof (cases "k < q \<or> q + l \<le> k")
    case True
    then show ?thesis using elems_frame [OF o assms(2,3) k] k by (metis length_elems nth_mem)
  next
    case False
    have sub: "elems m'' (arr + of_nat q * sz) l (unat sz) ! i = elems m'' arr n (unat sz) ! (q + i)" if "i < l" for m'' i
      using that assms(2) by (simp add: algebra_simps)
    have kq: "k - q < l" using False by arith
    have "elems m' arr n (unat sz) ! k = elems m' (arr + of_nat q * sz) l (unat sz) ! (k - q)"
      using sub [of "k - q" m'] kq False by (simp del: nth_elems)
    also have "\<dots> \<in> set (elems m' (arr + of_nat q * sz) l (unat sz))" by (rule nth_mem) (use kq in simp)
    also have "\<dots> \<subseteq> set (elems m (arr + of_nat q * sz) l (unat sz))" using assms(1) by (simp add: rearranged_def)
    also have "\<dots> \<subseteq> set (elems m arr n (unat sz))"
      using sub [of _ m] assms(2) by (auto simp: set_conv_nth simp del: nth_elems)
    finally show ?thesis .
  qed
  then have "set (elems m' arr n (unat sz)) \<subseteq> set (elems m arr n (unat sz))" by (auto simp: set_conv_nth)
  ultimately show ?thesis by (simp add: rearranged_def)
qed

lemma compares_part:
  assumes "compares compar cmp arr n sz m" "rearranged arr n sz m m1" "q + n' \<le> n" "n * unat sz \<le> 2 ^ 32"
  shows "compares compar cmp (arr + of_nat q * sz) n' sz m1"
  unfolding compares_def
proof (intro allI impI)
  fix m' i j
  assume o: "rearranged (arr + of_nat q * sz) n' sz m1 m'" and ij: "i < n'" "j < n'"
  have "rearranged arr n sz m m'" using rearranged_trans [OF assms(2) rearranged_part [OF o assms(3,4)]] .
  then have "compar m' (arr + of_nat (q + i) * sz) (arr + of_nat (q + j) * sz)
      = cmp (elems m' arr n (unat sz) ! (q + i)) (elems m' arr n (unat sz) ! (q + j))"
    using assms(1) [unfolded compares_def, rule_format, of m' "q + i" "q + j"] assms(3) ij by simp
  then show "compar m' (arr + of_nat q * sz + of_nat i * sz) (arr + of_nat q * sz + of_nat j * sz)
      = cmp (elems m' (arr + of_nat q * sz) n' (unat sz) ! i) (elems m' (arr + of_nat q * sz) n' (unat sz) ! j)"
    using ij assms(3) by (simp add: algebra_simps)
qed

lemma memswap_rearranged:
  assumes "i < n" "j < n" "n * unat sz \<le> 2 ^ 32"
  shows "rearranged arr n sz m (memswap m (arr + of_nat i * sz) (arr + of_nat j * sz) sz)"
  using memswap_elems [OF assms, where arr = arr and m = m] assms mset_eq_setD [OF mset_swap' [of i "elems m arr n (unat sz)" j]]
  by (simp add: rearranged_def)

fun lpart :: "('a \<Rightarrow> 'a \<Rightarrow> int) \<Rightarrow> nat \<Rightarrow> nat \<Rightarrow> nat \<Rightarrow> nat \<Rightarrow> 'a list \<Rightarrow> nat \<times> 'a list" where
  "lpart cmp p 0 j i xs = (i, xs)"
| "lpart cmp p (Suc n) j i xs =
     (if cmp (xs ! j) (xs ! p) < 0 then lpart cmp p n (Suc j) (Suc i) (swap i j xs) else lpart cmp p n (Suc j) i xs)"

lemma qs_part_lpart:
  assumes "compares compar cmp arr n sz m" "n * unat sz \<le> 2 ^ 32" "rearranged arr n sz m m0"
    and "p < n" "j + k \<le> n" "i \<le> j"
    and "qs_part compar arr (arr + of_nat p * sz) sz k j i m0 = (i', m')"
  shows "lpart cmp p k j i (elems m0 arr n (unat sz)) = (i', elems m' arr n (unat sz)) \<and> rearranged arr n sz m m'"
  using assms
proof (induction k arbitrary: j i m0)
  case (Suc k)
  have j: "j < n" "i < n" using Suc.prems by auto
  have c: "compar m0 (arr + of_nat j * sz) (arr + of_nat p * sz)
      = cmp (elems m0 arr n (unat sz) ! j) (elems m0 arr n (unat sz) ! p)"
    using Suc.prems(1,3,4) j unfolding compares_def by blast
  note sw = memswap_elems(1) [OF j(2,1) Suc.prems(2), where arr = arr and m = m0]
    memswap_rearranged [OF j(2,1) Suc.prems(2), of arr m0]
  show ?case
  proof (cases "compar m0 (arr + of_nat j * sz) (arr + of_nat p * sz) < 0")
    case True
    then show ?thesis
      using Suc.IH [OF Suc.prems(1,2) rearranged_trans [OF Suc.prems(3) sw(2)] Suc.prems(4), of "Suc j" "Suc i"] Suc.prems(5-7) c sw(1)
      by simp
  next
    case False
    then show ?thesis
      using Suc.IH [OF Suc.prems(1,2,3,4), of "Suc j" i] Suc.prems(5-7) c by simp
  qed
qed simp

lemma lpart_partitions:
  assumes "lpart cmp p k j i xs = (i', ys)" "j + k = p" "p < length xs" "i \<le> j"
    and "\<And>q. q < i \<Longrightarrow> cmp (xs ! q) (xs ! p) < 0" "\<And>q. i \<le> q \<Longrightarrow> q < j \<Longrightarrow> \<not> cmp (xs ! q) (xs ! p) < 0"
  shows "mset ys = mset xs \<and> ys ! p = xs ! p \<and> i' \<le> p
    \<and> (\<forall>q<i'. cmp (ys ! q) (xs ! p) < 0) \<and> (\<forall>q. i' \<le> q \<longrightarrow> q < p \<longrightarrow> \<not> cmp (ys ! q) (xs ! p) < 0)"
  using assms
proof (induction k arbitrary: j i xs)
  case (Suc k)
  have j: "j < p" "i < length xs" "j < length xs" using Suc.prems by auto
  show ?case
  proof (cases "cmp (xs ! j) (xs ! p) < 0")
    case True
    define zs where "zs = swap i j xs"
    have p: "zs ! p = xs ! p" using j Suc.prems by (simp add: zs_def nth_swap)
    have "mset ys = mset zs \<and> ys ! p = zs ! p \<and> i' \<le> p
      \<and> (\<forall>q<i'. cmp (ys ! q) (zs ! p) < 0) \<and> (\<forall>q. i' \<le> q \<longrightarrow> q < p \<longrightarrow> \<not> cmp (ys ! q) (zs ! p) < 0)"
    proof (rule Suc.IH [of "Suc j" "Suc i"])
      show "lpart cmp p k (Suc j) (Suc i) zs = (i', ys)" using Suc.prems(1) True by (simp add: zs_def)
      show "cmp (zs ! q) (zs ! p) < 0" if "q < Suc i" for q
        using that True j Suc.prems(4,5) unfolding p by (cases "q = i") (auto simp: zs_def nth_swap)
      show "\<not> cmp (zs ! q) (zs ! p) < 0" if "Suc i \<le> q" "q < Suc j" for q
        using that j Suc.prems(4,6) unfolding p by (cases "q = j") (auto simp: zs_def nth_swap)
    qed (use Suc.prems zs_def in auto)
    then show ?thesis unfolding p using j by (simp add: zs_def)
  next
    case False
    show ?thesis
      by (rule Suc.IH [of "Suc j" i]) (use Suc.prems False less_Suc_eq in auto)
  qed
qed auto

section \<open>Sorting\<close>

text \<open>What \<open>qsort\<close> does to an array, and the order of two elements.\<close>

abbreviation (input) less :: "('a \<Rightarrow> 'a \<Rightarrow> int) \<Rightarrow> 'a \<Rightarrow> 'a \<Rightarrow> bool" where
  "less cmp x y \<equiv> cmp x y < 0"

definition sorts :: "(bytes \<Rightarrow> bytes \<Rightarrow> int) \<Rightarrow> u32 \<Rightarrow> nat \<Rightarrow> u32 \<Rightarrow> mem \<Rightarrow> mem \<Rightarrow> bool" where
  "sorts cmp arr n sz m m' \<longleftrightarrow>
     mset (elems m' arr n (unat sz)) = mset (elems m arr n (unat sz))
     \<and> sorted_wrt (\<lambda>x y. \<not> less cmp y x) (elems m' arr n (unat sz)) \<and> outside arr (n * unat sz) m m'"

lemma partition_step:
  assumes "compares compar cmp arr n sz m" "n * unat sz \<le> 2 ^ 32" "2 \<le> n"
    and "qs_part compar arr (arr + of_nat (n - 1) * sz) sz (n - 1) 0 0 m = (i, m1)"
  defines "m2 \<equiv> memswap m1 (arr + of_nat i * sz) (arr + of_nat (n - 1) * sz) sz"
  defines "zs \<equiv> elems m2 arr n (unat sz)"
  shows "i < n" and "mset zs = mset (elems m arr n (unat sz))" and "rearranged arr n sz m m2"
    and "\<And>q. q < i \<Longrightarrow> less cmp (zs ! q) (zs ! i)" and "\<And>q. i < q \<Longrightarrow> q < n \<Longrightarrow> \<not> less cmp (zs ! q) (zs ! i)"
proof -
  define xs ys where "xs = elems m arr n (unat sz)" and "ys = elems m1 arr n (unat sz)"
  have l: "lpart cmp (n - 1) (n - 1) 0 0 xs = (i, ys)" and o1: "rearranged arr n sz m m1"
    using qs_part_lpart [OF assms(1,2) rearranged_refl, of "n - 1" 0 "n - 1" 0 i m1] assms(3,4) by (simp_all add: xs_def ys_def)
  have P: "mset ys = mset xs" "ys ! (n - 1) = xs ! (n - 1)" "i \<le> n - 1" "\<forall>q<i. less cmp (ys ! q) (xs ! (n - 1))"
    "\<forall>q. i \<le> q \<longrightarrow> q < n - 1 \<longrightarrow> \<not> less cmp (ys ! q) (xs ! (n - 1))"
    using lpart_partitions [OF l] assms(3) by (simp_all add: xs_def)
  show i: "i < n" using P(3) assms(3) by simp
  have n1: "n - 1 < n" using assms(3) by simp
  note sw = memswap_elems(1) [OF i n1 assms(2), where arr = arr and m = m1, folded m2_def]
    memswap_rearranged [OF i n1 assms(2), of arr m1, folded m2_def]
  have zs: "zs = swap i (n - 1) ys" using sw(1) by (simp add: zs_def ys_def)
  have ly: "length ys = n" by (simp add: ys_def)
  show "mset zs = mset (elems m arr n (unat sz))" using P(1) i n1 by (simp add: zs ly xs_def)
  show "rearranged arr n sz m m2" using o1 sw(2) by (rule rearranged_trans)
  have zi: "zs ! i = xs ! (n - 1)" using i n1 P(2) by (simp add: zs nth_swap ly)
  show "less cmp (zs ! q) (zs ! i)" if "q < i" for q
    using that P(3,4) i n1 unfolding zi by (simp add: zs nth_swap ly)
  show "\<not> less cmp (zs ! q) (zs ! i)" if "i < q" "q < n" for q
    using that P(3,5) i n1 unfolding zi by (simp add: zs nth_swap ly)
qed

lemma sorted_wrt_parts:
  assumes "mset ls = mset (take i zs)" "mset rs = mset (drop (Suc i) zs)" "i < length zs"
    and "sorted_wrt (\<lambda>x y. \<not> less cmp y x) ls" "sorted_wrt (\<lambda>x y. \<not> less cmp y x) rs"
    and "\<And>q. q < i \<Longrightarrow> less cmp (zs ! q) (zs ! i)" "\<And>q. i < q \<Longrightarrow> q < length zs \<Longrightarrow> \<not> less cmp (zs ! q) (zs ! i)"
    and "asymp_on (set zs) (less cmp)" "transp_on (set zs) (less cmp)"
  shows "sorted_wrt (\<lambda>x y. \<not> less cmp y x) (ls @ zs ! i # rs)"
proof -
  have L: "x \<in> set zs \<and> less cmp x (zs ! i)" if "x \<in> set ls" for x
  proof -
    have "x \<in> set (take i zs)" using that mset_eq_setD [OF assms(1)] by simp
    then obtain q where "q < i" "x = zs ! q" using assms(3) by (auto simp: in_set_conv_nth)
    then show ?thesis using assms(3,6) by auto
  qed
  have R: "y \<in> set zs \<and> \<not> less cmp y (zs ! i)" if "y \<in> set rs" for y
  proof -
    have "y \<in> set (drop (Suc i) zs)" using that mset_eq_setD [OF assms(2)] by simp
    then obtain q where "q < length zs - Suc i" "y = zs ! (Suc i + q)" by (auto simp: in_set_conv_nth)
    then show ?thesis using assms(7) [of "Suc i + q"] by auto
  qed
  have zi: "zs ! i \<in> set zs" using assms(3) by simp
  have "\<not> less cmp (zs ! i) x" if "x \<in> set ls" for x
    using L [OF that] assms(8) zi by (auto dest: asymp_onD)
  moreover have "\<not> less cmp y x" if "x \<in> set ls" "y \<in> set rs" for x y
    using L [OF that(1)] R [OF that(2)] transp_onD [OF assms(9), of y x "zs ! i"] zi by blast
  ultimately show ?thesis using assms(4,5) R by (auto simp: sorted_wrt_append)
qed

text \<open>Sorting the left part leaves the pivot and the right part alone.\<close>

lemma left_sorted_keeps:
  assumes "sorts cmp arr i sz m2 m3" "i \<le> n" "n * unat sz \<le> 2 ^ 32"
  shows "drop i (elems m3 arr n (unat sz)) = drop i (elems m2 arr n (unat sz))" and "rearranged arr n sz m2 m3"
proof -
  have o3: "outside (arr + of_nat 0 * sz) (i * unat sz) m2 m3" using assms(1) by (simp add: sorts_def)
  show "rearranged arr n sz m2 m3"
    using rearranged_part [of arr 0 sz i m2 m3 n] assms mset_eq_setD by (auto simp: sorts_def rearranged_def)
  have "elems m3 arr n (unat sz) ! k = elems m2 arr n (unat sz) ! k" if "i \<le> k" "k < n" for k
    by (rule elems_frame [OF o3]) (use that assms(2,3) in auto)
  then show "drop i (elems m3 arr n (unat sz)) = drop i (elems m2 arr n (unat sz))"
    by (intro nth_equalityI) (simp_all del: nth_elems)
qed

lemma sorts_halves:
  assumes S3: "sorts cmp arr i sz m2 m3" and S4: "sorts cmp (arr + of_nat (i + 1) * sz) (n - (i + 1)) sz m3 m4"
    and i: "i < n" and n: "n * unat sz \<le> 2 ^ 32"
  defines "zs \<equiv> elems m2 arr n (unat sz)"
  assumes left: "\<And>q. q < i \<Longrightarrow> less cmp (zs ! q) (zs ! i)" and right: "\<And>q. i < q \<Longrightarrow> q < n \<Longrightarrow> \<not> less cmp (zs ! q) (zs ! i)"
    and order: "asymp_on (set zs) (less cmp)" "transp_on (set zs) (less cmp)"
  shows "sorts cmp arr n sz m2 m4"
proof -
  have lz: "length zs = n" by (simp add: zs_def)
  note o3 = left_sorted_keeps [OF S3 less_imp_le [OF i] n, folded zs_def]
  have o4: "outside (arr + of_nat (i + 1) * sz) ((n - (i + 1)) * unat sz) m3 m4" using S4 by (simp add: sorts_def)
  have o4': "outside arr (n * unat sz) m3 m4"
  proof (rule outside_part)
    show "outside (arr + of_nat ((i + 1) * unat sz)) ((n - (i + 1)) * unat sz) m3 m4" using o4 by (simp add: distrib_right)
    show "(i + 1) * unat sz + (n - (i + 1)) * unat sz \<le> n * unat sz"
      using i unfolding add_mult_distrib [symmetric] by simp
  qed
  define ls rs where "ls = elems m3 arr i (unat sz)" and "rs = elems m4 (arr + of_nat (i + 1) * sz) (n - (i + 1)) (unat sz)"
  have keep4: "elems m4 arr n (unat sz) ! k = elems m3 arr n (unat sz) ! k" if "k \<le> i" for k
    by (rule elems_frame [OF o4]) (use that i n in auto)
  have "elems m3 arr n (unat sz) ! i = zs ! i" using arg_cong [OF o3(1), of hd] i lz by (simp add: hd_drop_conv_nth del: nth_elems)
  then have mid: "elems m4 arr n (unat sz) ! i = zs ! i" using keep4 by simp
  have "take i (elems m4 arr n (unat sz)) = ls"
    unfolding ls_def using i by (intro nth_equalityI) (simp_all add: keep4 elems_take [of i n] del: nth_elems)
  moreover have "drop (i + 1) (elems m4 arr n (unat sz)) = rs"
    using elems_drop [of "i + 1" n m4 arr sz] i by (simp add: rs_def)
  ultimately have all: "elems m4 arr n (unat sz) = ls @ zs ! i # rs"
    using id_take_nth_drop [of i "elems m4 arr n (unat sz)"] i mid by simp
  have L: "mset ls = mset (take i zs)" "sorted_wrt (\<lambda>x y. \<not> less cmp y x) ls"
    using S3 i by (simp_all add: sorts_def ls_def elems_take [of i n m2] zs_def)
  have "drop (Suc i) (elems m3 arr n (unat sz)) = drop (Suc i) zs"
    using arg_cong [OF o3(1), of tl] by (simp add: tl_drop drop_Suc)
  then have R: "mset rs = mset (drop (Suc i) zs)" "sorted_wrt (\<lambda>x y. \<not> less cmp y x) rs"
    using S4 elems_drop [of "i + 1" n m3 arr sz] i by (simp_all add: sorts_def rs_def)
  have "mset (elems m4 arr n (unat sz)) = mset zs"
    unfolding all using L(1) R(1) i lz arg_cong [OF id_take_nth_drop [of i zs], of mset] by simp
  moreover have "sorted_wrt (\<lambda>x y. \<not> less cmp y x) (ls @ zs ! i # rs)"
    by (rule sorted_wrt_parts [OF L(1) R(1) _ L(2) R(2) left _ order]) (use i right lz in auto)
  ultimately show ?thesis using all outside_trans [OF _ o4'] o3(2) by (simp add: sorts_def zs_def rearranged_def)
qed

lemma qsort_sorts:
  assumes "compares compar cmp arr n sz m" "n * unat sz \<le> 2 ^ 32"
    and "asymp_on (set (elems m arr n (unat sz))) (less cmp)" "transp_on (set (elems m arr n (unat sz))) (less cmp)"
  shows "sorts cmp arr n sz m (qsort compar arr n sz m)"
  using assms
proof (induction n arbitrary: arr m rule: less_induct)
  case (less n)
  show ?case
  proof (cases "n < 2")
    case True
    then have "n = 0 \<or> n = 1" by auto
    then show ?thesis by (subst qsort.simps) (auto simp: sorts_def elems_def)
  next
    case False
    then have n: "2 \<le> n" by simp
    obtain i m1 where part: "qs_part compar arr (arr + of_nat (n - 1) * sz) sz (n - 1) 0 0 m = (i, m1)" by fastforce
    define m2 where "m2 = memswap m1 (arr + of_nat i * sz) (arr + of_nat (n - 1) * sz) sz"
    define zs where "zs = elems m2 arr n (unat sz)"
    note P = partition_step [OF less.prems(1,2) n part, folded m2_def, folded zs_def]
    have sz: "set zs = set (elems m arr n (unat sz))" using P(2) by (metis mset_eq_setD)
    have order: "asymp_on A (less cmp)" "transp_on A (less cmp)" if "A \<subseteq> set zs" for A
      using less.prems(3,4) that unfolding sz by (metis asymp_on_subset, metis transp_on_subset)
    have small: "k * unat sz \<le> 2 ^ 32" if "k \<le> n" for k
      using less.prems(2) mult_le_mono1 [OF that, of "unat sz"] by (rule order.trans [rotated])
    define m3 m4 where "m3 = qsort compar arr i sz m2" and "m4 = qsort compar (arr + of_nat (i + 1) * sz) (n - (i + 1)) sz m3"
    have S3: "sorts cmp arr i sz m2 m3" unfolding m3_def
    proof (rule less.IH [OF P(1)])
      show "compares compar cmp arr i sz m2" using compares_part [OF less.prems(1) P(3), of 0 i] less.prems(2) P(1) by simp
      show "asymp_on (set (elems m2 arr i (unat sz))) (less cmp)" "transp_on (set (elems m2 arr i (unat sz))) (less cmp)"
        using order [OF set_take_subset] P(1) by (simp_all add: elems_take [of i n] zs_def)
    qed (rule small [OF less_imp_le [OF P(1)]])
    note o3 = left_sorted_keeps [OF S3 less_imp_le [OF P(1)] less.prems(2), folded zs_def]
    have S4: "sorts cmp (arr + of_nat (i + 1) * sz) (n - (i + 1)) sz m3 m4" unfolding m4_def
    proof (rule less.IH)
      show "compares compar cmp (arr + of_nat (i + 1) * sz) (n - (i + 1)) sz m3"
        using compares_part [OF less.prems(1) rearranged_trans [OF P(3) o3(2)], of "i + 1" "n - (i + 1)"] less.prems(2) P(1) by simp
      have "elems m3 (arr + of_nat (i + 1) * sz) (n - (i + 1)) (unat sz) = drop (i + 1) zs"
        using elems_drop [of "i + 1" n m3 arr sz] P(1) arg_cong [OF o3(1), of tl] by (simp add: tl_drop drop_Suc)
      then show "asymp_on (set (elems m3 (arr + of_nat (i + 1) * sz) (n - (i + 1)) (unat sz))) (less cmp)"
        "transp_on (set (elems m3 (arr + of_nat (i + 1) * sz) (n - (i + 1)) (unat sz))) (less cmp)"
        using order [OF set_drop_subset] by simp_all
    qed (use small P(1) n in simp_all)
    have "sorts cmp arr n sz m2 m4"
      by (rule sorts_halves [OF S3 S4 P(1) less.prems(2), folded zs_def]) (use P(4,5) order [OF order_refl] in auto)
    moreover have "qsort compar arr n sz m = m4"
      using n part by (subst qsort.simps) (simp add: m4_def m3_def m2_def Let_def)
    ultimately show ?thesis using P(2) outside_trans P(3) unfolding sorts_def zs_def rearranged_def by metis
  qed
qed

text \<open>
  C31: For a comparison function that computes a strict order of the elements, \<open>qsort\<close> permutes the elements
  of the array so that no element is less than an earlier one, and changes nothing outside the array.
\<close>

theorem qsort_correct:
  assumes "compares compar cmp arr n sz m" and "n * unat sz \<le> 2 ^ 32"
    and "asymp_on (set (elems m arr n (unat sz))) (\<lambda>x y. cmp x y < 0)"
    and "transp_on (set (elems m arr n (unat sz))) (\<lambda>x y. cmp x y < 0)"
  shows "let m' = qsort compar arr n sz m; xs = elems m arr n (unat sz); ys = elems m' arr n (unat sz)
    in mset ys = mset xs \<and> (\<forall>i j. i < j \<and> j < n \<longrightarrow> \<not> cmp (ys ! j) (ys ! i) < 0)
       \<and> (\<forall>a. (\<forall>p<n * unat sz. a \<noteq> arr + of_nat p) \<longrightarrow> m' a = m a)"
  using qsort_sorts [OF assms] by (simp add: sorts_def outside_def Let_def sorted_wrt_iff_nth_less)

theorem qsort_witness:
  "let m = (\<lambda>a. if a = 100 then 9 else if a = 101 then 4 else 7) :: mem;
       m' = qsort (\<lambda>m a b. sint (m a) - sint (m b)) 100 3 1 m
   in mset (elems m' 100 3 1) = {#[9], [4], [7]#} \<and> m' 99 = 7"
proof -
  define m :: mem where "m = (\<lambda>a. if a = 100 then 9 else if a = 101 then 4 else 7)"
  define cmp :: "bytes \<Rightarrow> bytes \<Rightarrow> int" where "cmp x y = sint (x ! 0) - sint (y ! 0)" for x y
  have e: "elems m 100 3 1 = [[9], [4], [7]]"
    by (simp add: elems_def m_def read_bytes_def upt_rec)
  have "let m' = qsort (\<lambda>m a b. sint (m a) - sint (m b)) 100 3 1 m; xs = elems m 100 3 (unat (1 :: u32));
      ys = elems m' 100 3 (unat (1 :: u32))
    in mset ys = mset xs \<and> (\<forall>i j. i < j \<and> j < 3 \<longrightarrow> \<not> cmp (ys ! j) (ys ! i) < 0)
       \<and> (\<forall>a. (\<forall>p<3 * unat (1 :: u32). a \<noteq> 100 + of_nat p) \<longrightarrow> m' a = m a)"
    by (rule qsort_correct) (auto simp: compares_def cmp_def asymp_on_def transp_on_def)
  then have "mset (elems (qsort (\<lambda>m a b. sint (m a) - sint (m b)) 100 3 1 m) 100 3 1) = {#[9], [4], [7]#}"
    and out: "(\<forall>p<3. (99 :: u32) \<noteq> 100 + of_nat p) \<longrightarrow> qsort (\<lambda>m a b. sint (m a) - sint (m b)) 100 3 1 m 99 = m 99"
    by (simp_all add: Let_def e [simplified])
  moreover have "(99 :: u32) \<noteq> 100 + of_nat p" if "p < 3" for p
    using that by (auto simp: less_Suc_eq numeral_3_eq_3)
  ultimately show ?thesis by (simp add: m_def Let_def)
qed

section \<open>Sorting lines of text\<close>

text \<open>The comparison function of \<open>bin/sort.c\<close>, which sorts an array of pointers to strings.\<close>

definition compare :: "mem \<Rightarrow> u32 \<Rightarrow> u32 \<Rightarrow> int option" where
  "compare m a b = strcmp m (get32 (read_bytes m a 4) 0) (get32 (read_bytes m b 4) 0)"

definition sort_lines :: "u32 \<Rightarrow> nat \<Rightarrow> mem \<Rightarrow> mem" where
  "sort_lines lines n m = qsort (\<lambda>m a b. case compare m a b of Some r \<Rightarrow> r | None \<Rightarrow> 0) lines n 4 m"

definition line_ptr :: "mem \<Rightarrow> u32 \<Rightarrow> nat \<Rightarrow> u32" where
  "line_ptr m lines i = get32 (read_bytes m (lines + of_nat (i * 4)) 4) 0"

definition string_of :: "mem \<Rightarrow> u32 \<Rightarrow> bytes" where
  "string_of m p = (case strlen m p of Some n \<Rightarrow> read_bytes m p (unat n) | None \<Rightarrow> [])"

lemma string_of_cstring: "cstring_at m p xs \<Longrightarrow> string_of m p = xs"
  using strlen_cstring [of m p xs] by (auto simp: string_of_def cstring_at_def intro: nth_equalityI)

lemma bytes_cmp_sym: "bytes_cmp ys xs = - bytes_cmp xs ys"
  by (induction xs ys rule: bytes_cmp.induct) auto

lemma bytes_cmp_trans:
  "0 \<notin> set xs \<Longrightarrow> 0 \<notin> set ys \<Longrightarrow> 0 \<notin> set zs \<Longrightarrow> bytes_cmp xs ys < 0 \<Longrightarrow> bytes_cmp ys zs < 0 \<Longrightarrow> bytes_cmp xs zs < 0"
proof (induction xs arbitrary: ys zs)
  case Nil
  then show ?case by (cases ys; cases zs) (auto split: if_splits)
next
  case (Cons x xs)
  note prems = Cons.prems
  show ?case
  proof (cases ys)
    case Nil
    then show ?thesis using prems(4,5) by (cases zs) auto
  next
    case ys: (Cons y ys')
    show ?thesis
    proof (cases zs)
      case Nil
      then show ?thesis using prems(4,5) ys by (simp split: if_splits)
    next
      case (Cons z zs')
      have "bytes_cmp xs zs' < 0" if "x = y" "y = z"
        by (rule Cons.IH [of ys']) (use prems ys Cons that in auto)
      then show ?thesis using prems(4,5) ys Cons by (auto split: if_splits)
    qed
  qed
qed

lemma cstring_outside:
  assumes "cstring_at m p xs" "outside arr N m m'" "\<And>k q. k \<le> length xs \<Longrightarrow> q < N \<Longrightarrow> p + of_nat k \<noteq> arr + of_nat q"
  shows "cstring_at m' p xs"
proof -
  have "m' (p + of_nat k) = m (p + of_nat k)" if "k \<le> length xs" for k
    using assms(2,3) that unfolding outside_def by blast
  then show ?thesis using assms(1) by (simp add: cstring_at_def)
qed

lemma nth_elems_ptr: "i < n \<Longrightarrow> get32 (elems m lines n 4 ! i) 0 = line_ptr m lines i"
  by (simp add: line_ptr_def)

text \<open>The order of two entries of the array: that of the strings they point to in \<open>m\<close>.\<close>

definition text_of :: "mem \<Rightarrow> bytes \<Rightarrow> bytes" where
  "text_of m x = string_of m (get32 x 0)"

definition line_cmp :: "mem \<Rightarrow> bytes \<Rightarrow> bytes \<Rightarrow> int" where
  "line_cmp m x y = bytes_cmp (text_of m x) (text_of m y)"

text \<open>The entries of an array point to the strings \<open>strs\<close>, which lie outside the array.\<close>

definition lines_at :: "mem \<Rightarrow> u32 \<Rightarrow> bytes list \<Rightarrow> bool" where
  "lines_at m lines strs \<longleftrightarrow>
     (\<forall>i<length strs. cstring_at m (line_ptr m lines i) (strs ! i)
       \<and> (\<forall>k\<le>length (strs ! i). \<forall>q<length strs * 4. line_ptr m lines i + of_nat k \<noteq> lines + of_nat q))"

lemma line_cmp_asym: "asymp_on A (less (line_cmp m))"
  unfolding asymp_on_def line_cmp_def
proof (intro ballI impI)
  fix x y assume "bytes_cmp (text_of m x) (text_of m y) < 0"
  then show "\<not> bytes_cmp (text_of m y) (text_of m x) < 0"
    using bytes_cmp_sym [of "text_of m y" "text_of m x"] by simp
qed

lemma lines_at_string:
  assumes "lines_at m lines strs" "x \<in> set (elems m lines (length strs) 4)" "outside lines (length strs * 4) m m'"
  shows "cstring_at m' (get32 x 0) (text_of m x)"
proof -
  obtain i where i: "i < length strs" "x = elems m lines (length strs) 4 ! i"
    using assms(2) by (auto simp: in_set_conv_nth simp del: nth_elems)
  then have c: "cstring_at m (get32 x 0) (strs ! i)" using assms(1) by (simp add: nth_elems_ptr lines_at_def del: nth_elems)
  have "cstring_at m' (get32 x 0) (strs ! i)"
    by (rule cstring_outside [OF c assms(3)])
      (use assms(1) i in \<open>simp add: nth_elems_ptr lines_at_def del: nth_elems\<close>)
  then show ?thesis using string_of_cstring [OF c] by (simp add: text_of_def)
qed

lemma lines_at_texts:
  assumes "lines_at m lines strs"
  shows "map (text_of m) (elems m lines (length strs) 4) = strs"
  by (rule nth_equalityI)
    (use assms string_of_cstring in \<open>auto simp: lines_at_def text_of_def line_ptr_def\<close>)

lemma line_cmp_compares:
  assumes "lines_at m lines strs"
  shows "compares (\<lambda>m a b. case compare m a b of Some r \<Rightarrow> r | None \<Rightarrow> 0) (line_cmp m) lines (length strs) 4 m"
  unfolding compares_def
proof (intro allI impI)
  let ?n = "length strs"
  fix m' i j assume m': "rearranged lines ?n 4 m m'" and ij: "i < ?n" "j < ?n"
  have four: "unat (4 :: u32) = 4" by simp
  have in_m: "elems m' lines ?n 4 ! k \<in> set (elems m lines ?n 4)" if "k < ?n" for k
    using m' that unfolding rearranged_def four by (metis length_elems nth_mem subsetD)
  have o: "outside lines (?n * 4) m m'" using m' by (simp add: rearranged_def)
  have "strcmp m' (get32 (elems m' lines ?n 4 ! i) 0) (get32 (elems m' lines ?n 4 ! j) 0)
      = Some (bytes_cmp (text_of m (elems m' lines ?n 4 ! i)) (text_of m (elems m' lines ?n 4 ! j)))"
    by (rule strcmp_cstring; rule lines_at_string [OF assms in_m o]) (use ij in auto)
  then show "(case compare m' (lines + of_nat i * 4) (lines + of_nat j * 4) of Some r \<Rightarrow> r | None \<Rightarrow> 0)
      = line_cmp m (elems m' lines ?n (unat (4 :: u32)) ! i) (elems m' lines ?n (unat (4 :: u32)) ! j)"
    using ij by (simp add: compare_def line_cmp_def)
qed

lemma sort_lines_sorts:
  assumes "lines_at m lines strs" "length strs * 4 \<le> 2 ^ 32"
  shows "sorts (line_cmp m) lines (length strs) 4 m (sort_lines lines (length strs) m)"
  unfolding sort_lines_def
proof (rule qsort_sorts [OF line_cmp_compares [OF assms(1)] _ line_cmp_asym])
  have "0 \<notin> set (text_of m x)" if "x \<in> set (elems m lines (length strs) 4)" for x
    using lines_at_string [OF assms(1) that outside_refl] by (rule cstring_at_no_0)
  then show "transp_on (set (elems m lines (length strs) (unat (4 :: u32)))) (less (line_cmp m))"
    unfolding transp_on_def line_cmp_def by simp (meson bytes_cmp_trans)
qed (use assms(2) in simp)

text \<open>
  When the first \<open>n\<close> entries of the array of lines point to strings outside the array, the call of
  \<open>qsort\<close> in \<open>sort\<close> leaves pointers to the same strings, each as often as before, in lexicographic order.
\<close>

theorem sort_lines_correct:
  assumes "lines_at m lines strs" "length strs * 4 \<le> 2 ^ 32"
  shows "\<exists>strs'. mset strs' = mset strs \<and> sorted_wrt (\<lambda>x y. bytes_cmp x y \<le> 0) strs'
    \<and> (\<forall>i<length strs. cstring_at (sort_lines lines (length strs) m)
         (line_ptr (sort_lines lines (length strs) m) lines i) (strs' ! i))"
proof -
  let ?n = "length strs" and ?m = "sort_lines lines (length strs) m"
  note S = sort_lines_sorts [OF assms]
  define strs' where "strs' = map (text_of m) (elems ?m lines ?n 4)"
  have M: "mset (elems ?m lines ?n 4) = mset (elems m lines ?n 4)" using S by (simp add: sorts_def)
  have "mset strs' = mset (map (text_of m) (elems m lines ?n 4))" unfolding strs'_def mset_map M ..
  moreover have "sorted_wrt (\<lambda>x y. bytes_cmp x y \<le> 0) strs'"
  proof -
    have "\<not> less (line_cmp m) y x \<longleftrightarrow> bytes_cmp (text_of m x) (text_of m y) \<le> 0" for x y
      unfolding line_cmp_def bytes_cmp_sym [of "text_of m y" "text_of m x"] by linarith
    then show ?thesis using S by (simp add: strs'_def sorted_wrt_map sorts_def)
  qed
  moreover have "cstring_at ?m (line_ptr ?m lines i) (strs' ! i)" if "i < ?n" for i
  proof -
    have "elems ?m lines ?n 4 ! i \<in> set (elems m lines ?n 4)"
      unfolding mset_eq_setD [OF M, symmetric] by (rule nth_mem) (use that in simp)
    then show ?thesis using lines_at_string [OF assms(1), of _ ?m] S that
      by (simp add: strs'_def nth_elems_ptr [OF that, symmetric] sorts_def del: nth_elems)
  qed
  ultimately show ?thesis using lines_at_texts [OF assms(1)] by metis
qed

theorem sort_lines_witness:
  "let m = (\<lambda>a. if a = 0 then 100 else if a = 4 then 102 else if a = 100 then 98 else if a = 102 then 97 else 0) :: mem
   in \<exists>strs'. mset strs' = {#[98], [97]#} \<and> sorted_wrt (\<lambda>x y. bytes_cmp x y \<le> 0) strs'"
proof -
  define m :: mem where
    "m = (\<lambda>a. if a = 0 then 100 else if a = 4 then 102 else if a = 100 then 98 else if a = 102 then 97 else 0)"
  have "line_ptr m 0 0 = 100" "line_ptr m 0 1 = 102"
    by (simp_all add: line_ptr_def m_def get32_def read_bytes_def)
  moreover have "cstring_at m 100 [98]" "cstring_at m 102 [97]"
    by (simp_all add: cstring_at_Cons m_def)
  moreover have "(100 :: u32) + of_nat k \<noteq> of_nat q" "(102 :: u32) + of_nat k \<noteq> of_nat q" if "k \<le> 1" "q < 8" for k q
    using that addr_eq_iff [of "100 + k" q 0] addr_eq_iff [of "102 + k" q 0] by auto
  ultimately have "lines_at m 0 [[98], [97]]" by (auto simp: lines_at_def less_Suc_eq)
  from sort_lines_correct [OF this] show ?thesis unfolding Let_def m_def by auto
qed

end
