(* ===== verification/Stdio.thy ===== *)
theory Stdio
  imports Ctype
begin

text \<open>
  Buffered input and output, \<open>lib/libc/stdio.c\<close>.  A stream is the structure \<open>FILE\<close> with its buffer; its
  pointer is the offset in the buffer.  A store outside the buffer has no value.  The system calls the
  library makes are a \<open>world\<close>: what the calls of \<open>read\<close>, \<open>open\<close> and \<open>write\<close> will return, and the log of what
  was written.
\<close>

section \<open>System calls\<close>

datatype reply = RErr int | RData bytes

record world =
  w_in :: "int \<Rightarrow> reply list"
  w_open :: "int list"
  w_ret :: "int list"
  w_log :: "(int \<times> bytes) list"
  w_closed :: "int list"
  errno :: int

text \<open>The end of \<open>syscall\<close> in \<open>syscall.c\<close>: a negative result is an error number.\<close>

definition syscall_ret :: "int \<Rightarrow> world \<Rightarrow> int \<times> world" where
  "syscall_ret ret w = (if ret < 0 then (-1, w\<lparr>errno := - ret\<rparr>) else (ret, w\<lparr>errno := 0\<rparr>))"

text \<open>
  \<open>read\<close>: the next reply for the descriptor, of which at most \<open>n\<close> bytes are taken; no reply left is the end of
  the file.  \<open>write\<close>: the next scripted result, or all bytes written if there is none.
\<close>

definition libc_read :: "int \<Rightarrow> nat \<Rightarrow> world \<Rightarrow> int \<times> bytes \<times> world" where
  "libc_read fd n w =
     (case w_in w fd of
        [] \<Rightarrow> (case syscall_ret 0 w of (r, w') \<Rightarrow> (r, [], w'))
      | RErr e # rest \<Rightarrow> (case syscall_ret (- e) (w\<lparr>w_in := (w_in w)(fd := rest)\<rparr>) of (r, w') \<Rightarrow> (r, [], w'))
      | RData bs # rest \<Rightarrow>
          (let more = (if length bs \<le> n then rest else RData (drop n bs) # rest)
           in case syscall_ret (int (length (take n bs))) (w\<lparr>w_in := (w_in w)(fd := more)\<rparr>) of (r, w') \<Rightarrow> (r, take n bs, w')))"

definition libc_write :: "int \<Rightarrow> bytes \<Rightarrow> world \<Rightarrow> int \<times> world" where
  "libc_write fd bs w =
     (let w1 = w\<lparr>w_log := w_log w @ [(fd, bs)]\<rparr>
      in case w_ret w of
           [] \<Rightarrow> syscall_ret (int (length bs)) w1
         | r # rest \<Rightarrow> syscall_ret r (w1\<lparr>w_ret := rest\<rparr>))"

definition libc_open :: "world \<Rightarrow> int \<times> world" where
  "libc_open w = (case w_open w of [] \<Rightarrow> syscall_ret (- 2) w | r # rest \<Rightarrow> syscall_ret r (w\<lparr>w_open := rest\<rparr>))"

definition libc_close :: "int \<Rightarrow> world \<Rightarrow> world" where
  "libc_close fd w = snd (syscall_ret 0 (w\<lparr>w_closed := w_closed w @ [fd]\<rparr>))"

section \<open>Streams\<close>

abbreviation (input) BUFSIZ :: nat where "BUFSIZ \<equiv> 1024"
abbreviation (input) EOF :: int where "EOF \<equiv> -1"
abbreviation (input) IOREAD :: u8 where "IOREAD \<equiv> 1"
abbreviation (input) IOEOF :: u8 where "IOEOF \<equiv> 4"
abbreviation (input) EINTR :: int where "EINTR \<equiv> 4"

record FILE =
  f_fd :: int
  f_buf :: bytes
  f_size :: nat
  f_buf_size :: nat
  f_ptr :: nat
  f_flags :: u8

record stdio =
  iob :: "FILE list"
  sys :: world

definition falloc :: "stdio \<Rightarrow> nat option \<times> stdio" where
  "falloc s =
     (case first_index (\<lambda>f. f_flags f = 0) (iob s) of
        None \<Rightarrow> (None, s)
      | Some i \<Rightarrow> (Some i, s\<lparr>iob := (iob s)[i := (iob s ! i)
          \<lparr>f_flags := IOREAD, f_size := 0, f_buf_size := length (f_buf (iob s ! i)), f_ptr := 0\<rparr>]\<rparr>))"

definition ffree :: "nat \<Rightarrow> stdio \<Rightarrow> stdio" where
  "ffree i s = s\<lparr>iob := (iob s)[i := (iob s ! i)\<lparr>f_flags := 0\<rparr>]\<rparr>"

text \<open>The flags that \<open>fopen\<close> computes from the mode: \<open>r\<close>, \<open>w\<close>, \<open>a\<close>, \<open>b\<close> and \<open>+\<close>.\<close>

abbreviation (input) O_RDONLY :: u32 where "O_RDONLY \<equiv> 0"
abbreviation (input) O_WRONLY :: u32 where "O_WRONLY \<equiv> 1"
abbreviation (input) O_RDWR :: u32 where "O_RDWR \<equiv> 2"
abbreviation (input) O_CREAT :: u32 where "O_CREAT \<equiv> 4"
abbreviation (input) O_APPEND :: u32 where "O_APPEND \<equiv> 8"
abbreviation (input) O_TRUNC :: u32 where "O_TRUNC \<equiv> 16"

fun mode_flags :: "bytes \<Rightarrow> u32 \<Rightarrow> u32" where
  "mode_flags [] flags = flags"
| "mode_flags (c # mode) flags =
     mode_flags mode
       (if c = 114 then O_RDONLY
        else if c = 119 then O_WRONLY OR O_CREAT OR O_TRUNC
        else if c = 97 then O_WRONLY OR O_CREAT OR O_APPEND
        else if c = 43 then
          (if flags AND O_RDONLY \<noteq> 0 then (flags AND NOT O_RDONLY) OR O_RDWR
           else if flags AND O_WRONLY \<noteq> 0 then (flags AND NOT O_WRONLY) OR O_RDWR
           else flags)
        else flags)"

text \<open>\<open>fopen\<close> returns the stream and the flags it opened the file with.\<close>

definition fopen :: "bytes \<Rightarrow> stdio \<Rightarrow> (nat \<times> u32) option \<times> stdio" where
  "fopen mode s =
     (case falloc s of
        (None, s) \<Rightarrow> (None, s)
      | (Some i, s) \<Rightarrow>
          (let flags = mode_flags mode 0; (fd, w) = libc_open (sys s); s = s\<lparr>sys := w\<rparr>
           in if fd = -1 then (None, ffree i (s\<lparr>iob := (iob s)[i := (iob s ! i)\<lparr>f_fd := -1\<rparr>]\<rparr>))
              else (Some (i, flags), s\<lparr>iob := (iob s)[i := (iob s ! i)\<lparr>f_fd := fd, f_size := 0\<rparr>]\<rparr>)))"

definition fdopen :: "int \<Rightarrow> stdio \<Rightarrow> nat option \<times> stdio" where
  "fdopen fd s =
     (case falloc s of
        (None, s) \<Rightarrow> (None, s)
      | (Some i, s) \<Rightarrow> (Some i, s\<lparr>iob := (iob s)[i := (iob s ! i)\<lparr>f_fd := fd\<rparr>]\<rparr>))"

definition fclose :: "nat \<Rightarrow> stdio \<Rightarrow> int \<times> stdio" where
  "fclose i s =
     (if f_flags (iob s ! i) = 0 then (EOF, s)
      else (0, s\<lparr>sys := libc_close (f_fd (iob s ! i)) (sys s),
                 iob := (iob s)[i := (iob s ! i)\<lparr>f_fd := -1, f_flags := 0\<rparr>]\<rparr>))"

definition stdio_init :: "stdio \<Rightarrow> stdio" where
  "stdio_init s = snd (fdopen 2 (snd (fdopen 1 (snd (fdopen 0 s)))))"

section \<open>Output\<close>

definition fflush :: "FILE \<times> world \<Rightarrow> int \<times> FILE \<times> world" where
  "fflush fw =
     (case fw of (f, w) \<Rightarrow>
        if f_fd f = -1 then (0, f, w)
        else
          (let sz = f_size f; f' = f\<lparr>f_ptr := 0, f_size := 0\<rparr>; (len, w') = libc_write (f_fd f) (take sz (f_buf f)) w
           in (if len \<noteq> int sz then EOF else 0, f', w')))"

text \<open>\<open>*f->ptr++ = c; ++f->sz\<close>, and the flush after a newline.\<close>

definition put_char :: "int \<Rightarrow> FILE \<times> world \<Rightarrow> (int \<times> FILE \<times> world) option" where
  "put_char c fw =
     (case fw of (f, w) \<Rightarrow>
        if f_ptr f < length (f_buf f) then
          (let f' = f\<lparr>f_buf := (f_buf f)[f_ptr f := word_of_int c], f_ptr := f_ptr f + 1, f_size := f_size f + 1\<rparr>
           in if c = 10 then (case fflush (f', w) of (r, fw') \<Rightarrow> Some (if r \<noteq> 0 then EOF else c, fw'))
              else Some (c, f', w))
        else None)"

definition fputc :: "int \<Rightarrow> FILE \<times> world \<Rightarrow> (int \<times> FILE \<times> world) option" where
  "fputc c fw =
     (case fw of (f, w) \<Rightarrow>
        if f_size f \<ge> f_buf_size f then
          (case fflush (f, w) of (r, fw') \<Rightarrow> if r \<noteq> 0 then Some (EOF, fw') else put_char c fw')
        else put_char c (f, w))"

fun fputs_loop :: "bytes \<Rightarrow> int \<Rightarrow> FILE \<times> world \<Rightarrow> (int \<times> FILE \<times> world) option" where
  "fputs_loop [] n fw = Some (n, fw)"
| "fputs_loop (c # s) n fw =
     (case fputc (sint c) fw of
        None \<Rightarrow> None
      | Some (r, fw') \<Rightarrow> if r < 0 then Some (EOF, fw') else fputs_loop s (n + 1) fw')"

definition fputs :: "bytes option \<Rightarrow> FILE \<times> world \<Rightarrow> (int \<times> FILE \<times> world) option" where
  "fputs s = fputs_loop (case s of None \<Rightarrow> [40, 110, 117, 108, 108, 41] | Some str \<Rightarrow> str) 0"

text \<open>\<open>fwrite\<close>: the segment is limited by the size of the buffer, not by the room left in it.\<close>

function fwrite_loop :: "bytes \<Rightarrow> nat \<Rightarrow> FILE \<times> world \<Rightarrow> (nat \<times> FILE \<times> world) option" where
  "fwrite_loop src nbytes fw =
     (if src = [] then Some (nbytes, fw)
      else
        (let (f, w) = (if f_size (fst fw) \<ge> length (f_buf (fst fw)) then snd (fflush fw) else fw);
             segment = min (length src) (length (f_buf f))
         in if segment = 0 \<or> f_ptr f + segment > length (f_buf f) then None
            else fwrite_loop (drop segment src) (nbytes + segment)
                   (f\<lparr>f_buf := overwrite (f_buf f) (f_ptr f) (take segment src), f_size := f_size f + segment, f_ptr := f_ptr f + segment\<rparr>, w)))"
  by pat_completeness auto
termination
  by (relation "measure (\<lambda>(src, n, fw). length src)") auto

text \<open>The result is \<open>nbytes / size\<close>, and a division by zero has no value.\<close>

definition fwrite :: "bytes \<Rightarrow> nat \<Rightarrow> FILE \<times> world \<Rightarrow> (nat \<times> FILE \<times> world) option" where
  "fwrite src sz fw =
     (if sz = 0 then None else map_option (\<lambda>(n, fw'). (n div sz, fw')) (fwrite_loop src 0 fw))"

section \<open>Input\<close>

text \<open>The loop of \<open>_filebuf\<close> repeats an interrupted call.\<close>

function filebuf_read :: "FILE \<Rightarrow> world \<Rightarrow> int \<times> bytes \<times> world" where
  "filebuf_read f w =
     (case libc_read (f_fd f) (f_buf_size f) w of
        (s, bs, w') \<Rightarrow> if s = -1 \<and> errno w' = EINTR then filebuf_read f w' else (s, bs, w'))"
  by pat_completeness auto
termination
  by (relation "measure (\<lambda>(f, w). length (w_in w (f_fd f)))")
    (auto simp: libc_read_def syscall_ret_def Let_def split: list.splits reply.splits if_splits)

definition filebuf :: "FILE \<times> world \<Rightarrow> FILE \<times> world" where
  "filebuf fw =
     (case fw of (f, w) \<Rightarrow>
        case filebuf_read f w of
          (s, bs, w') \<Rightarrow>
            (f\<lparr>f_ptr := 0, f_size := (if s > 0 then nat s else 0), f_buf := overwrite (f_buf f) 0 bs,
               f_flags := (if s = 0 then f_flags f OR IOEOF else f_flags f)\<rparr>, w'))"

text \<open>
  \<open>fread\<close>: the bytes copied so far and the stream.  The early return at the end of the file forgets what
  was copied, which the flag of the result records.
\<close>

function fread_loop :: "nat \<Rightarrow> bytes \<Rightarrow> FILE \<times> world \<Rightarrow> bool \<times> bytes \<times> FILE \<times> world" where
  "fread_loop tot got fw =
     (if tot = 0 then (True, got, fw)
      else if f_size (fst fw) = 0 \<and> f_flags (fst fw) AND IOEOF \<noteq> 0 then (False, got, fw)
      else
        (let (f, w) = (if f_size (fst fw) = 0 then filebuf (snd (fflush fw)) else fw)
         in if f_size f = 0 then (True, got, f, w)
            else
              (let segment = min tot (f_size f)
               in fread_loop (tot - segment) (got @ take segment (drop (f_ptr f) (f_buf f)))
                    (f\<lparr>f_size := f_size f - segment, f_ptr := f_ptr f + segment\<rparr>, w))))"
  by pat_completeness auto
termination
  by (relation "measure (\<lambda>(tot, got, fw). tot)") auto

definition fread :: "nat \<Rightarrow> nat \<Rightarrow> FILE \<times> world \<Rightarrow> (nat \<times> bytes \<times> FILE \<times> world) option" where
  "fread sz n fw =
     (if sz = 0 then None
      else (case fread_loop (sz * n) [] fw of
              (counted, got, fw') \<Rightarrow> Some (if counted then length got div sz else 0, got, fw')))"

definition fgetc :: "FILE \<times> world \<Rightarrow> int \<times> FILE \<times> world" where
  "fgetc fw = (case fread_loop 1 [] fw of (counted, got, fw') \<Rightarrow> (if counted \<and> length got = 1 then uint (hd got) else EOF, fw'))"

text \<open>\<open>fgets\<close> with room for \<open>n\<close> more characters; \<open>c\<close> is the last one read.\<close>

fun fgets_loop :: "nat \<Rightarrow> u8 \<Rightarrow> bytes \<Rightarrow> FILE \<times> world \<Rightarrow> bytes \<times> FILE \<times> world" where
  "fgets_loop 0 c got fw = (got, fw)"
| "fgets_loop (Suc n) c got fw =
     (if c = 10 then (got, fw)
      else
        (let (f, w) = (if f_size (fst fw) = 0 then filebuf fw else fw)
         in if f_size f = 0 then (got, f, w)
            else
              (let c = f_buf f ! f_ptr f
               in fgets_loop n c (got @ [c]) (f\<lparr>f_ptr := f_ptr f + 1, f_size := f_size f - 1\<rparr>, w))))"

definition fgets :: "nat \<Rightarrow> FILE \<times> world \<Rightarrow> bytes option \<times> FILE \<times> world" where
  "fgets sz fw =
     (if sz = 0 then (None, fw)
      else (case fgets_loop (sz - 1) 0 [] fw of (got, fw') \<Rightarrow> (if got = [] then None else Some got, fw')))"

declare fwrite_loop.simps [simp del] filebuf_read.simps [simp del] fread_loop.simps [simp del]

section \<open>What a stream sends\<close>

text \<open>
  The contract of \<open>fputc\<close> that the output functions rely on: a sink that still takes \<open>n\<close> characters appends
  the next one to what it was sent.
\<close>

text \<open>What \<open>fputs\<close> sends of a text: all of it, or up to and including the first byte that is negative as a \<open>char\<close>.\<close>

definition fputs_part :: "bytes \<Rightarrow> bytes" where
  "fputs_part s = takeWhile (\<lambda>c. 0 \<le> sint c) s @ take 1 (dropWhile (\<lambda>c. 0 \<le> sint c) s)"

lemma sint_u8_nonneg: "0 \<le> sint (c :: u8) \<longleftrightarrow> unat c < 0x80"
proof -
  have "sint c < 0 \<longleftrightarrow> bit (unat c) 7" using bit_last_iff [of c] by (simp add: bit_unsigned_iff bit_imp_possible_bit)
  moreover have "unat c < 256" using unsigned_less [of c, where ?'a = nat] by simp
  then have "unat c div 128 = (if 128 \<le> unat c then 1 else 0)" by (auto intro: div_nat_eqI)
  then have "bit (unat c) 7 \<longleftrightarrow> 0x80 \<le> unat c" by (simp add: bit_iff_odd)
  ultimately show ?thesis by linarith
qed

locale char_sink =
  fixes room :: "nat \<Rightarrow> FILE \<times> world \<Rightarrow> bool" and sent :: "FILE \<times> world \<Rightarrow> bytes"
  assumes fputc_sends: "room (Suc n) fw \<Longrightarrow> \<exists>fw'. fputc c fw = Some (c, fw') \<and> room n fw' \<and> sent fw' = sent fw @ [word_of_int c]"
begin

lemma fputs_sends:
  assumes "room (n + length s) fw" "\<forall>c\<in>set s. 0 \<le> sint c"
  shows "\<exists>fw'. fputs_loop s k fw = Some (k + int (length s), fw') \<and> room n fw' \<and> sent fw' = sent fw @ s"
  using assms
proof (induction s arbitrary: k fw)
  case (Cons c s)
  obtain fw1 where f1: "fputc (sint c) fw = Some (sint c, fw1)" "room (n + length s) fw1" "sent fw1 = sent fw @ [c]"
    using fputc_sends [of "n + length s" fw "sint c"] Cons.prems(1) by auto
  with Cons.IH [of fw1 "k + 1"] Cons.prems(2) show ?case by auto
qed simp

lemma fputs_sends_part:
  assumes "room (length s) fw"
  shows "\<exists>fw' m. fputs_loop s k fw = Some (if \<forall>c\<in>set s. 0 \<le> sint c then k + int (length s) else EOF, fw')
    \<and> room m fw' \<and> sent fw' = sent fw @ fputs_part s"
  using assms
proof (induction s arbitrary: k fw)
  case (Cons c s)
  obtain fw1 where f1: "fputc (sint c) fw = Some (sint c, fw1)" "room (length s) fw1" "sent fw1 = sent fw @ [c]"
    using fputc_sends [of "length s" fw "sint c"] Cons.prems(1) by auto
  show ?case
  proof (cases "0 \<le> sint c")
    case True
    obtain fw' m where "fputs_loop s (k + 1) fw1 = Some (if \<forall>c\<in>set s. 0 \<le> sint c then k + 1 + int (length s) else EOF, fw')"
      "room m fw'" "sent fw' = sent fw1 @ fputs_part s" using Cons.IH [OF f1(2), of "k + 1"] by blast
    then show ?thesis using True f1 by (intro exI [of _ fw'] exI [of _ m]) (simp add: fputs_part_def)
  qed (use f1 in \<open>auto simp: fputs_part_def\<close>)
qed (auto simp: fputs_part_def)

end

text \<open>A stream on a descriptor: its buffer holds what was not written yet.\<close>

definition written :: "int \<Rightarrow> world \<Rightarrow> bytes" where
  "written fd w = concat (map snd (filter (\<lambda>(d, bs). d = fd) (w_log w)))"

definition file_sent :: "FILE \<times> world \<Rightarrow> bytes" where
  "file_sent fw = (case fw of (f, w) \<Rightarrow> written (f_fd f) w @ take (f_size f) (f_buf f))"

definition out_inv :: "FILE \<times> world \<Rightarrow> bool" where
  "out_inv fw = (case fw of (f, w) \<Rightarrow>
     f_fd f \<noteq> -1 \<and> 0 < length (f_buf f) \<and> f_buf_size f = length (f_buf f) \<and> f_ptr f = f_size f
     \<and> f_size f \<le> length (f_buf f) \<and> w_ret w = [])"

lemma written_append [simp]: "written fd (w\<lparr>w_log := w_log w @ [(fd, bs)], errno := e\<rparr>) = written fd w @ bs"
  by (simp add: written_def)

lemma fflush_writes:
  assumes "out_inv (f, w)"
  shows "\<exists>f' w'. fflush (f, w) = (0, f', w') \<and> out_inv (f', w') \<and> f_size f' = 0 \<and> f_fd f' = f_fd f
    \<and> f_buf f' = f_buf f \<and> written (f_fd f) w' = file_sent (f, w)"
  using assms
  by (auto simp: fflush_def out_inv_def libc_write_def syscall_ret_def file_sent_def Let_def min_def)

lemma put_char_sends:
  assumes "out_inv (f, w)" "f_size f < length (f_buf f)"
  shows "\<exists>fw'. put_char c (f, w) = Some (c, fw') \<and> out_inv fw' \<and> file_sent fw' = file_sent (f, w) @ [word_of_int c]"
proof -
  define f1 where "f1 = f\<lparr>f_buf := (f_buf f)[f_ptr f := word_of_int c], f_ptr := f_ptr f + 1, f_size := f_size f + 1\<rparr>"
  have o: "out_inv (f1, w)" using assms by (simp add: out_inv_def f1_def)
  have s: "file_sent (f1, w) = file_sent (f, w) @ [word_of_int c]"
    using assms by (simp add: file_sent_def f1_def out_inv_def take_Suc_conv_app_nth)
  obtain f2 w2 where f2: "fflush (f1, w) = (0, f2, w2)" "out_inv (f2, w2)" "f_size f2 = 0" "f_fd f2 = f_fd f1" "written (f_fd f1) w2 = file_sent (f1, w)"
    using fflush_writes [OF o] by blast
  have p: "put_char c (f, w) = (if c = 10 then Some (c, f2, w2) else Some (c, f1, w))"
    using assms f2(1) by (cases "c = 10") (auto simp: put_char_def out_inv_def f1_def Let_def)
  show ?thesis using p o s f2 by (auto simp: file_sent_def)
qed

lemma fputc_file_sends:
  assumes "out_inv fw"
  shows "\<exists>fw'. fputc c fw = Some (c, fw') \<and> out_inv fw' \<and> file_sent fw' = file_sent fw @ [word_of_int c]"
proof -
  obtain f w where fw: "fw = (f, w)" by force
  show ?thesis
  proof (cases "f_size f \<ge> f_buf_size f")
    case True
    obtain f2 w2 where f2: "fflush (f, w) = (0, f2, w2)" "out_inv (f2, w2)" "f_size f2 = 0" "f_fd f2 = f_fd f" "written (f_fd f) w2 = file_sent (f, w)" "f_buf f2 = f_buf f"
      using fflush_writes [of f w] assms fw by blast
    have "f_size f2 < length (f_buf f2)" using f2 by (simp add: out_inv_def)
    from put_char_sends [OF f2(2) this, of c] True f2 fw show ?thesis by (simp add: fputc_def file_sent_def)
  next
    case False
    then show ?thesis using put_char_sends [of f w c] assms fw by (simp add: fputc_def out_inv_def)
  qed
qed

interpretation file_sink: char_sink "\<lambda>n fw. out_inv fw" file_sent
  by unfold_locales (rule fputc_file_sends)

text \<open>The stream of \<open>snprintf\<close>: no descriptor, and the characters go to an array of the caller.\<close>

definition mem_room :: "bytes \<Rightarrow> nat \<Rightarrow> FILE \<times> world \<Rightarrow> bool" where
  "mem_room buf n fw \<longleftrightarrow> f_fd (fst fw) = -1 \<and> f_ptr (fst fw) + n \<le> length buf
     \<and> length (f_buf (fst fw)) = length buf \<and> drop (f_ptr (fst fw)) (f_buf (fst fw)) = drop (f_ptr (fst fw)) buf"

definition mem_sent :: "FILE \<times> world \<Rightarrow> bytes" where
  "mem_sent fw = take (f_ptr (fst fw)) (f_buf (fst fw))"

lemma fputc_mem_sends:
  assumes "mem_room buf (Suc n) fw"
  shows "\<exists>fw'. fputc c fw = Some (c, fw') \<and> mem_room buf n fw' \<and> mem_sent fw' = mem_sent fw @ [word_of_int c]"
proof -
  have "drop (Suc (f_ptr (fst fw))) (f_buf (fst fw)) = drop (Suc (f_ptr (fst fw))) buf"
    using assms unfolding mem_room_def by (metis drop_Suc tl_drop)
  then show ?thesis using assms
    by (cases fw) (auto simp: mem_room_def mem_sent_def fputc_def put_char_def fflush_def Let_def take_Suc_conv_app_nth)
qed

interpretation mem_sink: char_sink "mem_room buf" mem_sent for buf
  by unfold_locales (rule fputc_mem_sends)

text \<open>
  C34: Text printed with \<open>fputs\<close> to a stream on a descriptor reaches the descriptor in order.  While \<open>write\<close>
  succeeds, which is part of \<open>out_inv\<close>, no byte is stored outside the buffer, and after \<open>fflush\<close> the bytes written are those of before,
  those still in the buffer, and the text.  If a byte of the text is 0x80 or more, only the text up to and with the first
  such byte is printed and the result is \<open>EOF\<close>: the sign-extended byte is taken for an error.
\<close>

theorem fputs_fflush:
  assumes "out_inv (f, w)"
  shows "\<exists>fw f' w'. fputs (Some s) (f, w) = Some (if \<forall>c\<in>set s. unat c < 0x80 then int (length s) else EOF, fw) \<and> fflush fw = (0, f', w')
    \<and> out_inv (f', w') \<and> f_size f' = 0
    \<and> written (f_fd f') w' = file_sent (f, w) @ takeWhile (\<lambda>c. unat c < 0x80) s @ take 1 (dropWhile (\<lambda>c. unat c < 0x80) s)"
proof -
  have n: "0 \<le> sint c \<longleftrightarrow> unat c < 0x80" for c :: u8 by (rule sint_u8_nonneg)
  obtain fw where fw: "fputs_loop s 0 (f, w) = Some (if \<forall>c\<in>set s. 0 \<le> sint c then int (length s) else EOF, fw)" "out_inv fw"
    "file_sent fw = file_sent (f, w) @ fputs_part s"
    using file_sink.fputs_sends_part [of "(f, w)" s 0] assms by auto
  obtain f1 w1 where f1: "fw = (f1, w1)" by force
  obtain f' w' where "fflush (f1, w1) = (0, f', w')" "out_inv (f', w')" "f_size f' = 0" "written (f_fd f') w' = file_sent (f1, w1)"
    using fflush_writes [of f1 w1] fw(2) f1 by auto
  with fw f1 show ?thesis by (intro exI [of _ fw] exI [of _ f'] exI [of _ w']) (simp add: fputs_def fputs_part_def n)
qed

theorem fputs_witness:
  "\<exists>fw f' w'. fputs (Some [104, 105, 10, 33])
      (\<lparr>f_fd = 1, f_buf = replicate 1024 0, f_size = 0, f_buf_size = 1024, f_ptr = 0, f_flags = 1\<rparr>,
       \<lparr>w_in = \<lambda>_. [], w_open = [], w_ret = [], w_log = [], w_closed = [], errno = 0\<rparr>) = Some (4, fw)
    \<and> fflush fw = (0, f', w') \<and> written (f_fd f') w' = [104, 105, 10, 33]"
  using fputs_fflush [of "\<lparr>f_fd = 1, f_buf = replicate 1024 0, f_size = 0, f_buf_size = 1024, f_ptr = 0, f_flags = 1\<rparr>"
      "\<lparr>w_in = \<lambda>_. [], w_open = [], w_ret = [], w_log = [], w_closed = [], errno = 0\<rparr>" "[104, 105, 10, 33]"]
  by (auto simp: out_inv_def file_sent_def written_def)

section \<open>What a stream reads\<close>

fun data_of :: "reply \<Rightarrow> bytes" where
  "data_of (RData bs) = bs"
| "data_of (RErr e) = []"

text \<open>The bytes still to come, when the descriptor delivers data without errors until the end.\<close>

definition unread :: "FILE \<times> world \<Rightarrow> bytes" where
  "unread fw = (case fw of (f, w) \<Rightarrow> take (f_size f) (drop (f_ptr f) (f_buf f)) @ concat (map data_of (w_in w (f_fd f))))"

definition in_inv :: "FILE \<times> world \<Rightarrow> bool" where
  "in_inv fw = (case fw of (f, w) \<Rightarrow>
     0 < length (f_buf f) \<and> f_buf_size f = length (f_buf f) \<and> f_ptr f + f_size f \<le> length (f_buf f)
     \<and> (\<forall>r\<in>set (w_in w (f_fd f)). \<exists>bs. r = RData bs \<and> bs \<noteq> []))"

text \<open>A line of at most \<open>n\<close> characters, with its newline.\<close>

fun take_line :: "nat \<Rightarrow> bytes \<Rightarrow> bytes" where
  "take_line 0 xs = []"
| "take_line (Suc n) [] = []"
| "take_line (Suc n) (x # xs) = x # (if x = 10 then [] else take_line n xs)"

lemma take_line_numeral [simp]:
  "take_line (numeral k) xs = (case xs of [] \<Rightarrow> [] | x # xs' \<Rightarrow> x # (if x = 10 then [] else take_line (pred_numeral k) xs'))"
  by (cases xs) (simp_all add: numeral_eq_Suc)

lemma filebuf_unread:
  assumes "in_inv (f, w)" "f_size f = 0"
  shows "\<exists>f' w'. filebuf (f, w) = (f', w') \<and> in_inv (f', w') \<and> unread (f', w') = unread (f, w) \<and> (f_size f' = 0 \<longrightarrow> unread (f, w) = [])"
proof (cases "w_in w (f_fd f)")
  case Nil
  then show ?thesis using assms
    by (simp add: filebuf_def filebuf_read.simps libc_read_def syscall_ret_def in_inv_def unread_def overwrite_def)
next
  case (Cons r rest)
  then obtain bs where bs: "r = RData bs" "bs \<noteq> []" using assms(1) by (auto simp: in_inv_def)
  let ?got = "take (f_buf_size f) bs"
  have n: "0 < f_buf_size f" "f_buf_size f = length (f_buf f)" using assms(1) by (auto simp: in_inv_def)
  then have "?got \<noteq> []" "length ?got \<le> length (f_buf f)" using bs by auto
  then have o: "take (length ?got) (overwrite (f_buf f) 0 ?got) = ?got" "length (overwrite (f_buf f) 0 ?got) = length (f_buf f)"
    by (simp_all add: overwrite_def min_def)
  define more where "more = (if length bs \<le> f_buf_size f then rest else RData (drop (f_buf_size f) bs) # rest)"
  have more: "concat (map data_of more) = drop (f_buf_size f) bs @ concat (map data_of rest)"
    "\<forall>r\<in>set more. \<exists>bs. r = RData bs \<and> bs \<noteq> []"
    using assms(1) Cons by (auto simp: more_def in_inv_def)
  define f1 w1 where "f1 = f\<lparr>f_ptr := 0, f_size := length ?got, f_buf := overwrite (f_buf f) 0 ?got, f_flags := f_flags f\<rparr>"
    and "w1 = w\<lparr>w_in := (w_in w)(f_fd f := more), errno := 0\<rparr>"
  have "filebuf (f, w) = (f1, w1)"
    using Cons bs n \<open>?got \<noteq> []\<close> unfolding f1_def w1_def more_def
    by (simp add: filebuf_def filebuf_read.simps [of f w] libc_read_def syscall_ret_def Let_def min_def)
  moreover have "0 < length bs" using bs by simp
  moreover from this have "in_inv (f1, w1)" "unread (f1, w1) = unread (f, w)" "f_size f1 \<noteq> 0"
    using o more assms Cons bs \<open>?got \<noteq> []\<close> n by (simp_all add: in_inv_def unread_def f1_def w1_def del: length_greater_0_conv)
  ultimately show ?thesis by auto
qed

lemma fgets_loop_line:
  assumes "in_inv fw" "c \<noteq> 10"
  shows "\<exists>fw'. fgets_loop n c got fw = (got @ take_line n (unread fw), fw') \<and> in_inv fw'
    \<and> unread fw' = drop (length (take_line n (unread fw))) (unread fw)"
  using assms
proof (induction n arbitrary: c got fw)
  case (Suc n)
  obtain f w where fw: "(if f_size (fst fw) = 0 then filebuf fw else fw) = (f, w)" by force
  have f: "in_inv (f, w)" "unread (f, w) = unread fw" "f_size f = 0 \<longrightarrow> unread fw = []"
    using fw Suc.prems(1) filebuf_unread [of "fst fw" "snd fw"] by (auto split: if_splits)
  show ?case
  proof (cases "f_size f = 0")
    case True
    then show ?thesis using f fw Suc.prems(2) by auto
  next
    case False
    define x where "x = f_buf f ! f_ptr f"
    define f1 where "f1 = f\<lparr>f_ptr := f_ptr f + 1, f_size := f_size f - 1\<rparr>"
    have f1: "in_inv (f1, w)" and u: "unread fw = x # unread (f1, w)"
      using f(1) False Cons_nth_drop_Suc [of "f_ptr f" "f_buf f"] unfolding f(2) [symmetric]
      by (auto simp: in_inv_def unread_def f1_def x_def take_Cons' dest: sym)
    have step: "fgets_loop (Suc n) c got fw = fgets_loop n x (got @ [x]) (f1, w)"
      using fw False Suc.prems(2) by (simp add: f1_def x_def Let_def)
    show ?thesis
    proof (cases "x = 10")
      case True
      have "fgets_loop n x (got @ [x]) (f1, w) = (got @ [x], f1, w)" using True by (cases n) simp_all
      then show ?thesis using step u f1 True by simp
    next
      case False
      then show ?thesis using Suc.IH [OF f1 False, of "got @ [x]"] step u by auto
    qed
  qed
qed simp

text \<open>
  C35: \<open>fgets\<close> returns the next line of the stream with its newline, cut off at \<open>size - 1\<close> characters, or
  \<open>NULL\<close> at the end, however the bytes are split over the replies of \<open>read\<close>, and consumes exactly it.
\<close>

theorem fgets_line:
  assumes "in_inv fw" "0 < n"
  shows "\<exists>fw'. fgets n fw = (if unread fw = [] \<or> n = 1 then None else Some (take_line (n - 1) (unread fw)), fw')
    \<and> in_inv fw' \<and> unread fw' = drop (length (take_line (n - 1) (unread fw))) (unread fw)"
proof -
  obtain fw' where "fgets_loop (n - 1) 0 [] fw = (take_line (n - 1) (unread fw), fw')" "in_inv fw'"
    "unread fw' = drop (length (take_line (n - 1) (unread fw))) (unread fw)"
    using fgets_loop_line [OF assms(1), of 0 "n - 1" "[]"] by auto
  moreover have "take_line (n - 1) (unread fw) = [] \<longleftrightarrow> unread fw = [] \<or> n = 1"
    using assms(2) by (cases "n - 1"; cases "unread fw") auto
  ultimately show ?thesis using assms(2) by (auto simp: fgets_def)
qed

theorem fgets_witness:
  "\<exists>fw'. fgets 1024 (\<lparr>f_fd = 0, f_buf = replicate 1024 0, f_size = 0, f_buf_size = 1024, f_ptr = 0, f_flags = 1\<rparr>,
       \<lparr>w_in = \<lambda>_. [RData [97, 98], RData [10, 99]], w_open = [], w_ret = [], w_log = [], w_closed = [], errno = 0\<rparr>)
     = (Some [97, 98, 10], fw') \<and> unread fw' = [99]"
  using fgets_line [of "(\<lparr>f_fd = 0, f_buf = replicate 1024 0, f_size = 0, f_buf_size = 1024, f_ptr = 0, f_flags = 1\<rparr>,
       \<lparr>w_in = \<lambda>_. [RData [97, 98], RData [10, 99]], w_open = [], w_ret = [], w_log = [], w_closed = [], errno = 0\<rparr>)" 1024]
  by (simp add: in_inv_def unread_def) blast

text \<open>
  \<open>fwrite\<close> does not look at the room left in the buffer: with some bytes in it, a write that does not fit
  is stored past the end of the buffer.
\<close>

theorem fwrite_overruns:
  assumes "f_ptr f = f_size f" "f_size f < length (f_buf f)" "length src \<le> length (f_buf f)" "length (f_buf f) < f_size f + length src"
  shows "fwrite src 1 (f, w) = None"
  using assms by (auto simp: fwrite_def fwrite_loop.simps [of src 0 "(f, w)"] Let_def)

theorem fwrite_witness:
  "fwrite (replicate 1000 65) 1 (\<lparr>f_fd = 1, f_buf = replicate 1024 0, f_size = 100, f_buf_size = 1024, f_ptr = 100, f_flags = 1\<rparr>,
     \<lparr>w_in = \<lambda>_. [], w_open = [], w_ret = [], w_log = [], w_closed = [], errno = 0\<rparr>) = None"
  by (rule fwrite_overruns) simp_all

end
