(* ===== verification/Printf.thy ===== *)
theory Printf
  imports Stdio
begin

text \<open>
  Formatted output: \<open>vfprintf\<close> and \<open>snprintf\<close> of \<open>lib/libc/printf.c\<close> on the streams of the previous theory,
  and \<open>printf\<close> of the kernel, \<open>sys/libkern/printf.c\<close>, which sends characters to the console.  The arguments
  are a list of words and strings; an argument that is missing or of the wrong kind has no value, nor has
  reading the format past its terminator.
\<close>

section \<open>Numbers\<close>

definition digit_char :: "bool \<Rightarrow> nat \<Rightarrow> u8" where
  "digit_char upper d = (if d < 10 then 48 + of_nat d else (if upper then 55 else 87) + of_nat d)"

text \<open>The digits from the lowest on, the \<open>do\<close> loop of \<open>fprintn\<close>.\<close>

function digits :: "bool \<Rightarrow> nat \<Rightarrow> nat \<Rightarrow> bytes" where
  "digits upper base ul =
     digit_char upper (ul mod base) # (if 1 < base \<and> ul div base \<noteq> 0 then digits upper base (ul div base) else [])"
  by pat_completeness auto
termination
proof (relation "measure (\<lambda>(u, b, n). n)", goal_cases)
  case (2 upper base ul)
  then have "0 < ul" by (cases ul) auto
  with 2 show ?case by (simp add: div_less_dividend)
qed simp

declare digits.simps [simp del]

text \<open>The array \<open>tmp\<close> has \<open>sizeof(long) * 8 / 3 + 1\<close> bytes.\<close>

abbreviation (input) TMP_SIZE :: nat where "TMP_SIZE \<equiv> 4 * 8 div 3 + 1"

definition number_text :: "u32 \<Rightarrow> nat \<Rightarrow> u8 \<Rightarrow> int \<Rightarrow> bool \<Rightarrow> bytes option" where
  "number_text ul base prefix width upper =
     (let ds = digits upper base (unat ul)
      in if length ds \<le> TMP_SIZE then Some (replicate (nat width - length ds) prefix @ rev ds) else None)"

section \<open>The C library\<close>

datatype va = VInt u32 | VStr "bytes option"

text \<open>Characters sent one after the other, with the results of \<open>fputc\<close> ignored.\<close>

fun emit :: "bytes \<Rightarrow> FILE \<times> world \<Rightarrow> (FILE \<times> world) option" where
  "emit [] fw = Some fw"
| "emit (c # cs) fw = (case fputc (sint c) fw of None \<Rightarrow> None | Some (r, fw') \<Rightarrow> emit cs fw')"

definition fprintn :: "u32 \<Rightarrow> nat \<Rightarrow> u8 \<Rightarrow> int \<Rightarrow> bool \<Rightarrow> int \<times> FILE \<times> world \<Rightarrow> (int \<times> FILE \<times> world) option" where
  "fprintn ul base prefix width upper st =
     (case number_text ul base prefix width upper of
        None \<Rightarrow> None
      | Some out \<Rightarrow> map_option (\<lambda>fw. (fst st + int (length out), fw)) (emit out (snd st)))"

text \<open>
  The part of a conversion before its letter: the flag \<open>l\<close>, or a zero and a width, or a width; then the
  letter and the rest of the format.
\<close>

definition is_width :: "u8 \<Rightarrow> bool" where
  "is_width c \<longleftrightarrow> 49 \<le> sint c \<and> sint c \<le> 57"

definition conv_spec :: "bytes \<Rightarrow> (bool \<times> u8 \<times> int \<times> u8 \<times> bytes) option" where
  "conv_spec fmt =
     (let (lflag, prefix, width, rest) =
        (if at0 fmt = 108 then (True, 0, 0, tl fmt)
         else if at0 fmt = 48 then
           (if is_width (at0 (tl fmt)) then (False, 48, sint (at0 (tl fmt)) - 48, tl (tl fmt)) else (False, 48, 0, tl fmt))
         else if is_width (at0 fmt) then (False, 32, sint (at0 fmt) - 48, tl fmt)
         else (False, 0, 0, fmt))
      in if rest = [] then None else Some (lflag, prefix, width, hd rest, tl rest))"

fun pop_int :: "va list \<Rightarrow> (u32 \<times> va list) option" where
  "pop_int (VInt x # args) = Some (x, args)"
| "pop_int _ = None"

fun pop_str :: "va list \<Rightarrow> (bytes option \<times> va list) option" where
  "pop_str (VStr s # args) = Some (s, args)"
| "pop_str _ = None"

text \<open>\<open>case 'd'\<close>: the sign, then the absolute value, whose negation wraps for the smallest number.\<close>

definition conv_d :: "u8 \<Rightarrow> int \<Rightarrow> u32 \<Rightarrow> int \<times> FILE \<times> world \<Rightarrow> (int \<times> FILE \<times> world) option" where
  "conv_d prefix width x st =
     (let l = sint x
      in if l < 0 then
           (case emit [45] (snd st) of
              None \<Rightarrow> None
            | Some fw \<Rightarrow> fprintn (word_of_int (to_long (- l))) 10 prefix (if width > 0 then width - 1 else width) False (fst st + 1, fw))
         else fprintn x 10 prefix width False st)"

text \<open>\<open>case 's'\<close>: the result of \<open>fputs\<close> is added to the count, then the field is filled with blanks.\<close>

definition conv_s :: "int \<Rightarrow> bytes option \<Rightarrow> int \<times> FILE \<times> world \<Rightarrow> (int \<times> FILE \<times> world) option" where
  "conv_s width s st =
     (case fputs s (snd st) of
        None \<Rightarrow> None
      | Some (i, fw) \<Rightarrow>
          (let pad = replicate (nat (width - i)) 32
           in map_option (\<lambda>fw'. (fst st + i + int (length pad), fw')) (emit pad fw)))"

definition conv :: "bool \<Rightarrow> u8 \<Rightarrow> int \<Rightarrow> u8 \<Rightarrow> va list \<Rightarrow> int \<times> FILE \<times> world \<Rightarrow> (va list \<times> int \<times> FILE \<times> world) option" where
  "conv lflag prefix width c args st =
     (if c = 100 then (case pop_int args of None \<Rightarrow> None | Some (x, args') \<Rightarrow> map_option (Pair args') (conv_d prefix width x st))
      else if c = 120 then (case pop_int args of None \<Rightarrow> None | Some (x, args') \<Rightarrow> map_option (Pair args') (fprintn x 16 prefix width False st))
      else if c = 88 then (case pop_int args of None \<Rightarrow> None | Some (x, args') \<Rightarrow> map_option (Pair args') (fprintn x 16 prefix width True st))
      else if c = 99 then
        (case pop_int args of
           None \<Rightarrow> None
         | Some (x, args') \<Rightarrow> map_option (\<lambda>fw. (args', fst st + 1, fw)) (emit [ucast x AND 0x7F] (snd st)))
      else if c = 115 then (case pop_str args of None \<Rightarrow> None | Some (s, args') \<Rightarrow> map_option (Pair args') (conv_s width s st))
      else if c = 111 then (case pop_int args of None \<Rightarrow> None | Some (x, args') \<Rightarrow> map_option (Pair args') (fprintn x 8 prefix width False st))
      else if c = 117 then (case pop_int args of None \<Rightarrow> None | Some (x, args') \<Rightarrow> map_option (Pair args') (fprintn x 10 prefix width False st))
      else if c = 37 then map_option (\<lambda>fw. (args, fst st, fw)) (emit [37] (snd st))
      else
        (let out = 37 # (if lflag then [108] else []) @ [c]
         in map_option (\<lambda>fw. (args, fst st + int (length out), fw)) (emit out (snd st))))"

lemma conv_spec_shorter: "conv_spec fmt = Some (lf, p, w, c, rest) \<Longrightarrow> length rest < length fmt"
  by (cases fmt; cases "tl fmt") (auto simp: conv_spec_def Let_def split: if_splits)

function vfprintf_loop :: "bytes \<Rightarrow> va list \<Rightarrow> int \<times> FILE \<times> world \<Rightarrow> (int \<times> FILE \<times> world) option" where
  "vfprintf_loop fmt args st =
     (case fmt of
        [] \<Rightarrow> Some st
      | c # fmt1 \<Rightarrow>
          if c = 37 then
            (case conv_spec fmt1 of
               None \<Rightarrow> None
             | Some (lflag, prefix, width, d, fmt2) \<Rightarrow>
                 (case conv lflag prefix width d args st of
                    None \<Rightarrow> None
                  | Some (args', st') \<Rightarrow> vfprintf_loop fmt2 args' st'))
          else
            (case emit [c] (snd st) of None \<Rightarrow> None | Some fw \<Rightarrow> vfprintf_loop fmt1 args (fst st + 1, fw)))"
  by pat_completeness auto
termination
  by (relation "measure (\<lambda>(fmt, args, st). length fmt)") (auto dest!: conv_spec_shorter)

declare vfprintf_loop.simps [simp del]

definition vfprintf :: "bytes \<Rightarrow> va list \<Rightarrow> FILE \<times> world \<Rightarrow> (int \<times> FILE \<times> world) option" where
  "vfprintf fmt args fw = vfprintf_loop fmt args (0, fw)"

text \<open>
  \<open>snprintf\<close> on an array \<open>buf\<close> that the caller says has \<open>bsize\<close> bytes: the static stream \<open>sntmpf\<close> is pointed at
  the array, its count of characters is whatever the last call left.
\<close>

definition terminate :: "int \<Rightarrow> int \<Rightarrow> bytes \<Rightarrow> bytes option" where
  "terminate ret bsize buf =
     (let i = (if ret < 0 then 0 else if ret < bsize then ret else bsize - 1)
      in if 0 \<le> i \<and> i < int (length buf) then Some (buf[nat i := 0]) else None)"

definition snprintf :: "bytes \<Rightarrow> int \<Rightarrow> bytes \<Rightarrow> va list \<Rightarrow> FILE \<times> world \<Rightarrow> (int \<times> bytes \<times> FILE \<times> world) option" where
  "snprintf buf bsize fmt args sntmpf =
     (case vfprintf fmt args ((fst sntmpf)\<lparr>f_buf := buf, f_ptr := 0, f_buf_size := nat bsize, f_fd := -1\<rparr>, snd sntmpf) of
        None \<Rightarrow> None
      | Some (ret, f, w) \<Rightarrow>
          (case terminate ret bsize (f_buf f) of None \<Rightarrow> None | Some buf' \<Rightarrow> Some (ret, buf', f, w)))"

section \<open>The kernel\<close>

definition kconv_spec :: "bytes \<Rightarrow> (bool \<times> int \<times> u8 \<times> bytes) option" where
  "kconv_spec fmt =
     (let (lflag, width, rest) =
        (if at0 fmt = 108 then (True, 0, tl fmt)
         else if at0 fmt = 48 then
           (if is_width (at0 (tl fmt)) then (False, sint (at0 (tl fmt)) - 48, tl (tl fmt)) else (False, 0, tl fmt))
         else (False, 0, fmt))
      in if rest = [] then None else Some (lflag, width, hd rest, tl rest))"

lemma kconv_spec_shorter: "kconv_spec fmt = Some (lf, w, c, rest) \<Longrightarrow> length rest < length fmt"
  by (cases fmt; cases "tl fmt") (auto simp: kconv_spec_def Let_def split: if_splits)

definition printn :: "u32 \<Rightarrow> nat \<Rightarrow> int \<Rightarrow> bool \<Rightarrow> bytes option" where
  "printn ul base width upper = number_text ul base 48 width upper"

definition kconv_d :: "int \<Rightarrow> u32 \<Rightarrow> bytes option" where
  "kconv_d width x =
     (let l = sint x
      in if l < 0 then map_option ((#) 45) (printn (word_of_int (to_long (- l))) 10 (if width > 0 then width - 1 else width) False)
         else printn x 10 width False)"

text \<open>
  The characters the kernel prints.  The string of a \<open>%s\<close> is itself a format, and its conversions take
  arguments that were never passed.
\<close>

function kprintf :: "bytes \<Rightarrow> va list \<Rightarrow> bytes option" where
  "kprintf fmt args =
     (case fmt of
        [] \<Rightarrow> Some []
      | c # fmt1 \<Rightarrow>
          if c = 37 then
            (case kconv_spec fmt1 of
               None \<Rightarrow> None
             | Some (lflag, width, d, fmt2) \<Rightarrow>
                 if d = 115 then
                   (case args of
                      VStr (Some s) # args' \<Rightarrow>
                        (case kprintf s [] of None \<Rightarrow> None | Some out \<Rightarrow> map_option ((@) out) (kprintf fmt2 args'))
                    | _ \<Rightarrow> None)
                 else if d = 37 then map_option ((#) 37) (kprintf fmt2 args)
                 else if d \<in> {100, 120, 88, 99, 111, 117} then
                   (case pop_int args of
                      None \<Rightarrow> None
                    | Some (x, args') \<Rightarrow>
                        (case (if d = 100 then kconv_d width x
                               else if d = 99 then Some [ucast x AND 0x7F]
                               else printn x (if d = 111 then 8 else if d = 117 then 10 else 16) width (d = 88)) of
                           None \<Rightarrow> None
                         | Some out \<Rightarrow> map_option ((@) out) (kprintf fmt2 args')))
                 else map_option ((@) (37 # (if lflag then [108] else []) @ [d])) (kprintf fmt2 args))
          else map_option ((#) c) (kprintf fmt1 args))"
  by pat_completeness auto
termination
proof (relation "measures [\<lambda>(fmt, args). length args, \<lambda>(fmt, args). length fmt]", goal_cases)
qed (auto dest!: kconv_spec_shorter elim!: pop_int.elims)

declare kprintf.simps [simp del]

section \<open>Numbers fit in the temporary array\<close>

lemma length_digits: "1 < base \<Longrightarrow> n < base ^ k \<Longrightarrow> 0 < k \<Longrightarrow> length (digits upper base n) \<le> k"
proof (induction k arbitrary: n)
  case (Suc k)
  show ?case
  proof (cases "n div base = 0")
    case False
    then have "base \<le> n" using Suc.prems(1) by (metis div_less not_le)
    then have "k \<noteq> 0" using Suc.prems(2) by (cases k) auto
    moreover have "n div base < base ^ k" using Suc.prems(1,2) by (simp add: less_mult_imp_div_less mult.commute)
    ultimately show ?thesis using Suc.IH [of "n div base"] Suc.prems(1) by (subst digits.simps) simp
  qed (simp add: digits.simps [of upper base n])
qed simp

lemma digits_fit: "8 \<le> base \<Longrightarrow> length (digits upper base (unat (ul :: u32))) \<le> TMP_SIZE"
proof -
  assume b: "8 \<le> base"
  have "unat ul < 8 ^ 11" using unat32_less [of ul] by simp
  also have "\<dots> \<le> base ^ 11" using b by (rule power_mono) simp
  finally show ?thesis using length_digits [of base "unat ul" 11] b by simp
qed

lemma number_text_some:
  "8 \<le> base \<Longrightarrow> number_text ul base prefix width upper
     = Some (replicate (nat width - length (digits upper base (unat ul))) prefix @ rev (digits upper base (unat ul)))"
  using digits_fit by (simp add: number_text_def Let_def)

section \<open>What a format stands for\<close>

text \<open>
  The text of a conversion, for strings of characters below \<open>0x80\<close>.  A \<open>%%\<close> is left out, since its character
  is not counted.
\<close>

definition signed_text :: "u8 \<Rightarrow> int \<Rightarrow> u32 \<Rightarrow> bytes option" where
  "signed_text prefix width x =
     (if sint x < 0 then map_option ((#) 45) (number_text (- x) 10 prefix (if width > 0 then width - 1 else width) False)
      else number_text x 10 prefix width False)"

definition string_text :: "int \<Rightarrow> bytes option \<Rightarrow> bytes option" where
  "string_text width s =
     (let t = (case s of None \<Rightarrow> [40, 110, 117, 108, 108, 41] | Some str \<Rightarrow> str)
      in if \<forall>c\<in>set t. 0 \<le> sint c then Some (t @ replicate (nat (width - int (length t))) 32) else None)"

definition conv_text :: "bool \<Rightarrow> u8 \<Rightarrow> int \<Rightarrow> u8 \<Rightarrow> va list \<Rightarrow> (va list \<times> bytes) option" where
  "conv_text lflag prefix width c args =
     (if c = 100 then (case pop_int args of None \<Rightarrow> None | Some (x, args') \<Rightarrow> map_option (Pair args') (signed_text prefix width x))
      else if c = 120 then (case pop_int args of None \<Rightarrow> None | Some (x, args') \<Rightarrow> map_option (Pair args') (number_text x 16 prefix width False))
      else if c = 88 then (case pop_int args of None \<Rightarrow> None | Some (x, args') \<Rightarrow> map_option (Pair args') (number_text x 16 prefix width True))
      else if c = 99 then (case pop_int args of None \<Rightarrow> None | Some (x, args') \<Rightarrow> Some (args', [ucast x AND 0x7F]))
      else if c = 115 then (case pop_str args of None \<Rightarrow> None | Some (s, args') \<Rightarrow> map_option (Pair args') (string_text width s))
      else if c = 111 then (case pop_int args of None \<Rightarrow> None | Some (x, args') \<Rightarrow> map_option (Pair args') (number_text x 8 prefix width False))
      else if c = 117 then (case pop_int args of None \<Rightarrow> None | Some (x, args') \<Rightarrow> map_option (Pair args') (number_text x 10 prefix width False))
      else if c = 37 then None
      else Some (args, 37 # (if lflag then [108] else []) @ [c]))"

function render :: "bytes \<Rightarrow> va list \<Rightarrow> bytes option" where
  "render fmt args =
     (case fmt of
        [] \<Rightarrow> Some []
      | c # fmt1 \<Rightarrow>
          if c = 37 then
            (case conv_spec fmt1 of
               None \<Rightarrow> None
             | Some (lflag, prefix, width, d, fmt2) \<Rightarrow>
                 (case conv_text lflag prefix width d args of
                    None \<Rightarrow> None
                  | Some (args', out) \<Rightarrow> map_option ((@) out) (render fmt2 args')))
          else map_option ((#) c) (render fmt1 args))"
  by pat_completeness auto
termination
  by (relation "measure (\<lambda>(fmt, args). length fmt)") (auto dest!: conv_spec_shorter)

declare render.simps [simp del]

lemma negated: "sint x < 0 \<Longrightarrow> word_of_int (to_long (- sint x)) = - (x :: u32)"
proof -
  have "word_of_int (to_long (- sint x)) = (word_of_int (- sint x) :: u32)"
    unfolding to_long_def by (rule word_of_int_eq_iff [THEN iffD2]) (simp add: take_bit_signed_take_bit)
  then show ?thesis by simp
qed

context char_sink
begin

lemma emit_sends:
  assumes "room (n + length s) fw"
  shows "\<exists>fw'. emit s fw = Some fw' \<and> room n fw' \<and> sent fw' = sent fw @ s"
  using assms
proof (induction s arbitrary: fw)
  case (Cons c s)
  obtain fw1 where f1: "fputc (sint c) fw = Some (sint c, fw1)" "room (n + length s) fw1" "sent fw1 = sent fw @ [c]"
    using fputc_sends [of "n + length s" fw "sint c"] Cons.prems(1) by auto
  with Cons.IH [of fw1] show ?case by auto
qed simp

lemma fprintn_sends:
  assumes "number_text ul base prefix width upper = Some out" "room (n + length out) fw"
  shows "\<exists>fw'. fprintn ul base prefix width upper (k, fw) = Some (k + int (length out), fw') \<and> room n fw' \<and> sent fw' = sent fw @ out"
  using emit_sends [OF assms(2)] assms(1) by (auto simp: fprintn_def)

lemma conv_d_sends:
  assumes "signed_text prefix width x = Some out" "room (n + length out) fw"
  shows "\<exists>fw'. conv_d prefix width x (k, fw) = Some (k + int (length out), fw') \<and> room n fw' \<and> sent fw' = sent fw @ out"
proof (cases "sint x < 0")
  case True
  then obtain ds where ds: "number_text (- x) 10 prefix (if width > 0 then width - 1 else width) False = Some ds" "out = 45 # ds"
    using assms(1) by (auto simp: signed_text_def)
  obtain fw1 where f1: "emit [45] fw = Some fw1" "room (n + length ds) fw1" "sent fw1 = sent fw @ [45]"
    using emit_sends [of "n + length ds" "[45]" fw] assms(2) ds by auto
  show ?thesis using fprintn_sends [OF ds(1) f1(2), of "k + 1"] f1 ds True negated [OF True] by (auto simp: conv_d_def Let_def)
next
  case False
  then show ?thesis using fprintn_sends [OF _ assms(2), of x 10 prefix width False k] assms(1) by (simp add: conv_d_def signed_text_def)
qed

lemma conv_s_sends:
  assumes "string_text width s = Some out" "room (n + length out) fw"
  shows "\<exists>fw'. conv_s width s (k, fw) = Some (k + int (length out), fw') \<and> room n fw' \<and> sent fw' = sent fw @ out"
proof -
  define t where "t = (case s of None \<Rightarrow> [40, 110, 117, 108, 108, 41] | Some str \<Rightarrow> str)"
  define pad where "pad = replicate (nat (width - int (length t))) (32 :: u8)"
  have t: "\<forall>c\<in>set t. 0 \<le> sint c" "out = t @ pad"
    using assms(1) by (auto simp: string_text_def t_def pad_def Let_def split: if_splits)
  obtain fw1 where f1: "fputs_loop t 0 fw = Some (int (length t), fw1)" "room (n + length pad) fw1" "sent fw1 = sent fw @ t"
    using fputs_sends [of "n + length pad" t fw 0] assms(2) t by (auto simp: algebra_simps)
  obtain fw2 where f2: "emit pad fw1 = Some fw2" "room n fw2" "sent fw2 = sent fw1 @ pad"
    using emit_sends [OF f1(2)] by blast
  have "conv_s width s (k, fw) = Some (k + int (length t) + int (length pad), fw2)"
    using f1(1) f2(1) by (simp add: conv_s_def fputs_def t_def [symmetric] pad_def Let_def)
  then show ?thesis using f1 f2 t by auto
qed

lemma conv_sends:
  assumes "conv_text lflag prefix width c args = Some (args', out)" "room (n + length out) fw"
  shows "\<exists>fw'. conv lflag prefix width c args (k, fw) = Some (args', k + int (length out), fw') \<and> room n fw' \<and> sent fw' = sent fw @ out"
  using assms emit_sends [OF assms(2)]
  by (auto simp: conv_text_def conv_def Let_def split: if_splits option.splits prod.splits
      dest!: conv_d_sends [where k = k, OF _ assms(2)] conv_s_sends [where k = k, OF _ assms(2)] fprintn_sends [where k = k, OF _ assms(2)])

lemma vfprintf_sends:
  assumes "render fmt args = Some out" "room (n + length out) fw"
  shows "\<exists>fw'. vfprintf_loop fmt args (k, fw) = Some (k + int (length out), fw') \<and> room n fw' \<and> sent fw' = sent fw @ out"
  using assms
proof (induction fmt args arbitrary: out fw k rule: render.induct)
  case (1 fmt args)
  show ?case
  proof (cases fmt)
    case Nil
    then show ?thesis using 1 by (auto simp: render.simps [of "[]"] vfprintf_loop.simps [of "[]"])
  next
    case (Cons c fmt1)
    show ?thesis
    proof (cases "c = 37")
      case True
      then obtain lflag prefix width d fmt2 args' t out' where
        sp: "conv_spec fmt1 = Some (lflag, prefix, width, d, fmt2)" "conv_text lflag prefix width d args = Some (args', t)"
        and r: "render fmt2 args' = Some out'" "out = t @ out'"
        using 1(3) Cons by (subst (asm) render.simps) (auto split: option.splits)
      obtain fw1 where f1: "conv lflag prefix width d args (k, fw) = Some (args', k + int (length t), fw1)"
        "room (n + length out') fw1" "sent fw1 = sent fw @ t"
        using conv_sends [OF sp(2), of "n + length out'" fw k] 1(4) r by (auto simp: algebra_simps)
      have "\<exists>fw'. vfprintf_loop fmt2 args' (k + int (length t), fw1) = Some (k + int (length t) + int (length out'), fw')
          \<and> room n fw' \<and> sent fw' = sent fw1 @ out'"
        using 1(1) [OF Cons True sp(1) refl refl refl refl sp(2) refl r(1) f1(2)] by blast
      then show ?thesis using Cons True sp f1 r by (subst vfprintf_loop.simps) auto
    next
      case False
      then obtain out' where r: "render fmt1 args = Some out'" "out = c # out'"
        using 1(3) Cons by (subst (asm) render.simps) auto
      obtain fw1 where f1: "emit [c] fw = Some fw1" "room (n + length out') fw1" "sent fw1 = sent fw @ [c]"
        using emit_sends [of "n + length out'" "[c]" fw] 1(4) r by auto
      have "\<exists>fw'. vfprintf_loop fmt1 args (k + 1, fw1) = Some (k + 1 + int (length out'), fw') \<and> room n fw' \<and> sent fw' = sent fw1 @ out'"
        using 1(2) [OF Cons False r(1) f1(2)] by blast
      then show ?thesis using Cons False f1 r by (subst vfprintf_loop.simps) auto
    qed
  qed
qed

end

text \<open>
  When the text of a format fits in the array with its terminator, \<open>snprintf\<close> stores the text and the
  terminator, leaves the rest of the array alone and returns the length of the text.
\<close>

theorem snprintf_correct:
  assumes "render fmt args = Some out" "int (length out) < bsize" "bsize \<le> int (length buf)"
  shows "\<exists>f w. snprintf buf bsize fmt args sntmpf = Some (int (length out), out @ 0 # drop (Suc (length out)) buf, f, w)"
proof -
  define f0 where "f0 = (fst sntmpf)\<lparr>f_buf := buf, f_ptr := 0, f_buf_size := nat bsize, f_fd := -1\<rparr>"
  have "mem_room buf (0 + length out) (f0, snd sntmpf)" using assms by (simp add: mem_room_def f0_def)
  from mem_sink.vfprintf_sends [OF assms(1) this, of 0]
  obtain f w where f: "vfprintf fmt args (f0, snd sntmpf) = Some (int (length out), f, w)" "mem_room buf 0 (f, w)"
    "mem_sent (f, w) = mem_sent (f0, snd sntmpf) @ out"
    by (auto simp: vfprintf_def)
  have t: "take (f_ptr f) (f_buf f) = out" using f(3) by (simp add: mem_sent_def f0_def)
  have l: "f_ptr f = length out" using arg_cong [OF t, of length] f(2) by (auto simp: mem_room_def min_def split: if_splits)
  have b: "f_buf f = out @ drop (length out) buf"
    using append_take_drop_id [of "f_ptr f" "f_buf f"] t f(2) l unfolding mem_room_def by (metis fst_conv)
  have "(f_buf f)[length out := 0] = out @ 0 # drop (Suc (length out)) buf"
    using assms unfolding b by (simp add: list_update_append Cons_nth_drop_Suc [symmetric])
  then have "terminate (int (length out)) bsize (f_buf f) = Some (out @ 0 # drop (Suc (length out)) buf)"
    using assms f(2) by (simp add: terminate_def Let_def mem_room_def)
  then show ?thesis using f(1) by (simp add: snprintf_def f0_def [symmetric])
qed

section \<open>Numbers read back\<close>

lemma to_long_sint: "to_long n = sint (word_of_int n :: u32)"
  unfolding to_long_def by (simp add: sint_sbintrunc')

lemma to_long_hom:
  "to_long (to_long a * b) = to_long (a * b)" "to_long (to_long a + b) = to_long (a + b)" "to_long (- to_long a) = to_long (- a)"
  by (simp_all add: to_long_sint flip: wi_hom_mult wi_hom_add wi_hom_neg)

lemma to_long_uint: "to_long (uint x) = sint (x :: u32)"
  by (simp add: to_long_sint)

lemma digit_char_sint: "d < 10 \<Longrightarrow> sint (digit_char False d) = 48 + int d"
proof -
  assume "d < 10"
  then have "d \<in> {0, 1, 2, 3, 4, 5, 6, 7, 8, 9}" by auto
  then show ?thesis by (auto simp: digit_char_def)
qed

lemma digits_are_digits: "c \<in> set (digits False 10 n) \<Longrightarrow> isdigit (sint c)"
proof (induction "False" "10 :: nat" n rule: digits.induct)
  case (1 ul)
  from 1(2) have "c = digit_char False (ul mod 10) \<or> (ul div 10 \<noteq> 0 \<and> c \<in> set (digits False 10 (ul div 10)))"
    by (subst (asm) digits.simps) (auto split: if_splits)
  then show ?case using 1(1) digit_char_sint [of "ul mod 10"] by (auto simp: isdigit_def)
qed

lemma atoi_loop_snoc:
  "\<forall>c\<in>set s. isdigit (sint c) \<Longrightarrow> isdigit (sint d) \<Longrightarrow>
   atoi_loop (s @ [d]) i neg = (to_long (to_long (fst (atoi_loop s i neg) * 10) + (sint d - 48)), neg)"
  by (induction s arbitrary: i) auto

lemma atoi_digits: "atoi_loop (rev (digits False 10 n)) 0 neg = (to_long (int n), neg)"
proof (induction "False" "10 :: nat" n rule: digits.induct)
  case (1 ul)
  let ?d = "digit_char False (ul mod 10)"
  have d: "sint ?d - 48 = int (ul mod 10)" "isdigit (sint ?d)" using digit_char_sint [of "ul mod 10"] by (auto simp: isdigit_def)
  show ?case
  proof (cases "ul div 10 = 0")
    case True
    then have "digits False 10 ul = [?d]" by (subst digits.simps) simp
    moreover have "ul mod 10 = ul" using True by (simp add: div_eq_0_iff)
    ultimately show ?thesis using d by (simp add: to_long_def)
  next
    case False
    then have "digits False 10 ul = ?d # digits False 10 (ul div 10)" by (subst digits.simps) simp
    moreover have "atoi_loop (rev (digits False 10 (ul div 10)) @ [?d]) 0 neg
        = (to_long (to_long (to_long (int (ul div 10)) * 10) + int (ul mod 10)), neg)"
      using atoi_loop_snoc [of "rev (digits False 10 (ul div 10))" ?d 0 neg] digits_are_digits 1 False d by simp
    moreover have "int (ul div 10) * 10 + int (ul mod 10) = int ul" by (metis div_mult_mod_eq of_nat_add of_nat_mult of_nat_numeral)
    ultimately show ?thesis by (simp add: to_long_hom)
  qed
qed

lemma atoi_signed_text: "signed_text 0 0 x = Some out \<Longrightarrow> atoi out = sint x \<and> 0 \<notin> set out \<and> length out \<le> 11"
proof -
  have ten: "length (digits False 10 (unat y)) \<le> 10" "0 \<notin> set (digits False 10 (unat y))" for y :: u32
    using length_digits [of 10 "unat y" 10 False] unat32_less [of y] digits_are_digits [of 0 "unat y"] by (auto simp: isdigit_def)
  assume "signed_text 0 0 x = Some out"
  then consider "sint x < 0" "out = 45 # rev (digits False 10 (unat (- x)))" | "0 \<le> sint x" "out = rev (digits False 10 (unat x))"
    by (auto simp: signed_text_def number_text_some split: if_splits)
  then show ?thesis
  proof cases
    case 1
    have "to_long (- to_long (uint (- x))) = sint x" by (simp add: to_long_hom to_long_sint)
    then show ?thesis using 1(2) ten [of "- x"] by (simp add: atoi_def atoi_digits isdigit_def)
  next
    case 2
    then show ?thesis using ten [of x] by (simp add: atoi_def atoi_digits to_long_uint)
  qed
qed

text \<open>
  C36: Every 32-bit integer that \<open>snprintf\<close> prints with \<open>%d\<close> into an array of at least 12 bytes, \<open>atoi\<close> reads back,
  the smallest one included.
\<close>

theorem snprintf_atoi:
  assumes "12 \<le> bsize" "bsize \<le> int (length buf)"
  shows "\<exists>ret buf' f w. snprintf buf bsize [37, 100] [VInt x] sntmpf = Some (ret, buf', f, w)
    \<and> atoi (takeWhile (\<lambda>c. c \<noteq> 0) buf') = sint x"
proof -
  obtain out where out: "signed_text 0 0 x = Some out" by (cases "sint x < 0") (auto simp: signed_text_def number_text_some)
  then have "render [37, 100] [VInt x] = Some out"
    by (simp add: render.simps [of "[37, 100]"] render.simps [of "[]"] conv_spec_def is_width_def conv_text_def)
  from snprintf_correct [OF this, of bsize buf sntmpf] atoi_signed_text [OF out] assms
  obtain f w where "snprintf buf bsize [37, 100] [VInt x] sntmpf = Some (int (length out), out @ 0 # drop (Suc (length out)) buf, f, w)"
    by auto
  moreover have "takeWhile (\<lambda>c. c \<noteq> 0) (out @ 0 # drop (Suc (length out)) buf) = out"
    using atoi_signed_text [OF out] by (subst takeWhile_append2) auto
  ultimately show ?thesis using atoi_signed_text [OF out] by auto
qed

lemma fputs_loop_overruns:
  assumes "f_fd f = -1" "f_ptr f \<le> length (f_buf f)" "length (f_buf f) < f_ptr f + length s" "\<forall>c\<in>set s. 0 \<le> sint c"
  shows "fputs_loop s n (f, w) = None"
  using assms
proof (induction s arbitrary: f n)
  case (Cons c s)
  define f1 where "f1 = f\<lparr>f_buf := (f_buf f)[f_ptr f := c], f_ptr := f_ptr f + 1, f_size := f_size f + 1\<rparr>"
  have "fputc (sint c) (f, w) = (if f_ptr f < length (f_buf f) then Some (sint c, f1, w) else None)"
    using Cons.prems(1) by (simp add: fputc_def put_char_def fflush_def f1_def Let_def)
  moreover have "fputs_loop s (n + 1) (f1, w) = None" if "f_ptr f < length (f_buf f)"
    by (rule Cons.IH) (use Cons.prems that in \<open>simp_all add: f1_def\<close>)
  ultimately show ?case using Cons.prems(4) by simp
qed simp

text \<open>
  \<open>snprintf\<close> does not use the size it is given to limit the output: a string that is longer than the array
  is stored past the end of the array, whatever size is passed.
\<close>

theorem snprintf_unbounded:
  assumes "length buf < length s" "\<forall>c\<in>set s. 0 \<le> sint c"
  shows "snprintf buf bsize [37, 115] [VStr (Some s)] sntmpf = None"
  using fputs_loop_overruns [of "(fst sntmpf)\<lparr>f_buf := buf, f_ptr := 0, f_buf_size := nat bsize, f_fd := -1\<rparr>" s 0 "snd sntmpf"] assms
  by (simp add: snprintf_def vfprintf_def vfprintf_loop.simps [of "[37, 115]"] conv_spec_def is_width_def conv_def conv_s_def fputs_def)

text \<open>The static stream before its first use, and a world without input.\<close>

definition zero_stream :: "FILE \<times> world" where
  "zero_stream = (\<lparr>f_fd = 0, f_buf = [], f_size = 0, f_buf_size = 0, f_ptr = 0, f_flags = 0\<rparr>,
     \<lparr>w_in = \<lambda>_. [], w_open = [], w_ret = [], w_log = [], w_closed = [], errno = 0\<rparr>)"

theorem snprintf_witness:
  "\<exists>f w. snprintf (replicate 8 1) 8 [104, 37, 48, 51, 120] [VInt 26] zero_stream = Some (4, [104, 48, 49, 97, 0, 1, 1, 1], f, w)"
proof -
  have "render [104, 37, 48, 51, 120] [VInt 26] = Some [104, 48, 49, 97]"
    by (simp add: render.simps [of "104 # _"] render.simps [of "37 # _"] render.simps [of "[]"] conv_spec_def is_width_def conv_text_def
        number_text_def digits.simps [of False 16 26] digits.simps [of False 16 "Suc 0"] digit_char_def Let_def)
  from snprintf_correct [OF this, of 8 "replicate 8 1" zero_stream] show ?thesis by (simp add: numeral_eq_Suc)
qed

theorem snprintf_atoi_witness:
  "\<exists>ret buf' f w. snprintf (replicate 12 0) 12 [37, 100] [VInt 0x80000000] zero_stream = Some (ret, buf', f, w)
    \<and> atoi (takeWhile (\<lambda>c. c \<noteq> 0) buf') = -2147483648"
  using snprintf_atoi [of 12 "replicate 12 0" "0x80000000" zero_stream] by simp

theorem snprintf_unbounded_witness: "snprintf [0, 0] 2 [37, 115] [VStr (Some [97, 98, 99])] zero_stream = None"
  by (rule snprintf_unbounded) simp_all

section \<open>Strings printed by the kernel\<close>

lemma kprintf_plain: "37 \<notin> set s \<Longrightarrow> kprintf (s @ fmt) args = map_option ((@) s) (kprintf fmt args)"
proof (induction s)
  case Nil
  then show ?case by (cases "kprintf fmt args") simp_all
next
  case (Cons c s)
  then show ?case by (cases "kprintf fmt args") (simp_all add: kprintf.simps [of "c # _"])
qed

text \<open>
  The kernel prints a string argument as a format: a string without a percent sign comes out as it is, but a
  number conversion in it takes an argument that was never passed.
\<close>

lemma kprintf_string_is_format:
  assumes "37 \<notin> set s"
  shows "kprintf [37, 115] [VStr (Some s)] = Some s" and "kprintf [37, 115] [VStr (Some (s @ 37 # 100 # t))] = None"
proof -
  have nil: "kprintf [] args = Some []" for args by (simp add: kprintf.simps)
  show "kprintf [37, 115] [VStr (Some s)] = Some s"
    using kprintf_plain [OF assms, of "[]" "[]"] by (simp add: kprintf.simps [of "37 # _"] kconv_spec_def is_width_def nil)
  have "kprintf (37 # 100 # t) [] = None" by (simp add: kprintf.simps [of "37 # _"] kconv_spec_def is_width_def)
  then show "kprintf [37, 115] [VStr (Some (s @ 37 # 100 # t))] = None"
    using kprintf_plain [OF assms, of "37 # 100 # t" "[]"] by (simp add: kprintf.simps [of "[37, 115]"] kconv_spec_def is_width_def)
qed

end
