(* ===== verification/Bc.thy ===== *)
theory Bc
  imports Printf "HOL-Library.Signed_Division"
begin

text \<open>
  The calculator \<open>usr.bin/bc.c\<close>: a recursive descent parser that evaluates while it reads.  The static
  pointer \<open>p\<close> is the rest of the line.  The functions of the parser call each other, so they are one
  function on the name of the routine; it is a partial function, for which a run that does not end has
  no value.  The processor traps a division by zero and the quotient that is too large.
\<close>

section \<open>The parser\<close>

datatype outcome = Trap | Val int bytes

datatype routine = Parse_factor | Parse_term | Term_loop int | Parse_expr | Expr_loop int

definition skip_ws :: "bytes \<Rightarrow> bytes" where
  "skip_ws p = dropWhile (\<lambda>c. c \<noteq> 0 \<and> isspace (sint c)) p"

definition parse_number :: "bytes \<Rightarrow> outcome" where
  "parse_number p = (let q = skip_ws p in Val (atoi q) (dropWhile (\<lambda>c. c \<noteq> 0 \<and> isdigit (sint c)) q))"

definition divide :: "int \<Rightarrow> int \<Rightarrow> int option" where
  "divide v x = (if x = 0 \<or> (v = - (2 ^ 31) \<and> x = -1) then None else Some (v sdiv x))"

partial_function (option) bc_parse :: "routine \<Rightarrow> bytes \<Rightarrow> outcome option" where
  "bc_parse r s =
     (case r of
        Parse_factor \<Rightarrow>
          (let p = skip_ws s
           in if at0 p = 40 then
                Option.bind (bc_parse Parse_expr (tl p)) (\<lambda>x.
                case x of
                  Trap \<Rightarrow> Some Trap
                | Val v q \<Rightarrow> (let q' = skip_ws q in Some (Val v (if at0 q' = 41 then tl q' else q'))))
              else Some (parse_number p))
      | Parse_term \<Rightarrow>
          Option.bind (bc_parse Parse_factor s) (\<lambda>x. case x of Trap \<Rightarrow> Some Trap | Val v q \<Rightarrow> bc_parse (Term_loop v) q)
      | Term_loop v \<Rightarrow>
          (let p = skip_ws s
           in if at0 p = 42 then
                Option.bind (bc_parse Parse_factor (tl p)) (\<lambda>x.
                case x of Trap \<Rightarrow> Some Trap | Val y q \<Rightarrow> bc_parse (Term_loop (to_long (v * y))) q)
              else if at0 p = 47 then
                Option.bind (bc_parse Parse_factor (tl p)) (\<lambda>x.
                case x of
                  Trap \<Rightarrow> Some Trap
                | Val y q \<Rightarrow> (case divide v y of None \<Rightarrow> Some Trap | Some z \<Rightarrow> bc_parse (Term_loop z) q))
              else Some (Val v p))
      | Parse_expr \<Rightarrow>
          Option.bind (bc_parse Parse_term s) (\<lambda>x. case x of Trap \<Rightarrow> Some Trap | Val v q \<Rightarrow> bc_parse (Expr_loop v) q)
      | Expr_loop v \<Rightarrow>
          (let p = skip_ws s
           in if at0 p = 43 then
                Option.bind (bc_parse Parse_term (tl p)) (\<lambda>x.
                case x of Trap \<Rightarrow> Some Trap | Val y q \<Rightarrow> bc_parse (Expr_loop (to_long (v + y))) q)
              else if at0 p = 45 then
                Option.bind (bc_parse Parse_term (tl p)) (\<lambda>x.
                case x of Trap \<Rightarrow> Some Trap | Val y q \<Rightarrow> bc_parse (Expr_loop (to_long (v - y))) q)
              else Some (Val v p)))"

text \<open>The routines one by one.\<close>

abbreviation (input) continue :: "outcome option \<Rightarrow> (int \<Rightarrow> bytes \<Rightarrow> outcome option) \<Rightarrow> outcome option" where
  "continue r f \<equiv> Option.bind r (\<lambda>x. case x of Trap \<Rightarrow> Some Trap | Val v q \<Rightarrow> f v q)"

lemma bc_factor:
  "bc_parse Parse_factor s =
     (if at0 (skip_ws s) = 40 then
        continue (bc_parse Parse_expr (tl (skip_ws s)))
          (\<lambda>v q. Some (Val v (if at0 (skip_ws q) = 41 then tl (skip_ws q) else skip_ws q)))
      else Some (parse_number (skip_ws s)))"
  by (subst bc_parse.simps) (simp add: Let_def cong: outcome.case_cong)

lemma bc_term: "bc_parse Parse_term s = continue (bc_parse Parse_factor s) (\<lambda>v. bc_parse (Term_loop v))"
  by (subst bc_parse.simps) simp

lemma bc_expr: "bc_parse Parse_expr s = continue (bc_parse Parse_term s) (\<lambda>v. bc_parse (Expr_loop v))"
  by (subst bc_parse.simps) simp

lemma bc_term_loop:
  "bc_parse (Term_loop v) s =
     (if at0 (skip_ws s) = 42 then continue (bc_parse Parse_factor (tl (skip_ws s))) (\<lambda>y. bc_parse (Term_loop (to_long (v * y))))
      else if at0 (skip_ws s) = 47 then
        continue (bc_parse Parse_factor (tl (skip_ws s)))
          (\<lambda>y q. case divide v y of None \<Rightarrow> Some Trap | Some z \<Rightarrow> bc_parse (Term_loop z) q)
      else Some (Val v (skip_ws s)))"
  by (subst bc_parse.simps) (simp add: Let_def)

lemma bc_expr_loop:
  "bc_parse (Expr_loop v) s =
     (if at0 (skip_ws s) = 43 then continue (bc_parse Parse_term (tl (skip_ws s))) (\<lambda>y. bc_parse (Expr_loop (to_long (v + y))))
      else if at0 (skip_ws s) = 45 then continue (bc_parse Parse_term (tl (skip_ws s))) (\<lambda>y. bc_parse (Expr_loop (to_long (v - y))))
      else Some (Val v (skip_ws s)))"
  by (subst bc_parse.simps) (simp add: Let_def)

section \<open>Every line is evaluated\<close>

fun rank :: "routine \<Rightarrow> nat" where
  "rank Parse_expr = 3"
| "rank Parse_term = 2"
| "rank Parse_factor = 1"
| "rank _ = 0"

definition ends_within :: "outcome option \<Rightarrow> nat \<Rightarrow> bool" where
  "ends_within r n \<longleftrightarrow> (\<exists>x. r = Some x \<and> (\<forall>v q. x = Val v q \<longrightarrow> length q \<le> n))"

lemma length_skip_ws: "length (skip_ws s) \<le> length s"
  by (simp add: skip_ws_def length_dropWhile_le)

lemma ends_bind:
  assumes "ends_within r n" "\<And>v q. length q \<le> n \<Longrightarrow> ends_within (f v q) n'"
  shows "ends_within (Option.bind r (\<lambda>x. case x of Trap \<Rightarrow> Some Trap | Val v q \<Rightarrow> f v q)) n'"
  using assms by (auto simp: ends_within_def split: outcome.splits)

lemma ends_mono: "ends_within r n \<Longrightarrow> n \<le> m \<Longrightarrow> ends_within r m"
  by (auto simp: ends_within_def intro: order.trans)

lemma bc_ends: "ends_within (bc_parse r s) (length s)"
proof (induction "(length s, rank r)" arbitrary: r s rule: wf_induct_rule [OF wf_lex_prod [OF wf_less_than wf_less_than]])
  case 1
  have IH: "ends_within (bc_parse r' q) (length q)" if "length q < length s \<or> length q = length s \<and> rank r' < rank r" for r' q
    using 1 that by auto
  have after: "ends_within (bc_parse r' q) n" if "length q \<le> n" "length q < length s \<or> length q = length s \<and> rank r' < rank r" for r' q n
    using IH [OF that(2)] that(1) by (rule ends_mono)
  have tl: "length (tl (skip_ws s)) < length s" if "at0 (skip_ws s) \<noteq> 0"
    using that length_skip_ws [of s] by (cases "skip_ws s") auto
  have sk: "ends_within (Some (Val v (skip_ws s))) (length s)" for v
    using length_skip_ws [of s] by (simp add: ends_within_def)
  have short: "ends_within (bc_parse r' q) (length s)" if "length q < length s" for r' q
    using after [of q "length s" r'] that by simp
  note step = ends_bind [OF after [OF order_refl]]
  show ?case
  proof (cases r)
    case Parse_factor
    have "ends_within (Some (Val v (if at0 (skip_ws q) = 41 then tl (skip_ws q) else skip_ws q))) (length s)" if "length q \<le> length s" for v q
      using length_skip_ws [of q] that by (auto simp: ends_within_def)
    moreover have "ends_within (Some (parse_number (skip_ws s))) (length s)"
      using length_skip_ws [of s] length_skip_ws [of "skip_ws s"]
      by (auto simp: ends_within_def parse_number_def Let_def intro: order.trans [OF length_dropWhile_le])
    ultimately show ?thesis unfolding Parse_factor bc_factor using tl by (auto intro!: step)
  next
    case Parse_term
    show ?thesis unfolding Parse_term bc_term by (rule step) (auto simp: Parse_term le_less intro: after)
  next
    case (Term_loop v)
    show ?thesis unfolding Term_loop bc_term_loop [of v] using sk tl
      by (auto intro!: step short split: option.split simp: ends_within_def [of "Some Trap"])
  next
    case Parse_expr
    show ?thesis unfolding Parse_expr bc_expr by (rule step) (auto simp: Parse_expr le_less intro: after)
  next
    case (Expr_loop v)
    show ?thesis unfolding Expr_loop bc_expr_loop [of v] using sk tl
      by (auto intro!: step intro: after)
  qed
qed

text \<open>On every line the parser ends, with a value or with the trap of a division.\<close>

theorem bc_terminates: "\<exists>x. bc_parse r s = Some x"
  using bc_ends [of r s] by (auto simp: ends_within_def)

section \<open>Expressions\<close>

text \<open>
  Expressions, their value in 32-bit arithmetic, and their text: decimal numbers, operators with a blank on
  both sides, and parentheses where the precedence of the operators needs them.
\<close>

datatype expr = Num nat | Add expr expr | Sub expr expr | Mul expr expr | Div expr expr

fun eval :: "expr \<Rightarrow> int option" where
  "eval (Num n) = Some (to_long (int n))"
| "eval (Add a b) = (case eval a of None \<Rightarrow> None | Some x \<Rightarrow> map_option (\<lambda>y. to_long (x + y)) (eval b))"
| "eval (Sub a b) = (case eval a of None \<Rightarrow> None | Some x \<Rightarrow> map_option (\<lambda>y. to_long (x - y)) (eval b))"
| "eval (Mul a b) = (case eval a of None \<Rightarrow> None | Some x \<Rightarrow> map_option (\<lambda>y. to_long (x * y)) (eval b))"
| "eval (Div a b) = (case eval a of None \<Rightarrow> None | Some x \<Rightarrow> Option.bind (eval b) (divide x))"

abbreviation (input) paren :: "bool \<Rightarrow> bytes \<Rightarrow> bytes" where
  "paren b t \<equiv> if b then 40 # t @ [41] else t"

text \<open>The level: 0 for a sum, 1 for a product, 2 for a factor.\<close>

fun show_expr :: "nat \<Rightarrow> expr \<Rightarrow> bytes" where
  "show_expr l (Num n) = rev (digits False 10 n)"
| "show_expr l (Add a b) = paren (0 < l) (show_expr 0 a @ [32, 43, 32] @ show_expr 1 b)"
| "show_expr l (Sub a b) = paren (0 < l) (show_expr 0 a @ [32, 45, 32] @ show_expr 1 b)"
| "show_expr l (Mul a b) = paren (1 < l) (show_expr 1 a @ [32, 42, 32] @ show_expr 2 b)"
| "show_expr l (Div a b) = paren (1 < l) (show_expr 1 a @ [32, 47, 32] @ show_expr 2 b)"

text \<open>What may follow an operand.\<close>

definition follows :: "bytes \<Rightarrow> bool" where
  "follows rest \<longleftrightarrow> \<not> isdigit (sint (at0 rest)) \<and> at0 rest \<noteq> 45"

definition value_then :: "int option \<Rightarrow> (int \<Rightarrow> outcome option) \<Rightarrow> outcome option" where
  "value_then v f = (case v of None \<Rightarrow> Some Trap | Some x \<Rightarrow> f x)"

lemma skip_ws_idem [simp]: "skip_ws (skip_ws s) = skip_ws s"
  by (induction s) (auto simp: skip_ws_def)

lemma skip_ws_Cons: "skip_ws (c # s) = (if c \<noteq> 0 \<and> isspace (sint c) then skip_ws s else c # s)"
  by (simp add: skip_ws_def)

lemma skip_ws_char [simp]: "skip_ws (32 # s) = skip_ws s" "skip_ws (40 # s) = 40 # s" "skip_ws (41 # s) = 41 # s"
    "skip_ws (42 # s) = 42 # s" "skip_ws (43 # s) = 43 # s" "skip_ws (45 # s) = 45 # s" "skip_ws (47 # s) = 47 # s"
  by (simp_all add: skip_ws_Cons isspace_def)

lemma skip_ws_digit: "isdigit (sint c) \<Longrightarrow> skip_ws (c # s) = c # s"
  by (auto simp: skip_ws_Cons isspace_def isdigit_def)

lemma atoi_follows: "\<forall>c\<in>set s. isdigit (sint c) \<Longrightarrow> follows rest \<Longrightarrow> atoi_loop (s @ rest) i neg = atoi_loop s i neg"
proof (induction s arbitrary: i)
  case Nil
  then show ?case by (cases rest) (auto simp: follows_def)
qed simp

lemma factor_number:
  assumes "follows rest"
  shows "bc_parse Parse_factor (rev (digits False 10 n) @ rest) = Some (Val (to_long (int n)) rest)"
proof -
  let ?ds = "rev (digits False 10 n)"
  have ds: "\<forall>c\<in>set ?ds. isdigit (sint c)" using digits_are_digits by auto
  have ne: "?ds \<noteq> []" by (subst digits.simps) simp
  then obtain c ds where c: "?ds = c # ds" "isdigit (sint c)" using ds by (cases ?ds) auto
  have sk: "skip_ws (?ds @ rest) = ?ds @ rest" "at0 (?ds @ rest) \<noteq> 40" unfolding c(1) using skip_ws_digit [OF c(2)] c(2) by (auto simp: isdigit_def)
  have "dropWhile (\<lambda>c. c \<noteq> 0 \<and> isdigit (sint c)) (?ds @ rest) = rest"
  proof -
    have "dropWhile (\<lambda>c. c \<noteq> 0 \<and> isdigit (sint c)) (?ds @ rest) = dropWhile (\<lambda>c. c \<noteq> 0 \<and> isdigit (sint c)) rest"
      by (rule dropWhile_append2) (use ds in \<open>auto simp: isdigit_def\<close>)
    also have "\<dots> = rest" using assms by (cases rest) (auto simp: follows_def)
    finally show ?thesis .
  qed
  then show ?thesis using sk atoi_follows [OF ds assms, of 0 False]
    by (simp add: bc_factor parse_number_def atoi_def atoi_digits Let_def)
qed

text \<open>
  What each routine does with the text of an expression: the loops go on behind it.
\<close>

definition factor_ok :: "expr \<Rightarrow> bool" where
  "factor_ok e \<longleftrightarrow> (\<forall>rest. follows rest \<longrightarrow>
     bc_parse Parse_factor (show_expr 2 e @ rest) = value_then (eval e) (\<lambda>v. Some (Val v rest)))"

definition term_ok :: "expr \<Rightarrow> bool" where
  "term_ok e \<longleftrightarrow> (\<forall>rest. follows rest \<longrightarrow>
     bc_parse Parse_term (show_expr 1 e @ rest) = value_then (eval e) (\<lambda>v. bc_parse (Term_loop v) rest))"

definition expr_ok :: "expr \<Rightarrow> bool" where
  "expr_ok e \<longleftrightarrow> (\<forall>rest. follows rest \<longrightarrow> at0 (skip_ws rest) \<notin> {42, 47} \<longrightarrow>
     bc_parse Parse_expr (show_expr 0 e @ rest) = value_then (eval e) (\<lambda>v. bc_parse (Expr_loop v) rest))"

lemma follows_op [simp]: "follows (32 # s)" "follows (41 # s)" "follows []"
  by (simp_all add: follows_def isdigit_def)

lemma term_loop_stops: "at0 (skip_ws rest) \<notin> {42, 47} \<Longrightarrow> bc_parse (Term_loop v) rest = Some (Val v (skip_ws rest))"
  by (simp add: bc_term_loop)

lemma expr_loop_skip [simp]: "bc_parse (Expr_loop v) (skip_ws rest) = bc_parse (Expr_loop v) rest"
  by (simp add: bc_expr_loop)

lemma factor_skip [simp]: "bc_parse Parse_factor (32 # s) = bc_parse Parse_factor s"
  by (simp add: bc_factor)

lemma term_skip [simp]: "bc_parse Parse_term (32 # s) = bc_parse Parse_term s"
  by (simp add: bc_term)

lemma factor_term: "factor_ok e \<Longrightarrow> show_expr 1 e = show_expr 2 e \<Longrightarrow> term_ok e"
  by (auto simp: factor_ok_def term_ok_def bc_term value_then_def split: option.splits)

lemma term_expr: "term_ok e \<Longrightarrow> show_expr 0 e = show_expr 1 e \<Longrightarrow> expr_ok e"
  by (auto simp: term_ok_def expr_ok_def bc_expr value_then_def term_loop_stops split: option.splits)

lemma expr_factor:
  assumes "expr_ok e" "show_expr 2 e = 40 # show_expr 0 e @ [41]"
  shows "factor_ok e"
  unfolding factor_ok_def
proof (intro allI impI)
  fix rest assume "follows rest"
  have "bc_parse Parse_expr (show_expr 0 e @ 41 # rest) = value_then (eval e) (\<lambda>v. bc_parse (Expr_loop v) (41 # rest))"
    using assms(1) by (simp add: expr_ok_def)
  then show "bc_parse Parse_factor (show_expr 2 e @ rest) = value_then (eval e) (\<lambda>v. Some (Val v rest))"
    by (auto simp: assms(2) bc_factor bc_expr_loop value_then_def split: option.splits)
qed

lemma sum_ok:
  assumes "expr_ok a" "term_ok b"
  shows "expr_ok (Add a b)" and "expr_ok (Sub a b)"
  using assms unfolding expr_ok_def term_ok_def
  by (auto simp: bc_expr_loop [of _ "32 # 43 # _"] bc_expr_loop [of _ "32 # 45 # _"] value_then_def term_loop_stops split: option.splits)

lemma product_ok:
  assumes "term_ok a" "factor_ok b"
  shows "term_ok (Mul a b)" and "term_ok (Div a b)"
  using assms unfolding term_ok_def factor_ok_def
  by (auto simp: bc_term_loop [of _ "32 # 42 # _"] bc_term_loop [of _ "32 # 47 # _"] value_then_def split: option.splits bind_splits)

lemma all_ok: "factor_ok e \<and> term_ok e \<and> expr_ok e"
proof (induction e)
  case (Num n)
  have "factor_ok (Num n)" by (simp add: factor_ok_def factor_number value_then_def)
  then show ?case using factor_term term_expr by simp
next
  case (Add a b)
  then have "expr_ok (Add a b)" by (simp add: sum_ok)
  then show ?case using expr_factor [of "Add a b"] factor_term [of "Add a b"] by simp
next
  case (Sub a b)
  then have "expr_ok (Sub a b)" by (simp add: sum_ok)
  then show ?case using expr_factor [of "Sub a b"] factor_term [of "Sub a b"] by simp
next
  case (Mul a b)
  then have "term_ok (Mul a b)" by (simp add: product_ok)
  then show ?case using term_expr [of "Mul a b"] expr_factor [of "Mul a b"] by simp
next
  case (Div a b)
  then have "term_ok (Div a b)" by (simp add: product_ok)
  then show ?case using term_expr [of "Div a b"] expr_factor [of "Div a b"] by simp
qed


text \<open>
  A number with a sign is evaluated wrongly: \<open>atoi\<close> reads the sign and the digits but only digits are
  skipped, so the parser subtracts the number once more and \<open>-n\<close> is \<open>-2n\<close>.
\<close>

theorem bc_sign_twice:
  "bc_parse Parse_expr (45 # show_expr 0 (Num n) @ [10]) = Some (Val (to_long (- 2 * int n)) [])"
proof -
  let ?ds = "rev (digits False 10 n)"
  have ds: "\<forall>c\<in>set ?ds. isdigit (sint c)" using digits_are_digits by auto
  have f: "follows [10]" "skip_ws [10] = []" by (simp_all add: follows_def isdigit_def skip_ws_def isspace_def)
  have "atoi (45 # ?ds @ [10]) = to_long (- int n)"
    using atoi_follows [OF ds f(1), of 0 True] by (simp add: atoi_def atoi_digits isdigit_def to_long_hom)
  then have "bc_parse Parse_factor (45 # ?ds @ [10]) = Some (Val (to_long (- int n)) (45 # ?ds @ [10]))"
    by (simp add: bc_factor parse_number_def isdigit_def Let_def)
  then have "bc_parse Parse_term (45 # ?ds @ [10]) = Some (Val (to_long (- int n)) (45 # ?ds @ [10]))"
    by (simp add: bc_term bc_term_loop)
  moreover have "bc_parse Parse_term (?ds @ [10]) = Some (Val (to_long (int n)) [])"
    using factor_number [OF f(1), of n] by (simp add: bc_term bc_term_loop f(2))
  ultimately have "bc_parse Parse_expr (45 # ?ds @ [10]) = bc_parse (Expr_loop (to_long (to_long (- int n) - to_long (int n)))) []"
    by (simp add: bc_expr bc_expr_loop [of _ "45 # _"])
  moreover have "to_long (to_long (- int n) - to_long (int n)) = to_long (- 2 * int n)"
    by (simp add: to_long_sint flip: wi_hom_sub wi_hom_neg)
  ultimately show ?thesis by (simp add: bc_expr_loop skip_ws_def)
qed

end
