(* ===== verification/Malloc.thy ===== *)
theory Malloc
  imports Prelude
begin

text \<open>
  The storage allocator of the C library, \<open>lib/libc/malloc.c\<close>, with \<open>sbrk\<close> of \<open>lib/libc/brk.c\<close>.  Block headers are
  8 bytes, a pointer and a size in units of 8 bytes; the store maps the address of a header to the two.
  Addresses are natural numbers below \<open>2 ^ 32\<close>, and sums are taken modulo \<open>2 ^ 32\<close>.  The searches through the
  free list are partial functions: a search that does not end has no value.
\<close>

section \<open>The allocator\<close>

record heap =
  h_ptr :: "nat \<Rightarrow> nat"
  h_size :: "nat \<Rightarrow> nat"
  h_base :: nat
  freep :: nat
  curbrk :: nat
  kbrk :: nat
  accepts_brk :: "nat \<Rightarrow> bool"

definition padd :: "nat \<Rightarrow> nat \<Rightarrow> nat" where
  "padd p n = (p + 8 * n) mod 2 ^ 32"

text \<open>
  \<open>brk\<close> and \<open>sbrk\<close>; \<open>None\<close> is the result \<open>-1\<close>.  \<open>kbrk\<close> is the break that the kernel keeps, rounded to pages;
  \<open>sbrk\<close> asks for it once and goes by \<open>curbrk\<close> from then on.  \<open>accepts_brk\<close> says for which addresses the system
  call succeeds: it depends on the memory that is left.
\<close>

abbreviation (input) USER_TEXT :: nat where "USER_TEXT \<equiv> 0x100000"

definition kernel_brk :: "nat \<Rightarrow> nat" where
  "kernel_brk addr = (max addr USER_TEXT + 4095) div 4096 * 4096"

definition brk :: "nat \<Rightarrow> heap \<Rightarrow> bool \<times> heap" where
  "brk addr h = (if accepts_brk h addr then (True, h\<lparr>curbrk := addr, kbrk := kernel_brk addr\<rparr>) else (False, h))"

definition sbrk :: "int \<Rightarrow> heap \<Rightarrow> nat option \<times> heap" where
  "sbrk incr h =
     (let h1 = (if curbrk h = 0 then h\<lparr>curbrk := kbrk h\<rparr> else h); old = curbrk h1
      in if incr = 0 then (Some old, h1)
         else (case brk (nat ((int old + incr) mod 2 ^ 32)) h1 of (True, h2) \<Rightarrow> (Some old, h2) | (False, h2) \<Rightarrow> (None, h2)))"

partial_function (option) free_loop :: "nat \<Rightarrow> nat \<Rightarrow> heap \<Rightarrow> nat option" where
  "free_loop bp p h =
     (if p < bp \<and> bp < h_ptr h p then Some p
      else if p \<ge> h_ptr h p \<and> (bp > p \<or> bp < h_ptr h p) then Some p
      else free_loop bp (h_ptr h p) h)"

definition set_ptr :: "nat \<Rightarrow> nat \<Rightarrow> heap \<Rightarrow> heap" where
  "set_ptr a v h = h\<lparr>h_ptr := (h_ptr h)(a := v)\<rparr>"

definition set_size :: "nat \<Rightarrow> nat \<Rightarrow> heap \<Rightarrow> heap" where
  "set_size a v h = h\<lparr>h_size := (h_size h)(a := v mod 2 ^ 32)\<rparr>"

definition join_upper :: "nat \<Rightarrow> nat \<Rightarrow> heap \<Rightarrow> heap" where
  "join_upper bp p h =
     (let q = h_ptr h p
      in if padd bp (h_size h bp) = q then set_ptr bp (h_ptr h q) (set_size bp (h_size h bp + h_size h q) h)
         else set_ptr bp q h)"

definition join_lower :: "nat \<Rightarrow> nat \<Rightarrow> heap \<Rightarrow> heap" where
  "join_lower bp p h =
     (if padd p (h_size h p) = bp then set_ptr p (h_ptr h bp) (set_size p (h_size h p + h_size h bp) h)
      else set_ptr p bp h)"

definition free :: "nat \<Rightarrow> heap \<Rightarrow> heap option" where
  "free ap h =
     (let bp = ap - 8
      in map_option (\<lambda>p. (join_lower bp p (join_upper bp p h))\<lparr>freep := p\<rparr>) (free_loop bp (freep h) h))"

abbreviation (input) NALLOC :: nat where "NALLOC \<equiv> 1024"

definition to_int32 :: "nat \<Rightarrow> int" where
  "to_int32 n = signed_take_bit 31 (int n)"

text \<open>\<open>morecore\<close> returns \<open>freep\<close>, or 0 when the break cannot be raised.\<close>

definition morecore :: "nat \<Rightarrow> heap \<Rightarrow> (nat \<times> heap) option" where
  "morecore nu h =
     (let nu = max nu NALLOC
      in case sbrk (to_int32 (nu * 8 mod 2 ^ 32)) h of
           (None, h1) \<Rightarrow> Some (0, h1)
         | (Some up, h1) \<Rightarrow> map_option (\<lambda>h2. (freep h2, h2)) (free (up + 8) (set_size up nu h1)))"

text \<open>Taking a block: the whole block, or its tail.\<close>

definition take_block :: "nat \<Rightarrow> nat \<Rightarrow> nat \<Rightarrow> heap \<Rightarrow> nat \<times> heap" where
  "take_block nunits prevp p h =
     (if h_size h p = nunits then (p + 8, (set_ptr prevp (h_ptr h p) h)\<lparr>freep := prevp\<rparr>)
      else
        (let h1 = set_size p (h_size h p - nunits) h; q = padd p (h_size h1 p)
         in (q + 8, (set_size q nunits h1)\<lparr>freep := prevp\<rparr>)))"

partial_function (option) malloc_loop :: "nat \<Rightarrow> nat \<Rightarrow> nat \<Rightarrow> heap \<Rightarrow> (nat \<times> heap) option" where
  "malloc_loop nunits prevp p h =
     (if h_size h p \<ge> nunits then Some (take_block nunits prevp p h)
      else if p = freep h then
        Option.bind (morecore nunits h) (\<lambda>(q, h1). if q = 0 then Some (0, h1) else malloc_loop nunits q (h_ptr h1 q) h1)
      else malloc_loop nunits p (h_ptr h p) h)"

definition units :: "nat \<Rightarrow> nat" where
  "units nbytes = (nbytes + 7) mod 2 ^ 32 div 8 + 1"

definition malloc :: "nat \<Rightarrow> heap \<Rightarrow> (nat \<times> heap) option" where
  "malloc nbytes h =
     (let h1 = (if freep h = 0 then set_size (h_base h) 0 (set_ptr (h_base h) (h_base h) (h\<lparr>freep := h_base h\<rparr>)) else h)
      in malloc_loop (units nbytes) (freep h1) (h_ptr h1 (freep h1)) h1)"

section \<open>The free list\<close>

text \<open>The pointers run through a list of headers and from its end to \<open>e\<close>.\<close>

fun chain :: "(nat \<Rightarrow> nat) \<Rightarrow> nat \<Rightarrow> nat list \<Rightarrow> bool" where
  "chain f e [] = True"
| "chain f e [a] = (f a = e)"
| "chain f e (a # b # r) = (f a = b \<and> chain f e (b # r))"

lemma chain_append: "ys \<noteq> [] \<Longrightarrow> chain f e (xs @ ys) \<longleftrightarrow> chain f (hd ys) xs \<and> chain f e ys"
proof (induction xs)
  case (Cons a xs)
  then show ?case by (cases xs; cases ys) auto
qed simp

lemma chain_Cons: "r \<noteq> [] \<Longrightarrow> chain f e (a # r) \<longleftrightarrow> f a = hd r \<and> chain f e r"
  by (cases r) auto

lemma chain_snoc: "chain f e (xs @ [a]) \<longleftrightarrow> chain f a xs \<and> f a = e"
  by (simp add: chain_append)

lemma chain_cong: "(\<And>a. a \<in> set xs \<Longrightarrow> f a = g a) \<Longrightarrow> chain f e xs = chain g e xs"
  by (induction f e xs rule: chain.induct) auto

lemma chain_upd [simp]: "a \<notin> set xs \<Longrightarrow> chain (f(a := v)) e xs = chain f e xs"
  by (rule chain_cong) auto

text \<open>
  The state of the allocator: \<open>ns\<close> are the headers on the free list, from \<open>base\<close> upwards, and \<open>al\<close> the headers
  of the blocks that were given out.  Blocks lie between \<open>base\<close> and the break and do not overlap.
\<close>

definition apart :: "heap \<Rightarrow> nat \<Rightarrow> nat \<Rightarrow> bool" where
  "apart h a b \<longleftrightarrow> a + 8 * h_size h a \<le> b \<or> b + 8 * h_size h b \<le> a"

definition arena_top :: "heap \<Rightarrow> nat" where
  "arena_top h = (if curbrk h = 0 then kbrk h else curbrk h)"

definition blocks_ok :: "heap \<Rightarrow> nat set \<Rightarrow> bool" where
  "blocks_ok h B \<longleftrightarrow> (\<forall>b\<in>B. h_base h < b \<and> 0 < h_size h b \<and> b + 8 * h_size h b \<le> arena_top h)
     \<and> (\<forall>a\<in>B. \<forall>b\<in>B. a \<noteq> b \<longrightarrow> apart h a b)"

abbreviation (input) USER_TOP :: nat where "USER_TOP \<equiv> 0xC0000000"

definition brk_ok :: "heap \<Rightarrow> bool" where
  "brk_ok h \<longleftrightarrow> 0 < h_base h \<and> h_base h < arena_top h \<and> arena_top h \<le> USER_TOP \<and> (\<forall>a. accepts_brk h a \<longrightarrow> a \<le> USER_TOP)"

definition free_ring :: "heap \<Rightarrow> nat list \<Rightarrow> bool" where
  "free_ring h ns \<longleftrightarrow> ns \<noteq> [] \<and> hd ns = h_base h \<and> chain (h_ptr h) (hd ns) ns \<and> sorted_wrt (<) ns
     \<and> freep h \<in> set ns \<and> h_size h (h_base h) = 0"

definition heap_inv :: "heap \<Rightarrow> nat list \<Rightarrow> nat set \<Rightarrow> bool" where
  "heap_inv h ns al \<longleftrightarrow> brk_ok h \<and> free_ring h ns \<and> al \<inter> set ns = {} \<and> blocks_ok h (set (tl ns) \<union> al)"

lemma sorted_distinct: "sorted_wrt (<) (ns :: nat list) \<Longrightarrow> distinct ns"
  by (induction ns) auto

lemma heap_simps [simp]:
  "h_ptr (set_ptr a v h) = (h_ptr h)(a := v)" "h_size (set_ptr a v h) = h_size h" "h_base (set_ptr a v h) = h_base h"
  "freep (set_ptr a v h) = freep h" "curbrk (set_ptr a v h) = curbrk h" "kbrk (set_ptr a v h) = kbrk h"
  "accepts_brk (set_ptr a v h) = accepts_brk h"
  "h_ptr (set_size a v h) = h_ptr h" "h_size (set_size a v h) = (h_size h)(a := v mod 2 ^ 32)" "h_base (set_size a v h) = h_base h"
  "freep (set_size a v h) = freep h" "curbrk (set_size a v h) = curbrk h" "kbrk (set_size a v h) = kbrk h"
  "accepts_brk (set_size a v h) = accepts_brk h"
  by (simp_all add: set_ptr_def set_size_def)

lemma arena_top_upd [simp]:
  "arena_top (set_ptr a v h) = arena_top h" "arena_top (set_size a v h) = arena_top h" "arena_top (h\<lparr>freep := p\<rparr>) = arena_top h"
  "arena_top (h\<lparr>curbrk := arena_top h\<rparr>) = arena_top h" "arena_top (h\<lparr>accepts_brk := A\<rparr>) = arena_top h"
  "0 < c \<Longrightarrow> arena_top (h\<lparr>curbrk := c, kbrk := k\<rparr>) = c"
  by (simp_all add: arena_top_def)

lemma brk_ok_upd [simp]:
  "brk_ok (set_ptr a v h) = brk_ok h" "brk_ok (set_size a v h) = brk_ok h" "brk_ok (h\<lparr>freep := p\<rparr>) = brk_ok h"
  by (simp_all add: brk_ok_def)

lemma blocks_ok_upd [simp]: "blocks_ok (set_ptr a v h) B = blocks_ok h B" "blocks_ok (h\<lparr>freep := p\<rparr>) B = blocks_ok h B"
  by (simp_all add: blocks_ok_def apart_def)

lemma blocks_okD: "blocks_ok h B \<Longrightarrow> b \<in> B \<Longrightarrow> h_base h < b \<and> 0 < h_size h b \<and> b + 8 * h_size h b \<le> arena_top h"
  by (simp add: blocks_ok_def)

lemma padd_block: "brk_ok h \<Longrightarrow> b + 8 * n \<le> arena_top h \<Longrightarrow> padd b n = b + 8 * n"
  by (simp add: padd_def brk_ok_def)

section \<open>Searching the list for the place of a block\<close>

lemma free_loop_from_below:
  assumes "chain f e (q # zs @ p # ys)" "h_ptr h = f" "sorted_wrt (<) (q # zs @ p # ys)" "p < bp"
    and "free_loop bp p h = Some p"
  shows "free_loop bp q h = Some p"
  using assms
proof (induction zs arbitrary: q)
  case Nil
  then show ?case by (subst free_loop.simps) auto
next
  case (Cons z zs)
  then have "free_loop bp z h = Some p" by simp
  then show ?case using Cons.prems by (subst free_loop.simps) auto
qed

lemma free_loop_at:
  assumes "chain f e (p # ys)" "h_ptr h = f" "p < bp" "ys = [] \<and> e \<le> p \<or> ys \<noteq> [] \<and> bp < hd ys"
  shows "free_loop bp p h = Some p"
  using assms by (cases ys) (auto simp: free_loop.simps [of bp p h])

lemma free_loop_from_above:
  assumes "chain f e (q # zs)" "h_ptr h = f" "sorted_wrt (<) (q # zs)" "bp < q" "e < bp" "e \<le> q"
    and "free_loop bp e h = Some p"
  shows "free_loop bp q h = Some p"
  using assms
proof (induction zs arbitrary: q)
  case Nil
  then show ?case by (subst free_loop.simps) auto
next
  case (Cons z zs)
  then have "free_loop bp z h = Some p" by simp
  then show ?case using Cons.prems by (subst free_loop.simps) auto
qed

lemma free_loop_finds:
  assumes "free_ring h ns" "ns = xs @ p # ys" "p < bp" "ys = [] \<or> bp < hd ys" "q \<in> set ns"
  shows "free_loop bp q h = Some p"
proof -
  define e where "e = hd ns"
  have c: "chain (h_ptr h) e (xs @ p # ys)" and s: "sorted_wrt (<) (xs @ p # ys)" using assms(1,2) by (auto simp: free_ring_def e_def)
  have ep: "e \<le> p" using s assms(2) by (cases xs) (auto simp: e_def)
  have cp: "chain (h_ptr h) e (p # ys)" using c chain_append [of "p # ys" "h_ptr h" e xs] by simp
  have at: "free_loop bp p h = Some p"
    by (rule free_loop_at [OF cp refl assms(3)]) (use assms(4) ep in auto)
  have below: "free_loop bp r h = Some p" if "r \<in> set xs" for r
  proof -
    obtain us vs where "xs = us @ r # vs" using \<open>r \<in> set xs\<close> by (meson split_list)
    then show ?thesis
      using c s at assms(3) chain_append [of "r # vs @ p # ys" "h_ptr h" e us]
      by (intro free_loop_from_below [of "h_ptr h" e r vs p ys]) (auto simp: sorted_wrt_append)
  qed
  have start: "free_loop bp e h = Some p" using at below assms(2) by (cases xs) (auto simp: e_def)
  show ?thesis
  proof (cases "q \<in> set ys")
    case True
    then obtain us vs where ys: "ys = us @ q # vs" by (meson split_list)
    have "bp < q" using assms(4) ys s by (cases us) (auto simp: sorted_wrt_append)
    then show ?thesis
      using c s ys start ep assms(3) chain_append [of "q # vs" "h_ptr h" e "xs @ p # us"]
      by (intro free_loop_from_above [of "h_ptr h" e q vs]) (auto simp: sorted_wrt_append)
  next
    case False
    then show ?thesis using assms(2,5) at below by auto
  qed
qed

section \<open>Giving a block back\<close>

lemma free_ring_split:
  assumes "free_ring h (xs @ p # ys)"
  shows "chain (h_ptr h) p xs" and "chain (h_ptr h) (h_base h) (p # ys)" and "sorted_wrt (<) xs" and "sorted_wrt (<) ys"
    and "\<And>a b. a \<in> set xs \<Longrightarrow> b \<in> set (p # ys) \<Longrightarrow> a < b" and "\<And>b. b \<in> set ys \<Longrightarrow> p < b"
    and "xs = [] \<Longrightarrow> p = h_base h" and "xs \<noteq> [] \<Longrightarrow> hd xs = h_base h" and "h_base h \<le> p"
proof -
  have r: "chain (h_ptr h) (h_base h) (xs @ p # ys)" "sorted_wrt (<) (xs @ p # ys)" "hd (xs @ p # ys) = h_base h"
    using assms by (auto simp: free_ring_def)
  show "chain (h_ptr h) p xs" "chain (h_ptr h) (h_base h) (p # ys)" using r(1) by (simp_all add: chain_append)
  show "sorted_wrt (<) xs" "sorted_wrt (<) ys" "\<And>a b. a \<in> set xs \<Longrightarrow> b \<in> set (p # ys) \<Longrightarrow> a < b" "\<And>b. b \<in> set ys \<Longrightarrow> p < b"
    using r(2) by (auto simp: sorted_wrt_append)
  show "xs = [] \<Longrightarrow> p = h_base h" "xs \<noteq> [] \<Longrightarrow> hd xs = h_base h" using r(3) by auto
  then show "h_base h \<le> p" using r(2) by (cases xs) (auto simp: sorted_wrt_append)
qed

lemma insert_plain:
  assumes "free_ring h (xs @ p # ys)" "p < b" "ys = [] \<or> b < hd ys"
  shows "free_ring ((set_ptr p b (set_ptr b (h_ptr h p) h))\<lparr>freep := p\<rparr>) (xs @ p # b # ys)"
proof -
  note R = free_ring_split [OF assms(1)]
  let ?f = "(h_ptr h)(b := h_ptr h p, p := b)"
  have bs: "b < c" if "c \<in> set ys" for c using assms(3) R(4) that by (cases ys) auto
  then have nb: "b \<notin> set xs" "b \<notin> set ys" "p \<notin> set xs" "p \<notin> set ys" using R(5,6) assms(2) by fastforce+
  have "chain ?f p xs" using R(1) nb by simp
  moreover have "chain ?f (h_base h) (p # b # ys)"
  proof (cases ys)
    case Nil
    then show ?thesis using R(2) assms(2) by simp
  next
    case (Cons y ys')
    then have "chain ?f (h_base h) ys" using R(2) nb by simp
    then show ?thesis using Cons R(2) assms(2) by simp
  qed
  ultimately have "chain ?f (h_base h) (xs @ p # b # ys)" by (simp add: chain_append)
  moreover have "sorted_wrt (<) (xs @ p # b # ys)"
    using R(3-6) bs assms(2) by (auto simp: sorted_wrt_append intro: less_trans)
  ultimately show ?thesis using assms(1) by (cases xs) (auto simp: free_ring_def)
qed

lemma remove_next:
  assumes "free_ring h (xs @ p # q # ys)" "freep h \<noteq> q"
  shows "free_ring (set_ptr p (h_ptr h q) h) (xs @ p # ys)"
proof -
  note R = free_ring_split [OF assms(1)]
  let ?f = "(h_ptr h)(p := h_ptr h q)"
  have np: "p \<notin> set xs" "p \<notin> set ys" using R(5,6) by fastforce+
  have "chain ?f p xs" using R(1) np by simp
  moreover have "chain ?f (h_base h) (p # ys)"
  proof (cases ys)
    case (Cons y ys')
    then show ?thesis using R(2) np by simp
  qed (use R(2) in simp)
  ultimately have "chain ?f (h_base h) (xs @ p # ys)" by (simp add: chain_append)
  then show ?thesis using assms by (cases xs) (auto simp: free_ring_def sorted_wrt_append)
qed

lemma merge_blocks:
  assumes "blocks_ok h B" "a \<in> B" "b \<in> B" "a \<noteq> b" "a + 8 * h_size h a = b" "h_size h' = (h_size h)(a := h_size h a + h_size h b)"
    and "h_base h' = h_base h" "arena_top h' = arena_top h"
  shows "blocks_ok h' (B - {b})"
proof -
  have ab: "0 < h_size h a" "0 < h_size h b" "b + 8 * h_size h b \<le> arena_top h" "h_base h < a"
    using assms(1-3) by (auto simp: blocks_ok_def)
  have others: "apart h' a c" if "c \<in> B" "c \<noteq> a" "c \<noteq> b" for c
  proof -
    have "apart h a c" "apart h b c" "0 < h_size h c" using assms(1-4) that by (auto simp: blocks_ok_def)
    then show ?thesis using assms(5,6) that by (auto simp: apart_def)
  qed
  have sym: "apart h' c a" if "apart h' a c" for c using that by (auto simp: apart_def)
  have rest: "apart h' c d" if "c \<in> B - {a}" "d \<in> B - {a}" "c \<noteq> d" for c d
    using assms(1,6) that by (auto simp: blocks_ok_def apart_def)
  have "apart h' c d" if "c \<in> B - {b}" "d \<in> B - {b}" "c \<noteq> d" for c d
    using that others sym rest by (cases "c = a"; cases "d = a") auto
  moreover have "h_base h' < c \<and> 0 < h_size h' c \<and> c + 8 * h_size h' c \<le> arena_top h'" if "c \<in> B - {b}" for c
    using assms that ab by (auto simp: blocks_ok_def)
  ultimately show ?thesis by (auto simp: blocks_ok_def)
qed

lemma in_tl [simp]: "xs \<noteq> [] \<Longrightarrow> p \<in> set (tl (xs @ p # ys))" "b \<in> set (tl (xs @ p # b # ys))"
  by (cases xs; simp)+

lemma small_sizes: "heap_inv h ns al \<Longrightarrow> b \<in> set (tl ns) \<union> al \<Longrightarrow> b + 8 * h_size h b < 2 ^ 32"
  using blocks_okD [of h "set (tl ns) \<union> al" b] by (auto simp: heap_inv_def brk_ok_def)

lemma merge_next:
  assumes "heap_inv h (xs @ p # q # ys) al" "xs \<noteq> []" "p + 8 * h_size h p = q" "freep h \<noteq> q"
  shows "heap_inv (set_ptr p (h_ptr h q) (set_size p (h_size h p + h_size h q) h)) (xs @ p # ys) al"
proof -
  let ?h = "set_ptr p (h_ptr h q) (set_size p (h_size h p + h_size h q) h)" and ?B = "set (tl (xs @ p # q # ys)) \<union> al"
  have r: "free_ring h (xs @ p # q # ys)" and B: "blocks_ok h ?B" and al: "al \<inter> set (xs @ p # q # ys) = {}"
    using assms(1) by (auto simp: heap_inv_def)
  note R = free_ring_split [OF r]
  have pq: "p \<in> ?B" "q \<in> ?B" "p \<noteq> q" "p \<noteq> h_base h" using assms(2) R(5) [of "hd xs" p] R(6) [of q] R(8) hd_in_set [of xs] by auto
  have "q + 8 * h_size h q < 2 ^ 32" using small_sizes [OF assms(1) pq(2)] .
  then have m: "(h_size h p + h_size h q) mod 2 ^ 32 = h_size h p + h_size h q" using assms(3) by simp
  have "blocks_ok ?h (?B - {q})"
    by (rule merge_blocks [OF B pq(1,2,3) assms(3)]) (simp_all add: m [simplified])
  moreover have "?B - {q} = set (tl (xs @ p # ys)) \<union> al"
    using assms(2) R(5) R(6) al sorted_distinct [of "xs @ p # q # ys"] r by (cases xs) (auto simp: free_ring_def)
  moreover have "free_ring ?h (xs @ p # ys)"
    using remove_next [OF r assms(4)] pq(4) by (auto simp: free_ring_def)
  ultimately show ?thesis using assms(1) al by (auto simp: heap_inv_def)
qed

lemma insertion_point:
  assumes "sorted_wrt (<) ns" "ns \<noteq> []" "hd ns < (b :: nat)" "b \<notin> set ns"
  shows "\<exists>xs p ys. ns = xs @ p # ys \<and> p < b \<and> (ys = [] \<or> b < hd ys)"
  using assms
proof (induction ns)
  case (Cons a ns)
  show ?case
  proof (cases "ns = [] \<or> b < hd ns")
    case True
    then show ?thesis using Cons.prems by (intro exI [of _ "[]"]) auto
  next
    case False
    then have "hd ns < b" using Cons.prems(4) by (cases ns) auto
    then obtain xs p ys where "ns = xs @ p # ys \<and> p < b \<and> (ys = [] \<or> b < hd ys)"
      using Cons.IH Cons.prems False by auto
    then show ?thesis by (intro exI [of _ "a # xs"]) auto
  qed
qed simp

text \<open>The block in the list, before it is joined with its neighbours.\<close>

lemma insert_block:
  assumes "heap_inv h (xs @ p # ys) al" "b \<in> al" "p < b" "ys = [] \<or> b < hd ys"
  shows "heap_inv ((set_ptr p b (set_ptr b (h_ptr h p) h))\<lparr>freep := p\<rparr>) (xs @ p # b # ys) (al - {b})"
proof -
  have "set (tl (xs @ p # b # ys)) \<union> (al - {b}) = set (tl (xs @ p # ys)) \<union> al" using assms(2) by (cases xs) auto
  moreover have "free_ring ((set_ptr p b (set_ptr b (h_ptr h p) h))\<lparr>freep := p\<rparr>) (xs @ p # b # ys)"
    by (rule insert_plain) (use assms in \<open>auto simp: heap_inv_def\<close>)
  ultimately show ?thesis using assms(1,2) by (auto simp: heap_inv_def)
qed

lemma join_upper_inv:
  assumes "heap_inv h (xs @ p # ys) al" "b \<in> al" "p < b" "ys = [] \<or> b < hd ys"
  defines "h1 \<equiv> (set_ptr p b (join_upper b p h))\<lparr>freep := p\<rparr>"
  shows "\<exists>ys'. heap_inv h1 (xs @ p # b # ys') (al - {b}) \<and> h_size h b \<le> h_size h1 b
    \<and> (\<forall>a. a \<noteq> b \<longrightarrow> h_size h1 a = h_size h a)"
proof -
  define h0 where "h0 = (set_ptr p b (set_ptr b (h_ptr h p) h))\<lparr>freep := p\<rparr>"
  have I: "heap_inv h0 (xs @ p # b # ys) (al - {b})" unfolding h0_def by (rule insert_block [OF assms(1-4)])
  have B: "b + 8 * h_size h b \<le> arena_top h" "brk_ok h" "h_base h < b"
    using assms(1,2) blocks_okD [of h "set (tl (xs @ p # ys)) \<union> al" b] by (auto simp: heap_inv_def)
  have pb: "padd b (h_size h b) = b + 8 * h_size h b" using padd_block [OF B(2,1)] .
  have r: "free_ring h (xs @ p # ys)" using assms(1) by (simp add: heap_inv_def)
  show ?thesis
  proof (cases "padd b (h_size h b) = h_ptr h p")
    case False
    then have "h1 = h0" by (simp add: h1_def h0_def join_upper_def Let_def)
    then show ?thesis using I by (auto simp: h0_def)
  next
    case True
    then obtain q ys' where ys: "ys = q # ys'" "h_ptr h p = q"
      using free_ring_split(2) [OF r] B(3) pb by (cases ys) auto
    have q: "q \<noteq> p" "q \<noteq> b" using free_ring_split(6) [OF r, of q] ys assms(4) by auto
    have "h1 = set_ptr b (h_ptr h0 q) (set_size b (h_size h0 b + h_size h0 q) h0)"
      using True q assms(3) ys
      by (intro heap.equality) (simp_all add: h1_def h0_def join_upper_def Let_def fun_upd_twist)
    then have "heap_inv h1 ((xs @ [p]) @ b # ys') (al - {b})"
      using merge_next [of h0 "xs @ [p]" b q ys' "al - {b}"] I ys True pb q by (simp add: h0_def)
    moreover have "q + 8 * h_size h q < 2 ^ 32" using small_sizes [OF assms(1), of q] ys by simp
    then have "(h_size h b + h_size h q) mod 2 ^ 32 = h_size h b + h_size h q" using True pb ys by simp
    then have "h_size h b \<le> h_size h1 b" "\<forall>a. a \<noteq> b \<longrightarrow> h_size h1 a = h_size h a"
      using True ys by (simp_all add: h1_def join_upper_def Let_def)
    ultimately show ?thesis by auto
  qed
qed

lemma free_inv:
  assumes "heap_inv h ns al" "b \<in> al"
  shows "\<exists>h' ns'. free (b + 8) h = Some h' \<and> heap_inv h' ns' (al - {b}) \<and> (\<forall>a\<in>al - {b}. h_size h' a = h_size h a)
    \<and> (\<exists>c\<in>set (tl ns'). h_size h b \<le> h_size h' c) \<and> h_base h' = h_base h \<and> arena_top h' = arena_top h"
proof -
  have r: "free_ring h ns" and bb: "h_base h < b" "b \<notin> set ns"
    using assms blocks_okD [of h "set (tl ns) \<union> al" b] by (auto simp: heap_inv_def)
  obtain xs p ys where ns: "ns = xs @ p # ys" and p: "p < b" "ys = [] \<or> b < hd ys"
    using insertion_point [of ns b] r bb by (auto simp: free_ring_def)
  have fl: "free_loop b (freep h) h = Some p" by (rule free_loop_finds [OF r ns p]) (use r in \<open>simp add: free_ring_def\<close>)
  define h1 where "h1 = (set_ptr p b (join_upper b p h))\<lparr>freep := p\<rparr>"
  obtain ys' where I: "heap_inv h1 (xs @ p # b # ys') (al - {b})" and sz: "h_size h b \<le> h_size h1 b" "\<forall>a. a \<noteq> b \<longrightarrow> h_size h1 a = h_size h a"
    using join_upper_inv [OF assms(1)[unfolded ns] assms(2) p] by (auto simp: h1_def)
  have J: "h_size (join_upper b p h) = h_size h1" "h_ptr (join_upper b p h) b = h_ptr h1 b" using p by (simp_all add: h1_def)
  have frame: "h_base h1 = h_base h" "arena_top h1 = arena_top h" by (simp_all add: h1_def join_upper_def Let_def)
  define h' where "h' = (join_lower b p (join_upper b p h))\<lparr>freep := p\<rparr>"
  have F: "free (b + 8) h = Some h'" using fl by (simp add: free_def h'_def)
  have pal: "p \<notin> al" using assms(1) ns by (auto simp: heap_inv_def)
  show ?thesis
  proof (cases "padd p (h_size h1 p) = b")
    case False
    then have "padd p (h_size (join_upper b p h) p) \<noteq> b" by (simp only: J(1)) simp
    then have "h' = h1" unfolding h'_def h1_def join_lower_def by simp
    then show ?thesis using F I sz frame by (intro exI [of _ h1] exI [of _ "xs @ p # b # ys'"]) auto
  next
    case True
    have r1: "free_ring h1 (xs @ p # b # ys')" using I by (simp add: heap_inv_def)
    have xs: "xs \<noteq> []"
    proof
      assume "xs = []"
      then have "p = h_base h1" using free_ring_split(7) [OF r1] by simp
      then have "padd p (h_size h1 p) = p mod 2 ^ 32" using r1 by (simp add: free_ring_def padd_def)
      then show False using True p by (simp add: mod_less_eq_dividend leD)
    qed
    then have P: "p + 8 * h_size h1 p \<le> arena_top h1" "brk_ok h1"
      using I blocks_okD [of h1 "set (tl (xs @ p # b # ys')) \<union> (al - {b})" p] by (auto simp: heap_inv_def)
    have pp: "p + 8 * h_size h1 p = b" using padd_block [OF P(2,1)] True by simp
    have "h' = set_ptr p (h_ptr h1 b) (set_size p (h_size h1 p + h_size h1 b) h1)"
    proof -
      have "padd p (h_size (join_upper b p h) p) = b" using True by (simp only: J(1))
      then show ?thesis unfolding h'_def h1_def join_lower_def using p by (intro heap.equality) simp_all
    qed
    then have "heap_inv h' (xs @ p # ys') (al - {b})"
      using merge_next [OF I xs pp] p by (simp add: h1_def)
    moreover have "b + 8 * h_size h1 b < 2 ^ 32" using small_sizes [OF I, of b] by simp
    then have "(h_size h1 p + h_size h1 b) mod 2 ^ 32 = h_size h1 p + h_size h1 b" using pp by simp
    then have "h_size h' p = h_size h1 p + h_size h1 b" "\<forall>a. a \<noteq> p \<longrightarrow> h_size h' a = h_size h1 a"
      using True by (simp_all add: h'_def join_lower_def J(1))
    moreover have "h_base h' = h_base h" "arena_top h' = arena_top h" by (simp_all add: h'_def join_lower_def join_upper_def Let_def)
    moreover have "h_size h' a = h_size h a" if "a \<in> al - {b}" for a using calculation(3) sz(2) that pal by auto
    moreover have "h_size h b \<le> h_size h' p" "p \<in> set (tl (xs @ p # ys'))" using calculation(2) sz(1) xs by auto
    ultimately show ?thesis using F by blast
  qed
qed

section \<open>Taking a block\<close>

lemma free_ring_freep: "free_ring h ns \<Longrightarrow> q \<in> set ns \<Longrightarrow> free_ring (h\<lparr>freep := q\<rparr>) ns"
  by (auto simp: free_ring_def)

lemma free_ring_distinct: "free_ring h ns \<Longrightarrow> distinct ns"
  by (rule sorted_distinct) (simp add: free_ring_def)

lemma chain_next:
  assumes "chain f e (us @ q # vs)"
  shows "f q = (if vs = [] then e else hd vs)"
  using assms by (cases vs) (simp_all add: chain_append)

lemma free_ring_pred:
  assumes "free_ring h ns" "ns = xs @ p # ys" "xs \<noteq> []" "q \<in> set ns" "h_ptr h q = p"
  shows "\<exists>us. xs = us @ [q]"
proof -
  have d: "distinct ns" using assms(1) by (auto simp: free_ring_def intro: sorted_distinct)
  have c: "chain (h_ptr h) (hd ns) ns" using assms(1) by (auto simp: free_ring_def)
  obtain us vs where q: "ns = us @ q # vs" using assms(4) by (meson split_list)
  have "h_ptr h q = (if vs = [] then hd ns else hd vs)" using chain_next [of "h_ptr h" "hd ns" us q vs] c q by simp
  then have v: "vs \<noteq> []" "hd vs = p" using assms(2,3,5) d by (cases xs; auto split: if_splits)+
  then have "us @ q # p # tl vs = xs @ p # ys" using q assms(2) by (cases vs) auto
  moreover have "p \<notin> set (us @ [q])" "p \<notin> set (tl vs)" using d q v by (cases vs; auto)+
  ultimately have "us @ [q] = xs" using append_Cons_eq_iff [of p "us @ [q]" "tl vs" xs ys] by simp
  then show ?thesis by auto
qed

lemma split_block:
  assumes "blocks_ok h B" "p \<in> B" "0 < n" "n < h_size h p" "b = p + 8 * (h_size h p - n)"
    and "h_size h' = (h_size h)(p := h_size h p - n, b := n)" "h_base h' = h_base h" "arena_top h' = arena_top h"
  shows "b \<notin> B" and "blocks_ok h' (insert b B)"
proof -
  have p: "h_base h < p" "p + 8 * h_size h p \<le> arena_top h" using assms(1,2) by (auto simp: blocks_ok_def)
  have pb: "p < b" "b + 8 * n = p + 8 * h_size h p" using assms(3-5) by auto
  have other: "p + 8 * h_size h p \<le> c \<or> c + 8 * h_size h c \<le> p" "0 < h_size h c" if "c \<in> B" "c \<noteq> p" for c
    using assms(1,2) that by (auto simp: blocks_ok_def apart_def)
  show nb: "b \<notin> B"
  proof
    assume "b \<in> B"
    then show False using other [of b] pb assms(3) by auto
  qed
  have sz: "h_size h' p = h_size h p - n" "h_size h' b = n" "\<And>c. c \<noteq> p \<Longrightarrow> c \<noteq> b \<Longrightarrow> h_size h' c = h_size h c"
    using assms(6) pb by auto
  have sym: "apart h' c d" if "apart h' d c" for c d using that by (auto simp: apart_def)
  have ap: "apart h' p c" "apart h' b c" if "c \<in> B" "c \<noteq> p" for c
    using other [OF that] sz pb that nb by (auto simp: apart_def)
  have bp: "apart h' p b" using sz assms(4,5) pb by (auto simp: apart_def)
  have rest: "apart h' c d" if "c \<in> B - {p}" "d \<in> B - {p}" "c \<noteq> d" for c d
  proof -
    have "apart h c d" using assms(1) that by (auto simp: blocks_ok_def)
    moreover have "h_size h' c = h_size h c" "h_size h' d = h_size h d" using sz(3) that nb by auto
    ultimately show ?thesis by (simp add: apart_def)
  qed
  have "apart h' c d" if cd: "c \<in> insert b B" "d \<in> insert b B" "c \<noteq> d" for c d
  proof -
    have "apart h' b d" if "d \<in> B" for d using that ap(2) [of d] sym [OF bp] by (cases "d = p") auto
    moreover have "apart h' c d" if "c \<in> B" "d \<in> B" "c \<noteq> d" for c d
    proof (cases "c = p")
      case True
      then show ?thesis using that ap(1) by simp
    next
      case False
      then show ?thesis using that rest [of c d] sym [OF ap(1) [of c]] by (cases "d = p") auto
    qed
    ultimately show ?thesis using cd by (auto intro: sym)
  qed
  moreover have "h_base h' < c \<and> 0 < h_size h' c \<and> c + 8 * h_size h' c \<le> arena_top h'" if "c \<in> insert b B" for c
    using assms(1,3,4,7,8) that sz p pb nb by (cases "c = b"; cases "c = p") (auto simp: blocks_ok_def)
  ultimately show "blocks_ok h' (insert b B)" by (auto simp: blocks_ok_def)
qed

text \<open>What taking a block from the list promises.\<close>

definition gives :: "heap \<Rightarrow> nat set \<Rightarrow> nat \<Rightarrow> nat \<times> heap \<Rightarrow> bool" where
  "gives h al nunits r \<longleftrightarrow> (\<exists>b h' ns'. r = (b + 8, h') \<and> heap_inv h' ns' (insert b al) \<and> b \<notin> al \<and> h_size h' b = nunits
     \<and> (\<forall>a\<in>al. h_size h' a = h_size h a))"

lemma take_block_gives:
  assumes "heap_inv h ns al" "q \<in> set ns" "h_ptr h q = p" "p \<in> set ns" "0 < n" "n \<le> h_size h p"
  shows "gives h al n (take_block n q p h)"
proof -
  have r: "free_ring h ns" and B: "blocks_ok h (set (tl ns) \<union> al)" and al: "al \<inter> set ns = {}" using assms(1) by (auto simp: heap_inv_def)
  obtain xs ys where ns: "ns = xs @ p # ys" using assms(4) by (meson split_list)
  have "p \<noteq> h_base h" using assms(5,6) r by (auto simp: free_ring_def)
  then have xs: "xs \<noteq> []" using free_ring_split(7) [of h xs p ys] r ns by auto
  obtain us where us: "xs = us @ [q]" using free_ring_pred [OF r ns xs assms(2,3)] by auto
  show ?thesis
  proof (cases "h_size h p = n")
    case True
    define h' where "h' = (set_ptr q (h_ptr h p) h)\<lparr>freep := q\<rparr>"
    have "free_ring (h\<lparr>freep := q\<rparr>) (us @ q # p # ys)" using free_ring_freep [OF r assms(2)] ns us by simp
    moreover have "q \<noteq> p" using r ns us sorted_distinct [of ns] by (auto simp: free_ring_def)
    ultimately have "free_ring (set_ptr q (h_ptr (h\<lparr>freep := q\<rparr>) p) (h\<lparr>freep := q\<rparr>)) (us @ q # ys)"
      by (intro remove_next) simp_all
    then have r': "free_ring h' (us @ q # ys)" by (auto simp: h'_def free_ring_def)
    have "set (tl (us @ q # ys)) \<union> insert p al = set (tl ns) \<union> al" using ns us by (cases us) auto
    then have "heap_inv h' (us @ q # ys) (insert p al)"
      using r' assms(1) al ns us sorted_distinct [of ns] r by (auto simp: heap_inv_def h'_def free_ring_def)
    then show ?thesis using True assms(4) al unfolding gives_def
      by (intro exI [of _ p] exI [of _ h'] exI [of _ "us @ q # ys"]) (auto simp: take_block_def h'_def)
  next
    case False
    then have lt: "n < h_size h p" using assms(6) by simp
    have pB: "p \<in> set (tl ns) \<union> al" using ns xs by simp
    have small: "p + 8 * h_size h p < 2 ^ 32" using small_sizes [OF assms(1) pB] .
    define b h' where "b = p + 8 * (h_size h p - n)"
      and "h' = (set_size b n (set_size p (h_size h p - n) h))\<lparr>freep := q\<rparr>"
    have mods: "(h_size h p - n) mod 2 ^ 32 = h_size h p - n" "n mod 2 ^ 32 = n" "padd p (h_size h p - n) = b"
      using small lt by (simp_all add: padd_def b_def)
    have sz: "h_size h' = (h_size h)(p := h_size h p - n, b := n)" using mods by (simp add: h'_def)
    note S = split_block [OF B pB assms(5) lt b_def sz]
    have nb: "b \<notin> set (tl ns) \<union> al" and B': "blocks_ok h' (insert b (set (tl ns) \<union> al))" using S by (simp_all add: h'_def)
    have bb: "h_base h < b" using blocks_okD [OF B pB] by (simp add: b_def)
    then have bns: "b \<notin> set ns" using nb r by (cases ns) (auto simp: free_ring_def)
    have "free_ring h' ns" using free_ring_freep [OF r assms(2)] sz \<open>p \<noteq> h_base h\<close> bb by (auto simp: free_ring_def h'_def)
    then have "heap_inv h' ns (insert b al)" using assms(1) al bns B' by (auto simp: heap_inv_def h'_def)
    moreover have "take_block n q p h = (b + 8, h')" using False mods by (simp add: take_block_def h'_def Let_def)
    moreover have "b \<notin> al" "h_size h' b = n" "\<forall>a\<in>al. h_size h' a = h_size h a" using sz nb al assms(4) by auto
    ultimately show ?thesis unfolding gives_def by blast
  qed
qed

section \<open>Searching for a block\<close>

text \<open>The list of the blocks from the one after \<open>c\<close> round to \<open>c\<close>.\<close>

lemma round_trip:
  assumes "free_ring h ns" "c \<in> set ns"
  shows "\<exists>ws. chain (h_ptr h) (h_ptr h c) ws \<and> ws \<noteq> [] \<and> hd ws = h_ptr h c \<and> last ws = c \<and> set ws = set ns \<and> distinct ws"
proof -
  obtain us vs where ns: "ns = us @ c # vs" using assms(2) by (meson split_list)
  have c: "chain (h_ptr h) (hd ns) (us @ c # vs)" using assms(1) ns by (auto simp: free_ring_def)
  have d: "distinct ns" using assms(1) by (rule free_ring_distinct)
  have next_c: "h_ptr h c = (if vs = [] then hd ns else hd vs)" using chain_next [OF c] .
  have parts: "chain (h_ptr h) c us" "chain (h_ptr h) (hd ns) vs" using c by (cases vs; simp add: chain_append)+
  have "chain (h_ptr h) (h_ptr h c) (vs @ us @ [c])"
  proof -
    have "chain (h_ptr h) (h_ptr h c) (us @ [c])" using parts(1) by (simp add: chain_snoc)
    moreover have "hd (us @ [c]) = hd ns" using ns by (cases us) auto
    ultimately show ?thesis using parts(2) by (subst chain_append) simp_all
  qed
  moreover have "hd (vs @ us @ [c]) = h_ptr h c" using next_c ns by (cases us; cases vs) auto
  ultimately show ?thesis using d ns by (intro exI [of _ "vs @ us @ [c]"]) auto
qed

lemma malloc_loop_fits:
  assumes "heap_inv h ns al" "0 < n" "chain (h_ptr h) e ws" "ws \<noteq> []" "last ws = freep h" "set ws \<subseteq> set ns" "distinct ws"
    and "q \<in> set ns" "h_ptr h q = hd ws" "\<exists>a\<in>set ws. n \<le> h_size h a"
  shows "\<exists>r. malloc_loop n q (hd ws) h = Some r \<and> gives h al n r"
  using assms(3-)
proof (induction ws arbitrary: q)
  case (Cons p ws)
  show ?case
  proof (cases "n \<le> h_size h p")
    case True
    then show ?thesis
      using take_block_gives [OF assms(1) Cons.prems(6), of p n] Cons.prems(4,7) assms(2) by (subst malloc_loop.simps) simp
  next
    case False
    then have ws: "ws \<noteq> []" "\<exists>a\<in>set ws. n \<le> h_size h a" using Cons.prems(8) by auto
    then have "p \<noteq> freep h" using Cons.prems(3,5) by (metis distinct.simps(2) last.simps last_in_set)
    moreover have "h_ptr h p = hd ws" "chain (h_ptr h) e ws" using Cons.prems(1) ws by (simp_all add: chain_Cons)
    ultimately show ?thesis using Cons.IH [of p] Cons.prems ws False by (subst malloc_loop.simps) auto
  qed
qed simp

lemma malloc_loop_full:
  assumes "chain (h_ptr h) e ws" "ws \<noteq> []" "last ws = freep h" "distinct ws" "\<forall>a\<in>set ws. \<not> n \<le> h_size h a"
  shows "malloc_loop n q (hd ws) h
    = Option.bind (morecore n h) (\<lambda>(q, h1). if q = 0 then Some (0, h1) else malloc_loop n q (h_ptr h1 q) h1)"
  using assms
proof (induction ws arbitrary: q)
  case (Cons p ws)
  show ?case
  proof (cases "ws = []")
    case True
    then show ?thesis using Cons.prems by (subst malloc_loop.simps) simp
  next
    case False
    then have "p \<noteq> freep h" using Cons.prems(3,4) by (metis distinct.simps(2) last.simps last_in_set)
    moreover have "h_ptr h p = hd ws" "chain (h_ptr h) e ws" using Cons.prems(1) False by (simp_all add: chain_Cons)
    ultimately show ?thesis using Cons.IH [of p] Cons.prems False by (subst malloc_loop.simps) auto
  qed
qed simp

text \<open>Fresh memory from the kernel is a block above all others.\<close>

definition keeps_sizes :: "heap \<Rightarrow> heap \<Rightarrow> nat set \<Rightarrow> bool" where
  "keeps_sizes h h' al \<longleftrightarrow> (\<forall>a\<in>al. h_size h' a = h_size h a)"

lemma sbrk_raise:
  assumes "brk_ok h" "0 < k" "k < 2 ^ 30"
  shows "sbrk (int k) h =
    (if accepts_brk h (arena_top h + k) then (Some (arena_top h), h\<lparr>curbrk := arena_top h + k, kbrk := kernel_brk (arena_top h + k)\<rparr>)
     else (None, h\<lparr>curbrk := arena_top h\<rparr>))"
proof -
  have h1: "(if curbrk h = 0 then h\<lparr>curbrk := kbrk h\<rparr> else h) = h\<lparr>curbrk := arena_top h\<rparr>" by (simp add: arena_top_def)
  have "(int (arena_top h) + int k) mod 2 ^ 32 = int (arena_top h + k)"
    using assms by (subst mod_pos_pos_trivial) (auto simp: brk_ok_def)
  then have addr: "nat ((int (arena_top h) + int k) mod 2 ^ 32) = arena_top h + k" by simp
  show ?thesis using assms(2) unfolding sbrk_def h1 Let_def by (simp add: brk_def addr [simplified] del: of_nat_add)
qed

lemma add_top_block:
  assumes "blocks_ok h B" "up = arena_top h" "h_base h < up" "0 < nu" "h_size h' = (h_size h)(up := nu)"
    and "h_base h' = h_base h" "arena_top h' = up + 8 * nu"
  shows "blocks_ok h' (insert up B)"
proof -
  have below: "c < up" "c + 8 * h_size h c \<le> up" "h_base h < c" "0 < h_size h c" if "c \<in> B" for c
    using blocks_okD [OF assms(1) that] assms(2) by auto
  have sz: "h_size h' c = h_size h c" if "c \<in> B" for c using below(1) [OF that] assms(5) by auto
  have "apart h' c up" "apart h' up c" if "c \<in> B" for c using below [OF that] sz [OF that] by (auto simp: apart_def)
  moreover have "apart h' c d" if "c \<in> B" "d \<in> B" "c \<noteq> d" for c d
    using assms(1) sz that by (auto simp: blocks_ok_def apart_def)
  ultimately have "\<forall>c\<in>insert up B. \<forall>d\<in>insert up B. c \<noteq> d \<longrightarrow> apart h' c d" by auto
  moreover have "h_base h' < c \<and> 0 < h_size h' c \<and> c + 8 * h_size h' c \<le> arena_top h'" if "c \<in> insert up B" for c
    using that below [of c] sz [of c] assms by (cases "c = up") auto
  ultimately show ?thesis unfolding blocks_ok_def by blast
qed

lemma morecore_inv:
  assumes "heap_inv h ns al" "0 < n" "n * 8 < 2 ^ 30"
  shows "\<exists>q h' ns'. morecore n h = Some (q, h') \<and> heap_inv h' ns' al \<and> keeps_sizes h h' al
    \<and> (if accepts_brk h (arena_top h + max n NALLOC * 8) then q = freep h' \<and> (\<exists>c\<in>set ns'. n \<le> h_size h' c) else q = 0)"
proof -
  define nu where "nu = max n NALLOC"
  have nu: "n \<le> nu" "0 < nu" "nu * 8 < 2 ^ 30" using assms(2,3) by (auto simp: nu_def)
  have inc: "to_int32 (nu * 8 mod 2 ^ 32) = int (nu * 8)"
    using nu(3) unfolding to_int32_def by (subst signed_take_bit_int_eq_self) auto
  have b: "brk_ok h" using assms(1) by (simp add: heap_inv_def)
  define h1 where "h1 = h\<lparr>curbrk := arena_top h\<rparr>"
  note raise = sbrk_raise [OF b, of "nu * 8"]
  have inv1: "heap_inv h1 ns al" using assms(1) by (auto simp: heap_inv_def h1_def brk_ok_def free_ring_def blocks_ok_def apart_def)
  show ?thesis
  proof (cases "accepts_brk h (arena_top h + nu * 8)")
    case False
    then have "sbrk (int (nu * 8)) h = (None, h1)"
      using nu(2,3) raise by (simp add: h1_def)
    then have "morecore n h = Some (0, h1)" unfolding morecore_def Let_def nu_def [symmetric] inc by simp
    moreover have "keeps_sizes h h1 al" by (simp add: keeps_sizes_def h1_def)
    moreover have "\<not> accepts_brk h (arena_top h + max n NALLOC * 8)" using False by (simp add: nu_def)
    ultimately show ?thesis using inv1 by auto
  next
    case True
    define up h2 where "up = arena_top h" and "h2 = set_size up nu (h1\<lparr>curbrk := arena_top h + nu * 8, kbrk := kernel_brk (arena_top h + nu * 8)\<rparr>)"
    have "sbrk (int (nu * 8)) h = (Some up, h1\<lparr>curbrk := arena_top h + nu * 8, kbrk := kernel_brk (arena_top h + nu * 8)\<rparr>)"
      using nu(2,3) raise True by (simp add: h1_def up_def)
    then have m: "morecore n h = map_option (\<lambda>h3. (freep h3, h3)) (free (up + 8) h2)"
      unfolding morecore_def Let_def nu_def [symmetric] inc by (simp add: h2_def)
    have below: "c < up" "c + 8 * h_size h c \<le> up" if "c \<in> set (tl ns) \<union> al" for c
      using assms(1) that blocks_okD [of h "set (tl ns) \<union> al" c] by (auto simp: heap_inv_def up_def)
    have "up \<notin> set (tl ns)" "up \<notin> al" using below(1) [of up] by auto
    moreover have "h_base h < up" using b by (simp add: brk_ok_def up_def)
    ultimately have bup: "h_base h < up" "up \<notin> set ns" "up \<notin> al"
      using assms(1) by (auto simp: heap_inv_def free_ring_def) (metis hd_Cons_tl less_irrefl set_ConsD)
    have sz: "h_size h2 = (h_size h)(up := nu)" using nu(3) by (simp add: h2_def h1_def)
    have B: "blocks_ok h (set (tl ns) \<union> al)" using assms(1) by (simp add: heap_inv_def)
    have "blocks_ok h2 (set (tl ns) \<union> insert up al)"
      using add_top_block [OF B, of up nu h2] sz bup nu(2) by (simp add: h2_def h1_def up_def)
    moreover have "free_ring h2 ns" using assms(1) bup by (auto simp: heap_inv_def free_ring_def h2_def h1_def)
    moreover have "brk_ok h2" using b True by (auto simp: brk_ok_def h2_def h1_def)
    ultimately have "heap_inv h2 ns (insert up al)" using assms(1) bup by (auto simp: heap_inv_def)
    from free_inv [OF this, of up] obtain h3 ns3 where h3: "free (up + 8) h2 = Some h3" "heap_inv h3 ns3 (insert up al - {up})"
      "\<forall>a\<in>insert up al - {up}. h_size h3 a = h_size h2 a" "\<exists>c\<in>set (tl ns3). h_size h2 up \<le> h_size h3 c" by auto
    have "insert up al - {up} = al" using bup by auto
    moreover have "keeps_sizes h h3 al" using h3(3) sz bup by (auto simp: keeps_sizes_def)
    moreover have "\<exists>c\<in>set ns3. n \<le> h_size h3 c" using h3(4) sz nu(1) by (cases ns3) (fastforce, fastforce)
    moreover have "accepts_brk h (arena_top h + max n NALLOC * 8)" using True by (simp add: nu_def)
    ultimately show ?thesis using m h3 by auto
  qed
qed

lemma freep_pos: "heap_inv h ns al \<Longrightarrow> 0 < freep h"
proof -
  assume a: "heap_inv h ns al"
  then have "freep h \<in> set ns" by (simp add: heap_inv_def free_ring_def)
  then obtain xs ys where "ns = xs @ freep h # ys" by (meson split_list)
  then have "h_base h \<le> freep h" using a free_ring_split(9) [of h xs "freep h" ys] by (auto simp: heap_inv_def)
  then show ?thesis using a by (auto simp: heap_inv_def brk_ok_def)
qed

lemma gives_keeps: "gives h' al n r \<Longrightarrow> keeps_sizes h h' al \<Longrightarrow> gives h al n r"
  unfolding gives_def keeps_sizes_def by fastforce

lemma malloc_loop_inv:
  assumes "heap_inv h ns al" "0 < n" "n * 8 < 2 ^ 30"
  shows "\<exists>r. malloc_loop n (freep h) (h_ptr h (freep h)) h = Some r
    \<and> (gives h al n r \<or> \<not> accepts_brk h (arena_top h + max n NALLOC * 8)
       \<and> (\<exists>h' ns'. r = (0, h') \<and> heap_inv h' ns' al \<and> keeps_sizes h h' al))"
proof -
  have fits: "\<exists>r. malloc_loop n (freep k) (h_ptr k (freep k)) k = Some r \<and> gives k al n r"
    if "heap_inv k ms al" "\<exists>a\<in>set ms. n \<le> h_size k a" for k ms
  proof -
    have r: "free_ring k ms" "freep k \<in> set ms" using that(1) by (auto simp: heap_inv_def free_ring_def)
    obtain ws where ws: "chain (h_ptr k) (h_ptr k (freep k)) ws" "ws \<noteq> []" "hd ws = h_ptr k (freep k)" "last ws = freep k"
      "set ws = set ms" "distinct ws" using round_trip [OF r] by auto
    show ?thesis
      using malloc_loop_fits [OF that(1) assms(2) ws(1,2,4) _ ws(6) r(2)] ws(3,5) that(2) by simp
  qed
  show ?thesis
  proof (cases "\<exists>a\<in>set ns. n \<le> h_size h a")
    case True
    then show ?thesis using fits [OF assms(1)] by blast
  next
    case False
    have r: "free_ring h ns" "freep h \<in> set ns" using assms(1) by (auto simp: heap_inv_def free_ring_def)
    obtain ws where ws: "chain (h_ptr h) (h_ptr h (freep h)) ws" "ws \<noteq> []" "hd ws = h_ptr h (freep h)" "last ws = freep h"
      "set ws = set ns" "distinct ws" using round_trip [OF r] by auto
    obtain q h' ns' where m: "morecore n h = Some (q, h')" "heap_inv h' ns' al" "keeps_sizes h h' al"
      and q: "if accepts_brk h (arena_top h + max n NALLOC * 8) then q = freep h' \<and> (\<exists>c\<in>set ns'. n \<le> h_size h' c) else q = 0"
      using morecore_inv [OF assms] by blast
    have l: "malloc_loop n (freep h) (h_ptr h (freep h)) h = (if q = 0 then Some (0, h') else malloc_loop n q (h_ptr h' q) h')"
      using malloc_loop_full [OF ws(1,2,4,6), of n] False ws(3,5) m(1) by simp
    show ?thesis
    proof (cases "q = 0")
      case True
      then show ?thesis using l m q freep_pos [OF m(2)] by (auto split: if_splits)
    next
      case False
      then obtain r where "malloc_loop n q (h_ptr h' q) h' = Some r" "gives h' al n r"
        using fits [OF m(2)] q by (auto split: if_splits)
      then show ?thesis using l False gives_keeps [OF _ m(3)] by auto
    qed
  qed
qed

section \<open>Programs that allocate and free\<close>

text \<open>Before the first call: the list is empty and the break lies above the data of the program.\<close>

definition heap_start :: "heap \<Rightarrow> bool" where
  "heap_start h \<longleftrightarrow> brk_ok h \<and> freep h = 0"

text \<open>The request fits in the positive range of \<open>sbrk\<close>.\<close>

definition request_ok :: "nat \<Rightarrow> bool" where
  "request_ok nbytes \<longleftrightarrow> nbytes < 2 ^ 30 - 16"

text \<open>The bytes behind a pointer that \<open>malloc\<close> returned.\<close>

definition block_room :: "heap \<Rightarrow> nat \<Rightarrow> nat" where
  "block_room h p = 8 * h_size h (p - 8) - 8"

text \<open>
  The heaps that a program can reach with calls of \<open>malloc\<close> and of \<open>free\<close> for pointers that are live, in any
  order; \<open>L\<close> are the live pointers.  Between the calls the memory that the kernel can give may change.
\<close>

inductive run :: "heap \<Rightarrow> heap \<Rightarrow> nat set \<Rightarrow> bool" for h0 where
  start: "run h0 h0 {}"
| got: "run h0 h L \<Longrightarrow> request_ok n \<Longrightarrow> malloc n h = Some (p, h') \<Longrightarrow> p \<noteq> 0 \<Longrightarrow> run h0 h' (insert p L)"
| refused: "run h0 h L \<Longrightarrow> request_ok n \<Longrightarrow> malloc n h = Some (0, h') \<Longrightarrow> run h0 h' L"
| freed: "run h0 h L \<Longrightarrow> p \<in> L \<Longrightarrow> free p h = Some h' \<Longrightarrow> run h0 h' (L - {p})"
| memory: "run h0 h L \<Longrightarrow> \<forall>a. A a \<longrightarrow> a \<le> USER_TOP \<Longrightarrow> run h0 (h\<lparr>accepts_brk := A\<rparr>) L"

definition live :: "heap \<Rightarrow> nat set \<Rightarrow> bool" where
  "live h L \<longleftrightarrow> heap_start h \<and> L = {} \<or> (\<exists>ns al. heap_inv h ns al \<and> L = (\<lambda>b. b + 8) ` al)"

lemma units_bounds: "request_ok n \<Longrightarrow> 0 < units n \<and> units n * 8 < 2 ^ 30 \<and> n + 8 \<le> 8 * units n"
proof -
  assume "request_ok n"
  then have n: "n < 2 ^ 30 - 16" by (simp add: request_ok_def)
  then have "units n = (n + 7) div 8 + 1" by (simp add: units_def)
  then show ?thesis using n by presburger
qed

text \<open>The first call makes a list of \<open>base\<close> alone.\<close>

lemma start_inv:
  assumes "heap_start h"
  shows "heap_inv (set_size (h_base h) 0 (set_ptr (h_base h) (h_base h) (h\<lparr>freep := h_base h\<rparr>))) [h_base h] {}"
  using assms by (auto simp: heap_start_def heap_inv_def free_ring_def blocks_ok_def)

definition took :: "heap \<Rightarrow> nat set \<Rightarrow> nat \<Rightarrow> nat \<Rightarrow> heap \<Rightarrow> bool" where
  "took h L n p h' \<longleftrightarrow> p \<notin> L \<and> n \<le> block_room h' p \<and> h_base h' + 8 < p \<and> p + block_room h' p \<le> arena_top h'
     \<and> (\<forall>q\<in>L. block_room h' q = block_room h q \<and> (p + block_room h' p \<le> q - 8 \<or> q + block_room h' q \<le> p - 8))"

lemma gives_took:
  assumes "gives h al (units n) r" "request_ok n" "L = (\<lambda>b. b + 8) ` al"
  shows "\<exists>p h'. r = (p, h') \<and> 0 < p \<and> took h L n p h' \<and> live h' (insert p L)"
proof -
  obtain b h' ns' where r: "r = (b + 8, h')" and I: "heap_inv h' ns' (insert b al)" and b: "b \<notin> al" "h_size h' b = units n"
    and sz: "\<forall>a\<in>al. h_size h' a = h_size h a" using assms(1) unfolding gives_def by auto
  have B: "blocks_ok h' (set (tl ns') \<union> insert b al)" using I by (simp add: heap_inv_def)
  have ap: "apart h' b a" if "a \<in> al" for a using B b that by (auto simp: blocks_ok_def)
  have pos: "0 < h_size h' a" if "a \<in> insert b al" for a using B that by (auto simp: blocks_ok_def)
  note u = units_bounds [OF assms(2)]
  have rooms: "block_room h' (a + 8) = block_room h (a + 8)" "b + 8 + block_room h' (b + 8) \<le> a \<or> a + 8 + block_room h' (a + 8) \<le> b" if "a \<in> al" for a
    using ap [OF that] pos [of a] pos [of b] sz that by (auto simp: block_room_def apart_def)
  have "block_room h' q = block_room h q \<and> (b + 8 + block_room h' (b + 8) \<le> q - 8 \<or> q + block_room h' q \<le> b + 8 - 8)" if qL: "q \<in> L" for q
  proof -
    obtain a where "q = a + 8" "a \<in> al" using qL assms(3) by auto
    then show ?thesis using rooms [of a] by simp
  qed
  moreover have "b + 8 \<notin> L" using b(1) assms(3) by auto
  moreover have "n \<le> block_room h' (b + 8)" "b + 8 + block_room h' (b + 8) \<le> arena_top h'" "h_base h' + 8 < b + 8"
    using blocks_okD [OF B, of b] u b(2) by (auto simp: block_room_def)
  ultimately have "took h L n (b + 8) h'" unfolding took_def by blast
  moreover have "live h' (insert (b + 8) L)" using I assms(3) unfolding live_def by blast
  ultimately show ?thesis using r by auto
qed

lemma malloc_live:
  assumes "live h L" "request_ok n"
  shows "\<exists>p h'. malloc n h = Some (p, h')
    \<and> (if p = 0 then \<not> accepts_brk h (arena_top h + max (units n) NALLOC * 8) \<and> live h' L \<and> (\<forall>q\<in>L. block_room h' q = block_room h q)
       else took h L n p h' \<and> live h' (insert p L))"
proof -
  note u = units_bounds [OF assms(2)]
  define h1 where "h1 = (if freep h = 0 then set_size (h_base h) 0 (set_ptr (h_base h) (h_base h) (h\<lparr>freep := h_base h\<rparr>)) else h)"
  obtain ns al where I: "heap_inv h1 ns al" and L: "L = (\<lambda>b. b + 8) ` al" and same: "al = {} \<or> h1 = h"
    using assms(1) start_inv [of h] freep_pos [of h] unfolding live_def h1_def heap_start_def by fastforce
  have same': "accepts_brk h1 = accepts_brk h" "arena_top h1 = arena_top h" by (simp_all add: h1_def)
  obtain r where r: "malloc_loop (units n) (freep h1) (h_ptr h1 (freep h1)) h1 = Some r"
    and cases: "gives h1 al (units n) r \<or> \<not> accepts_brk h1 (arena_top h1 + max (units n) NALLOC * 8)
       \<and> (\<exists>h' ns'. r = (0, h') \<and> heap_inv h' ns' al \<and> keeps_sizes h1 h' al)"
    using malloc_loop_inv [OF I] u by blast
  have m: "malloc n h = Some r" using r by (simp add: malloc_def h1_def)
  from cases show ?thesis
  proof
    assume "gives h1 al (units n) r"
    then obtain p h' where "r = (p, h')" "0 < p" "took h1 L n p h'" "live h' (insert p L)" using gives_took [OF _ assms(2) L] by blast
    moreover then have "took h L n p h'" using same L by (auto simp: took_def)
    ultimately show ?thesis using m by auto
  next
    assume a: "\<not> accepts_brk h1 (arena_top h1 + max (units n) NALLOC * 8) \<and> (\<exists>h' ns'. r = (0, h') \<and> heap_inv h' ns' al \<and> keeps_sizes h1 h' al)"
    then obtain h' ns' where "r = (0, h')" "heap_inv h' ns' al" "keeps_sizes h1 h' al" by blast
    then show ?thesis using m a same' same L unfolding live_def by (auto simp: keeps_sizes_def block_room_def)
  qed
qed

lemma free_live:
  assumes "live h L" "p \<in> L"
  shows "\<exists>h'. free p h = Some h' \<and> live h' (L - {p}) \<and> (\<forall>q\<in>L - {p}. block_room h' q = block_room h q)"
proof -
  obtain ns al where I: "heap_inv h ns al" and L: "L = (\<lambda>b. b + 8) ` al" using assms by (auto simp: live_def)
  then obtain b where b: "p = b + 8" "b \<in> al" using assms(2) by auto
  obtain h' ns' where f: "free p h = Some h'" "heap_inv h' ns' (al - {b})" "\<forall>a\<in>al - {b}. h_size h' a = h_size h a"
    using free_inv [OF I b(2)] b(1) by auto
  moreover have "L - {p} = (\<lambda>b. b + 8) ` (al - {b})" using L b by auto
  ultimately show ?thesis unfolding live_def by (auto simp: block_room_def)
qed

lemma live_memory:
  assumes "live h L" "\<forall>a. A a \<longrightarrow> a \<le> USER_TOP"
  shows "live (h\<lparr>accepts_brk := A\<rparr>) L"
proof -
  have "heap_start h \<Longrightarrow> heap_start (h\<lparr>accepts_brk := A\<rparr>)" using assms(2) by (simp add: heap_start_def brk_ok_def)
  moreover have "heap_inv h ns al \<Longrightarrow> heap_inv (h\<lparr>accepts_brk := A\<rparr>) ns al" for ns al
    using assms(2) by (auto simp: heap_inv_def brk_ok_def free_ring_def blocks_ok_def apart_def)
  ultimately show ?thesis using assms(1) unfolding live_def by blast
qed

lemma run_live: "run h0 h L \<Longrightarrow> heap_start h0 \<Longrightarrow> live h L"
proof (induction rule: run.induct)
  case start
  then show ?case by (simp add: live_def)
next
  case (got h L n p h')
  then show ?case using malloc_live [of h L n] by auto
next
  case (refused h L n h')
  then show ?case using malloc_live [of h L n] by auto
next
  case (freed h L p h')
  then show ?case using free_live [of h L p] by auto
next
  case (memory h L A)
  then show ?case using live_memory by blast
qed

text \<open>
  C8: Whatever sequence of calls a program has made, with requests below \<open>2 ^ 30 - 16\<close> bytes, above which the number of
  units wraps around, \<open>malloc\<close> returns: either 0, and then the kernel has refused
  to raise the break and no block has changed, or a pointer to at least \<open>n\<close> bytes between \<open>base\<close> and the break that
  overlaps no live block and none of their headers, all of which keep their size.  \<open>free\<close> of every live
  pointer returns and leaves the other blocks as they are.
\<close>

theorem malloc_free_correct:
  assumes "heap_start h0" and "run h0 h L" and "request_ok n"
  shows "(\<exists>p h'. malloc n h = Some (p, h')
      \<and> (if p = 0 then \<not> accepts_brk h (arena_top h + max (units n) NALLOC * 8) \<and> (\<forall>q\<in>L. block_room h' q = block_room h q)
         else took h L n p h'))
    \<and> (\<forall>p\<in>L. \<exists>h'. free p h = Some h' \<and> (\<forall>q\<in>L - {p}. block_room h' q = block_room h q))"
proof -
  have l: "live h L" using run_live assms(1,2) by blast
  show ?thesis using malloc_live [OF l assms(3)] free_live [OF l] by (fastforce split: if_splits)
qed

definition new_heap :: heap where
  "new_heap = \<lparr>h_ptr = (\<lambda>_. 0), h_size = (\<lambda>_. 0), h_base = 0x104000, freep = 0, curbrk = 0, kbrk = 0x106000,
     accepts_brk = (\<lambda>a. a \<le> 0x200000)\<rparr>"

theorem malloc_free_witness: "\<exists>p h'. malloc 100 new_heap = Some (p, h') \<and> took new_heap {} 100 p h'"
proof -
  have "heap_start new_heap" by (simp add: heap_start_def brk_ok_def new_heap_def arena_top_def)
  moreover have "run new_heap new_heap {}" by (rule run.start)
  moreover have "request_ok 100" by (simp add: request_ok_def)
  moreover have "accepts_brk new_heap (arena_top new_heap + max (units 100) 1024 * 8)"
    by (simp add: new_heap_def arena_top_def units_def)
  ultimately show ?thesis using malloc_free_correct [of new_heap new_heap "{}" 100] by (fastforce split: if_splits)
qed

end
