(* ===== verification/Idata.thy ===== *)
theory Idata
  imports Inode Tty "HOL-Library.Signed_Division"
begin

text \<open>
  The contents of files, the second part of \<open>sys/kern/inode.c\<close>: the map from the blocks of a file to
  blocks of the disk, reading and writing through it, the device files, and the release of the
  blocks of a file with its inode.
\<close>

section \<open>The block map\<close>

definition set_direct :: "nat \<Rightarrow> u16 \<Rightarrow> inode \<Rightarrow> inode" where
  "set_direct x n i = i\<lparr>i_direct := (i_direct i)[x := n]\<rparr>"

definition bmap :: "nat \<Rightarrow> nat \<Rightarrow> u32 \<Rightarrow> u32 kernel" where
  "bmap k index flags =
     bindK (getK (\<lambda>s. inodes s ! k)) (\<lambda>i.
     if i_flags i AND I_LOCK = 0 then panic ''bmap: inode not locked''
     else if index < NDIRECT then
       thenK (whenK (flags AND B_WRITE \<noteq> 0 \<and> i_direct i ! index = 0)
                (bindK (balloc (i_dev i)) (\<lambda>n.
                 modifyK (upd_inode k (\<lambda>i. set_iflags I_DIRTY (set_direct index (ucast n) i))))))
       (getK (\<lambda>s. ucast (i_direct (inodes s ! k) ! index)))
     else if index < NDIRECT + NINDIRECT then
       thenK (whenK (flags AND B_WRITE \<noteq> 0 \<and> i_indirect i = 0)
                (bindK (balloc (i_dev i)) (\<lambda>n.
                 modifyK (upd_inode k (\<lambda>i. set_iflags I_DIRTY (i\<lparr>i_indirect := ucast n\<rparr>))))))
       (bindK (getK (\<lambda>s. i_indirect (inodes s ! k))) (\<lambda>ind.
        if ind = 0 then returnK 0
        else
          bindK (bread (i_dev i) (ucast ind)) (\<lambda>b.
          bindK (getK (\<lambda>s. get16 (b_data (bcache s ! b)) (2 * (index - NDIRECT)))) (\<lambda>e.
          thenK (whenK (e = 0)
                   (bindK (balloc (i_dev i)) (\<lambda>n.
                    thenK (modifyK (upd_buf b (\<lambda>x. x\<lparr>b_data := put16 (b_data x) (2 * (index - NDIRECT)) (ucast n)\<rparr>)))
                    (bwrite b))))
          (bindK (getK (\<lambda>s. get16 (b_data (bcache s ! b)) (2 * (index - NDIRECT)))) (\<lambda>no.
           thenK (brelse b) (returnK (ucast no))))))))
     else panic ''Double indirect not implemented!'')"

section \<open>Device files\<close>

text \<open>The other entries of \<open>cdevsw\<close> (\<open>sys/i386/conf.c\<close>).\<close>

definition null_read :: "unit kernel \<Rightarrow> u16 \<Rightarrow> bytes \<Rightarrow> (int \<times> bytes) kernel" where
  "null_read unlock dev dst = returnK (0, dst)"

definition zero_read :: "unit kernel \<Rightarrow> u16 \<Rightarrow> bytes \<Rightarrow> (int \<times> bytes) kernel" where
  "zero_read unlock dev dst = returnK (int (length dst), replicate (length dst) 0)"

definition null_write :: "u16 \<Rightarrow> bytes \<Rightarrow> int kernel" where
  "null_write dev src = returnK 0"

definition cdev_read :: "(unit kernel \<Rightarrow> u16 \<Rightarrow> bytes \<Rightarrow> (int \<times> bytes) kernel) list" where
  "cdev_read = [null_read, tty_read, zero_read, tty_read]"

definition cdev_write :: "(u16 \<Rightarrow> bytes \<Rightarrow> int kernel) list" where
  "cdev_write = [null_write, tty_write, null_write, tty_write]"

section \<open>Reading and writing\<close>

text \<open>The loops over the blocks: \<open>off\<close> is the offset in the first block, below \<open>BLOCK_SIZE\<close>, and 0
  in the others.\<close>

function read_blocks :: "u16 \<Rightarrow> u32 \<Rightarrow> nat \<Rightarrow> nat \<Rightarrow> bytes kernel" where
  "read_blocks dev block_no off nbytes =
     (if nbytes = 0 \<or> BLOCK_SIZE \<le> off then returnK []
      else
        let seg_size = min (BLOCK_SIZE - off) nbytes in
        bindK (bread dev block_no) (\<lambda>b.
        bindK (getK (\<lambda>s. take seg_size (drop off (b_data (bcache s ! b))))) (\<lambda>seg.
        thenK (brelse b)
        (bindK (read_blocks dev (block_no + 1) 0 (nbytes - seg_size)) (\<lambda>rest.
         returnK (seg @ rest))))))"
  by pat_completeness auto

termination read_blocks
  by (relation "measure (\<lambda>(_, _, _, n). n)") auto

declare read_blocks.simps [simp del]

function read_segs :: "nat \<Rightarrow> u16 \<Rightarrow> nat \<Rightarrow> nat \<Rightarrow> nat \<Rightarrow> bytes kernel" where
  "read_segs k dev bindex off remaining =
     (if remaining = 0 \<or> BLOCK_SIZE \<le> off then returnK []
      else
        let seg_size = min (BLOCK_SIZE - off) remaining in
        bindK (bmap k bindex B_READ) (\<lambda>block_no.
        bindK (bread dev block_no) (\<lambda>b.
        bindK (getK (\<lambda>s. take seg_size (drop off (b_data (bcache s ! b))))) (\<lambda>seg.
        thenK (brelse b)
        (bindK (read_segs k dev (bindex + 1) 0 (remaining - seg_size)) (\<lambda>rest.
         returnK (seg @ rest)))))))"
  by pat_completeness auto

termination read_segs
  by (relation "measure (\<lambda>(_, _, _, _, n). n)") auto

declare read_segs.simps [simp del]

text \<open>
  \<open>readi\<close>; the value is the return code and the new contents of the buffer \<open>dst\<close>.  The divisions
  are those of C, which truncate towards zero; a negative offset inside the first block is an
  access outside the buffer, and one before it becomes a huge block index.
\<close>

definition read_len :: "inode \<Rightarrow> int \<Rightarrow> nat \<Rightarrow> nat" where
  "read_len i offset n = (if to_long (offset + int n) > i_size i then nat (i_size i - offset) else n)"

definition readi :: "nat \<Rightarrow> bytes \<Rightarrow> int \<Rightarrow> (int \<times> bytes) kernel" where
  "readi k dst offset =
     bindK (getK (\<lambda>s. inodes s ! k)) (\<lambda>i.
     if i_flags i AND I_LOCK = 0 then panic ''readi not locked''
     else if i_mode i AND S_IFMT = S_IFCHR then
       (let cdev = i_direct i ! 0
        in if unat (major cdev) \<ge> num_cdev then returnK (- ENODEV, dst)
           else (cdev_read ! unat (major cdev)) (iunlock k) cdev dst)
     else if i_mode i AND S_IFMT = S_IFBLK then
       (let off = offset smod int BLOCK_SIZE
        in if dst = [] then returnK (0, dst)
           else if off < 0 then faultK
           else
             bindK (read_blocks (i_direct i ! 0) (of_int (offset sdiv int BLOCK_SIZE) + 1) (nat off) (length dst))
             (\<lambda>bs. returnK (int (length dst), bs)))
     else if offset > i_size i then returnK (- EINVAL, dst)
     else
       (let nbytes = read_len i offset (length dst);
            off = offset smod int BLOCK_SIZE
        in if nbytes = 0 then returnK (0, dst)
           else if offset sdiv int BLOCK_SIZE < 0 then panic ''Double indirect not implemented!''
           else if off < 0 then faultK
           else
             bindK (read_segs k (i_dev i) (nat (offset sdiv int BLOCK_SIZE)) (nat off) nbytes)
             (\<lambda>bs. returnK (int nbytes, overwrite dst 0 bs))))"

function write_segs :: "nat \<Rightarrow> u16 \<Rightarrow> nat \<Rightarrow> nat \<Rightarrow> bytes \<Rightarrow> unit kernel" where
  "write_segs k dev bindex off src =
     (if src = [] \<or> BLOCK_SIZE \<le> off then returnK ()
      else
        let seg = take (BLOCK_SIZE - off) src in
        bindK (bmap k bindex B_WRITE) (\<lambda>block_no.
        bindK (bread dev block_no) (\<lambda>b.
        thenK (modifyK (\<lambda>s. upd_buf b (\<lambda>x. x\<lparr>b_data := overwrite (b_data (bcache s ! b)) off seg\<rparr>) s))
        (thenK (bwrite b)
        (thenK (brelse b)
        (write_segs k dev (bindex + 1) 0 (drop (BLOCK_SIZE - off) src)))))))"
  by pat_completeness auto

termination write_segs
  by (relation "measure (\<lambda>(_, _, _, _, src). length src)") (auto simp: neq_Nil_conv)

declare write_segs.simps [simp del]

text \<open>The new size: \<open>unsigned int\<close> arithmetic, then a conversion to \<open>long\<close>.\<close>

definition grow_size :: "u32 \<Rightarrow> nat \<Rightarrow> inode \<Rightarrow> inode" where
  "grow_size offset nbytes i =
     (let sz = sint (offset + of_nat nbytes)
      in if sz > i_size i then set_iflags I_DIRTY (i\<lparr>i_size := sz\<rparr>) else i)"

definition writei :: "nat \<Rightarrow> bytes \<Rightarrow> u32 \<Rightarrow> int kernel" where
  "writei k src offset =
     bindK (getK (\<lambda>s. inodes s ! k)) (\<lambda>i.
     if i_flags i AND I_LOCK = 0 then panic ''writei not locked''
     else if i_mode i AND S_IFMT = S_IFCHR then
       (let cdev = i_direct i ! 0
        in if unat (major cdev) \<ge> num_cdev then returnK (- ENODEV)
           else (cdev_write ! unat (major cdev)) cdev src)
     else if i_mode i AND S_IFMT = S_IFBLK then panic ''writei: block dev''
     else if i_mode i AND S_IFMT = S_IFIFO then panic ''writei: fifo''
     else
       thenK (write_segs k (i_dev i) (unat offset div BLOCK_SIZE) (unat offset mod BLOCK_SIZE) src)
       (thenK (modifyK (upd_inode k (grow_size offset (length src))))
       (returnK (int (length src)))))"

section \<open>The blocks of a file\<close>

text \<open>The disk block that holds block \<open>x\<close> of a file, 0 if there is none, and the byte at a position.\<close>

definition blockno :: "u16 \<Rightarrow> kstate \<Rightarrow> inode \<Rightarrow> nat \<Rightarrow> u32" where
  "blockno dv s i x =
     (if x < NDIRECT then ucast (i_direct i ! x)
      else if x < NDIRECT + NINDIRECT \<and> i_indirect i \<noteq> 0
      then ucast (get16 (disk_block dv s (ucast (i_indirect i))) (2 * (x - NDIRECT)))
      else 0)"

definition fbyte :: "u16 \<Rightarrow> kstate \<Rightarrow> inode \<Rightarrow> nat \<Rightarrow> u8" where
  "fbyte dv s i p = disk_block dv s (blockno dv s i (p div BLOCK_SIZE)) ! (p mod BLOCK_SIZE)"

lemma unat_ucast_16_32 [simp]: "unat (ucast (w::u16) :: u32) = unat w"
proof -
  have "unat w < 2 ^ LENGTH(16)" by (rule unsigned_less)
  then show ?thesis by (simp add: unsigned_ucast_eq take_bit_nat_eq_self)
qed

lemma ucast_16_32_0 [simp]: "(ucast (w::u16) :: u32) = 0 \<longleftrightarrow> w = 0"
  unfolding unat_eq_0 [symmetric] by simp

lemma ucast_32_16_32: "unat (w::u32) < 65536 \<Longrightarrow> ucast (ucast w :: u16) = w"
proof -
  assume "unat w < 65536"
  then have "unat (ucast w :: u16) = unat w" by (simp add: unsigned_ucast_eq unsigned_take_bit_eq take_bit_nat_eq_self)
  then have "unat (ucast (ucast w :: u16) :: u32) = unat w" using unat_ucast_16_32 by metis
  then show ?thesis by (rule unsigned_word_eqI)
qed

lemma block_position: "r < BLOCK_SIZE \<Longrightarrow> (x * BLOCK_SIZE + r) div BLOCK_SIZE = x"
  "r < BLOCK_SIZE \<Longrightarrow> (x * BLOCK_SIZE + r) mod BLOCK_SIZE = r" for x r :: nat
  by simp_all

lemma block_ok_16: "block_ok (ucast (w::u16))"
proof -
  have "unat w < 2 ^ LENGTH(16)" by (rule unsigned_less)
  then show ?thesis by (simp add: block_ok_def)
qed

lemma block_ok_blockno: "block_ok (blockno dv s i x)"
  using block_ok_16 by (simp add: blockno_def) (simp add: block_ok_def)

lemma bmap_mapped:
  assumes "bio_idle dv s" and "inodes s ! k = i" and "i_flags i AND I_LOCK \<noteq> 0" and "i_dev i = dv"
    and "blockno dv s i x \<noteq> 0"
  shows "\<exists>t. bmap k x fl s = Ok (blockno dv s i x) t \<and> bio_idle dv t \<and> bio_frame s t
    \<and> (\<forall>m. block_ok m \<longrightarrow> disk_block dv t m = disk_block dv s m)"
proof (cases "x < NDIRECT")
  case True
  then show ?thesis using assms by (auto simp: bmap_def blockno_def kern_simps)
next
  case False
  then have x: "x < NDIRECT + NINDIRECT" "i_indirect i \<noteq> 0" using assms(5) by (auto simp: blockno_def split: if_splits)
  let ?n = "ucast (i_indirect i) :: u32"
  obtain b t L where t: "bread dv ?n s = Ok b t" "bio_inv dv t L" "insert b (set L) = {..<NBUF}"
    "fresh_hold dv t b ?n (disk_block dv s ?n)" "bio_frame s t" "disk_block dv t = disk_block dv s"
    using bio_idle_bread [OF assms(1) block_ok_16] by metis
  have d: "b_data (bcache t ! b) = disk_block dv s ?n" using t(4) by (simp add: fresh_hold_def)
  obtain u where u: "brelse b t = Ok () u" "bio_idle dv u" "bio_frame t u"
    "\<And>m. block_ok m \<Longrightarrow> disk_block dv u m = (if m = ?n then b_data (bcache t ! b) else disk_block dv t m)"
    using bio_idle_brelse [OF t(2,3), of ?n] t(4,6) by (auto simp: fresh_hold_def)
  let ?e = "get16 (disk_block dv s ?n) (2 * (x - NDIRECT))"
  have e: "blockno dv s i x = ucast ?e" "?e \<noteq> 0" using False x assms(5) by (auto simp: blockno_def)
  have "bmap k x fl s = Ok (blockno dv s i x) u"
    using False x assms(2-4) t(1) d u(1) e by (simp add: bmap_def kern_simps bindK_Ok thenK_Ok)
  then show ?thesis using u(2,4) d t(6) bio_frame_trans [OF t(5) u(3)] by auto
qed

section \<open>Reading\<close>

lemma block_fetch_seg:
  assumes "bio_idle dv s" and "block_ok n"
  obtains b t u where "bread dv n s = Ok b t" "b_data (bcache t ! b) = disk_block dv s n" "brelse b t = Ok () u"
    "bio_idle dv u" "bio_frame s u" "\<And>m. block_ok m \<Longrightarrow> disk_block dv u m = disk_block dv s m"
proof -
  obtain b t L where t: "bread dv n s = Ok b t" "bio_inv dv t L" "insert b (set L) = {..<NBUF}"
    "fresh_hold dv t b n (disk_block dv s n)" "bio_frame s t" "disk_block dv t = disk_block dv s"
    using bio_idle_bread [OF assms] by metis
  have d: "b_data (bcache t ! b) = disk_block dv s n" using t(4) by (simp add: fresh_hold_def)
  obtain u where u: "brelse b t = Ok () u" "bio_idle dv u" "bio_frame t u"
    "\<And>m. block_ok m \<Longrightarrow> disk_block dv u m = (if m = n then b_data (bcache t ! b) else disk_block dv t m)"
    using bio_idle_brelse [OF t(2,3), of n] t(4,6) by (auto simp: fresh_hold_def)
  show thesis using that [OF t(1) d u(1,2) bio_frame_trans [OF t(5) u(3)]] u(4) d t(6) by auto
qed

lemma blockno_cong:
  assumes "\<And>m. block_ok m \<Longrightarrow> disk_block dv t m = disk_block dv s m"
  shows "blockno dv t i = blockno dv s i" "fbyte dv t i = fbyte dv s i"
proof -
  show b: "blockno dv t i = blockno dv s i" using assms block_ok_16 by (auto simp: blockno_def)
  show "fbyte dv t i = fbyte dv s i" unfolding fbyte_def b using assms [OF block_ok_blockno] by auto
qed

lemma fbyte_seg:
  assumes "bio_idle dv s" and "off < BLOCK_SIZE" and "n \<le> BLOCK_SIZE - off"
  shows "take n (drop off (disk_block dv s (blockno dv s i x))) = map (fbyte dv s i) [x * BLOCK_SIZE + off..<x * BLOCK_SIZE + off + n]"
proof (rule nth_equalityI)
  show "length (take n (drop off (disk_block dv s (blockno dv s i x)))) = length (map (fbyte dv s i) [x * BLOCK_SIZE + off..<x * BLOCK_SIZE + off + n])"
    using assms by (simp add: length_disk_block_idle)
  fix j
  assume "j < length (take n (drop off (disk_block dv s (blockno dv s i x))))"
  then have j: "j < n" "off + j < BLOCK_SIZE" using assms by (simp_all add: length_disk_block_idle)
  have "(x * BLOCK_SIZE + off + j) div BLOCK_SIZE = x" "(x * BLOCK_SIZE + off + j) mod BLOCK_SIZE = off + j"
    using block_position [OF j(2), of x] by (simp_all only: add.assoc)
  then show "take n (drop off (disk_block dv s (blockno dv s i x))) ! j
      = map (fbyte dv s i) [x * BLOCK_SIZE + off..<x * BLOCK_SIZE + off + n] ! j"
    using j assms by (simp add: fbyte_def length_disk_block_idle)
qed

lemma read_segs_spec:
  assumes "bio_idle dv s" and "inodes s ! k = i" and "i_flags i AND I_LOCK \<noteq> 0" and "i_dev i = dv"
    and "off < BLOCK_SIZE"
    and "\<And>p. x * BLOCK_SIZE + off \<le> p \<Longrightarrow> p < x * BLOCK_SIZE + off + n \<Longrightarrow> blockno dv s i (p div BLOCK_SIZE) \<noteq> 0"
  shows "\<exists>t. read_segs k dv x off n s = Ok (map (fbyte dv s i) [x * BLOCK_SIZE + off..<x * BLOCK_SIZE + off + n]) t
    \<and> bio_idle dv t \<and> bio_frame s t \<and> (\<forall>m. block_ok m \<longrightarrow> disk_block dv t m = disk_block dv s m)"
  using assms
proof (induction k dv x off n arbitrary: s rule: read_segs.induct)
  case (1 k dv x off n)
  show ?case
  proof (cases "n = 0")
    case True
    then show ?thesis using "1.prems"(1) by (auto simp: read_segs.simps [of k dv x off 0] kern_simps)
  next
    case False
    let ?seg = "min (BLOCK_SIZE - off) n" and ?a = "x * BLOCK_SIZE + off"
    have guard: "\<not> (n = 0 \<or> BLOCK_SIZE \<le> off)" using False "1.prems"(5) by simp
    have "?a div BLOCK_SIZE = x" using "1.prems"(5) by simp
    then have mapped: "blockno dv s i x \<noteq> 0" using "1.prems"(6) [of ?a] False by simp
    obtain t where t: "bmap k x B_READ s = Ok (blockno dv s i x) t" "bio_idle dv t" "bio_frame s t"
      "\<And>m. block_ok m \<Longrightarrow> disk_block dv t m = disk_block dv s m"
      using bmap_mapped [OF "1.prems"(1-4) mapped] by blast
    obtain b u v where u: "bread dv (blockno dv s i x) t = Ok b u" "b_data (bcache u ! b) = disk_block dv t (blockno dv s i x)"
      "brelse b u = Ok () v" "bio_idle dv v" "bio_frame t v" "\<And>m. block_ok m \<Longrightarrow> disk_block dv v m = disk_block dv t m"
      using block_fetch_seg [OF t(2) block_ok_blockno] by metis
    have dv: "\<And>m. block_ok m \<Longrightarrow> disk_block dv v m = disk_block dv s m" using t(4) u(6) by simp
    have fr: "bio_frame s v" by (rule bio_frame_trans [OF t(3) u(5)])
    have iv: "inodes v ! k = i" using bio_frame_inodes [OF fr] "1.prems"(2) by simp
    have seg: "take ?seg (drop off (disk_block dv s (blockno dv s i x))) = map (fbyte dv s i) [?a..<?a + ?seg]"
      by (rule fbyte_seg [OF "1.prems"(1,5)]) simp
    have "blockno dv v i (p div BLOCK_SIZE) \<noteq> 0"
      if "(x + 1) * BLOCK_SIZE + 0 \<le> p" "p < (x + 1) * BLOCK_SIZE + 0 + (n - ?seg)" for p
    proof -
      have "?a \<le> p" "p < ?a + n" using that "1.prems"(5) by (auto simp: min_def split: if_splits)
      then show ?thesis using "1.prems"(6) blockno_cong(1) [OF dv] by simp
    qed
    then obtain w where w: "read_segs k dv (x + 1) 0 (n - ?seg) v = Ok (map (fbyte dv v i)
        [(x + 1) * BLOCK_SIZE + 0..<(x + 1) * BLOCK_SIZE + 0 + (n - ?seg)]) w" "bio_idle dv w" "bio_frame v w"
      "\<And>m. block_ok m \<Longrightarrow> disk_block dv w m = disk_block dv v m"
      using "1.IH" [OF guard refl u(4) iv "1.prems"(3,4)] by auto
    have parts: "[?a..<?a + ?seg] @ [(x + 1) * BLOCK_SIZE + 0..<(x + 1) * BLOCK_SIZE + 0 + (n - ?seg)] = [?a..<?a + n]"
    proof (cases "n \<le> BLOCK_SIZE - off")
      case True
      then show ?thesis by simp
    next
      case False
      then have "?a + ?seg = (x + 1) * BLOCK_SIZE" "?a + n = (x + 1) * BLOCK_SIZE + (n - ?seg)"
        using "1.prems"(5) by auto
      moreover have "?a \<le> (x + 1) * BLOCK_SIZE" using "1.prems"(5) by simp
      ultimately show ?thesis by (metis add_0_right upt_add_eq_append)
    qed
    have fv: "fbyte dv v i = fbyte dv s i" by (rule blockno_cong(2) [OF dv])
    have "read_segs k dv x off n s = Ok (map (fbyte dv s i) [?a..<?a + n]) w"
      using guard t(1) u(1-3) t(4) [OF block_ok_blockno] seg w(1) unfolding fv
      by (subst read_segs.simps, subst parts [symmetric])
        (simp add: Let_def bindK_Ok thenK_Ok kern_simps bindK_def [of "getK _"] getK_def returnK_def del: upt_Suc)
    then show ?thesis using w(2,4) dv bio_frame_trans [OF fr w(3)] by auto
  qed
qed

text \<open>A file with data: not a device and not a fifo.\<close>

definition is_data :: "inode \<Rightarrow> bool" where
  "is_data i \<longleftrightarrow> i_mode i AND S_IFMT \<notin> {S_IFCHR, S_IFBLK, S_IFIFO}"

lemma readi_spec:
  assumes "bio_idle dv s" and "inodes s ! k = i" and "i_flags i AND I_LOCK \<noteq> 0" and "i_dev i = dv" and "is_data i"
    and "int a \<le> i_size i" and "i_size i < 2 ^ 31" and "int (a + length dst) < 2 ^ 31"
    and n: "n = min (length dst) (nat (i_size i) - a)"
    and "\<And>p. a \<le> p \<Longrightarrow> p < a + n \<Longrightarrow> blockno dv s i (p div BLOCK_SIZE) \<noteq> 0"
  shows "\<exists>t. readi k dst (int a) s = Ok (int n, overwrite dst 0 (map (fbyte dv s i) [a..<a + n])) t
    \<and> bio_idle dv t \<and> bio_frame s t \<and> (\<forall>m. block_ok m \<longrightarrow> disk_block dv t m = disk_block dv s m)"
proof -
  have nn: "read_len i (int a) (length dst) = n"
    using assms(6-8) n unfolding read_len_def by (subst to_long_id) auto
  have dm: "int a sdiv int BLOCK_SIZE = int (a div BLOCK_SIZE)" "int a smod int BLOCK_SIZE = int (a mod BLOCK_SIZE)"
    by (cases "a = 0"; simp add: signed_divide_int_def signed_modulo_int_def zdiv_int zmod_int)+
  have mode: "i_mode i AND S_IFMT \<noteq> S_IFCHR" "i_mode i AND S_IFMT \<noteq> S_IFBLK" using assms(5) by (simp_all add: is_data_def)
  show ?thesis
  proof (cases "n = 0")
    case True
    have "readi k dst (int a) s = Ok (0, dst) s"
      using assms(2-4,6) mode nn True unfolding readi_def by (simp add: kern_simps Let_def)
    then show ?thesis using True assms(1) by (auto simp: overwrite_def)
  next
    case False
    let ?x = "a div BLOCK_SIZE" and ?off = "a mod BLOCK_SIZE"
    have a: "?x * BLOCK_SIZE + ?off = a" by simp
    obtain t where t: "read_segs k dv ?x ?off n s = Ok (map (fbyte dv s i) [a..<a + n]) t" "bio_idle dv t" "bio_frame s t"
      "\<forall>m. block_ok m \<longrightarrow> disk_block dv t m = disk_block dv s m"
      using read_segs_spec [OF assms(1-4), of ?off ?x n] assms(10) unfolding a by auto
    have "readi k dst (int a) s = Ok (int n, overwrite dst 0 (map (fbyte dv s i) [a..<a + n])) t"
      using assms(2-4,6) mode False t(1) dm unfolding readi_def
      by (simp add: kern_simps Let_def bindK_Ok nn)
    then show ?thesis using t by blast
  qed
qed

section \<open>Writing\<close>

text \<open>
  The blocks of the file in entry \<open>k\<close> of the inode cache are zones in use, no block is in the file
  twice, and the data zones come after the maps of the file system.
\<close>

definition file_zone :: "u16 \<Rightarrow> fs \<Rightarrow> kstate \<Rightarrow> u32 \<Rightarrow> bool" where
  "file_zone dv sb s no \<longleftrightarrow> (\<exists>n\<in>zones_used dv sb s. no = zone_block sb n)"

definition file_inv :: "u16 \<Rightarrow> fs \<Rightarrow> kstate \<Rightarrow> nat \<Rightarrow> bool" where
  "file_inv dv sb s k \<longleftrightarrow> zones_inv dv sb s \<and> k < length (inodes s)
     \<and> zmap_begin sb + unat (s_zmap_blocks sb) \<le> unat (s_firstdatazone sb)
     \<and> (let i = inodes s ! k in
        i_flags i AND I_LOCK \<noteq> 0 \<and> i_dev i = dv \<and> is_data i \<and> length (i_direct i) = NDIRECT
        \<and> (i_indirect i \<noteq> 0 \<longrightarrow> file_zone dv sb s (ucast (i_indirect i)))
        \<and> (\<forall>x. blockno dv s i x \<noteq> 0 \<longrightarrow> file_zone dv sb s (blockno dv s i x) \<and> blockno dv s i x \<noteq> ucast (i_indirect i)
             \<and> (\<forall>y. blockno dv s i y = blockno dv s i x \<longrightarrow> y = x)))"

lemma file_invD:
  assumes "file_inv dv sb s k"
  shows "zones_inv dv sb s" "bio_idle dv s" "k < length (inodes s)" "i_flags (inodes s ! k) AND I_LOCK \<noteq> 0"
    "i_dev (inodes s ! k) = dv" "is_data (inodes s ! k)" "length (i_direct (inodes s ! k)) = NDIRECT" "super s = sb"
    "zmap_begin sb + unat (s_zmap_blocks sb) \<le> unat (s_firstdatazone sb)" "1 \<le> unat (s_firstdatazone sb)"
    "i_indirect (inodes s ! k) \<noteq> 0 \<Longrightarrow> file_zone dv sb s (ucast (i_indirect (inodes s ! k)))"
    "blockno dv s (inodes s ! k) x \<noteq> 0 \<Longrightarrow> file_zone dv sb s (blockno dv s (inodes s ! k) x)"
    "blockno dv s (inodes s ! k) x \<noteq> 0 \<Longrightarrow> blockno dv s (inodes s ! k) x \<noteq> ucast (i_indirect (inodes s ! k))"
    "blockno dv s (inodes s ! k) x \<noteq> 0 \<Longrightarrow> blockno dv s (inodes s ! k) y = blockno dv s (inodes s ! k) x \<Longrightarrow> y = x"
  using assms by (auto simp: file_inv_def Let_def zones_inv_def)

text \<open>A data zone is not a block of the zone map, and its number fits 16 bits.\<close>

lemma zone_block_not_map:
  assumes "zmap_begin sb + unat (s_zmap_blocks sb) \<le> unat (s_firstdatazone sb)" "1 \<le> unat (s_firstdatazone sb)"
    and n: "n \<in> zone_slots sb"
  shows "zone_block sb n \<notin> set (zmap_list sb)" "ucast (ucast (zone_block sb n) :: u16) = zone_block sb n"
    "block_ok (zone_block sb n)"
proof -
  note u = zone_block_facts(1) [OF assms(2) n]
  have 16: "unat (y::u16) < 65536" for y using unsigned_less [of y, where ?'a = nat] by simp
  have n1: "1 \<le> n" "unat (s_firstdatazone sb) - 1 + n \<le> unat (s_nzones sb)" using n by (simp_all add: zone_slots_def)
  have le: "unat (zone_block sb n) < 65536" using u n1(2) 16 [of "s_nzones sb"] by simp
  show "zone_block sb n \<notin> set (zmap_list sb)"
  proof
    assume "zone_block sb n \<in> set (zmap_list sb)"
    then obtain m where m: "zone_block sb n = of_nat m" "m < zmap_begin sb + unat (s_zmap_blocks sb)"
      by (auto simp: zmap_list_def)
    have "m < 2 ^ LENGTH(32)" using m(2) assms(1) 16 [of "s_firstdatazone sb"] by simp
    then have "unat (zone_block sb n) = m" using m(1) by (simp add: unat_of_nat_small)
    then show False using u m(2) assms(1,2) n1(1) by simp
  qed
  show "ucast (ucast (zone_block sb n) :: u16) = zone_block sb n"
    using le by (rule ucast_32_16_32)
  show "block_ok (zone_block sb n)" using le by (simp add: block_ok_def)
qed

lemma zone_block_inj:
  assumes "1 \<le> unat (s_firstdatazone sb)" "n \<in> zone_slots sb" "m \<in> zone_slots sb" "zone_block sb n = zone_block sb m"
  shows "n = m"
  using zone_block_facts(1) [OF assms(1,2)] zone_block_facts(1) [OF assms(1,3)] assms(4)
  by (metis add_left_cancel)

text \<open>The file system's view of a state in which the maps and the indirect block are the same.\<close>

lemma zones_same:
  assumes "zones_inv dv sb t" and "bio_idle dv w" and "super w = super t"
    and "\<And>m. m \<in> set (zmap_list sb) \<Longrightarrow> disk_block dv w m = disk_block dv t m"
  shows "zones_inv dv sb w" "zones_used dv sb w = zones_used dv sb t"
proof -
  have "zmap_bytes dv sb w = zmap_bytes dv sb t"
    unfolding zmap_bytes_def by (rule arg_cong [where f = concat]) (use assms(4) in simp)
  then show "zones_inv dv sb w" "zones_used dv sb w = zones_used dv sb t"
    using assms(1-3) by (simp_all add: zones_inv_def zones_used_def)
qed

lemma file_zone_not_map:
  assumes "file_inv dv sb s k" and "file_zone dv sb s no"
  shows "no \<notin> set (zmap_list sb)" "block_ok no" "no \<noteq> 0"
proof -
  note f = file_invD [OF assms(1)]
  obtain n where n: "n \<in> zone_slots sb" "no = zone_block sb n"
    using assms(2) by (auto simp: file_zone_def zones_used_def)
  show "no \<notin> set (zmap_list sb)" "block_ok no" "no \<noteq> 0"
    using zone_block_not_map [OF f(9,10) n(1)] zone_block_facts(5) [OF f(10) n(1)] n(2) by simp_all
qed

lemma file_inv_disk:
  assumes "file_inv dv sb t k" and "bio_idle dv w" and "bio_frame t w"
    and same: "\<And>m. block_ok m \<Longrightarrow> m \<in> set (zmap_list sb) \<or> m = ucast (i_indirect (inodes t ! k)) \<Longrightarrow> disk_block dv w m = disk_block dv t m"
  shows "file_inv dv sb w k" "blockno dv w (inodes t ! k) = blockno dv t (inodes t ! k)"
    "zones_used dv sb w = zones_used dv sb t"
proof -
  note f = file_invD [OF assms(1)]
  have z: "zones_inv dv sb w" "zones_used dv sb w = zones_used dv sb t"
    using zones_same [OF f(1) assms(2)] bio_frame_super [OF assms(3)] same zmap_list_facts(3) by auto
  show b: "blockno dv w (inodes t ! k) = blockno dv t (inodes t ! k)"
    using same block_ok_16 by (auto simp: blockno_def)
  show "zones_used dv sb w = zones_used dv sb t" by (rule z(2))
  have zone: "file_zone dv sb w = file_zone dv sb t" by (simp add: file_zone_def z(2) fun_eq_iff)
  show "file_inv dv sb w k"
    using assms(1) z(1) b bio_frame_inodes [OF assms(3)] by (simp add: file_inv_def zone Let_def)
qed

text \<open>
  \<open>wrote s t lo data\<close>: from \<open>s\<close> to \<open>t\<close> the file got \<open>data\<close> at position \<open>lo\<close>.  The mapped blocks stay where
  they are, the other bytes keep their value, and so does every zone in use that is not the file's.
\<close>

definition wrote :: "u16 \<Rightarrow> fs \<Rightarrow> nat \<Rightarrow> kstate \<Rightarrow> kstate \<Rightarrow> nat \<Rightarrow> bytes \<Rightarrow> bool" where
  "wrote dv sb k s t lo data \<longleftrightarrow> file_inv dv sb t k \<and> bio_frame (s\<lparr>inodes := inodes t\<rparr>) t
     \<and> inodes t = (inodes s)[k := (inodes s ! k)\<lparr>i_direct := i_direct (inodes t ! k), i_flags := i_flags (inodes t ! k)\<rparr>]
     \<and> zones_used dv sb s \<subseteq> zones_used dv sb t
     \<and> (\<forall>x. blockno dv s (inodes s ! k) x \<noteq> 0 \<longrightarrow> blockno dv t (inodes t ! k) x = blockno dv s (inodes s ! k) x)
     \<and> (\<forall>p. lo \<le> p \<longrightarrow> p < lo + length data \<longrightarrow> blockno dv t (inodes t ! k) (p div BLOCK_SIZE) \<noteq> 0
           \<and> fbyte dv t (inodes t ! k) p = data ! (p - lo))
     \<and> (\<forall>p. \<not> (lo \<le> p \<and> p < lo + length data) \<longrightarrow> blockno dv s (inodes s ! k) (p div BLOCK_SIZE) \<noteq> 0
           \<longrightarrow> fbyte dv t (inodes t ! k) p = fbyte dv s (inodes s ! k) p)
     \<and> (\<forall>x. \<forall>n\<in>zones_used dv sb s. blockno dv s (inodes s ! k) x = 0 \<longrightarrow> blockno dv t (inodes t ! k) x \<noteq> zone_block sb n)
     \<and> (\<forall>n\<in>zones_used dv sb s. (\<forall>x. blockno dv s (inodes s ! k) x \<noteq> zone_block sb n)
           \<longrightarrow> disk_block dv t (zone_block sb n) = disk_block dv s (zone_block sb n))"

lemma wrote_trans:
  assumes "wrote dv sb k s t lo a" and "wrote dv sb k t u (lo + length a) b" and "k < length (inodes s)"
  shows "wrote dv sb k s u lo (a @ b)"
proof -
  let ?i = "inodes s ! k" and ?j = "inodes t ! k" and ?l = "inodes u ! k"
  note A = assms(1) [unfolded wrote_def] and B = assms(2) [unfolded wrote_def]
  have "bio_frame (s\<lparr>inodes := inodes u\<rparr>) u"
  proof -
    have "bio_frame (s\<lparr>inodes := inodes u\<rparr>) (t\<lparr>inodes := inodes u\<rparr>)" using A by (simp add: bio_frame_def)
    then show ?thesis using B by (blast intro: bio_frame_trans)
  qed
  moreover have "inodes u = (inodes s)[k := ?i\<lparr>i_direct := i_direct ?l, i_flags := i_flags ?l\<rparr>]"
  proof -
    have t: "inodes t = (inodes s)[k := ?i\<lparr>i_direct := i_direct ?j, i_flags := i_flags ?j\<rparr>]" using A by blast
    have "inodes u = (inodes t)[k := ?j\<lparr>i_direct := i_direct ?l, i_flags := i_flags ?l\<rparr>]" using B by blast
    also have "?j = ?i\<lparr>i_direct := i_direct ?j, i_flags := i_flags ?j\<rparr>" using t assms(3) by (metis nth_list_update_eq)
    finally have "inodes u = (inodes t)[k := ?i\<lparr>i_direct := i_direct ?l, i_flags := i_flags ?l\<rparr>]" by simp
    then show ?thesis using t by (metis list_update_overwrite)
  qed
  moreover have "blockno dv u ?l (p div BLOCK_SIZE) \<noteq> 0 \<and> fbyte dv u ?l p = (a @ b) ! (p - lo)"
    if p: "lo \<le> p" "p < lo + length (a @ b)" for p
  proof (cases "p < lo + length a")
    case True
    then have t: "blockno dv t ?j (p div BLOCK_SIZE) \<noteq> 0" "fbyte dv t ?j p = a ! (p - lo)" using A p by blast+
    moreover have "fbyte dv u ?l p = fbyte dv t ?j p" using B t(1) True by (meson leD)
    moreover have "blockno dv u ?l (p div BLOCK_SIZE) \<noteq> 0" using B t(1) by metis
    ultimately show ?thesis using True p by (simp add: nth_append less_diff_conv2)
  next
    case False
    then have "blockno dv u ?l (p div BLOCK_SIZE) \<noteq> 0" "fbyte dv u ?l p = b ! (p - (lo + length a))" using B p by auto
    then show ?thesis using False p by (auto simp: nth_append)
  qed
  moreover have "fbyte dv u ?l p = fbyte dv s ?i p"
    if "\<not> (lo \<le> p \<and> p < lo + length (a @ b))" "blockno dv s ?i (p div BLOCK_SIZE) \<noteq> 0" for p
  proof -
    have "\<not> (lo \<le> p \<and> p < lo + length a)" "\<not> (lo + length a \<le> p \<and> p < lo + length a + length b)" using that(1) by auto
    moreover have "blockno dv t ?j (p div BLOCK_SIZE) \<noteq> 0" using A that(2) by metis
    ultimately show ?thesis using A B that(2) by metis
  qed
  moreover have "disk_block dv u (zone_block sb n) = disk_block dv s (zone_block sb n)"
    if n: "n \<in> zones_used dv sb s" "\<forall>x. blockno dv s ?i x \<noteq> zone_block sb n" for n
  proof -
    have "blockno dv t ?j x \<noteq> zone_block sb n" for x using A n by metis
    moreover have "n \<in> zones_used dv sb t" using A n(1) by blast
    ultimately have "disk_block dv u (zone_block sb n) = disk_block dv t (zone_block sb n)" using B by blast
    then show ?thesis using A n by metis
  qed
  moreover have "blockno dv u ?l x = blockno dv s ?i x" if "blockno dv s ?i x \<noteq> 0" for x using A B that by metis
  moreover have "blockno dv u ?l x \<noteq> zone_block sb n" if "n \<in> zones_used dv sb s" "blockno dv s ?i x = 0" for x n
  proof (cases "blockno dv t ?j x = 0")
    case True
    then show ?thesis using A B that(1) by blast
  next
    case False
    then have "blockno dv u ?l x = blockno dv t ?j x" using B by blast
    then show ?thesis using A that by metis
  qed
  ultimately show ?thesis using A B unfolding wrote_def by (meson subset_trans)
qed

lemma zones_inode [simp]:
  "zones_inv dv sb (upd_inode k f s) = zones_inv dv sb s" "zones_used dv sb (upd_inode k f s) = zones_used dv sb s"
  "file_zone dv sb (upd_inode k f s) = file_zone dv sb s" "blockno dv (upd_inode k f s) = blockno dv s"
  by (simp_all add: zones_inv_def zones_used_def zmap_bytes_def file_zone_def blockno_def fun_eq_iff)

text \<open>A state in which the file is untouched.\<close>

lemma wrote_same:
  assumes "file_inv dv sb s k" and "bio_idle dv t" and "bio_frame s t"
    and "\<And>m. block_ok m \<Longrightarrow> disk_block dv t m = disk_block dv s m"
  shows "wrote dv sb k s t lo []" "zones_used dv sb t = zones_used dv sb s"
proof -
  note f = file_invD [OF assms(1)] and c = blockno_cong [OF assms(4)]
  have i: "inodes t = inodes s" by (rule bio_frame_inodes [OF assms(3)])
  note d = file_inv_disk [OF assms(1-3)]
  show z: "zones_used dv sb t = zones_used dv sb s" using d assms(4) by blast
  have "disk_block dv t (zone_block sb n) = disk_block dv s (zone_block sb n)" if "n \<in> zones_used dv sb s" for n
    using that zone_block_not_map(3) [OF f(9,10), of n] assms(4) by (simp add: zones_used_def)
  moreover have "blockno dv s (inodes s ! k) x \<noteq> zone_block sb n"
    if "n \<in> zones_used dv sb s" "blockno dv s (inodes s ! k) x = 0" for x n
    using that zone_block_facts(5) [OF f(10), of n] by (simp add: zones_used_def)
  moreover have "file_inv dv sb t k" using d assms(4) by blast
  moreover have "bio_frame (s\<lparr>inodes := inodes t\<rparr>) t" using assms(3) i by simp
  ultimately show "wrote dv sb k s t lo []" unfolding wrote_def by (simp add: i c z)
qed

text \<open>A direct block gets a fresh zone.\<close>

lemma blockno_set_direct:
  "x < NDIRECT \<Longrightarrow> length (i_direct i) = NDIRECT \<Longrightarrow>
   blockno dv s (set_iflags m (set_direct x w i)) y = (if y = x then ucast w else blockno dv s i y)"
  by (simp add: blockno_def set_direct_def set_iflags_def)

lemma bmap_fresh:
  assumes inv: "file_inv dv sb s k" and x: "x < NDIRECT" and hole: "blockno dv s (inodes s ! k) x = 0"
    and room: "zones_used dv sb s \<noteq> zone_slots sb"
  obtains t n where "bmap k x B_WRITE s = Ok (blockno dv t (inodes t ! k) x) t" "wrote dv sb k s t lo []"
    "blockno dv t (inodes t ! k) x \<noteq> 0" "\<forall>y. y \<noteq> x \<longrightarrow> blockno dv t (inodes t ! k) y = blockno dv s (inodes s ! k) y"
    "zones_used dv sb t = insert n (zones_used dv sb s)" "n \<in> zone_slots sb - zones_used dv sb s"
proof -
  note f = file_invD [OF inv]
  let ?i = "inodes s ! k"
  obtain n t where t: "balloc dv s = Ok (zone_block sb n) t" "zones_inv dv sb t" "zones_frame dv sb s t"
    "n \<in> zone_slots sb" "n \<notin> zones_used dv sb s" "zones_used dv sb t = insert n (zones_used dv sb s)"
    using balloc_spec [OF f(1)] room by auto
  have fr: "bio_frame s t" "\<And>m. block_ok m \<Longrightarrow> m \<notin> set (zmap_list sb) \<Longrightarrow> disk_block dv t m = disk_block dv s m"
    using t(3) by (auto simp: zones_frame_def)
  have it: "inodes t = inodes s" by (rule bio_frame_inodes [OF fr(1)])
  define g where "g = (\<lambda>i. set_iflags I_DIRTY (set_direct x (ucast (zone_block sb n)) i))"
  define u where "u = upd_inode k g t"
  note zn = zone_block_not_map [OF f(9,10) t(4)] zone_block_facts(5) [OF f(10) t(4)]
  have iu: "inodes u ! k = g ?i" using f(3) it by (simp add: u_def)
  have zone_disk: "disk_block dv t no = disk_block dv s no" if "file_zone dv sb s no" for no
    using file_zone_not_map [OF inv that] fr(2) by blast
  have bt: "blockno dv t ?i = blockno dv s ?i"
    unfolding blockno_def using zone_disk [OF f(11)] by (simp add: fun_eq_iff)
  have bu: "blockno dv u (inodes u ! k) y = (if y = x then zone_block sb n else blockno dv s ?i y)" for y
    unfolding iu g_def blockno_set_direct [OF x f(7)] zn(2) by (simp add: u_def bt)
  have fresh: "no \<noteq> zone_block sb n" if "file_zone dv sb s no" for no
    using that t(4,5) zone_block_inj [OF f(10)] by (auto simp: file_zone_def zones_used_def)
  have zu: "file_zone dv sb u no \<longleftrightarrow> no = zone_block sb n \<or> file_zone dv sb s no" for no
    using t(6) by (auto simp: u_def file_zone_def)
  have ind: "i_indirect (inodes u ! k) = i_indirect ?i" by (simp add: iu g_def set_direct_def set_iflags_def)
  have lock: "i_flags (g ?i) AND I_LOCK \<noteq> 0"
  proof -
    have "(i_flags ?i OR 4) AND 1 = i_flags ?i AND (1::u32)" by (rule bit_word_eqI) (auto simp: bit_simps)
    then show ?thesis using f(4) by (simp add: g_def set_direct_def set_iflags_def)
  qed
  have "file_inv dv sb u k"
    unfolding file_inv_def Let_def
  proof (intro conjI allI impI)
    show "zones_inv dv sb u" using t(2) by (simp add: u_def)
    show "k < length (inodes u)" using f(3) it by (simp add: u_def)
    show "i_flags (inodes u ! k) AND I_LOCK \<noteq> 0" using lock iu by simp
    show "i_dev (inodes u ! k) = dv" "is_data (inodes u ! k)" "length (i_direct (inodes u ! k)) = NDIRECT"
      using f(5-7) by (simp_all add: iu g_def set_direct_def set_iflags_def is_data_def)
    show "file_zone dv sb u (ucast (i_indirect (inodes u ! k)))" if "i_indirect (inodes u ! k) \<noteq> 0"
      using that f(11) ind zu by simp
    fix y
    assume y: "blockno dv u (inodes u ! k) y \<noteq> 0"
    show "file_zone dv sb u (blockno dv u (inodes u ! k) y)" using y f(12) zu by (simp add: bu split: if_splits)
    show "blockno dv u (inodes u ! k) y \<noteq> ucast (i_indirect (inodes u ! k))"
      using y f(13) f(11) fresh zn(4) unfolding ind bu by (metis ucast_16_32_0)
    fix z
    assume "blockno dv u (inodes u ! k) z = blockno dv u (inodes u ! k) y"
    then show "z = y" using y f(14) f(12) fresh unfolding bu by (metis (full_types))
  qed (use f(9) in auto)
  moreover have "bio_frame (s\<lparr>inodes := inodes u\<rparr>) u" using fr(1) by (simp add: u_def bio_frame_def upd_inode_def)
  moreover have "inodes u = (inodes s)[k := ?i\<lparr>i_direct := i_direct (inodes u ! k), i_flags := i_flags (inodes u ! k)\<rparr>]"
    using f(3) by (cases ?i) (simp add: u_def it g_def set_direct_def set_iflags_def)
  moreover have "fbyte dv u (inodes u ! k) p = fbyte dv s ?i p" if "blockno dv s ?i (p div BLOCK_SIZE) \<noteq> 0" for p
    using that hole zone_disk [OF f(12) [OF that]] unfolding fbyte_def bu by (auto simp: u_def)
  moreover have "disk_block dv u (zone_block sb m) = disk_block dv s (zone_block sb m)" if "m \<in> zones_used dv sb s" for m
    using zone_disk [of "zone_block sb m"] that by (auto simp: file_zone_def u_def)
  moreover have "blockno dv u (inodes u ! k) y \<noteq> zone_block sb m" if "m \<in> zones_used dv sb s" "blockno dv s ?i y = 0" for y m
  proof -
    have "file_zone dv sb s (zone_block sb m)" using that(1) by (auto simp: file_zone_def)
    then show ?thesis using fresh file_zone_not_map(3) [OF inv] that(2) unfolding bu by metis
  qed
  moreover have zu': "zones_used dv sb u = insert n (zones_used dv sb s)" using t(6) by (simp add: u_def)
  ultimately have "wrote dv sb k s u lo []" unfolding wrote_def using bu hole by auto
  moreover have "bmap k x B_WRITE s = Ok (blockno dv u (inodes u ! k) x) u"
  proof -
    have "i_direct ?i ! x = 0" using hole x by (simp add: blockno_def)
    moreover have "ucast (i_direct (inodes u ! k) ! x) = blockno dv u (inodes u ! k) x" using x by (simp add: blockno_def)
    ultimately show ?thesis
      using f(4,5) x t(1) by (simp add: bmap_def kern_simps thenK_bindK bindK_Ok u_def g_def)
  qed
  ultimately show thesis using that bu zn(4) zu' t(4,5) by simp
qed

text \<open>Storing a whole block that belongs to the file.\<close>

lemma wrote_store:
  assumes inv: "file_inv dv sb t k" and mapped: "blockno dv t (inodes t ! k) x \<noteq> 0"
    and w: "bio_idle dv w" "bio_frame t w"
      "\<And>m. block_ok m \<Longrightarrow> disk_block dv w m = (if m = blockno dv t (inodes t ! k) x
         then overwrite (disk_block dv t m) off seg else disk_block dv t m)"
    and off: "off + length seg \<le> BLOCK_SIZE"
  shows "wrote dv sb k t w (x * BLOCK_SIZE + off) seg" "zones_used dv sb w = zones_used dv sb t"
    "blockno dv w (inodes w ! k) = blockno dv t (inodes t ! k)"
proof -
  note f = file_invD [OF inv]
  let ?i = "inodes t ! k" and ?no = "blockno dv t (inodes t ! k) x"
  have i: "inodes w = inodes t" by (rule bio_frame_inodes [OF w(2)])
  note nz = file_zone_not_map [OF inv f(12) [OF mapped]]
  have same: "disk_block dv w m = disk_block dv t m"
    if "block_ok m" "m \<in> set (zmap_list sb) \<or> m = ucast (i_indirect ?i)" for m
    using that w(3) nz(1) f(13) [OF mapped] by auto
  note d = file_inv_disk [OF inv w(1,2) same]
  show z: "zones_used dv sb w = zones_used dv sb t" by (rule d(3))
  show b: "blockno dv w (inodes w ! k) = blockno dv t (inodes t ! k)" using d(2) i by simp
  let ?lo = "x * BLOCK_SIZE + off"
  have byte: "fbyte dv w (inodes w ! k) p = (if p div BLOCK_SIZE = x \<and> off \<le> p mod BLOCK_SIZE \<and> p mod BLOCK_SIZE < off + length seg
      then seg ! (p mod BLOCK_SIZE - off) else fbyte dv t ?i p)" if m: "blockno dv t ?i (p div BLOCK_SIZE) \<noteq> 0" for p
  proof (cases "p div BLOCK_SIZE = x")
    case True
    then show ?thesis
      using w(3) [OF nz(2)] off by (simp add: fbyte_def b nth_overwrite length_disk_block_idle [OF f(2)])
  next
    case False
    then have "blockno dv t ?i (p div BLOCK_SIZE) \<noteq> ?no" using f(14) [OF mapped] by metis
    then show ?thesis using False w(3) [OF block_ok_blockno] by (simp add: fbyte_def b)
  qed
  have range: "p div BLOCK_SIZE = x \<and> off \<le> p mod BLOCK_SIZE \<and> p mod BLOCK_SIZE < off + length seg
      \<longleftrightarrow> ?lo \<le> p \<and> p < ?lo + length seg" for p
  proof
    assume *: "p div BLOCK_SIZE = x \<and> off \<le> p mod BLOCK_SIZE \<and> p mod BLOCK_SIZE < off + length seg"
    then have "p = x * BLOCK_SIZE + p mod BLOCK_SIZE" by (metis div_mult_mod_eq)
    then show "?lo \<le> p \<and> p < ?lo + length seg" using * by linarith
  next
    assume *: "?lo \<le> p \<and> p < ?lo + length seg"
    define r where "r = p - x * BLOCK_SIZE"
    have "p = x * BLOCK_SIZE + r" "r < BLOCK_SIZE" "off \<le> r" "r < off + length seg" using * off by (auto simp: r_def)
    then show "p div BLOCK_SIZE = x \<and> off \<le> p mod BLOCK_SIZE \<and> p mod BLOCK_SIZE < off + length seg"
      using block_position by simp
  qed
  have "blockno dv w (inodes w ! k) (p div BLOCK_SIZE) \<noteq> 0 \<and> fbyte dv w (inodes w ! k) p = seg ! (p - ?lo)"
    if p: "?lo \<le> p" "p < ?lo + length seg" for p
  proof -
    have r: "p div BLOCK_SIZE = x" "off \<le> p mod BLOCK_SIZE" "p mod BLOCK_SIZE < off + length seg" using p range by blast+
    have "p = x * BLOCK_SIZE + p mod BLOCK_SIZE" using r(1) by (metis div_mult_mod_eq)
    then have "p mod BLOCK_SIZE - off = p - ?lo" using r(2) by linarith
    then show ?thesis using byte [of p] r mapped b by simp
  qed
  moreover have "fbyte dv w (inodes w ! k) p = fbyte dv t ?i p"
    if "\<not> (?lo \<le> p \<and> p < ?lo + length seg)" "blockno dv t ?i (p div BLOCK_SIZE) \<noteq> 0" for p
    using byte [OF that(2)] that(1) range [of p] by presburger
  moreover have "disk_block dv w (zone_block sb n) = disk_block dv t (zone_block sb n)"
    if "n \<in> zones_used dv sb t" "\<forall>y. blockno dv t ?i y \<noteq> zone_block sb n" for n
    using that w(3) zone_block_not_map(3) [OF f(9,10), of n] by (metis IntD2 zones_used_def)
  moreover have "blockno dv t ?i y \<noteq> zone_block sb n"
    if "n \<in> zones_used dv sb t" "blockno dv t ?i y = 0" for y n
    using that zone_block_facts(5) [OF f(10), of n] by (simp add: zones_used_def)
  moreover have "bio_frame (t\<lparr>inodes := inodes w\<rparr>) w" using w(2) i by simp
  ultimately show "wrote dv sb k t w ?lo seg" using d(1) b z i unfolding wrote_def by simp
qed

text \<open>The blocks of the file that a write from \<open>lo\<close> on of \<open>n\<close> bytes reaches and that are not there yet.\<close>

definition holes :: "u16 \<Rightarrow> kstate \<Rightarrow> nat \<Rightarrow> nat \<Rightarrow> nat \<Rightarrow> nat set" where
  "holes dv s k lo n = {x. \<exists>p. lo \<le> p \<and> p < lo + n \<and> x = p div BLOCK_SIZE \<and> blockno dv s (inodes s ! k) x = 0}"

lemma finite_holes: "finite (holes dv s k lo n)"
proof -
  have "holes dv s k lo n \<subseteq> (\<lambda>p. p div BLOCK_SIZE) ` {lo..<lo + n}" by (auto simp: holes_def)
  then show ?thesis by (rule finite_subset) simp
qed

lemma bmap_write:
  assumes inv: "file_inv dv sb s k" and x: "x < NDIRECT \<or> blockno dv s (inodes s ! k) x \<noteq> 0"
    and room: "blockno dv s (inodes s ! k) x = 0 \<Longrightarrow> zones_used dv sb s \<noteq> zone_slots sb"
  obtains t where "bmap k x B_WRITE s = Ok (blockno dv t (inodes t ! k) x) t" "wrote dv sb k s t lo []"
    "blockno dv t (inodes t ! k) x \<noteq> 0" "\<And>y. y \<noteq> x \<Longrightarrow> blockno dv t (inodes t ! k) y = blockno dv s (inodes s ! k) y"
    "card (zone_slots sb - zones_used dv sb t) + (if blockno dv s (inodes s ! k) x = 0 then 1 else 0)
       = card (zone_slots sb - zones_used dv sb s)"
proof (cases "blockno dv s (inodes s ! k) x = 0")
  case False
  note f = file_invD [OF inv]
  obtain t where t: "bmap k x B_WRITE s = Ok (blockno dv s (inodes s ! k) x) t" "bio_idle dv t" "bio_frame s t"
    "\<And>m. block_ok m \<Longrightarrow> disk_block dv t m = disk_block dv s m"
    using bmap_mapped [OF f(2) refl f(4,5) False] by blast
  note w = wrote_same [OF inv t(2-4)] and c = blockno_cong(1) [OF t(4)] and i = bio_frame_inodes [OF t(3)]
  have "blockno dv t (inodes t ! k) = blockno dv s (inodes s ! k)" using c i by simp
  then show thesis using that [OF _ w(1)] t(1) w(2) False by simp
next
  case True
  then have x7: "x < NDIRECT" using x by simp
  obtain t n where t: "bmap k x B_WRITE s = Ok (blockno dv t (inodes t ! k) x) t" "wrote dv sb k s t lo []"
    "blockno dv t (inodes t ! k) x \<noteq> 0" "\<forall>y. y \<noteq> x \<longrightarrow> blockno dv t (inodes t ! k) y = blockno dv s (inodes s ! k) y"
    "zones_used dv sb t = insert n (zones_used dv sb s)" "n \<in> zone_slots sb - zones_used dv sb s"
    using bmap_fresh [where lo = lo, OF inv x7 True room [OF True]] by metis
  have fin: "finite (zone_slots sb - zones_used dv sb s)" by (simp add: zone_slots_def)
  have "zone_slots sb - zones_used dv sb t = (zone_slots sb - zones_used dv sb s) - {n}" using t(5) by auto
  then have "card (zone_slots sb - zones_used dv sb t) + 1 = card (zone_slots sb - zones_used dv sb s)"
    using fin t(6) by (metis Suc_eq_plus1 card.remove)
  then show thesis using that t True by simp
qed

lemma write_segs_spec:
  assumes "file_inv dv sb s k" and "off < BLOCK_SIZE"
    and "\<And>p. x * BLOCK_SIZE + off \<le> p \<Longrightarrow> p < x * BLOCK_SIZE + off + length src \<Longrightarrow>
       p div BLOCK_SIZE < NDIRECT \<or> blockno dv s (inodes s ! k) (p div BLOCK_SIZE) \<noteq> 0"
    and "card (holes dv s k (x * BLOCK_SIZE + off) (length src)) \<le> card (zone_slots sb - zones_used dv sb s)"
  shows "\<exists>t. write_segs k dv x off src s = Ok () t \<and> wrote dv sb k s t (x * BLOCK_SIZE + off) src"
  using assms
proof (induction k dv x off src arbitrary: s rule: write_segs.induct)
  case (1 k dv x off src)
  note inv = "1.prems"(1) note f = file_invD [OF inv]
  show ?case
  proof (cases "src = []")
    case True
    then show ?thesis
      using wrote_same(1) [OF inv f(2)] by (auto simp: write_segs.simps [of k dv x off "[]"] kern_simps)
  next
    case False
    let ?seg = "take (BLOCK_SIZE - off) src" and ?rest = "drop (BLOCK_SIZE - off) src" and ?a = "x * BLOCK_SIZE + off"
    have guard: "\<not> (src = [] \<or> BLOCK_SIZE \<le> off)" using False "1.prems"(2) by simp
    have ax: "?a div BLOCK_SIZE = x" using "1.prems"(2) by simp
    have x: "x < NDIRECT \<or> blockno dv s (inodes s ! k) x \<noteq> 0" using "1.prems"(3) [of ?a] False ax by simp
    have hx: "x \<in> holes dv s k ?a (length src)" if "blockno dv s (inodes s ! k) x = 0"
      using that False ax unfolding holes_def by force
    have room: "zones_used dv sb s \<noteq> zone_slots sb" if "blockno dv s (inodes s ! k) x = 0"
    proof
      assume "zones_used dv sb s = zone_slots sb"
      then have "holes dv s k ?a (length src) = {}" using "1.prems"(4) finite_holes by simp
      then show False using hx [OF that] by blast
    qed
    obtain t where t: "bmap k x B_WRITE s = Ok (blockno dv t (inodes t ! k) x) t" "wrote dv sb k s t ?a []"
      "blockno dv t (inodes t ! k) x \<noteq> 0" "\<And>y. y \<noteq> x \<Longrightarrow> blockno dv t (inodes t ! k) y = blockno dv s (inodes s ! k) y"
      "card (zone_slots sb - zones_used dv sb t) + (if blockno dv s (inodes s ! k) x = 0 then 1 else 0)
         = card (zone_slots sb - zones_used dv sb s)"
      using bmap_write [where lo = ?a, OF inv x room] by blast
    have it: "file_inv dv sb t k" using t(2) by (simp add: wrote_def)
    note ft = file_invD [OF it]
    let ?no = "blockno dv t (inodes t ! k) x"
    obtain b u L where u: "bread dv ?no t = Ok b u" "bio_inv dv u L" "insert b (set L) = {..<NBUF}"
      "fresh_hold dv u b ?no (disk_block dv t ?no)" "bio_frame t u" "disk_block dv u = disk_block dv t"
      using bio_idle_bread [OF ft(2) block_ok_blockno] by metis
    let ?data = "overwrite (disk_block dv t ?no) off ?seg"
    have db: "b_data (bcache u ! b) = disk_block dv t ?no" using u(4) by (simp add: fresh_hold_def)
    have len: "length ?data = BLOCK_SIZE" using "1.prems"(2) by (simp add: length_disk_block_idle [OF ft(2)])
    obtain w where w:
      "\<And>c :: unit kernel. thenK (modifyK (upd_buf b (\<lambda>x. x\<lparr>b_data := ?data\<rparr>))) (thenK (bwrite b) (thenK (brelse b) c)) u = c w"
      "bio_idle dv w" "bio_frame u w"
      "\<And>m. block_ok m \<Longrightarrow> disk_block dv w m = (if m = ?no then ?data else disk_block dv u m)"
      using hold_store [OF u(2-4) len] by metis
    have fw: "bio_frame t w" by (rule bio_frame_trans [OF u(5) w(3)])
    have dw: "disk_block dv w m = (if m = ?no then overwrite (disk_block dv t m) off ?seg else disk_block dv t m)"
      if "block_ok m" for m using w(4) [OF that] u(6) by simp
    have off: "off + length ?seg \<le> BLOCK_SIZE" using "1.prems"(2) by simp
    note st = wrote_store [OF it t(3) w(2) fw dw off]
    have sw: "wrote dv sb k s w ?a ?seg" using wrote_trans [OF t(2) _ f(3), of w ?seg] st(1) by simp
    have iw: "file_inv dv sb w k" using sw by (simp add: wrote_def)
    have bw: "blockno dv w (inodes w ! k) y = blockno dv s (inodes s ! k) y" if "y \<noteq> x" for y
      using st(3) t(4) [OF that] by simp
    have run: "write_segs k dv x off src s = write_segs k dv (x + 1) 0 ?rest w"
    proof -
      have "write_segs k dv x off src s = thenK (modifyK (upd_buf b (\<lambda>x. x\<lparr>b_data := ?data\<rparr>)))
          (thenK (bwrite b) (thenK (brelse b) (write_segs k dv (x + 1) 0 ?rest))) u"
        using guard t(1) u(1) db by (subst write_segs.simps) (simp add: Let_def bindK_Ok kern_simps)
      then show ?thesis using w(1) by simp
    qed
    show ?thesis
    proof (cases "?rest = []")
      case True
      have "write_segs k dv (x + 1) 0 [] w = Ok () w" by (subst write_segs.simps) (simp add: kern_simps)
      moreover have "?seg = src" using True by simp
      ultimately show ?thesis using sw run True by metis
    next
      case False
      then have lo: "(x + 1) * BLOCK_SIZE + 0 = ?a + length ?seg" using "1.prems"(2) by simp
      have tot: "(x + 1) * BLOCK_SIZE + 0 + length ?rest = ?a + length src" using False "1.prems"(2) by simp
      have after: "p div BLOCK_SIZE \<noteq> x" if "(x + 1) * BLOCK_SIZE + 0 \<le> p" for p
      proof -
        have "x + 1 \<le> p div BLOCK_SIZE" using that by (simp add: less_eq_div_iff_mult_less_eq)
        then show ?thesis by simp
      qed
      have hsub: "holes dv w k ((x + 1) * BLOCK_SIZE + 0) (length ?rest) \<subseteq> holes dv s k ?a (length src) - {x}"
      proof
        fix y
        assume "y \<in> holes dv w k ((x + 1) * BLOCK_SIZE + 0) (length ?rest)"
        then obtain p where p: "(x + 1) * BLOCK_SIZE + 0 \<le> p" "p < (x + 1) * BLOCK_SIZE + 0 + length ?rest"
          "y = p div BLOCK_SIZE" "blockno dv w (inodes w ! k) y = 0" unfolding holes_def by blast
        have "y \<noteq> x" "?a \<le> p" "p < ?a + length src" using after [OF p(1)] p(1-3) lo tot by simp_all
        then show "y \<in> holes dv s k ?a (length src) - {x}" using p(3,4) bw unfolding holes_def by auto
      qed
      have c1: "p div BLOCK_SIZE < NDIRECT \<or> blockno dv w (inodes w ! k) (p div BLOCK_SIZE) \<noteq> 0"
        if "(x + 1) * BLOCK_SIZE + 0 \<le> p" "p < (x + 1) * BLOCK_SIZE + 0 + length ?rest" for p
        using "1.prems"(3) [of p] that tot lo bw [OF after [OF that(1)]] by simp
      have "card (holes dv w k ((x + 1) * BLOCK_SIZE + 0) (length ?rest)) \<le> card (holes dv s k ?a (length src) - {x})"
        using card_mono [OF _ hsub] finite_holes by simp
      also have "\<dots> \<le> card (zone_slots sb - zones_used dv sb t)"
        using "1.prems"(4) t(5) hx finite_holes [of dv s k ?a "length src"]
        by (cases "blockno dv s (inodes s ! k) x = 0") (auto simp: card_Diff_singleton_if split: if_splits)
      finally have c2: "card (holes dv w k ((x + 1) * BLOCK_SIZE + 0) (length ?rest)) \<le> card (zone_slots sb - zones_used dv sb w)"
        using st(2) by simp
      have z0: "(0::nat) < BLOCK_SIZE" by simp
      have "\<exists>v. write_segs k dv (x + 1) 0 ?rest w = Ok () v \<and> wrote dv sb k w v ((x + 1) * BLOCK_SIZE + 0) ?rest"
        by (rule "1.IH" [OF guard refl iw z0 c1 c2])
      then obtain v where v: "write_segs k dv (x + 1) 0 ?rest w = Ok () v" "wrote dv sb k w v ((x + 1) * BLOCK_SIZE + 0) ?rest"
        by blast
      have "wrote dv sb k s v ?a (?seg @ ?rest)" by (rule wrote_trans [OF sw _ f(3)]) (use v(2) lo in metis)
      then show ?thesis using run v(1) by simp
    qed
  qed
qed

lemma grow_size_attr:
  "i_dev (grow_size o' n i) = i_dev i" "i_mode (grow_size o' n i) = i_mode i" "i_direct (grow_size o' n i) = i_direct i"
  "i_indirect (grow_size o' n i) = i_indirect i" "i_flags (grow_size o' n i) AND I_LOCK = i_flags i AND I_LOCK"
  "i_size (grow_size o' n i) = max (i_size i) (sint (o' + of_nat n))"
proof -
  have "(w OR 4) AND 1 = w AND (1::u32)" for w by (rule bit_word_eqI) (auto simp: bit_simps)
  then show "i_flags (grow_size o' n i) AND I_LOCK = i_flags i AND I_LOCK"
    by (simp add: grow_size_def set_iflags_def Let_def)
qed (simp_all add: grow_size_def set_iflags_def Let_def)

lemma blockno_grow [simp]:
  "blockno dv s (grow_size o' n i) = blockno dv s i" "fbyte dv s (grow_size o' n i) = fbyte dv s i"
  by (simp_all add: blockno_def fbyte_def grow_size_attr fun_eq_iff)

lemma file_inv_grow: "file_inv dv sb s k \<Longrightarrow> file_inv dv sb (upd_inode k (grow_size o' n) s) k"
  by (simp add: file_inv_def Let_def grow_size_attr is_data_def del: ucast_16_32_0)

lemma fbyte_inode [simp]: "fbyte dv (upd_inode k f s) = fbyte dv s"
  by (simp add: fbyte_def fun_eq_iff)

lemma sint_of_nat_small: "n < 2 ^ 31 \<Longrightarrow> sint (of_nat n :: u32) = int n"
  by (simp add: sint_uint signed_take_bit_int_eq_self unsigned_of_nat take_bit_nat_eq_self
      flip: uint_nat)

section \<open>Properties\<close>

lemma overwrite_all: "length xs = length ys \<Longrightarrow> overwrite xs 0 ys = ys"
  by (simp add: overwrite_def)

lemma writei_spec:
  assumes inv: "file_inv dv sb s k" and small: "a + length src < 2 ^ 31"
    and "\<And>p. a \<le> p \<Longrightarrow> p < a + length src \<Longrightarrow>
       p div BLOCK_SIZE < NDIRECT \<or> blockno dv s (inodes s ! k) (p div BLOCK_SIZE) \<noteq> 0"
    and "card (holes dv s k a (length src)) \<le> card (zone_slots sb - zones_used dv sb s)"
  shows "\<exists>t. writei k src (of_nat a) s = Ok (int (length src)) (upd_inode k (grow_size (of_nat a) (length src)) t)
    \<and> wrote dv sb k s t a src"
proof -
  note f = file_invD [OF inv]
  let ?x = "a div BLOCK_SIZE" and ?off = "a mod BLOCK_SIZE"
  have a: "?x * BLOCK_SIZE + ?off = a" by simp
  have ua: "unat (of_nat a :: u32) = a" using small by (intro unat_of_nat_small) simp
  obtain t where t: "write_segs k dv ?x ?off src s = Ok () t" "wrote dv sb k s t a src"
    using write_segs_spec [OF inv, of ?off ?x src] assms(3,4) unfolding a by auto
  have mode: "i_mode (inodes s ! k) AND S_IFMT \<noteq> S_IFCHR" "i_mode (inodes s ! k) AND S_IFMT \<noteq> S_IFBLK"
    "i_mode (inodes s ! k) AND S_IFMT \<noteq> S_IFIFO" using f(6) by (simp_all add: is_data_def)
  have "writei k src (of_nat a) s = Ok (int (length src)) (upd_inode k (grow_size (of_nat a) (length src)) t)"
    using f(4,5) mode t(1) by (simp add: writei_def kern_simps ua thenK_Ok)
  with t(2) show ?thesis by blast
qed

text \<open>
  C3: what is written to a file is read back, and nothing else changes.  A write within the direct
  blocks of a file, or over blocks the file has already, with enough free zones for the blocks
  that are missing, returns the number of bytes; the file grows if it must; reading the
  same place returns the data; every other byte in a block that the file has and every zone in use
  outside the file keeps its contents.
\<close>

theorem writei_readi:
  assumes inv: "file_inv dv sb s k" and small: "a + length src < 2 ^ 31" and sz: "i_size (inodes s ! k) < 2 ^ 31"
    and "\<And>p. a \<le> p \<Longrightarrow> p < a + length src \<Longrightarrow>
       p div BLOCK_SIZE < NDIRECT \<or> blockno dv s (inodes s ! k) (p div BLOCK_SIZE) \<noteq> 0"
    and "card (holes dv s k a (length src)) \<le> card (zone_slots sb - zones_used dv sb s)"
  shows "\<exists>t u. writei k src (of_nat a) s = Ok (int (length src)) t \<and> file_inv dv sb t k
    \<and> i_size (inodes t ! k) = max (i_size (inodes s ! k)) (int (a + length src))
    \<and> readi k (replicate (length src) 0) (int a) t = Ok (int (length src), src) u
    \<and> (\<forall>p. \<not> (a \<le> p \<and> p < a + length src) \<longrightarrow> blockno dv s (inodes s ! k) (p div BLOCK_SIZE) \<noteq> 0
         \<longrightarrow> fbyte dv t (inodes t ! k) p = fbyte dv s (inodes s ! k) p)
    \<and> (\<forall>n\<in>zones_used dv sb s. (\<forall>x. blockno dv s (inodes s ! k) x \<noteq> zone_block sb n)
         \<longrightarrow> disk_block dv t (zone_block sb n) = disk_block dv s (zone_block sb n))"
proof -
  obtain v where v: "writei k src (of_nat a) s = Ok (int (length src)) (upd_inode k (grow_size (of_nat a) (length src)) v)"
    and w: "wrote dv sb k s v a src"
    using writei_spec [OF inv small assms(4,5)] by blast
  define t where "t = upd_inode k (grow_size (of_nat a) (length src)) v"
  note W = w [unfolded wrote_def]
  have iv: "file_inv dv sb v k" using W by blast
  note fv = file_invD [OF iv]
  have it: "file_inv dv sb t k" unfolding t_def by (rule file_inv_grow [OF iv])
  note ft = file_invD [OF it]
  have tk: "inodes t ! k = grow_size (of_nat a) (length src) (inodes v ! k)" using fv(3) by (simp add: t_def)
  have vk: "i_size (inodes v ! k) = i_size (inodes s ! k)"
    using W file_invD(3) [OF inv] by (metis (no_types, lifting) inode.select_convs(10) inode.surjective inode.update_convs(3,11) nth_list_update_eq)
  have "sint (of_nat (a + length src) :: u32) = int (a + length src)" by (rule sint_of_nat_small [OF small])
  then have size: "i_size (inodes t ! k) = max (i_size (inodes s ! k)) (int (a + length src))"
    by (simp add: tk grow_size_attr vk)
  have bt: "blockno dv t (inodes t ! k) = blockno dv v (inodes v ! k)" "fbyte dv t (inodes t ! k) = fbyte dv v (inodes v ! k)"
    "disk_block dv t = disk_block dv v" by (simp add: tk, simp add: t_def)+ (simp add: t_def)
  have mapped: "blockno dv t (inodes t ! k) (p div BLOCK_SIZE) \<noteq> 0"
    and byte: "fbyte dv t (inodes t ! k) p = src ! (p - a)" if "a \<le> p" "p < a + length src" for p
    using W that unfolding bt by blast+
  have data: "map (fbyte dv t (inodes t ! k)) [a..<a + length src] = src"
    by (rule nth_equalityI) (simp_all add: byte)
  have n: "length src = min (length (replicate (length src) (0::u8))) (nat (i_size (inodes t ! k)) - a)"
  proof -
    have "int (a + length src) \<le> i_size (inodes t ! k)" using size by simp
    then have "a + length src \<le> nat (i_size (inodes t ! k))" by linarith
    then show ?thesis by simp
  qed
  obtain u where u: "readi k (replicate (length src) 0) (int a) t
      = Ok (int (length src), overwrite (replicate (length src) 0) 0 (map (fbyte dv t (inodes t ! k)) [a..<a + length src])) u"
  proof -
    have "int a \<le> i_size (inodes t ! k)" "i_size (inodes t ! k) < 2 ^ 31" "int (a + length (replicate (length src) (0::u8))) < 2 ^ 31"
      using size sz small by auto
    from readi_spec [OF ft(2) refl ft(4-6) this n mapped] that show thesis by blast
  qed
  have ro: "overwrite (replicate (length src) 0) 0 src = src" by (rule overwrite_all) simp
  have r: "readi k (replicate (length src) 0) (int a) t = Ok (int (length src), src) u"
    using u unfolding data ro .
  have rest: "\<forall>p. \<not> (a \<le> p \<and> p < a + length src) \<longrightarrow> blockno dv s (inodes s ! k) (p div BLOCK_SIZE) \<noteq> 0
      \<longrightarrow> fbyte dv t (inodes t ! k) p = fbyte dv s (inodes s ! k) p"
    and others: "\<forall>n\<in>zones_used dv sb s. (\<forall>x. blockno dv s (inodes s ! k) x \<noteq> zone_block sb n)
      \<longrightarrow> disk_block dv t (zone_block sb n) = disk_block dv s (zone_block sb n)"
    unfolding bt using W by simp_all
  show ?thesis
    by (intro exI [of _ t] exI [of _ u] conjI) (rule v [folded t_def] it size r rest others)+
qed

text \<open>An empty regular file on the small disk.\<close>

definition empty_file :: inode where
  "empty_file = zero_inode\<lparr>i_dev := ROOT_DEV, i_inodeno := 1, i_mode := S_IFREG, i_flags := I_LOCK, i_refcount := 1, i_nlinks := 1\<rparr>"

lemma blockno_empty_file: "blockno dv s empty_file x = 0"
  by (simp add: blockno_def empty_file_def zero_inode_def)

lemma empty_file_inv:
  assumes "zones_inv ROOT_DEV mini_super s" and "length (inodes s) = NUM_INODES"
  shows "file_inv ROOT_DEV mini_super (upd_inode 0 (\<lambda>_. empty_file) s) 0"
  using assms blockno_empty_file
  by (simp add: file_inv_def Let_def zmap_begin_def mini_super_def) (simp add: empty_file_def zero_inode_def is_data_def)

theorem writei_readi_witness:
  "\<exists>s t u. file_inv ROOT_DEV mini_super s 0 \<and> writei 0 [104, 105] 5 s = Ok 2 t
     \<and> i_size (inodes t ! 0) = 7 \<and> readi 0 [0, 0] 5 t = Ok (2, [104, 105]) u"
proof -
  obtain s where s: "buf_init mini_disk = Ok () s" "zones_inv ROOT_DEV mini_super s"
    "zones_used ROOT_DEV mini_super s = {}" by (rule mini_disk_zones)
  obtain s' where "buf_init mini_disk = Ok () s'" "inodes s' = replicate NUM_INODES zero_inode" by (rule mini_disk_idle)
  then have inodes: "length (inodes s) = NUM_INODES" using s(1) by simp
  define w where "w = upd_inode 0 (\<lambda>_. empty_file) s"
  have inv: "file_inv ROOT_DEV mini_super w 0" unfolding w_def by (rule empty_file_inv [OF s(2) inodes])
  have wk: "inodes w ! 0 = empty_file" using inodes by (simp add: w_def)
  have "holes ROOT_DEV w 0 5 2 \<subseteq> {0}" by (auto simp: holes_def)
  then have "card (holes ROOT_DEV w 0 5 2) \<le> 1" using card_mono [of "{0::nat}"] by fastforce
  moreover have "zone_slots mini_super = {1..<8192}" by (auto simp: zone_slots_def mini_super_def)
  then have "1 \<le> card (zone_slots mini_super - zones_used ROOT_DEV mini_super w)" using s(3) by (simp add: w_def)
  ultimately have room: "card (holes ROOT_DEV w 0 5 (length [104, 105 :: u8]))
      \<le> card (zone_slots mini_super - zones_used ROOT_DEV mini_super w)" by (simp add: numeral_2_eq_2)
  have "\<exists>t u. writei 0 [104, 105] (of_nat 5) w = Ok (int (length [104, 105 :: u8])) t \<and> file_inv ROOT_DEV mini_super t 0
    \<and> i_size (inodes t ! 0) = max (i_size (inodes w ! 0)) (int (5 + length [104, 105 :: u8]))
    \<and> readi 0 (replicate (length [104, 105 :: u8]) 0) (int 5) t = Ok (int (length [104, 105 :: u8]), [104, 105]) u"
    using writei_readi [OF inv, of 5 "[104, 105]"] room by (fastforce simp: wk empty_file_def zero_inode_def)
  then show ?thesis using inv by (auto simp: wk empty_file_def zero_inode_def numeral_2_eq_2)
qed

end
