(* ===== verification/Imap.thy ===== *)
theory Imap
  imports Idata
begin

text \<open>
  Allocation and release of inodes, the rest of \<open>sys/kern/inode.c\<close> below path names: the inode map,
  truncation, and the drop of a reference, which deletes a file that has no links left.
\<close>

section \<open>The inode map\<close>

text \<open>The blocks of the inode map; the scan of a block is the one of \<open>balloc\<close>, with the number of
  the inode instead of the block.\<close>

definition imap_list :: "fs \<Rightarrow> u32 list" where
  "imap_list sb = map of_nat [2..<2 + unat (s_imap_blocks sb)]"

fun ialloc_loop :: "u32 list \<Rightarrow> u32 \<Rightarrow> u32 option kernel" where
  "ialloc_loop [] inode_no = returnK None"
| "ialloc_loop (ib # ibs) inode_no =
     bindK (bread ROOT_DEV ib) (\<lambda>b.
     bindK (getK (\<lambda>s. b_data (bcache s ! b))) (\<lambda>imap.
     case zone_scan imap 0 inode_no of
       Inl (index, ibit, no) \<Rightarrow>
         thenK (modifyK (upd_buf b (\<lambda>x. or_flags B_DIRTY (x\<lparr>b_data := imap[index := imap ! index OR mask1 ibit]\<rparr>))))
         (thenK (brelse b)
         (returnK (Some no)))
     | Inr no \<Rightarrow> thenK (brelse b) (ialloc_loop ibs no)))"

definition fresh_inode :: "u16 \<Rightarrow> int \<Rightarrow> u16 \<Rightarrow> u16 \<Rightarrow> inode \<Rightarrow> inode" where
  "fresh_inode mode now uid gid i =
     set_iflags I_DIRTY (i\<lparr>i_mode := mode OR S_IFREG, i_time := now, i_nlinks := 0, i_size := 0, i_uid := uid, i_gid := gid,
       i_direct := replicate NDIRECT 0, i_indirect := 0, i_dblindirect := 0\<rparr>)"

definition ialloc :: "u16 \<Rightarrow> nat option kernel" where
  "ialloc mode =
     bindK (getK super) (\<lambda>sb.
     bindK (ialloc_loop (imap_list sb) 1) (\<lambda>r.
     case r of
       None \<Rightarrow> returnK None
     | Some no \<Rightarrow>
         bindK (iget ROOT_DEV no) (\<lambda>k.
         bindK time (\<lambda>now.
         with_cur (\<lambda>c.
         bindK (getK (\<lambda>s. procs s ! c)) (\<lambda>p.
         thenK (modifyK (upd_inode k (fresh_inode mode now (p_uid p) (p_gid p))))
         (returnK (Some k))))))))"

definition ifree :: "u16 \<Rightarrow> u32 \<Rightarrow> unit kernel" where
  "ifree dev inodeno =
     (if inodeno < 1 then panic ''ifree: bad inodeno''
      else
        bindK (getK super) (\<lambda>sb.
        let imap_block = unat (inodeno - 1) div (BLOCK_SIZE * 8)
        in if imap_block \<ge> unat (s_imap_blocks sb) then panic ''ifree: inodeno out of range''
           else
             let index = (unat (inodeno - 1) mod (BLOCK_SIZE * 8)) div 8;
                 bit = unat (inodeno - 1) mod 8
             in bindK (bread dev (of_nat (imap_block + 2))) (\<lambda>b.
                bindK (getK (\<lambda>s. b_data (bcache s ! b))) (\<lambda>imap.
                if imap ! index AND mask1 bit = 0 then panic ''bfree: not allocated''
                else
                  thenK (modifyK (upd_buf b (\<lambda>x. x\<lparr>b_data := imap[index := imap ! index AND NOT (mask1 bit)]\<rparr>)))
                  (thenK (bwrite b)
                  (brelse b))))))"

section \<open>Truncation and release\<close>

definition itrunc :: "nat \<Rightarrow> unit kernel" where
  "itrunc k =
     bindK (getK (\<lambda>s. inodes s ! k)) (\<lambda>i.
     if i_flags i AND I_LOCK = 0 then panic ''itrunc2''
     else
       thenK (forK [0..<NDIRECT] (\<lambda>x.
         bindK (getK (\<lambda>s. i_direct (inodes s ! k) ! x)) (\<lambda>no.
         whenK (no \<noteq> 0) (thenK (bfree (i_dev i) (ucast no)) (modifyK (upd_inode k (set_direct x 0)))))))
       (thenK (whenK (i_indirect i \<noteq> 0)
         (bindK (bread (i_dev i) (ucast (i_indirect i))) (\<lambda>b.
          thenK (forK [0..<NINDIRECT] (\<lambda>x.
            bindK (getK (\<lambda>s. get16 (b_data (bcache s ! b)) (2 * x))) (\<lambda>no.
            whenK (no \<noteq> 0) (bfree (i_dev i) (ucast no)))))
          (thenK (brelse b)
          (thenK (bfree (i_dev i) (ucast (i_indirect i)))
          (modifyK (upd_inode k (\<lambda>i. i\<lparr>i_indirect := 0\<rparr>))))))))
       (thenK (modifyK (upd_inode k (\<lambda>i. set_iflags I_DIRTY (i\<lparr>i_size := 0\<rparr>))))
       (iupdate k))))"

definition iput :: "nat \<Rightarrow> unit kernel" where
  "iput k =
     bindK (getK (\<lambda>s. inodes s ! k)) (\<lambda>i.
     if i_refcount i = 0 \<or> i_flags i AND I_LOCK \<noteq> 0 then panic ''iput''
     else
       thenK (modifyK (upd_inode k (\<lambda>i. i\<lparr>i_refcount := i_refcount i - 1\<rparr>)))
       (whenK (i_refcount i - 1 = 0 \<and> i_nlinks i = 0)
          (thenK (ilock k)
          (thenK (itrunc k)
          (thenK (iunlock k)
          (thenK (ifree (i_dev i) (i_inodeno i))
          (thenK (modifyK (upd_inode k (set_iflags I_DIRTY)))
          (iupdate k))))))))"

definition iunlockput :: "nat \<Rightarrow> unit kernel" where
  "iunlockput k = thenK (iunlock k) (iput k)"

text \<open>A reference that is not the last, or to a file that still has a name, is just dropped.\<close>

lemma iput_exec:
  assumes "i_refcount (inodes s ! k) \<noteq> 0" and "i_flags (inodes s ! k) AND I_LOCK = 0"
    and "1 < i_refcount (inodes s ! k) \<or> i_nlinks (inodes s ! k) \<noteq> 0"
  shows "iput k s = Ok () (upd_inode k (\<lambda>i. i\<lparr>i_refcount := i_refcount i - 1\<rparr>) s)"
  using assms by (auto simp: iput_def kern_simps)

lemma procs_eqv_creds:
  assumes "procs_eqv ps qs" and "i < length ps"
  shows "p_uid (qs ! i) = p_uid (ps ! i)" "p_gid (qs ! i) = p_gid (ps ! i)"
  using procs_eqv_nth [OF assms] by auto

section \<open>The map as a pool of inode numbers\<close>

lemma hold_store_dirty:
  assumes inv: "bio_inv dv t L" and L: "insert i (set L) = {..<NBUF}"
    and hold: "fresh_hold dv t i n d" and len: "length data = BLOCK_SIZE"
  obtains w where "brelse i (upd_buf i (\<lambda>b. or_flags B_DIRTY (b\<lparr>b_data := data\<rparr>)) t) = Ok () w"
    "bio_idle dv w" "bio_frame t w"
    "\<And>m. block_ok m \<Longrightarrow> disk_block dv w m = (if m = n then data else disk_block dv t m)"
proof -
  define u where "u = upd_buf i (\<lambda>b. or_flags B_DIRTY (b\<lparr>b_data := data\<rparr>)) t"
  note s = bio_inv_simps [OF inv]
  have iu: "bio_inv dv u L" unfolding u_def using fresh_hold_upd [OF inv hold len] by simp
  have i: "i < length (bcache t)" using hold s(1) by (simp add: fresh_hold_def caches_def)
  have bu: "bcache u ! i = or_flags B_DIRTY ((bcache t ! i)\<lparr>b_data := data\<rparr>)" using i by (simp add: u_def upd_buf_def)
  have du: "disk_block dv u = disk_block dv t"
    by (rule disk_block_cong [OF s(2)]) (simp_all add: u_def upd_buf_def)
  have c: "caches dv u i n" "b_ref_count (bcache u ! i) = 1" "b_data (bcache u ! i) = data"
    using hold by (simp_all add: fresh_hold_def caches_def bu or_flags_def)
  have "bit (b_flags (bcache u ! i) AND B_DIRTY) 6" by (simp add: bu or_flags_def bit_simps)
  then have dirty: "b_flags (bcache u ! i) AND B_DIRTY \<noteq> 0" by auto
  obtain w where w: "brelse i u = Ok () w" "bio_idle dv w" "bio_frame u w"
    "\<And>m. block_ok m \<Longrightarrow> disk_block dv w m = (if m = n then b_data (bcache u ! i) else disk_block dv u m)"
    using bio_idle_brelse [OF iu L c(1,2)] dirty by blast
  have "bio_frame t w" using w(3) by (simp add: u_def bio_frame_def upd_buf_def)
  then show thesis using that w(1,2,4) c(3) du by (simp add: u_def)
qed

lemma ialloc_loop_spec:
  assumes "bio_idle ROOT_DEV s" and "\<forall>x\<in>set ibs. block_ok x"
  shows "(\<exists>t. ialloc_loop ibs no s = Ok None t \<and> bio_idle ROOT_DEV t \<and> bio_frame s t
      \<and> (\<forall>m. block_ok m \<longrightarrow> disk_block ROOT_DEV t m = disk_block ROOT_DEV s m)
      \<and> (\<forall>x\<in>set ibs. \<forall>y\<in>set (disk_block ROOT_DEV s x). y = 0xFF))
    \<or> (\<exists>t k z b. k < length ibs \<and> z < BLOCK_SIZE \<and> b < 8 \<and> \<not> bit (disk_block ROOT_DEV s (ibs ! k) ! z) b
      \<and> ialloc_loop ibs no s = Ok (Some (no + of_nat (8 * (BLOCK_SIZE * k + z) + b))) t
      \<and> bio_idle ROOT_DEV t \<and> bio_frame s t
      \<and> (\<forall>m. block_ok m \<longrightarrow> disk_block ROOT_DEV t m = (if m = ibs ! k
           then (disk_block ROOT_DEV s m)[z := disk_block ROOT_DEV s m ! z OR mask1 b] else disk_block ROOT_DEV s m)))"
  using assms
proof (induction ibs arbitrary: no s)
  case Nil
  then show ?case by (auto simp: kern_simps)
next
  case (Cons ib ibs)
  have ib: "block_ok ib" and ok: "\<forall>x\<in>set ibs. block_ok x" using Cons.prems(2) by simp_all
  let ?dv = "ROOT_DEV" let ?d = "disk_block ROOT_DEV s ib"
  obtain i t L where t: "bread ?dv ib s = Ok i t" "bio_inv ?dv t L" "insert i (set L) = {..<NBUF}"
    "fresh_hold ?dv t i ib ?d" "bio_frame s t" "disk_block ?dv t = disk_block ?dv s"
    using bio_idle_bread [OF Cons.prems(1) ib] by metis
  have d: "b_data (bcache t ! i) = ?d" "length ?d = BLOCK_SIZE"
    using t(4) length_disk_block_idle [OF Cons.prems(1)] by (simp_all add: fresh_hold_def)
  show ?case
  proof (cases "\<forall>y\<in>set ?d. y = 0xFF")
    case True
    then have scan: "zone_scan ?d 0 no = Inr (no + of_nat (8 * BLOCK_SIZE))"
      using zone_scan_spec [of ?d 0 no] d(2) by simp
    obtain u where u: "brelse i t = Ok () u" "bio_idle ?dv u" "bio_frame t u"
      "\<And>m. block_ok m \<Longrightarrow> disk_block ?dv u m = (if m = ib then b_data (bcache t ! i) else disk_block ?dv t m)"
      using bio_idle_brelse [OF t(2,3), of ib] t(4,6) by (auto simp: fresh_hold_def)
    have du: "disk_block ?dv u m = disk_block ?dv s m" if "block_ok m" for m using u(4) [OF that] d t(6) by auto
    have run: "ialloc_loop (ib # ibs) no s = ialloc_loop ibs (no + of_nat (8 * BLOCK_SIZE)) u"
      using t(1) d scan u(1) by (simp add: bindK_Ok kern_simps thenK_Ok)
    have fr: "bio_frame s u" using t(5) u(3) by (rule bio_frame_trans)
    from Cons.IH [OF u(2) ok, of "no + of_nat (8 * BLOCK_SIZE)"] show ?thesis
    proof (elim disjE exE conjE)
      fix v
      assume "ialloc_loop ibs (no + of_nat (8 * BLOCK_SIZE)) u = Ok None v" "bio_idle ?dv v" "bio_frame u v"
        "\<forall>m. block_ok m \<longrightarrow> disk_block ?dv v m = disk_block ?dv u m"
        "\<forall>x\<in>set ibs. \<forall>y\<in>set (disk_block ?dv u x). y = 0xFF"
      then show ?thesis
        using run du True ok bio_frame_trans [OF fr, of v] by (intro disjI1 exI [of _ v]) auto
    next
      fix v k z b
      assume found: "k < length ibs" "z < BLOCK_SIZE" "b < 8" "\<not> bit (disk_block ?dv u (ibs ! k) ! z) b"
        "ialloc_loop ibs (no + of_nat (8 * BLOCK_SIZE)) u
           = Ok (Some (no + of_nat (8 * BLOCK_SIZE) + of_nat (8 * (BLOCK_SIZE * k + z) + b))) v"
        "bio_idle ?dv v" "bio_frame u v"
        "\<forall>m. block_ok m \<longrightarrow> disk_block ?dv v m = (if m = ibs ! k
           then (disk_block ?dv u m)[z := disk_block ?dv u m ! z OR mask1 b] else disk_block ?dv u m)"
      have zk: "block_ok (ibs ! k)" using ok found(1) by simp
      have eq: "no + of_nat (8 * BLOCK_SIZE) + of_nat (8 * (BLOCK_SIZE * k + z) + b)
          = no + of_nat (8 * (BLOCK_SIZE * Suc k + z) + b)" by (simp add: algebra_simps)
      have "\<not> bit (disk_block ?dv s ((ib # ibs) ! Suc k) ! z) b" using found(4) du [OF zk] by simp
      moreover have "ialloc_loop (ib # ibs) no s = Ok (Some (no + of_nat (8 * (BLOCK_SIZE * Suc k + z) + b))) v"
        using run found(5) eq by metis
      moreover have "\<forall>m. block_ok m \<longrightarrow> disk_block ?dv v m = (if m = (ib # ibs) ! Suc k
           then (disk_block ?dv s m)[z := disk_block ?dv s m ! z OR mask1 b] else disk_block ?dv s m)"
        using found(8) du by simp
      moreover have "bio_frame s v" by (rule bio_frame_trans [OF fr found(7)])
      moreover have "Suc k < length (ib # ibs)" using found(1) by simp
      ultimately show ?thesis using found(2,3,6) by blast
    qed
  next
    case False
    then obtain z b where zb: "z < BLOCK_SIZE" "b < 8" "\<not> bit (?d ! z) b"
      "zone_scan ?d 0 no = Inl (z, b, no + of_nat (8 * z + b))"
      using zone_scan_spec [of ?d 0 no] d(2) unfolding if_not_P [OF False] by auto
    have "length (?d[z := ?d ! z OR mask1 b]) = BLOCK_SIZE" using d(2) by simp
    then obtain w where w: "brelse i (upd_buf i (\<lambda>x. or_flags B_DIRTY (x\<lparr>b_data := ?d[z := ?d ! z OR mask1 b]\<rparr>)) t) = Ok () w"
      "bio_idle ?dv w" "bio_frame t w"
      "\<And>m. block_ok m \<Longrightarrow> disk_block ?dv w m = (if m = ib then ?d[z := ?d ! z OR mask1 b] else disk_block ?dv t m)"
      using hold_store_dirty [OF t(2,3,4)] by metis
    have "ialloc_loop (ib # ibs) no s = Ok (Some (no + of_nat (8 * z + b))) w"
      using t(1) d zb(4) w(1) by (simp add: bindK_Ok kern_simps thenK_Ok)
    then show ?thesis
      using zb w(2,4) t(6) bio_frame_trans [OF t(5) w(3)]
      by (intro disjI2 exI [of _ w] exI [of _ 0] exI [of _ z] exI [of _ b]) auto
  qed
qed

definition imap_bytes :: "fs \<Rightarrow> kstate \<Rightarrow> bytes" where
  "imap_bytes sb s = concat (map (disk_block ROOT_DEV s) (imap_list sb))"

definition inode_slots :: "fs \<Rightarrow> nat set" where
  "inode_slots sb = {..<8 * (BLOCK_SIZE * unat (s_imap_blocks sb))}"

text \<open>Bit \<open>n\<close> of the map stands for inode \<open>n + 1\<close>.\<close>

definition inodes_used :: "fs \<Rightarrow> kstate \<Rightarrow> nat set" where
  "inodes_used sb s = bmap_set (imap_bytes sb s)"

definition imap_inv :: "fs \<Rightarrow> kstate \<Rightarrow> bool" where
  "imap_inv sb s \<longleftrightarrow> bio_idle ROOT_DEV s \<and> super s = sb"

lemma imap_list_facts:
  "length (imap_list sb) = unat (s_imap_blocks sb)" "distinct (imap_list sb)"
  "x \<in> set (imap_list sb) \<Longrightarrow> block_ok x"
  "k < unat (s_imap_blocks sb) \<Longrightarrow> imap_list sb ! k = of_nat (k + 2)"
proof -
  have 16: "unat (s_imap_blocks sb) < 65536" using unsigned_less [of "s_imap_blocks sb", where ?'a = nat] by simp
  have un: "unat (of_nat n :: u32) = n" if "n < 2 + unat (s_imap_blocks sb)" for n
    using that 16 by (intro unat_of_nat_small) simp
  show "length (imap_list sb) = unat (s_imap_blocks sb)" unfolding imap_list_def length_map length_upt by simp
  show "distinct (imap_list sb)"
    unfolding imap_list_def distinct_map
  proof (intro conjI inj_onI)
    fix x y
    assume xy: "x \<in> set [2..<2 + unat (s_imap_blocks sb)]" "y \<in> set [2..<2 + unat (s_imap_blocks sb)]"
      and eq: "(of_nat x :: u32) = of_nat y"
    have "unat (of_nat x :: u32) = unat (of_nat y :: u32)" by (simp only: eq)
    then show "x = y" using un [of x] un [of y] xy by (simp only: set_upt atLeastLessThan_iff)
  qed simp
  show "block_ok x" if x: "x \<in> set (imap_list sb)"
  proof -
    obtain n where n: "n \<in> set [2..<2 + unat (s_imap_blocks sb)]" "x = of_nat n"
      using x unfolding imap_list_def set_map by blast
    then have "n < 2 + unat (s_imap_blocks sb)" by (simp only: set_upt atLeastLessThan_iff)
    then show ?thesis using un [of n] 16 n(2) by (simp add: block_ok_def)
  qed
  show "k < unat (s_imap_blocks sb) \<Longrightarrow> imap_list sb ! k = of_nat (k + 2)"
    by (simp add: imap_list_def add.commute del: upt_Suc)
qed

lemma length_imap_bytes: "bio_idle ROOT_DEV s \<Longrightarrow> length (imap_bytes sb s) = BLOCK_SIZE * unat (s_imap_blocks sb)"
  unfolding imap_bytes_def
  by (subst length_concat_blocks [where n = BLOCK_SIZE]) (simp_all add: length_disk_block_idle imap_list_facts)

lemma imap_bytes_nth:
  "bio_idle ROOT_DEV s \<Longrightarrow> k < unat (s_imap_blocks sb) \<Longrightarrow> z < BLOCK_SIZE \<Longrightarrow>
   imap_bytes sb s ! (BLOCK_SIZE * k + z) = disk_block ROOT_DEV s (imap_list sb ! k) ! z"
  unfolding imap_bytes_def
  by (rule concat_nth_blocks) (simp_all add: length_disk_block_idle imap_list_facts)

lemma imap_bytes_update:
  assumes "bio_idle ROOT_DEV s" and "k < unat (s_imap_blocks sb)" and "z < BLOCK_SIZE"
    and "\<And>m. block_ok m \<Longrightarrow> disk_block ROOT_DEV t m =
      (if m = imap_list sb ! k then (disk_block ROOT_DEV s m)[z := v] else disk_block ROOT_DEV s m)"
  shows "imap_bytes sb t = (imap_bytes sb s)[BLOCK_SIZE * k + z := v]"
  unfolding imap_bytes_def
  by (rule concat_update_block) (use assms imap_list_facts length_disk_block_idle in auto)

lemma imap_index: "k < m \<Longrightarrow> z < BLOCK_SIZE \<Longrightarrow> BLOCK_SIZE * k + z < BLOCK_SIZE * m" for k z m :: nat
proof -
  assume "k < m" "z < BLOCK_SIZE"
  then have "BLOCK_SIZE * k + z < BLOCK_SIZE * Suc k" "BLOCK_SIZE * Suc k \<le> BLOCK_SIZE * m"
    by (simp, intro mult_le_mono2) simp
  then show ?thesis by (rule less_le_trans)
qed

lemma inode_slot_small: "n \<in> inode_slots sb \<Longrightarrow> n + 1 < 2 ^ 30"
  using unsigned_less [of "s_imap_blocks sb", where ?'a = nat] by (simp add: inode_slots_def)

lemma inode_number: "n \<in> inode_slots sb \<Longrightarrow> unat (of_nat (n + 1) :: u32) = n + 1"
  using inode_slot_small [of n sb] by (intro unat_of_nat_small) simp

lemma ialloc_loop_pool:
  assumes inv: "imap_inv sb s"
  shows "(\<exists>t. ialloc_loop (imap_list sb) 1 s = Ok None t \<and> imap_inv sb t \<and> bio_frame s t
      \<and> inodes_used sb t = inodes_used sb s \<and> inodes_used sb s = inode_slots sb)
    \<or> (\<exists>n t. ialloc_loop (imap_list sb) 1 s = Ok (Some (of_nat (n + 1))) t \<and> imap_inv sb t \<and> bio_frame s t
      \<and> n \<in> inode_slots sb - inodes_used sb s \<and> inodes_used sb t = insert n (inodes_used sb s)
      \<and> (\<forall>m. block_ok m \<longrightarrow> m \<notin> set (imap_list sb) \<longrightarrow> disk_block ROOT_DEV t m = disk_block ROOT_DEV s m))"
proof -
  have i: "bio_idle ROOT_DEV s" "super s = sb" using inv by (simp_all add: imap_inv_def)
  have ok: "\<forall>x\<in>set (imap_list sb). block_ok x" using imap_list_facts(3) by blast
  have len: "length (imap_bytes sb s) = BLOCK_SIZE * unat (s_imap_blocks sb)" by (rule length_imap_bytes [OF i(1)])
  have inv': "imap_inv sb t" if "bio_idle ROOT_DEV t" "bio_frame s t" for t
    using that i bio_frame_super [OF that(2)] by (simp add: imap_inv_def)
  from ialloc_loop_spec [OF i(1) ok, of 1] show ?thesis
  proof (elim disjE exE conjE)
    fix t
    assume t: "ialloc_loop (imap_list sb) 1 s = Ok None t" "bio_idle ROOT_DEV t" "bio_frame s t"
      "\<forall>m. block_ok m \<longrightarrow> disk_block ROOT_DEV t m = disk_block ROOT_DEV s m"
      "\<forall>x\<in>set (imap_list sb). \<forall>y\<in>set (disk_block ROOT_DEV s x). y = 0xFF"
    have eq: "imap_bytes sb t = imap_bytes sb s"
      using t(4) ok by (auto simp: imap_bytes_def intro!: arg_cong [where f = concat])
    have "\<forall>y\<in>set (imap_bytes sb s). y = 0xFF" using t(5) by (auto simp: imap_bytes_def)
    then have "{..<8 * length (imap_bytes sb s)} \<subseteq> bmap_set (imap_bytes sb s)" using bmap_full_iff by simp
    then have "inodes_used sb s = inode_slots sb"
      using len bmap_set_bound [of "imap_bytes sb s"] by (auto simp: inodes_used_def inode_slots_def)
    then show ?thesis using t(1,3) eq inv' [OF t(2,3)] by (intro disjI1) (auto simp: inodes_used_def)
  next
    fix t k z b
    assume t: "k < length (imap_list sb)" "z < BLOCK_SIZE" "b < 8" "\<not> bit (disk_block ROOT_DEV s (imap_list sb ! k) ! z) b"
      "ialloc_loop (imap_list sb) 1 s = Ok (Some (1 + of_nat (8 * (BLOCK_SIZE * k + z) + b))) t"
      "bio_idle ROOT_DEV t" "bio_frame s t"
      "\<forall>m. block_ok m \<longrightarrow> disk_block ROOT_DEV t m = (if m = imap_list sb ! k
           then (disk_block ROOT_DEV s m)[z := disk_block ROOT_DEV s m ! z OR mask1 b] else disk_block ROOT_DEV s m)"
    define q where "q = BLOCK_SIZE * k + z"
    define n where "n = 8 * q + b"
    have k: "k < unat (s_imap_blocks sb)" using t(1) imap_list_facts(1) by simp
    have q: "q < length (imap_bytes sb s)" unfolding len q_def by (rule imap_index [OF k t(2)])
    have zq: "imap_bytes sb s ! q = disk_block ROOT_DEV s (imap_list sb ! k) ! z"
      unfolding q_def by (rule imap_bytes_nth [OF i(1) k t(2)])
    have bytes: "imap_bytes sb t = (imap_bytes sb s)[q := imap_bytes sb s ! q OR mask1 b]"
      unfolding zq unfolding q_def by (rule imap_bytes_update [OF i(1) k t(2)]) (use t(8) in auto)
    have "inodes_used sb t = insert n (inodes_used sb s)"
      unfolding inodes_used_def bytes n_def by (rule bmap_set_insert [OF q t(3)])
    moreover have "n \<notin> inodes_used sb s"
      using t(4) zq bmap_set_mem [OF q t(3)] by (simp add: n_def inodes_used_def)
    moreover have "n \<in> inode_slots sb" using q t(3) by (simp add: n_def inode_slots_def len)
    moreover have "(1::u32) + of_nat (8 * (BLOCK_SIZE * k + z) + b) = of_nat (n + 1)" by (simp add: n_def q_def)
    ultimately show ?thesis
      using t(1,5,7,8) inv' [OF t(6,7)] by (intro disjI2 exI [of _ n] exI [of _ t]) auto
  qed
qed

lemma ifree_pool:
  assumes inv: "imap_inv sb s" and n: "n \<in> inode_slots sb"
  shows "if n \<in> inodes_used sb s
    then \<exists>t. ifree ROOT_DEV (of_nat (n + 1)) s = Ok () t \<and> imap_inv sb t \<and> bio_frame s t
      \<and> inodes_used sb t = inodes_used sb s - {n}
    else ifree ROOT_DEV (of_nat (n + 1)) s = Panic ''bfree: not allocated''"
proof -
  have i: "bio_idle ROOT_DEV s" "super s = sb" using inv by (simp_all add: imap_inv_def)
  define no :: u32 where "no = of_nat (n + 1)"
  have "unat no = n + 1" unfolding no_def by (rule inode_number [OF n])
  moreover have n1: "no - 1 = of_nat n" by (simp add: no_def)
  moreover have "unat (of_nat n :: u32) = n" using inode_slot_small [OF n] by (intro unat_of_nat_small) simp
  ultimately have un: "\<not> no < 1" "unat (no - 1) = n" by (simp_all add: word_less_nat_alt)
  define k where "k = n div (BLOCK_SIZE * 8)"
  define z where "z = (n mod (BLOCK_SIZE * 8)) div 8"
  define b where "b = n mod 8"
  define q where "q = BLOCK_SIZE * k + z"
  have nlt: "n < 8 * (BLOCK_SIZE * unat (s_imap_blocks sb))" using n by (simp add: inode_slots_def)
  have k: "k < unat (s_imap_blocks sb)" unfolding k_def using nlt by (simp add: less_mult_imp_div_less mult.commute)
  have z: "z < BLOCK_SIZE" "b < 8" by (simp_all add: z_def b_def less_mult_imp_div_less)
  have nq: "n = 8 * q + b"
  proof -
    have "n mod 8192 mod 8 = n mod 8" by (simp add: mod_mod_cancel)
    then have "n mod 8192 = 8 * z + b" using mult_div_mod_eq [of 8 "n mod 8192"] by (simp add: z_def b_def)
    moreover have "n = 8192 * k + n mod 8192" by (simp add: k_def)
    ultimately show ?thesis unfolding q_def by simp
  qed
  have q: "q < length (imap_bytes sb s)" unfolding length_imap_bytes [OF i(1)] q_def by (rule imap_index [OF k z(1)])
  define ibn where "ibn = (of_nat (k + 2) :: u32)"
  have zk: "imap_list sb ! k = ibn" unfolding ibn_def by (rule imap_list_facts(4) [OF k])
  have ok: "block_ok ibn" using imap_list_facts(1,3) zk k by (metis nth_mem)
  obtain h t L where t: "bread ROOT_DEV ibn s = Ok h t" "bio_inv ROOT_DEV t L" "insert h (set L) = {..<NBUF}"
    "fresh_hold ROOT_DEV t h ibn (disk_block ROOT_DEV s ibn)" "bio_frame s t" "disk_block ROOT_DEV t = disk_block ROOT_DEV s"
    using bio_idle_bread [OF i(1) ok] by metis
  let ?d = "disk_block ROOT_DEV s ibn"
  have d: "b_data (bcache t ! h) = ?d" "length ?d = BLOCK_SIZE"
    using t(4) length_disk_block_idle [OF i(1)] by (simp_all add: fresh_hold_def)
  have zq: "imap_bytes sb s ! q = ?d ! z" unfolding q_def using imap_bytes_nth [OF i(1) k z(1)] zk by simp
  have used: "n \<in> inodes_used sb s \<longleftrightarrow> bit (?d ! z) b"
    using bmap_set_mem [OF q z(2)] zq nq by (simp add: inodes_used_def)
  have kzb: "n div 8192 = k" "n mod 8192 div 8 = z" "n mod 8 = b" by (simp_all add: k_def z_def b_def)
  have ib: "(2::u32) + of_nat k = ibn" by (simp add: ibn_def)
  have run: "ifree ROOT_DEV no s =
      (if ?d ! z AND mask1 b = 0 then Panic ''bfree: not allocated''
       else thenK (modifyK (upd_buf h (\<lambda>x. x\<lparr>b_data := ?d[z := ?d ! z AND NOT (mask1 b)]\<rparr>)))
              (thenK (bwrite h) (brelse h)) t)"
    using i(2) t(1) d(1) un kzb k
    by (simp add: ifree_def kern_simps Let_def bindK_Ok ib cong: if_cong)
  show ?thesis
    unfolding no_def [symmetric]
  proof (cases "n \<in> inodes_used sb s")
    case False
    then show "if n \<in> inodes_used sb s then \<exists>t. ifree ROOT_DEV no s = Ok () t \<and> imap_inv sb t \<and> bio_frame s t
        \<and> inodes_used sb t = inodes_used sb s - {n} else ifree ROOT_DEV no s = Panic ''bfree: not allocated''"
      using run used and_mask1_eq_0 [of "?d ! z" b] by simp
  next
    case True
    have "length (?d[z := ?d ! z AND NOT (mask1 b)]) = BLOCK_SIZE" using d(2) by simp
    then obtain w where w: "thenK (modifyK (upd_buf h (\<lambda>x. x\<lparr>b_data := ?d[z := ?d ! z AND NOT (mask1 b)]\<rparr>)))
        (thenK (bwrite h) (brelse h)) t = Ok () w" "bio_idle ROOT_DEV w" "bio_frame t w"
      "\<And>m. block_ok m \<Longrightarrow> disk_block ROOT_DEV w m = (if m = ibn then ?d[z := ?d ! z AND NOT (mask1 b)] else disk_block ROOT_DEV t m)"
      using hold_store [OF t(2,3,4)] by metis
    have fr: "bio_frame s w" using t(5) w(3) by (rule bio_frame_trans)
    have bytes: "imap_bytes sb w = (imap_bytes sb s)[q := imap_bytes sb s ! q AND NOT (mask1 b)]"
      unfolding zq unfolding q_def
      by (rule imap_bytes_update [OF i(1) k z(1)]) (use w(4) t(6) zk in auto)
    have "inodes_used sb w = inodes_used sb s - {n}"
      unfolding inodes_used_def bytes nq by (rule bmap_set_remove [OF q z(2)])
    moreover have "imap_inv sb w" using w(2) i(2) bio_frame_super [OF fr] by (simp add: imap_inv_def)
    moreover have "ifree ROOT_DEV no s = Ok () w" using run w(1) True used and_mask1_eq_0 [of "?d ! z" b] by simp
    ultimately show "if n \<in> inodes_used sb s then \<exists>t. ifree ROOT_DEV no s = Ok () t \<and> imap_inv sb t \<and> bio_frame s t
        \<and> inodes_used sb t = inodes_used sb s - {n} else ifree ROOT_DEV no s = Panic ''bfree: not allocated''"
      using True fr by auto
  qed
qed

definition inode_alloc :: "fs \<Rightarrow> kstate \<Rightarrow> (nat \<times> kstate) option" where
  "inode_alloc sb s = (case ialloc_loop (imap_list sb) 1 s of Ok (Some no) t \<Rightarrow> Some (unat no - 1, t) | _ \<Rightarrow> None)"

definition inode_release :: "fs \<Rightarrow> nat \<Rightarrow> kstate \<Rightarrow> kstate option" where
  "inode_release sb n s = (case ifree ROOT_DEV (of_nat (n + 1)) s of Ok _ t \<Rightarrow> Some t | _ \<Rightarrow> None)"

interpretation inode_pool: slot_pool "imap_inv sb" "inodes_used sb" "inode_slots sb" "inode_alloc sb" "inode_release sb" for sb
proof
  show "finite (inode_slots sb)" by (simp add: inode_slots_def)
  show "inodes_used sb s \<subseteq> inode_slots sb" if "imap_inv sb s" for s
    using that bmap_set_bound [of "imap_bytes sb s"] by (simp add: inodes_used_def inode_slots_def length_imap_bytes imap_inv_def)
next
  fix s n t
  assume s: "imap_inv sb s" and a: "inode_alloc sb s = Some (n, t)"
  from ialloc_loop_pool [OF s] a obtain m u where m: "ialloc_loop (imap_list sb) 1 s = Ok (Some (of_nat (m + 1))) u"
    "imap_inv sb u" "m \<in> inode_slots sb - inodes_used sb s" "inodes_used sb u = insert m (inodes_used sb s)"
    by (auto simp: inode_alloc_def simp del: of_nat_add of_nat_Suc)
  have "unat (of_nat (m + 1) :: u32) = m + 1" using m(3) inode_number by blast
  then have "n = m" "t = u" using a m(1) by (simp_all add: inode_alloc_def del: of_nat_add of_nat_Suc)
  with m show "imap_inv sb t \<and> n \<in> inode_slots sb \<and> n \<notin> inodes_used sb s \<and> inodes_used sb t = insert n (inodes_used sb s)"
    by simp
next
  fix s
  assume "imap_inv sb s" "inodes_used sb s \<noteq> inode_slots sb"
  then show "\<exists>n t. inode_alloc sb s = Some (n, t)"
    using ialloc_loop_pool [of sb s] by (auto simp: inode_alloc_def simp del: of_nat_add of_nat_Suc)
next
  fix s n
  assume s: "imap_inv sb s" and "n \<in> inodes_used sb s"
  moreover have "n \<in> inode_slots sb"
    using calculation bmap_set_bound [of "imap_bytes sb s"]
    by (auto simp: inodes_used_def inode_slots_def length_imap_bytes imap_inv_def)
  ultimately show "\<exists>t. inode_release sb n s = Some t \<and> imap_inv sb t \<and> inodes_used sb t = inodes_used sb s - {n}"
    using ifree_pool [OF s, of n] by (auto simp: inode_release_def simp del: of_nat_add of_nat_Suc)
next
  fix s n
  assume "imap_inv sb s" "n \<in> inode_slots sb" "n \<notin> inodes_used sb s"
  then show "inode_release sb n s = None"
    using ifree_pool [of sb s n] by (simp add: inode_release_def del: of_nat_add of_nat_Suc)
qed

section \<open>Properties\<close>

text \<open>
  \<open>ialloc\<close> hands out an inode number that no file has.  When the root disk has a free inode that
  is not cached and the cache has a free entry, it returns an unlocked, referenced inode with the
  mode and the owner of the request, no links and no blocks, marked dirty; on the disk exactly its bit
  of the inode map is set.  When all inodes are in use it returns NULL and changes nothing.
\<close>

theorem ialloc_correct:
  assumes inv: "imap_inv sb s" and cur: "cur_proc s = Some c" and cp: "c < length (procs s)"
    and cache: "\<forall>i\<in>set (inodes s). i_dev i = ROOT_DEV \<longrightarrow> unat (i_inodeno i) - 1 \<in> inodes_used sb s"
    and entry: "first_index (\<lambda>i. i_refcount i = 0 \<and> i_flags i AND I_DIRTY = 0) (inodes s) = Some k"
    and fits: "\<forall>n\<in>inode_slots sb. block_ok (inode_block sb (of_nat (n + 1)))"
  shows "if inodes_used sb s = inode_slots sb
    then \<exists>t. ialloc mode s = Ok None t \<and> imap_inv sb t \<and> inodes t = inodes s \<and> inodes_used sb t = inodes_used sb s
    else \<exists>n t. n \<in> inode_slots sb - inodes_used sb s \<and> ialloc mode s = Ok (Some k) t \<and> imap_inv sb t
      \<and> inodes_used sb t = insert n (inodes_used sb s)
      \<and> inodes t = (inodes s)[k := \<lparr>i_dev = ROOT_DEV, i_inodeno = of_nat (n + 1), i_flags = I_DIRTY, i_refcount = 1,
           i_mode = mode OR S_IFREG, i_nlinks = 0, i_uid = p_uid (procs s ! c), i_gid = p_gid (procs s ! c),
           i_time = pit_time s, i_size = 0, i_direct = replicate NDIRECT 0, i_indirect = 0, i_dblindirect = 0\<rparr>]"
proof -
  have i: "bio_idle ROOT_DEV s" "super s = sb" using inv by (simp_all add: imap_inv_def)
  have kl: "k < length (inodes s)" using first_index_SomeD(1) [OF entry] .
  show ?thesis
    using ialloc_loop_pool [OF inv]
  proof (elim disjE exE conjE)
    fix t
    assume t: "ialloc_loop (imap_list sb) 1 s = Ok None t" "imap_inv sb t" "bio_frame s t"
      "inodes_used sb t = inodes_used sb s" "inodes_used sb s = inode_slots sb"
    have "ialloc mode s = Ok None t" using t(1) i(2) by (simp add: ialloc_def kern_simps bindK_Ok)
    then show ?thesis using t bio_frame_inodes [OF t(3)] by auto
  next
    fix n t
    assume t: "ialloc_loop (imap_list sb) 1 s = Ok (Some (of_nat (n + 1))) t" "imap_inv sb t" "bio_frame s t"
      "n \<in> inode_slots sb - inodes_used sb s" "inodes_used sb t = insert n (inodes_used sb s)"
    define no :: u32 where "no = of_nat (n + 1)"
    have it: "bio_idle ROOT_DEV t" "super t = sb" "inodes t = inodes s"
      using t(2) bio_frame_inodes [OF t(3)] by (simp_all add: imap_inv_def)
    have un: "unat no - 1 = n" using inode_number [of n sb] t(4) by (simp add: no_def)
    have miss: "first_index (\<lambda>i. i_dev i = ROOT_DEV \<and> i_inodeno i = no) (inodes t) = None"
      using cache t(4) un it(3) by (auto simp: first_index_None)
    have free: "first_index (\<lambda>i. i_refcount i = 0 \<and> i_flags i AND I_DIRTY = 0) (inodes t) = Some k" using entry it(3) by simp
    have ok: "block_ok (inode_block (super t) no)" using fits t(4) it(2) unfolding no_def by blast
    obtain u where u: "iget ROOT_DEV no t = Ok k u" "bio_idle ROOT_DEV u"
      "\<And>m. block_ok m \<Longrightarrow> disk_block ROOT_DEV u m = disk_block ROOT_DEV t m"
      "bio_frame (upd_inode k (\<lambda>i. (inode_of_disk (disk_inode ROOT_DEV t no) i)
         \<lparr>i_dev := ROOT_DEV, i_inodeno := no, i_refcount := 1, i_flags := 0\<rparr>) t) u"
      using iget_miss [OF it(1) miss free ok] by blast
    have cu: "cur_proc u = Some c" "pit_time u = pit_time s" "super u = sb"
      using u(4) t(3) cur it(2) by (simp_all add: bio_frame_def upd_inode_def)
    have pu: "p_uid (procs u ! c) = p_uid (procs s ! c)" "p_gid (procs u ! c) = p_gid (procs s ! c)"
    proof -
      have "procs_eqv (procs s) (procs t)" "procs_eqv (procs t) (procs u)"
        using u(4) t(3) by (simp_all add: bio_frame_def)
      then have eqv: "procs_eqv (procs s) (procs u)" by (rule procs_eqv_trans)
      show "p_uid (procs u ! c) = p_uid (procs s ! c)" "p_gid (procs u ! c) = p_gid (procs s ! c)"
        by (rule procs_eqv_creds [OF eqv cp])+
    qed
    define v where "v = upd_inode k (fresh_inode mode (pit_time s) (p_uid (procs s ! c)) (p_gid (procs s ! c))) u"
    have run: "ialloc mode s = Ok (Some k) v"
      using t(1) [folded no_def] i(2) u(1) cu pu
      by (simp add: ialloc_def kern_simps bindK_Ok with_cur_def time_def v_def)
    have "imap_bytes sb u = imap_bytes sb t"
      unfolding imap_bytes_def by (rule arg_cong [where f = concat]) (use u(3) imap_list_facts(3) in simp)
    then have used: "inodes_used sb v = insert n (inodes_used sb s)"
      using t(5) by (simp add: inodes_used_def v_def imap_bytes_def)
    have "imap_inv sb v" using u(2) cu(3) by (simp add: v_def imap_inv_def)
    moreover have "inodes v = (inodes s)[k := \<lparr>i_dev = ROOT_DEV, i_inodeno = no, i_flags = I_DIRTY, i_refcount = 1,
           i_mode = mode OR S_IFREG, i_nlinks = 0, i_uid = p_uid (procs s ! c), i_gid = p_gid (procs s ! c),
           i_time = pit_time s, i_size = 0, i_direct = replicate NDIRECT 0, i_indirect = 0, i_dblindirect = 0\<rparr>]"
      using bio_frame_inodes [OF u(4)] kl it(3)
      by (cases "inodes s ! k") (simp add: v_def fresh_inode_def set_iflags_def inode_of_disk_def)
    moreover have "inodes_used sb s \<noteq> inode_slots sb" using t(4) by auto
    ultimately show ?thesis using run used t(4) unfolding no_def by auto
  qed
qed

lemma mini_disk_imap:
  obtains s where "buf_init mini_disk = Ok () s" "imap_inv mini_super s" "inodes_used mini_super s = {}"
    "inodes s = replicate NUM_INODES zero_inode" "procs s = procs mini_disk"
proof -
  have "bio_boot ROOT_DEV mini_disk"
    using bio_boot_one_disk by (simp add: bio_boot_def mini_disk_def dev_ok_def)
  from buf_init_inv [OF this] obtain s where s: "buf_init mini_disk = Ok () s" "bio_inv ROOT_DEV s [0..<NBUF]"
    "bio_frame mini_disk s" "disk_block ROOT_DEV s = disk_block ROOT_DEV mini_disk" by auto
  have f: "super s = mini_super" "inodes s = replicate NUM_INODES zero_inode"
    using s(3) by (simp_all add: bio_frame_def mini_disk_def one_disk_def bss_state_def)
  have "imap_list mini_super = [2]" by (simp add: imap_list_def mini_super_def upt_rec)
  moreover have "disk_block ROOT_DEV s 2 = replicate 512 0 @ replicate 512 0"
    unfolding s(4)
    by (simp add: disk_block_def mini_disk_def one_disk_def wd_locate_def wd_drive_def wd_part_no_def
        minor_def ide_read_multiple_def lba28_def zero_wd_def)
  ultimately have "imap_bytes mini_super s = replicate 1024 0"
    by (simp add: imap_bytes_def replicate_add [symmetric])
  then have "inodes_used mini_super s = {}"
    by (auto simp: inodes_used_def bmap_set_def bmap_bit_def)
  moreover have "procs s = procs mini_disk"
  proof -
    have "s = fold buf_init_one [0..<NBUF] (mini_disk\<lparr>bfree_next := BHead, bfree_prev := BHead\<rparr>)"
      using s(1) by (simp add: buf_init_def kern_simps)
    moreover have "procs (fold buf_init_one xs r) = procs r" for xs r
      by (induction xs arbitrary: r) (simp_all add: buf_init_one_def free_append_def set_next_def set_prev_def upd_buf_def Let_def split: bptr.split)
    ultimately show ?thesis by simp
  qed
  ultimately show thesis
    using that s(1) f bio_inv_idle [OF s(2)] by (simp add: imap_inv_def)
qed

theorem ialloc_witness:
  "\<exists>s n t. imap_inv mini_super s \<and> ialloc 0x1A4 s = Ok (Some 0) t \<and> inodes_used mini_super t = {n}
     \<and> i_mode (inodes t ! 0) = 0x81A4"
proof -
  obtain s where s: "buf_init mini_disk = Ok () s" "imap_inv mini_super s" "inodes_used mini_super s = {}"
    "inodes s = replicate NUM_INODES zero_inode" "procs s = procs mini_disk" by (rule mini_disk_imap)
  let ?s = "s\<lparr>cur_proc := Some 1\<rparr>"
  have c: "disk_block ROOT_DEV ?s = disk_block ROOT_DEV s" "bio_idle ROOT_DEV ?s = bio_idle ROOT_DEV s"
    using bio_same_cache [of ?s s ROOT_DEV] by simp_all
  have inv: "imap_inv mini_super ?s" "inodes_used mini_super ?s = {}"
    using s(2,3) c by (simp_all add: imap_inv_def inodes_used_def imap_bytes_def)
  have cp: "1 < length (procs ?s)" using s(5) by (simp add: mini_disk_def one_disk_def bss_state_def)
  have cache: "\<forall>i\<in>set (inodes ?s). i_dev i = ROOT_DEV \<longrightarrow> unat (i_inodeno i) - 1 \<in> inodes_used mini_super ?s"
    using s(4) by (simp add: zero_inode_def)
  have entry: "first_index (\<lambda>i. i_refcount i = 0 \<and> i_flags i AND I_DIRTY = 0) (inodes ?s) = Some 0"
    using s(4) by (simp add: zero_inode_def)
  have slots: "inode_slots mini_super = {..<8192}" by (simp add: inode_slots_def mini_super_def)
  have fits: "\<forall>n\<in>inode_slots mini_super. block_ok (inode_block mini_super (of_nat (n + 1)))"
  proof
    fix n
    assume n: "n \<in> inode_slots mini_super"
    then have "unat (of_nat n :: u32) = n" using slots by (intro unat_of_nat_small) simp
    then have "(of_nat n :: u32) div 32 = of_nat (n div 32)" by (simp add: word_arith_nat_div)
    then have "inode_block mini_super (of_nat (n + 1)) = of_nat (4 + n div 32)"
      by (simp add: inode_block_def mini_super_def)
    moreover have "4 + n div 32 < 2 ^ LENGTH(32)" using n slots by simp
    ultimately show "block_ok (inode_block mini_super (of_nat (n + 1)))"
      using n slots unat_of_nat_small [of "4 + n div 32", where ?'a = 32] by (simp add: block_ok_def)
  qed
  have "0 \<in> inode_slots mini_super" using slots by simp
  then have "inodes_used mini_super ?s \<noteq> inode_slots mini_super" using inv(2) by auto
  then obtain n t where "ialloc 0x1A4 ?s = Ok (Some 0) t" "inodes_used mini_super t = {n}"
    "inodes t = (inodes ?s)[0 := \<lparr>i_dev = ROOT_DEV, i_inodeno = of_nat (n + 1), i_flags = I_DIRTY, i_refcount = 1,
           i_mode = 0x1A4 OR S_IFREG, i_nlinks = 0, i_uid = p_uid (procs ?s ! 1), i_gid = p_gid (procs ?s ! 1),
           i_time = pit_time ?s, i_size = 0, i_direct = replicate NDIRECT 0, i_indirect = 0, i_dblindirect = 0\<rparr>]"
    using ialloc_correct [OF inv(1) _ cp cache entry fits, of "0x1A4"] inv(2) by auto
  then show ?thesis using inv(1) s(4) by (intro exI [of _ ?s] exI [of _ n] exI [of _ t]) simp
qed

text \<open>
  Inode numbers survive any cycle of creation and deletion.  Numbers handed out in a row are all
  different, giving them back restores the inode map, and giving one back twice panics.
\<close>

theorem inode_numbers_roundtrip:
  assumes "imap_inv sb s" and "k \<le> card (inode_slots sb - inodes_used sb s)"
  shows "\<exists>ns t u. inode_pool.alloc_many sb k s = Some (ns, t) \<and> length ns = k \<and> distinct ns
    \<and> set ns \<subseteq> inode_slots sb - inodes_used sb s
    \<and> inode_pool.release_many sb ns t = Some u \<and> inodes_used sb u = inodes_used sb s
    \<and> (\<forall>n\<in>set ns. ifree ROOT_DEV (of_nat (n + 1)) u = Panic ''bfree: not allocated'')"
proof -
  have room: "k \<le> inode_pool.room sb s" using assms(2) by (simp add: inode_pool.room_def)
  obtain ns t where t: "inode_pool.alloc_many sb k s = Some (ns, t)" "imap_inv sb t" "length ns = k"
    "distinct ns" "set ns \<subseteq> inode_slots sb - inodes_used sb s" "inodes_used sb t = inodes_used sb s \<union> set ns"
    using inode_pool.alloc_many_fresh [OF assms(1) room] by blast
  have "set ns \<subseteq> inodes_used sb t" using t(6) by simp
  from inode_pool.release_many_taken [OF t(2,4) this] obtain u where u: "inode_pool.release_many sb ns t = Some u"
    "imap_inv sb u" "inodes_used sb u = inodes_used sb t - set ns" by blast
  have uu: "inodes_used sb u = inodes_used sb s" using u(3) t(5,6) by auto
  have "ifree ROOT_DEV (of_nat (n + 1)) u = Panic ''bfree: not allocated''" if "n \<in> set ns" for n
  proof -
    have n: "n \<in> inode_slots sb" "n \<notin> inodes_used sb u" using that t(5) uu by auto
    show ?thesis using ifree_pool [OF u(2) n(1)] n(2) by simp
  qed
  with t u uu show ?thesis by blast
qed

theorem inode_numbers_witness:
  "\<exists>s ns t u. imap_inv mini_super s \<and> inode_pool.alloc_many mini_super 3 s = Some (ns, t) \<and> length ns = 3
     \<and> inode_pool.release_many mini_super ns t = Some u \<and> inodes_used mini_super u = {}"
proof -
  obtain s where s: "imap_inv mini_super s" "inodes_used mini_super s = {}" by (rule mini_disk_imap)
  have "3 \<le> card (inode_slots mini_super - inodes_used mini_super s)"
    using s(2) by (simp add: inode_slots_def mini_super_def)
  from inode_numbers_roundtrip [OF s(1) this] s show ?thesis by blast
qed

end
