(* ===== verification/Namei.thy ===== *)
theory Namei
  imports Imap
begin

text \<open>
  Path names, \<open>nameicore\<close> and its callers in \<open>sys/kern/inode.c\<close>.  A path is the bytes of the C string
  without its terminator.
\<close>

section \<open>Directories\<close>

abbreviation (input) PATH_MAX :: nat where "PATH_MAX \<equiv> 256"
abbreviation (input) DIRENT_SIZE :: nat where "DIRENT_SIZE \<equiv> 32"
abbreviation (input) DIRENT_NAME_SIZE :: nat where "DIRENT_NAME_SIZE \<equiv> 30"
abbreviation (input) SLASH :: u8 where "SLASH \<equiv> 47"

text \<open>The entries \<open>struct dirent dir[]\<close> in the bytes of a directory.  The name is a C string: \<open>strlen\<close>
  does not stop at the end of the entry, and a name without terminator is read past the array.\<close>

definition dirent_ino :: "bytes \<Rightarrow> nat \<Rightarrow> u16" where
  "dirent_ino dir d = get16 dir (DIRENT_SIZE * d)"

definition dirent_name :: "bytes \<Rightarrow> nat \<Rightarrow> bytes option" where
  "dirent_name dir d =
     (let rest = drop (DIRENT_SIZE * d + 2) dir
      in if 0 \<in> set rest then Some (takeWhile (\<lambda>c. c \<noteq> 0) rest) else None)"

text \<open>The search of a directory: \<open>None\<close> is the access past the array, \<open>Some None\<close> no such name.  The
  test \<open>len == e - p && strncmp(name, p, len) == 0\<close> is equality with the component.\<close>

fun dir_find :: "bytes \<Rightarrow> bytes \<Rightarrow> nat list \<Rightarrow> u16 option option" where
  "dir_find dir nm [] = Some None"
| "dir_find dir nm (d # ds) =
     (case dirent_name dir d of
        None \<Rightarrow> None
      | Some name \<Rightarrow>
          if dirent_ino dir d \<noteq> 0 \<and> name = nm then Some (Some (dirent_ino dir d)) else dir_find dir nm ds)"

definition skip_slashes :: "bytes \<Rightarrow> bytes" where
  "skip_slashes p = dropWhile (\<lambda>c. c = SLASH) p"

definition component :: "bytes \<Rightarrow> bytes" where
  "component p = takeWhile (\<lambda>c. c \<noteq> SLASH) p"

definition after_component :: "bytes \<Rightarrow> bytes" where
  "after_component p = dropWhile (\<lambda>c. c \<noteq> SLASH) p"

section \<open>The walk\<close>

text \<open>
  The loop of \<open>nameicore\<close>.  \<open>named\<close> says whether the caller passed a buffer of \<open>PATH_MAX\<close> bytes for the
  last component; the value is the return code, the inode in \<open>*inodep\<close>, which an error leaves
  as it is, and the name.
\<close>

function walk :: "bool \<Rightarrow> bool \<Rightarrow> bytes \<Rightarrow> nat \<Rightarrow> bytes \<Rightarrow> (int \<times> nat \<times> bytes) kernel" where
  "walk named parent p k name =
     (if p = [] then returnK (0, k, name)
      else
        thenK (ilock k)
        (bindK (access (Some k) IEXEC) (\<lambda>denied.
         if denied \<noteq> 0 then thenK (iunlockput k) (returnK (- EACCES, k, name))
         else
           bindK (getK (\<lambda>s. i_size (inodes s ! k))) (\<lambda>sz.
           if sz < 0 \<or> sz mod int DIRENT_SIZE \<noteq> 0 then faultK
           else
             bindK (readi k (replicate (nat sz) 0) 0) (\<lambda>(r, dir).
             if r \<noteq> sz then thenK (iunlockput k) (returnK (- EIO, k, name))
             else
               thenK (iunlock k)
               (case dir_find dir (component p) [0..<nat sz div DIRENT_SIZE] of
                  None \<Rightarrow> faultK
                | Some found \<Rightarrow>
                    bindK (case found of
                             None \<Rightarrow> returnK None
                           | Some ino \<Rightarrow>
                               bindK (getK (\<lambda>s. i_dev (inodes s ! k))) (\<lambda>dev.
                               bindK (iget dev (ucast ino)) (\<lambda>n. returnK (Some n)))) (\<lambda>next_inode.
                    if named \<and> PATH_MAX \<le> length (component p) then faultK
                    else
                      let name' = (if named then component p else name);
                          rest = skip_slashes (after_component p)
                      in if parent \<and> rest = [] then
                           thenK (case next_inode of None \<Rightarrow> returnK () | Some n \<Rightarrow> iput n)
                           (returnK (0, k, name'))
                         else (case next_inode of
                                 None \<Rightarrow> thenK (iput k) (returnK (- ENOENT, k, name'))
                               | Some n \<Rightarrow> thenK (iput k) (walk named parent rest n name')))))))))"
  by pat_completeness auto

lemma walk_rest_shorter: "p \<noteq> [] \<Longrightarrow> length (skip_slashes (after_component p)) < length p"
proof -
  assume "p \<noteq> []"
  then obtain c q where p: "p = c # q" by (cases p) auto
  have le: "length (dropWhile P xs) \<le> length xs" for P and xs :: bytes by (rule length_dropWhile_le)
  show ?thesis
  proof (cases "c = SLASH")
    case True
    then show ?thesis
      using le [of "\<lambda>c. c = SLASH" q] by (simp add: p skip_slashes_def after_component_def)
  next
    case False
    then have eq: "after_component (c # q) = after_component q" by (simp add: after_component_def)
    have "length (skip_slashes (after_component q)) \<le> length (after_component q)"
      unfolding skip_slashes_def by (rule le)
    also have "\<dots> \<le> length q" unfolding after_component_def by (rule le)
    finally show ?thesis by (simp add: p eq)
  qed
qed

termination walk
  by (relation "measure (\<lambda>(_, _, p, _, _). length p)") (auto simp: walk_rest_shorter)

declare walk.simps [simp del]

abbreviation (input) ROOT_INODE :: u32 where "ROOT_INODE \<equiv> 1"

definition nameicore :: "bytes \<Rightarrow> bool \<Rightarrow> bool \<Rightarrow> (int \<times> nat \<times> bytes) kernel" where
  "nameicore path named parent =
     (if path \<noteq> [] \<and> hd path = SLASH then
        bindK (iget ROOT_DEV ROOT_INODE) (\<lambda>k. walk named parent (skip_slashes path) k [])
      else
        with_cur (\<lambda>c.
        bindK (getK (\<lambda>s. p_cwd (procs s ! c))) (\<lambda>cwd.
        case cwd of
          None \<Rightarrow> faultK
        | Some d \<Rightarrow> bindK (idup d) (\<lambda>k. walk named parent path k []))))"

definition namei :: "bytes \<Rightarrow> (int \<times> nat) kernel" where
  "namei path = bindK (nameicore path False False) (\<lambda>(e, k, _). returnK (e, k))"

definition nameiname :: "bytes \<Rightarrow> (int \<times> nat \<times> bytes) kernel" where
  "nameiname path = nameicore path True False"

definition parenti :: "bytes \<Rightarrow> (int \<times> nat \<times> bytes) kernel" where
  "parenti path = nameicore path True True"

definition chdir :: "bytes option \<Rightarrow> int kernel" where
  "chdir path =
     (case path of
        None \<Rightarrow> returnK (- EINVAL)
      | Some p \<Rightarrow>
          bindK (namei p) (\<lambda>(error, cwd).
          if error \<noteq> 0 then returnK error
          else
            bindK (access (Some cwd) IEXEC) (\<lambda>denied.
            if denied \<noteq> 0 then thenK (iput cwd) (returnK (- EACCES))
            else
              bindK (getK (\<lambda>s. i_mode (inodes s ! cwd))) (\<lambda>mode.
              if mode AND S_IFMT \<noteq> S_IFDIR then thenK (iput cwd) (returnK (- ENOTDIR))
              else
                with_cur (\<lambda>c.
                bindK (getK (\<lambda>s. p_cwd (procs s ! c))) (\<lambda>old.
                thenK (case old of None \<Rightarrow> returnK () | Some d \<Rightarrow> iput d)
                (thenK (modifyK (upd_proc c (\<lambda>q. q\<lparr>p_cwd := Some cwd\<rparr>)))
                (returnK 0))))))))"

end
