(* ===== verification/Users.thy ===== *)
theory Users
  imports Printf Namei
begin

text \<open>
  The user and group files: \<open>lib/libc/getpwuid.c\<close>, \<open>lib/libc/getgrgid.c\<close> and \<open>lib/libc/crypt.c\<close>, and the login
  program \<open>bin/login.c\<close>, whose credentials are those of the kernel's process table.  A file is the
  contents that reading it gives, or nothing; \<open>enough\<close> says for which sizes \<open>malloc\<close> succeeds.  Pointers into the
  text of a file are the strings they point to, and a null pointer is \<open>None\<close>.
\<close>

section \<open>Password hashes\<close>

definition b64_table :: bytes where
  "b64_table = [46, 47] @ map of_nat ([48..<58] @ [65..<91] @ [97..<123])"

definition hash_step :: "u32 \<Rightarrow> u8 \<Rightarrow> u32" where
  "hash_step h c = (let h' = h XOR (scast c * 16777619) in push_bit 5 h' OR drop_bit 27 h')"

fun hash_text :: "nat \<Rightarrow> u32 \<Rightarrow> bytes" where
  "hash_text 0 h = []"
| "hash_text (Suc n) h = b64_table ! unat (h AND 63) # hash_text n (drop_bit 6 h)"

definition crypt :: "bytes \<Rightarrow> bytes" where
  "crypt key = hash_text 6 (foldl hash_step 0xDEADBEEF key)"

section \<open>Lines of fields\<close>

text \<open>The number of lines of the text; the last one may lack its newline.\<close>

fun count_entries :: "bytes \<Rightarrow> nat" where
  "count_entries [] = 0"
| "count_entries (c # p) = (if c = 10 then 1 else if p = [] then 1 else 0) + count_entries p"

text \<open>
  The loop over the fields of an entry, and where it stops: behind the newline, behind the last of the
  fields, or (\<open>None\<close>) behind the terminator of the text.
\<close>

fun take_fields :: "nat \<Rightarrow> bytes \<Rightarrow> bytes list \<times> bytes option" where
  "take_fields 0 p = ([], Some p)"
| "take_fields (Suc n) p =
     (let f = takeWhile (\<lambda>c. c \<noteq> 58 \<and> c \<noteq> 10) p
      in case dropWhile (\<lambda>c. c \<noteq> 58 \<and> c \<noteq> 10) p of
           [] \<Rightarrow> ([f], None)
         | op # q \<Rightarrow> if op = 10 then ([f], Some q) else (case take_fields n q of (fs, r) \<Rightarrow> (f # fs, r)))"

definition field :: "bytes list \<Rightarrow> nat \<Rightarrow> bytes option" where
  "field fs i = (if i < length fs then Some (fs ! i) else None)"

datatype 'a parsed = Crash | Failed | Loaded "'a list"

text \<open>
  Both files are read in the same way: \<open>n\<close> is the number of fields, \<open>sz\<close> the size of an entry, and \<open>mk\<close> makes an
  entry from its fields, if it does not follow a null pointer.
\<close>

fun parse_entries :: "nat \<Rightarrow> (bytes list \<Rightarrow> 'a option) \<Rightarrow> nat \<Rightarrow> bytes option \<Rightarrow> 'a list option" where
  "parse_entries n mk 0 p = Some []"
| "parse_entries n mk (Suc k) None = None"
| "parse_entries n mk (Suc k) (Some p) =
     (case take_fields n p of (fs, r) \<Rightarrow>
        case mk fs of None \<Rightarrow> None | Some e \<Rightarrow> map_option ((#) e) (parse_entries n mk k r))"

definition parse_file :: "nat \<Rightarrow> nat \<Rightarrow> (bytes list \<Rightarrow> 'a option) \<Rightarrow> (nat \<Rightarrow> bool) \<Rightarrow> bytes option \<Rightarrow> 'a parsed" where
  "parse_file n sz mk enough contents =
     (case contents of
        None \<Rightarrow> Failed
      | Some bs \<Rightarrow>
          if bs = [] \<or> \<not> enough (length bs + 1) then Failed
          else
            (let s = takeWhile (\<lambda>c. c \<noteq> 0) bs; k = count_entries s
             in if \<not> enough (k * sz) then Failed
                else (case parse_entries n mk k (Some s) of None \<Rightarrow> Crash | Some es \<Rightarrow> Loaded es)))"

section \<open>Users\<close>

record passwd =
  pw_name :: "bytes option"
  pw_passwd :: "bytes option"
  pw_uid :: int
  pw_gid :: int
  pw_gecos :: "bytes option"
  pw_dir :: "bytes option"
  pw_shell :: "bytes option"

definition mk_passwd :: "bytes list \<Rightarrow> passwd option" where
  "mk_passwd fs =
     (case (field fs 2, field fs 3) of
        (Some u, Some g) \<Rightarrow>
          Some \<lparr>pw_name = field fs 0, pw_passwd = field fs 1, pw_uid = atoi u, pw_gid = atoi g,
                pw_gecos = field fs 4, pw_dir = field fs 5, pw_shell = field fs 6\<rparr>
      | _ \<Rightarrow> None)"

definition parsepwd :: "(nat \<Rightarrow> bool) \<Rightarrow> bytes option \<Rightarrow> passwd parsed" where
  "parsepwd enough contents = parse_file 7 28 mk_passwd enough contents"

text \<open>
  The lookups, with the table that an earlier call has left in \<open>passwds\<close>.  \<open>Inl\<close> is a crash, and the last component
  the table afterwards.
\<close>

definition lookup :: "'a list option \<Rightarrow> 'a parsed \<Rightarrow> ('a \<Rightarrow> bool) \<Rightarrow> (unit + 'a option) \<times> 'a list option" where
  "lookup cache parse P =
     (case (case cache of Some es \<Rightarrow> Loaded es | None \<Rightarrow> parse) of
        Crash \<Rightarrow> (Inl (), cache)
      | Failed \<Rightarrow> (Inr None, cache)
      | Loaded es \<Rightarrow> (Inr (find P es), Some es))"

definition getpwuid :: "int \<Rightarrow> (nat \<Rightarrow> bool) \<Rightarrow> bytes option \<Rightarrow> passwd list option \<Rightarrow> (unit + passwd option) \<times> passwd list option" where
  "getpwuid uid enough contents passwds = lookup passwds (parsepwd enough contents) (\<lambda>pw. pw_uid pw = uid)"

definition getpwnam :: "bytes \<Rightarrow> (nat \<Rightarrow> bool) \<Rightarrow> bytes option \<Rightarrow> passwd list option \<Rightarrow> (unit + passwd option) \<times> passwd list option" where
  "getpwnam name enough contents passwds = lookup passwds (parsepwd enough contents) (\<lambda>pw. pw_name pw = Some name)"

section \<open>Groups\<close>

abbreviation (input) NGROUPMEMB :: nat where "NGROUPMEMB \<equiv> 16"

record group =
  gr_name :: "bytes option"
  gr_passwd :: "bytes option"
  gr_gid :: u16
  gr_mem :: "bytes list"

fun members :: "nat \<Rightarrow> bytes \<Rightarrow> bytes list" where
  "members 0 p = []"
| "members (Suc g) p =
     (if p = [] then []
      else takeWhile (\<lambda>c. c \<noteq> 44) p # members g (drop 1 (dropWhile (\<lambda>c. c \<noteq> 44) p)))"

definition mk_group :: "bytes list \<Rightarrow> group option" where
  "mk_group fs =
     (case (field fs 2, field fs 3) of
        (Some g, Some m) \<Rightarrow>
          Some \<lparr>gr_name = field fs 0, gr_passwd = field fs 1, gr_gid = word_of_int (atoi g), gr_mem = members NGROUPMEMB m\<rparr>
      | _ \<Rightarrow> None)"

definition parse_group :: "(nat \<Rightarrow> bool) \<Rightarrow> bytes option \<Rightarrow> group parsed" where
  "parse_group enough contents = parse_file 4 76 mk_group enough contents"

definition getgrgid :: "int \<Rightarrow> (nat \<Rightarrow> bool) \<Rightarrow> bytes option \<Rightarrow> group list option \<Rightarrow> (unit + group option) \<times> group list option" where
  "getgrgid gid enough contents grps = lookup grps (parse_group enough contents) (\<lambda>gr. uint (gr_gid gr) = gid)"

text \<open>
  \<open>getgrouplist\<close>: the array \<open>groups\<close> has room for \<open>NGROUPS\<close> groups, and the result is what was stored in it.  The two
  loops return when it is full.
\<close>

fun member_loop :: "bytes \<Rightarrow> u16 \<Rightarrow> bytes list \<Rightarrow> u16 list \<Rightarrow> bool \<times> u16 list" where
  "member_loop name gid [] gs = (False, gs)"
| "member_loop name gid (m # ms) gs =
     (if name = m then
        (let gs' = gs @ [gid] in if length gs' \<ge> NGROUPS then (True, gs') else member_loop name gid ms gs')
      else member_loop name gid ms gs)"

fun group_loop :: "bytes \<Rightarrow> group list \<Rightarrow> u16 list \<Rightarrow> u16 list" where
  "group_loop name [] gs = gs"
| "group_loop name (gr # grs) gs =
     (case member_loop name (gr_gid gr) (gr_mem gr) gs of (full, gs') \<Rightarrow> if full then gs' else group_loop name grs gs')"

definition getgrouplist :: "bytes \<Rightarrow> u16 \<Rightarrow> group parsed \<Rightarrow> (unit + u16 list option)" where
  "getgrouplist name basegid parse =
     (case parse of
        Crash \<Rightarrow> Inl ()
      | Failed \<Rightarrow> Inr None
      | Loaded grs \<Rightarrow> Inr (Some (group_loop name grs [basegid])))"

definition initgroups :: "bytes \<Rightarrow> u16 \<Rightarrow> group parsed \<Rightarrow> int kernel" where
  "initgroups name basegid parse =
     (case getgrouplist name basegid parse of
        Inl _ \<Rightarrow> faultK
      | Inr None \<Rightarrow> returnK (-1)
      | Inr (Some gs) \<Rightarrow> sys_setgroups (int (length gs)) (Some gs))"

section \<open>Login\<close>

text \<open>
  The password is read until a line is not empty; the last character of the line is cut off.  The list are
  the results of \<open>fgets\<close>; when it is used up the program is still reading.  The texts of the password file and
  of the group file are arguments; switching the echo of the terminal off and on and printing the message
  of the day are not part of the model.  \<open>Shell\<close> is the program that \<open>execl\<close> is called with.
\<close>

fun read_password :: "bytes option list \<Rightarrow> bytes option" where
  "read_password [] = None"
| "read_password (None # rs) = read_password rs"
| "read_password (Some line # rs) =
     (let pw = butlast (takeWhile (\<lambda>c. c \<noteq> 0) line) in if pw = [] then read_password rs else Some pw)"

datatype login_end = Reading | Crashed | Denied | Shell "bytes option"

definition login :: "bytes \<Rightarrow> bytes option list \<Rightarrow> (nat \<Rightarrow> bool) \<Rightarrow> bytes option \<Rightarrow> bytes option \<Rightarrow> login_end kernel" where
  "login name replies enough pwfile grfile =
     (case read_password replies of
        None \<Rightarrow> returnK Reading
      | Some password \<Rightarrow>
          (case fst (getpwnam name enough pwfile None) of
             Inl _ \<Rightarrow> returnK Crashed
           | Inr None \<Rightarrow> returnK Denied
           | Inr (Some pw) \<Rightarrow>
               (case pw_passwd pw of
                  None \<Rightarrow> returnK Crashed
                | Some hash \<Rightarrow>
                    if crypt password \<noteq> hash then returnK Denied
                    else
                      bindK (setgid (word_of_int (pw_gid pw))) (\<lambda>r.
                      if r \<noteq> 0 then returnK Denied
                      else
                        bindK (initgroups (the (pw_name pw)) (word_of_int (pw_gid pw)) (parse_group enough grfile)) (\<lambda>_.
                        bindK (setuid (word_of_int (pw_uid pw))) (\<lambda>r.
                        if r \<noteq> 0 then returnK Denied
                        else bindK (chdir (pw_dir pw)) (\<lambda>_. returnK (Shell (pw_shell pw)))))))))"

section \<open>Files that are well formed\<close>

definition field_ok :: "bytes \<Rightarrow> bool" where
  "field_ok f \<longleftrightarrow> 58 \<notin> set f \<and> 10 \<notin> set f \<and> 0 \<notin> set f"

fun file_line :: "bytes list \<Rightarrow> bytes" where
  "file_line [] = [10]"
| "file_line [f] = f @ [10]"
| "file_line (f # fs) = f @ 58 # file_line fs"

lemma field_scan:
  assumes "field_ok f" "c = 58 \<or> c = 10"
  shows "takeWhile (\<lambda>c. c \<noteq> 58 \<and> c \<noteq> 10) (f @ c # r) = f" "dropWhile (\<lambda>c. c \<noteq> 58 \<and> c \<noteq> 10) (f @ c # r) = c # r"
proof -
  have "\<And>x. x \<in> set f \<Longrightarrow> x \<noteq> 58 \<and> x \<noteq> 10" using assms(1) by (auto simp: field_ok_def)
  then show "takeWhile (\<lambda>c. c \<noteq> 58 \<and> c \<noteq> 10) (f @ c # r) = f" "dropWhile (\<lambda>c. c \<noteq> 58 \<and> c \<noteq> 10) (f @ c # r) = c # r"
    using assms(2) by (auto simp: takeWhile_append2 dropWhile_append2)
qed

lemma take_fields_line:
  "\<forall>f\<in>set fs. field_ok f \<Longrightarrow> fs \<noteq> [] \<Longrightarrow> length fs \<le> n \<Longrightarrow> take_fields n (file_line fs @ rest) = (fs, Some rest)"
proof (induction fs arbitrary: n rule: file_line.induct)
  case (2 f)
  then show ?case by (cases n) (simp_all add: field_scan)
next
  case (3 f g fs)
  then show ?case by (cases n) (simp_all add: field_scan)
qed simp

lemma count_entries_line: "10 \<notin> set l \<Longrightarrow> count_entries (l @ 10 # rest) = Suc (count_entries rest)"
  by (induction l) auto

lemma file_line_shape: "\<forall>f\<in>set fs. field_ok f \<Longrightarrow> \<exists>l. file_line fs = l @ [10] \<and> 10 \<notin> set l \<and> 0 \<notin> set l"
proof (induction fs rule: file_line.induct)
  case (3 f g fs)
  then obtain l where "file_line (g # fs) = l @ [10]" "10 \<notin> set l" "0 \<notin> set l" by auto
  then show ?case using 3(2) by (intro exI [of _ "f @ 58 # l"]) (auto simp: field_ok_def)
qed (auto simp: field_ok_def)

lemma file_lines_shape:
  assumes "\<forall>fs\<in>set lss. \<forall>f\<in>set fs. field_ok f"
  shows "count_entries (concat (map file_line lss)) = length lss \<and> 0 \<notin> set (concat (map file_line lss))"
  using assms
proof (induction lss)
  case (Cons fs lss)
  then obtain l where "file_line fs = l @ [10]" "10 \<notin> set l" "0 \<notin> set l" using file_line_shape [of fs] by auto
  then show ?case using Cons by (simp add: count_entries_line)
qed simp

lemma parse_entries_lines:
  assumes "\<forall>fs\<in>set lss. fs \<noteq> [] \<and> length fs \<le> n \<and> (\<forall>f\<in>set fs. field_ok f)" "list_all2 (\<lambda>fs e. mk fs = Some e) lss es"
  shows "parse_entries n mk (length lss) (Some (concat (map file_line lss))) = Some es"
  using assms(2,1)
proof (induction rule: list_all2_induct)
  case (Cons fs lss e es)
  then show ?case using take_fields_line [of fs n "concat (map file_line lss)"] by simp
qed simp

lemma parse_file_lines:
  assumes "\<forall>fs\<in>set lss. fs \<noteq> [] \<and> length fs \<le> n \<and> (\<forall>f\<in>set fs. field_ok f)" "list_all2 (\<lambda>fs e. mk fs = Some e) lss es" "lss \<noteq> []"
  shows "parse_file n sz mk (\<lambda>_. True) (Some (concat (map file_line lss))) = Loaded es"
proof -
  let ?t = "concat (map file_line lss)"
  have t: "count_entries ?t = length lss" "0 \<notin> set ?t" using file_lines_shape [of lss] assms(1) by auto
  have w: "takeWhile (\<lambda>c. c \<noteq> 0) ?t = ?t" using t(2) by (subst takeWhile_eq_all_conv) auto
  have "?t \<noteq> []" using t(1) assms(3) by fastforce
  then show ?thesis
    unfolding parse_file_def option.case Let_def w t(1) using parse_entries_lines [OF assms(1,2)] by simp
qed

text \<open>Numbers in the files are decimal.\<close>

definition dec :: "int \<Rightarrow> bytes" where
  "dec x = the (signed_text 0 0 (word_of_int x))"

lemma dec_text:
  assumes "- (2 ^ 31) \<le> x" "x < 2 ^ 31"
  shows "atoi (dec x) = x" "field_ok (dec x)"
proof -
  obtain out where out: "signed_text 0 0 (word_of_int x) = Some out"
    by (cases "sint (word_of_int x :: u32) < 0") (auto simp: signed_text_def number_text_some)
  have "sint (word_of_int x :: u32) = x" using assms by (simp add: sint_sbintrunc' signed_take_bit_int_eq_self)
  then show "atoi (dec x) = x" using atoi_signed_text [OF out] by (simp add: dec_def out)
  have d: "58 \<notin> set (digits False 10 n)" "10 \<notin> set (digits False 10 n)" "0 \<notin> set (digits False 10 n)" for n
    using digits_are_digits [of 58 n] digits_are_digits [of 10 n] digits_are_digits [of 0 n] by (auto simp: isdigit_def)
  show "field_ok (dec x)"
    using out d unfolding dec_def field_ok_def
    by (auto simp: signed_text_def number_text_some split: if_splits)
qed

definition pw_fields :: "passwd \<Rightarrow> bytes list" where
  "pw_fields pw = [the (pw_name pw), the (pw_passwd pw), dec (pw_uid pw), dec (pw_gid pw), the (pw_gecos pw), the (pw_dir pw), the (pw_shell pw)]"

definition some_field :: "bytes option \<Rightarrow> bool" where
  "some_field f \<longleftrightarrow> (\<exists>t. f = Some t \<and> field_ok t)"

definition int32 :: "int \<Rightarrow> bool" where
  "int32 x \<longleftrightarrow> - (2 ^ 31) \<le> x \<and> x < 2 ^ 31"

definition pw_ok :: "passwd \<Rightarrow> bool" where
  "pw_ok pw \<longleftrightarrow> some_field (pw_name pw) \<and> some_field (pw_passwd pw) \<and> int32 (pw_uid pw) \<and> int32 (pw_gid pw)
     \<and> some_field (pw_gecos pw) \<and> some_field (pw_dir pw) \<and> some_field (pw_shell pw)"

lemma mk_passwd_fields:
  assumes "pw_ok pw"
  shows "mk_passwd (pw_fields pw) = Some pw" "\<forall>f\<in>set (pw_fields pw). field_ok f"
  using assms dec_text by (auto simp: pw_ok_def some_field_def int32_def mk_passwd_def pw_fields_def field_def intro!: passwd.equality)

text \<open>The contents of the password file for a list of users.\<close>

definition passwd_file :: "passwd list \<Rightarrow> bytes" where
  "passwd_file pws = concat (map (\<lambda>pw. file_line (pw_fields pw)) pws)"

lemma parsepwd_file:
  assumes "\<forall>pw\<in>set pws. pw_ok pw" "pws \<noteq> []"
  shows "parsepwd (\<lambda>_. True) (Some (passwd_file pws)) = Loaded pws"
proof -
  have "list_all2 (\<lambda>fs e. mk_passwd fs = Some e) (map pw_fields pws) pws"
    using assms(1) mk_passwd_fields by (auto simp: list_all2_conv_all_nth)
  then show ?thesis
    using parse_file_lines [of "map pw_fields pws" 7 mk_passwd pws 28] assms mk_passwd_fields(2)
    by (auto simp: parsepwd_def passwd_file_def comp_def) (simp_all add: pw_fields_def)
qed

fun commas :: "bytes list \<Rightarrow> bytes" where
  "commas [] = []"
| "commas [m] = m"
| "commas (m # ms) = m @ 44 # commas ms"

definition mem_ok :: "bytes \<Rightarrow> bool" where
  "mem_ok m \<longleftrightarrow> m \<noteq> [] \<and> 44 \<notin> set m \<and> field_ok m"

lemma members_commas: "\<forall>m\<in>set ms. mem_ok m \<Longrightarrow> length ms \<le> n \<Longrightarrow> members n (commas ms) = ms"
proof (induction ms arbitrary: n rule: commas.induct)
  case (2 m)
  then have "\<forall>c\<in>set m. c \<noteq> 44" by (auto simp: mem_ok_def)
  then have s: "takeWhile (\<lambda>c. c \<noteq> 44) m = m" "dropWhile (\<lambda>c. c \<noteq> 44) m = []"
    by (simp_all only: takeWhile_eq_all_conv dropWhile_eq_Nil_conv)
  obtain k where n: "n = Suc k" using 2(2) by (cases n) auto
  have "m \<noteq> []" using 2(1) by (simp add: mem_ok_def)
  then show ?case unfolding n commas.simps members.simps s by (cases k) simp_all
next
  case (3 m k ms)
  then have "\<forall>c\<in>set m. c \<noteq> 44" by (auto simp: mem_ok_def)
  then have "takeWhile (\<lambda>c. c \<noteq> 44) (m @ 44 # commas (k # ms)) = m" "dropWhile (\<lambda>c. c \<noteq> 44) (m @ 44 # commas (k # ms)) = 44 # commas (k # ms)"
    by (simp_all add: takeWhile_append2 dropWhile_append2)
  then show ?case using 3 by (cases n) auto
next
  case 1
  then show ?case by (cases n) auto
qed

definition gr_fields :: "group \<Rightarrow> bytes list" where
  "gr_fields gr = [the (gr_name gr), the (gr_passwd gr), dec (uint (gr_gid gr)), commas (gr_mem gr)]"

definition gr_ok :: "group \<Rightarrow> bool" where
  "gr_ok gr \<longleftrightarrow> some_field (gr_name gr) \<and> some_field (gr_passwd gr) \<and> length (gr_mem gr) \<le> NGROUPMEMB
     \<and> distinct (gr_mem gr) \<and> (\<forall>m\<in>set (gr_mem gr). mem_ok m)"

lemma commas_ok: "\<forall>m\<in>set ms. mem_ok m \<Longrightarrow> field_ok (commas ms)"
  by (induction ms rule: commas.induct) (auto simp: mem_ok_def field_ok_def)

lemma mk_group_fields:
  assumes "gr_ok gr"
  shows "mk_group (gr_fields gr) = Some gr" "\<forall>f\<in>set (gr_fields gr). field_ok f"
proof -
  have "uint (gr_gid gr) < 2 ^ 16" "0 \<le> uint (gr_gid gr)" using uint_lt2p [of "gr_gid gr"] by simp_all
  then have "- (2 ^ 31) \<le> uint (gr_gid gr) \<and> uint (gr_gid gr) < 2 ^ 31" by (auto intro: order.trans [of _ 0])
  note d = dec_text [OF conjunct1 [OF this] conjunct2 [OF this]]
  show "mk_group (gr_fields gr) = Some gr" "\<forall>f\<in>set (gr_fields gr). field_ok f"
    using assms d members_commas [of "gr_mem gr" 16] commas_ok [of "gr_mem gr"]
    by (auto simp: gr_ok_def some_field_def mk_group_def gr_fields_def field_def intro!: group.equality)
qed

definition group_file :: "group list \<Rightarrow> bytes" where
  "group_file grs = concat (map (\<lambda>gr. file_line (gr_fields gr)) grs)"

lemma parse_group_file:
  assumes "\<forall>gr\<in>set grs. gr_ok gr" "grs \<noteq> []"
  shows "parse_group (\<lambda>_. True) (Some (group_file grs)) = Loaded grs"
proof -
  have "list_all2 (\<lambda>fs e. mk_group fs = Some e) (map gr_fields grs) grs"
    using assms(1) mk_group_fields by (auto simp: list_all2_conv_all_nth)
  then show ?thesis
    using parse_file_lines [of "map gr_fields grs" 4 mk_group grs 76] assms mk_group_fields(2)
    by (auto simp: parse_group_def group_file_def comp_def) (simp_all add: gr_fields_def)
qed

text \<open>
  What is written in the format of the password file is read back: the table that \<open>parsepwd\<close> builds has
  exactly the users of the file, and the lookups return the first user with the name or the number.
\<close>

theorem passwd_roundtrip:
  assumes "\<forall>pw\<in>set pws. pw_ok pw" "pws \<noteq> []"
  shows "parsepwd (\<lambda>_. True) (Some (passwd_file pws)) = Loaded pws
    \<and> getpwnam name (\<lambda>_. True) (Some (passwd_file pws)) None = (Inr (find (\<lambda>pw. pw_name pw = Some name) pws), Some pws)
    \<and> getpwuid uid (\<lambda>_. True) (Some (passwd_file pws)) None = (Inr (find (\<lambda>pw. pw_uid pw = uid) pws), Some pws)"
  using parsepwd_file [OF assms] by (simp add: getpwnam_def getpwuid_def lookup_def)

section \<open>What a login gives\<close>

lemma member_loop_groups:
  assumes "distinct ms" "length gs < NGROUPS"
  shows "member_loop name gid ms gs = (name \<in> set ms \<and> length gs + 1 = NGROUPS, if name \<in> set ms then gs @ [gid] else gs)"
proof -
  have "member_loop name gid ms gs' = (False, gs')" if "name \<notin> set ms" for gs' ms using that by (induction ms) auto
  then show ?thesis using assms by (induction ms) (auto simp: Let_def)
qed

lemma group_loop_groups:
  assumes "\<forall>gr\<in>set grs. distinct (gr_mem gr)" "length gs < NGROUPS"
  shows "group_loop name grs gs = take NGROUPS (gs @ map gr_gid (filter (\<lambda>gr. name \<in> set (gr_mem gr)) grs))"
  using assms
proof (induction grs arbitrary: gs)
  case (Cons gr grs)
  then show ?case by (auto simp: member_loop_groups take_Cons')
qed simp

definition groups_of :: "bytes \<Rightarrow> u16 \<Rightarrow> group list \<Rightarrow> u16 list" where
  "groups_of name basegid grs = take NGROUPS (basegid # map gr_gid (filter (\<lambda>gr. name \<in> set (gr_mem gr)) grs))"

lemma initgroups_sets:
  assumes "\<forall>gr\<in>set grs. gr_ok gr" "grs \<noteq> []"
    and "cur_proc s = Some c" "c < length (procs s)" "p_uid (procs s ! c) = 0"
  shows "initgroups name basegid (parse_group (\<lambda>_. True) (Some (group_file grs))) s =
    Ok 0 (upd_proc c (\<lambda>p. p\<lparr>p_groups := overwrite (p_groups p) 0 (groups_of name basegid grs), p_ngroups := int (length (groups_of name basegid grs))\<rparr>) s)"
proof -
  have "group_loop name grs [basegid] = groups_of name basegid grs"
    using group_loop_groups [of grs "[basegid]" name] assms(1) by (simp add: groups_of_def gr_ok_def)
  moreover have "groups_of name basegid grs \<noteq> []" "length (groups_of name basegid grs) \<le> NGROUPS" by (simp_all add: groups_of_def)
  ultimately show ?thesis
    using assms(3-5) parse_group_file [OF assms(1,2)]
    by (simp add: initgroups_def getgrouplist_def sys_setgroups_def kern_simps upd_proc_def)
qed


text \<open>The user \<open>a\<close> with number 100 and the password \<open>x\<close>, in the group 10 and a member of group 0.\<close>

definition user_a :: passwd where
  "user_a = \<lparr>pw_name = Some [97], pw_passwd = Some (crypt [120]), pw_uid = 100, pw_gid = 10, pw_gecos = Some [],
     pw_dir = Some [], pw_shell = Some [115, 104]\<rparr>"

definition group_w :: group where
  "group_w = \<lparr>gr_name = Some [119], gr_passwd = Some [], gr_gid = 0, gr_mem = [[97]]\<rparr>"

lemma b64_table_list: "b64_table = [46, 47, 48, 49, 50, 51, 52, 53, 54, 55, 56, 57, 65, 66, 67, 68, 69, 70, 71, 72, 73, 74, 75, 76, 77, 78, 79,
  80, 81, 82, 83, 84, 85, 86, 87, 88, 89, 90, 97, 98, 99, 100, 101, 102, 103, 104, 105, 106, 107, 108, 109, 110, 111, 112, 113, 114, 115,
  116, 117, 118, 119, 120, 121, 122]"
  by (simp add: b64_table_def upt_rec)

lemma hash_text_ok: "field_ok (hash_text n h)"
proof (induction n h rule: hash_text.induct)
  case (2 n h)
  have "unat (h AND 63) \<le> 63" using word_and_le1 [of h 63] by (simp add: word_le_nat_alt)
  then have "unat (h AND 63) < length b64_table" by (simp add: b64_table_list)
  then have "b64_table ! unat (h AND 63) \<in> set b64_table" by (rule nth_mem)
  moreover have "c \<noteq> 58 \<and> c \<noteq> 10 \<and> c \<noteq> 0" if "c \<in> set b64_table" for c using that by (auto simp: b64_table_list)
  ultimately show ?case using 2 by (fastforce simp: field_ok_def)
qed (simp add: field_ok_def)

lemma user_a_ok: "pw_ok user_a" "gr_ok group_w"
  using hash_text_ok
  by (simp_all add: user_a_def group_w_def pw_ok_def gr_ok_def some_field_def mem_ok_def int32_def crypt_def) (simp_all add: field_ok_def)

theorem passwd_witness: "fst (getpwuid 100 (\<lambda>_. True) (Some (passwd_file [user_a])) None) = Inr (Some user_a)"
  using passwd_roundtrip [of "[user_a]" "[97]" 100] user_a_ok(1) by (simp add: user_a_def)

definition login_state :: kstate where
  "login_state = two_procs\<lparr>procs := (procs two_procs)[0 := (procs two_procs ! 0)\<lparr>p_cwd := Some 0\<rparr>],
     inodes := [zero_inode\<lparr>i_mode := S_IFDIR OR 0x1ED, i_refcount := 1, i_nlinks := 2\<rparr>]\<rparr>"

lemma login_state_simps [simp]:
  "cur_proc login_state = Some 0" "length (procs login_state) = 8"
  "procs login_state ! 0 = (zero_proc zero_frame)\<lparr>p_state := STATE_RUNNING, p_pid := 1, p_cwd := Some 0\<rparr>"
  "inodes login_state = [zero_inode\<lparr>i_mode := S_IFDIR OR 0x1ED, i_refcount := 1, i_nlinks := 2\<rparr>]"
  by (simp_all add: login_state_def)

lemma login_state_home:
  assumes "p_cwd (f (procs login_state ! 0)) = Some 0" "p_uid (f (procs login_state ! 0)) = 100" "p_gid (f (procs login_state ! 0)) = 10"
  shows "chdir (Some []) (upd_proc 0 f login_state) = Ok 0 (upd_proc 0 (\<lambda>p. p\<lparr>p_cwd := Some 0\<rparr>) (upd_proc 0 f login_state))"
  using assms
  by (simp add: chdir_def namei_def nameicore_def walk.simps access_def idup_def iput_def with_cur_def
      bindK_def thenK_def whenK_def modifyK_def getK_def returnK_def upd_proc_def upd_inode_def zero_inode_def)


end
