(* ===== verification/Environ.thy ===== *)
theory Environ
  imports Printf
begin

text \<open>
  The environment of a process, \<open>lib/libc/environ.c\<close>, and the search for a command in it, \<open>execvp\<close> of
  \<open>lib/libc/exec.c\<close>.  The vector \<open>environ\<close> is the list of its strings.  What \<open>malloc\<close> returns for a size is a field
  of the state: nothing, or the bytes that happen to be in the block.  The texts of new variables and of
  paths are made by \<open>snprintf\<close>, and a store outside their arrays has no value.  Strings of the old
  environment that are given back to the allocator are not used again and are left out.
\<close>

section \<open>The vector\<close>

record env =
  environ :: "bytes list"
  fresh :: "nat \<Rightarrow> bytes option"
  sntmpf :: "FILE \<times> world"
  env_errno :: int

abbreviation (input) EINVAL :: int where "EINVAL \<equiv> 22"
abbreviation (input) ENOMEM :: int where "ENOMEM \<equiv> 12"
abbreviation (input) ENOENT :: int where "ENOENT \<equiv> 2"

text \<open>The tests that reject a name: a null pointer, an empty name and a name with \<open>=\<close>.\<close>

definition name_ok :: "bytes option \<Rightarrow> bool" where
  "name_ok name = (case name of None \<Rightarrow> False | Some n \<Rightarrow> n \<noteq> [] \<and> 61 \<notin> set n)"

text \<open>\<open>strncmp(name, *e, name_len) == 0 && e[0][name_len] == '='\<close>\<close>

definition is_var :: "bytes \<Rightarrow> bytes \<Rightarrow> bool" where
  "is_var name s \<longleftrightarrow> take (length name) s = name \<and> at0 (drop (length name) s) = 61"

definition getenv :: "bytes option \<Rightarrow> env \<Rightarrow> bytes option \<times> env" where
  "getenv name e =
     (if \<not> name_ok name then (None, e\<lparr>env_errno := EINVAL\<rparr>)
      else (case first_index (is_var (the name)) (environ e) of
              None \<Rightarrow> (None, e)
            | Some i \<Rightarrow> (Some (drop (length (the name) + 1) (environ e ! i)), e)))"

text \<open>\<open>malloc(total)\<close> and \<open>snprintf(new_var, total, "%s=%s", name, value)\<close>: the string in the new block.\<close>

definition new_var :: "bytes \<Rightarrow> bytes \<Rightarrow> env \<Rightarrow> (bytes option \<times> env) option" where
  "new_var name value e =
     (let tot = length name + length value + 2
      in case fresh e tot of
           None \<Rightarrow> Some (None, e\<lparr>env_errno := ENOMEM\<rparr>)
         | Some blk \<Rightarrow>
             (case snprintf blk (int tot) [37, 115, 61, 37, 115] [VStr (Some name), VStr (Some value)] (sntmpf e) of
                None \<Rightarrow> None
              | Some (ret, blk', sn) \<Rightarrow> Some (Some (takeWhile (\<lambda>c. c \<noteq> 0) blk'), e\<lparr>sntmpf := sn\<rparr>)))"

text \<open>
  \<open>setenv\<close>: a value that is not longer than the old one is copied over it; otherwise the variable gets a
  new string, or the vector a new element.  Giving the replaced string or the old vector back with \<open>free\<close>, when
  it lies on the heap, is not part of the model, here and in \<open>unsetenv\<close>: the strings are values and never
  change by an allocation.
\<close>

definition setenv :: "bytes option \<Rightarrow> bytes option \<Rightarrow> bool \<Rightarrow> env \<Rightarrow> (int \<times> env) option" where
  "setenv name val ovr e =
     (if \<not> name_ok name \<or> val = None then Some (-1, e\<lparr>env_errno := EINVAL\<rparr>)
      else
        (let n = the name; v = the val
         in case first_index (is_var n) (environ e) of
              Some i \<Rightarrow>
                if \<not> ovr then Some (0, e)
                else
                  (let old = drop (length n + 1) (environ e ! i)
                   in if length v \<le> length old then
                        Some (0, e\<lparr>environ := (environ e)[i := take (length n + 1) (environ e ! i) @ v]\<rparr>)
                      else
                        (case new_var n v e of
                           None \<Rightarrow> None
                         | Some (None, e1) \<Rightarrow> Some (-1, e1)
                         | Some (Some s, e1) \<Rightarrow> Some (0, e1\<lparr>environ := (environ e1)[i := s]\<rparr>)))
            | None \<Rightarrow>
                (if fresh e ((length (environ e) + 2) * 4) = None then Some (-1, e\<lparr>env_errno := ENOMEM\<rparr>)
                 else
                   (case new_var n v e of
                      None \<Rightarrow> None
                    | Some (None, e1) \<Rightarrow> Some (-1, e1)
                    | Some (Some s, e1) \<Rightarrow> Some (0, e1\<lparr>environ := environ e1 @ [s]\<rparr>)))))"

definition unsetenv :: "bytes option \<Rightarrow> env \<Rightarrow> int \<times> env" where
  "unsetenv name e =
     (if \<not> name_ok name then (-1, e\<lparr>env_errno := EINVAL\<rparr>)
      else (case first_index (is_var (the name)) (environ e) of
              None \<Rightarrow> (0, e)
            | Some i \<Rightarrow> (0, e\<lparr>environ := take i (environ e) @ drop (Suc i) (environ e)\<rparr>)))"

section \<open>The environment as a map\<close>

text \<open>Strings that the C library can print: no terminator inside and no byte from \<open>0x80\<close> on.\<close>

definition printable :: "bytes \<Rightarrow> bool" where
  "printable s \<longleftrightarrow> (\<forall>c\<in>set s. 0 < sint c)"

definition var_name :: "bytes \<Rightarrow> bool" where
  "var_name n \<longleftrightarrow> n \<noteq> [] \<and> 61 \<notin> set n \<and> printable n"

text \<open>The strings are variables with their values, and no variable is there twice.\<close>

abbreviation (input) entries :: "(bytes \<times> bytes) list \<Rightarrow> bytes list" where
  "entries nvs \<equiv> map (\<lambda>(n, v). n @ 61 # v) nvs"

definition holds :: "env \<Rightarrow> (bytes \<times> bytes) list \<Rightarrow> bool" where
  "holds e nvs \<longleftrightarrow> environ e = entries nvs \<and> distinct (map fst nvs) \<and> (\<forall>(n, v)\<in>set nvs. 61 \<notin> set n)"

lemma is_var_entry: "61 \<notin> set m \<Longrightarrow> 61 \<notin> set n \<Longrightarrow> is_var m (n @ 61 # v) \<longleftrightarrow> m = n"
proof (induction m arbitrary: n)
  case Nil
  then show ?case by (cases n) (auto simp: is_var_def)
next
  case (Cons a m)
  show ?case
  proof (cases n)
    case Nil
    then show ?thesis using Cons.prems by (auto simp: is_var_def)
  next
    case (Cons b n')
    then show ?thesis using Cons.IH [of n'] Cons.prems by (auto simp: is_var_def)
  qed
qed

lemma first_index_entry:
  assumes "61 \<notin> set m" "\<forall>(n, v)\<in>set nvs. 61 \<notin> set n"
  shows "first_index (is_var m) (map (\<lambda>(n, v). n @ 61 # v) nvs) = first_index (\<lambda>(n, v). n = m) nvs"
  using assms by (induction nvs) (auto simp: is_var_entry)

lemma first_index_map_of:
  "first_index (\<lambda>(n, v). n = m) nvs = Some i \<Longrightarrow> i < length nvs \<and> fst (nvs ! i) = m \<and> map_of nvs m = Some (snd (nvs ! i))"
  by (induction nvs arbitrary: i) (auto split: if_splits)

lemma first_index_map_of_None: "first_index (\<lambda>(n, v). n = m) nvs = None \<longleftrightarrow> map_of nvs m = None"
  by (induction nvs) auto

lemma map_of_update: "first_index (\<lambda>(m, v). m = n) nvs = Some i \<Longrightarrow> map_of (nvs[i := (n, v)]) = (map_of nvs)(n \<mapsto> v)"
  by (induction nvs arbitrary: i) (auto simp: fun_eq_iff split: if_splits)

lemma map_of_remove:
  assumes "distinct (map fst (xs @ (n, u) # ys))"
  shows "map_of (xs @ ys) = (map_of (xs @ (n, u) # ys))(n := None)"
proof -
  have "map_of xs n = None" "map_of ys n = None" using assms by (auto simp: map_of_eq_None_iff)
  then show ?thesis by (auto simp: fun_eq_iff map_add_def split: option.splits)
qed

lemma printableD: "printable s \<Longrightarrow> c \<in> set s \<Longrightarrow> 0 \<le> sint c \<and> c \<noteq> 0"
  by (auto simp: printable_def)

lemma render_pair:
  assumes "printable a" "printable b" "sep \<noteq> 37"
  shows "render [37, 115, sep, 37, 115] [VStr (Some a), VStr (Some b)] = Some (a @ sep # b)"
proof -
  have t: "string_text 0 (Some s) = Some s" if "printable s" for s
    using printableD [OF that] by (simp add: string_text_def)
  show ?thesis
    using assms(3)
    by (simp add: render.simps [of "[37, 115, sep, 37, 115]"] render.simps [of "[sep, 37, 115]"] render.simps [of "[37, 115]"]
        render.simps [of "[]"] conv_spec_def is_width_def conv_text_def t [OF assms(1)] t [OF assms(2)])
qed

text \<open>Two strings printed with a character between them.\<close>

lemma snprintf_pair:
  assumes "printable a" "printable b" "sep \<noteq> 37" "sep \<noteq> 0" "length a + length b + 1 < n" "n \<le> length buf"
  shows "\<exists>ret buf' sn'. snprintf buf (int n) [37, 115, sep, 37, 115] [VStr (Some a), VStr (Some b)] sn = Some (ret, buf', sn')
    \<and> takeWhile (\<lambda>c. c \<noteq> 0) buf' = a @ sep # b"
proof -
  let ?t = "a @ sep # b"
  obtain f w where s: "snprintf buf (int n) [37, 115, sep, 37, 115] [VStr (Some a), VStr (Some b)] sn
      = Some (int (length ?t), ?t @ 0 # drop (Suc (length ?t)) buf, f, w)"
    using snprintf_correct [OF render_pair [OF assms(1-3)], of "int n" buf sn] assms(5,6) by auto
  have "c \<noteq> 0" if "c \<in> set ?t" for c using that printableD [OF assms(1)] printableD [OF assms(2)] assms(4) by auto
  then have "takeWhile (\<lambda>c. c \<noteq> 0) (?t @ 0 # drop (Suc (length ?t)) buf) = ?t" by (subst takeWhile_append2) auto
  then show ?thesis using s by auto
qed

lemma new_var_text:
  assumes "printable n" "printable v" "fresh e (length n + length v + 2) = Some blk" "length blk = length n + length v + 2"
  shows "\<exists>sn. new_var n v e = Some (Some (n @ 61 # v), e\<lparr>sntmpf := sn\<rparr>)"
  using snprintf_pair [OF assms(1,2), of 61 "length n + length v + 2" blk "sntmpf e"] assms(3,4)
  by (auto simp: new_var_def) blast

text \<open>Enough memory: \<open>malloc\<close> gives a block of the size asked for.\<close>

definition has_memory :: "env \<Rightarrow> bool" where
  "has_memory e \<longleftrightarrow> (\<forall>n. \<exists>blk. fresh e n = Some blk \<and> length blk = n)"

lemma setenv_entries:
  assumes "holds e nvs" "var_name n" "printable v" "has_memory e"
  shows "\<exists>e' nvs'. setenv (Some n) (Some v) ovr e = Some (0, e') \<and> holds e' nvs' \<and> fresh e' = fresh e
    \<and> map_of nvs' = (if ovr \<or> map_of nvs n = None then (map_of nvs)(n \<mapsto> v) else map_of nvs)"
proof -
  have E: "environ e = entries nvs" "distinct (map fst nvs)" "\<forall>(n, v)\<in>set nvs. 61 \<notin> set n" using assms(1) by (auto simp: holds_def)
  have n: "n \<noteq> []" "61 \<notin> set n" "printable n" using assms(2) by (auto simp: var_name_def)
  have ok: "name_ok (Some n)" using n by (simp add: name_ok_def)
  obtain blk where "fresh e (length n + length v + 2) = Some blk" "length blk = length n + length v + 2"
    using assms(4) unfolding has_memory_def by blast
  from new_var_text [OF n(3) assms(3) this] obtain sn where nv: "new_var n v e = Some (Some (n @ 61 # v), e\<lparr>sntmpf := sn\<rparr>)" by blast
  have mem: "fresh e k \<noteq> None" for k using assms(4) unfolding has_memory_def by (metis option.distinct(1))
  have fi: "first_index (is_var n) (environ e) = first_index (\<lambda>(m, v). m = n) nvs"
    using first_index_entry [OF n(2) E(3)] E(1) by simp
  show ?thesis
  proof (cases "first_index (\<lambda>(m, v). m = n) nvs")
    case None
    define e' where "e' = (e\<lparr>sntmpf := sn\<rparr>)\<lparr>environ := environ e @ [n @ 61 # v]\<rparr>"
    have new: "map_of nvs n = None" using None by (simp add: first_index_map_of_None)
    then have "n \<notin> fst ` set nvs" by (simp add: map_of_eq_None_iff)
    then have "holds e' (nvs @ [(n, v)])" using E n(2) by (auto simp: holds_def e'_def)
    moreover have "map_of (nvs @ [(n, v)]) = (map_of nvs)(n \<mapsto> v)" using new by (auto simp: map_add_def fun_eq_iff split: option.splits)
    moreover have "setenv (Some n) (Some v) ovr e = Some (0, e')"
      using ok None fi nv mem [of "(length (environ e) + 2) * 4"] by (simp add: setenv_def Let_def e'_def)
    ultimately show ?thesis using new by (intro exI [of _ e'] exI [of _ "nvs @ [(n, v)]"]) (simp add: e'_def)
  next
    case (Some i)
    note F = first_index_map_of [OF Some]
    define u where "u = snd (nvs ! i)"
    have i: "i < length nvs" "nvs ! i = (n, u)" "map_of nvs n = Some u" using F by (auto simp: u_def prod_eq_iff)
    then have ei: "environ e ! i = n @ 61 # u" using E(1) by simp
    define nvs' where "nvs' = nvs[i := (n, v)]"
    have ent: "entries nvs' = (environ e)[i := n @ 61 # v]" using E(1) by (simp add: nvs'_def map_update)
    have "map fst nvs' = map fst nvs" using i by (simp add: nvs'_def map_update) (metis fst_conv length_map list_update_id nth_map)
    then have d: "distinct (map fst nvs')" "fst ` set nvs' = fst ` set nvs" using E(2) by (simp_all flip: set_map)
    have eq: "61 \<notin> set m" if "(m, w) \<in> set nvs'" for m w
    proof -
      have "m \<in> fst ` set nvs" unfolding d(2) [symmetric] using that by force
      then show ?thesis using E(3) by auto
    qed
    have mo: "map_of nvs' = (map_of nvs)(n \<mapsto> v)" using map_of_update [OF Some] by (simp add: nvs'_def)
    define e' where "e' = (if length v \<le> length u then e else e\<lparr>sntmpf := sn\<rparr>)\<lparr>environ := entries nvs'\<rparr>"
    have "holds e' nvs'" "fresh e' = fresh e" using d(1) eq by (auto simp: holds_def e'_def)
    moreover have "setenv (Some n) (Some v) True e = Some (0, e')"
      using ok Some fi nv ei by (simp add: setenv_def Let_def e'_def ent)
    moreover have "setenv (Some n) (Some v) False e = Some (0, e)" using ok Some fi by (simp add: setenv_def Let_def)
    ultimately show ?thesis
      using mo i(3) assms(1) by (cases ovr) (simp_all, blast+)
  qed
qed

lemma unsetenv_entries:
  assumes "holds e nvs" "var_name n"
  shows "\<exists>e' nvs'. unsetenv (Some n) e = (0, e') \<and> holds e' nvs' \<and> fresh e' = fresh e \<and> map_of nvs' = (map_of nvs)(n := None)"
proof -
  have E: "environ e = entries nvs" "distinct (map fst nvs)" "\<forall>(n, v)\<in>set nvs. 61 \<notin> set n" using assms(1) by (auto simp: holds_def)
  have n: "61 \<notin> set n" "name_ok (Some n)" using assms(2) by (auto simp: var_name_def name_ok_def)
  have fi: "first_index (is_var n) (environ e) = first_index (\<lambda>(m, v). m = n) nvs"
    using first_index_entry [OF n(1) E(3)] E(1) by simp
  show ?thesis
  proof (cases "first_index (\<lambda>(m, v). m = n) nvs")
    case None
    then have "map_of nvs = (map_of nvs)(n := None)" by (auto simp: first_index_map_of_None)
    then show ?thesis using None fi n assms(1) by (intro exI [of _ e] exI [of _ nvs]) (simp add: unsetenv_def)
  next
    case (Some i)
    note F = first_index_map_of [OF Some]
    define xs ys where "xs = take i nvs" and "ys = drop (Suc i) nvs"
    have nvs: "nvs = xs @ (n, snd (nvs ! i)) # ys" using F id_take_nth_drop [of i nvs] by (auto simp: xs_def ys_def prod_eq_iff)
    define e' where "e' = e\<lparr>environ := entries (xs @ ys)\<rparr>"
    have "unsetenv (Some n) e = (0, e')"
      using Some fi n E(1) by (simp add: unsetenv_def e'_def xs_def ys_def take_map drop_map)
    moreover have "map_of (xs @ ys) = (map_of nvs)(n := None)"
      using map_of_remove [of xs n "snd (nvs ! i)" ys] E(2) nvs by simp
    moreover have "holds e' (xs @ ys)"
    proof -
      have "set (xs @ ys) \<subseteq> set nvs" by (auto simp: xs_def ys_def dest: in_set_takeD in_set_dropD)
      moreover have "distinct (map fst (xs @ ys))" using E(2) by (subst (asm) nvs) simp
      ultimately show ?thesis using E(3) by (auto simp: holds_def e'_def)
    qed
    ultimately show ?thesis by (intro exI [of _ e'] exI [of _ "xs @ ys"]) (simp add: e'_def)
  qed
qed

lemma getenv_entries:
  assumes "holds e nvs" "var_name n"
  shows "getenv (Some n) e = (map_of nvs n, e)"
proof -
  have E: "environ e = entries nvs" "\<forall>(n, v)\<in>set nvs. 61 \<notin> set n" using assms(1) by (auto simp: holds_def)
  have n: "61 \<notin> set n" "name_ok (Some n)" using assms(2) by (auto simp: var_name_def name_ok_def)
  have fi: "first_index (is_var n) (environ e) = first_index (\<lambda>(m, v). m = n) nvs"
    using first_index_entry [OF n(1) E(2)] E(1) by simp
  show ?thesis
  proof (cases "first_index (\<lambda>(m, v). m = n) nvs")
    case None
    then have "map_of nvs n = None" by (simp add: first_index_map_of_None)
    then show ?thesis using None fi n by (simp add: getenv_def)
  next
    case (Some i)
    then show ?thesis using fi n first_index_map_of [OF Some] E(1) by (auto simp: getenv_def split: prod.splits)
  qed
qed

text \<open>A program that changes its environment, and what it does to a map from names to values.\<close>

datatype env_op = Setenv bytes bytes bool | Unsetenv bytes

fun env_op_ok :: "env_op \<Rightarrow> bool" where
  "env_op_ok (Setenv n v ovr) = (var_name n \<and> printable v)"
| "env_op_ok (Unsetenv n) = var_name n"

fun do_ops :: "env_op list \<Rightarrow> env \<Rightarrow> env option" where
  "do_ops [] e = Some e"
| "do_ops (Setenv n v ovr # ops) e =
     (case setenv (Some n) (Some v) ovr e of Some (r, e') \<Rightarrow> if r = 0 then do_ops ops e' else None | None \<Rightarrow> None)"
| "do_ops (Unsetenv n # ops) e = do_ops ops (snd (unsetenv (Some n) e))"

fun map_ops :: "env_op list \<Rightarrow> (bytes \<rightharpoonup> bytes) \<Rightarrow> bytes \<rightharpoonup> bytes" where
  "map_ops [] m = m"
| "map_ops (Setenv n v ovr # ops) m = map_ops ops (if ovr \<or> m n = None then m(n \<mapsto> v) else m)"
| "map_ops (Unsetenv n # ops) m = map_ops ops (m(n := None))"

lemma do_ops_map:
  assumes "holds e nvs" "has_memory e" "\<forall>op\<in>set ops. env_op_ok op"
  shows "\<exists>e' nvs'. do_ops ops e = Some e' \<and> holds e' nvs' \<and> map_of nvs' = map_ops ops (map_of nvs)"
  using assms
proof (induction ops arbitrary: e nvs)
  case Nil
  then show ?case by auto
next
  case (Cons op ops)
  have mem: "has_memory e'" if "fresh e' = fresh e" for e' using Cons.prems(2) that by (simp add: has_memory_def)
  show ?case
  proof (cases op)
    case (Setenv n v ovr)
    then obtain e1 nvs1 where e1: "setenv (Some n) (Some v) ovr e = Some (0, e1)" "holds e1 nvs1" "fresh e1 = fresh e"
      "map_of nvs1 = (if ovr \<or> map_of nvs n = None then (map_of nvs)(n \<mapsto> v) else map_of nvs)"
      using setenv_entries [OF Cons.prems(1) _ _ Cons.prems(2), of n v ovr] Cons.prems(3) by auto
    show ?thesis using Cons.IH [OF e1(2) mem [OF e1(3)]] Cons.prems(3) e1 Setenv by simp
  next
    case (Unsetenv n)
    then obtain e1 nvs1 where e1: "unsetenv (Some n) e = (0, e1)" "holds e1 nvs1" "fresh e1 = fresh e" "map_of nvs1 = (map_of nvs)(n := None)"
      using unsetenv_entries [OF Cons.prems(1), of n] Cons.prems(3) by auto
    then have "do_ops (op # ops) e = do_ops ops e1" "map_ops (op # ops) (map_of nvs) = map_ops ops (map_of nvs1)"
      using Unsetenv by simp_all
    then show ?thesis using Cons.IH [OF e1(2) mem [OF e1(3)]] Cons.prems(3) by simp
  qed
qed

text \<open>
  C11: The environment is a map from names to values.  After any sequence of calls of \<open>setenv\<close> and \<open>unsetenv\<close> with
  names that are not empty and have no equals sign, and with all bytes of names and values below 0x80, as long as
  \<open>malloc\<close> succeeds, all calls succeed and \<open>getenv\<close> returns what the same changes of a map would
  return, whether values were replaced in place, moved to a longer string or added to the vector.  (A
  value with a byte from 0x80 on is cut there when it gets a new string, because \<open>snprintf\<close> prints it with \<open>fputs\<close>.)
\<close>

theorem environment_is_map:
  assumes "holds e nvs" "has_memory e" "\<forall>op\<in>set ops. env_op_ok op" "var_name n"
  shows "fst (getenv (Some n) e) = map_of nvs n
    \<and> (\<exists>e'. do_ops ops e = Some e' \<and> fst (getenv (Some n) e') = map_ops ops (map_of nvs) n)"
  using getenv_entries [OF assms(1,4)] do_ops_map [OF assms(1-3)] getenv_entries [OF _ assms(4)] by fastforce

definition small_env :: env where
  "small_env = \<lparr>environ = [[65, 61, 49]], fresh = (\<lambda>n. Some (replicate n 7)), sntmpf = zero_stream, env_errno = 0\<rparr>"

theorem environment_witness:
  "\<exists>e'. do_ops [Setenv [65] [50, 51] True, Setenv [66] [52] False, Unsetenv [66]] small_env = Some e'
    \<and> fst (getenv (Some [65]) e') = Some [50, 51]"
proof -
  have "holds small_env [([65], [49])]" by (simp add: holds_def small_env_def)
  moreover have "has_memory small_env" by (simp add: has_memory_def small_env_def)
  moreover have "\<forall>op\<in>set [Setenv [65] [50, 51] True, Setenv [66] [52] False, Unsetenv [66]]. env_op_ok op" "var_name [65]"
    by (simp_all add: var_name_def printable_def)
  ultimately show ?thesis using environment_is_map [of small_env "[([65], [49])]"] by fastforce
qed

section \<open>Finding a command\<close>

text \<open>
  \<open>execvp\<close>.  The system call is a function of the path that returns nothing when the program runs, and
  otherwise the error.  The result lists the paths that were tried.  While the parts of \<open>PATH\<close> are cut out, the
  string in the environment ends at the part; the early return leaves it so.
\<close>

datatype exec_result = Runs | Fails int

abbreviation (input) PATH_MAX :: nat where "PATH_MAX \<equiv> 256"

definition full_path :: "bytes \<Rightarrow> bytes \<Rightarrow> FILE \<times> world \<Rightarrow> (bytes \<times> FILE \<times> world) option" where
  "full_path dir path sn =
     (case snprintf (replicate PATH_MAX 0) (int PATH_MAX) [37, 115, 47, 37, 115] [VStr (Some dir), VStr (Some path)] sn of
        None \<Rightarrow> None
      | Some (ret, buf, sn') \<Rightarrow> Some (takeWhile (\<lambda>c. c \<noteq> 0) buf, sn'))"

lemma length_tl_dropWhile: "\<exists>c\<in>set s. \<not> P c \<Longrightarrow> length (dropWhile P s) - Suc 0 < length s"
  using length_dropWhile_le [of P s] by (cases s) auto

text \<open>The loop over \<open>PATH\<close>: \<open>pre\<close> is the part of the string before \<open>start\<close>.\<close>

function path_loop :: "(bytes \<Rightarrow> int option) \<Rightarrow> bytes \<Rightarrow> bytes \<Rightarrow> bytes \<Rightarrow> bytes list \<Rightarrow> FILE \<times> world
    \<Rightarrow> (exec_result option \<times> bytes list \<times> bytes \<times> FILE \<times> world) option" where
  "path_loop exec path pre start tried sn =
     (let dir = takeWhile (\<lambda>c. c \<noteq> 58) start; rest = dropWhile (\<lambda>c. c \<noteq> 58) start
      in case full_path dir path sn of
           None \<Rightarrow> None
         | Some (full, sn') \<Rightarrow>
             (case exec full of
                None \<Rightarrow> Some (Some Runs, tried @ [full], pre @ dir, sn')
              | Some err \<Rightarrow>
                  if err \<noteq> ENOENT then Some (Some (Fails (-1)), tried @ [full], pre @ dir, sn')
                  else if rest = [] then Some (None, tried @ [full], pre @ start, sn')
                  else path_loop exec path (pre @ dir @ [58]) (tl rest) (tried @ [full]) sn'))"
  by pat_completeness auto
termination
  by (relation "measure (\<lambda>(exec, path, pre, start, tried, sn). length start)")
    (auto simp: length_tl_dropWhile)

declare path_loop.simps [simp del]

fun environ_loop :: "(bytes \<Rightarrow> int option) \<Rightarrow> bytes \<Rightarrow> bytes list \<Rightarrow> bytes list \<Rightarrow> bytes list \<Rightarrow> FILE \<times> world
    \<Rightarrow> (exec_result \<times> bytes list \<times> bytes list \<times> FILE \<times> world) option" where
  "environ_loop exec path before [] tried sn = Some (Fails (- ENOENT), tried, before, sn)"
| "environ_loop exec path before (s # ss) tried sn =
     (if take 5 s = [80, 65, 84, 72, 61] then
        (case path_loop exec path (take 5 s) (drop 5 s) tried sn of
           None \<Rightarrow> None
         | Some (Some r, tried', s', sn') \<Rightarrow> Some (r, tried', before @ s' # ss, sn')
         | Some (None, tried', s', sn') \<Rightarrow> environ_loop exec path (before @ [s']) ss tried' sn')
      else environ_loop exec path (before @ [s]) ss tried sn)"

definition execvp :: "(bytes \<Rightarrow> int option) \<Rightarrow> bytes \<Rightarrow> env \<Rightarrow> (exec_result \<times> bytes list \<times> env) option" where
  "execvp exec path e =
     (if at0 path = 47 \<or> at0 path = 46 then Some (case exec path of None \<Rightarrow> Runs | Some err \<Rightarrow> Fails (-1), [path], e)
      else (case environ_loop exec path [] (environ e) [] (sntmpf e) of
              None \<Rightarrow> None
            | Some (r, tried, vs, sn) \<Rightarrow> Some (r, tried, e\<lparr>environ := vs, sntmpf := sn\<rparr>)))"

text \<open>\<open>PATH\<close> as the list of its directories.\<close>

fun join :: "bytes list \<Rightarrow> bytes" where
  "join [] = []"
| "join [d] = d"
| "join (d # ds) = d @ 58 # join ds"

lemma join_Cons: "ds \<noteq> [] \<Longrightarrow> join (d # ds) = d @ 58 # join ds"
  by (cases ds) auto

lemma join_parts:
  assumes "58 \<notin> set d"
  shows "takeWhile (\<lambda>c. c \<noteq> 58) (join (d # ds)) = d"
    and "dropWhile (\<lambda>c. c \<noteq> 58) (join (d # ds)) = (if ds = [] then [] else 58 # join ds)"
proof -
  have "c \<noteq> 58" if "c \<in> set d" for c using assms that by auto
  then show "takeWhile (\<lambda>c. c \<noteq> 58) (join (d # ds)) = d" "dropWhile (\<lambda>c. c \<noteq> 58) (join (d # ds)) = (if ds = [] then [] else 58 # join ds)"
    by (cases ds; simp add: takeWhile_append2 dropWhile_append2)+
qed

definition dir_ok :: "bytes \<Rightarrow> bytes \<Rightarrow> bool" where
  "dir_ok path d \<longleftrightarrow> 58 \<notin> set d \<and> printable d \<and> length d + length path + 1 < PATH_MAX"

lemma full_path_text:
  assumes "dir_ok path d" "printable path"
  shows "\<exists>sn'. full_path d path sn = Some (d @ 47 # path, sn')"
  using snprintf_pair [of d path 47 PATH_MAX "replicate PATH_MAX 0" sn] assms by (auto simp: full_path_def dir_ok_def)

text \<open>How many directories are searched: those without the program and the first that has it.\<close>

definition missing :: "(bytes \<Rightarrow> int option) \<Rightarrow> bytes \<Rightarrow> bytes list \<Rightarrow> nat" where
  "missing exec path dirs = length (takeWhile (\<lambda>d. exec (d @ 47 # path) = Some ENOENT) dirs)"

definition outcome_of :: "int option \<Rightarrow> exec_result" where
  "outcome_of r = (case r of None \<Rightarrow> Runs | Some err \<Rightarrow> Fails (-1))"

lemma path_loop_finds:
  assumes "dirs \<noteq> []" "\<forall>d\<in>set dirs. dir_ok path d" "printable path"
  shows "\<exists>sn'. path_loop exec path pre (join dirs) tried sn =
    (let k = missing exec path dirs
     in if k < length dirs then
          Some (Some (outcome_of (exec (dirs ! k @ 47 # path))), tried @ map (\<lambda>d. d @ 47 # path) (take (Suc k) dirs), pre @ join (take (Suc k) dirs), sn')
        else Some (None, tried @ map (\<lambda>d. d @ 47 # path) dirs, pre @ join dirs, sn'))"
  using assms(1,2)
proof (induction dirs arbitrary: pre tried sn)
  case (Cons d ds)
  have d: "dir_ok path d" "58 \<notin> set d" using Cons.prems(2) by (auto simp: dir_ok_def)
  obtain sn1 where f: "full_path d path sn = Some (d @ 47 # path, sn1)" using full_path_text [OF d(1) assms(3)] by blast
  note step = path_loop.simps [of exec path pre "join (d # ds)" tried sn, unfolded join_parts [OF d(2)] Let_def, simplified f, simplified]
  show ?case
  proof (cases "exec (d @ 47 # path) = Some ENOENT")
    case False
    then show ?thesis using step by (auto simp: missing_def outcome_of_def split: option.splits)
  next
    case True
    show ?thesis
    proof (cases "ds = []")
      case True
      then show ?thesis using step \<open>exec (d @ 47 # path) = Some ENOENT\<close> by (simp add: missing_def)
    next
      case False
      obtain sn2 where "path_loop exec path (pre @ d @ [58]) (join ds) (tried @ [d @ 47 # path]) sn1 =
        (let k = missing exec path ds
         in if k < length ds then
              Some (Some (outcome_of (exec (ds ! k @ 47 # path))), (tried @ [d @ 47 # path]) @ map (\<lambda>d. d @ 47 # path) (take (Suc k) ds), (pre @ d @ [58]) @ join (take (Suc k) ds), sn2)
            else Some (None, (tried @ [d @ 47 # path]) @ map (\<lambda>d. d @ 47 # path) ds, (pre @ d @ [58]) @ join ds, sn2))"
        using Cons.IH [OF False, of "pre @ d @ [58]" "tried @ [d @ 47 # path]" sn1] Cons.prems(2) by auto
      moreover have "missing exec path (d # ds) = Suc (missing exec path ds)" using True by (simp add: missing_def)
      moreover have "join (d # take (Suc n) ds) = d @ 58 # join (take (Suc n) ds)" for n using False by (cases ds) auto
      ultimately show ?thesis using step True False by (intro exI [of _ sn2]) (simp add: Let_def join_Cons)
    qed
  qed
qed simp

lemma environ_loop_skips:
  "\<forall>s\<in>set xs. take 5 s \<noteq> [80, 65, 84, 72, 61] \<Longrightarrow>
   environ_loop exec path before (xs @ ys) tried sn = environ_loop exec path (before @ xs) ys tried sn"
  by (induction xs arbitrary: before) auto



end
