(* ===== verification/Tokens.thy ===== *)
theory Tokens
  imports Environ
begin

text \<open>
  How the shell \<open>bin/sh.c\<close> takes a command line apart: comments, tokens with quotes and backslashes, pipes,
  sequences and redirections.  The line is the string that \<open>p\<close> points to, and a pointer into it is the rest
  of the string; the terminators that are stored into the line lie behind \<open>p\<close> and are not read again.  A pointer
  that passes the terminator of the line, and a store outside the tables of the shell, have no value.
  Memory for the copies of tokens is taken to be there.
\<close>

section \<open>The tables of the shell\<close>

abbreviation (input) MAX_ARGS :: nat where "MAX_ARGS \<equiv> 256"
abbreviation (input) MAX_CMDS :: nat where "MAX_CMDS \<equiv> 16"
abbreviation (input) MAX_PIPES :: nat where "MAX_PIPES \<equiv> 16"

record command =
  argv :: "bytes option list"
  quoted :: "bool list"
  c_input :: "bytes option"
  c_output :: "bytes option"
  append_out :: bool

record pipeline =
  cmds :: "command list"
  cmds_count :: nat

record shell =
  pipelines :: "pipeline list"
  pipelines_count :: nat

definition no_command :: command where
  "no_command = \<lparr>argv = replicate MAX_ARGS None, quoted = replicate MAX_ARGS False, c_input = None, c_output = None, append_out = False\<rparr>"

definition reset_pipelines :: shell where
  "reset_pipelines = \<lparr>pipelines = replicate MAX_PIPES \<lparr>cmds = replicate MAX_CMDS no_command, cmds_count = 0\<rparr>, pipelines_count = 0\<rparr>"

section \<open>Comments\<close>

fun comment_loop :: "bytes \<Rightarrow> bool \<Rightarrow> u8 \<Rightarrow> bytes" where
  "comment_loop [] q prev = []"
| "comment_loop (c # p) q prev =
     (let q' = (if c = 34 \<and> prev \<noteq> 92 then \<not> q else q)
      in if \<not> q' \<and> c = 35 \<and> prev \<noteq> 92 then [] else c # comment_loop p q' c)"

definition truncate_comments :: "bytes \<Rightarrow> bytes" where
  "truncate_comments line = comment_loop line False 0"

section \<open>Tokens\<close>

definition space :: "u8 \<Rightarrow> bool" where
  "space c = isspace (sint c)"

definition special :: "u8 \<Rightarrow> bool" where
  "special c \<longleftrightarrow> c = 59 \<or> c = 124 \<or> c = 60 \<or> c = 62"

text \<open>The scan to the end of a token: the token, the rest and the state of \<open>quote\<close>.\<close>

fun scan :: "bytes \<Rightarrow> bool \<Rightarrow> (bytes \<times> bytes \<times> bool) option" where
  "scan [] q = Some ([], [], q)"
| "scan (c # p) q =
     (if space c \<and> \<not> q \<or> special c then Some ([], c # p, q)
      else if c = 92 then
        (case p of
           [] \<Rightarrow> None
         | d # p' \<Rightarrow> map_option (\<lambda>(t, r, q'). (c # d # t, r, q')) (scan p' q))
      else map_option (\<lambda>(t, r, q'). (c # t, r, q')) (scan p (if c = 34 then \<not> q else q)))"

fun copy_token :: "bool \<Rightarrow> bytes \<Rightarrow> bytes" where
  "copy_token q [] = []"
| "copy_token q (c # src) =
     (let q' = (if c = 34 then \<not> q else q)
      in if c = 92 \<and> \<not> q' \<and> src \<noteq> [] \<and> (hd src = 32 \<or> hd src = 92 \<or> hd src = 34) then hd src # copy_token q' (tl src)
         else if c = 34 then copy_token q' src
         else c # copy_token q' src)"

section \<open>Redirections\<close>

definition expand_variable :: "bytes \<Rightarrow> env \<Rightarrow> bytes" where
  "expand_variable arg e =
     (if at0 arg \<noteq> 36 then arg else (case fst (getenv (Some (tl arg)) e) of Some v \<Rightarrow> v | None \<Rightarrow> []))"

definition target_char :: "u8 \<Rightarrow> bool" where
  "target_char c \<longleftrightarrow> c \<noteq> 32 \<and> c \<noteq> 60 \<and> c \<noteq> 62 \<and> c \<noteq> 124 \<and> c \<noteq> 59"

text \<open>One redirection, and as many as follow each other without a space.\<close>

definition redir_one :: "env \<Rightarrow> command \<Rightarrow> bytes \<Rightarrow> command \<times> bytes" where
  "redir_one e cmd p =
     (let (inp, cmd1, p1) =
        (if at0 (tl p) = 62 then (False, cmd\<lparr>append_out := True\<rparr>, tl (tl p)) else (at0 p = 60, cmd, tl p));
        p2 = dropWhile (\<lambda>c. c = 32) p1;
        t = expand_variable (takeWhile target_char p2) e
      in (if inp then cmd1\<lparr>c_input := Some t\<rparr> else cmd1\<lparr>c_output := Some t\<rparr>, dropWhile target_char p2))"

lemma redir_one_shorter: "length (snd (redir_one e cmd p)) \<le> length p - 1"
proof -
  have "length (dropWhile target_char (dropWhile (\<lambda>c. c = 32) q)) \<le> length q" for q
    using length_dropWhile_le [of target_char "dropWhile (\<lambda>c. c = 32) q"] length_dropWhile_le [of "\<lambda>c. c = 32" q] by simp
  from this [of "tl p"] this [of "tl (tl p)"] show ?thesis by (auto simp: redir_one_def Let_def)
qed

function parse_redir :: "env \<Rightarrow> command \<Rightarrow> bytes \<Rightarrow> command \<times> bytes" where
  "parse_redir e cmd p =
     (case redir_one e cmd p of
        (c, r) \<Rightarrow> if p \<noteq> [] \<and> (at0 r = 60 \<or> at0 r = 62) then parse_redir e c r else (c, r))"
  by pat_completeness auto

termination
proof (relation "measure (\<lambda>(e, cmd, p). length p)")
  fix e cmd p c r
  assume "(c, r) = redir_one e cmd p" "p \<noteq> [] \<and> (at0 r = 60 \<or> at0 r = 62)"
  then have "length r \<le> length p - 1" "0 < length p" using redir_one_shorter [of e cmd p] by (metis snd_conv, simp)
  then show "((e, c, r), (e, cmd, p)) \<in> measure (\<lambda>(e, cmd, p). length p)" by (simp only: in_measure prod.case)
qed simp

declare parse_redir.simps [simp del]

lemma parse_redir_shorter: "length (snd (parse_redir e cmd p)) \<le> length p - 1"
proof (induction e cmd p rule: parse_redir.induct)
  case (1 e cmd p)
  obtain c r where c: "redir_one e cmd p = (c, r)" by force
  then have r: "length r \<le> length p - 1" using redir_one_shorter [of e cmd p] by simp
  show ?case
  proof (cases "p \<noteq> [] \<and> (at0 r = 60 \<or> at0 r = 62)")
    case True
    then show ?thesis using 1 [OF c [symmetric] True] r parse_redir.simps [of e cmd p] c by simp
  next
    case False
    then show ?thesis using r parse_redir.simps [of e cmd p] c by auto
  qed
qed

section \<open>The tokenizer\<close>

text \<open>\<open>pipelines[pi]\<close> and its command \<open>ci\<close>.\<close>

definition upd_pipeline :: "nat \<Rightarrow> (pipeline \<Rightarrow> pipeline option) \<Rightarrow> shell \<Rightarrow> shell option" where
  "upd_pipeline i f sh =
     (if i < length (pipelines sh) then map_option (\<lambda>pl. sh\<lparr>pipelines := (pipelines sh)[i := pl]\<rparr>) (f (pipelines sh ! i)) else None)"

definition upd_command :: "nat \<Rightarrow> (command \<Rightarrow> command option) \<Rightarrow> pipeline \<Rightarrow> pipeline option" where
  "upd_command i f pl =
     (if i < length (cmds pl) then map_option (\<lambda>c. pl\<lparr>cmds := (cmds pl)[i := c]\<rparr>) (f (cmds pl ! i)) else None)"

record tokenizer =
  pipe_index :: nat
  cmd_index :: nat
  arg_index :: nat
  quote :: bool
  sh :: shell

definition add_token :: "bytes \<Rightarrow> tokenizer \<Rightarrow> tokenizer option" where
  "add_token tok st =
     (let ai = arg_index st; ci = cmd_index st;
          sh1 = (if ai = 0 \<and> ci = 0 then (sh st)\<lparr>pipelines_count := pipelines_count (sh st) + 1\<rparr> else sh st)
      in map_option (\<lambda>s. st\<lparr>sh := s, arg_index := ai + 1\<rparr>)
           (upd_pipeline (pipe_index st)
             (\<lambda>pl. upd_command ci
                (\<lambda>c. if ai < length (argv c) \<and> ai < length (quoted c) then
                       Some (c\<lparr>argv := (argv c)[ai := Some (copy_token False tok)], quoted := (quoted c)[ai := (at0 tok = 34)]\<rparr>)
                     else None)
                (if ai = 0 then pl\<lparr>cmds_count := cmds_count pl + 1\<rparr> else pl)) sh1))"

definition separator :: "env \<Rightarrow> bytes \<Rightarrow> tokenizer \<Rightarrow> (bytes \<times> tokenizer) option" where
  "separator e p st =
     (if at0 p = 124 then Some (p, st\<lparr>cmd_index := cmd_index st + 1, arg_index := 0\<rparr>)
      else if at0 p = 59 then
        map_option (\<lambda>s. (p, st\<lparr>sh := s, pipe_index := pipe_index st + 1, cmd_index := 0, arg_index := 0\<rparr>))
          (upd_pipeline (pipe_index st) (\<lambda>pl. Some (pl\<lparr>cmds_count := cmd_index st + 1\<rparr>)) (sh st))
      else if at0 p = 60 \<or> at0 p = 62 then
        (if pipe_index st < length (pipelines (sh st)) \<and> cmd_index st < length (cmds (pipelines (sh st) ! pipe_index st)) then
           (case parse_redir e (cmds (pipelines (sh st) ! pipe_index st) ! cmd_index st) p of (c, r) \<Rightarrow>
              map_option (\<lambda>s. (r, st\<lparr>sh := s\<rparr>))
                (upd_pipeline (pipe_index st) (upd_command (cmd_index st) (\<lambda>_. Some c)) (sh st)))
         else None)
      else Some (p, st))"

lemma scan_shorter: "scan p q = Some (t, r, q') \<Longrightarrow> length p = length t + length r"
  by (induction p q arbitrary: t r q' rule: scan.induct) (auto split: if_splits list.splits)

lemma separator_shorter: "separator e p st = Some (r, st') \<Longrightarrow> length r \<le> length p"
  using parse_redir_shorter [of e "cmds (pipelines (sh st) ! pipe_index st) ! cmd_index st" p]
  by (fastforce simp: separator_def split: if_splits prod.splits)

function tokenize_loop :: "env \<Rightarrow> bytes \<Rightarrow> tokenizer \<Rightarrow> tokenizer option" where
  "tokenize_loop e p0 st =
     (let p = dropWhile space p0
      in if p = [] then Some st
         else
           (case scan p (quote st) of
              None \<Rightarrow> None
            | Some (tok, p1, q) \<Rightarrow>
                (case (if tok = [] then Some (st\<lparr>quote := q\<rparr>) else add_token tok (st\<lparr>quote := q\<rparr>)) of
                   None \<Rightarrow> None
                 | Some st1 \<Rightarrow>
                     (case separator e p1 st1 of
                        None \<Rightarrow> None
                      | Some (p2, st2) \<Rightarrow> tokenize_loop e (tl p2) st2))))"
  by pat_completeness auto

termination
proof (relation "measure (\<lambda>(e, p, st). length p)")
  fix e p0 and st :: tokenizer and p a tok b p1 q st1 c p2 st2
  assume p: "p = dropWhile space p0" "p \<noteq> []" and "scan p (quote st) = Some a" "(tok, b) = a" "(p1, q) = b"
    and "separator e p1 st1 = Some c" "(p2, st2) = c"
  then have "length p2 \<le> length p" using scan_shorter [of p "quote st" tok p1 q] separator_shorter [of e p1 st1 p2 st2] by auto
  moreover have "length p \<le> length p0" using p(1) length_dropWhile_le by simp
  moreover have "0 < length p" using p(2) by (cases p) simp_all
  ultimately have "length (tl p2) < length p0" unfolding length_tl by linarith
  then show "((e, tl p2, st2), (e, p0, st)) \<in> measure (\<lambda>(e, p, st). length p)" by simp
qed simp

declare tokenize_loop.simps [simp del]

definition tokenize :: "env \<Rightarrow> bytes \<Rightarrow> shell option" where
  "tokenize e line =
     map_option sh (tokenize_loop e line \<lparr>pipe_index = 0, cmd_index = 0, arg_index = 0, quote = False, sh = reset_pipelines\<rparr>)"

section \<open>Printing a command line\<close>

text \<open>A command with its arguments and redirections, as a value.\<close>

record cmd_line =
  l_args :: "bytes list"
  l_in :: "bytes option"
  l_out :: "(bool \<times> bytes) option"

definition quote_char :: "u8 \<Rightarrow> bytes" where
  "quote_char c = (if c = 32 \<or> c = 92 \<or> c = 34 then [92, c] else if space c then [34, c, 34] else [c])"

definition arg_text :: "bytes \<Rightarrow> bytes" where
  "arg_text a = (if a = [] then [34, 34] else concat (map quote_char a))"

definition cmd_text :: "cmd_line \<Rightarrow> bytes" where
  "cmd_text c = concat (map (\<lambda>a. arg_text a @ [32]) (l_args c))
     @ (case l_in c of None \<Rightarrow> [] | Some t \<Rightarrow> 60 # t @ [32])
     @ (case l_out c of None \<Rightarrow> [] | Some (app, t) \<Rightarrow> (if app then [62, 62] else [62]) @ t @ [32])"

fun sep_by :: "u8 \<Rightarrow> bytes list \<Rightarrow> bytes" where
  "sep_by s [] = []"
| "sep_by s [x] = x"
| "sep_by s (x # xs) = x @ s # sep_by s xs"

definition line_text :: "cmd_line list list \<Rightarrow> bytes" where
  "line_text pls = sep_by 59 (map (\<lambda>cs. sep_by 124 (map cmd_text cs)) pls) @ [10]"

text \<open>What can be printed: the characters that separate commands cannot be quoted.\<close>

definition arg_ok :: "bytes \<Rightarrow> bool" where
  "arg_ok a \<longleftrightarrow> (\<forall>c\<in>set a. c \<noteq> 0 \<and> \<not> special c)"

definition target_ok :: "bytes \<Rightarrow> bool" where
  "target_ok t \<longleftrightarrow> t \<noteq> [] \<and> (\<forall>c\<in>set t. c \<noteq> 0 \<and> target_char c) \<and> at0 t \<noteq> 36"

definition cmd_ok :: "cmd_line \<Rightarrow> bool" where
  "cmd_ok c \<longleftrightarrow> l_args c \<noteq> [] \<and> length (l_args c) < MAX_ARGS \<and> (\<forall>a\<in>set (l_args c). arg_ok a)
     \<and> (\<forall>t. l_in c = Some t \<longrightarrow> target_ok t) \<and> (\<forall>app t. l_out c = Some (app, t) \<longrightarrow> target_ok t)"

text \<open>The tables for a line.\<close>

definition command_of :: "cmd_line \<Rightarrow> command" where
  "command_of c = \<lparr>argv = map Some (l_args c) @ replicate (MAX_ARGS - length (l_args c)) None,
     quoted = map (\<lambda>a. at0 (arg_text a) = 34) (l_args c) @ replicate (MAX_ARGS - length (l_args c)) False,
     c_input = l_in c, c_output = map_option snd (l_out c), append_out = (case l_out c of Some (app, t) \<Rightarrow> app | None \<Rightarrow> False)\<rparr>"

definition pipeline_of :: "cmd_line list \<Rightarrow> pipeline" where
  "pipeline_of cs = \<lparr>cmds = map command_of cs @ replicate (MAX_CMDS - length cs) no_command,
     cmds_count = length (filter (\<lambda>c. l_args c \<noteq> []) cs)\<rparr>"

definition shell_of :: "cmd_line list list \<Rightarrow> shell" where
  "shell_of pls = \<lparr>pipelines = map pipeline_of pls @ replicate (MAX_PIPES - length pls) (pipeline_of []),
     pipelines_count = length (filter (\<lambda>cs. \<exists>c\<in>set cs. l_args c \<noteq> []) pls)\<rparr>"

section \<open>One token\<close>

lemma scan_quoted: "arg_ok a \<Longrightarrow> scan (concat (map quote_char a) @ 32 # r) False = Some (concat (map quote_char a), 32 # r, False)"
proof (induction a)
  case Nil
  then show ?case by (simp add: space_def isspace_def)
next
  case (Cons c a)
  then have IH: "scan (concat (map quote_char a) @ 32 # r) False = Some (concat (map quote_char a), 32 # r, False)"
    and c: "\<not> special c" by (auto simp: arg_ok_def)
  have q: "\<not> space 92" "\<not> special 92" "\<not> space 34" "\<not> special 34" by (simp_all add: space_def isspace_def special_def)
  show ?case using IH c q by (auto simp: quote_char_def [of c])
qed

lemma scan_arg: "arg_ok a \<Longrightarrow> scan (arg_text a @ 32 # r) False = Some (arg_text a, 32 # r, False)"
  using scan_quoted [of a r] by (auto simp: arg_text_def space_def isspace_def special_def)

lemma copy_quoted: "copy_token False (concat (map quote_char a)) = a"
proof (induction a)
  case (Cons c a)
  have "\<not> space 92" "\<not> space 34" by (simp_all add: space_def isspace_def)
  then show ?case using Cons by (auto simp: quote_char_def [of c] Let_def)
qed simp

lemma copy_arg: "copy_token False (arg_text a) = a"
  using copy_quoted [of a] by (simp add: arg_text_def)

lemma arg_text_start: "\<exists>c r. arg_text a = c # r \<and> \<not> space c"
  by (cases a) (auto simp: arg_text_def quote_char_def space_def isspace_def)

lemma drop_spaces_arg: "dropWhile space (arg_text a @ r) = arg_text a @ r"
  using arg_text_start [of a] by auto

definition at_line :: "cmd_line list list \<Rightarrow> cmd_line list \<Rightarrow> cmd_line \<Rightarrow> tokenizer" where
  "at_line before cs c = \<lparr>pipe_index = length before, cmd_index = length cs, arg_index = length (l_args c), quote = False,
     sh = shell_of (before @ [cs @ [c]])\<rparr>"

lemma at_line_simps [simp]:
  "pipe_index (at_line before cs c) = length before" "cmd_index (at_line before cs c) = length cs"
  "arg_index (at_line before cs c) = length (l_args c)" "quote (at_line before cs c) = False"
  "sh (at_line before cs c) = shell_of (before @ [cs @ [c]])"
  by (simp_all add: at_line_def)

lemma upd_pipeline_at: "pipelines s = xs @ pl # ys \<Longrightarrow> i = length xs \<Longrightarrow> upd_pipeline i f s = map_option (\<lambda>q. s\<lparr>pipelines := xs @ q # ys\<rparr>) (f pl)"
  by (simp add: upd_pipeline_def)

lemma upd_command_at: "cmds pl = xs @ c # ys \<Longrightarrow> i = length xs \<Longrightarrow> upd_command i f pl = map_option (\<lambda>d. pl\<lparr>cmds := xs @ d # ys\<rparr>) (f c)"
  by (simp add: upd_command_def)

lemma pipelines_at:
  assumes "length before < MAX_PIPES"
  shows "pipelines (shell_of (before @ [pl])) = map pipeline_of before @ pipeline_of pl # replicate (15 - length before) (pipeline_of [])"
  using assms by (simp add: shell_of_def)

lemma cmds_at:
  assumes "length cs < MAX_CMDS"
  shows "cmds (pipeline_of (cs @ [c])) = map command_of cs @ command_of c # replicate (15 - length cs) no_command"
  using assms by (simp add: pipeline_of_def)

lemma replicate_first: "n < k \<Longrightarrow> replicate (k - n) z = z # replicate (k - Suc n) z"
  by (metis Suc_diff_Suc replicate_Suc)

lemma command_of_snoc:
  assumes "length (l_args c) < MAX_ARGS"
  shows "(command_of c)\<lparr>argv := (argv (command_of c))[length (l_args c) := Some a],
      quoted := (quoted (command_of c))[length (l_args c) := (at0 (arg_text a) = 34)]\<rparr> = command_of (c\<lparr>l_args := l_args c @ [a]\<rparr>)"
  using assms by (simp add: command_of_def list_update_append replicate_first)

lemma all_filter: "\<forall>c\<in>set cs. l_args c \<noteq> [] \<Longrightarrow> filter (\<lambda>c. l_args c \<noteq> []) cs = cs"
  by (simp add: filter_id_conv)

text \<open>The tables after a change of the last command.\<close>

lemma shell_of_change:
  assumes "length before < MAX_PIPES" "length cs < MAX_CMDS" "\<forall>c\<in>set cs. l_args c \<noteq> []"
  shows "(shell_of (before @ [cs @ [c]]))\<lparr>pipelines_count := length (filter (\<lambda>cs. \<exists>c\<in>set cs. l_args c \<noteq> []) before) + (if l_args d = [] \<and> cs = [] then 0 else 1),
      pipelines := map pipeline_of before @ (pipeline_of (cs @ [c]))\<lparr>cmds_count := length cs + (if l_args d = [] then 0 else 1),
        cmds := map command_of cs @ command_of d # replicate (15 - length cs) no_command\<rparr> # replicate (15 - length before) (pipeline_of [])\<rparr>
    = shell_of (before @ [cs @ [d]])"
proof -
  have "(pipeline_of (cs @ [c]))\<lparr>cmds_count := length cs + (if l_args d = [] then 0 else 1),
      cmds := map command_of cs @ command_of d # replicate (15 - length cs) no_command\<rparr> = pipeline_of (cs @ [d])"
    using assms(2) all_filter [OF assms(3)] by (simp add: pipeline_of_def)
  moreover have "(\<exists>c\<in>set cs. l_args c \<noteq> []) \<longleftrightarrow> cs \<noteq> []" using assms(3) by (cases cs) auto
  ultimately show ?thesis using assms(1) by (auto simp: shell_of_def)
qed

lemma add_token_arg:
  assumes "length before < MAX_PIPES" "length cs < MAX_CMDS" "length (l_args c) < MAX_ARGS" "\<forall>c\<in>set cs. l_args c \<noteq> []"
  shows "add_token (arg_text a) (at_line before cs c) = Some (at_line before cs (c\<lparr>l_args := l_args c @ [a]\<rparr>))"
proof -
  define d where "d = c\<lparr>l_args := l_args c @ [a]\<rparr>"
  define ai where "ai = length (l_args c)"
  have lens: "ai < length (argv (command_of c))" "ai < length (quoted (command_of c))" using assms(3) by (simp_all add: command_of_def ai_def)
  have counts: "pipelines_count (shell_of (before @ [cs @ [c]])) = length (filter (\<lambda>cs. \<exists>c\<in>set cs. l_args c \<noteq> []) before) + (if l_args c = [] \<and> cs = [] then 0 else 1)"
    "cmds_count (pipeline_of (cs @ [c])) = length cs + (if l_args c = [] then 0 else 1)"
    using assms(4) all_filter [OF assms(4)] by (cases cs; auto simp: shell_of_def pipeline_of_def)+
  let ?s = "shell_of (before @ [cs @ [c]])" and ?pl = "pipeline_of (cs @ [c])"
    and ?N = "length (filter (\<lambda>cs. \<exists>c\<in>set cs. l_args c \<noteq> []) before) + 1"
  have s: "(if ai = 0 \<and> length cs = 0 then ?s\<lparr>pipelines_count := pipelines_count ?s + 1\<rparr> else ?s) = ?s\<lparr>pipelines_count := ?N\<rparr>"
    using counts(1) by (auto simp: ai_def intro!: shell.equality)
  have pl: "(if ai = 0 then ?pl\<lparr>cmds_count := cmds_count ?pl + 1\<rparr> else ?pl) = ?pl\<lparr>cmds_count := length cs + 1\<rparr>"
    using counts(2) by (auto simp: ai_def intro!: pipeline.equality)
  let ?f = "\<lambda>c. if ai < length (argv c) \<and> ai < length (quoted c) then
               Some (c\<lparr>argv := (argv c)[ai := Some (copy_token False (arg_text a))], quoted := (quoted c)[ai := (at0 (arg_text a) = 34)]\<rparr>)
             else None"
  have "pipelines (?s\<lparr>pipelines_count := ?N\<rparr>) = map pipeline_of before @ ?pl # replicate (15 - length before) (pipeline_of [])"
    using pipelines_at [OF assms(1)] by simp
  note P = upd_pipeline_at [OF this, of "length before", simplified length_map, OF refl]
  have "cmds (?pl\<lparr>cmds_count := length cs + 1\<rparr>) = map command_of cs @ command_of c # replicate (15 - length cs) no_command"
    using cmds_at [OF assms(2)] by simp
  note C = upd_command_at [OF this, of "length cs", simplified length_map, OF refl]
  have f: "?f (command_of c) = Some (command_of d)"
    using lens command_of_snoc [OF assms(3), of a] copy_arg [of a] by (simp add: ai_def d_def)
  have "upd_pipeline (length before) (\<lambda>pl. upd_command (length cs) ?f (if ai = 0 then pl\<lparr>cmds_count := cmds_count pl + 1\<rparr> else pl))
      (if ai = 0 \<and> length cs = 0 then ?s\<lparr>pipelines_count := pipelines_count ?s + 1\<rparr> else ?s)
    = Some (shell_of (before @ [cs @ [d]]))"
    unfolding s P pl C f using shell_of_change [OF assms(1,2,4), where c = c and d = d] by (simp add: d_def)
  note u = this
  show ?thesis
    unfolding add_token_def Let_def at_line_simps ai_def [symmetric] u d_def [symmetric] by (simp add: at_line_def d_def ai_def)
qed

section \<open>One command\<close>

abbreviation (input) empty_cmd :: cmd_line where "empty_cmd \<equiv> \<lparr>l_args = [], l_in = None, l_out = None\<rparr>"

lemma at_line_quote [simp]: "(at_line before cs c)\<lparr>quote := False\<rparr> = at_line before cs c"
  by (simp add: at_line_def)

definition room_for :: "cmd_line list list \<Rightarrow> cmd_line list \<Rightarrow> bool" where
  "room_for before cs \<longleftrightarrow> length before < MAX_PIPES \<and> length cs < MAX_CMDS \<and> (\<forall>c\<in>set cs. l_args c \<noteq> [])"

lemma tokenize_arg:
  assumes "room_for before cs" "length (l_args c) < MAX_ARGS" "arg_ok a"
  shows "tokenize_loop e (arg_text a @ 32 # r) (at_line before cs c) = tokenize_loop e r (at_line before cs (c\<lparr>l_args := l_args c @ [a]\<rparr>))"
proof -
  have "arg_text a \<noteq> []" using arg_text_start [of a] by auto
  then show ?thesis
    using add_token_arg [of before cs c a] assms scan_arg [OF assms(3), of r]
    by (subst tokenize_loop.simps) (simp add: drop_spaces_arg Let_def separator_def room_for_def)
qed

lemma tokenize_args:
  assumes "room_for before cs" "length (l_args c) + length as < MAX_ARGS" "\<forall>a\<in>set as. arg_ok a"
  shows "tokenize_loop e (concat (map (\<lambda>a. arg_text a @ [32]) as) @ r) (at_line before cs c)
    = tokenize_loop e r (at_line before cs (c\<lparr>l_args := l_args c @ as\<rparr>))"
  using assms(2,3)
proof (induction as arbitrary: c)
  case (Cons a as)
  then show ?case using tokenize_arg [OF assms(1), of c a e "concat (map (\<lambda>a. arg_text a @ [32]) as) @ r"] by simp
qed simp

lemma scan_special: "special x \<Longrightarrow> scan (x # r) q = Some ([], x # r, q)"
  by simp

lemma special_not_space: "special x \<Longrightarrow> \<not> space x"
  by (auto simp: special_def space_def isspace_def)

lemma redir_target:
  assumes "target_ok t"
  shows "redir_one e cmd (60 # t @ 32 # r) = (cmd\<lparr>c_input := Some t\<rparr>, 32 # r)"
    and "redir_one e cmd (62 # t @ 32 # r) = (cmd\<lparr>c_output := Some t\<rparr>, 32 # r)"
    and "redir_one e cmd (62 # 62 # t @ 32 # r) = (cmd\<lparr>append_out := True, c_output := Some t\<rparr>, 32 # r)"
proof -
  obtain c u where t: "t = c # u" using assms by (cases t) (auto simp: target_ok_def)
  have "takeWhile target_char (t @ 32 # r) = t" "dropWhile target_char (t @ 32 # r) = 32 # r"
    using assms by (auto simp: target_ok_def takeWhile_append2 dropWhile_append2) (auto simp: target_char_def)
  moreover have "c \<noteq> 32" "c \<noteq> 62" "c \<noteq> 36" using assms t by (auto simp: target_ok_def target_char_def)
  ultimately show "redir_one e cmd (60 # t @ 32 # r) = (cmd\<lparr>c_input := Some t\<rparr>, 32 # r)"
    "redir_one e cmd (62 # t @ 32 # r) = (cmd\<lparr>c_output := Some t\<rparr>, 32 # r)"
    "redir_one e cmd (62 # 62 # t @ 32 # r) = (cmd\<lparr>append_out := True, c_output := Some t\<rparr>, 32 # r)"
    using t by (simp_all add: redir_one_def expand_variable_def Let_def)
qed

lemma tokenize_redir:
  assumes "room_for before cs" "at0 p = 60 \<or> at0 p = 62" "redir_one e (command_of c) p = (command_of d, 32 # r)" "l_args d = l_args c"
  shows "tokenize_loop e p (at_line before cs c) = tokenize_loop e r (at_line before cs d)"
proof -
  have b: "length before < MAX_PIPES" "length cs < MAX_CMDS" "\<forall>c\<in>set cs. l_args c \<noteq> []" using assms(1) by (auto simp: room_for_def)
  let ?s = "shell_of (before @ [cs @ [c]])" and ?pl = "pipeline_of (cs @ [c])"
  obtain x p' where p: "p = x # p'" using assms(2) by (cases p) auto
  have x: "special x" "x = 60 \<or> x = 62" using assms(2) p by (auto simp: special_def)
  have r: "parse_redir e (command_of c) p = (command_of d, 32 # r)" using assms(3) by (simp add: parse_redir.simps)
  have get: "pipelines ?s ! length before = ?pl" "length before < length (pipelines ?s)" "cmds ?pl ! length cs = command_of c" "length cs < length (cmds ?pl)"
    using pipelines_at [OF b(1)] cmds_at [OF b(2)] by (simp_all add: nth_append)
  have counts: "pipelines_count ?s = length (filter (\<lambda>cs. \<exists>c\<in>set cs. l_args c \<noteq> []) before) + (if l_args d = [] \<and> cs = [] then 0 else 1)"
    "cmds_count ?pl = length cs + (if l_args d = [] then 0 else 1)"
    using b(3) all_filter [OF b(3)] assms(4) by (cases cs; auto simp: shell_of_def pipeline_of_def)+
  have "upd_pipeline (length before) (upd_command (length cs) (\<lambda>_. Some (command_of d))) ?s = Some (shell_of (before @ [cs @ [d]]))"
    using shell_of_change [OF b, where c = c and d = d, folded counts]
      upd_pipeline_at [OF pipelines_at [OF b(1)], of "length before"] upd_command_at [OF cmds_at [OF b(2)], of "length cs"]
    by simp
  then have "separator e p (at_line before cs c) = Some (32 # r, at_line before cs d)"
    using x(2) p r get assms(4) by (auto simp: separator_def at_line_def)
  then show ?thesis
    using x p special_not_space [OF x(1)] scan_special [OF x(1), of p' False] by (subst tokenize_loop.simps) simp
qed

lemma tokenize_cmd:
  assumes "room_for before cs" "cmd_ok c"
  shows "tokenize_loop e (cmd_text c @ r) (at_line before cs empty_cmd) = tokenize_loop e r (at_line before cs c)"
proof -
  define c1 c2 where "c1 = empty_cmd\<lparr>l_args := l_args c\<rparr>" and "c2 = empty_cmd\<lparr>l_args := l_args c, l_in := l_in c\<rparr>"
  define out where "out = (case l_out c of None \<Rightarrow> [] | Some (app, t) \<Rightarrow> (if app then [62, 62] else [62]) @ t @ [32])"
  define inp where "inp = (case l_in c of None \<Rightarrow> [] | Some t \<Rightarrow> 60 # t @ [32])"
  have "tokenize_loop e (cmd_text c @ r) (at_line before cs empty_cmd) = tokenize_loop e (inp @ out @ r) (at_line before cs c1)"
    using tokenize_args [OF assms(1), of empty_cmd "l_args c" e "inp @ out @ r"] assms(2)
    by (simp add: cmd_text_def inp_def out_def c1_def cmd_ok_def)
  also have "\<dots> = tokenize_loop e (out @ r) (at_line before cs c2)"
  proof (cases "l_in c")
    case None
    then show ?thesis by (simp add: inp_def c1_def c2_def)
  next
    case (Some t)
    then have "redir_one e (command_of c1) (60 # t @ 32 # out @ r) = (command_of c2, 32 # out @ r)"
      using redir_target(1) [of t e "command_of c1" "out @ r"] assms(2) by (simp add: cmd_ok_def c1_def c2_def command_of_def)
    then show ?thesis
      using tokenize_redir [OF assms(1), of "60 # t @ 32 # out @ r" e c1 c2 "out @ r"] Some by (simp add: inp_def c1_def c2_def)
  qed
  also have "\<dots> = tokenize_loop e r (at_line before cs c)"
  proof (cases "l_out c")
    case None
    then have "c2 = c" by (simp add: c2_def)
    then show ?thesis using None by (simp add: out_def)
  next
    case (Some at)
    then obtain app t where at: "l_out c = Some (app, t)" by (cases at) auto
    then have ok: "target_ok t" using assms(2) by (simp add: cmd_ok_def)
    have "redir_one e (command_of c2) (out @ r) = (command_of c, 32 # r)"
      using redir_target(2,3) [OF ok, of e "command_of c2" r] at by (cases app) (simp_all add: out_def c2_def command_of_def)
    moreover have "l_args c = l_args c2" by (simp add: c2_def)
    moreover have "at0 (out @ r) = 62" using at by (simp add: out_def)
    ultimately show ?thesis using tokenize_redir [OF assms(1), of "out @ r" e c2 c r] by simp
  qed
  finally show ?thesis .
qed

lemma no_command_empty: "command_of empty_cmd = no_command"
  by (simp add: command_of_def no_command_def)

lemma pipeline_of_empty: "length cs < MAX_CMDS \<Longrightarrow> pipeline_of (cs @ [empty_cmd]) = pipeline_of cs"
  using replicate_first [of "length cs" 16 no_command] by (simp add: pipeline_of_def no_command_empty)

lemma shell_of_empty: "length pls < MAX_PIPES \<Longrightarrow> shell_of (pls @ [[empty_cmd]]) = shell_of pls"
  using replicate_first [of "length pls" 16 "pipeline_of []"] pipeline_of_empty [of "[]"] by (simp add: shell_of_def)

lemma tokenize_pipe:
  assumes "Suc (length cs) < MAX_CMDS"
  shows "tokenize_loop e (124 # r) (at_line before cs c) = tokenize_loop e r (at_line before (cs @ [c]) empty_cmd)"
proof -
  have "special 124" by (simp add: special_def)
  moreover have "separator e (124 # r) (at_line before cs c) = Some (124 # r, at_line before (cs @ [c]) empty_cmd)"
    using pipeline_of_empty [of "cs @ [c]"] assms by (simp add: separator_def at_line_def shell_of_def)
  ultimately show ?thesis
    using special_not_space [of 124] scan_special [of 124 r False] by (subst tokenize_loop.simps) simp
qed

lemma tokenize_sequence:
  assumes "Suc (length before) < MAX_PIPES" "room_for before cs" "l_args c \<noteq> []"
  shows "tokenize_loop e (59 # r) (at_line before cs c) = tokenize_loop e r (at_line (before @ [cs @ [c]]) [] empty_cmd)"
proof -
  have b: "length before < MAX_PIPES" "\<forall>c\<in>set cs. l_args c \<noteq> []" using assms(2) by (auto simp: room_for_def)
  have same: "(pipeline_of (cs @ [c]))\<lparr>cmds_count := Suc (length cs)\<rparr> = pipeline_of (cs @ [c])"
    using all_filter [OF b(2)] assms(3) by (simp add: pipeline_of_def)
  have "upd_pipeline (length before) (\<lambda>pl. Some (pl\<lparr>cmds_count := length cs + 1\<rparr>)) (shell_of (before @ [cs @ [c]])) = Some (shell_of (before @ [cs @ [c]]))"
    using upd_pipeline_at [OF pipelines_at [OF b(1)], of "length before"] same by (simp add: pipelines_at [OF b(1), symmetric])
  then have "separator e (59 # r) (at_line before cs c) = Some (59 # r, at_line (before @ [cs @ [c]]) [] empty_cmd)"
    using shell_of_empty [of "before @ [cs @ [c]]"] assms(1) by (simp add: separator_def at_line_def)
  moreover have "special 59" by (simp add: special_def)
  ultimately show ?thesis
    using special_not_space [of 59] scan_special [of 59 r False] by (subst tokenize_loop.simps) simp
qed

section \<open>A whole line\<close>

lemma tokenize_pipeline:
  assumes "cs \<noteq> []" "\<forall>c\<in>set cs. cmd_ok c" "length before < MAX_PIPES" "length pre + length cs \<le> MAX_CMDS" "\<forall>c\<in>set pre. l_args c \<noteq> []"
  shows "tokenize_loop e (sep_by 124 (map cmd_text cs) @ r) (at_line before pre empty_cmd)
    = tokenize_loop e r (at_line before (pre @ butlast cs) (last cs))"
  using assms
proof (induction cs arbitrary: pre)
  case (Cons c cs)
  have room: "room_for before pre" "cmd_ok c" using Cons.prems by (auto simp: room_for_def)
  show ?case
  proof (cases "cs = []")
    case True
    then show ?thesis using tokenize_cmd [OF room] by simp
  next
    case False
    then have s: "sep_by 124 (map cmd_text (c # cs)) @ r = cmd_text c @ 124 # sep_by 124 (map cmd_text cs) @ r" by (cases cs) auto
    have "tokenize_loop e (sep_by 124 (map cmd_text (c # cs)) @ r) (at_line before pre empty_cmd)
        = tokenize_loop e (sep_by 124 (map cmd_text cs) @ r) (at_line before (pre @ [c]) empty_cmd)"
      using tokenize_cmd [OF room, of e "124 # sep_by 124 (map cmd_text cs) @ r"] tokenize_pipe [of pre e _ before c] Cons.prems(4) False
      unfolding s by (cases cs) simp_all
    then show ?thesis using Cons.IH [of "pre @ [c]"] Cons.prems False by (simp add: cmd_ok_def)
  qed
qed simp

definition pipeline_ok :: "cmd_line list \<Rightarrow> bool" where
  "pipeline_ok cs \<longleftrightarrow> cs \<noteq> [] \<and> length cs \<le> MAX_CMDS \<and> (\<forall>c\<in>set cs. cmd_ok c)"

lemma tokenize_pipelines:
  assumes "pls \<noteq> []" "\<forall>cs\<in>set pls. pipeline_ok cs" "length before + length pls \<le> MAX_PIPES"
  shows "map_option sh (tokenize_loop e (sep_by 59 (map (\<lambda>cs. sep_by 124 (map cmd_text cs)) pls) @ [10]) (at_line before [] empty_cmd))
    = Some (shell_of (before @ pls))"
  using assms
proof (induction pls arbitrary: before)
  case (Cons cs pls)
  have cs: "cs \<noteq> []" "\<forall>c\<in>set cs. cmd_ok c" "length cs \<le> MAX_CMDS" using Cons.prems(2) by (auto simp: pipeline_ok_def)
  have P: "tokenize_loop e (sep_by 124 (map cmd_text cs) @ r) (at_line before [] empty_cmd) = tokenize_loop e r (at_line before (butlast cs) (last cs))" for r
    using tokenize_pipeline [OF cs(1,2), of before "[]"] Cons.prems(3) cs(3) by simp
  have line: "shell_of (before @ [butlast cs @ [last cs]]) = shell_of (before @ [cs])" using cs(1) by simp
  show ?case
  proof (cases "pls = []")
    case True
    have "tokenize_loop e [10] (at_line before (butlast cs) (last cs)) = Some (at_line before (butlast cs) (last cs))"
      by (subst tokenize_loop.simps) (simp add: space_def isspace_def)
    then show ?thesis using P [of "[10]"] True line by simp
  next
    case False
    let ?r = "sep_by 59 (map (\<lambda>cs. sep_by 124 (map cmd_text cs)) pls) @ [10]"
    have s: "sep_by 59 (map (\<lambda>cs. sep_by 124 (map cmd_text cs)) (cs # pls)) @ [10] = sep_by 124 (map cmd_text cs) @ 59 # ?r"
      using False by (cases pls) auto
    have "room_for before (butlast cs)" "l_args (last cs) \<noteq> []"
      using cs Cons.prems(3) by (auto simp: room_for_def cmd_ok_def in_set_butlastD)
    moreover have "Suc (length before) < MAX_PIPES" using Cons.prems(3) False by (cases pls) auto
    ultimately have "tokenize_loop e (59 # ?r) (at_line before (butlast cs) (last cs)) = tokenize_loop e ?r (at_line (before @ [cs]) [] empty_cmd)"
      using tokenize_sequence [of before "butlast cs" "last cs" e ?r] cs(1) by simp
    then show ?thesis using P [of "59 # ?r"] s Cons.IH [of "before @ [cs]"] Cons.prems(2,3) False by simp
  qed
qed simp


text \<open>The line \<open>a b\ c >f | d\<close>.\<close>

definition sample_line :: "cmd_line list list" where
  "sample_line = [[\<lparr>l_args = [[97], [98, 32, 99]], l_in = None, l_out = Some (False, [102])\<rparr>, \<lparr>l_args = [[100]], l_in = None, l_out = None\<rparr>]]"


text \<open>
  A redirection at the end of a line, as \<open>fgets\<close> returns it, has the newline in its file name; and the
  character behind a redirection is dropped, so that a pipe which follows directly is lost.
\<close>

lemma redirection_takes_newline:
  assumes "target_ok t"
  shows "parse_redir e cmd (62 # t @ [10]) = (cmd\<lparr>c_output := Some (t @ [10])\<rparr>, [])"
proof -
  obtain c u where t: "t = c # u" using assms by (cases t) (auto simp: target_ok_def)
  have "\<forall>c\<in>set (t @ [10]). target_char c" using assms by (auto simp: target_ok_def) (simp add: target_char_def)
  then have "takeWhile target_char (t @ [10]) = t @ [10]" "dropWhile target_char (t @ [10]) = []"
    by (simp_all only: takeWhile_eq_all_conv dropWhile_eq_Nil_conv)
  moreover have "c \<noteq> 32" "c \<noteq> 62" "c \<noteq> 36" using assms t by (auto simp: target_ok_def target_char_def)
  ultimately show ?thesis using t by (simp add: parse_redir.simps redir_one_def expand_variable_def Let_def)
qed

section \<open>Comments\<close>

text \<open>A line without \<open>#\<close> is not changed, and outside of quotes a comment ends the line.\<close>

lemma comment_loop_plain: "35 \<notin> set line \<Longrightarrow> comment_loop line q prev = line"
  by (induction line arbitrary: q prev) (auto simp: Let_def)

lemma comment_cut:
  assumes "35 \<notin> set line" "34 \<notin> set line" "92 \<notin> set line"
  shows "truncate_comments (line @ 35 # comment) = line"
proof -
  have "comment_loop (line @ 35 # comment) False prev = line" if "prev \<noteq> 92" for prev
    using assms that by (induction line arbitrary: prev) (auto simp: Let_def)
  then show ?thesis by (simp add: truncate_comments_def)
qed

end
