(* ===== verification/Shell.thy ===== *)
theory Shell
  imports Tokens Globs
begin

text \<open>
  The expansion of arguments by the shell \<open>bin/sh.c\<close>: file name patterns and variables.  A directory is the list
  of its entries with their inode numbers, or nothing when it cannot be opened.  The array of arguments has
  a fixed size, and a store or a read outside it has no value.
\<close>

section \<open>File names\<close>

type_synonym dirs = "bytes \<Rightarrow> (u16 \<times> bytes) list option"

fun fold_opt :: "('a \<Rightarrow> 's \<Rightarrow> 's option) \<Rightarrow> 'a list \<Rightarrow> 's \<Rightarrow> 's option" where
  "fold_opt f [] s = Some s"
| "fold_opt f (x # xs) s = Option.bind (f x s) (fold_opt f xs)"

text \<open>The string that \<open>snprintf\<close> leaves in an array of \<open>n\<close> bytes.\<close>

definition sn_text :: "FILE \<times> world \<Rightarrow> nat \<Rightarrow> bytes \<Rightarrow> bytes list \<Rightarrow> bytes option" where
  "sn_text sn n fmt args =
     (case snprintf (replicate n 0) (int n) fmt (map (\<lambda>s. VStr (Some s)) args) sn of
        None \<Rightarrow> None
      | Some (ret, buf, sn') \<Rightarrow> Some (takeWhile (\<lambda>c. c \<noteq> 0) buf))"

definition full_name :: "FILE \<times> world \<Rightarrow> bytes \<Rightarrow> bytes \<Rightarrow> bytes option" where
  "full_name sn base name =
     (let n = length base + 1 + length name + 1
      in if base = [] then sn_text sn n [37, 115] [name] else sn_text sn n [37, 115, 47, 37, 115] [base, name])"

definition next_base :: "FILE \<times> world \<Rightarrow> bytes \<Rightarrow> bytes \<Rightarrow> bytes option" where
  "next_base sn base name =
     (let n = length base + 1 + length name + 1
      in if base = [] then sn_text sn n [37, 115] [name]
         else if base = [47] then sn_text sn n [47, 37, 115] [name]
         else sn_text sn n [37, 115, 47, 37, 115] [base, name])"

text \<open>\<open>argv[*argc] = strdup(fullname); (*argc)++\<close>\<close>

definition add_name :: "bytes \<Rightarrow> nat \<times> bytes option list \<Rightarrow> (nat \<times> bytes option list) option" where
  "add_name name st = (case st of (argc, av) \<Rightarrow> if argc < length av then Some (argc + 1, av[argc := Some name]) else None)"

lemma drop_slashes_shorter:
  assumes "dropWhile (\<lambda>c. c \<noteq> 47) p \<noteq> []"
  shows "length (dropWhile (\<lambda>c. c = 47) (dropWhile (\<lambda>c. c \<noteq> 47) p)) < length (p :: bytes)"
proof -
  obtain r where r: "dropWhile (\<lambda>c. c \<noteq> 47) p = 47 # r"
    using assms hd_dropWhile [OF assms] by (cases "dropWhile (\<lambda>c. c \<noteq> 47) p") auto
  then show ?thesis using length_dropWhile_le [of "\<lambda>c. c = 47" r] length_dropWhile_le [of "\<lambda>c. c \<noteq> 47" p] by simp
qed

function explode_pattern :: "FILE \<times> world \<Rightarrow> dirs \<Rightarrow> bytes \<Rightarrow> bytes \<Rightarrow> nat \<times> bytes option list \<Rightarrow> (nat \<times> bytes option list) option" where
  "explode_pattern sn rd base pattern st =
     (if at0 pattern = 47 then explode_pattern sn rd [47] (dropWhile (\<lambda>c. c = 47) pattern) st
      else
        (let current = takeWhile (\<lambda>c. c \<noteq> 47) pattern; p = dropWhile (\<lambda>c. c \<noteq> 47) pattern
         in if length current \<ge> PATH_MAX then None
            else
              (case rd (if base = [] then [46] else base) of
                 None \<Rightarrow> Some st
               | Some es \<Rightarrow>
                   fold_opt (\<lambda>(ino, name) st.
                     if ino \<noteq> 0 \<and> at0 name \<noteq> 46 then
                       (case pattern_match current name of
                          None \<Rightarrow> None
                        | Some m \<Rightarrow>
                            if \<not> m then Some st
                            else if p = [] then
                              (case full_name sn base name of None \<Rightarrow> None | Some fullname \<Rightarrow> add_name fullname st)
                            else
                              (case next_base sn base name of
                                 None \<Rightarrow> None
                               | Some nb \<Rightarrow> explode_pattern sn rd nb (dropWhile (\<lambda>c. c = 47) p) st))
                     else Some st) es st)))"
  by pat_completeness auto

termination
proof (relation "measure (\<lambda>(sn, rd, base, pattern, st). length pattern)", goal_cases)
  case (2 sn rd base pattern st)
  then obtain r where "pattern = 47 # r" by (cases pattern) auto
  then show ?case using length_dropWhile_le [of "\<lambda>c. c = 47" r] by simp
next
  case 3
  then show ?case using drop_slashes_shorter by auto
qed simp

declare explode_pattern.simps [simp del]

partial_function (option) glob_loop :: "FILE \<times> world \<Rightarrow> dirs \<Rightarrow> bool list \<Rightarrow> nat \<Rightarrow> bytes option list \<Rightarrow> bytes option list option" where
  "glob_loop sn rd qs a av =
     (if a \<ge> length av \<or> a \<ge> length qs then None
      else
        (case av ! a of
           None \<Rightarrow> Some av
         | Some arg \<Rightarrow>
             Option.bind (if qs ! a then Some (a, av) else explode_pattern sn rd [] arg (a, av))
               (\<lambda>(a', av'). glob_loop sn rd qs (if a' = a then a + 1 else a') av')))"

definition glob_command :: "FILE \<times> world \<Rightarrow> dirs \<Rightarrow> command \<Rightarrow> command option" where
  "glob_command sn rd c = map_option (\<lambda>av. c\<lparr>argv := av\<rparr>) (glob_loop sn rd (quoted c) 1 (argv c))"

text \<open>The loop over the commands of a pipeline.\<close>

fun first_commands :: "(command \<Rightarrow> command option) \<Rightarrow> nat \<Rightarrow> command list \<Rightarrow> command list option" where
  "first_commands f 0 cs = Some cs"
| "first_commands f (Suc n) [] = None"
| "first_commands f (Suc n) (c # cs) = Option.bind (f c) (\<lambda>c'. map_option ((#) c') (first_commands f n cs))"

definition glob :: "FILE \<times> world \<Rightarrow> dirs \<Rightarrow> pipeline \<Rightarrow> pipeline option" where
  "glob sn rd pl = map_option (\<lambda>cs. pl\<lparr>cmds := cs\<rparr>) (first_commands (glob_command sn rd) (cmds_count pl) (cmds pl))"

section \<open>Variables\<close>

fun expand_args :: "env \<Rightarrow> bytes option list \<Rightarrow> bytes option list option" where
  "expand_args e [] = None"
| "expand_args e (None # av) = Some (None # av)"
| "expand_args e (Some a # av) = map_option ((#) (Some (expand_variable a e))) (expand_args e av)"

definition expand_variables :: "env \<Rightarrow> pipeline \<Rightarrow> pipeline option" where
  "expand_variables e pl =
     map_option (\<lambda>cs. pl\<lparr>cmds := cs\<rparr>)
       (first_commands (\<lambda>c. map_option (\<lambda>av. c\<lparr>argv := av\<rparr>) (expand_args e (argv c))) (cmds_count pl) (cmds pl))"

section \<open>What a pattern expands to\<close>

text \<open>The parts of a pattern between slashes.\<close>

function comps :: "bytes \<Rightarrow> bytes list" where
  "comps p =
     (let r = dropWhile (\<lambda>c. c \<noteq> 47) p
      in takeWhile (\<lambda>c. c \<noteq> 47) p # (if r = [] then [] else comps (dropWhile (\<lambda>c. c = 47) r)))"
  by pat_completeness auto
termination
  by (relation "measure length") (auto simp del: dropWhile_eq_Nil_conv intro: drop_slashes_shorter)

declare comps.simps [simp del]

definition join_path :: "bytes \<Rightarrow> bytes \<Rightarrow> bytes" where
  "join_path base name = (if base = [] then name else base @ 47 # name)"

definition subdir :: "bytes \<Rightarrow> bytes \<Rightarrow> bytes" where
  "subdir base name = (if base = [47] then 47 # name else join_path base name)"

definition visible :: "dirs \<Rightarrow> bytes \<Rightarrow> bytes \<Rightarrow> bytes list" where
  "visible rd base c =
     (case rd (if base = [] then [46] else base) of
        None \<Rightarrow> []
      | Some es \<Rightarrow> map snd (filter (\<lambda>(ino, name). ino \<noteq> 0 \<and> at0 name \<noteq> 46 \<and> globs c name) es))"

text \<open>The paths that match, in the order of the directories.\<close>

fun paths :: "dirs \<Rightarrow> bytes \<Rightarrow> bytes list \<Rightarrow> bytes list" where
  "paths rd base [] = []"
| "paths rd base [c] = map (join_path base) (visible rd base c)"
| "paths rd base (c # cs) = concat (map (\<lambda>name. paths rd (subdir base name) cs) (visible rd base c))"

definition matches :: "dirs \<Rightarrow> bytes \<Rightarrow> bytes list" where
  "matches rd pattern =
     (if at0 pattern = 47 then paths rd [47] (comps (dropWhile (\<lambda>c. c = 47) pattern)) else paths rd [] (comps pattern))"

definition names_ok :: "dirs \<Rightarrow> bool" where
  "names_ok rd \<longleftrightarrow> (\<forall>d es ino name. rd d = Some es \<longrightarrow> (ino, name) \<in> set es \<longrightarrow> printable name)"

definition pattern_ok :: "bytes \<Rightarrow> bool" where
  "pattern_ok p \<longleftrightarrow> 0 \<notin> set p \<and> (\<forall>c\<in>set (comps p). length c < PATH_MAX)"

lemma sn_text_pair:
  "printable a \<Longrightarrow> printable b \<Longrightarrow> length a + length b + 1 < n \<Longrightarrow> sn_text sn n [37, 115, 47, 37, 115] [a, b] = Some (a @ 47 # b)"
  using snprintf_pair [of a b 47 n "replicate n 0" sn] by (auto simp: sn_text_def)

lemma string_text_plain: "printable s \<Longrightarrow> string_text 0 (Some s) = Some s"
  using printableD [of s] by (simp add: string_text_def)

lemma takeWhile_printable: "printable s \<Longrightarrow> takeWhile (\<lambda>c. c \<noteq> 0) (s @ 0 # r) = s"
  using printableD [of s] by (subst takeWhile_append2) auto

lemma sn_text_one:
  assumes "printable a" "length a + 1 < n"
  shows "sn_text sn n [37, 115] [a] = Some a" "sn_text sn n [47, 37, 115] [a] = Some (47 # a)"
proof -
  have r: "render [37, 115] [VStr (Some a)] = Some a" "render [47, 37, 115] [VStr (Some a)] = Some (47 # a)"
    by (simp_all add: render.simps [of "[47, 37, 115]"] render.simps [of "[37, 115]"] render.simps [of "[]"]
        conv_spec_def is_width_def conv_text_def string_text_plain [OF assms(1)])
  have p: "printable (47 # a)" using assms(1) by (simp add: printable_def)
  show "sn_text sn n [37, 115] [a] = Some a" "sn_text sn n [47, 37, 115] [a] = Some (47 # a)"
    using snprintf_correct [OF r(1), of "int n" "replicate n 0" sn] snprintf_correct [OF r(2), of "int n" "replicate n 0" sn]
      assms(2) takeWhile_printable [OF assms(1)] takeWhile_printable [OF p] by (auto simp: sn_text_def)
qed

lemma names_text:
  assumes "printable base" "printable name"
  shows "full_name sn base name = Some (join_path base name)" "next_base sn base name = Some (subdir base name)" "printable (subdir base name)"
proof -
  show "printable (subdir base name)" using assms by (auto simp: subdir_def join_path_def printable_def)
  show "full_name sn base name = Some (join_path base name)" "next_base sn base name = Some (subdir base name)"
    using assms sn_text_one [OF assms(2)] sn_text_pair [OF assms]
    by (simp_all add: full_name_def next_base_def join_path_def subdir_def Let_def)
qed

text \<open>Storing a list of names.\<close>

definition add_names :: "bytes list \<Rightarrow> nat \<times> bytes option list \<Rightarrow> (nat \<times> bytes option list) option" where
  "add_names ns st = fold_opt add_name ns st"

lemma fold_opt_append: "fold_opt f (xs @ ys) s = Option.bind (fold_opt f xs s) (fold_opt f ys)"
  by (induction xs arbitrary: s) (auto split: Option.bind_splits)

lemma bind_fold_Nil [simp]: "Option.bind m (fold_opt f []) = m"
  by (cases m) simp_all

lemma add_names_store:
  "a + length ns \<le> length av \<Longrightarrow> add_names ns (a, av) = Some (a + length ns, overwrite av a (map Some ns))"
proof (induction ns arbitrary: a av)
  case Nil
  then show ?case by (simp add: add_names_def overwrite_def)
next
  case (Cons n ns)
  then have "add_names ns (a + 1, av[a := Some n]) = Some (a + 1 + length ns, overwrite (av[a := Some n]) (a + 1) (map Some ns))" by simp
  moreover have "overwrite (av[a := Some n]) (a + 1) (map Some ns) = overwrite av a (map Some (n # ns))"
    using Cons.prems by (simp add: overwrite_def upd_conv_take_nth_drop take_Suc_conv_app_nth add.commute)
  ultimately show ?case using Cons.prems by (simp add: add_names_def add_name_def)
qed

lemma at0_dropWhile: "x \<noteq> 0 \<Longrightarrow> at0 (dropWhile (\<lambda>c. c = x) p) \<noteq> x"
  by (induction p) auto

lemma explode_pattern_paths:
  assumes "names_ok rd" "printable base" "at0 pattern \<noteq> 47" "pattern_ok pattern"
  shows "explode_pattern sn rd base pattern st = add_names (paths rd base (comps pattern)) st"
  using assms(2-4)
proof (induction "length pattern" arbitrary: base pattern st rule: less_induct)
  case less
  define current p where "current = takeWhile (\<lambda>c. c \<noteq> 47) pattern" and "p = dropWhile (\<lambda>c. c \<noteq> 47) pattern"
  define rest where "rest = dropWhile (\<lambda>c. c = 47) p"
  have comps: "comps pattern = current # (if p = [] then [] else comps rest)"
    unfolding current_def p_def rest_def by (rule comps.simps [of pattern, unfolded Let_def])
  have zero: "0 \<notin> set pattern" "length current < PATH_MAX" using less.prems(3) comps by (auto simp: pattern_ok_def)
  then have c0: "0 \<notin> set current" by (auto simp: current_def dest: set_takeWhileD)
  have shorter: "p \<noteq> [] \<Longrightarrow> length rest < length pattern" using drop_slashes_shorter [of pattern] by (simp add: p_def rest_def)
  have rest: "p \<noteq> [] \<Longrightarrow> at0 rest \<noteq> 47 \<and> pattern_ok rest"
  proof
    show "at0 rest \<noteq> 47" using at0_dropWhile [of 47 p] by (simp add: rest_def)
    assume "p \<noteq> []"
    moreover have "set rest \<subseteq> set pattern" by (auto simp: rest_def p_def dest!: set_dropWhileD)
    ultimately show "pattern_ok rest" using less.prems(3) comps by (auto simp: pattern_ok_def)
  qed
  show ?case
  proof (cases "rd (if base = [] then [46] else base)")
    case None
    then have "paths rd base (comps pattern) = []" by (cases "comps rest") (simp_all add: comps visible_def)
    then show ?thesis
      using None less.prems zero by (subst explode_pattern.simps) (simp add: Let_def current_def [symmetric] add_names_def)
  next
    case (Some es)
    define step where "step = (\<lambda>(ino :: u16, name) st.
      if ino \<noteq> 0 \<and> at0 name \<noteq> 46 then
        (case pattern_match current name of
           None \<Rightarrow> None
         | Some m \<Rightarrow>
             if \<not> m then Some st
             else if p = [] then (case full_name sn base name of None \<Rightarrow> None | Some fullname \<Rightarrow> add_name fullname st)
             else (case next_base sn base name of None \<Rightarrow> None | Some nb \<Rightarrow> explode_pattern sn rd nb rest st))
      else Some st)"
    define sub where "sub = (\<lambda>name. if p = [] then [join_path base name] else paths rd (subdir base name) (comps rest))"
    have E: "explode_pattern sn rd base pattern st = fold_opt step es st"
      using Some less.prems zero unfolding step_def rest_def
      by (subst explode_pattern.simps) (simp add: Let_def current_def [symmetric] p_def [symmetric])
    have one: "step (ino, name) st = add_names (if ino \<noteq> 0 \<and> at0 name \<noteq> 46 \<and> globs current name then sub name else []) st"
      if "(ino, name) \<in> set es" for ino name st
    proof -
      have pn: "printable name" using assms(1) Some that unfolding names_ok_def by blast
      then have "0 \<notin> set name" using printableD [of name] by auto
      then have "pattern_match current name = Some (globs current name)" by (rule pattern_match_globs [OF c0])
      then show ?thesis
        using names_text [OF less.prems(1) pn] less.hyps [OF shorter] rest
        by (simp add: step_def sub_def add_names_def)
    qed
    have "fold_opt step es' st = add_names (concat (map sub (map snd (filter (\<lambda>(ino, name). ino \<noteq> 0 \<and> at0 name \<noteq> 46 \<and> globs current name) es')))) st"
      if "set es' \<subseteq> set es" for es' st
      using that
    proof (induction es' arbitrary: st)
      case (Cons x es')
      let ?F = "\<lambda>es'. concat (map sub (map snd (filter (\<lambda>(ino, name). ino \<noteq> 0 \<and> at0 name \<noteq> 46 \<and> globs current name) es')))"
      obtain ino name where x: "x = (ino, name)" by force
      have "fold_opt step es' = add_names (?F es')" using Cons by (intro ext) auto
      then have "fold_opt step (x # es') st
          = Option.bind (add_names (if ino \<noteq> 0 \<and> at0 name \<noteq> 46 \<and> globs current name then sub name else []) st) (add_names (?F es'))"
        using one [of ino name st] Cons.prems x by simp
      then show ?case unfolding add_names_def using x by (simp add: fold_opt_append)
    qed (simp add: add_names_def)
    moreover have "concat (map sub (visible rd base current)) = paths rd base (comps pattern)"
    proof (cases "p = []")
      case True
      then show ?thesis by (simp add: comps sub_def)
    next
      case False
      then have "comps rest \<noteq> []" by (subst comps.simps) simp
      then show ?thesis using False by (cases "comps rest") (simp_all add: comps sub_def)
    qed
    ultimately show ?thesis using E Some by (simp add: visible_def)
  qed
qed

section \<open>The arguments after the expansion\<close>

definition glob_ok :: "bytes \<Rightarrow> bool" where
  "glob_ok p \<longleftrightarrow> pattern_ok (dropWhile (\<lambda>c. c = 47) p)"

lemma explode_matches:
  assumes "names_ok rd" "glob_ok arg"
  shows "explode_pattern sn rd [] arg st = add_names (matches rd arg) st"
proof (cases "at0 arg = 47")
  case True
  have "printable [47]" by (simp add: printable_def)
  then show ?thesis
    using True explode_pattern_paths [OF assms(1), of "[47]" "dropWhile (\<lambda>c. c = 47) arg" sn st] at0_dropWhile [of 47 arg] assms(2)
    by (subst explode_pattern.simps) (simp add: matches_def glob_ok_def)
next
  case False
  then have "dropWhile (\<lambda>c. c = 47) arg = arg" by (cases arg) auto
  then show ?thesis
    using False explode_pattern_paths [OF assms(1), of "[]" arg sn st] assms(2) by (simp add: matches_def glob_ok_def printable_def)
qed

definition expansion :: "dirs \<Rightarrow> bytes \<times> bool \<Rightarrow> bytes list" where
  "expansion rd aq = (case aq of (arg, q) \<Rightarrow> if q \<or> matches rd arg = [] then [arg] else matches rd arg)"

lemma overwrite_args:
  "overwrite (map Some (pre @ a # r) @ z) (length pre) [Some x] = map Some (pre @ x # r) @ z"
  by (simp add: overwrite_def)

lemma overwrite_last:
  assumes "length ms \<le> m" "ms \<noteq> []"
  shows "overwrite (map Some (pre @ [a]) @ replicate m None) (length pre) (map Some ms) = map Some (pre @ ms) @ replicate (Suc m - length ms) None"
proof -
  obtain x xs where "ms = x # xs" using assms(2) by (cases ms) auto
  then show ?thesis using assms(1) by (simp add: overwrite_def drop_Cons' min_def)
qed

text \<open>One round of the loop over the arguments.\<close>

lemma glob_round:
  assumes "names_ok rd" "glob_ok a" "length pre < length qs" "length pre < length av" "av ! length pre = Some a"
    and "q = qs ! length pre" "q \<or> length pre + length (matches rd a) \<le> length av"
  shows "glob_loop sn rd qs (length pre) av =
    (if q \<or> matches rd a = [] then glob_loop sn rd qs (Suc (length pre)) av
     else glob_loop sn rd qs (length pre + length (matches rd a)) (overwrite av (length pre) (map Some (matches rd a))))"
proof (cases q)
  case True
  then show ?thesis using assms(3-6) by (subst glob_loop.simps) auto
next
  case False
  then have "explode_pattern sn rd [] a (length pre, av) = Some (length pre + length (matches rd a), overwrite av (length pre) (map Some (matches rd a)))"
    using explode_matches [OF assms(1,2)] add_names_store [of "length pre" "matches rd a" av] assms(7) by simp
  moreover have "overwrite av n [] = av" for n by (simp add: overwrite_def)
  ultimately show ?thesis using False assms(3-6) by (subst glob_loop.simps) auto
qed

lemma glob_loop_args:
  assumes "names_ok rd" "\<forall>aq\<in>set aqs. glob_ok (fst aq)" "\<forall>aq\<in>set (butlast aqs). length (expansion rd aq) = 1"
    and "length qs = length pre + length aqs + m" "take (length aqs) (drop (length pre) qs) = map snd aqs"
    and "length (concat (map (expansion rd) aqs)) < length aqs + m"
  shows "glob_loop sn rd qs (length pre) (map Some (pre @ map fst aqs) @ replicate m None)
    = Some (map Some (pre @ concat (map (expansion rd) aqs)) @ replicate (length aqs + m - length (concat (map (expansion rd) aqs))) None)"
  using assms(2-6)
proof (induction aqs arbitrary: pre)
  case Nil
  then show ?case by (subst glob_loop.simps) (simp add: nth_append)
next
  case (Cons aq aqs)
  obtain a q where aq: "aq = (a, q)" by force
  let ?av = "map Some (pre @ map fst (aq # aqs)) @ replicate m None"
  have av: "length pre < length qs" "length pre < length ?av" "?av ! length pre = Some a" using Cons.prems(3) aq by (auto simp: nth_append)
  have q: "q = qs ! length pre" using Cons.prems(4) aq av(1) by (cases "drop (length pre) qs") (auto simp: hd_drop_conv_nth [symmetric])
  have tl: "take (length aqs) (drop (length (pre @ [x])) qs) = map snd aqs" for x
    using Cons.prems(4) by (cases "drop (length pre) qs") (auto simp: drop_Suc tl_drop [symmetric])
  have e: "expansion rd aq = (if q \<or> matches rd a = [] then [a] else matches rd a)" by (simp add: expansion_def aq)
  have total: "length (expansion rd aq) + length (concat (map (expansion rd) aqs)) \<le> length aqs + m" using Cons.prems(5) by simp
  then have fits: "q \<or> length pre + length (matches rd a) \<le> length ?av" using e by (auto split: if_splits)
  have ga: "glob_ok a" using Cons.prems(1) aq by simp
  have go: "glob_loop sn rd qs (length pre) ?av
      = Some (map Some (pre @ concat (map (expansion rd) (aq # aqs))) @ replicate (length (aq # aqs) + m - length (concat (map (expansion rd) (aq # aqs)))) None)"
    if one: "length (expansion rd aq) = 1"
  proof -
    obtain x where x: "expansion rd aq = [x]" using one by (cases "expansion rd aq") auto
    have "glob_loop sn rd qs (length pre) ?av = glob_loop sn rd qs (length (pre @ [x])) (map Some ((pre @ [x]) @ map fst aqs) @ replicate m None)"
    proof (cases "q \<or> matches rd a = []")
      case True
      then show ?thesis using glob_round [OF assms(1) ga av q fits, of sn] e x aq by auto
    next
      case False
      then have "matches rd a = [x]" using e x by simp
      then show ?thesis
        using False glob_round [OF assms(1) ga av q fits, of sn] overwrite_args [of pre a "map fst aqs" "replicate m None" x] aq by simp
    qed
    also have "\<dots> = Some (map Some ((pre @ [x]) @ concat (map (expansion rd) aqs)) @ replicate (length aqs + m - length (concat (map (expansion rd) aqs))) None)"
      by (rule Cons.IH) (use Cons.prems tl [of x] total x in \<open>auto dest: in_set_butlastD split: if_splits\<close>)
    finally show ?thesis using x by simp
  qed
  show ?case
  proof (cases "aqs = [] \<and> \<not> (q \<or> matches rd a = [])")
    case True
    then have "glob_loop sn rd qs (length pre) ?av
        = glob_loop sn rd qs (length pre + length (matches rd a)) (map Some (pre @ matches rd a) @ replicate (Suc m - length (matches rd a)) None)"
      using glob_round [OF assms(1) ga av q fits, of sn] overwrite_last [of "matches rd a" m pre a] total e aq by simp
    also have "\<dots> = Some (map Some (pre @ matches rd a) @ replicate (Suc m - length (matches rd a)) None)"
      using True total e Cons.prems(3) by (subst glob_loop.simps) (auto simp: nth_append)
    finally show ?thesis using True e by simp
  next
    case False
    then have "length (expansion rd aq) = 1" using e Cons.prems(2) by (cases aqs) auto
    then show ?thesis by (rule go)
  qed
qed

text \<open>
  C13: File name expansion replaces every argument that is not quoted by the paths it stands for, in the order
  of the directories, or leaves it when there are none, provided that only the last argument stands for
  more than one path.
\<close>

theorem glob_arguments:
  assumes "names_ok rd" "\<forall>aq\<in>set aqs. glob_ok (fst aq)" "\<forall>aq\<in>set (butlast aqs). length (expansion rd aq) = 1"
    and "argv c = map Some (cmd # map fst aqs) @ replicate m None" "quoted c = q0 # map snd aqs @ qs" "length qs = m"
    and "length (concat (map (expansion rd) aqs)) < length aqs + m"
  shows "glob_command sn rd c = Some (c\<lparr>argv := map Some (cmd # concat (map (expansion rd) aqs))
    @ replicate (length aqs + m - length (concat (map (expansion rd) aqs))) None\<rparr>)"
  using glob_loop_args [OF assms(1-3), of "quoted c" "[cmd]" m sn] assms(4-7) by (simp add: glob_command_def)

text \<open>The directory with \<open>a\<close>, \<open>b\<close>, \<open>ac\<close> and \<open>.a\<close>, and the command \<open>l a*\<close>.\<close>

definition small_dir :: dirs where
  "small_dir d = (if d = [46] then Some [(1, [97]), (2, [98]), (3, [97, 99]), (4, [46, 97])] else None)"

lemma small_matches: "names_ok small_dir" "matches small_dir [97, 42] = [[97], [97, 99]]" "glob_ok [97, 42]"
proof -
  show "names_ok small_dir" by (auto simp: names_ok_def small_dir_def printable_def split: if_splits)
  have c: "comps [97, 42] = [[97, 42]]" by (subst comps.simps) simp
  have g: "globs [42] t" for t using globs_Star [of "[]" "[]" t] globs_Nil by simp
  show "matches small_dir [97, 42] = [[97], [97, 99]]"
    by (simp add: matches_def c visible_def small_dir_def join_path_def globs_Cons_iff one_char_def g)
  show "glob_ok [97, 42]" by (simp add: glob_ok_def pattern_ok_def c)
qed

theorem glob_witness:
  "glob_command zero_stream small_dir \<lparr>argv = [Some [108], Some [97, 42], None, None], quoted = [False, False, False, False], c_input = None, c_output = None, append_out = False\<rparr>
    = Some \<lparr>argv = [Some [108], Some [97], Some [97, 99], None], quoted = [False, False, False, False], c_input = None, c_output = None, append_out = False\<rparr>"
  using glob_arguments [of small_dir "[([97, 42], False)]"
      "\<lparr>argv = [Some [108], Some [97, 42], None, None], quoted = [False, False, False, False], c_input = None, c_output = None, append_out = False\<rparr>"
      "[108]" 2 False "[False, False]" zero_stream] small_matches
  by (simp add: expansion_def numeral_eq_Suc)

text \<open>An argument behind a pattern that stands for two paths is overwritten.\<close>

lemma glob_loses_argument:
  assumes "names_ok rd" "glob_ok p" "matches rd p = [x, y]" "2 \<le> m" "length qs = 1 + m"
  shows "glob_loop sn rd (q0 # False # qs) 1 (map Some [cmd, p, arg] @ replicate m None) = Some (map Some [cmd, x, y] @ replicate m None)"
proof -
  let ?av = "map Some [cmd, p, arg] @ replicate m None"
  have "glob_loop sn rd (q0 # False # qs) (length [cmd]) ?av = glob_loop sn rd (q0 # False # qs) 3 (overwrite ?av 1 [Some x, Some y])"
    using glob_round [OF assms(1,2), of "[cmd]" "q0 # False # qs" ?av False sn] assms(3-5) by (simp add: numeral_3_eq_3)
  also have "overwrite ?av 1 [Some x, Some y] = map Some [cmd, x, y] @ replicate m None" by (simp add: overwrite_def)
  finally show ?thesis using assms(4,5) by (subst (asm) glob_loop.simps [of _ _ _ 3]) (simp add: nth_append)
qed

end
