(* ===== verification/Pipe.thy ===== *)
theory Pipe
  imports Proctab Fifo
begin

text \<open>
  Pipes, \<open>sys/kern/pipe.c\<close>: a ring of 1024 bytes between two unsigned positions that only grow
  (and wrap at \<open>2 ^ 32\<close>, a multiple of the size).  The loops of \<open>pipe_read\<close> and \<open>pipe_write\<close> run until
  they are done or have to sleep; a process that is woken continues where it stopped.
\<close>

section \<open>The ring\<close>

definition pipe_get :: "pipe \<Rightarrow> (u8 \<times> pipe) option" where
  "pipe_get p =
     (if read_pos p = write_pos p then None
      else Some (p_buffer p ! (unat (read_pos p) mod PIPE_BUF), p\<lparr>read_pos := read_pos p + 1\<rparr>))"

definition pipe_put :: "u8 \<Rightarrow> pipe \<Rightarrow> pipe option" where
  "pipe_put c p =
     (if write_pos p - read_pos p = of_nat PIPE_BUF then None
      else Some (p\<lparr>p_buffer := (p_buffer p)[unat (write_pos p) mod PIPE_BUF := c],
                   write_pos := write_pos p + 1\<rparr>))"

text \<open>The loop of \<open>pipe_read\<close>: \<open>Inl\<close> when it returns, \<open>Inr\<close> when it sleeps.\<close>

fun read_loop :: "nat \<Rightarrow> bytes \<Rightarrow> pipe \<Rightarrow> (bytes \<times> pipe) + pipe" where
  "read_loop 0 acc p = Inl (acc, p)"
| "read_loop (Suc n) acc p =
     (case pipe_get p of
        None \<Rightarrow> if writers p = 0 \<or> acc \<noteq> [] then Inl (acc, p) else Inr p
      | Some (c, q) \<Rightarrow> read_loop n (acc @ [c]) q)"

text \<open>The loop of \<open>pipe_write\<close> up to its end or to its next sleep; what is left to write.\<close>

fun write_loop :: "bytes \<Rightarrow> pipe \<Rightarrow> bytes \<times> pipe" where
  "write_loop [] p = ([], p)"
| "write_loop (c # cs) p = (case pipe_put c p of None \<Rightarrow> (c # cs, p) | Some q \<Rightarrow> write_loop cs q)"

section \<open>Operations\<close>

definition upd_pipe :: "nat \<Rightarrow> (pipe \<Rightarrow> pipe) \<Rightarrow> kstate \<Rightarrow> kstate" where
  "upd_pipe i f s = s\<lparr>pipes := (pipes s)[i := f (pipes s ! i)]\<rparr>"

definition upd_file :: "nat \<Rightarrow> (kfile \<Rightarrow> kfile) \<Rightarrow> kstate \<Rightarrow> kstate" where
  "upd_file i f s = s\<lparr>files := (files s)[i := f (files s ! i)]\<rparr>"

text \<open>The check at the start of the operations on a file that must be a pipe.\<close>

definition with_pipe :: "nat \<Rightarrow> string \<Rightarrow> (nat \<Rightarrow> 'a kernel) \<Rightarrow> 'a kernel" where
  "with_pipe f msg k =
     bindK (getK (\<lambda>s. files s ! f)) (\<lambda>file.
     if f_type file \<noteq> FT_PIPE then panic msg
     else (case f_pipe file of None \<Rightarrow> panic msg | Some p \<Rightarrow> k p))"

definition pipe_create :: "nat option kernel" where
  "pipe_create = getK (\<lambda>s. first_index (\<lambda>p. readers p = 0 \<and> writers p = 0) (pipes s))"

definition pipe_destroy :: "nat \<Rightarrow> unit kernel" where
  "pipe_destroy i = modifyK (upd_pipe i (\<lambda>_. zero_pipe))"

text \<open>The value is the bytes stored into the user buffer.\<close>

definition pipe_read :: "nat \<Rightarrow> nat \<Rightarrow> bytes kernel" where
  "pipe_read f nbytes =
     with_pipe f ''pipe_read: not a pipe'' (\<lambda>p.
     bindK (getK (\<lambda>s. read_loop nbytes [] (pipes s ! p))) (\<lambda>r.
     case r of
       Inl (acc, q) \<Rightarrow>
         thenK (modifyK (upd_pipe p (\<lambda>_. q)))
         (thenK (wakeup (WPipe p))
         (returnK acc))
     | Inr q \<Rightarrow> thenK (modifyK (upd_pipe p (\<lambda>_. q))) (sleep (WPipe p))))"

text \<open>One run of the loop of \<open>pipe_write\<close> with the rest of the data; \<open>nbytes\<close> is the whole count,
  the value of the call.\<close>

definition pipe_write_run :: "nat \<Rightarrow> nat \<Rightarrow> bytes \<Rightarrow> nat kernel" where
  "pipe_write_run p nbytes rest =
     bindK (getK (\<lambda>s. write_loop rest (pipes s ! p))) (\<lambda>(rest', q).
     thenK (modifyK (upd_pipe p (\<lambda>_. q)))
     (thenK (wakeup (WPipe p))
     (if rest' = [] then returnK nbytes else sleep (WPipe p))))"

definition pipe_write :: "nat \<Rightarrow> bytes \<Rightarrow> nat kernel" where
  "pipe_write f data =
     with_pipe f ''pipe_write: not a pipe'' (\<lambda>p. pipe_write_run p (length data) data)"

definition pipe_close :: "nat \<Rightarrow> unit kernel" where
  "pipe_close f =
     with_pipe f ''pipe_close: not a pipe'' (\<lambda>p.
     thenK (modifyK (upd_file f (\<lambda>x. x\<lparr>f_ref_count := f_ref_count x - 1\<rparr>)))
     (bindK (getK (\<lambda>s. files s ! f)) (\<lambda>file.
     thenK (whenK (f_ref_count file = 0)
              (thenK (whenK (f_flags file AND O_RDONLY \<noteq> 0)
                        (modifyK (upd_pipe p (\<lambda>x. x\<lparr>readers := readers x - 1\<rparr>))))
                     (whenK (f_flags file AND O_WRONLY \<noteq> 0)
                        (modifyK (upd_pipe p (\<lambda>x. x\<lparr>writers := writers x - 1\<rparr>))))))
     (bindK (getK (\<lambda>s. pipes s ! p)) (\<lambda>x.
      whenK (readers x = 0 \<and> writers x = 0) (pipe_destroy p))))))"

definition pipe_init :: "unit kernel" where
  "pipe_init = modifyK (\<lambda>s. s\<lparr>pipes := replicate NPIPES zero_pipe\<rparr>)"

section \<open>The ring is a bounded queue\<close>

definition pipe_fill :: "pipe \<Rightarrow> nat" where
  "pipe_fill p = unat (write_pos p - read_pos p)"

definition pipe_inv :: "pipe \<Rightarrow> bool" where
  "pipe_inv p \<longleftrightarrow> length (p_buffer p) = PIPE_BUF \<and> pipe_fill p \<le> PIPE_BUF"

definition pipe_slot :: "pipe \<Rightarrow> nat \<Rightarrow> nat" where
  "pipe_slot p k = (unat (read_pos p) + k) mod PIPE_BUF"

definition pipe_contents :: "pipe \<Rightarrow> bytes" where
  "pipe_contents p = map (\<lambda>k. p_buffer p ! pipe_slot p k) [0..<pipe_fill p]"

lemma unat_mod_1024: "unat (x + of_nat k) mod 1024 = (unat x + k) mod 1024" for x :: u32
proof -
  have "unat (x + of_nat k) mod 1024 = (unat x + k) mod 2 ^ 32 mod 1024"
    by (simp add: unat_word_ariths unat_of_nat mod_simps)
  also have "\<dots> = (unat x + k) mod 1024"
    by (rule mod_mod_cancel) simp
  finally show ?thesis .
qed

lemma pipe_write_slot:
  "unat (write_pos p) mod PIPE_BUF = pipe_slot p (pipe_fill p)"
proof -
  have "write_pos p = read_pos p + of_nat (pipe_fill p)" by (simp add: pipe_fill_def)
  then show ?thesis unfolding pipe_slot_def by (metis unat_mod_1024)
qed

lemma pipe_slot_inj:
  assumes "k < PIPE_BUF" and "j < PIPE_BUF" and "pipe_slot p k = pipe_slot p j"
  shows "k = j"
proof -
  have le: "k = j" if "k \<le> j" "j < 1024" "(a + k) mod 1024 = (a + j) mod 1024" for a k j :: nat
  proof -
    have "1024 dvd (a + j) - (a + k)"
      using that mod_eq_dvd_iff_nat [of "a + k" "a + j" 1024] by simp
    then have "1024 dvd j - k" by simp
    then have "j - k = 0" using that(2) by (metis dvd_imp_le less_imp_diff_less not_less not_gr_zero)
    then show ?thesis using that(1) by simp
  qed
  show ?thesis using assms le [of k j] le [of j k] unfolding pipe_slot_def by (metis nat_le_linear)
qed

lemma pipe_fill_inc:
  assumes "pipe_fill p \<le> PIPE_BUF"
  shows "unat (write_pos p + 1 - read_pos p) = Suc (pipe_fill p)"
    and "read_pos p \<noteq> write_pos p \<Longrightarrow> unat (write_pos p - (read_pos p + 1)) = pipe_fill p - 1"
proof -
  have "write_pos p + 1 - read_pos p = (write_pos p - read_pos p) + of_nat 1" by (simp add: algebra_simps)
  moreover have "unat ((write_pos p - read_pos p) + of_nat 1) = unat (write_pos p - read_pos p) + 1"
    by (rule unat_plus_of_nat) (use assms in \<open>simp add: pipe_fill_def\<close>)
  ultimately show "unat (write_pos p + 1 - read_pos p) = Suc (pipe_fill p)" unfolding pipe_fill_def by (metis Suc_eq_plus1)
  assume "read_pos p \<noteq> write_pos p"
  then have "1 \<le> write_pos p - read_pos p" by (simp add: word_le_nat_alt unat_gt_0 Suc_le_eq)
  then have "unat ((write_pos p - read_pos p) - 1) = unat (write_pos p - read_pos p) - unat (1::u32)"
    by (rule unat_sub)
  moreover have "write_pos p - (read_pos p + 1) = (write_pos p - read_pos p) - 1" by (simp add: algebra_simps)
  ultimately show "unat (write_pos p - (read_pos p + 1)) = pipe_fill p - 1"
    unfolding pipe_fill_def by (metis unat_1)
qed

lemma pipe_full_iff: "write_pos p - read_pos p = of_nat PIPE_BUF \<longleftrightarrow> pipe_fill p = PIPE_BUF"
  by (simp add: pipe_fill_def word_unat_eq_iff)

lemma length_pipe_contents [simp]: "length (pipe_contents p) = pipe_fill p"
  by (simp add: pipe_contents_def)

lemma pipe_empty_iff: "read_pos p = write_pos p \<longleftrightarrow> pipe_fill p = 0"
  by (auto simp: pipe_fill_def unat_eq_0)

interpretation pipe_fifo: bounded_fifo pipe_inv pipe_contents PIPE_BUF pipe_put pipe_get
proof
  show "length (pipe_contents q) \<le> PIPE_BUF" if "pipe_inv q" for q
    using that by (simp add: pipe_inv_def)
next
  fix q x
  assume q: "pipe_inv q" and "length (pipe_contents q) < PIPE_BUF"
  then have f: "pipe_fill q < PIPE_BUF" by simp
  define r where "r = q\<lparr>p_buffer := (p_buffer q)[pipe_slot q (pipe_fill q) := x], write_pos := write_pos q + 1\<rparr>"
  have put: "pipe_put x q = Some r"
    using f pipe_full_iff [of q] unfolding pipe_put_def pipe_write_slot r_def by auto
  have fr: "pipe_fill r = Suc (pipe_fill q)"
    using pipe_fill_inc(1) [of q] f by (simp add: r_def pipe_fill_def)
  have sl: "pipe_slot r = pipe_slot q" by (simp add: r_def pipe_slot_def fun_eq_iff)
  have lt: "pipe_slot q k < length (p_buffer q)" for k using q by (simp add: pipe_slot_def pipe_inv_def)
  have old: "p_buffer r ! pipe_slot q k = p_buffer q ! pipe_slot q k" if "k < pipe_fill q" for k
  proof -
    have "pipe_slot q (pipe_fill q) \<noteq> pipe_slot q k"
      using that f pipe_slot_inj [of k "pipe_fill q" q] by auto
    then show ?thesis by (simp add: r_def)
  qed
  have new: "p_buffer r ! pipe_slot q (pipe_fill q) = x" using lt by (simp add: r_def)
  have "pipe_inv r" using q fr f by (simp add: pipe_inv_def) (simp add: r_def)
  moreover have "pipe_contents r = pipe_contents q @ [x]"
    unfolding pipe_contents_def fr sl using old new by simp
  ultimately show "\<exists>r. pipe_put x q = Some r \<and> pipe_inv r \<and> pipe_contents r = pipe_contents q @ [x]"
    using put by blast
next
  fix q x
  assume "pipe_inv q" "length (pipe_contents q) = PIPE_BUF"
  then show "pipe_put x q = None" using pipe_full_iff [of q] by (simp add: pipe_put_def)
next
  fix q x xs
  assume q: "pipe_inv q" and c: "pipe_contents q = x # xs"
  have f: "pipe_fill q = Suc (length xs)" using arg_cong [OF c, of length] by simp
  have ne: "read_pos q \<noteq> write_pos q" using f by (simp add: pipe_empty_iff)
  define r where "r = q\<lparr>read_pos := read_pos q + 1\<rparr>"
  have fr: "pipe_fill r = length xs"
    using pipe_fill_inc(2) [of q] q ne f by (simp add: r_def pipe_fill_def pipe_inv_def)
  have sl: "pipe_slot r k = pipe_slot q (Suc k)" for k
    using unat_mod_1024 [of "read_pos q" 1] by (simp add: r_def pipe_slot_def) (metis add_Suc_right mod_add_left_eq plus_1_eq_Suc add.commute)
  have "x = p_buffer q ! pipe_slot q 0" "xs = map (\<lambda>k. p_buffer q ! pipe_slot q (Suc k)) [0..<length xs]"
    using c unfolding pipe_contents_def f by (auto simp: upt_conv_Cons map_Suc_upt [symmetric] comp_def simp del: upt_Suc map_Suc_upt)
  moreover have "pipe_get q = Some (p_buffer q ! pipe_slot q 0, r)"
    using ne by (simp add: pipe_get_def r_def pipe_slot_def)
  moreover have "pipe_contents r = map (\<lambda>k. p_buffer q ! pipe_slot q (Suc k)) [0..<length xs]"
    unfolding pipe_contents_def fr sl by (simp add: r_def)
  moreover have "pipe_inv r" using q fr f by (simp add: pipe_inv_def r_def)
  ultimately show "\<exists>r. pipe_get q = Some (x, r) \<and> pipe_inv r \<and> pipe_contents r = xs" by metis
next
  fix q
  assume "pipe_inv q" "pipe_contents q = []"
  then have "pipe_fill q = 0" by (metis length_pipe_contents list.size(3))
  then show "pipe_get q = None" by (simp add: pipe_get_def pipe_empty_iff)
qed

lemma write_loop_fifo: "write_loop xs p = pipe_fifo.put_list xs p"
  by (induction xs arbitrary: p) (simp_all split: option.split)

lemma write_loop_spec:
  assumes "pipe_inv p"
  obtains q where "write_loop xs p = (drop (PIPE_BUF - pipe_fill p) xs, q)" "pipe_inv q"
    "pipe_contents q = pipe_contents p @ take (PIPE_BUF - pipe_fill p) xs"
  using pipe_fifo.put_list_spec [OF assms, of xs] that [of "snd (write_loop xs p)"]
  by (simp add: write_loop_fifo [symmetric] prod_eq_iff)

lemma pipe_get_writers: "pipe_get p = Some (c, q) \<Longrightarrow> writers q = writers p \<and> readers q = readers p"
  by (auto simp: pipe_get_def split: if_splits)

text \<open>\<open>pipe_read\<close> sleeps only on an empty pipe that still has writers; else it takes what is there,
  up to the requested count.\<close>

lemma read_loop_spec:
  assumes "pipe_inv p"
  shows "if n > 0 \<and> acc = [] \<and> pipe_contents p = [] \<and> writers p \<noteq> 0 then read_loop n acc p = Inr p
    else \<exists>q. read_loop n acc p = Inl (acc @ take n (pipe_contents p), q) \<and> pipe_inv q
      \<and> pipe_contents q = drop n (pipe_contents p) \<and> writers q = writers p"
  using assms
proof (induction n arbitrary: acc p)
  case 0
  then show ?case by simp
next
  case (Suc n)
  show ?case
  proof (cases "pipe_contents p")
    case Nil
    then show ?thesis using pipe_fifo.get_empty [OF Suc.prems Nil] Suc.prems by simp
  next
    case (Cons c cs)
    then obtain q where q: "pipe_get p = Some (c, q)" "pipe_inv q" "pipe_contents q = cs"
      using pipe_fifo.get_cons [OF Suc.prems Cons] by blast
    then show ?thesis
      using Suc.IH [OF q(2), of "acc @ [c]"] Cons pipe_get_writers [OF q(1)] by simp
  qed
qed

section \<open>Streams through a pipe\<close>

text \<open>
  A writer with data still to write and the bytes that readers have received.  The processes
  run in any order: the writer until it is done or the pipe is full, a reader with any
  count until it returns or sleeps.
\<close>

inductive pipe_step :: "pipe \<times> bytes \<times> bytes \<Rightarrow> pipe \<times> bytes \<times> bytes \<Rightarrow> bool" where
  writer: "write_loop rest p = (rest', q) \<Longrightarrow> pipe_step (p, rest, got) (q, rest', got)"
| reader: "read_loop n [] p = Inl (bs, q) \<Longrightarrow> pipe_step (p, rest, got) (q, rest, got @ bs)"
| reader_sleeps: "read_loop n [] p = Inr q \<Longrightarrow> pipe_step (p, rest, got) (q, rest, got)"

inductive_cases pipe_stepE: "pipe_step (p, rest, got) (q, rest', got')"

definition stream_of :: "pipe \<times> bytes \<times> bytes \<Rightarrow> bytes" where
  "stream_of st = (case st of (p, rest, got) \<Rightarrow> got @ pipe_contents p @ rest)"

lemma read_loop_Inl:
  assumes "pipe_inv p" and "read_loop n [] p = Inl (bs, q)"
  shows "pipe_inv q" "pipe_contents p = bs @ pipe_contents q" "bs = take n (pipe_contents p)"
proof -
  from read_loop_spec [OF assms(1), of n "[]"] assms(2)
  have "bs = take n (pipe_contents p)" "pipe_inv q" "pipe_contents q = drop n (pipe_contents p)"
    by (auto split: if_splits)
  then show "pipe_inv q" "pipe_contents p = bs @ pipe_contents q" "bs = take n (pipe_contents p)" by simp_all
qed

lemma read_loop_Inr:
  "pipe_inv p \<Longrightarrow> read_loop n [] p = Inr q \<Longrightarrow> q = p"
  using read_loop_spec [of p n "[]"] by (auto split: if_splits)

lemma pipe_step_stream:
  assumes "pipe_step st st'" and "pipe_inv (fst st)"
  shows "pipe_inv (fst st') \<and> stream_of st' = stream_of st"
  using assms
proof (induction rule: pipe_step.induct)
  case (writer rest p rest' q got)
  then obtain q' where "write_loop rest p = (drop (PIPE_BUF - pipe_fill p) rest, q')" "pipe_inv q'"
    "pipe_contents q' = pipe_contents p @ take (PIPE_BUF - pipe_fill p) rest"
    using write_loop_spec [of p rest] by auto
  with writer show ?case by (auto simp: stream_of_def)
next
  case (reader n p bs q rest got)
  then show ?case using read_loop_Inl [of p n bs q] by (simp add: stream_of_def)
next
  case (reader_sleeps n p q rest got)
  then show ?case using read_loop_Inr [of p n q] by (simp add: stream_of_def)
qed

text \<open>
  C7: a pipe is a byte stream.  However the runs of writer and readers interleave, the bytes
  received, the bytes in the pipe and the bytes still to be written are, in this order, exactly
  the old contents followed by the written data: nothing is lost, duplicated or
  reordered, also when the positions wrap around, and the pipe never holds more than 1024
  bytes.
\<close>

theorem pipe_stream:
  assumes "pipe_step\<^sup>*\<^sup>* (p0, data, []) (p, rest, got)" and "pipe_inv p0"
  shows "got @ pipe_contents p @ rest = pipe_contents p0 @ data \<and> length (pipe_contents p) \<le> PIPE_BUF"
proof -
  have "pipe_inv (fst st') \<and> stream_of st' = stream_of (p0, data, [])"
    if "pipe_step\<^sup>*\<^sup>* (p0, data, []) st'" for st'
    using that by (induction rule: rtranclp_induct) (use assms(2) pipe_step_stream in auto)
  from this [OF assms(1)] show ?thesis
    by (simp add: stream_of_def pipe_inv_def)
qed

text \<open>A pipe whose positions are about to wrap.\<close>

definition wrapping_pipe :: pipe where
  "wrapping_pipe = zero_pipe\<lparr>read_pos := - 1, write_pos := - 1, readers := 1, writers := 1\<rparr>"

lemma wrapping_pipe_inv: "pipe_inv wrapping_pipe" "pipe_contents wrapping_pipe = []"
  by (simp_all add: pipe_inv_def wrapping_pipe_def pipe_fill_def zero_pipe_def pipe_contents_def)

theorem pipe_stream_witness:
  "\<exists>p. pipe_step\<^sup>*\<^sup>* (wrapping_pipe, [1, 2, 3], []) (p, [], [1, 2]) \<and> pipe_contents p = [3]"
proof -
  obtain q where q: "write_loop [1, 2, 3] wrapping_pipe = ([], q)" "pipe_inv q" "pipe_contents q = [1, 2, 3]"
    using write_loop_spec [OF wrapping_pipe_inv(1), of "[1, 2, 3]"] wrapping_pipe_inv(2)
    by (auto simp: wrapping_pipe_def pipe_fill_def)
  then obtain r where r: "read_loop 2 [] q = Inl ([1, 2], r)"
    using read_loop_spec [OF q(2), of 2 "[]"] by auto
  have "pipe_step (q, [], []) (r, [], [] @ [1, 2])" by (rule pipe_step.reader [OF r])
  then have "pipe_step\<^sup>*\<^sup>* (q, [], []) (r, [], [1, 2])" by simp
  with pipe_step.writer [OF q(1)] have run: "pipe_step\<^sup>*\<^sup>* (wrapping_pipe, [1, 2, 3], []) (r, [], [1, 2])"
    by (rule converse_rtranclp_into_rtranclp)
  have "[1, 2] @ pipe_contents r @ [] = [1, 2, 3]"
    using pipe_stream [OF run wrapping_pipe_inv(1)] wrapping_pipe_inv(2) by simp
  with run show ?thesis by (intro exI [of _ r]) simp
qed

text \<open>One round: the writer runs, then a reader that asks for \<open>n\<close> bytes.\<close>

definition pipe_round :: "nat \<Rightarrow> pipe \<times> bytes \<times> bytes \<Rightarrow> pipe \<times> bytes \<times> bytes" where
  "pipe_round n st = (case st of (p, rest, got) \<Rightarrow>
     (case write_loop rest p of (rest', q) \<Rightarrow>
        (case read_loop n [] q of
           Inl (bs, r) \<Rightarrow> (r, rest', got @ bs)
         | Inr r \<Rightarrow> (r, rest', got))))"

lemma pipe_round_progress:
  assumes "0 < n" and "pipe_inv p"
  shows "\<exists>q rest' bs. pipe_round n (p, rest, got) = (q, rest', got @ bs) \<and> pipe_inv q
    \<and> bs @ pipe_contents q @ rest' = pipe_contents p @ rest
    \<and> (pipe_contents p @ rest \<noteq> [] \<longrightarrow> bs \<noteq> [])"
proof -
  obtain q where q: "write_loop rest p = (drop (PIPE_BUF - pipe_fill p) rest, q)" "pipe_inv q"
    "pipe_contents q = pipe_contents p @ take (PIPE_BUF - pipe_fill p) rest"
    by (rule write_loop_spec [OF assms(2)])
  have ne: "pipe_contents q \<noteq> []" if "pipe_contents p @ rest \<noteq> []"
  proof (cases "pipe_contents p = []")
    case True
    then have "pipe_fill p = 0" by (metis length_pipe_contents list.size(3))
    then show ?thesis using that q(3) True by simp
  next
    case False
    then show ?thesis using q(3) by simp
  qed
  show ?thesis
  proof (cases "read_loop n [] q")
    case (Inl br)
    then obtain bs r where r: "read_loop n [] q = Inl (bs, r)" by (cases br) auto
    note rl = read_loop_Inl [OF q(2) r]
    have "pipe_round n (p, rest, got) = (r, drop (PIPE_BUF - pipe_fill p) rest, got @ bs)"
      using q(1) r by (simp add: pipe_round_def)
    moreover have "bs @ pipe_contents r @ drop (PIPE_BUF - pipe_fill p) rest = pipe_contents p @ rest"
      using q(3) rl(2) by (metis append.assoc append_take_drop_id)
    moreover have "pipe_contents p @ rest \<noteq> [] \<longrightarrow> bs \<noteq> []"
      using ne rl(3) assms(1) by auto
    ultimately show ?thesis using rl(1) by blast
  next
    case (Inr r)
    have "pipe_contents q = []"
      using Inr read_loop_spec [OF q(2), of n "[]"] by (auto split: if_splits)
    then have "pipe_contents p @ rest = []" using ne by blast
    then show ?thesis using Inr q read_loop_Inr [OF q(2) Inr] by (auto simp: pipe_round_def)
  qed
qed

text \<open>
  C9: every write through a pipe completes.  A writer and a reader that take turns transfer data of
  any length, however much larger than the pipe it is: after as many rounds as there are
  bytes, all of them have been received and the pipe is empty.
\<close>

theorem pipe_transfer_completes:
  assumes "0 < n" and "pipe_inv p" and "length (pipe_contents p @ data) \<le> k"
  shows "\<exists>q. (pipe_round n ^^ k) (p, data, got) = (q, [], got @ pipe_contents p @ data) \<and> pipe_contents q = []"
  using assms(2,3)
proof (induction k arbitrary: p data got)
  case 0
  then show ?case by (simp add: pipe_contents_def)
next
  case (Suc k)
  obtain q rest' bs where q: "pipe_round n (p, data, got) = (q, rest', got @ bs)" "pipe_inv q"
    "bs @ pipe_contents q @ rest' = pipe_contents p @ data"
    "pipe_contents p @ data \<noteq> [] \<Longrightarrow> bs \<noteq> []"
    using pipe_round_progress [OF assms(1) Suc.prems(1), of data got] by blast
  have "length bs + length (pipe_contents q @ rest') = length (pipe_contents p @ data)"
    using arg_cong [OF q(3), of length] by simp
  moreover have "bs = [] \<Longrightarrow> length (pipe_contents p @ data) = 0" using q(4) by (metis list.size(3))
  ultimately have "length (pipe_contents q @ rest') \<le> k" using Suc.prems(2) by (cases bs) auto
  from Suc.IH [OF q(2) this, of "got @ bs"] q(1,3) show ?case
    by (simp add: funpow_Suc_right del: funpow.simps(2))
qed

theorem pipe_transfer_witness:
  "\<exists>k q. (pipe_round 7 ^^ k) (wrapping_pipe, replicate 5000 9, []) = (q, [], replicate 5000 9)"
  using pipe_transfer_completes [of 7 wrapping_pipe "replicate 5000 9" 5000 "[]"] wrapping_pipe_inv
  by (auto intro!: exI [of _ 5000])

section \<open>The operations in the kernel\<close>

lemma with_pipe_exec [kern_simps]:
  "f_type (files s ! f) = FT_PIPE \<Longrightarrow> f_pipe (files s ! f) = Some p \<Longrightarrow> with_pipe f msg k s = k p s"
  by (simp add: with_pipe_def kern_simps)

text \<open>
  The outcomes of \<open>read\<close> on a pipe.  An empty pipe with a writer left puts the process to
  sleep on the pipe and changes no pipe; otherwise the call returns the oldest bytes, at most
  as many as asked for, 0 at end of file, removes exactly them from the pipe, and wakes the processes
  that wait on it.
\<close>

theorem pipe_read_cases:
  assumes "f_type (files s ! f) = FT_PIPE" and "f_pipe (files s ! f) = Some p" and "p < length (pipes s)"
    and "pipe_inv (pipes s ! p)" and "cur_proc s = Some c" and "0 < n"
  shows "if pipe_contents (pipes s ! p) = [] \<and> writers (pipes s ! p) \<noteq> 0
    then \<exists>t. pipe_read f n s = Sleeping (WPipe p) t \<and> pipes t = pipes s
    else \<exists>q t. pipe_read f n s = Ok (take n (pipe_contents (pipes s ! p))) t
      \<and> pipes t = (pipes s)[p := q] \<and> pipe_inv q \<and> pipe_contents q = drop n (pipe_contents (pipes s ! p))
      \<and> procs t = map (wakeup_proc (WPipe p)) (procs s)"
proof (cases "pipe_contents (pipes s ! p) = [] \<and> writers (pipes s ! p) \<noteq> 0")
  case True
  then have "read_loop n [] (pipes s ! p) = Inr (pipes s ! p)"
    using read_loop_spec [OF assms(4), of n "[]"] assms(6) by simp
  then show ?thesis
    using True assms by (simp add: pipe_read_def kern_simps sleep_def upd_pipe_def upd_proc_def)
next
  case False
  then obtain q where "read_loop n [] (pipes s ! p) = Inl (take n (pipe_contents (pipes s ! p)), q)"
    "pipe_inv q" "pipe_contents q = drop n (pipe_contents (pipes s ! p))"
    using read_loop_spec [OF assms(4), of n "[]"] by auto
  then show ?thesis
    using False assms
    by (intro if_not_P [THEN iffD2] exI [of _ q])
      (simp_all add: pipe_read_def kern_simps upd_pipe_def wakeup_def wakeup_state_def)
qed

text \<open>A process with a pipe: file 0 is the read end, file 1 the write end.\<close>

definition pipe_state :: kstate where
  "pipe_state = two_procs\<lparr>
     files := (replicate NFILE zero_file)
       [0 := zero_file\<lparr>f_type := FT_PIPE, f_pipe := Some 3, f_flags := O_RDONLY, f_ref_count := 1\<rparr>,
        1 := zero_file\<lparr>f_type := FT_PIPE, f_pipe := Some 3, f_flags := O_WRONLY, f_ref_count := 1\<rparr>],
     pipes := (replicate NPIPES zero_pipe)[3 := zero_pipe\<lparr>readers := 1, writers := 1\<rparr>]\<rparr>"

lemma pipe_state_simps [simp]:
  "files pipe_state ! 0 = zero_file\<lparr>f_type := FT_PIPE, f_pipe := Some 3, f_flags := O_RDONLY, f_ref_count := 1\<rparr>"
  "files pipe_state ! Suc 0 = zero_file\<lparr>f_type := FT_PIPE, f_pipe := Some 3, f_flags := O_WRONLY, f_ref_count := 1\<rparr>"
  "pipes pipe_state ! 3 = zero_pipe\<lparr>readers := 1, writers := 1\<rparr>" "length (pipes pipe_state) = 16"
  "length (files pipe_state) = 32" "cur_proc pipe_state = Some 0"
  by (simp_all add: pipe_state_def)

theorem pipe_read_witness:
  "\<exists>t. pipe_read 0 10 pipe_state = Sleeping (WPipe 3) t \<and> pipes t = pipes pipe_state"
proof -
  have p: "pipe_inv (pipes pipe_state ! 3)" "pipe_contents (pipes pipe_state ! 3) = []"
    by (simp_all add: pipe_inv_def pipe_fill_def zero_pipe_def pipe_contents_def)
  then show ?thesis
    using pipe_read_cases [of pipe_state 0 3 0 10] by simp
qed

definition drop_writer :: "kfile \<Rightarrow> pipe \<Rightarrow> pipe" where
  "drop_writer file x = (if f_flags file AND O_WRONLY \<noteq> 0 then x\<lparr>writers := writers x - 1\<rparr> else x)"

lemma pipe_close_exec:
  assumes "f_type (files s ! f) = FT_PIPE" and "f_pipe (files s ! f) = Some p"
    and "f_ref_count (files s ! f) = 1" and "f < length (files s)" and "p < length (pipes s)"
    and "readers (pipes s ! p) \<noteq> 0"
  shows "pipe_close f s = Ok () (upd_pipe p (drop_writer (files s ! f)) (upd_file f (\<lambda>x. x\<lparr>f_ref_count := 0\<rparr>) s))"
  using assms by (simp add: pipe_close_def kern_simps upd_file_def upd_pipe_def drop_writer_def)

text \<open>
  C40: a pipe is never given back.  \<open>O_RDONLY\<close> is 0, so \<open>pipe_close\<close> never counts a reader down:
  after both ends have been closed, in this or the other order, the pipe still has a reader
  and \<open>pipe_create\<close> does not find its entry free.
\<close>

theorem pipe_close_leaks:
  assumes "f_type (files s ! r) = FT_PIPE" and "f_pipe (files s ! r) = Some p"
    and "f_flags (files s ! r) = O_RDONLY" and "f_ref_count (files s ! r) = 1" and "r < length (files s)"
    and "f_type (files s ! w) = FT_PIPE" and "f_pipe (files s ! w) = Some p"
    and "f_flags (files s ! w) = O_WRONLY" and "f_ref_count (files s ! w) = 1" and "w < length (files s)"
    and "r \<noteq> w" and "p < length (pipes s)" and "readers (pipes s ! p) = 1" and "writers (pipes s ! p) = 1"
  shows "\<forall>m\<in>{thenK (pipe_close w) (pipe_close r), thenK (pipe_close r) (pipe_close w)}.
    \<exists>t. m s = Ok () t \<and> readers (pipes t ! p) = 1 \<and> writers (pipes t ! p) = 0
      \<and> pipe_create t \<noteq> Ok (Some p) t"
proof -
  have nf: "first_index (\<lambda>p. readers p = 0 \<and> writers p = 0) xs \<noteq> Some i" if "readers (xs ! i) = 1" for xs i
    using that first_index_SomeD(2) [of "\<lambda>p. readers p = 0 \<and> writers p = 0" xs i] by auto
  define close where "close = (\<lambda>f u. upd_pipe p (drop_writer (files u ! f)) (upd_file f (\<lambda>x. x\<lparr>f_ref_count := 0\<rparr>) u))"
  have keep: "f \<noteq> g \<Longrightarrow> files (close f u) ! g = files u ! g" "length (files (close f u)) = length (files u)"
    "length (pipes (close f u)) = length (pipes u)"
    "p < length (pipes u) \<Longrightarrow> readers (pipes (close f u) ! p) = readers (pipes u ! p)" for f g u
    by (simp_all add: close_def upd_pipe_def upd_file_def drop_writer_def)
  have cl: "pipe_close f u = Ok () (close f u)"
    if "f_type (files u ! f) = FT_PIPE" "f_pipe (files u ! f) = Some p" "f_ref_count (files u ! f) = 1"
      "f < length (files u)" "p < length (pipes u)" "readers (pipes u ! p) = 1" for f u
    using pipe_close_exec [of u f p] that by (simp add: close_def)
  have "pipe_close w s = Ok () (close w s)" "pipe_close r s = Ok () (close r s)"
    by (rule cl; use assms in simp)+
  moreover have "pipe_close r (close w s) = Ok () (close r (close w s))"
    "pipe_close w (close r s) = Ok () (close w (close r s))"
    by (rule cl; use assms keep in simp)+
  ultimately have "thenK (pipe_close w) (pipe_close r) s = Ok () (close r (close w s))"
    "thenK (pipe_close r) (pipe_close w) s = Ok () (close w (close r s))"
    by (simp_all add: thenK_Ok)
  moreover have "readers (pipes t ! p) = 1 \<and> writers (pipes t ! p) = 0"
    if "t = close r (close w s) \<or> t = close w (close r s)" for t
    using that assms by (auto simp: close_def upd_pipe_def upd_file_def drop_writer_def)
  ultimately show ?thesis using nf by (auto simp: pipe_create_def kern_simps)
qed

theorem pipe_close_witness:
  "\<exists>t. thenK (pipe_close 1) (pipe_close 0) pipe_state = Ok () t \<and> readers (pipes t ! 3) = 1"
  using pipe_close_leaks [of pipe_state 0 3 1] by auto

end
