(* ===== verification/Frames.thy ===== *)
theory Frames
  imports Namei Pipe
begin

text \<open>
  What the file system leaves alone.  A kernel path keeps a part of the state if that part is the same
  whenever the path returns or sleeps, for a caller that is a live process or the kernel before the first
  process, and if it also keeps which processes are live; the rules follow the structure of the code,
  so that every operation below the open files is shown to keep the tables of open files and
  descriptors.
\<close>

definition lives :: "kstate \<Rightarrow> bool list \<times> nat option" where
  "lives s = (map live_proc (procs s), cur_proc s)"

definition cur_live :: "kstate \<Rightarrow> bool" where
  "cur_live s \<longleftrightarrow> (\<forall>c. cur_proc s = Some c \<longrightarrow> c < length (procs s) \<and> live_proc (procs s ! c))"

lemma cur_live_lives: "cur_live s \<longleftrightarrow> (case lives s of (l, c) \<Rightarrow> \<forall>i. c = Some i \<longrightarrow> i < length l \<and> l ! i)"
  by (auto simp: cur_live_def lives_def)

definition ends_in :: "('a, kstate) outcome \<Rightarrow> kstate \<Rightarrow> bool" where
  "ends_in r t \<longleftrightarrow> (\<exists>x. r = Ok x t) \<or> (\<exists>w. r = Sleeping w t)"

lemma ends_in_simps [simp]:
  "ends_in (Ok x s) t \<longleftrightarrow> s = t" "ends_in (Sleeping w s) t \<longleftrightarrow> s = t" "\<not> ends_in (Panic msg) t" "\<not> ends_in Fault t"
  by (auto simp: ends_in_def)

definition keeps :: "(kstate \<Rightarrow> 'b) \<Rightarrow> 'a kernel \<Rightarrow> bool" where
  "keeps P m \<longleftrightarrow> (\<forall>s t. cur_live s \<longrightarrow> ends_in (m s) t \<longrightarrow> lives t = lives s \<and> P t = P s)"

named_theorems keep \<open>paths that keep a part of the state\<close>

lemma keepsD: "keeps P m \<Longrightarrow> cur_live s \<Longrightarrow> m s = Ok x t \<Longrightarrow> P t = P s"
  by (auto simp: keeps_def)

lemma keeps_live: "keeps P m \<Longrightarrow> cur_live s \<Longrightarrow> ends_in (m s) t \<Longrightarrow> cur_live t"
proof -
  assume "keeps P m" "cur_live s" "ends_in (m s) t"
  then have "lives t = lives s" by (auto simp: keeps_def)
  then show "cur_live t" using \<open>cur_live s\<close> by (simp add: cur_live_lives)
qed

lemma keeps_basic [keep]:
  "keeps P (returnK x)" "keeps P (panic msg)" "keeps P faultK" "keeps P (getK g)"
  by (simp_all add: keeps_def kern_simps)

lemma keeps_modifyK [keep]: "(\<And>s. lives (f s) = lives s \<and> P (f s) = P s) \<Longrightarrow> keeps P (modifyK f)"
  by (auto simp: keeps_def kern_simps)

lemma keeps_bindK [keep]:
  assumes m: "keeps P m" and f: "\<And>x. keeps P (f x)"
  shows "keeps P (bindK m f)"
  unfolding keeps_def
proof (intro allI impI)
  fix s u
  assume s: "cur_live s" and run: "ends_in (bindK m f s) u"
  show "lives u = lives s \<and> P u = P s"
  proof (cases "m s")
    case (Ok x t)
    then have "cur_live t" "lives t = lives s" "P t = P s" using m s keeps_live [OF m s] unfolding keeps_def by auto
    moreover have "ends_in (f x t) u" using run Ok by (simp add: bindK_def)
    ultimately show ?thesis using f unfolding keeps_def by metis
  next
    case (Sleeping w t)
    then show ?thesis using run m s by (simp add: bindK_def keeps_def)
  qed (use run in \<open>simp_all add: bindK_def\<close>)
qed

lemma keeps_thenK [keep]: "keeps P m \<Longrightarrow> keeps P n \<Longrightarrow> keeps P (thenK m n)"
  unfolding thenK_def by (rule keeps_bindK)

lemma keeps_whenK [keep]: "keeps P m \<Longrightarrow> keeps P (whenK c m)"
  unfolding whenK_def by (simp add: keeps_basic)

lemma keeps_if [keep]: "(c \<Longrightarrow> keeps P m) \<Longrightarrow> (\<not> c \<Longrightarrow> keeps P n) \<Longrightarrow> keeps P (if c then m else n)"
  by simp

lemma keeps_case_option [keep]:
  "keeps P n \<Longrightarrow> (\<And>x. v = Some x \<Longrightarrow> keeps P (f x)) \<Longrightarrow> keeps P (case v of None \<Rightarrow> n | Some x \<Rightarrow> f x)"
  by (cases v) auto

lemma keeps_case_prod [keep]: "(\<And>x y. keeps P (f x y)) \<Longrightarrow> keeps P (case v of (x, y) \<Rightarrow> f x y)"
  by (cases v) auto

lemma keeps_case_sum [keep]:
  "(\<And>x. keeps P (f x)) \<Longrightarrow> (\<And>x. keeps P (g x)) \<Longrightarrow> keeps P (case v of Inl x \<Rightarrow> f x | Inr x \<Rightarrow> g x)"
  by (cases v) auto

lemma keeps_case_bool [keep]: "keeps P m \<Longrightarrow> keeps P n \<Longrightarrow> keeps P (case b of True \<Rightarrow> m | False \<Rightarrow> n)"
  by (cases b) auto

lemma keeps_forK [keep]: "(\<And>x. keeps P (body x)) \<Longrightarrow> keeps P (forK xs body)"
  by (induction xs) (simp_all add: keep)

lemma keeps_with_cur [keep]: "(\<And>c. keeps P (f c)) \<Longrightarrow> keeps P (with_cur f)"
  unfolding with_cur_def by (intro keep)

lemma keeps_Let [keep]: "keeps P (f v) \<Longrightarrow> keeps P (let x = v in f x)"
  by simp

section \<open>Open files\<close>

text \<open>The descriptors of a process: an exiting process closes its files but leaves the pointers in its
  entry of the process table, which is cleared when the entry is used again.\<close>

definition ofile_of :: "proc \<Rightarrow> nat option list" where
  "ofile_of q = (if live_proc q then p_ofile q else replicate NFILE None)"

lemma ofile_of_cong: "p_state p = p_state q \<Longrightarrow> p_ofile p = p_ofile q \<Longrightarrow> ofile_of p = ofile_of q"
  by (simp add: ofile_of_def live_proc_def)

lemma ofile_of_wakeup [simp]: "live_proc (wakeup_proc w q) = live_proc q" "ofile_of (wakeup_proc w q) = ofile_of q"
  by (simp_all add: ofile_of_def live_proc_def wakeup_proc_def)

text \<open>The table of open files, the descriptors of all processes, and which process runs.\<close>

definition ofiles :: "kstate \<Rightarrow> kfile list \<times> nat option list list \<times> nat option" where
  "ofiles s = (files s, map ofile_of (procs s), cur_proc s)"

lemma lives_upd [simp]:
  "lives (upd_buf i f s) = lives s" "lives (upd_wd i g s) = lives s" "lives (upd_inode i h s) = lives s"
  "lives (upd_tty i u s) = lives s" "lives (ide_write_multiple i a b s) = lives s"
  "lives (set_next p q s) = lives s" "lives (set_prev p q s) = lives s"
  "lives (transmit i c s) = lives s" "lives (upd_file n v s) = lives s" "lives (upd_pipe n w s) = lives s"
  by (simp_all add: lives_def upd_buf_def upd_wd_def upd_inode_def upd_tty_def ide_write_multiple_def set_next_def
      set_prev_def transmit_def upd_file_def upd_pipe_def split: bptr.split)

lemma lives_links [simp]: "lives (free_remove i s) = lives s" "lives (free_append i s) = lives s"
  by (simp_all add: free_remove_def free_append_def Let_def)

lemma map_upd_same: "(\<And>q. g (f q) = g q) \<Longrightarrow> map g (xs[p := f (xs ! p)]) = map g xs"
  by (simp add: map_update) (metis list_update_beyond list_update_id map_update not_le nth_map)

lemma lives_proc [simp]: "(\<And>q. p_state (f q) = p_state q) \<Longrightarrow> lives (upd_proc p f s) = lives s"
  by (simp add: lives_def upd_proc_def map_upd_same live_proc_def)

lemma ofiles_upd [simp]:
  "ofiles (upd_buf i f s) = ofiles s" "ofiles (upd_wd i g s) = ofiles s" "ofiles (upd_inode i h s) = ofiles s"
  "ofiles (upd_tty i u s) = ofiles s" "ofiles (ide_write_multiple i a b s) = ofiles s"
  "ofiles (set_next p q s) = ofiles s" "ofiles (set_prev p q s) = ofiles s"
  "ofiles (transmit i c s) = ofiles s"
  by (simp_all add: ofiles_def upd_buf_def upd_wd_def upd_inode_def upd_tty_def ide_write_multiple_def set_next_def
      set_prev_def transmit_def split: bptr.split)

lemma ofiles_links [simp]: "ofiles (free_remove i s) = ofiles s" "ofiles (free_append i s) = ofiles s"
  by (simp_all add: free_remove_def free_append_def Let_def)

lemma ofiles_proc [simp]:
  "(\<And>q. p_ofile (f q) = p_ofile q) \<Longrightarrow> (\<And>q. p_state (f q) = p_state q) \<Longrightarrow> ofiles (upd_proc p f s) = ofiles s"
  by (simp add: ofiles_def upd_proc_def map_upd_same ofile_of_def live_proc_def)

text \<open>A live process that goes to sleep stays live.\<close>

lemma asleep:
  assumes "cur_live s" and "cur_proc s = Some p"
  shows "lives (upd_proc p (\<lambda>q. q\<lparr>p_wchan := w, p_state := STATE_SLEEP\<rparr>) s) = lives s"
    and "ofiles (upd_proc p (\<lambda>q. q\<lparr>p_wchan := w, p_state := STATE_SLEEP\<rparr>) s) = ofiles s"
proof -
  have "p < length (procs s)" "live_proc (procs s ! p)" using assms by (simp_all add: cur_live_def)
  then show "lives (upd_proc p (\<lambda>q. q\<lparr>p_wchan := w, p_state := STATE_SLEEP\<rparr>) s) = lives s"
    and "ofiles (upd_proc p (\<lambda>q. q\<lparr>p_wchan := w, p_state := STATE_SLEEP\<rparr>) s) = ofiles s"
    by (simp_all add: lives_def ofiles_def upd_proc_def map_update ofile_of_def live_proc_def list_update_same_conv)
qed

lemma keeps_sleep [keep]: "keeps ofiles (sleep w)"
  by (auto simp: keeps_def sleep_def asleep split: option.splits)

lemma keeps_wakeup [keep]: "keeps ofiles (wakeup w)"
  unfolding wakeup_def by (intro keep) (simp add: ofiles_def lives_def wakeup_state_def comp_def)

lemma keeps_disk [keep]:
  "keeps ofiles (iodone i)" "keeps ofiles (wd_intr d r q data)" "keeps ofiles (wd_await d sec)"
  "keeps ofiles (wd_read i)" "keeps ofiles (wd_write i)"
proof -
  show 1: "keeps ofiles (iodone i)" for i unfolding iodone_def by (intro keep) simp_all
  show 2: "keeps ofiles (wd_intr d r q data)" for d r q data unfolding wd_intr_def by (intro keep 1) simp_all
  show 3: "keeps ofiles (wd_await d sec)" for d sec
    unfolding keeps_def
  proof (intro allI impI)
    fix s t
    assume s: "cur_live s" and run: "ends_in (wd_await d sec s) t"
    define u where "u = (case cur_proc s of None \<Rightarrow> s
      | Some p \<Rightarrow> upd_proc p (\<lambda>q. q\<lparr>p_wchan := WFun ''wd_intr'', p_state := STATE_SLEEP\<rparr>) s)"
    have wd: "ends_in (wd_intr d True True (ide_read_multiple d sec s) u) t"
      using run by (auto simp: wd_await_def u_def kern_simps split: option.splits)
    have "lives u = lives s \<and> ofiles u = ofiles s"
      using asleep [OF s] by (simp add: u_def split: option.split)
    moreover from this s have "cur_live u" by (simp add: cur_live_lives)
    ultimately show "lives t = lives s \<and> ofiles t = ofiles s" using 2 [of d True True] wd unfolding keeps_def by metis
  qed
  show "keeps ofiles (wd_read i)" unfolding wd_read_def by (intro keep 1 3) simp_all
  show "keeps ofiles (wd_write i)" unfolding wd_write_def by (intro keep 1) simp_all
qed

lemma keeps_bdev:
  "\<not> num_bdev \<le> maj \<Longrightarrow> fst (snd (bdevsw ! maj)) = Some f \<Longrightarrow> keeps ofiles (f i)"
  "\<not> num_bdev \<le> maj \<Longrightarrow> snd (snd (bdevsw ! maj)) = Some f \<Longrightarrow> keeps ofiles (f i)"
  by (auto simp: num_bdev_def bdevsw_def not_le keep)

lemma keeps_bwrite [keep]: "keeps ofiles (bwrite i)"
  unfolding bwrite_def by (intro keep) (simp_all add: keeps_bdev)

lemma keeps_getblk [keep]: "keeps ofiles (getblk dev n)"
  unfolding getblk_def by (intro keep | simp add: keep split: bptr.split)+

lemma keeps_bread [keep]: "keeps ofiles (bread dev n)"
  unfolding bread_def by (intro keep) (simp_all add: keeps_bdev)

lemma keeps_brelse [keep]: "keeps ofiles (brelse i)"
  unfolding brelse_def by (intro keep) simp_all

lemma keeps_balloc [keep]: "keeps ofiles (balloc dev)"
proof -
  have "keeps ofiles (balloc_loop dev zbs no)" for zbs no
    by (induction zbs arbitrary: no) (auto intro!: keep)
  then show ?thesis unfolding balloc_def by (intro keep)
qed

lemma keeps_bfree [keep]: "keeps ofiles (bfree dev no)"
  unfolding bfree_def by (intro keep) simp_all

lemma keeps_inode [keep]:
  "keeps ofiles (iunlock k)" "keeps ofiles (ilock k)" "keeps ofiles (iupdate k)" "keeps ofiles (idup k)"
  "keeps ofiles (access ip m)" "keeps ofiles (istat k)"
  unfolding iunlock_def ilock_def iupdate_def idup_def access_def istat_def by (intro keep; simp)+

lemma keeps_iget [keep]: "keeps ofiles (iget dev no)"
  unfolding iget_def by (intro keep) simp_all

lemma keeps_bmap [keep]: "keeps ofiles (bmap k x fl)"
  unfolding bmap_def by (intro keep) simp_all

lemma keeps_terminal [keep]:
  assumes "keeps ofiles unlock"
  shows "keeps ofiles (uart_putchar dev c)" "keeps ofiles (tty_write dev str)"
    "keeps ofiles (tty_read_from unlock dev n dest i c)" "keeps ofiles (tty_read unlock dev dst)"
proof -
  show 1: "keeps ofiles (uart_putchar dev c)" for dev c unfolding uart_putchar_def by (intro keep) simp_all
  have 2: "keeps ofiles (putchars (uart_putchar dev) str n)" for dev str n
    by (induction str) (auto intro!: keep 1)
  show 3: "keeps ofiles (tty_write dev str)" for dev str
  proof -
    have "keeps ofiles (putchars (putc dev) str n)" if "m < num_cdev" "cdev_putchar ! m = Some putc" for putc m n
      using that 2 by (auto simp: num_cdev_def cdev_tty_def cdev_putchar_def less_Suc_eq nth_Cons')
    then show ?thesis unfolding tty_write_def by (intro keep) (simp_all add: not_le)
  qed
  have w: "keeps ofiles (with_tty dev k)" if "\<And>i. keeps ofiles (k i)" for dev and k :: "nat \<Rightarrow> 'b kernel"
    unfolding with_tty_def by (intro keep that)
  show 4: "keeps ofiles (tty_read_from unlock dev n dest i c)" for dev n dest i c
    unfolding tty_read_from_def
    by (intro w keep) (auto intro!: keep 3 assms simp: signal_pending_def split: tty_result.split)
  show "keeps ofiles (tty_read unlock dev dst)"
    unfolding tty_read_def by (intro keep w 4) simp_all
qed

lemma keeps_readi [keep]: "keeps ofiles (readi k dst off)"
proof -
  have 1: "keeps ofiles (read_blocks dev no o' n)" for dev no o' n
  proof (induction dev no o' n rule: read_blocks.induct)
    case (1 dev no o' n)
    show ?case by (subst read_blocks.simps) (intro keep; use 1 in simp)
  qed
  have 2: "keeps ofiles (read_segs k dev x o' n)" for k dev x o' n
  proof (induction k dev x o' n rule: read_segs.induct)
    case (1 k dev x o' n)
    show ?case by (subst read_segs.simps) (intro keep; use 1 in simp)
  qed
  have 3: "keeps ofiles ((cdev_read ! m) (iunlock k) dev dst)" if "m < num_cdev" for m k dev dst
    using that keeps_terminal(4) [OF keeps_inode(1)]
    by (auto simp: num_cdev_def cdev_tty_def cdev_read_def less_Suc_eq null_read_def zero_read_def keep)
  show ?thesis unfolding readi_def by (intro keep 1 2 3) simp_all
qed

lemma keeps_writei [keep]: "keeps ofiles (writei k src off)"
proof -
  have 2: "keeps ofiles (write_segs k dev x o' data)" for k dev x o' data
  proof (induction k dev x o' data rule: write_segs.induct)
    case (1 k dev x o' data)
    show ?case by (subst write_segs.simps) (intro keep; use 1 in simp)
  qed
  have 3: "keeps ofiles ((cdev_write ! m) dev str)" if "m < num_cdev" for m dev str
    using that keeps_terminal(2) [OF keeps_inode(1)]
    by (auto simp: num_cdev_def cdev_tty_def cdev_write_def less_Suc_eq null_write_def keep)
  show ?thesis unfolding writei_def by (intro keep 2 3) simp_all
qed

lemma keeps_itrunc [keep]: "keeps ofiles (itrunc k)"
  unfolding itrunc_def by (intro keep) simp_all

lemma keeps_ifree [keep]: "keeps ofiles (ifree dev no)"
  unfolding ifree_def by (intro keep) simp_all

lemma keeps_iput [keep]: "keeps ofiles (iput k)" "keeps ofiles (iunlockput k)"
  unfolding iput_def iunlockput_def by (intro keep; simp)+

lemma keeps_ialloc [keep]: "keeps ofiles (ialloc mode)"
proof -
  have "keeps ofiles (ialloc_loop ibs no)" for ibs no
    by (induction ibs arbitrary: no) (auto intro!: keep)
  then show ?thesis unfolding ialloc_def time_def by (intro keep) simp_all
qed

lemma keeps_walk [keep]: "keeps ofiles (walk named parent p k name)"
proof (induction named parent p k name rule: walk.induct)
  case (1 named parent p k name)
  show ?case by (subst walk.simps) (intro keep; use 1 in simp)
qed

lemma keeps_namei [keep]:
  "keeps ofiles (nameicore path named parent)" "keeps ofiles (namei path)" "keeps ofiles (nameiname path)" "keeps ofiles (parenti path)"
  unfolding nameicore_def namei_def nameiname_def parenti_def by (intro keep)+

lemma keeps_chdir [keep]: "keeps ofiles (chdir path)"
  unfolding chdir_def by (intro keep) simp_all

end
