(* ===== verification/Filetab.thy ===== *)
theory Filetab
  imports Frames
begin

text \<open>
  Open files and the system calls on them: \<open>sys/kern/file.c\<close>, \<open>sys_pipe\<close> of \<open>sys/kern/pipe.c\<close>, and
  \<open>read\<close> and \<open>write\<close> of \<open>sys/libkern\<close>.  A descriptor indexes the table of the process, whose entries
  point into the table of open files.
\<close>

section \<open>Descriptors and open files\<close>

definition file_init :: "unit kernel" where
  "file_init = modifyK (\<lambda>s. s\<lparr>files := replicate NFILE zero_file\<rparr>)"

definition file_fd_alloc :: "nat \<Rightarrow> nat \<Rightarrow> int kernel" where
  "file_fd_alloc p f =
     bindK (getK (\<lambda>s. first_index (\<lambda>x. x = None) (p_ofile (procs s ! p)))) (\<lambda>r.
     case r of
       Some i \<Rightarrow>
         thenK (modifyK (upd_proc p (\<lambda>q. q\<lparr>p_ofile := (p_ofile q)[i := Some f]\<rparr>)))
         (returnK (int i))
     | None \<Rightarrow> returnK (- EMFILE))"

definition file_alloc :: "nat option kernel" where
  "file_alloc =
     bindK (getK (\<lambda>s. first_index (\<lambda>x. f_ref_count x = 0) (files s))) (\<lambda>r.
     case r of
       Some f \<Rightarrow> thenK (modifyK (upd_file f (\<lambda>_. zero_file\<lparr>f_ref_count := 1\<rparr>))) (returnK (Some f))
     | None \<Rightarrow> returnK None)"

text \<open>\<open>file_close(NULL)\<close> returns at once.\<close>

definition file_close :: "nat \<Rightarrow> unit kernel" where
  "file_close f =
     bindK (getK (\<lambda>s. files s ! f)) (\<lambda>file.
     if f_type file = FT_PIPE then pipe_close f
     else if f_type file = FT_INODE then
       (if f_ref_count file \<le> 0 then panic ''file_close''
        else
          thenK (modifyK (upd_file f (\<lambda>x. x\<lparr>f_ref_count := f_ref_count x - 1\<rparr>)))
          (whenK (f_ref_count file - 1 = 0)
             (case f_inode file of
                None \<Rightarrow> returnK ()
              | Some k \<Rightarrow> thenK (iput k) (modifyK (upd_file f (\<lambda>x. x\<lparr>f_inode := None\<rparr>))))))
     else returnK ())"

text \<open>
  \<open>cur_proc->ofile[fd]\<close> after the range check \<open>fd < 0 || fd > bound\<close> of the caller.  The table has
  \<open>NFILE\<close> entries; a caller whose bound lets \<open>NFILE\<close> through reads past its end.
\<close>

definition with_fd :: "int \<Rightarrow> int \<Rightarrow> (nat \<Rightarrow> nat \<Rightarrow> int kernel) \<Rightarrow> int kernel" where
  "with_fd bound fd k =
     (if fd < 0 \<or> fd > bound then returnK (- EBADF)
      else if nat fd \<ge> NFILE then faultK
      else
        with_cur (\<lambda>c.
        bindK (getK (\<lambda>s. p_ofile (procs s ! c) ! nat fd)) (\<lambda>x.
        case x of None \<Rightarrow> returnK (- EBADF) | Some f \<Rightarrow> k c f)))"

abbreviation (input) LAST_FD :: int where "LAST_FD \<equiv> int NFILE - 1"

definition close :: "int \<Rightarrow> int kernel" where
  "close fd =
     with_fd LAST_FD fd (\<lambda>c f.
     bindK (getK (\<lambda>s. f_type (files s ! f))) (\<lambda>ty.
     thenK (if ty = FT_PIPE then pipe_close f else if ty = FT_INODE then file_close f else returnK ())
     (thenK (modifyK (upd_proc c (\<lambda>q. q\<lparr>p_ofile := (p_ofile q)[nat fd := None]\<rparr>)))
     (returnK 0))))"

definition file_dup :: "nat \<Rightarrow> nat kernel" where
  "file_dup f = thenK (modifyK (upd_file f (\<lambda>x. x\<lparr>f_ref_count := f_ref_count x + 1\<rparr>))) (returnK f)"

definition dup :: "int \<Rightarrow> int kernel" where
  "dup fd =
     with_fd (int NFILE) fd (\<lambda>c f.
     bindK (file_fd_alloc c f) (\<lambda>new_fd.
     thenK (whenK (new_fd \<ge> 0 \<and> new_fd < int NFILE) (thenK (file_dup f) (returnK ())))
     (returnK new_fd)))"

definition dup2 :: "int \<Rightarrow> int \<Rightarrow> int kernel" where
  "dup2 old_fd new_fd =
     with_fd (int NFILE) old_fd (\<lambda>c f.
     if new_fd < 0 \<or> new_fd > int NFILE then returnK (- EBADF)
     else if nat new_fd \<ge> NFILE then faultK
     else
       bindK (getK (\<lambda>s. p_ofile (procs s ! c) ! nat new_fd)) (\<lambda>x.
       thenK (case x of None \<Rightarrow> returnK () | Some g \<Rightarrow> file_close g)
       (thenK (file_dup f)
       (thenK (modifyK (upd_proc c (\<lambda>q. q\<lparr>p_ofile := (p_ofile q)[nat new_fd := Some f]\<rparr>)))
       (returnK new_fd)))))"

section \<open>Reading and writing\<close>

text \<open>\<open>file->inode\<close> of a pipe is NULL.\<close>

definition with_finode :: "nat \<Rightarrow> (nat \<Rightarrow> 'a kernel) \<Rightarrow> 'a kernel" where
  "with_finode f k =
     bindK (getK (\<lambda>s. f_inode (files s ! f))) (\<lambda>x. case x of None \<Rightarrow> faultK | Some i \<Rightarrow> k i)"

definition advance :: "nat \<Rightarrow> int \<Rightarrow> unit kernel" where
  "advance f ret = whenK (ret > 0) (modifyK (upd_file f (\<lambda>x. x\<lparr>f_offset := to_long (f_offset x + ret)\<rparr>)))"

definition file_read :: "nat \<Rightarrow> bytes \<Rightarrow> (int \<times> bytes) kernel" where
  "file_read f buf =
     with_finode f (\<lambda>k.
     bindK (ilock k) (\<lambda>lockstat.
     if lockstat \<noteq> 0 then returnK (lockstat, buf)
     else
       bindK (getK (\<lambda>s. f_offset (files s ! f))) (\<lambda>off.
       bindK (readi k buf off) (\<lambda>(ret, buf').
       thenK (advance f ret)
       (thenK (iunlock k)
       (returnK (ret, buf')))))))"

definition file_write :: "nat \<Rightarrow> bytes \<Rightarrow> int kernel" where
  "file_write f buf =
     with_finode f (\<lambda>k.
     thenK (ilock k)
     (bindK (getK (\<lambda>s. f_offset (files s ! f))) (\<lambda>off.
      bindK (writei k buf (of_int off)) (\<lambda>ret.
      thenK (advance f ret)
      (thenK (iunlock k)
      (returnK ret))))))"

text \<open>\<open>read\<close> and \<open>write\<close>; a buffer is its contents.\<close>

definition sys_read :: "int \<Rightarrow> bytes \<Rightarrow> (int \<times> bytes) kernel" where
  "sys_read fd buf =
     (if fd < 0 \<or> fd \<ge> int NFILE then returnK (- EBADF, buf)
      else
        with_cur (\<lambda>c.
        bindK (getK (\<lambda>s. p_ofile (procs s ! c) ! nat fd)) (\<lambda>x.
        case x of
          None \<Rightarrow> returnK (- EBADF, buf)
        | Some f \<Rightarrow>
            bindK (getK (\<lambda>s. f_type (files s ! f))) (\<lambda>ty.
            if ty = FT_INODE then file_read f buf
            else if ty = FT_PIPE then
              bindK (pipe_read f (length buf)) (\<lambda>bs. returnK (int (length bs), overwrite buf 0 bs))
            else returnK (- EINVAL, buf)))))"

definition sys_write :: "int \<Rightarrow> bytes \<Rightarrow> int kernel" where
  "sys_write fd buf =
     with_fd LAST_FD fd (\<lambda>c f.
     bindK (getK (\<lambda>s. f_type (files s ! f))) (\<lambda>ty.
     if ty = FT_INODE then file_write f buf
     else if ty = FT_PIPE then bindK (pipe_write f buf) (\<lambda>n. returnK (int n))
     else returnK (- EINVAL)))"

section \<open>Directories\<close>

text \<open>The search for a free entry by \<open>wdir\<close> and for a name by \<open>sys_unlink\<close>: entries are read one after the
  other until a short read; the result is the offset and the last contents of \<open>entry\<close>.  On a file
  with data the read at its end, \<open>limit\<close>, is short; on a device that delivers data forever the loop
  would not end, which is no result here.\<close>

function scan_dir :: "(bytes \<Rightarrow> bool) \<Rightarrow> nat \<Rightarrow> nat \<Rightarrow> nat \<Rightarrow> bytes \<Rightarrow> (bool \<times> nat \<times> bytes) kernel" where
  "scan_dir stop k limit offset entry =
     bindK (readi k entry (int offset)) (\<lambda>(r, entry').
     if r \<noteq> int DIRENT_SIZE then returnK (False, offset, entry')
     else if stop entry' then returnK (True, offset, entry')
     else if limit \<le> offset then faultK
     else scan_dir stop k limit (offset + DIRENT_SIZE) entry')"
  by pat_completeness auto

termination scan_dir
  by (relation "measure (\<lambda>(_, _, limit, offset, _). limit + DIRENT_SIZE - offset)") auto

declare scan_dir.simps [simp del]

text \<open>\<open>entry.d_ino = inodeno; strncpy(entry.d_name, filename, 30); entry.d_name[29] = 0\<close>.\<close>

definition make_dirent :: "u32 \<Rightarrow> bytes \<Rightarrow> bytes" where
  "make_dirent inodeno filename =
     le16 (ucast inodeno) @ take (DIRENT_NAME_SIZE - 1) (filename @ replicate DIRENT_NAME_SIZE 0) @ [0]"

definition dir_limit :: "nat \<Rightarrow> kstate \<Rightarrow> nat" where
  "dir_limit k s = nat (i_size (inodes s ! k))"

definition wdir :: "nat \<Rightarrow> u32 \<Rightarrow> bytes \<Rightarrow> unit kernel" where
  "wdir dir inodeno filename =
     thenK (ilock dir)
     (bindK (getK (dir_limit dir)) (\<lambda>limit.
      bindK (scan_dir (\<lambda>e. get16 e 0 = 0) dir limit 0 (replicate DIRENT_SIZE 0)) (\<lambda>(_, offset, _).
      thenK (writei dir (make_dirent inodeno filename) (of_nat offset))
      (thenK (modifyK (upd_inode dir (\<lambda>i.
         if int (offset + DIRENT_SIZE) > i_size i then set_iflags I_DIRTY (i\<lparr>i_size := int (offset + DIRENT_SIZE)\<rparr>) else i)))
      (iunlock dir)))))"

text \<open>The name in an entry of \<open>struct dirent\<close> on the stack.\<close>

definition entry_name :: "bytes \<Rightarrow> bytes" where
  "entry_name e = takeWhile (\<lambda>c. c \<noteq> 0) (drop 2 e)"

definition sys_unlink :: "bytes \<Rightarrow> int kernel" where
  "sys_unlink filepath =
     bindK (parenti filepath) (\<lambda>(error, parent, filename).
     if error \<noteq> 0 then returnK error
     else
       bindK (getK (\<lambda>s. i_mode (inodes s ! parent))) (\<lambda>mode.
       if mode AND S_IFMT \<noteq> S_IFDIR then thenK (iput parent) (returnK (- ENOTDIR))
       else
         bindK (access (Some parent) IWRITE) (\<lambda>denied.
         if denied \<noteq> 0 then thenK (iput parent) (returnK (- EACCES))
         else
           thenK (ilock parent)
           (bindK (getK (dir_limit parent)) (\<lambda>limit.
            bindK (scan_dir (\<lambda>e. get16 e 0 \<noteq> 0 \<and> entry_name e = filename) parent limit 0 (replicate DIRENT_SIZE 0))
            (\<lambda>(found, offset, entry).
             if \<not> found then thenK (iunlockput parent) (returnK (- ENOENT))
             else
               thenK (writei parent ([0, 0, 0] @ drop 3 entry) (of_nat offset))
               (bindK (getK (\<lambda>s. i_dev (inodes s ! parent))) (\<lambda>dev.
                bindK (iget dev (ucast (get16 entry 0))) (\<lambda>k.
                thenK (ilock k)
                (bindK (getK (\<lambda>s. i_nlinks (inodes s ! k))) (\<lambda>n.
                 if n = 0 then panic ''unlink: nlinks==0''
                 else
                   thenK (modifyK (upd_inode k (\<lambda>i. set_iflags I_DIRTY (i\<lparr>i_nlinks := i_nlinks i - 1\<rparr>))))
                   (thenK (iunlockput parent)
                   (thenK (iupdate k)
                   (thenK (iunlockput k)
                   (returnK 0)))))))))))))))"

text \<open>The value is the return code and, when it is 0, the inode stored through \<open>inodep\<close>.\<close>

definition file_creat :: "bytes \<Rightarrow> u16 \<Rightarrow> (int \<times> nat option) kernel" where
  "file_creat filename mode =
     bindK (parenti filename) (\<lambda>(error, parent, base).
     if error \<noteq> 0 then returnK (error, None)
     else
       bindK (access (Some parent) IWRITE) (\<lambda>denied.
       if denied \<noteq> 0 then thenK (iput parent) (returnK (- EACCES, None))
       else
         bindK (ialloc mode) (\<lambda>r.
         case r of
           None \<Rightarrow> panic ''No free inode''
         | Some k \<Rightarrow>
             thenK (ilock k)
             (bindK (getK (\<lambda>s. i_inodeno (inodes s ! k))) (\<lambda>no.
              thenK (wdir parent no base)
              (thenK (modifyK (upd_inode k (\<lambda>i. set_iflags I_DIRTY (i\<lparr>i_nlinks := i_nlinks i + 1\<rparr>))))
              (thenK (iunlock k)
              (thenK (iput parent)
              (returnK (0, Some k))))))))))"

section \<open>Opening\<close>

definition request_mode :: "u32 \<Rightarrow> u16" where
  "request_mode flags =
     (if flags AND O_WRONLY \<noteq> 0 then IWRITE
      else if flags AND O_RDWR \<noteq> 0 \<or> flags AND O_APPEND \<noteq> 0 \<or> flags AND O_CREAT \<noteq> 0 \<or> flags AND O_TRUNC \<noteq> 0
      then IREAD OR IWRITE else IREAD)"

definition set_finode :: "nat \<Rightarrow> nat \<Rightarrow> unit kernel" where
  "set_finode f k = modifyK (upd_file f (\<lambda>x. x\<lparr>f_inode := Some k\<rparr>))"

text \<open>\<open>namei\<close> stores into \<open>file->inode\<close> also when it fails; what \<open>file_creat\<close> returns is not looked at.\<close>

definition sys_open :: "bytes \<Rightarrow> u32 \<Rightarrow> u16 \<Rightarrow> int kernel" where
  "sys_open filename flags mode =
     (if filename = [] then returnK (- ENOENT)
      else
        bindK file_alloc (\<lambda>r.
        case r of
          None \<Rightarrow> returnK (- ENOMEM)
        | Some f \<Rightarrow>
            thenK (modifyK (upd_file f (\<lambda>x. x\<lparr>f_flags := f_flags x OR flags\<rparr>)))
            (bindK (namei filename) (\<lambda>(error, k).
             thenK (set_finode f k)
             (if error \<noteq> 0 \<and> \<not> (error = - ENOENT \<and> flags AND O_CREAT \<noteq> 0) then
                thenK (file_close f) (returnK error)
              else
                thenK (if error \<noteq> 0 then
                         bindK (file_creat filename (mode OR S_IFREG)) (\<lambda>(_, made).
                         case made of None \<Rightarrow> returnK () | Some k' \<Rightarrow> set_finode f k')
                       else returnK ())
                (with_finode f (\<lambda>k.
                 bindK (access (Some k) (request_mode flags)) (\<lambda>denied.
                 if denied \<noteq> 0 then thenK (file_close f) (returnK (- EACCES))
                 else
                   thenK (if flags AND O_TRUNC \<noteq> 0 then thenK (ilock k) (thenK (itrunc k) (iunlock k))
                          else if flags AND O_APPEND \<noteq> 0 then
                            bindK (getK (\<lambda>s. i_size (inodes s ! k))) (\<lambda>sz.
                            modifyK (upd_file f (\<lambda>x. x\<lparr>f_offset := sz\<rparr>)))
                          else returnK ())
                   (with_cur (\<lambda>c. file_fd_alloc c f))))))))))"

definition sys_creat :: "bytes \<Rightarrow> u16 \<Rightarrow> int kernel" where
  "sys_creat filename mode = sys_open filename (O_CREAT OR O_WRONLY OR O_TRUNC) mode"

text \<open>\<open>tb\<close> is the access time of \<open>struct utimbuf\<close>, or NULL.\<close>

definition sys_utime :: "bytes \<Rightarrow> int option \<Rightarrow> int kernel" where
  "sys_utime filename tb =
     bindK (namei filename) (\<lambda>(error, k).
     if error \<noteq> 0 then returnK error
     else
       thenK (ilock k)
       (bindK (case tb of Some t \<Rightarrow> returnK t | None \<Rightarrow> time) (\<lambda>t.
        thenK (modifyK (upd_inode k (\<lambda>i. set_iflags I_DIRTY (i\<lparr>i_time := t\<rparr>))))
        (thenK (iunlockput k)
        (returnK 0)))))"

definition sys_mkdir :: "bytes \<Rightarrow> u16 \<Rightarrow> int kernel" where
  "sys_mkdir pathname mode =
     with_cur (\<lambda>c.
     bindK (getK (\<lambda>s. p_cwd (procs s ! c))) (\<lambda>cwd.
     bindK (access cwd IWRITE) (\<lambda>denied.
     if denied \<noteq> 0 then returnK (- EACCES)
     else
       bindK (file_creat pathname (mode OR S_IFDIR)) (\<lambda>(error, made).
       if error \<noteq> 0 then returnK error
       else (case (made, cwd) of
               (Some k, Some d) \<Rightarrow>
                 bindK (getK (\<lambda>s. i_inodeno (inodes s ! k))) (\<lambda>no.
                 thenK (wdir k no [46])
                 (thenK (modifyK (upd_inode k (\<lambda>i. i\<lparr>i_nlinks := i_nlinks i + 1\<rparr>)))
                 (bindK (idup d) (\<lambda>parent.
                  bindK (getK (\<lambda>s. i_inodeno (inodes s ! parent))) (\<lambda>pno.
                  thenK (wdir k pno [46, 46])
                  (thenK (ilock parent)
                  (thenK (modifyK (upd_inode parent (\<lambda>i. set_iflags I_DIRTY (i\<lparr>i_nlinks := i_nlinks i + 1\<rparr>))))
                  (thenK (iunlockput parent)
                  (thenK (modifyK (upd_inode k (set_iflags I_DIRTY)))
                  (thenK (iput k)
                  (returnK 0)))))))))))
             | _ \<Rightarrow> faultK)))))"

section \<open>Status and position\<close>

definition sys_stat :: "bytes \<Rightarrow> (int \<times> stat option) kernel" where
  "sys_stat path =
     bindK (namei path) (\<lambda>(error, k).
     if error \<noteq> 0 then returnK (error, None)
     else
       thenK (ilock k)
       (bindK (istat k) (\<lambda>st.
        thenK (iunlockput k)
        (returnK (0, Some st)))))"

definition fstat :: "int \<Rightarrow> (int \<times> stat option) kernel" where
  "fstat fd =
     (if fd < 0 \<or> fd > int NFILE then returnK (- EBADF, None)
      else if nat fd \<ge> NFILE then faultK
      else
        with_cur (\<lambda>c.
        bindK (getK (\<lambda>s. p_ofile (procs s ! c) ! nat fd)) (\<lambda>x.
        case x of
          None \<Rightarrow> returnK (- EBADF, None)
        | Some f \<Rightarrow>
            with_finode f (\<lambda>k.
            thenK (ilock k)
            (bindK (istat k) (\<lambda>st.
             thenK (iunlock k)
             (returnK (0, Some st))))))))"

definition ioctl :: "int \<Rightarrow> termios_op \<Rightarrow> bool \<Rightarrow> (int \<times> u32 option) kernel" where
  "ioctl fd op ptr =
     (if fd < 0 \<or> fd \<ge> int NFILE then returnK (- EBADF, None)
      else
        with_cur (\<lambda>c.
        bindK (getK (\<lambda>s. p_ofile (procs s ! c) ! nat fd)) (\<lambda>x.
        case x of
          None \<Rightarrow> returnK (- EBADF, None)
        | Some f \<Rightarrow>
            bindK (getK (\<lambda>s. files s ! f)) (\<lambda>file.
            if f_ref_count file < 1 then returnK (- EBADF, None)
            else (case f_inode file of
                    None \<Rightarrow> returnK (- ENOTTY, None)
                  | Some k \<Rightarrow>
                      bindK (getK (\<lambda>s. inodes s ! k)) (\<lambda>i.
                      let dev = (if i_mode i AND S_IFMT = S_IFCHR then i_direct i ! 0 else i_dev i)
                      in if unat (major dev) \<ge> num_cdev \<or> cdev_tty ! unat (major dev) = None then returnK (- ENOTTY, None)
                         else tty_ioctl dev op ptr))))))"

datatype whence = SEEK_SET | SEEK_CUR | SEEK_END | SEEK_OTHER

definition file_seek :: "nat \<Rightarrow> int \<Rightarrow> whence \<Rightarrow> int kernel" where
  "file_seek f offset wh =
     bindK (getK (\<lambda>s. files s ! f)) (\<lambda>file.
     if wh = SEEK_OTHER then returnK (- EINVAL)
     else
       with_finode f (\<lambda>k.
       bindK (getK (\<lambda>s. inodes s ! k)) (\<lambda>i.
       let new_offset = (case wh of
             SEEK_SET \<Rightarrow> offset
           | SEEK_CUR \<Rightarrow> to_long (f_offset file + offset)
           | SEEK_END \<Rightarrow> to_long (i_size i + offset)
           | SEEK_OTHER \<Rightarrow> 0)
       in if new_offset \<ge> i_size i \<and> i_mode i AND S_IFMT = S_IFREG then returnK (- EINVAL)
          else
            thenK (modifyK (upd_file f (\<lambda>x. x\<lparr>f_offset := new_offset\<rparr>)))
            (returnK new_offset))))"

definition lseek :: "int \<Rightarrow> int \<Rightarrow> whence \<Rightarrow> int kernel" where
  "lseek fd offset wh = with_fd LAST_FD fd (\<lambda>c f. file_seek f offset wh)"

section \<open>Pipes\<close>

text \<open>\<open>sys_pipe\<close>; the value is the return code and the two descriptors.  \<open>in_user\<close> says whether the pointer
  to the result lies in the user's memory.\<close>

definition close_opt :: "nat option \<Rightarrow> unit kernel" where
  "close_opt x = (case x of None \<Rightarrow> returnK () | Some f \<Rightarrow> file_close f)"

definition clear_fd :: "nat \<Rightarrow> int \<Rightarrow> unit kernel" where
  "clear_fd c fd = whenK (fd \<ge> 0) (modifyK (upd_proc c (\<lambda>q. q\<lparr>p_ofile := (p_ofile q)[nat fd := None]\<rparr>)))"

definition make_end :: "nat \<Rightarrow> nat \<Rightarrow> unit kernel" where
  "make_end f p = modifyK (upd_file f (\<lambda>x. x\<lparr>f_type := FT_PIPE, f_pipe := Some p\<rparr>))"

definition sys_pipe :: "bool \<Rightarrow> (int \<times> (int \<times> int) option) kernel" where
  "sys_pipe in_user =
     (if \<not> in_user then returnK (- EFAULT, None)
      else
        bindK file_alloc (\<lambda>r.
        bindK file_alloc (\<lambda>w.
        case (r, w) of
          (Some rd, Some wr) \<Rightarrow>
            thenK (modifyK (upd_file rd (\<lambda>x. x\<lparr>f_flags := O_RDONLY\<rparr>)))
            (thenK (modifyK (upd_file wr (\<lambda>x. x\<lparr>f_flags := O_WRONLY\<rparr>)))
            (bindK pipe_create (\<lambda>pc.
             case pc of
               None \<Rightarrow> thenK (file_close rd) (thenK (file_close wr) (returnK (- ENFILE, None)))
             | Some p \<Rightarrow>
                 thenK (make_end rd p)
                 (thenK (modifyK (upd_pipe p (\<lambda>x. x\<lparr>readers := readers x + 1\<rparr>)))
                 (thenK (make_end wr p)
                 (thenK (modifyK (upd_pipe p (\<lambda>x. x\<lparr>writers := writers x + 1\<rparr>)))
                 (with_cur (\<lambda>c.
                  bindK (file_fd_alloc c rd) (\<lambda>rfd.
                  bindK (file_fd_alloc c wr) (\<lambda>wfd.
                  if rfd < 0 \<or> wfd < 0 then
                    thenK (clear_fd c rfd)
                    (thenK (clear_fd c wfd)
                    (thenK (file_close rd)
                    (thenK (file_close wr)
                    (thenK (pipe_destroy p)
                    (returnK (- EMFILE, None))))))
                  else returnK (0, Some (rfd, wfd))))))))))))
        | _ \<Rightarrow> thenK (close_opt r) (thenK (close_opt w) (returnK (- ENFILE, None))))))"

end
