(* ===== verification/Fdrefs.thy ===== *)
theory Fdrefs
  imports Filetab
begin

text \<open>
  Reference counts of open files.  The system calls that take or drop descriptors are shown to keep
  every reference count equal to the number of descriptors, over all processes, that refer to the file.
\<close>

section \<open>Reference counts\<close>

text \<open>The number of descriptors that refer to an open file, over all processes.\<close>

definition refs :: "nat option list list \<Rightarrow> nat \<Rightarrow> nat" where
  "refs tabs f = (\<Sum>l\<leftarrow>tabs. count_list l (Some f))"

text \<open>The part of the state the counts depend on.\<close>

definition counts :: "kstate \<Rightarrow> (int \<times> int) list \<times> nat option list list \<times> nat option" where
  "counts s = (map (\<lambda>x. (f_ref_count x, f_type x)) (files s), map ofile_of (procs s), cur_proc s)"

text \<open>Every reference count exceeds the number of descriptors by \<open>d\<close>; the invariant is \<open>bal (\<lambda>_. 0)\<close>.\<close>

definition bal :: "(nat \<Rightarrow> int) \<Rightarrow> kstate \<Rightarrow> bool" where
  "bal d s \<longleftrightarrow> length (files s) = NFILE \<and> cur_live s \<and> (\<forall>q\<in>set (procs s). length (ofile_of q) = NFILE)
     \<and> (\<forall>q\<in>set (procs s). \<forall>f. Some f \<in> set (ofile_of q) \<longrightarrow> f < NFILE)
     \<and> (\<forall>f<NFILE. f_type (files s ! f) \<in> {FT_INODE, FT_PIPE} \<and> f_ref_count (files s ! f) = int (refs (map ofile_of (procs s)) f) + d f)"

definition ftab_inv :: "kstate \<Rightarrow> bool" where
  "ftab_inv s \<longleftrightarrow> bal (\<lambda>_. 0) s"

lemma count_list_update:
  "i < length xs \<Longrightarrow> count_list (xs[i := b]) y + (if xs ! i = y then 1 else 0) = count_list xs y + (if b = y then 1 else 0)"
proof (induction xs arbitrary: i)
  case Nil
  then show ?case by simp
next
  case (Cons x xs)
  show ?case
  proof (cases i)
    case 0
    then show ?thesis by simp
  next
    case (Suc j)
    then show ?thesis using Cons.IH [of j] Cons.prems by (auto split: if_splits)
  qed
qed

lemma refs_update:
  assumes "p < length tabs" and "i < length (tabs ! p)"
  shows "refs (tabs[p := (tabs ! p)[i := b]]) f + (if tabs ! p ! i = Some f then 1 else 0)
    = refs tabs f + (if b = Some f then 1 else 0)"
  using assms
proof (induction tabs arbitrary: p)
  case Nil
  then show ?case by simp
next
  case (Cons l tabs)
  show ?case
  proof (cases p)
    case 0
    then show ?thesis using count_list_update [of i l b "Some f"] Cons.prems by (simp add: refs_def)
  next
    case (Suc q)
    then show ?thesis using Cons.IH [of q] Cons.prems by (simp add: refs_def)
  qed
qed

lemma bal_counts:
  assumes c: "counts t = counts s" and l: "lives t = lives s"
  shows "bal d t = bal d s"
proof -
  have o': "map ofile_of (procs t) = map ofile_of (procs s)"
    and fl: "map (\<lambda>x. (f_ref_count x, f_type x)) (files t) = map (\<lambda>x. (f_ref_count x, f_type x)) (files s)"
    using c by (simp_all add: counts_def)
  have cp: "cur_live t = cur_live s" using l by (simp add: cur_live_lives)
  have len: "length (files t) = length (files s)" using fl by (rule map_eq_imp_length_eq)
  have nth: "f_ref_count (files t ! f) = f_ref_count (files s ! f) \<and> f_type (files t ! f) = f_type (files s ! f)"
    if "f < length (files s)" for f
  proof -
    have "map (\<lambda>x. (f_ref_count x, f_type x)) (files t) ! f = map (\<lambda>x. (f_ref_count x, f_type x)) (files s) ! f"
      by (simp only: fl)
    then show ?thesis using that len by simp
  qed
  have set: "(\<forall>q\<in>set (procs t). Q (ofile_of q)) = (\<forall>q\<in>set (procs s). Q (ofile_of q))" for Q
    using arg_cong [OF o', of "\<lambda>l. \<forall>x\<in>set l. Q x"] by simp
  show ?thesis
    using nth unfolding bal_def o' len cp set [of "\<lambda>l. length l = NFILE"]
      set [of "\<lambda>l. \<forall>f. Some f \<in> set l \<longrightarrow> f < NFILE"] by (auto cong: conj_cong)
qed

lemma keeps_counts: "keeps ofiles m \<Longrightarrow> keeps counts m"
  by (auto simp: keeps_def ofiles_def counts_def)

section \<open>Partial correctness\<close>

definition hoare :: "(kstate \<Rightarrow> bool) \<Rightarrow> 'a kernel \<Rightarrow> ('a \<Rightarrow> kstate \<Rightarrow> bool) \<Rightarrow> bool" where
  "hoare P m Q \<longleftrightarrow> (\<forall>s x t. P s \<longrightarrow> m s = Ok x t \<longrightarrow> Q x t)"

lemma hoareD: "hoare P m Q \<Longrightarrow> P s \<Longrightarrow> m s = Ok x t \<Longrightarrow> Q x t"
  by (auto simp: hoare_def)

lemma hoare_bindK: "hoare P m R \<Longrightarrow> (\<And>x. hoare (R x) (f x) Q) \<Longrightarrow> hoare P (bindK m f) Q"
  by (auto simp: hoare_def bindK_def split: outcome.splits)

lemma hoare_thenK: "hoare P m (\<lambda>_. R) \<Longrightarrow> hoare R n Q \<Longrightarrow> hoare P (thenK m n) Q"
  unfolding thenK_def by (rule hoare_bindK)

lemma hoare_returnK: "(\<And>s. P s \<Longrightarrow> Q x s) \<Longrightarrow> hoare P (returnK x) Q"
  by (simp add: hoare_def kern_simps)

lemma hoare_stop: "hoare P faultK Q" "hoare P (panic msg) Q"
  by (simp_all add: hoare_def kern_simps)

lemma hoare_getK: "(\<And>s. P s \<Longrightarrow> Q (g s) s) \<Longrightarrow> hoare P (getK g) Q"
  by (simp add: hoare_def kern_simps)

lemma hoare_modifyK: "(\<And>s. P s \<Longrightarrow> Q () (g s)) \<Longrightarrow> hoare P (modifyK g) Q"
  by (simp add: hoare_def kern_simps)

lemma hoare_weaken: "hoare P m Q \<Longrightarrow> (\<And>s. P' s \<Longrightarrow> P s) \<Longrightarrow> (\<And>x s. Q x s \<Longrightarrow> Q' x s) \<Longrightarrow> hoare P' m Q'"
  unfolding hoare_def by blast

lemma hoare_if: "(c \<Longrightarrow> hoare P m Q) \<Longrightarrow> (\<not> c \<Longrightarrow> hoare P n Q) \<Longrightarrow> hoare P (if c then m else n) Q"
  by simp

lemma hoare_pure: "(c \<Longrightarrow> hoare P m Q) \<Longrightarrow> hoare (\<lambda>s. P s \<and> c) m Q"
  by (auto simp: hoare_def)

lemma hoare_keep: "keeps counts m \<Longrightarrow> hoare (bal d) m (\<lambda>_. bal d)"
  unfolding hoare_def
proof (intro allI impI)
  fix s x t
  assume k: "keeps counts m" and "bal d s" and m: "m s = Ok x t"
  moreover from this have "lives t = lives s \<and> counts t = counts s" unfolding keeps_def bal_def by simp
  ultimately show "bal d t" using bal_counts by blast
qed

lemma hoare_get_keep: "(\<And>x. hoare (bal d) (f x) Q) \<Longrightarrow> hoare (bal d) (bindK (getK g) f) Q"
  by (rule hoare_bindK [where R = "\<lambda>_. bal d"]) (auto intro: hoare_getK)

lemma hoare_keep_then: "keeps counts m \<Longrightarrow> hoare (bal d) n Q \<Longrightarrow> hoare (bal d) (thenK m n) Q"
  by (rule hoare_thenK [OF hoare_keep])

lemma hoare_keep_bind: "keeps counts m \<Longrightarrow> (\<And>x. hoare (bal d) (f x) Q) \<Longrightarrow> hoare (bal d) (bindK m f) Q"
  by (rule hoare_bindK [OF hoare_keep])

section \<open>The operations on descriptors\<close>

lemma counts_file: "(\<And>x. f_ref_count (g x) = f_ref_count x \<and> f_type (g x) = f_type x) \<Longrightarrow> counts (upd_file f g s) = counts s"
  by (cases "f < length (files s)") (simp_all add: counts_def upd_file_def map_update list_update_beyond list_update_id_iff)

lemma counts_pipe [simp]: "counts (upd_pipe p g s) = counts s"
  by (simp add: counts_def upd_pipe_def)

lemma file_tab:
  "files (upd_file f g s) = (files s)[f := g (files s ! f)]" "procs (upd_file f g s) = procs s"
  by (simp_all add: upd_file_def)

lemma cur_live_files [simp]: "cur_live (upd_file f g s) = cur_live s"
  by (simp add: cur_live_lives)

lemma bal_cur:
  assumes "bal d s" and "cur_proc s = Some c"
  shows "c < length (procs s)" and "live_proc (procs s ! c)" and "ofile_of (procs s ! c) = p_ofile (procs s ! c)"
    and "length (p_ofile (procs s ! c)) = NFILE"
proof -
  show c: "c < length (procs s)" "live_proc (procs s ! c)" using assms by (simp_all add: bal_def cur_live_def)
  then show o': "ofile_of (procs s ! c) = p_ofile (procs s ! c)" by (simp add: ofile_of_def)
  have "length (ofile_of (procs s ! c)) = NFILE" using assms(1) c(1) unfolding bal_def by simp
  then show "length (p_ofile (procs s ! c)) = NFILE" by (simp only: o')
qed

lemma bal_ref:
  assumes "bal d s" and "f < NFILE" and "\<And>x. f_type (g x) = f_type x"
  shows "bal (d(f := d f + (f_ref_count (g (files s ! f)) - f_ref_count (files s ! f)))) (upd_file f g s)"
  using assms by (auto simp: bal_def file_tab nth_list_update)

lemma bal_set_fd:
  assumes "bal d s" and "c < length (procs s)" and "i < NFILE" and "p_ofile (procs s ! c) ! i = a"
    and live: "live_proc (procs s ! c)"
    and "\<And>f. b = Some f \<Longrightarrow> f < NFILE"
  shows "bal (\<lambda>f. d f + (if a = Some f then 1 else 0) - (if b = Some f then 1 else 0))
    (upd_proc c (\<lambda>q. q\<lparr>p_ofile := (p_ofile q)[i := b]\<rparr>) s)"
proof -
  let ?t = "upd_proc c (\<lambda>q. q\<lparr>p_ofile := (p_ofile q)[i := b]\<rparr>) s" and ?tabs = "map ofile_of (procs s)"
  let ?q = "(procs s ! c)\<lparr>p_ofile := (p_ofile (procs s ! c))[i := b]\<rparr>"
  have oc: "ofile_of (procs s ! c) = p_ofile (procs s ! c)" "ofile_of ?q = (p_ofile (procs s ! c))[i := b]"
    using live by (simp_all add: ofile_of_def live_proc_def)
  have tabs: "map ofile_of (procs ?t) = ?tabs[c := (?tabs ! c)[i := b]]"
    using assms(2) oc by (simp add: upd_proc_def map_update)
  have lc: "length (p_ofile (procs s ! c)) = NFILE" using assms(1,2) oc(1) nth_mem unfolding bal_def by metis
  have r: "int (refs (map ofile_of (procs ?t)) f) = int (refs ?tabs f) + (if b = Some f then 1 else 0) - (if a = Some f then 1 else 0)" for f
    using refs_update [of c ?tabs i b f] assms(2-4) lc oc(1) unfolding tabs by (auto split: if_splits)
  have "length (ofile_of q) = NFILE \<and> (\<forall>f. Some f \<in> set (ofile_of q) \<longrightarrow> f < NFILE)" if "q \<in> set (procs ?t)" for q
  proof -
    have "q \<in> set (procs s) \<or> q = ?q"
      using that set_update_subset_insert by (fastforce simp: upd_proc_def)
    then show ?thesis
    proof
      assume "q \<in> set (procs s)"
      then show ?thesis using assms(1) by (simp add: bal_def)
    next
      assume q: "q = ?q"
      have "f < NFILE" if "Some f \<in> set (ofile_of q)" for f
      proof -
        have "Some f = b \<or> Some f \<in> set (ofile_of (procs s ! c))"
          using that set_update_subset_insert [of "p_ofile (procs s ! c)" i b] q oc by auto
        then show ?thesis using assms(1,2,6) nth_mem unfolding bal_def by metis
      qed
      then show ?thesis using lc q oc by simp
    qed
  qed
  moreover have "files ?t = files s" "lives ?t = lives s" by simp_all
  moreover from this have "cur_live ?t = cur_live s" by (simp add: cur_live_lives)
  ultimately show ?thesis using assms(1) r by (auto simp: bal_def)
qed

lemma keeps_pipe_rest: "keeps counts (wakeup w)" "keeps counts (pipe_destroy p)" "keeps counts pipe_create"
  unfolding pipe_destroy_def pipe_create_def by (intro keep keeps_counts [OF keeps_wakeup]; simp)+

lemma hoare_pipe_close:
  "f < NFILE \<Longrightarrow> hoare (bal d) (pipe_close f) (\<lambda>_. bal (d(f := d f - 1)))"
  unfolding pipe_close_def with_pipe_def
proof (intro hoare_get_keep hoare_if)
  fix fl :: kfile
  assume f: "f < NFILE"
  show "hoare (bal d) (case f_pipe fl of None \<Rightarrow> panic ''pipe_close: not a pipe''
      | Some p \<Rightarrow> thenK (modifyK (upd_file f (\<lambda>x. x\<lparr>f_ref_count := f_ref_count x - 1\<rparr>)))
         (bindK (getK (\<lambda>s. files s ! f)) (\<lambda>file.
          thenK (whenK (f_ref_count file = 0)
                   (thenK (whenK (f_flags file AND O_RDONLY \<noteq> 0) (modifyK (upd_pipe p (\<lambda>x. x\<lparr>readers := readers x - 1\<rparr>))))
                          (whenK (f_flags file AND O_WRONLY \<noteq> 0) (modifyK (upd_pipe p (\<lambda>x. x\<lparr>writers := writers x - 1\<rparr>))))))
          (bindK (getK (\<lambda>s. pipes s ! p)) (\<lambda>x. whenK (readers x = 0 \<and> writers x = 0) (pipe_destroy p)))))) (\<lambda>_. bal (d(f := d f - 1)))"
  proof (cases "f_pipe fl")
    case None
    then show ?thesis by (simp add: hoare_stop)
  next
    case (Some p)
    show ?thesis
      unfolding Some option.case
      by (rule hoare_thenK [where R = "bal (d(f := d f - 1))"], rule hoare_modifyK,
          use bal_ref [OF _ f, of d _ "\<lambda>x. x\<lparr>f_ref_count := f_ref_count x - 1\<rparr>"] in simp,
          rule hoare_keep, intro keep keeps_pipe_rest) simp_all
  qed
qed (rule hoare_stop)

lemma hoare_file_close:
  assumes f: "f < NFILE"
  shows "hoare (bal d) (file_close f) (\<lambda>_. bal (d(f := d f - 1)))"
proof -
  have dec: "hoare (bal d) (modifyK (upd_file f (\<lambda>x. x\<lparr>f_ref_count := f_ref_count x - 1\<rparr>))) (\<lambda>_. bal (d(f := d f - 1)))"
    by (rule hoare_modifyK) (use bal_ref [OF _ f, of d _ "\<lambda>x. x\<lparr>f_ref_count := f_ref_count x - 1\<rparr>"] in simp)
  have rest: "keeps counts (whenK b (case o' of None \<Rightarrow> returnK ()
      | Some k \<Rightarrow> thenK (iput k) (modifyK (upd_file f (\<lambda>x. x\<lparr>f_inode := None\<rparr>)))))" for b o'
    by (intro keep keeps_counts [OF keeps_iput(1)]) (simp add: counts_file)
  have "hoare (\<lambda>s. bal d s \<and> f_type fl \<in> {FT_INODE, FT_PIPE})
      (if f_type fl = FT_PIPE then pipe_close f
       else if f_type fl = FT_INODE then
         (if f_ref_count fl \<le> 0 then panic ''file_close''
          else thenK (modifyK (upd_file f (\<lambda>x. x\<lparr>f_ref_count := f_ref_count x - 1\<rparr>)))
             (whenK (f_ref_count fl - 1 = 0) (case f_inode fl of None \<Rightarrow> returnK ()
                | Some k \<Rightarrow> thenK (iput k) (modifyK (upd_file f (\<lambda>x. x\<lparr>f_inode := None\<rparr>))))))
       else returnK ()) (\<lambda>_. bal (d(f := d f - 1)))" for fl :: kfile
    by (rule hoare_pure, intro hoare_if hoare_stop hoare_pipe_close [OF f] hoare_thenK [OF dec] hoare_keep rest) auto
  then show ?thesis
    unfolding file_close_def
    by (rule hoare_bindK [rotated]) (rule hoare_getK, use f in \<open>force simp: bal_def\<close>)
qed

lemma hoare_file_fd_alloc:
  assumes f: "f < NFILE"
  shows "hoare (\<lambda>s. bal d s \<and> cur_proc s = Some c) (file_fd_alloc c f)
    (\<lambda>r s. bal (if r \<ge> 0 then d(f := d f - 1) else d) s \<and> (r < 0 \<or> r < int NFILE) \<and> cur_proc s = Some c)"
  unfolding hoare_def
proof (intro allI impI)
  fix s r t
  assume s: "bal d s \<and> cur_proc s = Some c" and run: "file_fd_alloc c f s = Ok r t"
  then have c: "c < length (procs s)" "live_proc (procs s ! c)" and len: "length (p_ofile (procs s ! c)) = NFILE"
    using bal_cur [of d s c] by simp_all
  show "bal (if r \<ge> 0 then d(f := d f - 1) else d) t \<and> (r < 0 \<or> r < int NFILE) \<and> cur_proc t = Some c"
  proof (cases "first_index (\<lambda>x. x = None) (p_ofile (procs s ! c))")
    case None
    then show ?thesis using run s by (auto simp: file_fd_alloc_def kern_simps)
  next
    case (Some i)
    note i = first_index_SomeD(1,2) [OF Some]
    have t: "r = int i" "t = upd_proc c (\<lambda>q. q\<lparr>p_ofile := (p_ofile q)[i := Some f]\<rparr>) s"
      using run Some by (auto simp: file_fd_alloc_def kern_simps)
    have "(\<lambda>g. d g + (if None = Some g then 1 else 0) - (if Some f = Some g then 1 else 0)) = d(f := d f - 1)" by auto
    then have "bal (d(f := d f - 1)) t"
      using bal_set_fd [of d s c i None "Some f"] s c i len f t(2) by simp
    then show ?thesis using t i len s by (simp add: upd_proc_def)
  qed
qed

lemma hoare_file_dup: "f < NFILE \<Longrightarrow> hoare (bal d) (file_dup f) (\<lambda>_. bal (d(f := d f + 1)))"
  unfolding file_dup_def
  by (rule hoare_thenK [where R = "bal (d(f := d f + 1))"], rule hoare_modifyK,
      use bal_ref [of d _ f "\<lambda>x. x\<lparr>f_ref_count := f_ref_count x + 1\<rparr>"] in simp) (simp add: hoare_returnK)

text \<open>A new open file has one reference more than descriptors.\<close>

lemma hoare_file_alloc:
  "hoare (\<lambda>s. bal d s \<and> (\<forall>f. d f \<ge> 0)) file_alloc
     (\<lambda>r s. case r of None \<Rightarrow> bal d s | Some f \<Rightarrow> f < NFILE \<and> d f = 0 \<and> bal (d(f := 1)) s)"
  unfolding hoare_def
proof (intro allI impI)
  fix s r t
  assume s: "bal d s \<and> (\<forall>f. d f \<ge> 0)" and run: "file_alloc s = Ok r t"
  show "case r of None \<Rightarrow> bal d t | Some f \<Rightarrow> f < NFILE \<and> d f = 0 \<and> bal (d(f := 1)) t"
  proof (cases "first_index (\<lambda>x. f_ref_count x = 0) (files s)")
    case None
    then show ?thesis using run s by (auto simp: file_alloc_def kern_simps)
  next
    case (Some f)
    note f = first_index_SomeD(1,2) [OF Some]
    have t: "r = Some f" "t = upd_file f (\<lambda>_. zero_file\<lparr>f_ref_count := 1\<rparr>) s"
      using run Some by (auto simp: file_alloc_def kern_simps)
    have fl: "f < NFILE" using f(1) s by (simp add: bal_def)
    then have z: "int (refs (map ofile_of (procs s)) f) + d f = 0" using f(2) s by (auto simp: bal_def)
    moreover have "d f \<ge> 0" using s by simp
    ultimately have "d f = 0" "refs (map ofile_of (procs s)) f = 0" by linarith+
    then have "bal (d(f := 1)) t"
      using s fl t(2) by (auto simp: bal_def file_tab nth_list_update zero_file_def)
    then show ?thesis using t fl \<open>d f = 0\<close> by simp
  qed
qed

section \<open>Descriptor tables\<close>

definition descs :: "kstate \<Rightarrow> nat option list list \<times> nat option" where
  "descs s = (map ofile_of (procs s), cur_proc s)"

lemma keeps_descs: "keeps ofiles m \<Longrightarrow> keeps descs m"
  by (auto simp: keeps_def ofiles_def descs_def)

lemma descs_upd [simp]: "descs (upd_file f g s) = descs s" "descs (upd_pipe p h s) = descs s"
  by (simp_all add: descs_def upd_file_def upd_pipe_def)

lemma keeps_closing:
  "keeps descs (pipe_close f)" "keeps descs (file_close f)" "keeps descs (file_dup f)" "keeps descs file_alloc"
  "keeps descs pipe_create" "keeps descs (make_end f p)"
proof -
  show 1: "keeps descs (pipe_close f)" for f
    unfolding pipe_close_def with_pipe_def pipe_destroy_def by (intro keep) simp_all
  show "keeps descs (file_close f)"
    unfolding file_close_def by (intro keep 1 keeps_descs [OF keeps_iput(1)]) simp_all
  show "keeps descs (file_dup f)" "keeps descs file_alloc" "keeps descs pipe_create" "keeps descs (make_end f p)"
    unfolding file_dup_def file_alloc_def pipe_create_def make_end_def by (intro keep; simp)+
qed

text \<open>The descriptor \<open>i\<close> of process \<open>c\<close>, which is running, is \<open>a\<close>.\<close>

definition has_fd :: "nat \<Rightarrow> nat \<Rightarrow> nat option \<Rightarrow> kstate \<Rightarrow> bool" where
  "has_fd c i a s \<longleftrightarrow> cur_proc s = Some c \<and> c < length (procs s) \<and> ofile_of (procs s ! c) ! i = a"

lemma has_fd_descs: "has_fd c i a s \<longleftrightarrow> snd (descs s) = Some c \<and> c < length (fst (descs s)) \<and> fst (descs s) ! c ! i = a"
  by (auto simp: has_fd_def descs_def)

lemma hoare_has_fd:
  assumes "hoare (bal d) m Q" and "keeps descs m"
  shows "hoare (\<lambda>s. bal d s \<and> has_fd c i a s) m (\<lambda>x s. Q x s \<and> has_fd c i a s)"
  unfolding hoare_def
proof (intro allI impI)
  fix s x t
  assume s: "bal d s \<and> has_fd c i a s" and run: "m s = Ok x t"
  then have "descs t = descs s" using keepsD [OF assms(2) _ run] by (simp add: bal_def)
  then show "Q x t \<and> has_fd c i a t" using hoareD [OF assms(1) _ run] s by (simp add: has_fd_descs)
qed

lemma bal_ext: "bal d s \<Longrightarrow> (\<And>f. d f = e f) \<Longrightarrow> bal e s"
  by (subst (asm) ext [of d e]) auto

lemma bal_fd_valid:
  assumes "bal d s" and "c < length (procs s)" and "i < NFILE" and "ofile_of (procs s ! c) ! i = Some f"
  shows "f < NFILE"
proof -
  have "i < length (ofile_of (procs s ! c))" using assms unfolding bal_def by simp
  then have "Some f \<in> set (ofile_of (procs s ! c))" using assms(4) nth_mem by metis
  then show ?thesis using assms(1,2) nth_mem unfolding bal_def by blast
qed

lemma hoare_set_fd:
  assumes "i < NFILE" and "\<And>f. b = Some f \<Longrightarrow> f < NFILE"
    and "\<And>f. e f = d f + (if a = Some f then 1 else 0) - (if b = Some f then 1 else 0)"
  shows "hoare (\<lambda>s. bal d s \<and> has_fd c i a s) (modifyK (upd_proc c (\<lambda>q. q\<lparr>p_ofile := (p_ofile q)[i := b]\<rparr>))) (\<lambda>_. bal e)"
proof (rule hoare_modifyK)
  fix s
  assume "bal d s \<and> has_fd c i a s"
  then show "bal e (upd_proc c (\<lambda>q. q\<lparr>p_ofile := (p_ofile q)[i := b]\<rparr>) s)"
    using bal_ext [OF bal_set_fd [of d s c i a b], of e] assms bal_cur [of d s c] by (simp add: has_fd_def)
qed

lemma hoare_with_fd:
  assumes "\<And>c f. f < NFILE \<Longrightarrow> nat fd < NFILE \<Longrightarrow> hoare (\<lambda>s. bal d s \<and> has_fd c (nat fd) (Some f) s) (k c f) Q"
    and "\<And>s. bal d s \<Longrightarrow> Q (- EBADF) s"
  shows "hoare (bal d) (with_fd bound fd k) Q"
  unfolding hoare_def
proof (intro allI impI)
  fix s x t
  assume s: "bal d s" and run: "with_fd bound fd k s = Ok x t"
  show "Q x t"
  proof (cases "fd < 0 \<or> fd > bound")
    case True
    then show ?thesis using run s assms(2) by (simp add: with_fd_def kern_simps)
  next
    case False
    then obtain c where i: "nat fd < NFILE" and c: "cur_proc s = Some c"
      using run by (auto simp: with_fd_def with_cur_def kern_simps split: if_splits option.splits)
    note cp = bal_cur [OF s c]
    show ?thesis
    proof (cases "p_ofile (procs s ! c) ! nat fd")
      case None
      then show ?thesis using run s assms(2) False i c by (auto simp: with_fd_def with_cur_def kern_simps)
    next
      case (Some f)
      have "f < NFILE" using bal_fd_valid [OF s cp(1) i] Some cp(3) by simp
      moreover have "k c f s = Ok x t" using run Some False i c by (auto simp: with_fd_def with_cur_def kern_simps)
      ultimately show ?thesis using hoareD [OF assms(1) [of f c], of s x t] i s c cp(1,3) Some by (simp add: has_fd_def)
    qed
  qed
qed

section \<open>Duplicating and closing\<close>

lemma hoare_dup: "hoare (bal d) (dup fd) (\<lambda>_. bal d)"
  unfolding dup_def
proof (rule hoare_with_fd)
  fix c f
  assume f: "f < NFILE"
  have up: "hoare (\<lambda>s. bal (if r \<ge> 0 then d(f := d f - 1) else d) s \<and> (r < 0 \<or> r < int NFILE) \<and> cur_proc s = Some c)
      (thenK (whenK (r \<ge> 0 \<and> r < int NFILE) (thenK (file_dup f) (returnK ()))) (returnK r)) (\<lambda>_. bal d)" for r
    using hoare_file_dup [OF f, of "d(f := d f - 1)"]
    by (auto simp: hoare_def kern_simps thenK_bindK bindK_def thenK_def split: outcome.splits)
  show "hoare (\<lambda>s. bal d s \<and> has_fd c (nat fd) (Some f) s) (bindK (file_fd_alloc c f)
      (\<lambda>r. thenK (whenK (r \<ge> 0 \<and> r < int NFILE) (thenK (file_dup f) (returnK ()))) (returnK r))) (\<lambda>_. bal d)"
    by (rule hoare_weaken [OF hoare_bindK [OF hoare_file_fd_alloc [OF f, of d c] up]]) (auto simp: has_fd_def)
qed

lemma hoare_drop_fd:
  assumes "i < NFILE" and "f < NFILE" and "hoare (bal d) m (\<lambda>_. bal (d(f := d f - 1)))" and "keeps descs m"
  shows "hoare (\<lambda>s. bal d s \<and> has_fd c i (Some f) s)
    (thenK m (thenK (modifyK (upd_proc c (\<lambda>q. q\<lparr>p_ofile := (p_ofile q)[i := None]\<rparr>))) (returnK x))) (\<lambda>_. bal d)"
proof -
  have "hoare (\<lambda>s. bal (d(f := d f - 1)) s \<and> has_fd c i (Some f) s)
      (modifyK (upd_proc c (\<lambda>q. q\<lparr>p_ofile := (p_ofile q)[i := None]\<rparr>))) (\<lambda>_. bal d)"
    by (rule hoare_set_fd) (use assms in simp_all)
  then show ?thesis
    by (intro hoare_thenK [OF hoare_has_fd [OF assms(3,4)]] hoare_thenK hoare_returnK) assumption
qed

lemma hoare_close: "hoare (bal d) (close fd) (\<lambda>_. bal d)"
  unfolding close_def
proof (rule hoare_with_fd)
  fix c f
  assume f: "f < NFILE" and i: "nat fd < NFILE"
  let ?m = "\<lambda>ty. if ty = FT_PIPE then pipe_close f else if ty = FT_INODE then file_close f else returnK ()"
  have m: "hoare (bal d) (?m ty) (\<lambda>_. bal (d(f := d f - 1)))" "keeps descs (?m ty)" if "ty = FT_PIPE \<or> ty = FT_INODE" for ty
    using that hoare_pipe_close [OF f] hoare_file_close [OF f] keeps_closing(1,2) by auto
  show "hoare (\<lambda>s. bal d s \<and> has_fd c (nat fd) (Some f) s) (bindK (getK (\<lambda>s. f_type (files s ! f))) (\<lambda>ty.
      thenK (?m ty) (thenK (modifyK (upd_proc c (\<lambda>q. q\<lparr>p_ofile := (p_ofile q)[nat fd := None]\<rparr>))) (returnK 0)))) (\<lambda>_. bal d)"
    by (rule hoare_bindK [where R = "\<lambda>ty s. (bal d s \<and> has_fd c (nat fd) (Some f) s) \<and> (ty = FT_PIPE \<or> ty = FT_INODE)"],
        rule hoare_getK, use f in \<open>force simp: bal_def\<close>, rule hoare_pure, rule hoare_drop_fd [OF i f m])
qed

lemma hoare_dup2: "hoare (bal d) (dup2 old_fd new_fd) (\<lambda>_. bal d)"
  unfolding dup2_def
proof (rule hoare_with_fd, intro hoare_if hoare_stop hoare_returnK)
  fix c f
  assume f: "f < NFILE" and new: "\<not> NFILE \<le> nat new_fd"
  let ?i = "nat new_fd"
  let ?close = "\<lambda>x. case x of None \<Rightarrow> returnK () | Some g \<Rightarrow> file_close g"
  let ?put = "thenK (modifyK (upd_proc c (\<lambda>q. q\<lparr>p_ofile := (p_ofile q)[?i := Some f]\<rparr>))) (returnK new_fd)"
  have body: "hoare (\<lambda>s. bal d s \<and> has_fd c ?i x s) (thenK (?close x) (thenK (file_dup f) ?put)) (\<lambda>_. bal d)"
    if x: "\<And>g. x = Some g \<Longrightarrow> g < NFILE" for x
  proof -
    let ?d = "\<lambda>g. d g - (if x = Some g then 1 else 0)"
    have cl: "hoare (bal d) (?close x) (\<lambda>_. bal ?d)"
    proof (cases x)
      case None
      then show ?thesis by (simp add: hoare_returnK)
    next
      case (Some g)
      then show ?thesis by (simp, intro hoare_weaken [OF hoare_file_close [OF x]]) (auto elim!: bal_ext)
    qed
    have kc: "keeps descs (?close x)" by (intro keep keeps_closing(2))
    have put: "hoare (\<lambda>s. bal (?d(f := ?d f + 1)) s \<and> has_fd c ?i x s) ?put (\<lambda>_. bal d)"
      by (intro hoare_thenK [where R = "bal d"] hoare_returnK hoare_set_fd) (use f new in auto)
    show ?thesis
      by (rule hoare_thenK [OF hoare_has_fd [OF cl kc]],
          rule hoare_thenK [OF hoare_has_fd [OF hoare_file_dup [OF f] keeps_closing(3)]], rule put)
  qed
  show "hoare (\<lambda>s. bal d s \<and> has_fd c (nat old_fd) (Some f) s) (bindK (getK (\<lambda>s. p_ofile (procs s ! c) ! ?i))
      (\<lambda>x. thenK (?close x) (thenK (file_dup f) ?put))) (\<lambda>_. bal d)"
  proof (rule hoare_bindK [where R = "\<lambda>x s. (bal d s \<and> has_fd c ?i x s) \<and> (\<forall>g. x = Some g \<longrightarrow> g < NFILE)"], rule hoare_getK)
    fix s
    assume s: "bal d s \<and> has_fd c (nat old_fd) (Some f) s"
    then show "(bal d s \<and> has_fd c ?i (p_ofile (procs s ! c) ! ?i) s) \<and> (\<forall>g. p_ofile (procs s ! c) ! ?i = Some g \<longrightarrow> g < NFILE)"
      using bal_fd_valid [of d s c ?i] bal_cur [of d s c] new by (simp add: has_fd_def)
  qed (rule hoare_pure, use body in blast)
qed simp_all

section \<open>Pipes\<close>

lemma counts_upd:
  "counts (upd_inode k h s) = counts s" "counts (upd_tty n g s) = counts s"
  by (simp_all add: counts_def upd_inode_def upd_tty_def)

lemma hoare_make_end: "f < NFILE \<Longrightarrow> hoare (bal d) (make_end f p) (\<lambda>_. bal d)"
  unfolding make_end_def by (rule hoare_modifyK) (auto simp: bal_def file_tab nth_list_update)

lemma fd_alloc_cases:
  assumes "bal d s" and "cur_proc s = Some c" and "f < NFILE" and "file_fd_alloc c f s = Ok r t"
  obtains "r = - EMFILE" and "t = s" and "None \<notin> set (p_ofile (procs s ! c))"
  | i where "r = int i" and "i < NFILE" and "bal (d(f := d f - 1)) t" and "has_fd c i (Some f) t"
    and "t = upd_proc c (\<lambda>q. q\<lparr>p_ofile := (p_ofile q)[i := Some f]\<rparr>) s" and "p_ofile (procs s ! c) ! i = None"
proof (cases "first_index (\<lambda>x. x = None) (p_ofile (procs s ! c))")
  case None
  then have "file_fd_alloc c f s = Ok (- EMFILE) s" by (simp add: file_fd_alloc_def kern_simps)
  moreover have "None \<notin> set (p_ofile (procs s ! c))" using None by (auto simp: first_index_None)
  ultimately show ?thesis using assms(4) that(1) by simp
next
  case (Some i)
  note i = first_index_SomeD(1,2) [OF Some]
  note c = bal_cur(1,4) [OF assms(1,2)] bal_cur(2) [OF assms(1,2)]
  have t: "r = int i" "t = upd_proc c (\<lambda>q. q\<lparr>p_ofile := (p_ofile q)[i := Some f]\<rparr>) s"
    using assms(4) Some by (auto simp: file_fd_alloc_def kern_simps)
  moreover have "bal (d(f := d f - 1)) t"
    using hoare_file_fd_alloc [OF assms(3), of d c] assms(1,2,4) t(1) by (auto simp: hoare_def)
  moreover have "has_fd c i (Some f) t" using t(2) c i assms(2) by (simp add: has_fd_def ofile_of_def live_proc_def)
  ultimately show ?thesis using that(2) [of i] i c(2) by simp
qed

text \<open>Two descriptors one after the other: when only one is left, the second allocation fails.\<close>

lemma two_fds:
  assumes s: "bal d s" "cur_proc s = Some c" and f: "rd < NFILE" "wr < NFILE"
    and run: "file_fd_alloc c rd s = Ok rfd t" "file_fd_alloc c wr t = Ok wfd u"
  shows "rfd < 0 \<and> wfd < 0 \<and> bal d u
    \<or> 0 \<le> rfd \<and> nat rfd < NFILE \<and> wfd < 0 \<and> bal (d(rd := d rd - 1)) u \<and> has_fd c (nat rfd) (Some rd) u
    \<or> 0 \<le> rfd \<and> 0 \<le> wfd \<and> bal ((d(rd := d rd - 1))(wr := (d(rd := d rd - 1)) wr - 1)) u"
  using s f(1) run(1)
proof (cases rule: fd_alloc_cases)
  case first: 1
  from s f(2) run(2) [unfolded first(2)] show ?thesis
  proof (cases rule: fd_alloc_cases)
    case 1
    then show ?thesis using s first by simp
  next
    case (2 i)
    then have "None \<in> set (p_ofile (procs s ! c))"
      using bal_cur(4) [OF s] nth_mem [of i "p_ofile (procs s ! c)"] by simp
    then show ?thesis using first(3) by blast
  qed
next
  case first: (2 i)
  have "cur_proc t = Some c" using first(4) by (simp add: has_fd_def)
  from first(3) this f(2) run(2) show ?thesis
  proof (cases rule: fd_alloc_cases)
    case 1
    then show ?thesis using first by simp
  next
    case (2 j)
    then show ?thesis using first by simp
  qed
qed

lemma hoare_unpipe:
  assumes "rd < NFILE" and "wr < NFILE" and "rd \<noteq> wr" and "d rd = 1" and "d wr = 1" and "wfd < 0"
  shows "hoare (\<lambda>s. rfd < 0 \<and> bal d s \<or> 0 \<le> rfd \<and> nat rfd < NFILE \<and> bal (d(rd := 0)) s \<and> has_fd c (nat rfd) (Some rd) s)
    (thenK (clear_fd c rfd) (thenK (clear_fd c wfd) (thenK (file_close rd) (thenK (file_close wr) (thenK (pipe_destroy p) (returnK x))))))
    (\<lambda>_. bal (d(rd := 0, wr := 0)))"
proof -
  have 1: "hoare (\<lambda>s. rfd < 0 \<and> bal d s \<or> 0 \<le> rfd \<and> nat rfd < NFILE \<and> bal (d(rd := 0)) s \<and> has_fd c (nat rfd) (Some rd) s)
      (clear_fd c rfd) (\<lambda>_. bal d)"
  proof (cases "rfd < 0 \<or> NFILE \<le> nat rfd")
    case True
    then show ?thesis by (auto simp: clear_fd_def hoare_def kern_simps)
  next
    case False
    then have "hoare (\<lambda>s. bal (d(rd := 0)) s \<and> has_fd c (nat rfd) (Some rd) s) (clear_fd c rfd) (\<lambda>_. bal d)"
      unfolding clear_fd_def whenK_def using assms(4) by (simp, intro hoare_set_fd) auto
    then show ?thesis using False by (auto simp: hoare_def)
  qed
  have 2: "keeps counts (clear_fd c wfd)" using assms(6) by (simp add: clear_fd_def keep whenK_def)
  have 3: "hoare (bal d) (file_close rd) (\<lambda>_. bal (d(rd := 0)))"
    using hoare_file_close [OF assms(1), of d] assms(4) by simp
  have 4: "hoare (bal (d(rd := 0))) (file_close wr) (\<lambda>_. bal (d(rd := 0, wr := 0)))"
    using hoare_file_close [OF assms(2), of "d(rd := 0)"] assms(3,5) by simp
  show ?thesis
    by (rule hoare_thenK [OF 1], rule hoare_keep_then [OF 2], rule hoare_thenK [OF 3], rule hoare_thenK [OF 4],
        rule hoare_keep_then [OF keeps_pipe_rest(2)], rule hoare_returnK)
qed

lemma hoare_file_alloc_clean:
  assumes "\<And>f. d f \<ge> 0"
  shows "hoare (bal d) file_alloc (\<lambda>r s. case r of None \<Rightarrow> bal d s | Some f \<Rightarrow> f < NFILE \<and> d f = 0 \<and> bal (d(f := 1)) s)"
  by (rule hoare_weaken [OF hoare_file_alloc [of d]]) (use assms in auto)

lemma hoare_bind_two:
  assumes "\<And>s x t y u. P s \<Longrightarrow> m s = Ok x t \<Longrightarrow> n t = Ok y u \<Longrightarrow> R x y u" and "\<And>x y. hoare (R x y) (k x y) Q"
  shows "hoare P (bindK m (\<lambda>x. bindK n (k x))) Q"
  using assms by (fastforce simp: hoare_def bindK_def split: outcome.splits)

lemma hoare_with_cur:
  "(\<And>c. hoare (\<lambda>s. P s \<and> cur_proc s = Some c) (k c) Q) \<Longrightarrow> hoare P (with_cur k) Q"
  by (auto simp: with_cur_def hoare_def kern_simps split: option.splits)

lemma hoare_pipe_fds:
  assumes f: "rd < NFILE" "wr < NFILE" "rd \<noteq> wr" "d rd = 0" "d wr = 0"
  shows "hoare (bal (d(rd := 1, wr := 1)))
    (with_cur (\<lambda>c. bindK (file_fd_alloc c rd) (\<lambda>rfd. bindK (file_fd_alloc c wr) (\<lambda>wfd.
       if rfd < 0 \<or> wfd < 0 then
         thenK (clear_fd c rfd) (thenK (clear_fd c wfd) (thenK (file_close rd) (thenK (file_close wr) (thenK (pipe_destroy p) (returnK x)))))
       else returnK (y rfd wfd))))) (\<lambda>_. bal d)"
proof (rule hoare_with_cur, rule hoare_bind_two)
  fix c s rfd t wfd u
  let ?d = "d(rd := 1, wr := 1)"
  let ?R = "\<lambda>rfd wfd s. rfd < 0 \<and> wfd < 0 \<and> bal ?d s
     \<or> 0 \<le> rfd \<and> nat rfd < NFILE \<and> wfd < 0 \<and> bal (?d(rd := 0)) s \<and> has_fd c (nat rfd) (Some rd) s
     \<or> 0 \<le> rfd \<and> 0 \<le> wfd \<and> bal d s"
  assume s: "bal ?d s \<and> cur_proc s = Some c" and run: "file_fd_alloc c rd s = Ok rfd t" "file_fd_alloc c wr t = Ok wfd u"
  have z: "?d(rd := 0, wr := 0) = d" "?d rd = 1" "(?d(rd := 0)) wr = 1" using f(3-5) by auto
  have zz: "d(rd := 0, wr := 0) = d" "d(wr := 0, rd := 0) = d" using f(4,5) by auto
  show "?R rfd wfd u" using two_fds [OF conjunct1 [OF s] conjunct2 [OF s] f(1,2) run] f(3)
    by (elim disjE) (simp_all add: fun_upd_twist [of wr rd] zz)
next
  fix c rfd wfd
  let ?d = "d(rd := 1, wr := 1)"
  have z: "?d(rd := 0, wr := 0) = d" "?d rd = 1" "?d wr = 1" using f(3-5) by auto
  show "hoare (\<lambda>s. rfd < 0 \<and> wfd < 0 \<and> bal ?d s
     \<or> 0 \<le> rfd \<and> nat rfd < NFILE \<and> wfd < 0 \<and> bal (?d(rd := 0)) s \<and> has_fd c (nat rfd) (Some rd) s
     \<or> 0 \<le> rfd \<and> 0 \<le> wfd \<and> bal d s)
     (if rfd < 0 \<or> wfd < 0 then
         thenK (clear_fd c rfd) (thenK (clear_fd c wfd) (thenK (file_close rd) (thenK (file_close wr) (thenK (pipe_destroy p) (returnK x)))))
       else returnK (y rfd wfd)) (\<lambda>_. bal d)"
  proof (cases "wfd < 0")
    case True
    show ?thesis
      using hoare_unpipe [where d = ?d, OF f(1-3) _ _ True, of rfd c p x] z True by (simp add: fun_upd_twist [of wr rd] hoare_def)
  next
    case False
    then show ?thesis by (auto simp: hoare_def kern_simps split: if_splits)
  qed
qed

lemma hoare_sys_pipe:
  assumes pos: "\<And>f. d f \<ge> 0"
  shows "hoare (bal d) (sys_pipe in_user) (\<lambda>_. bal d)"
proof -
  have drop: "hoare (bal (d(f := 1))) (file_close f) (\<lambda>_. bal (d(f := 0)))" if "f < NFILE" for f d
    using hoare_file_close [OF that, of "d(f := 1)"] by simp
  have z: "d(f := 0) = d" if "d f = 0" for f using that by auto
  have flags: "keeps counts (modifyK (upd_file f (\<lambda>x. x\<lparr>f_flags := v\<rparr>)))" for f v by (intro keep) (simp add: counts_file)
  have pipes: "keeps counts (modifyK (upd_pipe q g))" for q g by (intro keep) simp
  have second: "hoare (bal d) (thenK (close_opt None) (thenK (close_opt None) (returnK e))) (\<lambda>_. bal d)" for e :: "int \<times> (int \<times> int) option"
    by (simp add: close_opt_def) (intro hoare_thenK hoare_returnK; assumption)
  have one: "hoare (bal (d(rd := 1))) (bindK file_alloc (\<lambda>w. case (Some rd, w) of
     (Some rd, Some wr) \<Rightarrow> k rd wr | _ \<Rightarrow> thenK (close_opt (Some rd)) (thenK (close_opt w) (returnK e)))) (\<lambda>_. bal d)"
    if rd: "rd < NFILE" "d rd = 0" and k: "\<And>wr. wr < NFILE \<Longrightarrow> rd \<noteq> wr \<Longrightarrow> d wr = 0 \<Longrightarrow> hoare (bal (d(rd := 1, wr := 1))) (k rd wr) (\<lambda>_. bal d)"
    for rd and k and e :: "int \<times> (int \<times> int) option"
  proof (rule hoare_bindK [OF hoare_file_alloc_clean])
    fix w
    show "hoare (\<lambda>s. case w of None \<Rightarrow> bal (d(rd := 1)) s
          | Some f \<Rightarrow> f < NFILE \<and> (d(rd := 1)) f = 0 \<and> bal (d(rd := 1, f := 1)) s)
        (case (Some rd, w) of (Some rd, Some wr) \<Rightarrow> k rd wr | _ \<Rightarrow> thenK (close_opt (Some rd)) (thenK (close_opt w) (returnK e))) (\<lambda>_. bal d)"
    proof (cases w)
      case None
      have "hoare (bal (d(rd := 1))) (thenK (file_close rd) (thenK (returnK ()) (returnK e))) (\<lambda>_. bal d)"
        using drop [OF rd(1), of d] unfolding z [OF rd(2)] by (intro hoare_thenK hoare_returnK) assumption+
      then show ?thesis using None by (simp add: close_opt_def)
    next
      case (Some wr)
      then show ?thesis using k [of wr] by (auto simp: hoare_def split: if_splits)
    qed
  qed (simp add: pos)
  have both: "hoare (bal (d(rd := 1, wr := 1))) (thenK (modifyK (upd_file rd (\<lambda>x. x\<lparr>f_flags := O_RDONLY\<rparr>)))
      (thenK (modifyK (upd_file wr (\<lambda>x. x\<lparr>f_flags := O_WRONLY\<rparr>))) (bindK pipe_create k))) (\<lambda>_. bal d)"
    if "\<And>pc. hoare (bal (d(rd := 1, wr := 1))) (k pc) (\<lambda>_. bal d)"
    for rd wr and k :: "nat option \<Rightarrow> (int \<times> (int \<times> int) option) kernel"
    by (rule hoare_keep_then [OF flags], rule hoare_keep_then [OF flags], rule hoare_keep_bind [OF keeps_pipe_rest(3)], rule that)
  have none: "hoare (bal (d(rd := 1, wr := 1))) (thenK (file_close rd) (thenK (file_close wr) (returnK e))) (\<lambda>_. bal d)"
    if "rd < NFILE" "wr < NFILE" "rd \<noteq> wr" "d rd = 0" "d wr = 0" for rd wr and e :: "int \<times> (int \<times> int) option"
  proof -
    have "hoare (bal (d(rd := 1, wr := 1))) (file_close rd) (\<lambda>_. bal (d(wr := 1)))"
      using drop [OF that(1), of "d(wr := 1)"] that(3,4) by (simp add: fun_upd_twist [of wr rd] z)
    moreover have "hoare (bal (d(wr := 1))) (file_close wr) (\<lambda>_. bal d)" using drop [OF that(2), of d] unfolding z [OF that(5)] .
    ultimately show ?thesis by (intro hoare_thenK hoare_returnK)
  qed
  show ?thesis
    unfolding sys_pipe_def
  proof (intro hoare_if hoare_returnK, simp, rule hoare_bindK [OF hoare_file_alloc_clean], simp add: pos, goal_cases)
    case (1 r)
    show ?case
    proof (cases r)
      case None
      have "hoare (bal d) (bindK file_alloc (\<lambda>w. case (None, w) of
          (Some rd, Some wr) \<Rightarrow> k rd wr | _ \<Rightarrow> thenK (close_opt None) (thenK (close_opt w) (returnK e)))) (\<lambda>_. bal d)"
        for k and e :: "int \<times> (int \<times> int) option"
      proof (rule hoare_bindK [OF hoare_file_alloc_clean])
        fix w
        show "hoare (\<lambda>s. case w of None \<Rightarrow> bal d s | Some f \<Rightarrow> f < NFILE \<and> d f = 0 \<and> bal (d(f := 1)) s)
          (case (None, w) of (Some rd, Some wr) \<Rightarrow> k rd wr | _ \<Rightarrow> thenK (close_opt None) (thenK (close_opt w) (returnK e))) (\<lambda>_. bal d)"
          using drop [of "the w" d] z [of "the w"]
          by (cases w) (auto simp: close_opt_def hoare_def thenK_def bindK_def returnK_def split: outcome.splits)
      qed (simp add: pos)
      then show ?thesis using None by (simp add: case_prod_unfold)
    next
      case (Some rd)
      have body: "hoare (bal (d(rd := 1, wr := 1))) (case pc of
           None \<Rightarrow> thenK (file_close rd) (thenK (file_close wr) (returnK (- ENFILE, None)))
         | Some p \<Rightarrow> thenK (make_end rd p) (thenK (modifyK (upd_pipe p (\<lambda>x. x\<lparr>readers := readers x + 1\<rparr>)))
             (thenK (make_end wr p) (thenK (modifyK (upd_pipe p (\<lambda>x. x\<lparr>writers := writers x + 1\<rparr>))) (fds p))))) (\<lambda>_. bal d)"
        if f: "rd < NFILE" "wr < NFILE" "rd \<noteq> wr" "d rd = 0" "d wr = 0" and fds: "\<And>p. hoare (bal (d(rd := 1, wr := 1))) (fds p) (\<lambda>_. bal d)"
        for wr pc and fds :: "nat \<Rightarrow> (int \<times> (int \<times> int) option) kernel"
      proof (cases pc)
        case (Some p)
        show ?thesis
          unfolding Some option.case
          by (intro hoare_thenK [OF hoare_make_end] hoare_keep_then [OF pipes] fds f(1,2))
      qed (simp add: none [OF f])
      have pre: "hoare (\<lambda>s. rd < NFILE \<and> b \<and> P s) m Q" if "rd < NFILE \<Longrightarrow> b \<Longrightarrow> hoare P m Q"
        for P b m and Q :: "int \<times> (int \<times> int) option \<Rightarrow> kstate \<Rightarrow> bool"
        using that by (auto simp: hoare_def)
      show ?thesis
        unfolding Some option.case
        by (rule pre, rule one, assumption, assumption, rule both, rule body, assumption+, rule hoare_pipe_fds)
    qed
  qed
qed

section \<open>Opening\<close>

lemma keeps_fs: "keeps counts (namei p)" "keeps counts (access k m)" "keeps counts (ilock i)" "keeps counts (itrunc i)"
  "keeps counts (iunlock i)" "keeps counts (set_finode f i)"
  unfolding set_finode_def
  by (intro keeps_counts [OF keeps_namei(2)] keeps_counts [OF keeps_inode(5)] keeps_counts [OF keeps_inode(2)]
      keeps_counts [OF keeps_itrunc] keeps_counts [OF keeps_inode(1)] keeps_modifyK; simp add: counts_file)+

lemma keeps_scan_dir [keep]: "keeps ofiles (scan_dir stop k limit offset entry)"
proof (induction stop k limit offset entry rule: scan_dir.induct)
  case (1 stop k limit offset entry)
  show ?case by (subst scan_dir.simps) (intro keep; use 1 in simp)
qed

lemma keeps_wdir [keep]: "keeps ofiles (wdir dir no name)"
  unfolding wdir_def by (intro keep) simp

lemma keeps_file_creat [keep]: "keeps ofiles (file_creat name mode)"
  unfolding file_creat_def by (intro keep) simp_all

lemma hoare_with_finode: "(\<And>i. hoare (bal d) (k i) Q) \<Longrightarrow> hoare (bal d) (with_finode f k) Q"
  unfolding with_finode_def by (rule hoare_get_keep) (simp add: hoare_stop split: option.split)

lemma hoare_case_prod: "(\<And>x y. hoare P (f x y) Q) \<Longrightarrow> hoare P (case v of (x, y) \<Rightarrow> f x y) Q"
  by (cases v) simp

text \<open>An open that finds no free descriptor leaves one reference that no descriptor accounts for.\<close>

lemma hoare_sys_open:
  assumes pos: "\<And>f. d f \<ge> 0"
  shows "hoare (bal d) (sys_open name flags mode) (\<lambda>r s. bal d s \<or> r = - EMFILE \<and> (\<exists>f<NFILE. bal (d(f := d f + 1)) s))"
proof -
  let ?Q = "\<lambda>r s. bal d s \<or> r = - EMFILE \<and> (\<exists>f<NFILE. bal (d(f := d f + 1)) s)"
  have idem: "d(f := 0) = d" if "d f = 0" for f using that by auto
  have drop: "hoare (bal (d(f := 1))) (thenK (file_close f) (returnK e)) ?Q" if "f < NFILE" "d f = 0" for f and e :: int
    using hoare_file_close [OF that(1), of "d(f := 1)"] idem [OF that(2)]
    by (intro hoare_thenK [where R = "bal d"] hoare_returnK) simp_all
  have give: "hoare (bal (d(f := 1))) (with_cur (\<lambda>c. file_fd_alloc c f)) ?Q" if f: "f < NFILE" "d f = 0" for f
  proof (rule hoare_with_cur)
    fix c
    show "hoare (\<lambda>s. bal (d(f := 1)) s \<and> cur_proc s = Some c) (file_fd_alloc c f) ?Q"
      unfolding hoare_def
    proof (intro allI impI)
      fix s r t
      assume s: "bal (d(f := 1)) s \<and> cur_proc s = Some c" and run: "file_fd_alloc c f s = Ok r t"
      from conjunct1 [OF s] conjunct2 [OF s] f(1) run show "?Q r t"
      proof (cases rule: fd_alloc_cases)
        case 1
        then show ?thesis using s f by auto
      next
        case (2 i)
        then show ?thesis using idem [OF f(2)] by simp
      qed
    qed
  qed
  have flags: "keeps counts (modifyK (upd_file f (\<lambda>x. x\<lparr>f_flags := f_flags x OR flags\<rparr>)))"
    "keeps counts (modifyK (upd_file f (\<lambda>x. x\<lparr>f_offset := v\<rparr>)))" for f v by (intro keep; simp add: counts_file)+
  have create: "keeps counts (bindK (file_creat name m) (\<lambda>(_, made). case made of None \<Rightarrow> returnK () | Some k' \<Rightarrow> set_finode f k'))" for m f
    by (intro keep keeps_fs keeps_counts [OF keeps_file_creat])
  have prepare: "keeps counts (if flags AND O_TRUNC \<noteq> 0 then thenK (ilock k) (thenK (itrunc k) (iunlock k))
      else if flags AND O_APPEND \<noteq> 0 then
        bindK (getK (\<lambda>s. i_size (inodes s ! k))) (\<lambda>sz. modifyK (upd_file f (\<lambda>x. x\<lparr>f_offset := sz\<rparr>))) else returnK ())" for k f
    by (intro keep keeps_fs flags) (simp add: counts_file)
  show ?thesis
    unfolding sys_open_def
  proof (intro hoare_if hoare_returnK, simp, rule hoare_bindK [OF hoare_file_alloc_clean], simp add: pos, goal_cases)
    case (1 r)
    have pre: "hoare (\<lambda>s. f < NFILE \<and> b \<and> P s) m Q" if "f < NFILE \<Longrightarrow> b \<Longrightarrow> hoare P m Q"
      for f P b m and Q :: "int \<Rightarrow> kstate \<Rightarrow> bool" using that by (auto simp: hoare_def)
    show ?case
      by (cases r, simp add: hoare_returnK, simp only: option.case, rule pre, rule hoare_keep_then [OF flags(1)],
          rule hoare_keep_bind [OF keeps_fs(1)], rule hoare_case_prod, rule hoare_keep_then [OF keeps_fs(6)],
          intro hoare_if drop, assumption, assumption, rule hoare_keep_then, intro keep create, rule hoare_with_finode,
          rule hoare_keep_bind [OF keeps_fs(2)], intro hoare_if drop, assumption, assumption, rule hoare_keep_then [OF prepare], rule give)
  qed
qed

section \<open>The other calls\<close>

lemma keeps_calls:
  "keeps counts (sys_read fd buf)" "keeps counts (sys_write fd buf)" "keeps counts (lseek fd off wh)" "keeps counts (fstat fd)"
  "keeps counts (sys_stat path)" "keeps counts (sys_unlink path)" "keeps counts (sys_mkdir path mode)"
  "keeps counts (sys_utime path tb)" "keeps counts (chdir opath)" "keeps counts (ioctl fd op ptr)"
proof -
  have fd: "keeps counts (with_fd b fd k)" if "\<And>c f. keeps counts (k c f)" for b fd k
    unfolding with_fd_def by (intro keep that)
  have fi: "keeps counts (with_finode f k)" if "\<And>i. keeps counts (k i)" for f and k :: "nat \<Rightarrow> 'b kernel"
    unfolding with_finode_def by (intro keep that)
  note fs = keeps_inode [THEN keeps_counts] keeps_readi [THEN keeps_counts] keeps_writei [THEN keeps_counts]
    keeps_pipe_rest keeps_sleep [THEN keeps_counts]
  have adv: "keeps counts (advance f r)" for f r unfolding advance_def by (intro keep) (simp add: counts_file)
  have fr: "keeps counts (file_read f buf)" "keeps counts (file_write f buf)" for f buf
    unfolding file_read_def file_write_def by (intro fi keep fs adv)+
  have pr: "keeps counts (pipe_read f n)" "keeps counts (pipe_write f buf)" for f n buf
    unfolding pipe_read_def pipe_write_def pipe_write_run_def with_pipe_def by (intro keep fs; simp)+
  show "keeps counts (sys_read fd buf)" "keeps counts (sys_write fd buf)"
    unfolding sys_read_def sys_write_def by (intro keep fd fr pr)+
  show "keeps counts (lseek fd off wh)"
    unfolding lseek_def file_seek_def Let_def by (intro fd fi keep) (simp add: counts_file)
  show "keeps counts (fstat fd)" unfolding fstat_def by (intro keep fi fs)
  show "keeps counts (sys_stat path)"
    by (rule keeps_counts) (unfold sys_stat_def, intro keep)
  show "keeps counts (sys_unlink path)"
    by (rule keeps_counts) (unfold sys_unlink_def, intro keep, simp_all)
  show "keeps counts (sys_mkdir path mode)"
    by (rule keeps_counts) (unfold sys_mkdir_def, intro keep, auto intro!: keep split: option.split)
  show "keeps counts (sys_utime path tb)"
    by (rule keeps_counts) (unfold sys_utime_def time_def, intro keep, simp_all)
  show "keeps counts (chdir opath)" by (rule keeps_counts [OF keeps_chdir])
  show "keeps counts (ioctl fd op ptr)"
    unfolding ioctl_def tty_ioctl_def with_tty_def Let_def by (intro keep) (auto intro!: keep simp: counts_upd split: termios_op.split)
qed

end
