(* ===== verification/Pmap.thy ===== *)
theory Pmap
  imports Vmm Proctab
begin

text \<open>
  Page tables, \<open>sys/i386/pmap.c\<close>.  A page directory and its tables lie in physical memory and are
  reached as the code reaches them: through virtual addresses that the processor translates with the
  active directory, whose last entry points to itself.  The translation caches of the processor are
  not part of the model; the code reloads the directory register after every change it relies on.
\<close>

abbreviation (input) PAGE_MASK :: u32 where "PAGE_MASK \<equiv> 0xFFFFF000"
abbreviation (input) PAGE_PRESENT :: u32 where "PAGE_PRESENT \<equiv> 1"
abbreviation (input) PAGE_WRITABLE :: u32 where "PAGE_WRITABLE \<equiv> 2"
abbreviation (input) PAGE_USER :: u32 where "PAGE_USER \<equiv> 4"
abbreviation (input) SYS_VADDR :: u32 where "SYS_VADDR \<equiv> 0x80000000"
abbreviation (input) SYS_VADDR_INDEX :: nat where "SYS_VADDR_INDEX \<equiv> 512"
abbreviation (input) SYS_VADDR_TMP :: u32 where "SYS_VADDR_TMP \<equiv> 0x80001000"
abbreviation (input) SYS_VADDR_TMP2 :: u32 where "SYS_VADDR_TMP2 \<equiv> 0x80002000"
abbreviation (input) PTE_MAP :: u32 where "PTE_MAP \<equiv> 0xFFC00000"
abbreviation (input) PTE_MAP_INDEX :: nat where "PTE_MAP_INDEX \<equiv> 1023"
abbreviation (input) VM_PROT_READ :: u32 where "VM_PROT_READ \<equiv> 1"
abbreviation (input) VM_PROT_WRITE :: u32 where "VM_PROT_WRITE \<equiv> 2"
abbreviation (input) VM_PROT_ALL :: u32 where "VM_PROT_ALL \<equiv> 7"

section \<open>Address translation\<close>

text \<open>The indices of the directory, of the table and of the word in the page.\<close>

definition pd_index :: "u32 \<Rightarrow> nat" where
  "pd_index vaddr = unat (drop_bit 22 vaddr)"

definition pt_index :: "u32 \<Rightarrow> nat" where
  "pt_index vaddr = unat (drop_bit 12 vaddr AND 0x3FF)"

definition word_index :: "u32 \<Rightarrow> nat" where
  "word_index vaddr = unat (drop_bit 2 vaddr AND 0x3FF)"

text \<open>
  The page that the processor finds for a virtual address, if both entries have the bits \<open>need\<close>:
  a read needs a present page, a write by the kernel a writable one as well, since \<open>entry.S\<close>
  switches write protection on.
\<close>

definition translate :: "u32 \<Rightarrow> kstate \<Rightarrow> u32 \<Rightarrow> u32 option" where
  "translate need s vaddr =
     (let pde = frames s (cr3 s) (pd_index vaddr); pte = frames s (pde AND PAGE_MASK) (pt_index vaddr)
      in if pde AND need = need \<and> pte AND need = need then Some (pte AND PAGE_MASK) else None)"

definition set_word :: "u32 \<Rightarrow> nat \<Rightarrow> u32 \<Rightarrow> kstate \<Rightarrow> kstate" where
  "set_word page i w s = s\<lparr>frames := (frames s)(page := (frames s page)(i := w))\<rparr>"

definition loadw :: "u32 \<Rightarrow> u32 kernel" where
  "loadw vaddr =
     bindK (getK (\<lambda>s. translate PAGE_PRESENT s vaddr)) (\<lambda>r.
     case r of None \<Rightarrow> faultK | Some page \<Rightarrow> getK (\<lambda>s. frames s page (word_index vaddr)))"

definition storew :: "u32 \<Rightarrow> u32 \<Rightarrow> unit kernel" where
  "storew vaddr w =
     bindK (getK (\<lambda>s. translate (PAGE_PRESENT OR PAGE_WRITABLE) s vaddr)) (\<lambda>r.
     case r of None \<Rightarrow> faultK | Some page \<Rightarrow> modifyK (set_word page (word_index vaddr) w))"

text \<open>\<open>memset(vaddr, 0, PAGE_SIZE)\<close> and \<open>memcpy(dst, src, PAGE_SIZE)\<close> on whole pages.\<close>

definition clear_page :: "u32 \<Rightarrow> unit kernel" where
  "clear_page vaddr =
     bindK (getK (\<lambda>s. translate (PAGE_PRESENT OR PAGE_WRITABLE) s vaddr)) (\<lambda>r.
     case r of None \<Rightarrow> faultK | Some page \<Rightarrow> modifyK (\<lambda>s. s\<lparr>frames := (frames s)(page := \<lambda>_. 0)\<rparr>))"

definition move_page :: "u32 \<Rightarrow> u32 \<Rightarrow> unit kernel" where
  "move_page dst src =
     bindK (getK (\<lambda>s. (translate (PAGE_PRESENT OR PAGE_WRITABLE) s dst, translate PAGE_PRESENT s src))) (\<lambda>r.
     case r of
       (Some d, Some p) \<Rightarrow> modifyK (\<lambda>s. s\<lparr>frames := (frames s)(d := frames s p)\<rparr>)
     | _ \<Rightarrow> faultK)"

text \<open>The addresses of \<open>pg_dir[i]\<close> and \<open>pte_map[pd][pt]\<close>.\<close>

definition pg_dir_entry :: "nat \<Rightarrow> u32" where
  "pg_dir_entry i = PTE_MAP + 4 * of_nat (PTE_MAP_INDEX * 1024 + i)"

definition pte_map_entry :: "nat \<Rightarrow> nat \<Rightarrow> u32" where
  "pte_map_entry pd pt = PTE_MAP + 4 * of_nat (pd * 1024 + pt)"

section \<open>Operations\<close>

definition pmap_dir :: "pmapref \<Rightarrow> kstate \<Rightarrow> u32" where
  "pmap_dir pm s = (case pm of PKernel \<Rightarrow> kernel_pg_dir s | PProc p \<Rightarrow> pg_dir_paddr (procs s ! p))"

definition set_pmap_dir :: "pmapref \<Rightarrow> u32 \<Rightarrow> kstate \<Rightarrow> kstate" where
  "set_pmap_dir pm a s =
     (case pm of PKernel \<Rightarrow> s\<lparr>kernel_pg_dir := a\<rparr> | PProc p \<Rightarrow> upd_proc p (\<lambda>q. q\<lparr>pg_dir_paddr := a\<rparr>) s)"

definition pmap_activate_pmap :: "pmapref \<Rightarrow> unit kernel" where
  "pmap_activate_pmap pm = modifyK (\<lambda>s. s\<lparr>cur_pmap := pm, cr3 := pmap_dir pm s\<rparr>)"

definition pmap_activate :: "nat \<Rightarrow> unit kernel" where
  "pmap_activate p = pmap_activate_pmap (PProc p)"

text \<open>The frame of the operations: \<open>pmap\<close> is made current, and the old one again at the end.\<close>

definition within :: "pmapref \<Rightarrow> 'a kernel \<Rightarrow> 'a kernel" where
  "within pm body =
     bindK (getK cur_pmap) (\<lambda>old_pmap.
     thenK (whenK (old_pmap \<noteq> pm) (pmap_activate_pmap pm))
     (bindK body (\<lambda>r.
      bindK (getK cur_pmap) (\<lambda>now.
      thenK (whenK (now \<noteq> old_pmap) (pmap_activate_pmap old_pmap))
      (returnK r)))))"

definition pmap_extract :: "pmapref \<Rightarrow> u32 \<Rightarrow> u32 kernel" where
  "pmap_extract pm vaddr =
     bindK (within pm
       (bindK (loadw (pg_dir_entry (pd_index vaddr))) (\<lambda>pde.
        if pde AND PAGE_PRESENT = 0 then returnK 0
        else loadw (pte_map_entry (pd_index vaddr) (pt_index vaddr))))) (\<lambda>entry.
     returnK (if entry AND PAGE_PRESENT = 0 then 0 else entry AND PAGE_MASK))"

definition pmap_enter_raw :: "pmapref \<Rightarrow> u32 \<Rightarrow> u32 \<Rightarrow> u32 \<Rightarrow> unit kernel" where
  "pmap_enter_raw pm vaddr paddr prot =
     (let pte = pte_map_entry (pd_index vaddr) (pt_index vaddr)
      in thenK (storew pte (paddr OR PAGE_PRESENT))
         (thenK (whenK (prot AND VM_PROT_WRITE \<noteq> 0) (bindK (loadw pte) (\<lambda>e. storew pte (e OR PAGE_WRITABLE))))
         (whenK (pm \<noteq> PKernel) (bindK (loadw pte) (\<lambda>e. storew pte (e OR PAGE_USER))))))"

text \<open>\<open>pmap_enter\<close>, with the clearing of a new page table as an argument.\<close>

definition enter_with :: "(u32 \<Rightarrow> unit kernel) \<Rightarrow> pmapref \<Rightarrow> u32 \<Rightarrow> u32 \<Rightarrow> u32 \<Rightarrow> unit kernel" where
  "enter_with zero pm vaddr paddr prot =
     within pm
       (bindK (loadw (pg_dir_entry (pd_index vaddr))) (\<lambda>pde.
        thenK (whenK (pde AND PAGE_PRESENT = 0)
                 (bindK vmm_alloc_page (\<lambda>pg_table_paddr.
                  thenK (zero pg_table_paddr)
                  (storew (pg_dir_entry (pd_index vaddr)) (pg_table_paddr OR PAGE_PRESENT OR PAGE_WRITABLE OR PAGE_USER)))))
        (pmap_enter_raw pm vaddr paddr prot)))"

text \<open>
  \<open>pmap_enter(&kernel_pmap, ...)\<close>.  A missing table of the kernel would be cleared through a mapping in
  that same table, a recursion that does not end.
\<close>

definition pmap_kenter :: "u32 \<Rightarrow> u32 \<Rightarrow> u32 \<Rightarrow> unit kernel" where
  "pmap_kenter = enter_with (\<lambda>_. faultK) PKernel"

text \<open>The loop of \<open>pmap_remove\<close>; at the end of the address space it would start again at 0 and not end.\<close>

function remove_loop :: "u32 \<Rightarrow> u32 \<Rightarrow> unit kernel" where
  "remove_loop vaddr vaddr_end =
     (if vaddr + of_nat PAGE_SIZE \<le> vaddr_end then
        thenK (storew (pte_map_entry (pd_index vaddr) (pt_index vaddr)) 0)
        (if vaddr + of_nat PAGE_SIZE \<le> vaddr then faultK
         else remove_loop (vaddr + of_nat PAGE_SIZE) vaddr_end)
      else returnK ())"
  by pat_completeness auto

termination remove_loop
proof (relation "measure (\<lambda>(vaddr, _). 2 ^ 32 - unat vaddr)")
  fix vaddr vaddr_end :: u32
  assume "\<not> vaddr + of_nat PAGE_SIZE \<le> vaddr"
  then show "((vaddr + of_nat PAGE_SIZE, vaddr_end), vaddr, vaddr_end) \<in> measure (\<lambda>(vaddr, _). 2 ^ 32 - unat vaddr)"
    using unsigned_less [of vaddr, where 'a = nat] by (simp add: word_le_nat_alt not_le)
qed simp

declare remove_loop.simps [simp del]

definition pmap_remove :: "pmapref \<Rightarrow> u32 \<Rightarrow> u32 \<Rightarrow> unit kernel" where
  "pmap_remove pm vaddr_start vaddr_end = within pm (remove_loop vaddr_start vaddr_end)"

definition pmap_kremove :: "u32 \<Rightarrow> u32 \<Rightarrow> unit kernel" where
  "pmap_kremove = pmap_remove PKernel"

definition pmap_zero_page :: "u32 \<Rightarrow> unit kernel" where
  "pmap_zero_page paddr =
     thenK (pmap_kenter SYS_VADDR_TMP paddr VM_PROT_WRITE)
     (thenK (clear_page SYS_VADDR_TMP)
     (pmap_kremove SYS_VADDR_TMP (SYS_VADDR_TMP + of_nat PAGE_SIZE)))"

definition pmap_enter :: "pmapref \<Rightarrow> u32 \<Rightarrow> u32 \<Rightarrow> u32 \<Rightarrow> unit kernel" where
  "pmap_enter pm =
     (case pm of PKernel \<Rightarrow> pmap_kenter | PProc _ \<Rightarrow> enter_with pmap_zero_page pm)"

definition pmap_copy_page :: "u32 \<Rightarrow> u32 \<Rightarrow> unit kernel" where
  "pmap_copy_page src_paddr dst_paddr =
     thenK (pmap_kenter SYS_VADDR_TMP src_paddr VM_PROT_READ)
     (thenK (pmap_kenter SYS_VADDR_TMP2 dst_paddr (VM_PROT_READ OR VM_PROT_WRITE))
     (thenK (move_page SYS_VADDR_TMP2 SYS_VADDR_TMP)
     (thenK (pmap_kremove SYS_VADDR_TMP (SYS_VADDR_TMP + of_nat PAGE_SIZE))
     (pmap_kremove SYS_VADDR_TMP2 (SYS_VADDR_TMP2 + of_nat PAGE_SIZE)))))"

definition pmap_create :: "pmapref \<Rightarrow> unit kernel" where
  "pmap_create pm =
     bindK vmm_alloc_page (\<lambda>dir.
     thenK (modifyK (set_pmap_dir pm dir))
     (thenK (pmap_kenter SYS_VADDR_TMP dir VM_PROT_ALL)
     (thenK (clear_page SYS_VADDR_TMP)
     (bindK (getK sys_pg_table) (\<lambda>table.
      thenK (storew (SYS_VADDR_TMP + 4 * of_nat SYS_VADDR_INDEX) ((table - SYS_VADDR) OR PAGE_PRESENT OR PAGE_WRITABLE OR PAGE_USER))
      (thenK (storew (SYS_VADDR_TMP + 4 * of_nat PTE_MAP_INDEX) (dir OR PAGE_PRESENT OR PAGE_WRITABLE OR PAGE_USER))
      (pmap_kremove SYS_VADDR_TMP (SYS_VADDR_TMP + of_nat PAGE_SIZE))))))))"

definition pmap_destroy :: "pmapref \<Rightarrow> unit kernel" where
  "pmap_destroy pm =
     thenK (within pm
       (forK [0..<SYS_VADDR_INDEX] (\<lambda>i.
        bindK (loadw (pg_dir_entry i)) (\<lambda>pde.
        whenK (pde AND PAGE_PRESENT \<noteq> 0) (thenK (vmm_free_page (pde AND PAGE_MASK)) (returnK ()))))))
     (bindK (getK (pmap_dir pm)) (\<lambda>dir.
      thenK (vmm_free_page dir)
      (modifyK (set_pmap_dir pm 0))))"

definition pmap_init :: "unit kernel" where
  "pmap_init =
     thenK (modifyK (\<lambda>s. s\<lparr>kernel_pg_dir := sys_pg_dir s - SYS_VADDR, cur_pmap := PKernel\<rparr>))
     (thenK (modifyK (\<lambda>s. set_word (sys_pg_dir s - SYS_VADDR) PTE_MAP_INDEX
               ((sys_pg_dir s - SYS_VADDR) OR PAGE_PRESENT OR PAGE_WRITABLE OR PAGE_USER) s))
     (thenK (pmap_remove PKernel SYS_VADDR (SYS_VADDR + 0xB8000))
     (bindK (getK kernel_end) (\<lambda>e.
      pmap_remove PKernel ((e + of_nat PAGE_SIZE) AND PAGE_MASK) (SYS_VADDR + of_nat (PAGE_SIZE * 1024))))))"

end
