(* ===== verification/Proclife.thy ===== *)
theory Proclife
  imports Filetab Pmap
begin

text \<open>
  The life of a process: its address space (\<open>proc_break\<close> and the user stack of \<open>sys/kern/proc.c\<close>),
  \<open>fork\<close> (\<open>kern_fork.c\<close>), \<open>exec\<close> (\<open>kern_exec.c\<close>), \<open>exit\<close> (\<open>kern_exit.c\<close>), the delivery of signals
  (\<open>kern_signal.c\<close>) and the entry of system calls (\<open>sysent.c\<close>).  A path that ends in \<open>yield()\<close> for
  good ends in the state it leaves to the scheduler.
\<close>

section \<open>Memory of a process\<close>

text \<open>\<open>for (v = a; v < b; v += PAGE_SIZE) body\<close>; at the end of the address space the loop would start again.\<close>

function page_loop :: "u32 \<Rightarrow> u32 \<Rightarrow> (u32 \<Rightarrow> unit kernel) \<Rightarrow> unit kernel" where
  "page_loop a b body =
     (if a < b then
        thenK (body a)
        (if a + of_nat PAGE_SIZE \<le> a then faultK else page_loop (a + of_nat PAGE_SIZE) b body)
      else returnK ())"
  by pat_completeness auto

termination page_loop
proof (relation "measure (\<lambda>(a, _, _). 2 ^ 32 - unat a)")
  fix a b :: u32 and body :: "u32 \<Rightarrow> unit kernel"
  assume "\<not> a + of_nat PAGE_SIZE \<le> a"
  then show "((a + of_nat PAGE_SIZE, b, body), a, b, body) \<in> measure (\<lambda>(a, _, _). 2 ^ 32 - unat a)"
    using unsigned_less [of a, where 'a = nat] by (simp add: word_le_nat_alt not_le)
qed simp

declare page_loop.simps [simp del]

definition grow_page :: "nat \<Rightarrow> u32 \<Rightarrow> unit kernel" where
  "grow_page p vaddr =
     bindK vmm_alloc_page (\<lambda>paddr.
     thenK (pmap_zero_page paddr)
     (pmap_enter (PProc p) vaddr paddr VM_PROT_ALL))"

definition shrink_page :: "nat \<Rightarrow> u32 \<Rightarrow> unit kernel" where
  "shrink_page p vaddr =
     bindK (pmap_extract (PProc p) vaddr) (\<lambda>paddr.
     thenK (pmap_remove (PProc p) vaddr (vaddr + of_nat PAGE_SIZE))
     (thenK (vmm_free_page paddr)
     (returnK ())))"

definition round_brk :: "u32 \<Rightarrow> u32" where
  "round_brk brk = ((if brk < USER_TEXT then USER_TEXT else brk) + of_nat PAGE_SIZE - 1) AND PAGE_MASK"

definition proc_break :: "nat \<Rightarrow> u32 \<Rightarrow> u32 kernel" where
  "proc_break p brk =
     bindK (getK (\<lambda>s. p_brk (procs s ! p))) (\<lambda>old.
     if brk = 0 then returnK old
     else
       (let new = round_brk brk
        in thenK (if new > old then page_loop old new (grow_page p)
                  else if new < old then page_loop new old (shrink_page p)
                  else returnK ())
           (thenK (modifyK (upd_proc p (\<lambda>q. q\<lparr>p_brk := new\<rparr>)))
           (returnK new))))"

text \<open>A byte stored through the active page directory.\<close>

definition set_byte :: "nat \<Rightarrow> u8 \<Rightarrow> u32 \<Rightarrow> u32" where
  "set_byte k b w = (w AND NOT (push_bit (8 * k) 0xFF)) OR push_bit (8 * k) (ucast b)"

definition storeb :: "u32 \<Rightarrow> u8 \<Rightarrow> unit kernel" where
  "storeb vaddr b =
     bindK (getK (\<lambda>s. translate (PAGE_PRESENT OR PAGE_WRITABLE) s vaddr)) (\<lambda>r.
     case r of
       None \<Rightarrow> faultK
     | Some page \<Rightarrow>
         modifyK (\<lambda>s. set_word page (word_index vaddr)
           (set_byte (unat (vaddr AND 3)) b (frames s page (word_index vaddr))) s))"

definition store_bytes :: "u32 \<Rightarrow> bytes \<Rightarrow> unit kernel" where
  "store_bytes vaddr bs = forK [0..<length bs] (\<lambda>i. storeb (vaddr + of_nat i) (bs ! i))"

text \<open>\<open>readi(inode, (void *)USER_TEXT, 0, inode->i_size) != inode->i_size\<close> and the panic.\<close>

definition load_program :: "nat \<Rightarrow> string \<Rightarrow> unit kernel" where
  "load_program k msg =
     bindK (getK (\<lambda>s. i_size (inodes s ! k))) (\<lambda>size.
     bindK (readi k (replicate (nat size) 0) 0) (\<lambda>(r, text).
     thenK (store_bytes USER_TEXT (take (nat r) text))
     (whenK (r \<noteq> size) (panic msg))))"

section \<open>The initial user stack\<close>

text \<open>
  The stack page from its top down.  A push puts bytes below those already there; the rest of the page
  is zero.  A push below the page runs into an unmapped page of the kernel.  The address of the
  lowest byte on the stack is \<open>esp - esp_offset\<close> of the code.
\<close>

definition push :: "bytes \<Rightarrow> bytes \<Rightarrow> bytes option" where
  "push bs st = (if length bs + length st \<le> PAGE_SIZE then Some (bs @ st) else None)"

definition ustack_addr :: "bytes \<Rightarrow> u32" where
  "ustack_addr st = USER_USTACK + of_nat PAGE_SIZE - of_nat (length st)"

text \<open>A string is padded to a multiple of four bytes, with at least one terminating zero.\<close>

definition aligned_len :: "bytes \<Rightarrow> nat" where
  "aligned_len str = (length str + 4) div 4 * 4"

fun push_strings :: "bytes list \<Rightarrow> bytes \<Rightarrow> (u32 list \<times> bytes) option" where
  "push_strings [] st = Some ([], st)"
| "push_strings (str # strs) st =
     (case push (strncpy_bytes (aligned_len str) str) st of
        None \<Rightarrow> None
      | Some st' \<Rightarrow>
          (case push_strings strs st' of
             None \<Rightarrow> None
           | Some (addrs, st'') \<Rightarrow> Some (ustack_addr st' # addrs, st'')))"

definition words_bytes :: "u32 list \<Rightarrow> bytes" where
  "words_bytes ws = concat (map le32 ws)"

definition ustack_image :: "bytes list \<Rightarrow> bytes list \<Rightarrow> bytes option" where
  "ustack_image argv parent_envp =
     (case push_strings parent_envp [] of
        None \<Rightarrow> None
      | Some (envp, st1) \<Rightarrow>
     (case push (words_bytes (envp @ [0])) st1 of
        None \<Rightarrow> None
      | Some st2 \<Rightarrow>
     (case push_strings argv st2 of
        None \<Rightarrow> None
      | Some (argp, st3) \<Rightarrow>
     (case push (words_bytes argp) st3 of
        None \<Rightarrow> None
      | Some st4 \<Rightarrow>
          push (words_bytes [ustack_addr st2, of_nat (length argv), ustack_addr st4, ustack_addr st2]) st4))))"

definition page_words :: "bytes \<Rightarrow> nat \<Rightarrow> u32" where
  "page_words bs i = get32 bs (4 * i)"

definition proc_init_ustack :: "u32 \<Rightarrow> bytes list \<Rightarrow> bytes list \<Rightarrow> u32 kernel" where
  "proc_init_ustack ustack argv parent_envp =
     thenK (pmap_kenter SYS_VADDR_TMP ustack VM_PROT_ALL)
     (thenK (clear_page SYS_VADDR_TMP)
     (case ustack_image argv parent_envp of
        None \<Rightarrow> faultK
      | Some st \<Rightarrow>
          thenK (store_bytes (SYS_VADDR_TMP + of_nat PAGE_SIZE - of_nat (length st)) st)
          (thenK (pmap_kremove SYS_VADDR_TMP (SYS_VADDR_TMP + of_nat PAGE_SIZE))
          (returnK (ustack_addr st)))))"

text \<open>The loop that unmaps the user stack downwards until a page is missing; below address 0 it
  would go on through the tables of the kernel.\<close>

function unmap_stack :: "nat \<Rightarrow> u32 \<Rightarrow> unit kernel" where
  "unmap_stack p vaddr =
     bindK (pmap_extract (PProc p) vaddr) (\<lambda>paddr.
     if paddr = 0 then returnK ()
     else
       thenK (pmap_remove (PProc p) vaddr (vaddr + of_nat PAGE_SIZE))
       (if vaddr \<le> vaddr - of_nat PAGE_SIZE then faultK
        else unmap_stack p (vaddr - of_nat PAGE_SIZE)))"
  by pat_completeness auto

termination unmap_stack
  by (relation "measure (\<lambda>(_, vaddr). unat vaddr)") (auto simp: word_le_nat_alt not_le)

declare unmap_stack.simps [simp del]

section \<open>Fork\<close>

definition copy_page :: "nat \<Rightarrow> u32 \<Rightarrow> nat \<Rightarrow> u32 \<Rightarrow> unit kernel" where
  "copy_page src_proc src_vaddr dst_proc dst_vaddr =
     (if src_vaddr \<ge> SYS_VADDR \<or> dst_vaddr \<ge> SYS_VADDR then panic ''copy_page''
      else
        bindK (pmap_extract (PProc src_proc) src_vaddr) (\<lambda>src.
        bindK (pmap_extract (PProc dst_proc) dst_vaddr) (\<lambda>dst.
        pmap_copy_page src dst)))"

text \<open>What a child inherits: process group, credentials, registers and signal handlers.\<close>

definition inherit :: "nat \<Rightarrow> proc \<Rightarrow> proc \<Rightarrow> proc" where
  "inherit c parent child = child
     \<lparr>p_parent := Some c,
      p_pgrp := (if p_pgrp parent = 0 then p_pid child else p_pgrp parent),
      p_uid := p_uid parent, p_gid := p_gid parent, p_ngroups := p_ngroups parent,
      p_groups := overwrite (p_groups child) 0 (take NGROUPS (p_groups parent)),
      p_context := (p_context parent)\<lparr>fr_eax := 0\<rparr>,
      p_sig_mask := p_sig_mask parent,
      p_sigact := (p_sigact child)\<lparr>dispatcher := dispatcher (p_sigact parent),
        handlers := overwrite (handlers (p_sigact child)) 0 (take NSIG (handlers (p_sigact parent)))\<rparr>\<rparr>"

definition inherit_file :: "nat \<Rightarrow> nat \<Rightarrow> nat \<Rightarrow> unit kernel" where
  "inherit_file c child i =
     bindK (getK (\<lambda>s. p_ofile (procs s ! c) ! i)) (\<lambda>x.
     case x of
       None \<Rightarrow> returnK ()
     | Some f \<Rightarrow>
         bindK (file_dup f) (\<lambda>g. modifyK (upd_proc child (\<lambda>q. q\<lparr>p_ofile := (p_ofile q)[i := Some g]\<rparr>))))"

definition fork :: "int kernel" where
  "fork =
     bindK proc_alloc (\<lambda>r.
     case r of
       None \<Rightarrow> returnK (- 1)
     | Some child \<Rightarrow>
         with_cur (\<lambda>c.
         thenK (modifyK (\<lambda>s. upd_proc child (inherit c (procs s ! c)) s))
         (thenK (pmap_create (PProc child))
         (bindK vmm_alloc_page (\<lambda>ustack.
          thenK (pmap_enter (PProc child) USER_USTACK ustack VM_PROT_ALL)
          (thenK (copy_page c USER_USTACK child USER_USTACK)
          (bindK (getK (\<lambda>s. p_brk (procs s ! c))) (\<lambda>brk.
           thenK (proc_break child brk)
           (bindK (getK (\<lambda>s. p_brk (procs s ! child))) (\<lambda>cbrk.
            thenK (page_loop USER_TEXT cbrk (\<lambda>page_addr. copy_page c page_addr child page_addr))
            (bindK (getK (\<lambda>s. p_cwd (procs s ! c))) (\<lambda>cwd.
             case cwd of
               None \<Rightarrow> faultK
             | Some d \<Rightarrow>
                 bindK (idup d) (\<lambda>d'.
                 thenK (modifyK (upd_proc child (\<lambda>q. q\<lparr>p_cwd := Some d'\<rparr>)))
                 (thenK (forK [0..<NFILE] (inherit_file c child))
                 (thenK (modifyK (upd_proc child (\<lambda>q. q\<lparr>p_state := STATE_RUNNING\<rparr>)))
                 (thenK (pmap_activate c)
                 (getK (\<lambda>s. p_pid (procs s ! child)))))))))))))))))))"

section \<open>Exit\<close>

definition adopt :: "nat \<Rightarrow> nat \<Rightarrow> unit kernel" where
  "adopt p i =
     bindK (getK (\<lambda>s. procs s ! i)) (\<lambda>q.
     whenK (p_parent q = Some p)
       (thenK (modifyK (upd_proc i (\<lambda>q. q\<lparr>p_parent := Some 0\<rparr>)))
       (whenK (p_state q = STATE_ZOMBIE) (wakeup (WProc 0)))))"

definition close_fd :: "nat \<Rightarrow> nat \<Rightarrow> unit kernel" where
  "close_fd p i =
     bindK (getK (\<lambda>s. p_ofile (procs s ! p) ! i)) (\<lambda>x.
     case x of None \<Rightarrow> returnK () | Some f \<Rightarrow> file_close f)"

definition proc_exit :: "nat \<Rightarrow> int \<Rightarrow> unit kernel" where
  "proc_exit p status =
     thenK (forK [0..<NPROC] (adopt p))
     (thenK (proc_break p USER_TEXT)
     (thenK (unmap_stack p USER_USTACK)
     (thenK (forK [0..<NFILE] (close_fd p))
     (bindK (getK (\<lambda>s. p_parent (procs s ! p))) (\<lambda>parent.
      case parent of
        None \<Rightarrow> faultK
      | Some pp \<Rightarrow>
          thenK (pmap_activate pp)
          (thenK (pmap_destroy (PProc p))
          (thenK (wakeup (WProc pp))
          (bindK (getK (\<lambda>s. p_cwd (procs s ! p))) (\<lambda>cwd.
           thenK (case cwd of None \<Rightarrow> panic ''iput'' | Some k \<Rightarrow> iput k)
           (modifyK (upd_proc p (\<lambda>q. q\<lparr>p_cwd := None, p_exit_status := status, p_state := STATE_ZOMBIE\<rparr>))))))))))))"

definition exit :: "int \<Rightarrow> unit kernel" where
  "exit status = with_cur (\<lambda>c. proc_exit c status)"

section \<open>Exec and the first process\<close>

definition reset_signals :: "proc \<Rightarrow> proc" where
  "reset_signals q = q\<lparr>p_sigact := (p_sigact q)\<lparr>dispatcher := 0, handlers := replicate NSIG SIG_DFL\<rparr>\<rparr>"

text \<open>The arguments and the environment are the strings behind the pointers of the caller.\<close>

definition sys_exec :: "bytes \<Rightarrow> bytes list \<Rightarrow> bytes list \<Rightarrow> int kernel" where
  "sys_exec pathname argv envp =
     bindK (nameiname pathname) (\<lambda>(error, k, command).
     if error \<noteq> 0 then returnK error
     else
       thenK (ilock k)
       (bindK (readi k [0, 0] 0) (\<lambda>(nread, magic).
        thenK (iunlock k)
        (if nread \<noteq> 2 \<or> magic ! 0 \<noteq> 0xb8 \<or> magic ! 1 \<noteq> 0x0b then thenK (iput k) (returnK (- ENOEXEC))
         else
           with_cur (\<lambda>c.
           thenK (modifyK (upd_proc c (\<lambda>q. q\<lparr>p_command := strncpy_bytes (PROC_NAME_LEN - 1) command @ [0]\<rparr>)))
           (bindK vmm_alloc_page (\<lambda>ustack.
            bindK (proc_init_ustack ustack argv envp) (\<lambda>user_esp.
            thenK (proc_break c USER_TEXT)
            (thenK (ilock k)
            (bindK (getK (\<lambda>s. i_size (inodes s ! k))) (\<lambda>size.
             thenK (proc_break c (USER_TEXT + of_int size))
             (thenK (modifyK (upd_proc c reset_signals))
             (thenK (load_program k ''exec read error!'')
             (thenK (iunlockput k)
             (thenK (modifyK (upd_proc c proc_init_kstack))
             (thenK (unmap_stack c USER_USTACK)
             (thenK (pmap_enter (PProc c) USER_USTACK ustack VM_PROT_ALL)
             (thenK (proc_init_user_context c user_esp)
             (returnK 0)))))))))))))))))))"

definition proc_create :: "bytes \<Rightarrow> unit kernel" where
  "proc_create path =
     bindK proc_alloc (\<lambda>r.
     case r of
       None \<Rightarrow> panic ''Process table full!''
     | Some p \<Rightarrow>
         thenK (pmap_create (PProc p))
         (thenK (pmap_activate p)
         (bindK vmm_alloc_page (\<lambda>ustack.
          thenK (pmap_zero_page ustack)
          (bindK (proc_init_ustack ustack [path] []) (\<lambda>user_esp.
           thenK (pmap_enter (PProc p) USER_USTACK ustack VM_PROT_ALL)
           (bindK (nameiname path) (\<lambda>(error, k, command).
            if error \<noteq> 0 then panic ''init not found!''
            else
              thenK (modifyK (upd_proc p (\<lambda>q. q\<lparr>p_command := (strncpy_bytes PROC_NAME_LEN command)[PROC_NAME_LEN - 1 := 0]\<rparr>)))
              (thenK (ilock k)
              (bindK (getK (\<lambda>s. i_size (inodes s ! k))) (\<lambda>size.
               thenK (proc_break p (USER_TEXT + of_int size))
               (thenK (load_program k ''init load error'')
               (thenK (iunlockput k)
               (thenK (proc_init_user_context p user_esp)
               (bindK (namei [47]) (\<lambda>(error, root).
                thenK (modifyK (upd_proc p (\<lambda>q. q\<lparr>p_cwd := Some root\<rparr>)))
                (if error \<noteq> 0 then panic ''init not found!''
                 else modifyK (upd_proc p (\<lambda>q. q\<lparr>p_state := STATE_RUNNING\<rparr>)))))))))))))))))))"

section \<open>Delivery of signals\<close>

definition sigexit :: "nat \<Rightarrow> int \<Rightarrow> unit kernel" where
  "sigexit p sig = proc_exit p sig"

definition catch_signal :: "int \<Rightarrow> proc \<Rightarrow> proc" where
  "catch_signal sig p =
     (let bit = mask1 (nat (sig - 1))
      in p\<lparr>p_sigact := (p_sigact p)\<lparr>sig_context := p_context p\<rparr>,
           p_context := (p_context p)\<lparr>fr_eip := dispatcher (p_sigact p), fr_ecx := of_int sig,
             fr_edx := handlers (p_sigact p) ! nat (sig - 1)\<rparr>,
           p_sig_mask := p_sig_mask p OR bit,
           p_sig_pending := p_sig_pending p AND NOT bit,
           p_state := STATE_RUNNING\<rparr>)"

definition postsig :: "nat \<Rightarrow> int \<Rightarrow> unit kernel" where
  "postsig p sig =
     bindK (getK (\<lambda>s. handlers (p_sigact (procs s ! p)) ! nat (sig - 1))) (\<lambda>h.
     if h = SIG_IGN then returnK ()
     else if h = SIG_DFL then sigexit p sig
     else modifyK (upd_proc p (catch_signal sig)))"

text \<open>The first deliverable signal from 1 to \<open>NSIG - 1\<close>.\<close>

definition first_signal :: "proc \<Rightarrow> nat option" where
  "first_signal p = first_index (\<lambda>sig. (p_sig_pending p AND NOT (p_sig_mask p)) AND mask1 (sig - 1) \<noteq> 0) [1..<NSIG]"

definition issignal :: "nat \<Rightarrow> unit kernel" where
  "issignal p =
     bindK (getK (\<lambda>s. first_signal (procs s ! p))) (\<lambda>r.
     case r of None \<Rightarrow> returnK () | Some i \<Rightarrow> postsig p (int (i + 1)))"

end
