(* ===== verification/Sysent.thy ===== *)
theory Sysent
  imports Proclife
begin

text \<open>
  The entry of system calls, \<open>sys/kern/sysent.c\<close>.  A call is its number with the register arguments;
  where a register points into the memory of the caller, the argument is what lies there.  What
  the kernel stores through such a pointer is part of the result.
\<close>

datatype (plugins only: size) syscall =
    SYS_write u32 bytes
  | SYS_read u32 bytes
  | SYS_getpid
  | SYS_fork
  | SYS_getppid
  | SYS_exit u32
  | SYS_wait bool
  | SYS_exec bytes "bytes list" "bytes list"
  | SYS_sleep u32
  | SYS_time
  | SYS_brk u32
  | SYS_open bytes u32 u32
  | SYS_close u32
  | SYS_dup u32
  | SYS_dup2 u32 u32
  | SYS_chdir "bytes option"
  | SYS_stat bytes
  | SYS_fstat u32
  | SYS_kill u32 u32
  | SYS_signal u32 u32 u32
  | SYS_sigreturn u32
  | SYS_ioctl u32 termios_op bool
  | SYS_lseek u32 u32 u32
  | SYS_unlink bytes
  | SYS_getuid
  | SYS_getgid
  | SYS_setuid u32
  | SYS_setgid u32
  | SYS_setgroups u32 "u16 list option"
  | SYS_getgroups u32
  | SYS_pipe bool
  | SYS_creat bytes u32
  | SYS_utime bytes "int option"
  | SYS_mkdir bytes u32
  | SYS_getprocs bool nat
  | SYS_unknown u32

text \<open>The data stored through the pointers of the caller.\<close>

datatype copyout =
    NoData
  | Buffer bytes
  | Number int
  | StatBuf stat
  | Termios u32
  | Groups "u16 list"
  | Descriptors int int
  | Processes "procinfo list" nat

text \<open>The value for \<open>r->eax\<close>, unless the register is left alone or the caller does not come back.\<close>

datatype sysret = Returns u32 copyout | Keeps | Gone

definition whence_of :: "u32 \<Rightarrow> whence" where
  "whence_of w = (if w = 0 then SEEK_SET else if w = 1 then SEEK_CUR else if w = 2 then SEEK_END else SEEK_OTHER)"

definition ret :: "int kernel \<Rightarrow> sysret kernel" where
  "ret m = bindK m (\<lambda>v. returnK (Returns (of_int v) NoData))"

definition ret_with :: "('a \<Rightarrow> copyout) \<Rightarrow> (int \<times> 'a option) kernel \<Rightarrow> sysret kernel" where
  "ret_with f m =
     bindK m (\<lambda>(v, x). returnK (Returns (of_int v) (case x of None \<Rightarrow> NoData | Some y \<Rightarrow> f y)))"

primrec dispatch :: "syscall \<Rightarrow> sysret kernel" where
  "dispatch (SYS_write fd buf) = ret (sys_write (sint fd) buf)"
| "dispatch (SYS_read fd buf) = bindK (sys_read (sint fd) buf) (\<lambda>(v, data). returnK (Returns (of_int v) (Buffer data)))"
| "dispatch SYS_getpid = ret getpid"
| "dispatch SYS_fork = ret fork"
| "dispatch SYS_getppid = ret getppid"
| "dispatch (SYS_exit status) = thenK (exit (sint status)) (returnK Gone)"
| "dispatch (SYS_wait status) = ret_with Number (wait status)"
| "dispatch (SYS_exec pathname argv envp) =
     bindK (sys_exec pathname argv envp) (\<lambda>v. returnK (if v = 0 then Gone else Returns (of_int v) NoData))"
| "dispatch (SYS_sleep seconds) = bindK (sys_sleep seconds) (\<lambda>v. returnK (Returns v NoData))"
| "dispatch SYS_time = ret time"
| "dispatch (SYS_brk brk) = with_cur (\<lambda>c. bindK (proc_break c brk) (\<lambda>v. returnK (Returns v NoData)))"
| "dispatch (SYS_open filename flags mode) = ret (sys_open filename flags (ucast mode))"
| "dispatch (SYS_close fd) = ret (close (sint fd))"
| "dispatch (SYS_dup fd) = ret (dup (sint fd))"
| "dispatch (SYS_dup2 fd fd2) = ret (dup2 (sint fd) (sint fd2))"
| "dispatch (SYS_chdir path) = ret (chdir path)"
| "dispatch (SYS_stat path) = ret_with StatBuf (sys_stat path)"
| "dispatch (SYS_fstat fd) = ret_with StatBuf (fstat (sint fd))"
| "dispatch (SYS_kill pid sig) = ret (kill (to_short (sint pid)) (sint sig))"
| "dispatch (SYS_signal sig handler disp) =
     bindK (kern_signal (sint sig) handler disp) (\<lambda>v. returnK (Returns v NoData))"
| "dispatch (SYS_sigreturn sig) = thenK (sigreturn (sint sig)) (returnK Keeps)"
| "dispatch (SYS_ioctl fd op ptr) = ret_with Termios (ioctl (sint fd) op ptr)"
| "dispatch (SYS_lseek fd offset wh) = ret (lseek (sint fd) (sint offset) (whence_of wh))"
| "dispatch (SYS_unlink path) = ret (sys_unlink path)"
| "dispatch SYS_getuid = bindK getuid (\<lambda>u. returnK (Returns (ucast u) NoData))"
| "dispatch SYS_getgid = bindK getgid (\<lambda>g. returnK (Returns (ucast g) NoData))"
| "dispatch (SYS_setuid uid) = ret (setuid (ucast uid))"
| "dispatch (SYS_setgid gid) = ret (setgid (ucast gid))"
| "dispatch (SYS_setgroups n gs) = ret (sys_setgroups (sint n) gs)"
| "dispatch (SYS_getgroups n) = bindK (sys_getgroups (sint n)) (\<lambda>(v, gs). returnK (Returns (of_int v) (Groups gs)))"
| "dispatch (SYS_pipe in_user) = ret_with (\<lambda>(r, w). Descriptors r w) (sys_pipe in_user)"
| "dispatch (SYS_creat filename mode) = ret (sys_creat filename (ucast mode))"
| "dispatch (SYS_utime filename tb) = ret (sys_utime filename tb)"
| "dispatch (SYS_mkdir path mode) = ret (sys_mkdir path (ucast mode))"
| "dispatch (SYS_getprocs buf len) =
     bindK (sys_getprocs buf len) (\<lambda>(v, ps, n). returnK (Returns (of_int v) (Processes ps n)))"
| "dispatch (SYS_unknown n) = panic ''Unhandled syscall!''"

definition set_eax :: "nat \<Rightarrow> u32 \<Rightarrow> unit kernel" where
  "set_eax c v = modifyK (upd_proc c (\<lambda>q. q\<lparr>p_context := (p_context q)\<lparr>fr_eax := v\<rparr>\<rparr>))"

definition leave :: "nat \<Rightarrow> unit kernel" where
  "leave c = bindK (signal_pending c) (\<lambda>b. whenK b (issignal c))"

definition sysent :: "interrupt_frame \<Rightarrow> syscall \<Rightarrow> sysret kernel" where
  "sysent r call =
     with_cur (\<lambda>c.
     thenK (modifyK (upd_proc c (\<lambda>q. q\<lparr>p_context := r\<rparr>)))
     (bindK (dispatch call) (\<lambda>v.
      case v of
        Returns eax data \<Rightarrow> thenK (set_eax c eax) (thenK (leave c) (returnK v))
      | Keeps \<Rightarrow> thenK (leave c) (returnK v)
      | Gone \<Rightarrow> returnK v)))"

end
