(* ===== verification/Kstep.thy ===== *)
theory Kstep
  imports Fdrefs Sysent
begin

text \<open>
  System calls, the scheduler and the clock as a step relation of the whole kernel, and the
  invariant of its steps: the reference count of an open file is the number of descriptors of live processes
  that refer to it and of the references that were lost, by an \<open>open\<close> that failed for want of a descriptor.
\<close>

section \<open>Memory management and open files\<close>

lemma mem_upd [simp]:
  "lives (s\<lparr>vmm_bitmap_index := i\<rparr>) = lives s" "ofiles (s\<lparr>vmm_bitmap_index := i\<rparr>) = ofiles s"
  "lives (s\<lparr>vmm_bitmap := bm\<rparr>) = lives s" "ofiles (s\<lparr>vmm_bitmap := bm\<rparr>) = ofiles s"
  "lives (s\<lparr>frames := fs\<rparr>) = lives s" "ofiles (s\<lparr>frames := fs\<rparr>) = ofiles s"
  "lives (s\<lparr>cur_pmap := pm, cr3 := a\<rparr>) = lives s" "ofiles (s\<lparr>cur_pmap := pm, cr3 := a\<rparr>) = ofiles s"
  "lives (set_word p w x s) = lives s" "ofiles (set_word p w x s) = ofiles s"
  "lives (set_pmap_dir m a s) = lives s" "ofiles (set_pmap_dir m a s) = ofiles s"
proof -
  show "lives (set_pmap_dir m a s) = lives s" "ofiles (set_pmap_dir m a s) = ofiles s"
    by (cases m; simp add: set_pmap_dir_def; simp add: lives_def ofiles_def)+
qed (simp_all add: lives_def ofiles_def set_word_def)

lemma keeps_vmm [keep]: "keeps ofiles vmm_alloc_page" "keeps ofiles (vmm_free_page a)"
  unfolding vmm_alloc_page_def vmm_free_page_def Let_def by (intro keep; simp)+

lemma keeps_mmu [keep]:
  "keeps ofiles (loadw v)" "keeps ofiles (storew v x)" "keeps ofiles (clear_page v)" "keeps ofiles (move_page v w)" "keeps ofiles (storeb v b)"
  unfolding loadw_def storew_def clear_page_def move_page_def storeb_def
  by (intro keep; auto intro!: keep split: option.split)+

lemma keeps_within [keep]: "keeps ofiles body \<Longrightarrow> keeps ofiles (within pm body)"
  unfolding within_def pmap_activate_pmap_def by (intro keep) simp_all

lemma keeps_remove_loop [keep]: "keeps ofiles (remove_loop a b)"
proof (induction a b rule: remove_loop.induct)
  case (1 a b)
  show ?case by (subst remove_loop.simps) (intro keep; use 1 in simp)
qed

lemma keeps_enter [keep]:
  "keeps ofiles (pmap_extract pm v)" "keeps ofiles (pmap_kenter v p prot)" "keeps ofiles (pmap_remove pm a b)"
  "keeps ofiles (pmap_kremove a b)" "keeps ofiles (pmap_zero_page p)" "keeps ofiles (pmap_enter pm v p prot)"
  "keeps ofiles (pmap_copy_page x y)" "keeps ofiles (pmap_create pm)" "keeps ofiles (pmap_destroy pm)" "keeps ofiles (pmap_activate i)"
proof -
  have raw: "keeps ofiles (pmap_enter_raw pm v p prot)" for pm v p prot
    unfolding pmap_enter_raw_def Let_def by (intro keep)
  have ew: "keeps ofiles (enter_with z pm v p prot)" if "\<And>a. keeps ofiles (z a)" for z pm v p prot
    unfolding enter_with_def by (intro keep that raw)
  show "keeps ofiles (pmap_extract pm v)" unfolding pmap_extract_def by (intro keep)
  show 1: "keeps ofiles (pmap_kenter v p prot)" for v p prot unfolding pmap_kenter_def by (intro ew keep)
  show 2: "keeps ofiles (pmap_remove pm a b)" for pm a b unfolding pmap_remove_def by (intro keep)
  show 3: "keeps ofiles (pmap_kremove a b)" for a b unfolding pmap_kremove_def by (rule 2)
  show 4: "keeps ofiles (pmap_zero_page p)" for p unfolding pmap_zero_page_def by (intro keep 1 3)
  show "keeps ofiles (pmap_enter pm v p prot)"
    by (cases pm) (simp_all add: pmap_enter_def 1 ew 4)
  show "keeps ofiles (pmap_copy_page x y)" unfolding pmap_copy_page_def by (intro keep 1 3)
  show "keeps ofiles (pmap_create pm)" unfolding pmap_create_def by (intro keep 1 3) simp
  show "keeps ofiles (pmap_destroy pm)" unfolding pmap_destroy_def by (intro keep) simp
  show "keeps ofiles (pmap_activate i)" unfolding pmap_activate_def pmap_activate_pmap_def by (intro keep) simp
qed

lemma keeps_page_loop: "(\<And>v. keeps ofiles (body v)) \<Longrightarrow> keeps ofiles (page_loop a b body)"
proof (induction a b body rule: page_loop.induct)
  case (1 a b body)
  show ?case by (subst page_loop.simps) (intro keep; use 1 in simp)
qed

lemma keeps_memory [keep]:
  "keeps ofiles (proc_break p brk)" "keeps ofiles (unmap_stack p v)" "keeps ofiles (copy_page p v q w)"
  "keeps ofiles (store_bytes v bs)" "keeps ofiles (load_program k msg)" "keeps ofiles (proc_init_ustack u argv envp)"
proof -
  show "keeps ofiles (proc_break p brk)"
    unfolding proc_break_def Let_def grow_page_def shrink_page_def by (intro keep keeps_page_loop) simp_all
  show "keeps ofiles (unmap_stack p v)"
  proof (induction p v rule: unmap_stack.induct)
    case (1 p v)
    show ?case by (subst unmap_stack.simps) (intro keep; use 1 in simp)
  qed
  show "keeps ofiles (copy_page p v q w)" unfolding copy_page_def by (intro keep)
  show 4: "keeps ofiles (store_bytes v bs)" for v bs unfolding store_bytes_def by (intro keep)
  show "keeps ofiles (load_program k msg)" unfolding load_program_def by (intro keep 4)
  show "keeps ofiles (proc_init_ustack u argv envp)" unfolding proc_init_ustack_def by (intro keep 4)
qed

lemma keeps_sys_exec [keep]: "keeps ofiles (sys_exec path argv envp)"
  unfolding sys_exec_def proc_init_user_context_def
  by (intro keep) (simp_all add: reset_signals_def proc_init_kstack_def)

section \<open>Calls that leave the tables alone\<close>

lemma keeps_signals [keep]:
  "keeps ofiles (kill pid sig)" "keeps ofiles (kern_signal sg h d)" "keeps ofiles (sigreturn sg)"
proof -
  have k: "keeps ofiles (killproc p sig)" for p sig unfolding killproc_def by (intro keep) simp
  have "keeps ofiles (killpgrp_loop n pg sig r)" for n pg sig r by (induction n arbitrary: r) (auto intro!: keep k)
  then show "keeps ofiles (kill pid sig)" unfolding kill_def killpgrp_def by (intro keep k)
  show "keeps ofiles (kern_signal sg h d)" "keeps ofiles (sigreturn sg)"
    unfolding kern_signal_def sigreturn_def by (intro keep; simp)+
qed

lemma keeps_wait [keep]: "keeps ofiles (wait status)"
proof -
  have reap: "lives (upd_proc i (\<lambda>p. p\<lparr>p_state := STATE_NULL\<rparr>) s) = lives s \<and> ofiles (upd_proc i (\<lambda>p. p\<lparr>p_state := STATE_NULL\<rparr>) s) = ofiles s"
    if "i < length (procs s)" "p_state (procs s ! i) = STATE_ZOMBIE" for i s
    using that by (simp add: lives_def ofiles_def upd_proc_def map_update ofile_of_def live_proc_def list_update_same_conv)
  show ?thesis
    unfolding keeps_def
  proof (intro allI impI)
    fix s t
    assume s: "cur_live s" and run: "ends_in (wait status s) t"
    then obtain c where c: "cur_proc s = Some c" by (auto simp: wait_def with_cur_def kern_simps split: option.splits)
    let ?z = "first_index (\<lambda>p. p_state p \<noteq> STATE_NULL \<and> p_parent p = Some c \<and> p_state p = STATE_ZOMBIE) (procs s)"
    show "lives t = lives s \<and> ofiles t = ofiles s"
    proof (cases ?z)
      case None
      then show ?thesis using run c keeps_sleep [of "WProc c"] s
        by (auto simp: wait_def with_cur_def kern_simps signal_pending_def keeps_def split: if_splits)
    next
      case (Some i)
      then have "t = upd_proc i (\<lambda>p. p\<lparr>p_state := STATE_NULL\<rparr>) s" using run c
        by (auto simp: wait_def with_cur_def kern_simps)
      then show ?thesis using reap first_index_SomeD(1,2) [OF Some] by simp
    qed
  qed
qed

lemma keeps_simple [keep]:
  "keeps ofiles getpid" "keeps ofiles getppid" "keeps ofiles (sys_sleep n)" "keeps ofiles time" "keeps ofiles getuid" "keeps ofiles getgid"
  "keeps ofiles (setuid u)" "keeps ofiles (setgid g)" "keeps ofiles (sys_setgroups m gs)" "keeps ofiles (sys_getgroups m)" "keeps ofiles (sys_getprocs b l)"
  unfolding getpid_def getppid_def sys_sleep_def time_def getuid_def getgid_def setuid_def setgid_def sys_setgroups_def
    sys_getgroups_def sys_getprocs_def Let_def
  by (intro keep; simp)+

section \<open>A new process\<close>

text \<open>The entry of a new process has no descriptor.\<close>

definition fresh_child :: "nat \<Rightarrow> nat \<Rightarrow> nat \<Rightarrow> kstate \<Rightarrow> bool" where
  "fresh_child c k i s \<longleftrightarrow> cur_proc s = Some c \<and> k < length (procs s) \<and> live_proc (procs s ! k)
     \<and> (\<forall>j<NFILE. i \<le> j \<longrightarrow> ofile_of (procs s ! k) ! j = None)"

lemma bal_upd_proc:
  assumes "bal d s" and "\<And>q. p < length (procs s) \<Longrightarrow> q = procs s ! p \<Longrightarrow> ofile_of (f q) = ofile_of q"
    and "cur_proc s = Some p \<Longrightarrow> live_proc (f (procs s ! p))"
  shows "bal d (upd_proc p f s)"
proof (cases "p < length (procs s)")
  case True
  have tabs: "map ofile_of (procs (upd_proc p f s)) = map ofile_of (procs s)"
    using True assms(2) by (simp add: upd_proc_def map_update list_update_same_conv)
  have "cur_live (upd_proc p f s)"
    using assms(1,3) by (auto simp: bal_def cur_live_def nth_upd_proc)
  moreover have set: "(\<forall>q\<in>set (procs (upd_proc p f s)). Q (ofile_of q)) = (\<forall>q\<in>set (procs s). Q (ofile_of q))" for Q
    using arg_cong [OF tabs, of "\<lambda>l. \<forall>x\<in>set l. Q x"] by simp
  ultimately show ?thesis
    using assms(1) unfolding bal_def tabs set [of "\<lambda>l. length l = NFILE"]
      set [of "\<lambda>l. \<forall>f. Some f \<in> set l \<longrightarrow> f < NFILE"] by simp
qed (use assms(1) in \<open>simp add: upd_proc_def list_update_beyond\<close>)

lemma hoare_proc_alloc:
  "hoare (\<lambda>s. bal d s \<and> cur_proc s = Some c) proc_alloc
     (\<lambda>r s. bal d s \<and> cur_proc s = Some c \<and> (\<forall>k. r = Some k \<longrightarrow> fresh_child c k 0 s))"
  unfolding hoare_def
proof (intro allI impI)
  fix s r t
  assume s: "bal d s \<and> cur_proc s = Some c" and run: "proc_alloc s = Ok r t"
  show "bal d t \<and> cur_proc t = Some c \<and> (\<forall>k. r = Some k \<longrightarrow> fresh_child c k 0 t)"
  proof (cases "first_index (\<lambda>p. p_state p = STATE_NULL) (procs s)")
    case None
    then show ?thesis using run s by (auto simp: proc_alloc_def kern_simps)
  next
    case (Some i)
    note i = first_index_SomeD(1,2) [OF Some]
    have other: "cur_proc s \<noteq> Some i" using bal_cur(2) [of d s i] s i by (auto simp: live_proc_def)
    define t1 where "t1 = upd_proc i (\<lambda>p. (zero_proc (p_context p))\<lparr>p_kstack := kstack_base s + of_nat (PAGE_SIZE * i)\<rparr>) s"
    have t1: "bal d t1" "cur_proc t1 = cur_proc s" "i < length (procs t1)" "nextpid t1 = nextpid s"
      "p_ofile (procs t1 ! i) = replicate NFILE None" "p_state (procs t1 ! i) = STATE_NULL"
      using s i other by (auto simp: t1_def zero_proc_def ofile_of_def live_proc_def intro!: bal_upd_proc)
    define g where "g = (\<lambda>p. proc_init_kstack (p\<lparr>p_cwd := None, p_wchan := WNull, p_state := STATE_IDLE,
      p_pid := nextpid s, p_brk := USER_TEXT, p_sigact := (p_sigact p)\<lparr>handlers := replicate NSIG SIG_DFL\<rparr>\<rparr>))"
    define t2 where "t2 = upd_proc i g t1"
    have g: "ofile_of (g (procs t1 ! i)) = replicate NFILE None" "live_proc (g (procs t1 ! i))"
      using t1(5) by (simp_all add: g_def ofile_of_def live_proc_def proc_init_kstack_def)
    have "bal d t2"
      unfolding t2_def using t1 g other by (intro bal_upd_proc) (auto simp: ofile_of_def live_proc_def)
    then have t2: "bal d (t2\<lparr>nextpid := n\<rparr>)" for n by (simp add: bal_def cur_live_def)
    have "r = None \<and> t = t1 \<or> r = Some i \<and> t = t2\<lparr>nextpid := nextpid s + 1\<rparr>"
      using run Some i t1(4) by (auto simp: proc_alloc_def kern_simps t1_def t2_def g_def split: if_splits)
    then show ?thesis using s t1 t2 g i(1) by (auto simp: fresh_child_def t2_def)
  qed
qed

lemma hoare_forK_upt:
  assumes "\<And>i. a \<le> i \<Longrightarrow> i < b \<Longrightarrow> hoare (I i) (body i) (\<lambda>_. I (Suc i))" and "a \<le> b"
  shows "hoare (I a) (forK [a..<b] body) (\<lambda>_. I b)"
  using assms
proof (induction "b - a" arbitrary: a)
  case 0
  then show ?case by (simp add: hoare_returnK)
next
  case (Suc n)
  then have "hoare (I (Suc a)) (forK [Suc a..<b] body) (\<lambda>_. I b)" by (intro Suc.hyps) auto
  then have "hoare (I a) (thenK (body a) (forK [Suc a..<b] body)) (\<lambda>_. I b)"
    using Suc.prems Suc.hyps(2) by (intro hoare_thenK [where R = "I (Suc a)"]) auto
  then show ?case using Suc.hyps(2) by (simp add: upt_conv_Cons)
qed

lemma fresh_child_keeps:
  assumes "keeps ofiles m"
  shows "hoare (\<lambda>s. bal d s \<and> fresh_child c k i s) m (\<lambda>_ s. bal d s \<and> fresh_child c k i s)"
  unfolding hoare_def
proof (intro allI impI)
  fix s x t
  assume s: "bal d s \<and> fresh_child c k i s" and run: "m s = Ok x t"
  have bal: "bal d t" using hoareD [OF hoare_keep [OF keeps_counts [OF assms]] _ run] s by blast
  have "lives t = lives s \<and> ofiles t = ofiles s" using assms s run unfolding keeps_def bal_def by simp
  then have l: "map live_proc (procs t) = map live_proc (procs s)" and o': "map ofile_of (procs t) = map ofile_of (procs s)"
    and c: "cur_proc t = cur_proc s" by (simp_all add: lives_def ofiles_def)
  have len: "length (procs t) = length (procs s)" using o' by (rule map_eq_imp_length_eq)
  have k: "live_proc (procs t ! k) = live_proc (procs s ! k)" "ofile_of (procs t ! k) = ofile_of (procs s ! k)" if "k < length (procs s)"
    using that len arg_cong [OF l, of "\<lambda>x. x ! k"] arg_cong [OF o', of "\<lambda>x. x ! k"] by simp_all
  show "bal d t \<and> fresh_child c k i t" using bal s k c len by (simp add: fresh_child_def)
qed

lemma hoare_inherit_file:
  assumes i: "i < NFILE"
  shows "hoare (\<lambda>s. bal d s \<and> fresh_child c k i s) (inherit_file c k i) (\<lambda>_ s. bal d s \<and> fresh_child c k (Suc i) s)"
  unfolding hoare_def
proof (intro allI impI)
  fix s x t
  assume s: "bal d s \<and> fresh_child c k i s" and run: "inherit_file c k i s = Ok x t"
  then have c: "cur_proc s = Some c" and k: "k < length (procs s)" "live_proc (procs s ! k)" and b: "bal d s"
    by (simp_all add: fresh_child_def)
  have ok: "ofile_of (procs s ! k) = p_ofile (procs s ! k)" using k(2) by (simp add: ofile_of_def)
  have len: "length (p_ofile (procs s ! k)) = NFILE" using b k ok nth_mem unfolding bal_def by metis
  show "bal d t \<and> fresh_child c k (Suc i) t"
  proof (cases "p_ofile (procs s ! c) ! i")
    case None
    then have "t = s" using run by (simp add: inherit_file_def kern_simps)
    then show ?thesis using s by (auto simp: fresh_child_def)
  next
    case (Some f)
    note cp = bal_cur [OF b c]
    have f: "f < NFILE" using bal_fd_valid [OF b cp(1) i] Some cp(3) by simp
    let ?u = "upd_file f (\<lambda>x. x\<lparr>f_ref_count := f_ref_count x + 1\<rparr>) s"
    have t: "t = upd_proc k (\<lambda>q. q\<lparr>p_ofile := (p_ofile q)[i := Some f]\<rparr>) ?u"
      using run Some by (simp add: inherit_file_def file_dup_def bindK_def thenK_def returnK_def getK_def modifyK_def)
    have u: "bal (d(f := d f + 1)) ?u"
      using bal_ref [OF b f, of "\<lambda>x. x\<lparr>f_ref_count := f_ref_count x + 1\<rparr>"] by simp
    have "p_ofile (procs ?u ! k) ! i = None" using s i ok by (simp add: fresh_child_def file_tab)
    from bal_set_fd [OF u _ i this, of "Some f"] have "bal d t"
      unfolding t using k f by (auto simp: file_tab elim!: bal_ext)
    moreover have "procs t = (procs s)[k := (procs s ! k)\<lparr>p_ofile := (p_ofile (procs s ! k))[i := Some f]\<rparr>]" "cur_proc t = cur_proc s"
      unfolding t by (simp_all add: upd_proc_def upd_file_def)
    ultimately show ?thesis
      using s k ok by (auto simp: fresh_child_def ofile_of_def live_proc_def)
  qed
qed

lemma hoare_keep_cur:
  "keeps counts m \<Longrightarrow> hoare (\<lambda>s. bal d s \<and> cur_proc s = Some c) m (\<lambda>_ s. bal d s \<and> cur_proc s = Some c)"
  unfolding hoare_def
proof (intro allI impI)
  fix s x t
  assume m: "keeps counts m" and s: "bal d s \<and> cur_proc s = Some c" and run: "m s = Ok x t"
  have "bal d t" using hoareD [OF hoare_keep [OF m] conjunct1 [OF s] run] .
  moreover have "counts t = counts s" using keepsD [OF m _ run] s by (simp add: bal_def)
  ultimately show "bal d t \<and> cur_proc t = Some c" using s by (simp add: counts_def)
qed

lemma hoare_case_option:
  "hoare P n Q \<Longrightarrow> (\<And>x. v = Some x \<Longrightarrow> hoare P (f x) Q) \<Longrightarrow> hoare P (case v of None \<Rightarrow> n | Some x \<Rightarrow> f x) Q"
  by (cases v) simp_all

lemma hoare_fork: "hoare (\<lambda>s. bal d s \<and> cur_proc s = Some c) fork (\<lambda>_ s. bal d s \<and> cur_proc s = Some c)"
proof -
  let ?F = "\<lambda>c k s. bal d s \<and> fresh_child c k 0 s" and ?B = "\<lambda>s. bal d s \<and> cur_proc s = Some c"
  have files: "hoare (?F c k) (forK [0..<NFILE] (inherit_file c k)) (\<lambda>_ s. bal d s \<and> fresh_child c k NFILE s)" for k
    by (rule hoare_forK_upt) (simp_all add: hoare_inherit_file)
  have run: "hoare (\<lambda>s. bal d s \<and> fresh_child c k NFILE s) (modifyK (upd_proc k (\<lambda>q. q\<lparr>p_state := STATE_RUNNING\<rparr>))) (\<lambda>_. ?B)" for k
    by (rule hoare_modifyK, rule conjI, rule bal_upd_proc) (auto simp: fresh_child_def ofile_of_def live_proc_def)
  have act: "hoare ?B (thenK (pmap_activate p) (getK g)) (\<lambda>_. ?B)" for p and g :: "kstate \<Rightarrow> int"
    by (rule hoare_thenK [OF hoare_keep_cur [OF keeps_counts [OF keeps_enter(10)]]], rule hoare_getK)
  note step = hoare_thenK [OF fresh_child_keeps] hoare_bindK [OF fresh_child_keeps]
  have child: "hoare (\<lambda>s. (bal d s \<and> cur_proc s = Some c \<and> (\<forall>j. Some k = Some j \<longrightarrow> fresh_child c j 0 s)) \<and> cur_proc s = Some p) m Q"
    if "p = c \<Longrightarrow> hoare (?F c k) m Q" for p k m and Q :: "int \<Rightarrow> kstate \<Rightarrow> bool"
    using that by (auto simp: hoare_def)
  show ?thesis
    unfolding fork_def
    apply (rule hoare_bindK [OF hoare_proc_alloc])
    subgoal for r
      apply (cases r)
       apply (simp add: hoare_returnK)
      apply (simp only: option.case)
      apply (rule hoare_with_cur, rule child, hypsubst)
      apply (rule step(1), intro keep, simp add: inherit_def)
      apply (rule step(1), intro keep, rule step(2), intro keep, rule step(1), intro keep, rule step(1), intro keep)
      apply (rule step(2), intro keep, rule step(1), intro keep, rule step(2), intro keep)
      apply (rule step(1), intro keep keeps_page_loop, rule step(2), intro keep)
      apply (rule hoare_case_option [OF hoare_stop(1)])
      apply (rule step(2), intro keep, rule step(1), intro keep, simp)
      apply (rule hoare_thenK [OF files], rule hoare_thenK [OF run], rule act)
      done
    done
qed

section \<open>The end of a process\<close>

lemma hoare_keep_descs:
  assumes "keeps ofiles m"
  shows "hoare (\<lambda>s. bal d s \<and> descs s = D) m (\<lambda>_ s. bal d s \<and> descs s = D)"
  using hoareD [OF hoare_keep [OF keeps_counts [OF assms]]] keepsD [OF keeps_descs [OF assms]]
  unfolding hoare_def by (metis bal_def)

lemma descs_cur: "descs s = (tabs, Some c) \<Longrightarrow> c < length (procs s) \<Longrightarrow> cur_proc s = Some c \<and> ofile_of (procs s ! c) = tabs ! c"
  by (auto simp: descs_def)

lemma hoare_close_fd:
  assumes i: "i < NFILE" and c: "c < length tabs" "length (tabs ! c) = NFILE"
  shows "hoare (\<lambda>s. bal (\<lambda>f. d f - int (count_list (take i (tabs ! c)) (Some f))) s \<and> descs s = (tabs, Some c))
    (close_fd c i) (\<lambda>_ s. bal (\<lambda>f. d f - int (count_list (take (Suc i) (tabs ! c)) (Some f))) s \<and> descs s = (tabs, Some c))"
  unfolding hoare_def
proof (intro allI impI)
  let ?d = "\<lambda>i f. d f - int (count_list (take i (tabs ! c)) (Some f))"
  fix s x t
  assume s: "bal (?d i) s \<and> descs s = (tabs, Some c)" and run: "close_fd c i s = Ok x t"
  have cur: "cur_proc s = Some c" using s by (simp add: descs_def)
  note cp = bal_cur [OF conjunct1 [OF s] cur]
  have tab: "p_ofile (procs s ! c) = tabs ! c" using descs_cur [OF conjunct2 [OF s] cp(1)] cp(3) by simp
  have d: "?d (Suc i) f = ?d i f - (if tabs ! c ! i = Some f then 1 else 0)" for f
    using i c(2) by (simp add: take_Suc_conv_app_nth)
  show "bal (?d (Suc i)) t \<and> descs t = (tabs, Some c)"
  proof (cases "tabs ! c ! i")
    case None
    then have "t = s" using run tab by (simp add: close_fd_def kern_simps)
    then show ?thesis using s d None by (auto elim!: bal_ext)
  next
    case (Some f)
    have f: "f < NFILE" using bal_fd_valid [OF conjunct1 [OF s] cp(1) i, of f] Some cp(3) tab by simp
    have fc: "file_close f s = Ok x t" using run tab Some by (simp add: close_fd_def kern_simps)
    have "bal ((?d i)(f := ?d i f - 1)) t" using hoareD [OF hoare_file_close [OF f]] s fc by blast
    then have "bal (?d (Suc i)) t" by (rule bal_ext) (use d Some in auto)
    moreover have "descs t = descs s" using keepsD [OF keeps_closing(2) _ fc] s by (simp add: bal_def)
    ultimately show ?thesis using s by simp
  qed
qed

lemma refs_clear:
  assumes "c < length tabs"
  shows "refs (tabs[c := replicate n None]) f + count_list (tabs ! c) (Some f) = refs tabs f"
  using assms
proof (induction tabs arbitrary: c)
  case Nil
  then show ?case by simp
next
  case (Cons l tabs)
  have z: "count_list (replicate n None) (Some f) = 0" by (induction n) auto
  show ?case using Cons z by (cases c) (auto simp: refs_def)
qed

lemma bal_zombie:
  assumes b: "bal (\<lambda>f. d f - int (count_list (ofile_of (procs s ! c)) (Some f))) s" and c: "c < length (procs s)"
    and z: "p_state (g (procs s ! c)) = STATE_ZOMBIE"
  shows "bal d ((upd_proc c g s)\<lparr>cur_proc := None\<rparr>)"
proof -
  let ?t = "(upd_proc c g s)\<lparr>cur_proc := None\<rparr>"
  have dead: "ofile_of (g (procs s ! c)) = replicate NFILE None" using z by (simp add: ofile_of_def live_proc_def)
  have tabs: "map ofile_of (procs ?t) = (map ofile_of (procs s))[c := replicate NFILE None]"
    using c dead by (simp add: upd_proc_def map_update)
  have r: "int (refs (map ofile_of (procs ?t)) f) = int (refs (map ofile_of (procs s)) f) - int (count_list (ofile_of (procs s ! c)) (Some f))" for f
    using refs_clear [of c "map ofile_of (procs s)" NFILE f] c unfolding tabs by simp
  have sub: "q \<in> set (procs ?t) \<Longrightarrow> q \<in> set (procs s) \<or> ofile_of q = replicate NFILE None" for q
    using set_update_subset_insert [of "procs s" c "g (procs s ! c)"] dead by (auto simp: upd_proc_def)
  have "length (ofile_of q) = NFILE \<and> (\<forall>f. Some f \<in> set (ofile_of q) \<longrightarrow> f < NFILE)" if "q \<in> set (procs ?t)" for q
    using sub [OF that] b by (auto simp: bal_def)
  then show ?thesis using b r by (auto simp: bal_def cur_live_def)
qed

lemma proc_exit_bal:
  assumes s: "bal d s" "cur_proc s = Some c" and run: "proc_exit c status s = Ok () t"
  shows "bal d (t\<lparr>cur_proc := None\<rparr>) \<and> p_state (procs t ! c) = STATE_ZOMBIE"
proof -
  define tabs where "tabs = map ofile_of (procs s)"
  note cp = bal_cur [OF s]
  let ?D = "(tabs, Some c)"
  let ?d = "\<lambda>i f. d f - int (count_list (take i (tabs ! c)) (Some f))"
  have tc: "c < length tabs" "length (tabs ! c) = NFILE" using cp by (simp_all add: tabs_def)
  have adopt: "keeps ofiles (adopt p i)" for p i unfolding adopt_def by (intro keep) simp
  note step = hoare_thenK [OF hoare_keep_descs] hoare_bindK [OF hoare_keep_descs]
  have close: "hoare (\<lambda>s. bal (?d 0) s \<and> descs s = ?D) (forK [0..<NFILE] (close_fd c)) (\<lambda>_ s. bal (?d NFILE) s \<and> descs s = ?D)"
    by (rule hoare_forK_upt, rule hoare_close_fd [OF _ tc], assumption, simp)
  have last: "hoare (\<lambda>s. bal (?d NFILE) s \<and> descs s = ?D)
      (modifyK (upd_proc c (\<lambda>q. q\<lparr>p_cwd := None, p_exit_status := status, p_state := STATE_ZOMBIE\<rparr>)))
      (\<lambda>_ t. bal d (t\<lparr>cur_proc := None\<rparr>) \<and> p_state (procs t ! c) = STATE_ZOMBIE)"
  proof (rule hoare_modifyK, rule conjI)
    fix s
    assume s: "bal (?d NFILE) s \<and> descs s = ?D"
    then have "cur_proc s = Some c" by (simp add: descs_def)
    note cp = bal_cur [OF conjunct1 [OF s] this]
    have "tabs ! c = ofile_of (procs s ! c)" using descs_cur [OF conjunct2 [OF s] cp(1)] by simp
    then show "bal d ((upd_proc c (\<lambda>q. q\<lparr>p_cwd := None, p_exit_status := status, p_state := STATE_ZOMBIE\<rparr>) s)\<lparr>cur_proc := None\<rparr>)"
      using s tc(2) cp(1) by (intro bal_zombie) simp_all
    show "p_state (procs (upd_proc c (\<lambda>q. q\<lparr>p_cwd := None, p_exit_status := status, p_state := STATE_ZOMBIE\<rparr>) s) ! c) = STATE_ZOMBIE"
      using cp(1) by simp
  qed
  have iput: "keeps ofiles (case cwd of None \<Rightarrow> panic ''iput'' | Some k \<Rightarrow> iput k)" for cwd by (intro keep)
  have "hoare (\<lambda>s. bal (?d 0) s \<and> descs s = ?D) (proc_exit c status)
    (\<lambda>_ t. bal d (t\<lparr>cur_proc := None\<rparr>) \<and> p_state (procs t ! c) = STATE_ZOMBIE)"
    unfolding proc_exit_def
    apply (rule step(1), intro keep adopt)
    apply (rule step(1), intro keep, rule step(1), intro keep)
    apply (rule hoare_thenK [OF close], rule step(2), intro keep)
    apply (rule hoare_case_option [OF hoare_stop(1)])
    apply (rule step(1), intro keep, rule step(1), intro keep, rule step(1), intro keep, rule step(2), intro keep)
    apply (rule step(1) [OF iput], rule last)
    done
  from hoareD [OF this _ run] show ?thesis using s by (simp add: descs_def tabs_def)
qed

section \<open>One system call\<close>

text \<open>The one call that leaves a reference without a descriptor: an open that finds no free descriptor.\<close>

definition leaks :: "syscall \<Rightarrow> sysret \<Rightarrow> bool" where
  "leaks call v \<longleftrightarrow> (case call of SYS_open _ _ _ \<Rightarrow> True | SYS_creat _ _ \<Rightarrow> True | _ \<Rightarrow> False)
     \<and> (\<exists>data. v = Returns (of_int (- EMFILE)) data)"

lemma hoare_ret: "hoare P m (\<lambda>_. Q) \<Longrightarrow> hoare P (ret m) (\<lambda>_. Q)"
  unfolding ret_def by (rule hoare_bindK, assumption, rule hoare_returnK)

lemma hoare_ret_with: "hoare P m (\<lambda>_. Q) \<Longrightarrow> hoare P (ret_with f m) (\<lambda>_. Q)"
  unfolding ret_with_def by (rule hoare_bindK, assumption, rule hoare_case_prod, rule hoare_returnK)

lemma hoare_open_ret:
  assumes "hoare P m (\<lambda>r s. Q s \<or> r = - EMFILE \<and> R s)"
  shows "hoare P (ret m) (\<lambda>v s. Q s \<or> (\<exists>data. v = Returns (of_int (- EMFILE)) data) \<and> R s)"
  unfolding ret_def by (rule hoare_bindK [OF assms], rule hoare_returnK) auto

text \<open>The calls on descriptors keep which processes are live and which one runs.\<close>

lemma keeps_unit: "keeps P m \<Longrightarrow> keeps (\<lambda>_. ()) m"
  by (simp add: keeps_def)

lemma keeps_fd_calls:
  "keeps (\<lambda>_. ()) (close fd)" "keeps (\<lambda>_. ()) (dup fd)" "keeps (\<lambda>_. ()) (dup2 fd fd2)" "keeps (\<lambda>_. ()) (sys_pipe u)"
  "keeps (\<lambda>_. ()) (sys_open name fl mode)"
proof -
  have fd: "keeps (\<lambda>_. ()) (with_fd b fd k)" if "\<And>c f. keeps (\<lambda>_. ()) (k c f)" for b fd k
    unfolding with_fd_def by (intro keep that)
  have fi: "keeps (\<lambda>_. ()) (with_finode f k)" if "\<And>i. keeps (\<lambda>_. ()) (k i)" for f and k :: "nat \<Rightarrow> 'b kernel"
    unfolding with_finode_def by (intro keep that)
  have al: "keeps (\<lambda>_. ()) (file_fd_alloc c f)" for c f unfolding file_fd_alloc_def by (intro keep) simp
  have pd: "keeps (\<lambda>_. ()) (pipe_destroy p)" for p unfolding pipe_destroy_def by (intro keep) simp
  note cl = keeps_closing [THEN keeps_unit]
  show "keeps (\<lambda>_. ()) (close fd)" unfolding close_def by (intro fd keep cl) simp
  show "keeps (\<lambda>_. ()) (dup fd)" unfolding dup_def by (intro fd keep cl al)
  show "keeps (\<lambda>_. ()) (dup2 fd fd2)" unfolding dup2_def by (intro fd keep cl) simp
  show "keeps (\<lambda>_. ()) (sys_pipe u)"
    unfolding sys_pipe_def close_opt_def clear_fd_def
    by (intro keep cl al pd; auto intro!: keep cl al pd split: option.split)
  show "keeps (\<lambda>_. ()) (sys_open name fl mode)"
    unfolding sys_open_def set_finode_def
    by (intro keep fi cl al keeps_namei(2) [THEN keeps_unit] keeps_file_creat [THEN keeps_unit] keeps_inode [THEN keeps_unit]
        keeps_itrunc [THEN keeps_unit]) simp_all
qed

lemma hoare_cur:
  assumes "hoare (bal d) m Q" and "keeps (\<lambda>_. ()) m"
  shows "hoare (\<lambda>s. bal d s \<and> cur_proc s = Some c) m (\<lambda>v s. Q v s \<and> cur_proc s = Some c)"
  unfolding hoare_def
proof (intro allI impI)
  fix s x t
  assume s: "bal d s \<and> cur_proc s = Some c" and run: "m s = Ok x t"
  have "lives t = lives s" using assms(2) s run unfolding keeps_def bal_def by simp
  then show "Q x t \<and> cur_proc t = Some c" using hoareD [OF assms(1) _ run] s by (simp add: lives_def)
qed

lemma keeps_rets: "keeps counts m \<Longrightarrow> keeps counts (ret m)" "keeps counts n \<Longrightarrow> keeps counts (ret_with f n)"
  unfolding ret_def ret_with_def by (intro keep; assumption)+

lemma keeps_rest:
  "keeps counts (dispatch (SYS_read fd buf))" "keeps counts (dispatch (SYS_write fd buf))"
  "keeps counts (dispatch (SYS_wait b))" "keeps counts (dispatch (SYS_sleep n))"
  "keeps counts (dispatch SYS_getpid)" "keeps counts (dispatch SYS_getppid)" "keeps counts (dispatch SYS_time)"
  "keeps counts (dispatch SYS_getuid)" "keeps counts (dispatch SYS_getgid)" "keeps counts (dispatch (SYS_exec path argv envp))"
  "keeps counts (dispatch (SYS_brk a))" "keeps counts (dispatch (SYS_chdir opath))" "keeps counts (dispatch (SYS_stat path))"
  "keeps counts (dispatch (SYS_fstat fd))" "keeps counts (dispatch (SYS_kill pid sig))" "keeps counts (dispatch (SYS_signal sig h d))"
  "keeps counts (dispatch (SYS_sigreturn sig))" "keeps counts (dispatch (SYS_ioctl fd op ptr))" "keeps counts (dispatch (SYS_lseek fd o' w))"
  "keeps counts (dispatch (SYS_unlink path))" "keeps counts (dispatch (SYS_setuid u))" "keeps counts (dispatch (SYS_setgid u))"
  "keeps counts (dispatch (SYS_setgroups u gs))" "keeps counts (dispatch (SYS_getgroups u))" "keeps counts (dispatch (SYS_utime path tb))"
  "keeps counts (dispatch (SYS_mkdir path mode))" "keeps counts (dispatch (SYS_getprocs b l))" "keeps counts (dispatch (SYS_unknown u))"
  unfolding dispatch.simps
  by (intro keeps_rets keep keeps_calls keeps_counts [OF keeps_wait] keeps_counts [OF keeps_sys_exec] keeps_memory(1) [THEN keeps_counts]
      keeps_simple [THEN keeps_counts] keeps_signals [THEN keeps_counts])+

text \<open>After a call every reference is accounted for as before, or one more is lost.\<close>

definition accounted :: "(nat \<Rightarrow> int) \<Rightarrow> syscall \<Rightarrow> sysret \<Rightarrow> kstate \<Rightarrow> bool" where
  "accounted d call v s \<longleftrightarrow> bal d s \<or> leaks call v \<and> (\<exists>f<NFILE. bal (d(f := d f + 1)) s)"

lemma hoare_dispatch:
  assumes "\<And>st. call \<noteq> SYS_exit st" and pos: "\<And>f. d f \<ge> 0"
  shows "hoare (\<lambda>s. bal d s \<and> cur_proc s = Some c) (dispatch call) (\<lambda>v s. accounted d call v s \<and> cur_proc s = Some c)"
proof -
  let ?B = "\<lambda>s. bal d s \<and> cur_proc s = Some c"
  have weak: "hoare ?B m (\<lambda>v s. accounted d call v s \<and> cur_proc s = Some c)" if "hoare ?B m (\<lambda>_. ?B)" for m
    using that by (rule hoare_weaken) (auto simp: accounted_def)
  have op: "hoare ?B (ret (sys_open name fl mode))
      (\<lambda>v s. ?B s \<or> (\<exists>data. v = Returns (of_int (- EMFILE)) data) \<and> (\<exists>f<NFILE. bal (d(f := d f + 1)) s) \<and> cur_proc s = Some c)" for name fl mode
    by (rule hoare_open_ret, rule hoare_weaken [OF hoare_cur [OF hoare_sys_open [OF pos] keeps_fd_calls(5)]]) auto
  show ?thesis
  proof (cases call)
    case (SYS_open name fl mode)
    show ?thesis unfolding SYS_open dispatch.simps by (rule hoare_weaken [OF op]) (auto simp: leaks_def accounted_def)
  next
    case (SYS_creat name mode)
    show ?thesis unfolding SYS_creat dispatch.simps sys_creat_def by (rule hoare_weaken [OF op]) (auto simp: leaks_def accounted_def)
  next
    case (SYS_pipe u)
    show ?thesis by (rule weak, unfold SYS_pipe dispatch.simps, rule hoare_ret_with, rule hoare_cur [OF hoare_sys_pipe [OF pos] keeps_fd_calls(4)])
  next
    case SYS_fork
    show ?thesis by (rule weak, unfold SYS_fork dispatch.simps, rule hoare_ret, rule hoare_fork)
  next
    case (SYS_close fd)
    show ?thesis by (rule weak, unfold SYS_close dispatch.simps, rule hoare_ret, rule hoare_cur [OF hoare_close keeps_fd_calls(1)])
  next
    case (SYS_dup fd)
    show ?thesis by (rule weak, unfold SYS_dup dispatch.simps, rule hoare_ret, rule hoare_cur [OF hoare_dup keeps_fd_calls(2)])
  next
    case (SYS_dup2 fd fd2)
    show ?thesis by (rule weak, unfold SYS_dup2 dispatch.simps, rule hoare_ret, rule hoare_cur [OF hoare_dup2 keeps_fd_calls(3)])
  next
    case (SYS_exit st)
    then show ?thesis using assms(1) by blast
  qed (rule weak, rule hoare_keep_cur, simp only: keeps_rest)+
qed

text \<open>Where a call leaves the processor: to its caller, or to the scheduler, for good (\<open>exit\<close>, a fatal
  signal) or until the process runs again (\<open>exec\<close>).\<close>

definition resumed :: "nat \<Rightarrow> sysret \<Rightarrow> kstate \<Rightarrow> kstate" where
  "resumed c v t = (if v = Gone \<or> \<not> live_proc (procs t ! c) then t\<lparr>cur_proc := None\<rparr> else t)"

lemma bal_idle: "bal d s \<Longrightarrow> bal d (s\<lparr>cur_proc := None\<rparr>)"
  by (simp add: bal_def cur_live_def)

lemma bal_resumed: "bal d t \<Longrightarrow> bal d (resumed c v t)"
  by (simp add: resumed_def bal_idle)

lemma leave_bal:
  assumes s: "bal d s" "cur_proc s = Some c" and run: "leave c s = Ok () t"
  shows "bal d (resumed c v t)"
proof -
  note cp = bal_cur [OF s]
  have post: "t = s \<or> proc_exit c sig s = Ok () t \<or> t = upd_proc c (catch_signal sig) s" if "postsig c sig s = Ok () t" for sig
    using that by (simp add: postsig_def sigexit_def kern_simps split: if_splits)
  have "issignal c s = Ok () t \<or> t = s" using run by (simp add: leave_def signal_pending_def kern_simps split: if_splits)
  then have "t = s \<or> (\<exists>sig. postsig c sig s = Ok () t)"
    by (cases "first_signal (procs s ! c)") (auto simp: issignal_def kern_simps)
  then consider "t = s" | sig where "proc_exit c sig s = Ok () t" | sig where "t = upd_proc c (catch_signal sig) s"
    using post by blast
  then show ?thesis
  proof cases
    case 1
    then show ?thesis using s bal_resumed by simp
  next
    case (2 sig)
    then show ?thesis using proc_exit_bal [OF s 2] by (simp add: resumed_def live_proc_def)
  next
    case (3 sig)
    then have "bal d t"
      using s cp by (auto intro!: bal_upd_proc simp: catch_signal_def Let_def ofile_of_def live_proc_def)
    then show ?thesis by (rule bal_resumed)
  qed
qed

lemma sysent_bal:
  assumes s: "bal d s" "cur_proc s = Some c" and run: "sysent r call s = Ok v t" and pos: "\<And>f. d f \<ge> 0"
  shows "accounted d call v (resumed c v t)"
proof -
  define s1 where "s1 = upd_proc c (\<lambda>q. q\<lparr>p_context := r\<rparr>) s"
  have s1: "bal d s1" "cur_proc s1 = Some c"
    using s bal_cur(2) [OF s] by (auto simp: s1_def ofile_of_def live_proc_def intro!: bal_upd_proc)
  obtain u s2 where d: "dispatch call s1 = Ok u s2"
    and rest: "(case u of Returns eax data \<Rightarrow> thenK (set_eax c eax) (thenK (leave c) (returnK u))
       | Keeps \<Rightarrow> thenK (leave c) (returnK u) | Gone \<Rightarrow> returnK u) s2 = Ok v t"
    using run s(2) by (auto simp: sysent_def with_cur_def kern_simps s1_def bindK_def split: outcome.splits)
  have v: "u = v" using rest by (auto simp: kern_simps thenK_def bindK_def split: sysret.splits outcome.splits)
  show ?thesis
  proof (cases "\<exists>st. call = SYS_exit st")
    case True
    then obtain st where st: "call = SYS_exit st" ..
    have e: "proc_exit c (sint st) s1 = Ok () s2" "u = Gone"
      using d s1(2) by (auto simp: st exit_def with_cur_def kern_simps thenK_def bindK_def split: outcome.splits)
    then show ?thesis using proc_exit_bal [OF s1 e(1)] rest v by (simp add: resumed_def kern_simps accounted_def)
  next
    case False
    then have s2: "accounted d call v s2" "cur_proc s2 = Some c"
      using hoareD [OF hoare_dispatch [of call d c] _ d] s1 v pos by auto
    have after: "bal e (resumed c v t)" if b: "bal e s2" for e
    proof -
      have lv: "bal e (resumed c v t)" if "thenK (leave c) (returnK u) s3 = Ok v t" "bal e s3" "cur_proc s3 = Some c" for s3
        using that leave_bal [of e s3 c t v] by (auto simp: thenK_def bindK_def returnK_def split: outcome.splits)
      show ?thesis
      proof (cases u)
        case (Returns eax data)
        let ?s3 = "upd_proc c (\<lambda>q. q\<lparr>p_context := (p_context q)\<lparr>fr_eax := eax\<rparr>\<rparr>) s2"
        have "bal e ?s3"
          using b s2(2) bal_cur(2) [OF b s2(2)] by (auto simp: ofile_of_def live_proc_def intro!: bal_upd_proc)
        then show ?thesis using lv [of ?s3] s2(2) rest Returns by (simp add: set_eax_def kern_simps)
      next
        case Keeps
        then show ?thesis using lv [of s2] b s2 rest by simp
      next
        case Gone
        then show ?thesis using b rest bal_resumed by (simp add: kern_simps)
      qed
    qed
    then show ?thesis using s2(1) unfolding accounted_def by blast
  qed
qed

section \<open>Steps of the kernel\<close>

definition enter_kernel :: "nat \<Rightarrow> interrupt_frame \<Rightarrow> kstate \<Rightarrow> kstate" where
  "enter_kernel c r s = upd_proc c (\<lambda>q. q\<lparr>p_context := r\<rparr>) s"

definition may_block :: "syscall \<Rightarrow> bool" where
  "may_block call = (case call of
     SYS_fork \<Rightarrow> False | SYS_exit _ \<Rightarrow> False | SYS_open _ _ _ \<Rightarrow> False | SYS_creat _ _ \<Rightarrow> False | SYS_close _ \<Rightarrow> False
   | SYS_dup _ \<Rightarrow> False | SYS_dup2 _ _ \<Rightarrow> False | SYS_pipe _ \<Rightarrow> False | _ \<Rightarrow> True)"

text \<open>
  The scheduler picks a runnable process; the running process makes a system call, which returns or
  goes to sleep; the clock ticks and preempts it.  A process that was put to sleep in a call makes some call again
  when it runs, in the program the same one.  The calls that change descriptors are steps only when they return: one that
  sleeps on a locked inode halfway holds a file that has no descriptor yet or any more.  The number of a step counts the opens that
  failed for want of a descriptor.
\<close>

inductive kstep :: "kstate \<Rightarrow> nat \<Rightarrow> kstate \<Rightarrow> bool" where
  switch: "cur_proc s = None \<Longrightarrow> p < length (procs s) \<Longrightarrow> runnable (procs s ! p) \<Longrightarrow>
    kstep s 0 (s\<lparr>cur_proc := Some p, cur_pmap := PProc p, cr3 := pg_dir_paddr (procs s ! p)\<rparr>)"
| call: "cur_proc s = Some c \<Longrightarrow> sysent r call s = Ok v t \<Longrightarrow> kstep s (if leaks call v then 1 else 0) (resumed c v t)"
| block: "cur_proc s = Some c \<Longrightarrow> may_block call \<Longrightarrow> dispatch call (enter_kernel c r s) = Sleeping w t \<Longrightarrow>
    kstep s 0 (t\<lparr>cur_proc := None\<rparr>)"
| tick: "kstep s 0 (pit_irq s)"

inductive ksteps :: "kstate \<Rightarrow> nat \<Rightarrow> kstate \<Rightarrow> bool" where
  start: "ksteps s 0 s"
| next_step: "ksteps s n t \<Longrightarrow> kstep t m u \<Longrightarrow> ksteps s (n + m) u"

lemma bal_pit_irq: "bal d s \<Longrightarrow> bal d (pit_irq s)"
proof -
  assume b: "bal d s"
  define u where "u = (pit_irq s)\<lparr>cur_proc := cur_proc s\<rparr>"
  have "lives u = lives s" "counts u = counts s"
    by (simp_all add: u_def pit_irq_def yield_def Let_def lives_def counts_def wakeup_state_def comp_def)
  then have "bal d u" using b bal_counts by blast
  then have "bal d (u\<lparr>cur_proc := None\<rparr>)" by (rule bal_idle)
  moreover have "u\<lparr>cur_proc := None\<rparr> = pit_irq s" by (simp add: u_def pit_irq_def yield_def Let_def wakeup_state_def)
  ultimately show ?thesis by simp
qed

text \<open>What is lost: for each file a number, and in all at most the number of opens that failed.\<close>

definition lost :: "(nat \<Rightarrow> int) \<Rightarrow> nat \<Rightarrow> bool" where
  "lost d n \<longleftrightarrow> (\<forall>f. d f \<ge> 0) \<and> (\<Sum>f<NFILE. d f) \<le> int n"

lemma lost_more:
  assumes "lost d n" and "f < NFILE"
  shows "lost (d(f := d f + 1)) (n + 1)"
proof -
  have "(\<Sum>g<NFILE. (d(f := d f + 1)) g) = (\<Sum>g<NFILE. d g + (if g = f then 1 else 0))" by (intro sum.cong) auto
  also have "\<dots> = (\<Sum>g<NFILE. d g) + 1" using assms(2) by (simp add: sum.distrib)
  finally show ?thesis using assms(1) by (auto simp: lost_def)
qed

lemma kstep_bal: "kstep s m t \<Longrightarrow> bal d s \<Longrightarrow> lost d n \<Longrightarrow> \<exists>d'. bal d' t \<and> lost d' (n + m)"
proof (induction rule: kstep.induct)
  case (switch s p)
  then have "live_proc (procs s ! p)" by (auto simp: runnable_def live_proc_def)
  then show ?case using switch by (auto simp: bal_def cur_live_def)
next
  case (call s c r call v t)
  have "accounted d call v (resumed c v t)" by (rule sysent_bal) (use call in \<open>auto simp: lost_def\<close>)
  then show ?case using call.prems(2) lost_more [OF call.prems(2)] by (fastforce simp: accounted_def lost_def)
next
  case (block s c call r w t)
  have b: "bal d (enter_kernel c r s)"
    using block.prems bal_cur(2) [OF block.prems(1) block.hyps(1)]
    by (auto simp: enter_kernel_def ofile_of_def live_proc_def intro!: bal_upd_proc)
  have "keeps counts (dispatch call)" using block.hyps(2) by (cases call) (simp_all only: may_block_def syscall.case keeps_rest)
  then have "lives t = lives (enter_kernel c r s) \<and> counts t = counts (enter_kernel c r s)"
    using block.hyps(3) b unfolding keeps_def bal_def by simp
  then have "bal d (t\<lparr>cur_proc := None\<rparr>)" using b bal_counts bal_idle by blast
  then show ?case using block.prems(2) by auto
next
  case (tick s)
  then show ?case using bal_pit_irq by auto
qed

text \<open>The number of descriptors as a cardinality.\<close>

lemma refs_card: "refs tabs f = card {(p, i). p < length tabs \<and> i < length (tabs ! p) \<and> tabs ! p ! i = Some f}"
proof -
  have "refs tabs f = (\<Sum>p<length tabs. card {i. i < length (tabs ! p) \<and> tabs ! p ! i = Some f})"
    by (simp add: refs_def sum_list_sum_nth count_list_eq_length_filter length_filter_conv_card atLeast0LessThan eq_commute)
  also have "\<dots> = card (SIGMA p:{..<length tabs}. {i. i < length (tabs ! p) \<and> tabs ! p ! i = Some f})"
    by (subst card_SigmaI) auto
  also have "(SIGMA p:{..<length tabs}. {i. i < length (tabs ! p) \<and> tabs ! p ! i = Some f})
      = {(p, i). p < length tabs \<and> i < length (tabs ! p) \<and> tabs ! p ! i = Some f}" by auto
  finally show ?thesis .
qed

lemma bal_exact:
  assumes "bal d t" and "f < NFILE"
  shows "f_ref_count (files t ! f)
    = int (card {(p, i). p < length (procs t) \<and> live_proc (procs t ! p) \<and> i < NFILE \<and> p_ofile (procs t ! p) ! i = Some f}) + d f"
proof -
  have len: "length (ofile_of (procs t ! p)) = NFILE" if "p < length (procs t)" for p using assms(1) that by (simp add: bal_def)
  have "{(p, i). p < length (map ofile_of (procs t)) \<and> i < length (map ofile_of (procs t) ! p) \<and> map ofile_of (procs t) ! p ! i = Some f}
    = {(p, i). p < length (procs t) \<and> live_proc (procs t ! p) \<and> i < NFILE \<and> p_ofile (procs t ! p) ! i = Some f}"
  proof (intro set_eqI, clarsimp)
    fix p i
    show "(p < length (procs t) \<and> i < length (map ofile_of (procs t) ! p) \<and> map ofile_of (procs t) ! p ! i = Some f)
      = (p < length (procs t) \<and> live_proc (procs t ! p) \<and> i < NFILE \<and> p_ofile (procs t ! p) ! i = Some f)"
      using len [of p] by (cases "p < length (procs t)") (auto simp: ofile_of_def split: if_splits)
  qed
  then show ?thesis using assms by (simp add: bal_def refs_card)
qed

text \<open>
  C2: Reference counts of open files.  From any state in which they are exact, take any sequence of
  system calls, process switches and clock ticks with preemption, over any number of processes that fork,
  exec, exit or die of signals and open, duplicate, close and inherit descriptors.  The reference
  count of every open file is then the number of descriptors of live processes that refer to it and a number of lost references; these
  are in all at most as many as there were opens that failed for want of a descriptor, which the kernel forgets to close.  So without
  such opens the counts stay exact, and in any case a newly allocated file is one that no process has open.
  Calls that sleep are part of it, except for those that change descriptors, which are taken only when they return; a wait for
  the disk is part of the step.
\<close>

theorem refcounts_exact:
  assumes "ftab_inv s" and "ksteps s n t"
  shows "(\<exists>lost. (\<forall>f. lost f \<ge> 0) \<and> (\<Sum>f<NFILE. lost f) \<le> int n
       \<and> (\<forall>f<NFILE. f_ref_count (files t ! f)
            = int (card {(p, i). p < length (procs t) \<and> live_proc (procs t ! p) \<and> i < NFILE \<and> p_ofile (procs t ! p) ! i = Some f}) + lost f))
     \<and> (\<forall>f u. file_alloc t = Ok (Some f) u \<longrightarrow>
          (\<forall>p<length (procs t). live_proc (procs t ! p) \<longrightarrow> Some f \<notin> set (p_ofile (procs t ! p))))"
proof (intro conjI allI impI)
  have "\<exists>d. bal d t \<and> lost d n"
    using assms(2,1)
  proof (induction rule: ksteps.induct)
    case (start s)
    then show ?case by (intro exI [of _ "\<lambda>_. 0"]) (simp add: ftab_inv_def lost_def)
  next
    case (next_step s n t m u)
    then obtain d where "bal d t" "lost d n" by blast
    then show ?case using kstep_bal [OF next_step.hyps(2)] by blast
  qed
  then obtain d where b: "bal d t" and l: "lost d n" by blast
  show "\<exists>lost. (\<forall>f. lost f \<ge> 0) \<and> (\<Sum>f<NFILE. lost f) \<le> int n
       \<and> (\<forall>f<NFILE. f_ref_count (files t ! f)
            = int (card {(p, i). p < length (procs t) \<and> live_proc (procs t ! p) \<and> i < NFILE \<and> p_ofile (procs t ! p) ! i = Some f}) + lost f)"
    using l bal_exact [OF b] unfolding lost_def by blast
  fix f u p
  assume al: "file_alloc t = Ok (Some f) u" and p: "p < length (procs t)" "live_proc (procs t ! p)"
  have "first_index (\<lambda>x. f_ref_count x = 0) (files t) = Some f"
    using al by (auto simp: file_alloc_def kern_simps split: option.splits)
  from first_index_SomeD(1,2) [OF this] have f: "f < NFILE" "int (refs (map ofile_of (procs t)) f) + d f = 0"
    using b by (auto simp: bal_def)
  moreover have "d f \<ge> 0" using l by (simp add: lost_def)
  ultimately have "refs (map ofile_of (procs t)) f = 0" by linarith
  then have "\<forall>q\<in>set (procs t). count_list (ofile_of q) (Some f) = 0" by (simp add: refs_def)
  then have "count_list (p_ofile (procs t ! p)) (Some f) = 0" using nth_mem [OF p(1)] p(2) by (metis ofile_of_def)
  then show "Some f \<notin> set (p_ofile (procs t ! p))" by (simp add: count_list_0_iff)
qed

text \<open>A process that makes a pipe and duplicates its read end.\<close>

definition lone_proc :: kstate where
  "lone_proc = bss_state\<lparr>cur_proc := Some 0, procs := (procs bss_state)[0 := (zero_proc zero_frame)\<lparr>p_state := STATE_RUNNING\<rparr>]\<rparr>"

lemma lone_proc_fields:
  "cur_proc lone_proc = Some 0" "files lone_proc = replicate NFILE zero_file" "pipes lone_proc = replicate NPIPES zero_pipe"
  "procs lone_proc = (zero_proc zero_frame)\<lparr>p_state := STATE_RUNNING\<rparr> # replicate 7 (zero_proc zero_frame)"
  by (simp_all add: lone_proc_def bss_state_def numeral_eq_Suc)

lemma lone_proc_inv: "ftab_inv lone_proc"
proof -
  have z: "count_list (replicate n None) (Some f) = 0" for n f by (induction n) auto
  have o': "ofile_of q = replicate NFILE None" if "q \<in> set (procs lone_proc)" for q
    using that by (auto simp: lone_proc_fields ofile_of_def zero_proc_def live_proc_def)
  then have "refs (map ofile_of (procs lone_proc)) f = 0" for f using z by (simp add: refs_def)
  then show ?thesis
    using o' by (simp add: ftab_inv_def bal_def cur_live_def lone_proc_fields live_proc_def zero_file_def)
qed

lemma bindK_thenK: "bindK (thenK m n) f s = bindK m (\<lambda>_. bindK n f) s"
  unfolding thenK_def by (rule bindK_bindK)

lemma two_of: "replicate 32 x = x # x # replicate 30 x" "replicate 8 y = y # replicate 7 y" "replicate NPIPES z = z # replicate (NPIPES - 1) z"
  by (simp_all add: numeral_eq_Suc)

lemma lone_proc_pipe:
  "\<exists>v t. sysent zero_frame (SYS_pipe True) lone_proc = Ok v t \<and> \<not> leaks (SYS_pipe True) v \<and> v \<noteq> Gone
    \<and> live_proc (procs t ! 0) \<and> f_ref_count (files t ! 0) = 1 \<and> cur_proc t = Some 0"
  unfolding sysent_def dispatch.simps ret_with_def sys_pipe_def with_cur_def file_alloc_def pipe_create_def make_end_def
    file_fd_alloc_def leave_def signal_pending_def set_eax_def
  by (simp add: kern_simps thenK_bindK bindK_thenK lone_proc_fields leaks_def upd_proc_def upd_file_def upd_pipe_def two_of
      zero_file_def zero_pipe_def zero_proc_def signal_pending_proc_def live_proc_def)

theorem refcounts_witness:
  "\<exists>t. ftab_inv lone_proc \<and> ksteps lone_proc 0 t \<and> f_ref_count (files t ! 0) = 1
    \<and> card {(p, i). p < length (procs t) \<and> live_proc (procs t ! p) \<and> i < NFILE \<and> p_ofile (procs t ! p) ! i = Some 0} = 1"
proof -
  obtain v t where t: "sysent zero_frame (SYS_pipe True) lone_proc = Ok v t" "\<not> leaks (SYS_pipe True) v"
    and v: "v \<noteq> Gone" "live_proc (procs t ! 0)" "f_ref_count (files t ! 0) = 1"
    using lone_proc_pipe by blast
  have "resumed 0 v t = t" using v by (simp add: resumed_def)
  then have "kstep lone_proc 0 t" using kstep.call [OF lone_proc_fields(1) t(1)] t(2) by simp
  then have s: "ksteps lone_proc 0 t" using ksteps.next_step [OF ksteps.start, of lone_proc 0 t] by simp
  obtain lost where l: "\<forall>f. lost f \<ge> 0" "(\<Sum>f<NFILE. lost f) \<le> int 0" "\<forall>f<NFILE. f_ref_count (files t ! f)
    = int (card {(p, i). p < length (procs t) \<and> live_proc (procs t ! p) \<and> i < NFILE \<and> p_ofile (procs t ! p) ! i = Some f}) + lost f"
    using conjunct1 [OF refcounts_exact [OF lone_proc_inv s]] by blast
  have "lost 0 \<le> (\<Sum>f<NFILE. lost f)" by (rule member_le_sum) (use l(1) in auto)
  then have "lost 0 = 0" using l(1) [rule_format, of 0] l(2) by linarith
  then have "card {(p, i). p < length (procs t) \<and> live_proc (procs t ! p) \<and> i < NFILE \<and> p_ofile (procs t ! p) ! i = Some 0} = 1"
    using l(3) [rule_format, of 0] v(3) by simp
  then show ?thesis using lone_proc_inv s v(3) by blast
qed

end
