(* ===== verification/Shexec.thy ===== *)
theory Shexec
  imports Shell Kstep
begin

text \<open>
  How the shell \<open>bin/sh.c\<close> runs a pipeline: the commands it performs itself, and \<open>exec_pipeline\<close>, which connects
  the processes of a pipeline with the kernel's \<open>pipe\<close>, \<open>dup2\<close>, \<open>open\<close> and \<open>close\<close>.  The calls are those of the kernel
  model, made by the process that is running, and the theorems follow its table of descriptors through them.
\<close>

section \<open>Commands of the shell\<close>

datatype builtin = Exit_shell | Cd "bytes option" | Clear | Assign bytes bytes | External

text \<open>\<open>internal_cmd\<close>; a null pointer as the name of the command has no value.\<close>

definition internal_cmd :: "bytes option list \<Rightarrow> builtin option" where
  "internal_cmd av =
     (case av of
        Some a # rest \<Rightarrow>
          Some (if a = [101, 120, 105, 116] then Exit_shell
                else if a = [99, 100] then Cd (case rest of x # _ \<Rightarrow> x | [] \<Rightarrow> None)
                else if a = [99, 108, 101, 97, 114] then Clear
                else if 61 \<in> set a then Assign (takeWhile (\<lambda>c. c \<noteq> 61) a) (drop 1 (dropWhile (\<lambda>c. c \<noteq> 61) a))
                else External)
      | _ \<Rightarrow> None)"

section \<open>Pipelines\<close>

text \<open>
  The array \<open>pipes\<close>.  The argument is what the array holds before: it is not initialised, and the results of
  \<open>pipe\<close> are not looked at, so that the two elements of a pipe that could not be made keep what was there.
\<close>

fun open_pipes :: "int list \<Rightarrow> int list kernel" where
  "open_pipes (x # y # junk) =
     bindK (sys_pipe True) (\<lambda>(r, fds).
     bindK (open_pipes junk) (\<lambda>ps.
     returnK (case fds of None \<Rightarrow> x # y # ps | Some (rd, wr) \<Rightarrow> rd # wr # ps)))"
| "open_pipes _ = returnK []"

definition close_pipes :: "int list \<Rightarrow> unit kernel" where
  "close_pipes ps = forK ps (\<lambda>fd. thenK (close fd) (returnK ()))"

definition redirect :: "bytes option \<Rightarrow> u32 \<Rightarrow> u16 \<Rightarrow> int \<Rightarrow> unit kernel" where
  "redirect name flags mode target =
     (case name of
        None \<Rightarrow> returnK ()
      | Some f \<Rightarrow> bindK (sys_open f flags mode) (\<lambda>fd. thenK (dup2 fd target) (thenK (close fd) (returnK ()))))"

text \<open>The child of command \<open>i\<close> of \<open>n\<close>, up to \<open>execvp\<close>; \<open>connect\<close> is its part before the redirections.\<close>

definition connect :: "nat \<Rightarrow> nat \<Rightarrow> int list \<Rightarrow> unit kernel" where
  "connect i n ps =
     thenK (if 0 < i then thenK (dup2 (ps ! ((i - 1) * 2)) 0) (returnK ()) else returnK ())
     (if Suc i < n then thenK (dup2 (ps ! (i * 2 + 1)) 1) (returnK ()) else returnK ())"

definition child_io :: "nat \<Rightarrow> nat \<Rightarrow> int list \<Rightarrow> command \<Rightarrow> unit kernel" where
  "child_io i n ps c =
     thenK (connect i n ps)
     (thenK (redirect (c_input c) O_RDONLY 0 0)
     (thenK (redirect (c_output c) (O_WRONLY OR O_CREAT OR (if append_out c then O_APPEND else O_TRUNC)) 420 1)
     (close_pipes ps)))"

text \<open>
  The parent.  What it does for a command of its own is the argument \<open>perform\<close>; \<open>junk\<close> is the stack where the
  array \<open>pipes\<close> lies; the value is the array \<open>pipes\<close>,
  which every child has a copy of.
\<close>

definition exec_pipeline :: "(builtin \<Rightarrow> unit kernel) \<Rightarrow> (nat \<Rightarrow> int) \<Rightarrow> pipeline \<Rightarrow> int list kernel" where
  "exec_pipeline perform junk pl =
     bindK (open_pipes (map junk [0..<2 * (cmds_count pl - 1)])) (\<lambda>ps.
     thenK (forK (take (cmds_count pl) (cmds pl)) (\<lambda>c.
              case internal_cmd (argv c) of
                None \<Rightarrow> faultK
              | Some External \<Rightarrow> thenK fork (returnK ())
              | Some b \<Rightarrow> perform b))
     (thenK (close_pipes ps) (returnK ps)))"

section \<open>The table of descriptors\<close>

definition has_table :: "nat \<Rightarrow> nat option list \<Rightarrow> kstate \<Rightarrow> bool" where
  "has_table c T s \<longleftrightarrow> cur_live s \<and> cur_proc s = Some c \<and> c < length (procs s) \<and> p_ofile (procs s ! c) = T \<and> length T = NFILE"

lemma has_table_descs: "has_table c T s \<longleftrightarrow> cur_live s \<and> snd (descs s) = Some c \<and> c < length (fst (descs s)) \<and> fst (descs s) ! c = T \<and> length T = NFILE"
  by (auto simp: has_table_def descs_def cur_live_def ofile_of_def)

lemma hoare_table_keep:
  assumes "keeps descs m"
  shows "hoare (has_table c T) m (\<lambda>_. has_table c T)"
  unfolding hoare_def
proof (intro allI impI)
  fix s x t
  assume s: "has_table c T s" and run: "m s = Ok x t"
  have "lives t = lives s \<and> descs t = descs s" using assms s run by (auto simp: keeps_def has_table_def)
  then show "has_table c T t" using s by (simp add: has_table_descs cur_live_lives)
qed

lemma hoare_table_set:
  assumes "i < NFILE"
  shows "hoare (has_table c T) (modifyK (upd_proc c (\<lambda>q. q\<lparr>p_ofile := (p_ofile q)[i := a]\<rparr>))) (\<lambda>_. has_table c (T[i := a]))"
  by (rule hoare_modifyK) (auto simp: has_table_def cur_live_def live_proc_def)

lemma hoare_table_with_fd:
  assumes "\<And>f. 0 \<le> fd \<Longrightarrow> nat fd < NFILE \<Longrightarrow> T ! nat fd = Some f \<Longrightarrow> hoare (has_table c T) (k c f) Q"
    and "\<And>s. has_table c T s \<Longrightarrow> \<not> (0 \<le> fd \<and> nat fd < NFILE \<and> T ! nat fd \<noteq> None) \<Longrightarrow> Q (- EBADF) s" "int NFILE - 1 \<le> bound"
  shows "hoare (has_table c T) (with_fd bound fd k) Q"
  unfolding hoare_def
proof (intro allI impI)
  fix s x t
  assume s: "has_table c T s" and run: "with_fd bound fd k s = Ok x t"
  have c: "cur_proc s = Some c" "p_ofile (procs s ! c) = T" using s by (auto simp: has_table_def)
  show "Q x t"
  proof (cases "0 \<le> fd \<and> nat fd < NFILE \<and> T ! nat fd \<noteq> None")
    case True
    then obtain f where "T ! nat fd = Some f" "\<not> bound < fd" using assms(3) by auto
    then show ?thesis
      using run c True hoareD [OF assms(1) [of f], of s x t] s by (auto simp: with_fd_def with_cur_def kern_simps)
  next
    case False
    then have "x = - EBADF \<and> t = s" using run c assms(3) by (auto simp: with_fd_def with_cur_def kern_simps split: if_splits)
    then show ?thesis using assms(2) [OF s False] by simp
  qed
qed

definition open_fd :: "int \<Rightarrow> nat option list \<Rightarrow> bool" where
  "open_fd fd T \<longleftrightarrow> 0 \<le> fd \<and> nat fd < NFILE \<and> T ! nat fd \<noteq> None"

lemma hoare_table_close:
  "hoare (has_table c T) (close fd) (\<lambda>_. has_table c (if open_fd fd T then T[nat fd := None] else T))"
  unfolding close_def
proof (rule hoare_table_with_fd)
  fix f
  assume fd: "0 \<le> fd" "nat fd < NFILE" "T ! nat fd = Some f"
  show "hoare (has_table c T) (bindK (getK (\<lambda>s. f_type (files s ! f))) (\<lambda>ty.
     thenK (if ty = FT_PIPE then pipe_close f else if ty = FT_INODE then file_close f else returnK ())
     (thenK (modifyK (upd_proc c (\<lambda>q. q\<lparr>p_ofile := (p_ofile q)[nat fd := None]\<rparr>))) (returnK 0))))
     (\<lambda>_. has_table c (if open_fd fd T then T[nat fd := None] else T))"
    by (intro hoare_bindK [where R = "\<lambda>_. has_table c T"] hoare_getK hoare_thenK [OF hoare_table_keep] hoare_thenK [OF hoare_table_set] hoare_returnK keep
        keeps_closing) (use fd in \<open>auto simp: open_fd_def\<close>)
qed (auto simp: open_fd_def)

lemma hoare_table_dup2:
  assumes "0 \<le> b" "nat b < NFILE"
  shows "hoare (has_table c T) (dup2 a b) (\<lambda>_. has_table c (if open_fd a T then T[nat b := T ! nat a] else T))"
  unfolding dup2_def
proof (rule hoare_table_with_fd)
  fix f
  assume fd: "0 \<le> a" "nat a < NFILE" "T ! nat a = Some f"
  have "hoare (has_table c T) (bindK (getK (\<lambda>s. p_ofile (procs s ! c) ! nat b)) (\<lambda>x.
     thenK (case x of None \<Rightarrow> returnK () | Some g \<Rightarrow> file_close g)
     (thenK (file_dup f) (thenK (modifyK (upd_proc c (\<lambda>q. q\<lparr>p_ofile := (p_ofile q)[nat b := Some f]\<rparr>))) (returnK b)))))
     (\<lambda>_. has_table c (if open_fd a T then T[nat b := T ! nat a] else T))"
    by (intro hoare_bindK [where R = "\<lambda>_. has_table c T"] hoare_getK hoare_thenK [OF hoare_table_keep] hoare_thenK [OF hoare_table_set] hoare_returnK keep
        keeps_closing) (use fd assms in \<open>auto simp: open_fd_def\<close>)
  then show "hoare (has_table c T) (if b < 0 \<or> b > int NFILE then returnK (- EBADF)
     else if nat b \<ge> NFILE then faultK
     else
       bindK (getK (\<lambda>s. p_ofile (procs s ! c) ! nat b)) (\<lambda>x.
       thenK (case x of None \<Rightarrow> returnK () | Some g \<Rightarrow> file_close g)
       (thenK (file_dup f)
       (thenK (modifyK (upd_proc c (\<lambda>q. q\<lparr>p_ofile := (p_ofile q)[nat b := Some f]\<rparr>)))
       (returnK b)))))
     (\<lambda>_. has_table c (if open_fd a T then T[nat b := T ! nat a] else T))"
    using assms by auto
qed (auto simp: open_fd_def)

lemma hoare_table_cur: "hoare (has_table c T) (f c) Q \<Longrightarrow> hoare (has_table c T) (with_cur f) Q"
  by (auto simp: hoare_def has_table_def with_cur_def kern_simps)

lemma hoare_table_fd_alloc:
  "hoare (has_table c T) (file_fd_alloc c f)
    (\<lambda>r s. r < 0 \<and> has_table c T s \<or> (\<exists>i. r = int i \<and> first_index (\<lambda>x. x = None) T = Some i \<and> has_table c (T[i := Some f]) s))"
  unfolding hoare_def
proof (intro allI impI)
  fix s r t
  assume s: "has_table c T s" and run: "file_fd_alloc c f s = Ok r t"
  have c: "cur_proc s = Some c" "p_ofile (procs s ! c) = T" using s by (auto simp: has_table_def)
  show "r < 0 \<and> has_table c T t \<or> (\<exists>i. r = int i \<and> first_index (\<lambda>x. x = None) T = Some i \<and> has_table c (T[i := Some f]) t)"
  proof (cases "first_index (\<lambda>x. x = None) T")
    case None
    then show ?thesis using run c s by (auto simp: file_fd_alloc_def kern_simps)
  next
    case (Some i)
    have "i < NFILE" using first_index_SomeD(1) [OF Some] s by (simp add: has_table_def)
    then show ?thesis
      using run c s Some hoareD [OF hoare_table_set [of i c T "Some f"], of s "()"] by (auto simp: file_fd_alloc_def kern_simps)
  qed
qed

text \<open>The values that a path can return.\<close>

definition yields :: "('a \<Rightarrow> bool) \<Rightarrow> 'a kernel \<Rightarrow> bool" where
  "yields P m \<longleftrightarrow> (\<forall>s x t. m s = Ok x t \<longrightarrow> P x)"

lemma yields_intros:
  "P x \<Longrightarrow> yields P (returnK x)" "yields P faultK"
  "(\<And>y. yields P (f y)) \<Longrightarrow> yields P (bindK m f)" "yields P n \<Longrightarrow> yields P (thenK m n)"
  "(b \<Longrightarrow> yields P m1) \<Longrightarrow> (\<not> b \<Longrightarrow> yields P m2) \<Longrightarrow> yields P (if b then m1 else m2)"
  by (auto simp: yields_def kern_simps thenK_def bindK_def split: outcome.splits)

lemma yields_split:
  "yields P m1 \<Longrightarrow> (\<And>y. yields P (g y)) \<Longrightarrow> yields P (case z of None \<Rightarrow> m1 | Some y \<Rightarrow> g y)"
  "(\<And>u v. yields P (h u v)) \<Longrightarrow> yields P (case uv of (u, v) \<Rightarrow> h u v)"
  by (auto split: option.splits prod.splits)

lemma walk_error: "yields (\<lambda>(e, k, n). e \<le> 0) (walk named parent p k name)"
proof (induction "length p" arbitrary: p k name rule: less_induct)
  case less
  have IH: "yields (\<lambda>(e, k, n). e \<le> 0) (walk named parent (skip_slashes (after_component p)) k name)" if "p \<noteq> []" for k name
    using less [OF walk_rest_shorter [OF that]] .
  show ?case
    by (subst walk.simps, unfold Let_def, intro yields_intros yields_split IH) simp_all
qed

lemma namei_error: "yields (\<lambda>(e, k). e \<le> 0) (namei p)"
proof -
  have "yields (\<lambda>(e, k, n). e \<le> 0) (nameicore p False False)"
    unfolding nameicore_def with_cur_def by (intro yields_intros yields_split walk_error)
  then show ?thesis
    unfolding namei_def yields_def by (auto simp: bindK_def returnK_def split: outcome.splits prod.splits)
qed

lemma keeps_open: "keeps descs (set_finode f k)" "keeps descs (namei p)" "keeps descs (access x m)" "keeps descs (file_creat p md)"
  "keeps descs (ilock i)" "keeps descs (itrunc i)" "keeps descs (iunlock i)"
  unfolding set_finode_def
  by (intro keeps_descs [OF keeps_namei(2)] keeps_descs [OF keeps_inode(5)] keeps_descs [OF keeps_inode(2)] keeps_descs [OF keeps_file_creat]
      keeps_descs [OF keeps_itrunc] keeps_descs [OF keeps_inode(1)] keeps_modifyK; simp)+

lemma hoare_keep_yields:
  assumes "keeps descs m" "yields P m" "\<And>x. P x \<Longrightarrow> hoare (has_table c T) (f x) Q"
  shows "hoare (has_table c T) (bindK m f) Q"
  using hoare_table_keep [OF assms(1), of c T] assms(2,3)
  by (fastforce simp: hoare_def yields_def bindK_def split: outcome.splits)

text \<open>The entry of the table of files that is taken by the next \<open>open\<close>.\<close>

definition next_file :: "kstate \<Rightarrow> nat option" where
  "next_file s = first_index (\<lambda>x. f_ref_count x = 0) (files s)"

lemma hoare_table_file_alloc:
  "hoare (\<lambda>s. has_table c T s \<and> s = u) file_alloc (\<lambda>r s. has_table c T s \<and> r = next_file u)"
proof -
  have "hoare (has_table c T) file_alloc (\<lambda>_. has_table c T)" by (rule hoare_table_keep [OF keeps_closing(4)])
  moreover have "r = next_file s" if "file_alloc s = Ok r t" for s r t
    using that by (auto simp: file_alloc_def next_file_def kern_simps split: option.splits)
  ultimately show ?thesis unfolding hoare_def by blast
qed

lemma hoare_table_open:
  "hoare (\<lambda>s. has_table c T s \<and> s = u) (sys_open name flags mode)
    (\<lambda>r s. r < 0 \<and> has_table c T s
       \<or> (\<exists>i f. r = int i \<and> first_index (\<lambda>x. x = None) T = Some i \<and> next_file u = Some f \<and> has_table c (T[i := Some f]) s))"
    (is "hoare ?P0 _ ?Q")
proof -
  let ?P = "has_table c T"
  have keep_then: "hoare ?P (thenK m n) ?Q" if "keeps descs m" "hoare ?P n ?Q" for m :: "'x kernel" and n
    by (rule hoare_thenK [OF hoare_table_keep [OF that(1)] that(2)])
  have keep_bind: "hoare ?P (bindK m f) ?Q" if "keeps descs m" "\<And>x. hoare ?P (f x) ?Q" for m :: "'x kernel" and f
    by (rule hoare_bindK [OF hoare_table_keep [OF that(1)] that(2)])
  have fail: "hoare ?P (returnK e) ?Q" if "e < 0" for e using that by (intro hoare_returnK) simp
  have give: "hoare ?P (with_cur (\<lambda>c. file_fd_alloc c f)) ?Q" if "next_file u = Some f" for f
    by (rule hoare_table_cur, rule hoare_weaken [OF hoare_table_fd_alloc]) (use that in auto)
  have upd: "keeps descs (modifyK (upd_file f g))" for f g by (intro keep) simp
  have finode: "hoare ?P (with_finode f k) ?Q" if "\<And>i. hoare ?P (k i) ?Q" for f k
    unfolding with_finode_def
    by (rule keep_bind, intro keep) (use that in \<open>auto simp: hoare_stop split: option.split\<close>)
  have create: "keeps descs (if e \<noteq> 0 then bindK (file_creat name m) (\<lambda>(_, made). case made of None \<Rightarrow> returnK () | Some k' \<Rightarrow> set_finode f k') else returnK ())"
    for e :: int and m f by (intro keep keeps_open)
  have prepare: "keeps descs (if flags AND O_TRUNC \<noteq> 0 then thenK (ilock k) (thenK (itrunc k) (iunlock k))
      else if flags AND O_APPEND \<noteq> 0 then
        bindK (getK (\<lambda>s. i_size (inodes s ! k))) (\<lambda>sz. modifyK (upd_file f (\<lambda>x. x\<lparr>f_offset := sz\<rparr>))) else returnK ())" for k f
    by (intro keep keeps_open upd) simp
  have finish: "hoare ?P (thenK (set_finode f k) (if e \<noteq> 0 \<and> b then thenK (file_close f) (returnK e)
      else thenK (if e \<noteq> 0 then bindK (file_creat name m) (\<lambda>(_, made). case made of None \<Rightarrow> returnK () | Some k' \<Rightarrow> set_finode f k') else returnK ())
        (with_finode f (\<lambda>k. bindK (access (Some k) (request_mode flags)) (\<lambda>denied.
           if denied \<noteq> 0 then thenK (file_close f) (returnK (- EACCES))
           else thenK (if flags AND O_TRUNC \<noteq> 0 then thenK (ilock k) (thenK (itrunc k) (iunlock k))
                  else if flags AND O_APPEND \<noteq> 0 then
                    bindK (getK (\<lambda>s. i_size (inodes s ! k))) (\<lambda>sz. modifyK (upd_file f (\<lambda>x. x\<lparr>f_offset := sz\<rparr>)))
                  else returnK ())
               (with_cur (\<lambda>c. file_fd_alloc c f))))))) ?Q" if "next_file u = Some f" "e \<le> 0" for e f k b m
    by (intro keep_then keeps_open hoare_if keeps_closing fail create finode keep_bind prepare give) (use that in auto)
  have pair: "hoare ?P (case x of (e, k) \<Rightarrow> g e k) ?Q" if "case x of (e, k) \<Rightarrow> e \<le> 0" "\<And>e k. e \<le> 0 \<Longrightarrow> hoare ?P (g e k) ?Q" for x :: "int \<times> nat" and g
    using that by (cases x) simp
  have opt: "hoare (\<lambda>s. ?P s \<and> z = next_file u) (case z of None \<Rightarrow> m1 | Some y \<Rightarrow> g y) ?Q"
    if "hoare ?P m1 ?Q" "\<And>y. next_file u = Some y \<Longrightarrow> hoare ?P (g y) ?Q" for z :: "nat option" and m1 g
    by (rule hoare_pure) (use that in \<open>auto split: option.split\<close>)
  show ?thesis
    unfolding sys_open_def
    by (rule hoare_if, rule hoare_weaken [OF fail], simp, erule conjunct1, assumption, rule hoare_bindK [OF hoare_table_file_alloc], rule opt, rule fail, simp,
        rule keep_then [OF upd], rule hoare_keep_yields [OF keeps_open(2) namei_error], rule pair, assumption, rule finish)
qed

lemma hoare_ex: "(\<And>y. hoare (P y) m Q) \<Longrightarrow> hoare (\<lambda>s. \<exists>y. P y s) m Q"
  by (auto simp: hoare_def)

lemma hoare_disj: "hoare P m Q \<Longrightarrow> hoare R m Q \<Longrightarrow> hoare (\<lambda>s. P s \<or> R s) m Q"
  by (auto simp: hoare_def)

lemma hoare_fact: "(b \<Longrightarrow> hoare P m Q) \<Longrightarrow> hoare (\<lambda>s. b \<and> P s) m Q"
  by (auto simp: hoare_def)

lemma free_entry: "first_index (\<lambda>x. x = None) T = Some i \<Longrightarrow> i < length T \<and> T ! i = None"
  using first_index_SomeD [of "\<lambda>x. x = None" T i] by simp

lemma hoare_table_clear:
  "hoare (has_table c T) (clear_fd c fd) (\<lambda>_. has_table c (if 0 \<le> fd then T[nat fd := None] else T))"
  unfolding clear_fd_def whenK_def
  by (cases "0 \<le> fd") (auto intro!: hoare_modifyK hoare_returnK simp: has_table_def cur_live_def live_proc_def)

definition piped :: "nat \<Rightarrow> nat option list \<Rightarrow> (int \<times> int) option \<Rightarrow> kstate \<Rightarrow> bool" where
  "piped c T fds s \<longleftrightarrow>
     fds = None \<and> has_table c T s
     \<or> (\<exists>i j f g. fds = Some (int i, int j) \<and> i \<noteq> j \<and> i < NFILE \<and> j < NFILE \<and> T ! i = None \<and> T ! j = None
          \<and> has_table c (T[i := Some f, j := Some g]) s)"

lemma hoare_table_undo:
  assumes "hoare (has_table c T) m Q" "(if 0 \<le> rfd then T'[nat rfd := None] else T') = T1" "(if 0 \<le> wfd then T1[nat wfd := None] else T1) = T"
  shows "hoare (has_table c T') (thenK (clear_fd c rfd) (thenK (clear_fd c wfd) m)) Q"
  using hoare_table_clear [of c T' rfd, unfolded assms(2)] hoare_table_clear [of c T1 wfd, unfolded assms(3)] assms(1)
  by (intro hoare_thenK)

lemma has_tableD: "has_table c T s \<Longrightarrow> length T = NFILE"
  by (simp add: has_table_def)

lemma update_free: "T ! i = None \<Longrightarrow> T[i := None] = T"
  using list_update_id [of T i] by simp

lemma hoare_table_two:
  assumes "hoare (has_table c T) m (\<lambda>rf. piped c T (snd rf))"
  shows "hoare (has_table c T) (bindK (file_fd_alloc c rd) (\<lambda>rfd. bindK (file_fd_alloc c wr) (\<lambda>wfd.
      if rfd < 0 \<or> wfd < 0 then thenK (clear_fd c rfd) (thenK (clear_fd c wfd) m)
      else returnK (0, Some (rfd, wfd))))) (\<lambda>rf. piped c T (snd rf))"
proof (rule hoare_bindK [OF hoare_table_fd_alloc], intro hoare_disj hoare_ex hoare_fact)
  fix rfd :: int
  assume r: "rfd < 0"
  show "hoare (has_table c T) (bindK (file_fd_alloc c wr) (\<lambda>wfd.
      if rfd < 0 \<or> wfd < 0 then thenK (clear_fd c rfd) (thenK (clear_fd c wfd) m)
      else returnK (0, Some (rfd, wfd)))) (\<lambda>rf. piped c T (snd rf))"
  proof (rule hoare_bindK [OF hoare_table_fd_alloc], intro hoare_disj hoare_ex hoare_fact)
    fix wfd j
    assume w: "wfd = int j" and j: "first_index (\<lambda>x. x = None) T = Some j"
    show "hoare (has_table c (T[j := Some wr])) (if rfd < 0 \<or> wfd < 0 then thenK (clear_fd c rfd) (thenK (clear_fd c wfd) m)
        else returnK (0, Some (rfd, wfd))) (\<lambda>rf. piped c T (snd rf))"
      using hoare_table_undo [OF assms, of rfd "T[j := Some wr]" "T[j := Some wr]" wfd] r w free_entry [OF j] by (simp add: update_free)
  qed (use r hoare_table_undo [OF assms] in simp)
next
  fix rfd i
  assume r: "rfd = int i" and i: "first_index (\<lambda>x. x = None) T = Some i"
  have T': "(if 0 \<le> rfd then T[i := Some rd, nat rfd := None] else T[i := Some rd]) = T" using r free_entry [OF i] by (simp add: update_free)
  show "hoare (has_table c (T[i := Some rd])) (bindK (file_fd_alloc c wr) (\<lambda>wfd.
      if rfd < 0 \<or> wfd < 0 then thenK (clear_fd c rfd) (thenK (clear_fd c wfd) m)
      else returnK (0, Some (rfd, wfd)))) (\<lambda>rf. piped c T (snd rf))"
  proof (rule hoare_bindK [OF hoare_table_fd_alloc], intro hoare_disj hoare_ex hoare_fact)
    fix wfd :: int
    assume "wfd < 0"
    then show "hoare (has_table c (T[i := Some rd])) (if rfd < 0 \<or> wfd < 0 then thenK (clear_fd c rfd) (thenK (clear_fd c wfd) m)
        else returnK (0, Some (rfd, wfd))) (\<lambda>rf. piped c T (snd rf))"
      using hoare_table_undo [OF assms T', of wfd] by simp
  next
    fix wfd j
    assume w: "wfd = int j" and j: "first_index (\<lambda>x. x = None) (T[i := Some rd]) = Some j"
    have "i \<noteq> j" using free_entry [OF j] free_entry [OF i] by auto
    then have "T ! i = None \<and> T ! j = None \<and> i \<noteq> j" using free_entry [OF j] free_entry [OF i] by auto
    moreover have "length T = NFILE \<Longrightarrow> i < NFILE \<and> j < NFILE" using free_entry [OF j] free_entry [OF i] by simp
    ultimately show "hoare (has_table c (T[i := Some rd, j := Some wr])) (if rfd < 0 \<or> wfd < 0 then thenK (clear_fd c rfd) (thenK (clear_fd c wfd) m)
        else returnK (0, Some (rfd, wfd))) (\<lambda>rf. piped c T (snd rf))"
      using r w by (intro hoare_if hoare_returnK) (auto simp: piped_def dest: has_tableD)
  qed
qed

lemma hoare_table_pipe: "hoare (has_table c T) (sys_pipe True) (\<lambda>rf. piped c T (snd rf))"
    (is "hoare ?P _ ?Q")
proof -
  have keep_then: "hoare ?P (thenK m n) ?Q" if "keeps descs m" "hoare ?P n ?Q" for m :: "'x kernel" and n
    by (rule hoare_thenK [OF hoare_table_keep [OF that(1)] that(2)])
  have keep_bind: "hoare ?P (bindK m f) ?Q" if "keeps descs m" "\<And>x. hoare ?P (f x) ?Q" for m :: "'x kernel" and f
    by (rule hoare_bindK [OF hoare_table_keep [OF that(1)] that(2)])
  have fail: "hoare ?P (returnK (e, None)) ?Q" for e by (intro hoare_returnK) (simp add: piped_def)
  have upd: "keeps descs (modifyK (upd_file f g))" "keeps descs (modifyK (upd_pipe p h))" for f g p h by (intro keep; simp)+
  have destroy: "keeps descs (pipe_destroy p)" for p unfolding pipe_destroy_def by (intro keep) simp
  have close: "keeps descs (close_opt x)" for x unfolding close_opt_def by (intro keep keeps_closing)
  have opt: "hoare ?P (case z of None \<Rightarrow> m1 | Some y \<Rightarrow> g y) ?Q" if "hoare ?P m1 ?Q" "\<And>y. hoare ?P (g y) ?Q" for z :: "nat option" and m1 g
    using that by (cases z) simp_all
  have two: "hoare ?P (case (r, w) of (Some rd, Some wr) \<Rightarrow> g rd wr | _ \<Rightarrow> m1) ?Q" if "hoare ?P m1 ?Q" "\<And>x y. hoare ?P (g x y) ?Q"
    for r w :: "nat option" and m1 g
    using that by (cases r; cases w) simp_all
  show ?thesis
    unfolding sys_pipe_def
    by (simp only: not_True_eq_False if_False)
      (intro keep_bind two keep_then opt hoare_table_cur hoare_table_two fail upd destroy close keeps_closing)
qed

lemma hoare_table_length: "(length T = NFILE \<Longrightarrow> hoare (has_table c T) m Q) \<Longrightarrow> hoare (has_table c T) m Q"
  by (auto simp: hoare_def has_table_def)

text \<open>
  The open file \<open>new\<close> behind a descriptor after a redirection of it in the state \<open>u\<close>, where it was \<open>old\<close>: the one
  that \<open>open\<close> gave, an entry of the table of files that was not in use, unless \<open>open\<close> failed.
\<close>

definition redirected :: "bytes option \<Rightarrow> u32 \<Rightarrow> u16 \<Rightarrow> nat \<Rightarrow> kstate \<Rightarrow> nat option \<Rightarrow> nat option \<Rightarrow> bool" where
  "redirected name flags mode c u old new \<longleftrightarrow>
     (case name of
        None \<Rightarrow> new = old
      | Some f \<Rightarrow>
          (\<exists>r u'. sys_open f flags mode u = Ok r u'
             \<and> (if r < 0 then new = old
                else new = p_ofile (procs u' ! c) ! nat r \<and> new \<noteq> None \<and> new = next_file u)))"

lemma hoare_table_redirect:
  assumes t: "0 \<le> t" "nat t < NFILE" "T ! nat t \<noteq> None"
  shows "hoare (\<lambda>s. has_table c T s \<and> s = u) (redirect name flags mode t)
    (\<lambda>_ s. \<exists>x. redirected name flags mode c u (T ! nat t) x \<and> has_table c (T[nat t := x]) s)"
proof (cases name)
  case None
  then show ?thesis by (auto simp: redirect_def redirected_def hoare_def kern_simps)
next
  case (Some p)
  have dup: "hoare (has_table c T') (thenK (dup2 fd t) (thenK (close fd) (returnK ()))) (\<lambda>_. has_table c T3)"
    if "(if open_fd fd T' then T'[nat t := T' ! nat fd] else T') = T2" "(if open_fd fd T2 then T2[nat fd := None] else T2) = T3" for T' fd T2 T3
    using hoare_table_dup2 [OF t(1,2), of c T' fd, unfolded that(1)] hoare_table_close [of c T2 fd, unfolded that(2)]
    by (intro hoare_thenK [where R = "has_table c T2"] hoare_thenK [where R = "has_table c T3"] hoare_returnK) auto
  show ?thesis
    unfolding hoare_def
  proof (intro allI impI)
    fix s x v
    assume s: "has_table c T s \<and> s = u" and run: "redirect name flags mode t s = Ok x v"
    then have len: "length T = NFILE" by (auto dest: has_tableD)
    obtain r u' where op: "sys_open p flags mode u = Ok r u'" and rest: "thenK (dup2 r t) (thenK (close r) (returnK ())) u' = Ok x v"
      using run s by (auto simp: redirect_def Some bindK_def split: outcome.splits)
    consider "r < 0" "has_table c T u'"
      | i f where "r = int i" "first_index (\<lambda>x. x = None) T = Some i" "next_file u = Some f" "has_table c (T[i := Some f]) u'"
      using hoareD [OF hoare_table_open s op [folded conjunct2 [OF s]]] by blast
    then show "\<exists>x. redirected name flags mode c u (T ! nat t) x \<and> has_table c (T[nat t := x]) v"
    proof cases
      case 1
      then have "has_table c T v" using hoareD [OF dup [of r T T T] _ rest] by (simp add: open_fd_def)
      then show ?thesis using 1 op by (intro exI [of _ "T ! nat t"]) (simp add: redirected_def Some)
    next
      case (2 i f)
      have ne: "i \<noteq> nat t" using free_entry [OF 2(2)] t(3) by auto
      have i': "i < NFILE" "T ! i = None" using free_entry [OF 2(2)] len by auto
      have o: "open_fd r (T[i := Some f])" "open_fd r (T[i := Some f, nat t := Some f])" using 2(1) i' len ne by (auto simp: open_fd_def)
      have "T[i := Some f, nat t := Some f, i := None] = T[i := None, nat t := Some f]"
        using ne by (metis list_update_overwrite list_update_swap)
      also have "\<dots> = T[nat t := Some f]" using i' by (simp add: update_free)
      finally have "has_table c (T[nat t := Some f]) v"
        by (intro hoareD [OF dup [of r _ "T[i := Some f, nat t := Some f]"] 2(4) rest]) (use o 2(1) i' len in simp_all)
      moreover have "p_ofile (procs u' ! c) = T[i := Some f]" using 2(4) by (simp add: has_table_def)
      ultimately show ?thesis using 2 op i' len by (intro exI [of _ "Some f"]) (simp add: redirected_def Some)
    qed
  qed
qed

text \<open>
  The descriptors \<open>ps\<close> of pipes in the table \<open>T1\<close>: they are different, none of them was open in \<open>T0\<close>, and the tables
  agree elsewhere.
\<close>

definition wired :: "nat option list \<Rightarrow> int list \<Rightarrow> nat option list \<Rightarrow> bool" where
  "wired T0 ps T1 \<longleftrightarrow> length T1 = length T0 \<and> distinct ps \<and>
     (\<forall>p\<in>set ps. 0 \<le> p \<and> nat p < length T0 \<and> T0 ! nat p = None \<and> T1 ! nat p \<noteq> None) \<and>
     (\<forall>q<length T0. int q \<notin> set ps \<longrightarrow> T1 ! q = T0 ! q)"

definition cleared :: "int list \<Rightarrow> nat option list \<Rightarrow> nat option list" where
  "cleared ps T = fold (\<lambda>p U. if 0 \<le> p then U[nat p := None] else U) ps T"

lemma length_cleared: "length (cleared ps T) = length T"
  unfolding cleared_def by (induction ps arbitrary: T) auto

lemma cleared_nth: "q < length T \<Longrightarrow> cleared ps T ! q = (if int q \<in> set ps then None else T ! q)"
  unfolding cleared_def by (induction ps arbitrary: T) (auto simp: nth_list_update)

lemma wired_cleared: "wired T0 ps T1 \<Longrightarrow> cleared ps T1 = T0"
  by (rule nth_equalityI) (auto simp: wired_def length_cleared cleared_nth)

lemma hoare_table_close_pipes: "hoare (has_table c T) (close_pipes ps) (\<lambda>_. has_table c (cleared ps T))"
proof (induction ps arbitrary: T)
  case Nil
  then show ?case by (auto simp: close_pipes_def cleared_def forK.simps intro: hoare_returnK)
next
  case (Cons p ps)
  have "hoare (has_table c T) (close p) (\<lambda>_. has_table c (if 0 \<le> p then T[nat p := None] else T))"
  proof (rule hoare_table_length, rule hoare_weaken [OF hoare_table_close])
    fix s
    assume "length T = NFILE" "has_table c (if open_fd p T then T[nat p := None] else T) s"
    moreover have "T[nat p := None] = T" if "\<not> open_fd p T" "0 \<le> p" "length T = NFILE"
      using that update_free [of T "nat p"] by (cases "nat p < NFILE") (auto simp: open_fd_def list_update_beyond)
    ultimately show "has_table c (if 0 \<le> p then T[nat p := None] else T) s"
      by (auto simp: open_fd_def split: if_splits)
  qed
  then have "hoare (has_table c T) (thenK (close p) (returnK ())) (\<lambda>_. has_table c (if 0 \<le> p then T[nat p := None] else T))"
    by (rule hoare_thenK) (auto intro: hoare_returnK)
  from hoare_thenK [OF this Cons.IH] show ?case by (simp add: close_pipes_def cleared_def)
qed

lemma wired_open:
  assumes "wired (T[i := Some f, j := Some g]) ps T1" "i \<noteq> j" "i < length T" "j < length T" "T ! i = None" "T ! j = None"
  shows "wired T (int i # int j # ps) T1"
proof -
  have ps: "int i \<notin> set ps" "int j \<notin> set ps" using assms by (auto simp: wired_def nth_list_update)
  then have "T1 ! i \<noteq> None" "T1 ! j \<noteq> None" using assms by (auto simp: wired_def nth_list_update)
  moreover have "T1 ! q = T ! q" if "q < length T" "int q \<notin> set (int i # int j # ps)" for q
    using assms(1) that by (auto simp: wired_def nth_list_update)
  moreover have "T ! nat p = None" if "p \<in> set ps" for p
  proof -
    have "0 \<le> p" using assms(1) that by (simp add: wired_def)
    then have "nat p \<noteq> i" "nat p \<noteq> j" using ps that by auto
    then show ?thesis using assms(1) that by (auto simp: wired_def nth_list_update)
  qed
  ultimately show ?thesis using assms ps by (auto simp: wired_def)
qed

text \<open>All of \<open>n\<close> calls of \<open>pipe\<close> succeed.\<close>

fun pipes_made :: "nat \<Rightarrow> kstate \<Rightarrow> bool" where
  "pipes_made 0 s = True"
| "pipes_made (Suc n) s = (case sys_pipe True s of Ok (r, Some fds) t \<Rightarrow> pipes_made n t | _ \<Rightarrow> False)"

lemma table_open_pipes:
  assumes "has_table c T s" "length junk = 2 * n" "pipes_made n s" "open_pipes junk s = Ok ps t"
  shows "length ps = 2 * n \<and> (\<exists>T1. wired T ps T1 \<and> has_table c T1 t)"
  using assms
proof (induction n arbitrary: T s junk ps)
  case 0
  have "wired T [] T" by (simp add: wired_def)
  then show ?case using 0 by (auto simp: kern_simps)
next
  case (Suc n)
  obtain x y rest where junk: "junk = x # y # rest" using Suc.prems(2) by (cases junk; cases "tl junk") auto
  obtain r rd wr u where p: "sys_pipe True s = Ok (r, Some (rd, wr)) u" and made: "pipes_made n u"
    using Suc.prems(3) by (auto split: outcome.splits option.splits prod.splits)
  obtain qs where qs: "open_pipes rest u = Ok qs t" and ps: "ps = rd # wr # qs"
    using Suc.prems(4) p by (auto simp: junk bindK_def returnK_def split: outcome.splits)
  obtain i j f g where ij: "rd = int i" "wr = int j" "i \<noteq> j" "i < NFILE" "j < NFILE" "T ! i = None" "T ! j = None"
      "has_table c (T[i := Some f, j := Some g]) u"
    using hoareD [OF hoare_table_pipe Suc.prems(1) p] by (auto simp: piped_def)
  obtain T1 where "length qs = 2 * n" "wired (T[i := Some f, j := Some g]) qs T1" "has_table c T1 t"
    using Suc.IH [OF ij(8) _ made qs] Suc.prems(2) by (auto simp: junk)
  then show ?case
    using wired_open [of T i f j g qs T1] ij has_tableD [OF Suc.prems(1)] by (auto simp: ps)
qed

text \<open>Where command \<open>i\<close> of \<open>n\<close> reads from and writes to, when it has no redirections.\<close>

definition stdin_end :: "nat option list \<Rightarrow> nat option list \<Rightarrow> int list \<Rightarrow> nat \<Rightarrow> nat option" where
  "stdin_end T0 T1 ps i = (if 0 < i then T1 ! nat (ps ! ((i - 1) * 2)) else T0 ! 0)"

definition stdout_end :: "nat option list \<Rightarrow> nat option list \<Rightarrow> int list \<Rightarrow> nat \<Rightarrow> nat \<Rightarrow> nat option" where
  "stdout_end T0 T1 ps i n = (if Suc i < n then T1 ! nat (ps ! (i * 2 + 1)) else T0 ! 1)"

lemma wired_std:
  assumes "wired T0 ps T1" "T0 ! q \<noteq> None" "q < length T0"
  shows "int q \<notin> set ps \<and> T1 ! q = T0 ! q"
proof -
  have "int q \<notin> set ps" using assms by (auto simp: wired_def)
  then show ?thesis using assms by (simp add: wired_def)
qed

lemma hoare_table_connect:
  assumes "0 \<le> t" "nat t < NFILE"
  shows "hoare (has_table c T) (if b then thenK (dup2 fd t) (returnK ()) else returnK ()) (\<lambda>_. has_table c (if b \<and> open_fd fd T then T[nat t := T ! nat fd] else T))"
  using hoare_table_dup2 [OF assms, of c T fd] by (cases b) (auto intro!: hoare_thenK hoare_returnK)

lemma hoare_table_both:
  assumes w: "wired T0 ps T1" and std: "T0 ! 0 \<noteq> None" "T0 ! 1 \<noteq> None" and i: "length ps = 2 * n" "i \<le> n" and len: "length T0 = NFILE"
  shows "hoare (has_table d T1) (connect i (Suc n) ps) (\<lambda>_. has_table d (T1[0 := stdin_end T0 T1 ps i, 1 := stdout_end T0 T1 ps i (Suc n)]))"
    and "stdin_end T0 T1 ps i \<noteq> None" "stdout_end T0 T1 ps i (Suc n) \<noteq> None"
proof -
  let ?a = "stdin_end T0 T1 ps i" and ?b = "stdout_end T0 T1 ps i (Suc n)"
  have T1: "length T1 = NFILE" "T1 ! 0 = T0 ! 0" "T1 ! 1 = T0 ! 1" "int 0 \<notin> set ps" "int 1 \<notin> set ps"
    using w len wired_std [OF w std(1)] wired_std [OF w std(2)] by (auto simp: wired_def)
  have ends: "open_fd p T1 \<and> nat p \<noteq> 0" if "p \<in> set ps" for p
    using w len that T1(4) by (auto simp: wired_def open_fd_def)
  have rd: "ps ! ((i - 1) * 2) \<in> set ps" if "0 < i" using that i by simp
  have wr: "ps ! (i * 2 + 1) \<in> set ps" if "i < n" using that i by simp
  show "?a \<noteq> None" "?b \<noteq> None"
    using std ends [OF rd] ends [OF wr] by (auto simp: stdin_end_def stdout_end_def open_fd_def)
  have one: "(if 0 < i \<and> open_fd (ps ! ((i - 1) * 2)) T1 then T1[nat 0 := T1 ! nat (ps ! ((i - 1) * 2))] else T1) = T1[0 := ?a]"
    using ends [OF rd] T1 list_update_id [of T1 0] by (auto simp: stdin_end_def)
  have two: "(if Suc i < Suc n \<and> open_fd (ps ! (i * 2 + 1)) (T1[0 := ?a]) then T1[0 := ?a, nat 1 := T1[0 := ?a] ! nat (ps ! (i * 2 + 1))] else T1[0 := ?a])
      = T1[0 := ?a, 1 := ?b]"
  proof (cases "i < n")
    case True
    then show ?thesis using ends [OF wr] T1 by (auto simp: stdout_end_def open_fd_def)
  next
    case False
    then show ?thesis using T1 list_update_id [of "T1[0 := ?a]" 1] by (auto simp: stdout_end_def)
  qed
  show "hoare (has_table d T1) (connect i (Suc n) ps) (\<lambda>_. has_table d (T1[0 := ?a, 1 := ?b]))"
    unfolding connect_def
    by (rule hoare_thenK [OF hoare_table_connect [of 0 d T1 "0 < i" "ps ! ((i - 1) * 2)", unfolded one]], simp, simp,
        rule hoare_table_connect [of 1 d "T1[0 := ?a]" "Suc i < Suc n" "ps ! (i * 2 + 1)", unfolded two]) simp_all
qed

lemma cleared_std:
  assumes "wired T0 ps T1" "T0 ! 0 \<noteq> None" "T0 ! 1 \<noteq> None" "length T0 = NFILE"
  shows "cleared ps (T1[0 := a, 1 := b]) = T0[0 := a, 1 := b]"
proof (rule nth_equalityI)
  fix q
  assume "q < length (cleared ps (T1[0 := a, 1 := b]))"
  then show "cleared ps (T1[0 := a, 1 := b]) ! q = T0[0 := a, 1 := b] ! q"
    using assms wired_std [OF assms(1,2)] wired_std [OF assms(1,3)]
    by (auto simp: length_cleared cleared_nth nth_list_update wired_def)
qed (use assms in \<open>simp add: length_cleared wired_def\<close>)

text \<open>The flags that the shell opens the output of a command with.\<close>

definition out_flags :: "command \<Rightarrow> u32" where
  "out_flags c = O_WRONLY OR O_CREAT OR (if append_out c then O_APPEND else O_TRUNC)"

lemma table_child:
  assumes w: "wired T0 ps T1" and std: "T0 ! 0 \<noteq> None" "T0 ! 1 \<noteq> None" and i: "length ps = 2 * n" "i \<le> n" and len: "length T0 = NFILE"
    and s: "has_table d T1 s" and run: "child_io i (Suc n) ps c s = Ok () t"
  shows "\<exists>u v a b. connect i (Suc n) ps s = Ok () u \<and> redirect (c_input c) O_RDONLY 0 0 u = Ok () v
    \<and> redirected (c_input c) O_RDONLY 0 d u (stdin_end T0 T1 ps i) a
    \<and> redirected (c_output c) (out_flags c) 420 d v (stdout_end T0 T1 ps i (Suc n)) b
    \<and> has_table d (T0[0 := a, 1 := b]) t"
proof -
  let ?a = "stdin_end T0 T1 ps i" and ?b = "stdout_end T0 T1 ps i (Suc n)"
  note both = hoare_table_both [OF w std i len]
  obtain u v z where u: "connect i (Suc n) ps s = Ok () u" and v: "redirect (c_input c) O_RDONLY 0 0 u = Ok () v"
    and z: "redirect (c_output c) (out_flags c) 420 1 v = Ok () z" and close: "close_pipes ps z = Ok () t"
    using run by (auto simp: child_io_def out_flags_def thenK_def bindK_def split: outcome.splits)
  have T1: "length T1 = NFILE" using w len by (simp add: wired_def)
  have tu: "has_table d (T1[0 := ?a, 1 := ?b]) u" by (rule hoareD [OF both(1) s u])
  then obtain a where a: "redirected (c_input c) O_RDONLY 0 d u ?a a" "has_table d (T1[0 := ?a, 1 := ?b, 0 := a]) v"
    using hoareD [OF hoare_table_redirect [of 0 "T1[0 := ?a, 1 := ?b]" d u] _ v] both(2) T1 by auto
  have ne: "T1[0 := ?a, 1 := ?b, 0 := a] = T1[0 := a, 1 := ?b]"
    by (metis list_update_overwrite list_update_swap zero_neq_one)
  obtain b where b: "redirected (c_output c) (out_flags c) 420 d v ?b b" "has_table d (T1[0 := a, 1 := b]) z"
    using hoareD [OF hoare_table_redirect [of 1 "T1[0 := a, 1 := ?b]" d v] _ z] a(2) [unfolded ne] both(3) T1 by auto
  show ?thesis
    using u v a(1) b(1) hoareD [OF hoare_table_close_pipes b(2) close] cleared_std [OF w std len] by auto
qed

text \<open>
  C14: A pipeline leaves no stray descriptors.  Of a shell that has its standard input and output open, and whose calls of
  \<open>pipe\<close> succeed, whatever the array \<open>pipes\<close> held before: the shell makes one pipe fewer than the pipeline has
  commands, on different descriptors that were not in use.  The process of command \<open>i\<close> then has the descriptors of the shell before it
  made the pipes, except for standard input and standard output.  These are the read end of pipe \<open>i - 1\<close> and the write
  end of pipe \<open>i\<close>, where there is such a pipe; with a redirection they are the file that \<open>open\<close> of the name, with the
  flags for reading, writing or appending, gave, in an entry of the table of files that was not in use, and the pipe or the descriptor of the shell
  only if this \<open>open\<close> failed.  In particular no process holds a second end of any pipe, which would keep its reader from seeing the end of the file.
  When the shell has closed the pipes it has the descriptors it started with.  If a call of \<open>pipe\<close> fails the shell
  goes on with two elements of the array that were never set.
\<close>

theorem pipeline_descriptors:
  assumes "has_table c T0 s" "T0 ! 0 \<noteq> None" "T0 ! 1 \<noteq> None"
    and "length junk = 2 * n" "pipes_made n s" "open_pipes junk s = Ok ps s1"
  shows "\<exists>T1. has_table c T1 s1 \<and> wired T0 ps T1 \<and> length ps = 2 * n
    \<and> (\<forall>i\<le>n. \<forall>cmd d s2 t. has_table d T1 s2 \<longrightarrow> child_io i (Suc n) ps cmd s2 = Ok () t \<longrightarrow>
        (\<exists>u v a b. connect i (Suc n) ps s2 = Ok () u \<and> redirect (c_input cmd) O_RDONLY 0 0 u = Ok () v
          \<and> redirected (c_input cmd) O_RDONLY 0 d u (stdin_end T0 T1 ps i) a
          \<and> redirected (c_output cmd) (O_WRONLY OR O_CREAT OR (if append_out cmd then O_APPEND else O_TRUNC)) 420 d v
              (stdout_end T0 T1 ps i (Suc n)) b
          \<and> has_table d (T0[0 := a, 1 := b]) t))
    \<and> (\<forall>s2 t. has_table c T1 s2 \<longrightarrow> close_pipes ps s2 = Ok () t \<longrightarrow> has_table c T0 t)"
proof -
  obtain T1 where T1: "wired T0 ps T1" "has_table c T1 s1" and ps: "length ps = 2 * n"
    using table_open_pipes [OF assms(1,4,5,6)] by auto
  note child = table_child [OF T1(1) assms(2,3) ps _ has_tableD [OF assms(1)]]
  show ?thesis
    using T1 ps child [unfolded out_flags_def] hoareD [OF hoare_table_close_pipes [of c T1 ps, unfolded wired_cleared [OF T1(1)]]]
    by (intro exI [of _ T1] conjI) blast+
qed

text \<open>A process with open descriptors 0 and 1.\<close>

definition std_state :: kstate where
  "std_state = lone_proc
     \<lparr>procs := (procs lone_proc)[0 := (procs lone_proc ! 0)\<lparr>p_ofile := [Some 0, Some 0] @ replicate 30 None\<rparr>],
      files := (files lone_proc)[0 := zero_file\<lparr>f_ref_count := 2\<rparr>]\<rparr>"

lemma std_state_table: "has_table 0 ([Some 0, Some 0] @ replicate 30 None) std_state"
  by (simp add: has_table_def cur_live_def std_state_def lone_proc_fields live_proc_def)

lemma three_of: "replicate 30 x = x # x # replicate 28 x" "replicate 31 x = x # x # replicate 29 x"
  by (simp_all add: numeral_eq_Suc)

definition returns :: "'a kernel \<Rightarrow> kstate \<Rightarrow> bool" where
  "returns m s \<longleftrightarrow> (\<exists>x t. m s = Ok x t)"

lemma thenK_thenK: "thenK (thenK m n) k s = thenK m (thenK n k) s"
  unfolding thenK_def by (rule bindK_bindK)

lemma std_state_pipe:
  "\<exists>t. open_pipes [0, 1] std_state = Ok [2, 3] t \<and> pipes_made 1 std_state \<and> returns (close_pipes [2, 3]) t
    \<and> returns (child_io 0 2 [2, 3] no_command) t \<and> returns (child_io 1 2 [2, 3] no_command) t"
  unfolding One_nat_def open_pipes.simps pipes_made.simps sys_pipe_def with_cur_def file_alloc_def pipe_create_def make_end_def file_fd_alloc_def
    returns_def close_pipes_def close_def child_io_def connect_def forK.simps with_fd_def pipe_close_def dup2_def file_close_def redirect_def
    with_pipe_def file_dup_def
  by (simp add: std_state_def kern_simps thenK_bindK bindK_thenK thenK_thenK whenK_def with_cur_def lone_proc_fields upd_proc_def upd_file_def upd_pipe_def two_of three_of
      zero_file_def zero_pipe_def zero_proc_def live_proc_def no_command_def)

theorem pipeline_witness:
  "\<exists>t T1. let T0 = [Some 0, Some 0] @ replicate 30 None in
     open_pipes [0, 1] std_state = Ok [2, 3] t \<and> wired T0 [2, 3] T1
     \<and> (\<exists>t'. close_pipes [2, 3] t = Ok () t' \<and> has_table 0 T0 t')
     \<and> (\<exists>t'. child_io 0 2 [2, 3] no_command t = Ok () t' \<and> has_table 0 (T0[0 := Some 0, 1 := T1 ! 3]) t')
     \<and> (\<exists>t'. child_io 1 2 [2, 3] no_command t = Ok () t' \<and> has_table 0 (T0[0 := T1 ! 2, 1 := Some 0]) t')"
proof -
  let ?T0 = "[Some 0, Some 0] @ replicate 30 None"
  obtain t where o': "open_pipes [0, 1] std_state = Ok [2, 3] t" and made: "pipes_made 1 std_state" and
    r: "returns (close_pipes [2, 3]) t" "returns (child_io 0 2 [2, 3] no_command) t" "returns (child_io 1 2 [2, 3] no_command) t"
    using std_state_pipe by blast
  have std: "?T0 ! 0 \<noteq> None" "?T0 ! 1 \<noteq> None" "length [0 :: int, 1] = 2 * 1" by simp_all
  obtain T1 where T1: "has_table 0 T1 t" "wired ?T0 [2, 3] T1"
    and child: "\<forall>i\<le>1. \<forall>cmd d s2 t. has_table d T1 s2 \<longrightarrow> child_io i (Suc 1) [2, 3] cmd s2 = Ok () t \<longrightarrow>
        (\<exists>u v a b. connect i (Suc 1) [2, 3] s2 = Ok () u \<and> redirect (c_input cmd) O_RDONLY 0 0 u = Ok () v
          \<and> redirected (c_input cmd) O_RDONLY 0 d u (stdin_end ?T0 T1 [2, 3] i) a
          \<and> redirected (c_output cmd) (O_WRONLY OR O_CREAT OR (if append_out cmd then O_APPEND else O_TRUNC)) 420 d v
              (stdout_end ?T0 T1 [2, 3] i (Suc 1)) b
          \<and> has_table d (?T0[0 := a, 1 := b]) t)"
    and close: "\<forall>s2 u. has_table 0 T1 s2 \<longrightarrow> close_pipes [2, 3] s2 = Ok () u \<longrightarrow> has_table 0 ?T0 u"
    using pipeline_descriptors [OF std_state_table std made o'] by blast
  have run: "\<exists>u. child_io i 2 [2, 3] no_command t = Ok () u \<and> has_table 0 (?T0[0 := stdin_end ?T0 T1 [2, 3] i, 1 := stdout_end ?T0 T1 [2, 3] i 2]) u"
    if i: "i \<le> 1" and ret: "returns (child_io i 2 [2, 3] no_command) t" for i
  proof -
    obtain u where "child_io i (Suc 1) [2, 3] no_command t = Ok () u" using ret by (auto simp: returns_def numeral_2_eq_2)
    with child i T1(1) show ?thesis by (fastforce simp: no_command_def redirected_def numeral_2_eq_2)
  qed
  have "\<exists>t'. close_pipes [2, 3] t = Ok () t' \<and> has_table 0 ?T0 t'" using close r(1) T1(1) by (auto simp: returns_def)
  then show ?thesis
    using o' T1 run [of 0] run [of 1] r(2,3)
    by (intro exI [of _ t] exI [of _ T1]) (simp add: Let_def stdin_end_def stdout_end_def)
qed

end
