(* ===== verification/Vi.thy ===== *)
theory Vi
  imports Stdio
begin

text \<open>
  The screen editor \<open>usr.bin/vi\<close>: its buffer of lines, the cursor, and the three modes that take keys.  The rows of the
  buffer are arrays of their own, and a read or a store outside a row, or outside the buffer, has no value.  Arithmetic
  on \<open>int\<close> wraps around.  What is drawn on the screen, with the message line, is not part of the model.
\<close>

section \<open>State\<close>

abbreviation (input) VI_ROWS :: int where "VI_ROWS \<equiv> 25"
abbreviation (input) MAX_ROWS :: nat where "MAX_ROWS \<equiv> 1024"
abbreviation (input) MAX_COLS :: nat where "MAX_COLS \<equiv> 256"

datatype vi_mode = ModeEx | ModeCommand | ModeCommandLine | ModeInsert | ModeReplaceChar

text \<open>
  The global variables, and the static ones of \<open>command_mode_input\<close> and \<open>commandline_mode_input\<close>: of the arrays \<open>cmd\<close> and
  \<open>cmdline\<close> the part that is filled, whose length is the variable \<open>cmdlen\<close>.  \<open>running\<close> ends with \<open>exit\<close>.  The file
  system is the contents of the files that can be read and the names that can be opened for writing.
\<close>

record vi =
  buffer :: "bytes list"
  vi_row :: int
  vi_col :: int
  want_col :: int
  row_offset :: int
  vi_lines :: int
  vi_mode :: vi_mode
  filename :: bytes
  vi_cmd :: bytes
  vi_count :: int
  cmdline :: bytes
  running :: bool
  contents :: "bytes \<Rightarrow> bytes option"
  writable :: "bytes \<Rightarrow> bool"

definition row_at :: "vi \<Rightarrow> int \<Rightarrow> bytes option" where
  "row_at s r = (if 0 \<le> r \<and> nat r < length (buffer s) then Some (buffer s ! nat r) else None)"

definition set_row :: "int \<Rightarrow> bytes \<Rightarrow> vi \<Rightarrow> vi" where
  "set_row r b s = s\<lparr>buffer := (buffer s)[nat r := b]\<rparr>"

definition c_str :: "bytes \<Rightarrow> bytes" where
  "c_str b = takeWhile (\<lambda>c. c \<noteq> 0) b"

definition row_len :: "bytes \<Rightarrow> nat option" where
  "row_len b = (if 0 \<in> set b then Some (length (c_str b)) else None)"

text \<open>\<open>memmove\<close> within a row; with no bytes to move upwards it does not end.\<close>

definition row_move :: "int \<Rightarrow> int \<Rightarrow> nat \<Rightarrow> bytes \<Rightarrow> bytes option" where
  "row_move dst src n b =
     (if dst < 0 \<or> src < 0 \<or> nat dst + n > length b \<or> nat src + n > length b \<or> n = 0 \<and> dst > src then None
      else Some (take (nat dst) b @ take n (drop (nat src) b) @ drop (nat dst + n) b))"

section \<open>Cursor\<close>

definition move_cursor :: "int \<Rightarrow> int \<Rightarrow> vi \<Rightarrow> vi option" where
  "move_cursor r0 c0 s =
     (let c = if c0 < 0 then 0 else c0;
          r = if r0 < 0 then 0 else r0;
          col = if c = vi_col s \<and> vi_row s \<noteq> r \<and> want_col s > c then want_col s else c;
          row = if r \<ge> vi_lines s then vi_lines s - 1 else r;
          off = if row \<ge> row_offset s + VI_ROWS - 1 then row_offset s + (row - (row_offset s + VI_ROWS - 2))
                else if row < row_offset s then row_offset s - (row_offset s - row)
                else row_offset s
      in Option.bind (row_at s row) (\<lambda>b.
         Option.bind (row_len b) (\<lambda>linelen.
         let last_col = if linelen > 0 then (if vi_mode s = ModeCommand then int linelen - 1 else int linelen) else 0;
             s' = s\<lparr>vi_row := row, row_offset := off\<rparr>
         in Some (if col > last_col then s'\<lparr>want_col := col, vi_col := last_col\<rparr> else s'\<lparr>vi_col := col\<rparr>))))"

section \<open>Editing\<close>

text \<open>\<open>read\<close> delivers the next key, if there is one.\<close>

definition replace_char :: "int \<Rightarrow> bytes \<Rightarrow> vi \<Rightarrow> (bytes \<times> vi) option" where
  "replace_char count keys s =
     (case keys of
        [] \<Rightarrow> Some ([], s)
      | c # rest \<Rightarrow>
          Option.bind (row_at s (vi_row s)) (\<lambda>b.
          Option.bind (row_len b) (\<lambda>n.
          let e = to_long (vi_col s + count); i = nat (vi_col s)
          in Some (rest, if e \<le> int n then set_row (vi_row s) (take i b @ replicate (nat e - i) c @ drop (max i (nat e)) b) s else s))))"

fun delete_loop :: "nat list \<Rightarrow> int \<Rightarrow> int \<Rightarrow> bytes list \<Rightarrow> bytes list option" where
  "delete_loop [] count lines b = Some b"
| "delete_loop (r # rs) count lines b =
     (let src = to_long (int r + count)
      in if r \<ge> length b then None
         else if src < lines then
           (if src < 0 \<or> nat src \<ge> length b then None else delete_loop rs count lines (b[r := b ! nat src]))
         else delete_loop rs count lines (b[r := replicate MAX_COLS 0]))"

definition delete_lines :: "int \<Rightarrow> int \<Rightarrow> vi \<Rightarrow> vi option" where
  "delete_lines row count s =
     (if count = 0 \<or> to_long (row + count) > vi_lines s then Some s
      else
        Option.bind (delete_loop [nat row..<nat (vi_lines s)] count (vi_lines s) (buffer s)) (\<lambda>b.
        let n = vi_lines s - count in Some (s\<lparr>buffer := b, vi_lines := if n < 1 then 1 else n\<rparr>)))"

text \<open>The pointer \<open>p\<close> of \<open>delete_word\<close> as the part of the row from it on; its end is the end of the row.\<close>

definition delete_word :: "int \<Rightarrow> int \<Rightarrow> bool \<Rightarrow> vi \<Rightarrow> vi option" where
  "delete_word row col remove_whitespace_after s =
     Option.bind (row_at s row) (\<lambda>b.
     let p = dropWhile (\<lambda>c. c \<noteq> 0 \<and> \<not> isspace (sint c) \<and> \<not> ispunct (sint c)) (drop (nat (col + 1)) b);
         q = if remove_whitespace_after then dropWhile (\<lambda>c. isspace (sint c)) p else p
     in if q = [] then None
        else Some (set_row row (take (nat col) b @ q @ drop (nat col + length q) b) s))"

fun split_loop :: "nat list \<Rightarrow> bytes list \<Rightarrow> bytes list option" where
  "split_loop [] b = Some b"
| "split_loop (l # ls) b = (if l \<ge> length b then None else split_loop ls (b[l := b ! (l - 1)]))"

text \<open>\<open>strncpy\<close> fills the new row with zeros behind the string.\<close>

definition split_line :: "vi \<Rightarrow> vi option" where
  "split_line s =
     Option.bind (split_loop (rev [nat (vi_row s) + 2..<nat (vi_lines s) + 1]) (buffer s)) (\<lambda>b.
     if nat (vi_row s) + 1 \<ge> length b then None
     else
       let r = b ! nat (vi_row s); i = nat (vi_col s) in
       Option.bind (row_len (drop i r)) (\<lambda>n.
       Some (s\<lparr>buffer := b[nat (vi_row s) + 1 := take n (drop i r) @ replicate (MAX_COLS - n) 0, nat (vi_row s) := r[i := 0]],
                vi_lines := vi_lines s + 1\<rparr>)))"

definition insert_mode_input :: "u8 \<Rightarrow> vi \<Rightarrow> vi option" where
  "insert_mode_input c s =
     (if c = 27 then move_cursor (vi_row s) (vi_col s - 1) (s\<lparr>vi_mode := ModeCommand\<rparr>)
      else if c = 127 \<and> vi_col s > 0 then
        Option.bind (row_at s (vi_row s)) (\<lambda>b.
        if nat (vi_col s - 1) \<ge> length b then None
        else move_cursor (vi_row s) (vi_col s - 1) (set_row (vi_row s) (b[nat (vi_col s - 1) := 0]) s))
      else if c = 10 then
        Option.bind (split_line s) (\<lambda>s'. move_cursor (vi_row s' + 1) 0 s')
      else
        Option.bind (row_at s (vi_row s)) (\<lambda>b.
        Option.bind (row_move (vi_col s + 1) (vi_col s) (MAX_COLS - nat (vi_col s) - 1) b) (\<lambda>b'.
        let s' = set_row (vi_row s) (b'[nat (vi_col s) := c]) s\<lparr>vi_col := vi_col s + 1\<rparr>
        in move_cursor (vi_row s') (vi_col s') s')))"

section \<open>Files\<close>

text \<open>The loop of \<open>load_file\<close> over what \<open>fgets\<close> returns.\<close>

function load_loop :: "bytes \<Rightarrow> nat \<Rightarrow> bytes list \<Rightarrow> (nat \<times> bytes list) option" where
  "load_loop text n b =
     (if text = [] then Some (n, b)
      else if n \<ge> length b then None
      else
        let l = take_line 255 text;
            r = l @ 0 # drop (length l + 1) (b ! n);
            len = length (c_str r);
            r' = if len > 0 \<and> r ! (len - 1) = 10 then r[len - 1 := 0] else r
        in load_loop (drop (length l) text) (n + 1) (b[n := r']))"
  by pat_completeness auto
termination
  by (relation "measure (\<lambda>(text, n, b). length text)") (auto simp: neq_Nil_conv)

definition load_file :: "bytes \<Rightarrow> vi \<Rightarrow> vi option" where
  "load_file pathname s =
     (if length pathname \<ge> 256 then None
      else
        Option.bind (case contents s pathname of None \<Rightarrow> Some (0, buffer s) | Some text \<Rightarrow> load_loop text 0 (buffer s)) (\<lambda>(n, b).
        Some (s\<lparr>filename := pathname, buffer := b, vi_lines := if n = 0 then 1 else int n\<rparr>)))"

text \<open>
  \<open>fprintf\<close> with \<open>%s\<close>: \<open>fputs\<close> takes the negative result of \<open>fputc\<close> for a byte from 0x80 on as an error, stops behind it, and
  the error is padded with a blank.
\<close>

definition printed :: "bytes \<Rightarrow> bytes" where
  "printed l =
     (let a = takeWhile (\<lambda>c. 0 \<le> sint c) l
      in if a = l then l else a @ [l ! length a, 32])"

definition save :: "vi \<Rightarrow> vi option" where
  "save s =
     (if filename s = [] \<or> \<not> writable s (filename s) then Some s
      else if (\<exists>l<nat (vi_lines s). l \<ge> length (buffer s) \<or> 0 \<notin> set (buffer s ! l)) then None
      else Some (s\<lparr>contents := (contents s)(filename s \<mapsto> concat (map (\<lambda>b. printed (c_str b) @ [10]) (take (nat (vi_lines s)) (buffer s))))\<rparr>))"

definition save_as :: "bytes \<Rightarrow> vi \<Rightarrow> vi option" where
  "save_as pathname s = (if length pathname \<ge> 256 then None else save (s\<lparr>filename := pathname\<rparr>))"

definition quit :: "vi \<Rightarrow> vi" where
  "quit s = s\<lparr>running := False\<rparr>"

section \<open>Keys\<close>

definition left_keys :: "bytes list" where "left_keys = [[104], [27, 91, 68]]"
definition right_keys :: "bytes list" where "right_keys = [[108], [27, 91, 67]]"
definition up_keys :: "bytes list" where "up_keys = [[107], [27, 91, 65]]"
definition down_keys :: "bytes list" where "down_keys = [[106], [27, 91, 66]]"

definition run_command :: "int \<Rightarrow> bytes \<Rightarrow> bytes \<Rightarrow> vi \<Rightarrow> (bytes \<times> vi) option" where
  "run_command real_count cmd keys s =
     (let count = if real_count < 1 then 1 else real_count;
          row = vi_row s; col = vi_col s;
          ret = map_option (\<lambda>s'. (keys, s'))
      in if cmd = [105] then ret (Some (s\<lparr>vi_mode := ModeInsert\<rparr>))
         else if cmd = [97] then ret (move_cursor row (col + 1) (s\<lparr>vi_mode := ModeInsert\<rparr>))
         else if cmd = [114] then
           map_option (\<lambda>(k, s'). (k, s'\<lparr>vi_mode := ModeCommand\<rparr>)) (replace_char count keys (s\<lparr>vi_mode := ModeReplaceChar\<rparr>))
         else if cmd \<in> set left_keys then ret (move_cursor row (to_long (col - count)) s)
         else if cmd \<in> set right_keys then ret (move_cursor row (to_long (col + count)) s)
         else if cmd \<in> set up_keys then ret (move_cursor (to_long (row - count)) col s)
         else if cmd \<in> set down_keys then ret (move_cursor (to_long (row + count)) col s)
         else if cmd = [27, 91, 53, 126] then ret (move_cursor (to_long (to_long (row - to_long ((VI_ROWS - 1) * count)) + 1)) col s)
         else if cmd = [27, 91, 54, 126] then ret (move_cursor (to_long (to_long (row + to_long ((VI_ROWS - 1) * count)) - 1)) col s)
         else if cmd = [27, 91, 72] \<or> cmd = [48] then ret (move_cursor row 0 s)
         else if cmd = [27, 91, 70] \<or> cmd = [36] then
           ret (Option.bind (row_at s (row + row_offset s)) (\<lambda>b.
                Option.bind (row_len b) (\<lambda>n. move_cursor row (if n > 0 then int n - 1 else 0) s)))
         else if cmd = [120] then
           ret (Option.bind (row_at s row) (\<lambda>b.
                Option.bind (row_len b) (\<lambda>n.
                let e = to_long (col + count)
                in if e \<le> int n then
                     Option.bind (row_len (drop (nat col) b)) (\<lambda>m.
                     Option.bind (row_move col e m b) (\<lambda>b'. move_cursor row col (set_row row b' s)))
                   else Some s)))
         else if cmd = [90, 90] then ret (map_option quit (save s))
         else if cmd = [100, 100] then ret (Option.bind (delete_lines row count s) (move_cursor row col))
         else if cmd = [100, 119] then ret (Option.bind (delete_word row col True s) (move_cursor row col))
         else if cmd = [99, 119] then
           ret (Option.bind (delete_word row col False s) (\<lambda>s'. move_cursor row col (s'\<lparr>vi_mode := ModeInsert\<rparr>)))
         else if cmd = [71] then ret (move_cursor (if real_count \<noteq> 0 then count - 1 else vi_lines s - 1) col s)
         else if cmd = [58] then ret (Some (s\<lparr>vi_mode := ModeCommandLine\<rparr>))
         else ret (Some s))"

text \<open>The commands that wait for another key.\<close>

definition prefix_cmds :: "bytes list" where
  "prefix_cmds = [[100], [99], [90], [27], [27, 91], [27, 91, 53], [27, 91, 54]]"

definition command_mode_input :: "u8 \<Rightarrow> bytes \<Rightarrow> vi \<Rightarrow> (bytes \<times> vi) option" where
  "command_mode_input c keys s =
     (if vi_cmd s = [] \<and> (sint c \<ge> 49 \<or> sint c \<ge> 48 \<and> vi_count s > 0) \<and> sint c \<le> 57 then
        Some (keys, s\<lparr>vi_count := to_long (to_long (vi_count s * 10) + (sint c - 48))\<rparr>)
      else if length (vi_cmd s) \<ge> 8 then None
      else
        let cmd = vi_cmd s @ [c]
        in if c_str cmd \<in> set prefix_cmds then Some (keys, s\<lparr>vi_cmd := cmd\<rparr>)
           else map_option (\<lambda>(k, s'). (k, s'\<lparr>vi_cmd := [], vi_count := 0\<rparr>)) (run_command (vi_count s) (c_str cmd) keys s))"

definition run_commandline :: "bytes \<Rightarrow> vi \<Rightarrow> vi option" where
  "run_commandline l s =
     (if l = [115, 104] \<or> l = [115, 104, 101, 108, 108] then Some s
      else if take 2 l = [114, 32] then Option.bind (load_file (drop 2 l) s) (move_cursor 0 0)
      else if l = [119, 113] then map_option quit (save s)
      else if l = [119] then save s
      else if take 2 l = [119, 32] then save_as (drop 2 l) s
      else if l = [113] \<or> l = [113, 33] then Some (quit s)
      else Some s)"

definition commandline_mode_input :: "u8 \<Rightarrow> vi \<Rightarrow> vi option" where
  "commandline_mode_input c s =
     (if c = 10 \<or> c = 13 then
        (if length (cmdline s) \<ge> 256 then None
         else map_option (\<lambda>s'. s'\<lparr>cmdline := [], vi_mode := ModeCommand\<rparr>) (run_commandline (cmdline s) s))
      else if c = 27 then Some (s\<lparr>vi_mode := ModeCommand, cmdline := []\<rparr>)
      else if c = 127 then Some (s\<lparr>cmdline := butlast (cmdline s)\<rparr>)
      else if isprint (sint c) then
        (if length (cmdline s) \<ge> 256 then None else Some (s\<lparr>cmdline := cmdline s @ [c]\<rparr>))
      else Some s)"

definition process_input :: "u8 \<Rightarrow> bytes \<Rightarrow> vi \<Rightarrow> (bytes \<times> vi) option" where
  "process_input c keys s =
     (case vi_mode s of
        ModeEx \<Rightarrow> Some (keys, s)
      | ModeReplaceChar \<Rightarrow> Some (keys, s)
      | ModeCommandLine \<Rightarrow> map_option (\<lambda>s'. (keys, s')) (commandline_mode_input c s)
      | ModeCommand \<Rightarrow> command_mode_input c keys s
      | ModeInsert \<Rightarrow> map_option (\<lambda>s'. (keys, s')) (insert_mode_input c s))"

lemma process_input_rest: "process_input c keys s = Some (keys', s') \<Longrightarrow> length keys' \<le> length keys"
  by (auto simp: process_input_def command_mode_input_def run_command_def replace_char_def Let_def
      split: vi_mode.splits if_splits list.splits option.splits bind_splits)

text \<open>The loop of \<open>main\<close>.\<close>

function vi_run :: "bytes \<Rightarrow> vi \<Rightarrow> vi option" where
  "vi_run [] s = Some s"
| "vi_run (c # keys) s =
     (if \<not> running s then Some s
      else case process_input c keys s of None \<Rightarrow> None | Some (keys', s') \<Rightarrow> vi_run keys' s')"
  by pat_completeness auto
termination
  by (relation "measure (\<lambda>(keys, s). length keys)") (auto dest: process_input_rest simp: less_Suc_eq_le)

definition vi_start :: "(bytes \<Rightarrow> bytes option) \<Rightarrow> (bytes \<Rightarrow> bool) \<Rightarrow> vi" where
  "vi_start fs wr = \<lparr>buffer = replicate MAX_ROWS (replicate MAX_COLS 0), vi_row = 0, vi_col = 0, want_col = 0, row_offset = 0,
     vi_lines = 0, vi_mode = ModeCommand, filename = [], vi_cmd = [], vi_count = 0, cmdline = [], running = True,
     contents = fs, writable = wr\<rparr>"

definition vi_main :: "bytes option \<Rightarrow> bytes \<Rightarrow> (bytes \<Rightarrow> bytes option) \<Rightarrow> (bytes \<Rightarrow> bool) \<Rightarrow> vi option" where
  "vi_main arg keys fs wr = Option.bind (load_file (case arg of None \<Rightarrow> [] | Some f \<Rightarrow> f) (vi_start fs wr)) (vi_run keys)"

section \<open>Rows\<close>

definition row_ok :: "bytes \<Rightarrow> bool" where
  "row_ok b \<longleftrightarrow> length b = MAX_COLS \<and> 0 \<in> set b"

lemma c_str_append [simp]: "0 \<notin> set xs \<Longrightarrow> c_str (xs @ 0 # ys) = xs"
  by (auto simp: c_str_def takeWhile_append)

lemma c_str_no_zero [simp]: "0 \<notin> set (c_str b)"
  by (auto simp: c_str_def dest: set_takeWhileD)

lemma row_split:
  assumes "row_ok b"
  obtains L rest where "b = L @ 0 # rest" "c_str b = L" "0 \<notin> set L" "length L + length rest = 255"
proof -
  obtain L rest where b: "b = L @ 0 # rest" "0 \<notin> set L" using assms split_list_first [of 0 b] by (auto simp: row_ok_def)
  moreover have "length L + length rest = 255" using assms b by (simp add: row_ok_def)
  ultimately show ?thesis using that by simp
qed

lemma row_okI: "length b = 256 \<Longrightarrow> b = xs @ 0 # ys \<Longrightarrow> row_ok b"
  by (simp add: row_ok_def)

lemma row_len_ok [simp]: "row_ok b \<Longrightarrow> row_len b = Some (length (c_str b))"
  by (simp add: row_len_def row_ok_def)

lemma c_str_short: "row_ok b \<Longrightarrow> length (c_str b) \<le> 255"
  by (erule row_split) simp

lemma row_ok_zero: "row_ok (replicate 256 0)" "c_str (replicate (Suc n) 0) = []"
  by (simp_all add: row_ok_def c_str_def)

lemma c_str_take: "row_ok b \<Longrightarrow> i \<le> length (c_str b) \<Longrightarrow> take i b = take i (c_str b)"
  by (erule row_split) simp

text \<open>The changes of a row that the editor makes.\<close>

lemma c_str_cut:
  assumes "row_ok b" "i \<le> length (c_str b)"
  shows "row_ok (b[i := 0])" "c_str (b[i := 0]) = take i (c_str b)"
proof -
  obtain L rest where b: "b = L @ 0 # rest" "c_str b = L" "0 \<notin> set L" "length L + length rest = 255" using row_split [OF assms(1)] .
  then have "b[i := 0] = take i L @ 0 # drop (Suc i) b" using assms(2) by (simp add: upd_conv_take_nth_drop)
  moreover have "0 \<notin> set (take i L)" using b(3) by (auto dest: in_set_takeD)
  moreover have "length (b[i := 0]) = 256" using assms(1) by (simp add: row_ok_def)
  ultimately show "row_ok (b[i := 0])" "c_str (b[i := 0]) = take i (c_str b)" using b(2) by (auto intro: row_okI)
qed

lemma c_str_insert:
  assumes "row_ok b" "i \<le> length (c_str b)" "length (c_str b) < 255" "c \<noteq> 0"
  shows "\<exists>b'. row_move (int i + 1) (int i) (256 - i - 1) b = Some b' \<and> row_ok (b'[i := c])
    \<and> c_str (b'[i := c]) = take i (c_str b) @ c # drop i (c_str b)"
proof -
  obtain L rest where b: "b = L @ 0 # rest" "c_str b = L" "0 \<notin> set L" "length L + length rest = 255" using row_split [OF assms(1)] .
  have r: "rest \<noteq> []" using b(4) assms(3) b(2) by auto
  let ?b' = "take (Suc i) b @ butlast (drop i b)"
  have len: "length b = 256" using assms(1) by (simp add: row_ok_def)
  have i: "i < 255" using assms(2,3) by simp
  have "take (255 - i) (drop i b) = butlast (drop i b)" using len i by (simp add: butlast_conv_take)
  then have m: "row_move (int i + 1) (int i) (256 - i - 1) b = Some ?b'" using len i by (simp add: row_move_def nat_add_distrib)
  have "butlast (drop i b) = drop i L @ 0 # butlast rest"
    using assms(2) b r by (simp add: butlast_append)
  then have "?b'[i := c] = (take i L @ c # drop i L) @ 0 # butlast rest"
    using assms(2) b(1,2) by (simp add: list_update_append take_Suc_conv_app_nth nth_append)
  moreover have "0 \<notin> set (take i L @ c # drop i L)" using b(3) assms(4) by (auto dest: in_set_takeD in_set_dropD)
  moreover have "length (?b'[i := c]) = 256" using len i by simp
  ultimately show ?thesis using m b(2) row_okI c_str_append by metis
qed

lemma c_str_delete:
  assumes "row_ok b" "i + n \<le> length (c_str b)" "length (c_str b) + n \<le> 256" "0 < n"
  shows "\<exists>m b'. row_len (drop i b) = Some m \<and> row_move (int i) (int (i + n)) m b = Some b' \<and> row_ok b'
    \<and> c_str b' = take i (c_str b) @ drop (i + n) (c_str b)"
proof -
  obtain L rest where b: "b = L @ 0 # rest" "c_str b = L" "0 \<notin> set L" "length L + length rest = 255" using row_split [OF assms(1)] .
  have d: "drop i b = drop i L @ 0 # rest" "drop (i + n) b = drop (i + n) L @ 0 # rest" using assms(2) b(1,2) by simp_all
  have nz: "0 \<notin> set (take i L @ drop (i + n) L)" "0 \<notin> set (drop i L)" using b(3) by (auto dest: in_set_takeD in_set_dropD)
  have m: "row_len (drop i b) = Some (length L - i)" using nz d by (simp add: row_len_def)
  have len: "length b = 256" using assms(1) by (simp add: row_ok_def)
  let ?b' = "take i b @ take (length L - i) (drop (i + n) b) @ drop (length L) b"
  have mv: "row_move (int i) (int (i + n)) (length L - i) b = Some ?b'"
    using assms(2-4) b(2) len by (simp add: row_move_def flip: of_nat_add)
  have "take (length L - i) (drop (i + n) b) = drop (i + n) L @ 0 # take (n - 1) rest"
    using d(2) assms(2,4) b(2) by (simp add: take_Cons')
  then have e: "?b' = (take i L @ drop (i + n) L) @ 0 # (take (n - 1) rest @ drop (length L) b)"
    using assms(2) b(1,2) by simp
  have "length ?b' = 256" using len assms(2-4) b(2) by simp
  then show ?thesis using m mv row_okI [OF _ e] c_str_append [OF nz(1)] e b(2) by metis
qed

lemma c_str_tail:
  assumes "row_ok b" "i \<le> length (c_str b)"
  shows "row_len (drop i b) = Some (length (c_str b) - i)"
    "row_ok (take (length (c_str b) - i) (drop i b) @ replicate (256 - (length (c_str b) - i)) 0)"
    "c_str (take (length (c_str b) - i) (drop i b) @ replicate (256 - (length (c_str b) - i)) 0) = drop i (c_str b)"
proof -
  obtain L rest where b: "b = L @ 0 # rest" "c_str b = L" "0 \<notin> set L" "length L + length rest = 255" using row_split [OF assms(1)] .
  have d: "drop i b = drop i L @ 0 # rest" using assms(2) b(1,2) by simp
  have nz: "0 \<notin> set (drop i L)" using b(3) by (auto dest: in_set_dropD)
  show "row_len (drop i b) = Some (length (c_str b) - i)" using nz d b(2) by (simp add: row_len_def)
  obtain k where k: "256 - (length L - i) = Suc k" using b(4) by (cases "256 - (length L - i)") auto
  have e: "take (length L - i) (drop i b) @ replicate (256 - (length L - i)) 0 = drop i L @ 0 # replicate k 0"
    using d k by simp
  show "c_str (take (length (c_str b) - i) (drop i b) @ replicate (256 - (length (c_str b) - i)) 0) = drop i (c_str b)"
    using nz b(2) e by simp
  have "length (drop i L @ 0 # replicate k 0) = 256" using k b(4) by simp
  then show "row_ok (take (length (c_str b) - i) (drop i b) @ replicate (256 - (length (c_str b) - i)) 0)"
    using b(2) e row_okI by metis
qed

lemma c_str_replace:
  assumes "row_ok b" "i + n \<le> length (c_str b)" "c \<noteq> 0"
  shows "row_ok (take i b @ replicate n c @ drop (i + n) b)"
    "c_str (take i b @ replicate n c @ drop (i + n) b) = take i (c_str b) @ replicate n c @ drop (i + n) (c_str b)"
proof -
  obtain L rest where b: "b = L @ 0 # rest" "c_str b = L" "0 \<notin> set L" "length L + length rest = 255" using row_split [OF assms(1)] .
  have e: "take i b @ replicate n c @ drop (i + n) b = (take i L @ replicate n c @ drop (i + n) L) @ 0 # rest" using assms(2) b(1,2) by simp
  have nz: "0 \<notin> set (take i L @ replicate n c @ drop (i + n) L)" using b(3) assms(3) by (auto dest: in_set_takeD in_set_dropD)
  have "length (take i b @ replicate n c @ drop (i + n) b) = 256" using assms(1,2) b by (simp add: row_ok_def)
  then show "row_ok (take i b @ replicate n c @ drop (i + n) b)" using row_okI [OF _ e] by simp
  show "c_str (take i b @ replicate n c @ drop (i + n) b) = take i (c_str b) @ replicate n c @ drop (i + n) (c_str b)"
    using c_str_append [OF nz] e b(2) by simp
qed

section \<open>The invariant\<close>

definition body_ok :: "vi \<Rightarrow> bool" where
  "body_ok s \<longleftrightarrow> length (buffer s) = MAX_ROWS \<and> (\<forall>b\<in>set (buffer s). row_ok b) \<and> 1 \<le> vi_lines s \<and> vi_lines s \<le> int MAX_ROWS \<and> 0 \<le> row_offset s"

definition cur_line :: "vi \<Rightarrow> bytes" where
  "cur_line s = c_str (buffer s ! nat (vi_row s))"

definition cursor_ok :: "vi \<Rightarrow> bool" where
  "cursor_ok s \<longleftrightarrow> 0 \<le> vi_row s \<and> vi_row s < vi_lines s \<and> 0 \<le> vi_col s \<and> vi_col s \<le> int (length (cur_line s))
     \<and> row_offset s \<le> vi_row s \<and> vi_row s < row_offset s + 24"

definition keys_ok :: "vi \<Rightarrow> bool" where
  "keys_ok s \<longleftrightarrow> (vi_cmd s = [] \<or> vi_cmd s \<in> set prefix_cmds) \<and> length (cmdline s) \<le> 255
     \<and> - (2 ^ 31) \<le> vi_count s \<and> vi_count s < 2 ^ 31 \<and> vi_mode s \<notin> {ModeEx, ModeReplaceChar}"

definition good :: "vi \<Rightarrow> bool" where
  "good s \<longleftrightarrow> body_ok s \<and> cursor_ok s \<and> keys_ok s"

text \<open>The text in the buffer.\<close>

definition text_lines :: "vi \<Rightarrow> bytes list" where
  "text_lines s = map c_str (take (nat (vi_lines s)) (buffer s))"

lemma body_row: "body_ok s \<Longrightarrow> 0 \<le> r \<Longrightarrow> r < 1024 \<Longrightarrow> row_at s r = Some (buffer s ! nat r) \<and> row_ok (buffer s ! nat r)"
  by (auto simp: body_ok_def row_at_def nat_less_iff)

lemma move_cursor_run:
  assumes "body_ok s"
    and "row = (let r = (if r0 < 0 then 0 else r0) in if r \<ge> vi_lines s then vi_lines s - 1 else r)"
    and "col = (let c = (if c0 < 0 then 0 else c0) in if c = vi_col s \<and> vi_row s \<noteq> (if r0 < 0 then 0 else r0) \<and> want_col s > c then want_col s else c)"
    and "lc = (let n = length (c_str (buffer s ! nat row)) in if vi_mode s = ModeCommand then int (n - 1) else int n)"
    and "off = (if row \<ge> row_offset s + 24 then row - 23 else min row (row_offset s))"
  shows "move_cursor r0 c0 s = Some (s\<lparr>vi_row := row, vi_col := min col lc, want_col := if col > lc then col else want_col s, row_offset := off\<rparr>)"
proof -
  have r: "0 \<le> row" "row < 1024" using assms(1) by (auto simp: assms(2) body_ok_def Let_def)
  note b = body_row [OF assms(1) r]
  have last: "(if length (c_str (buffer s ! nat row)) > 0 then (if vi_mode s = ModeCommand then int (length (c_str (buffer s ! nat row))) - 1
      else int (length (c_str (buffer s ! nat row)))) else 0) = lc"
    by (cases "c_str (buffer s ! nat row)") (auto simp: assms(4) Let_def)
  have off: "(if row \<ge> row_offset s + 25 - 1 then row_offset s + (row - (row_offset s + 25 - 2))
      else if row < row_offset s then row_offset s - (row_offset s - row) else row_offset s) = off"
    by (auto simp: assms(5))
  show ?thesis
    unfolding move_cursor_def Let_def
    unfolding assms(2) [unfolded Let_def, symmetric] assms(3) [unfolded Let_def, symmetric] off
      conjunct1 [OF b] row_len_ok [OF conjunct2 [OF b]] Option.bind.simps last
    by simp
qed

lemma move_cursor_ok:
  assumes "body_ok s"
  shows "\<exists>row col want off. move_cursor r c s = Some (s\<lparr>vi_row := row, vi_col := col, want_col := want, row_offset := off\<rparr>)
    \<and> body_ok (s\<lparr>vi_row := row, vi_col := col, want_col := want, row_offset := off\<rparr>)
    \<and> cursor_ok (s\<lparr>vi_row := row, vi_col := col, want_col := want, row_offset := off\<rparr>)"
proof -
  define row where "row = (let r' = (if r < 0 then 0 else r) in if r' \<ge> vi_lines s then vi_lines s - 1 else r')"
  define col where "col = (let c' = (if c < 0 then 0 else c) in if c' = vi_col s \<and> vi_row s \<noteq> (if r < 0 then 0 else r) \<and> want_col s > c' then want_col s else c')"
  define lc where "lc = (let n = length (c_str (buffer s ! nat row)) in if vi_mode s = ModeCommand then int (n - 1) else int n)"
  define off where "off = (if row \<ge> row_offset s + 24 then row - 23 else min row (row_offset s))"
  note run = move_cursor_run [OF assms row_def col_def lc_def off_def]
  have b: "1 \<le> vi_lines s" "0 \<le> row_offset s" using assms by (auto simp: body_ok_def)
  have r: "0 \<le> row \<and> row < vi_lines s" using b by (simp add: row_def Let_def)
  have c: "0 \<le> col" by (simp add: col_def Let_def)
  have l: "0 \<le> lc \<and> lc \<le> int (length (c_str (buffer s ! nat row)))" by (simp add: lc_def Let_def)
  have o': "0 \<le> off \<and> off \<le> row \<and> row < off + 24" using b r by (auto simp: off_def)
  show ?thesis
    by (rule exI [of _ row], rule exI [of _ "min col lc"], rule exI, rule exI [of _ off], rule conjI, rule run)
      (use assms r c l o' in \<open>auto simp: body_ok_def cursor_ok_def cur_line_def\<close>)
qed

section \<open>What the commands do to the buffer\<close>

lemma delete_loop_rows:
  assumes "n \<le> length b" "0 < c" "int n + int c < 2 ^ 31"
  shows "\<exists>b'. delete_loop [r..<n] (int c) (int n) b = Some b' \<and> length b' = length b
    \<and> (\<forall>i<length b. b' ! i = (if r \<le> i \<and> i < n then (if i + c < n then b ! (i + c) else replicate 256 0) else b ! i))"
  using assms
proof (induction "n - r" arbitrary: r b)
  case (Suc m)
  have r: "r < n" using Suc.hyps(2) by simp
  have src: "to_long (int r + int c) = int (r + c)" using Suc.prems r by (simp add: to_long_id)
  let ?b1 = "b[r := if r + c < n then b ! (r + c) else replicate 256 0]"
  obtain b' where b': "delete_loop [Suc r..<n] (int c) (int n) ?b1 = Some b'" "length b' = length b"
    "\<forall>i<length b. b' ! i = (if Suc r \<le> i \<and> i < n then (if i + c < n then ?b1 ! (i + c) else replicate 256 0) else ?b1 ! i)"
  proof -
    have "m = n - Suc r" "n \<le> length ?b1" using Suc.hyps(2) Suc.prems by auto
    from Suc.hyps(1) [OF this Suc.prems(2,3)] show ?thesis using that by auto
  qed
  have "delete_loop [r..<n] (int c) (int n) b = Some b'"
    using b'(1) r Suc.prems unfolding upt_conv_Cons [OF r] delete_loop.simps src Let_def by (auto simp: nat_int_add split: if_splits)
  moreover have "b' ! i = (if r \<le> i \<and> i < n then (if i + c < n then b ! (i + c) else replicate 256 0) else b ! i)" if "i < length b" for i
    using b'(3) that r Suc.prems by (auto simp: nth_list_update)
  ultimately show ?case using b'(2) by blast
qed auto

lemma split_loop_rows:
  assumes "n < length b" "r + 1 \<le> n"
  shows "\<exists>b'. split_loop (rev [r + 2..<n + 1]) b = Some b' \<and> length b' = length b
    \<and> (\<forall>i<length b. b' ! i = (if r + 2 \<le> i \<and> i \<le> n then b ! (i - 1) else b ! i))"
  using assms
proof (induction "n - (r + 1)" arbitrary: n b)
  case 0
  then show ?case by auto
next
  case (Suc m)
  then have n: "r + 2 \<le> n" by simp
  let ?b1 = "b[n := b ! (n - 1)]"
  obtain b' where b': "split_loop (rev [r + 2..<n - 1 + 1]) ?b1 = Some b'" "length b' = length b"
    "\<forall>i<length b. b' ! i = (if r + 2 \<le> i \<and> i \<le> n - 1 then ?b1 ! (i - 1) else ?b1 ! i)"
  proof -
    have "m = n - 1 - (r + 1)" "n - 1 < length ?b1" "r + 1 \<le> n - 1" using Suc.hyps(2) Suc.prems by auto
    from Suc.hyps(1) [OF this] show ?thesis using that by auto
  qed
  have "split_loop (rev [r + 2..<n + 1]) b = Some b'"
    using b'(1) n Suc.prems by simp
  moreover have "b' ! i = (if r + 2 \<le> i \<and> i \<le> n then b ! (i - 1) else b ! i)" if "i < length b" for i
    using b'(3) that n Suc.prems by (auto simp: nth_list_update)
  ultimately show ?case using b'(2) by blast
qed

lemma dropWhile_stop: "\<not> P z \<Longrightarrow> dropWhile P (xs @ z # ys) = dropWhile P xs @ z # ys"
  by (induction xs) auto

lemma length_dropWhile_twice: "length (dropWhile P (dropWhile Q xs)) \<le> length xs"
  by (meson length_dropWhile_le order_trans)

text \<open>What remains of the line behind the word at its beginning.\<close>

definition after_word :: "bool \<Rightarrow> bytes \<Rightarrow> bytes" where
  "after_word ws l =
     (let p = dropWhile (\<lambda>c. \<not> isspace (sint c) \<and> \<not> ispunct (sint c)) (tl l)
      in if ws then dropWhile (\<lambda>c. isspace (sint c)) p else p)"

lemma delete_word_row:
  assumes "body_ok s" "cursor_ok s" "nat (vi_col s) < length (cur_line s)"
  shows "\<exists>b. delete_word (vi_row s) (vi_col s) w s = Some (set_row (vi_row s) b s) \<and> row_ok b
    \<and> c_str b = take (nat (vi_col s)) (cur_line s) @ after_word w (drop (nat (vi_col s)) (cur_line s))"
proof -
  let ?b = "buffer s ! nat (vi_row s)" and ?i = "nat (vi_col s)"
  have r: "row_at s (vi_row s) = Some ?b" "row_ok ?b" using assms(1,2) body_row [of s "vi_row s"] by (auto simp: cursor_ok_def body_ok_def)
  obtain L rest where b: "?b = L @ 0 # rest" "c_str ?b = L" "0 \<notin> set L" "length L + length rest = 255" using row_split [OF r(2)] .
  have L: "cur_line s = L" using b(2) by (simp add: cur_line_def)
  have col: "nat (vi_col s + 1) = Suc ?i" using assms(2) by (auto simp: cursor_ok_def nat_add_distrib)
  have z: "\<not> isspace (sint (0 :: u8))" by (simp add: isspace_def)
  let ?P = "\<lambda>c :: u8. \<not> isspace (sint c) \<and> \<not> ispunct (sint c)"
  have d: "drop (Suc ?i) ?b = drop (Suc ?i) L @ 0 # rest" using assms(3) b(1) L by simp
  have t: "tl (drop ?i L) = drop (Suc ?i) L" by (simp add: drop_Suc tl_drop)
  have nz: "dropWhile (\<lambda>c. c \<noteq> 0 \<and> ?P c) (drop (Suc ?i) L) = dropWhile ?P (drop (Suc ?i) L)"
    by (rule dropWhile_cong) (use b(3) in \<open>auto dest: in_set_dropD\<close>)
  have q: "(let p = dropWhile (\<lambda>c. c \<noteq> 0 \<and> ?P c) (drop (nat (vi_col s + 1)) ?b) in if w then dropWhile (\<lambda>c. isspace (sint c)) p else p)
      = after_word w (drop ?i L) @ 0 # rest"
    unfolding after_word_def Let_def col d t using z by (simp add: dropWhile_stop nz)
  let ?x = "after_word w (drop ?i L)"
  let ?new = "take ?i ?b @ (?x @ 0 # rest) @ drop (?i + length (?x @ 0 # rest)) ?b"
  have x: "length ?x \<le> length L - Suc ?i" "set ?x \<subseteq> set L"
    using length_dropWhile_twice [of _ _ "tl (drop ?i L)"] length_dropWhile_le [of _ "tl (drop ?i L)"]
    by (auto simp: after_word_def Let_def t dest!: set_dropWhileD in_set_dropD split: if_splits)
  have e: "?new = (take ?i L @ ?x) @ 0 # (rest @ drop (?i + length (?x @ 0 # rest)) ?b)" using assms(3) b(1) L by simp
  have len: "length ?b = 256" using r(2) by (simp add: row_ok_def)
  have "length ?new = 256" using x(1) b(4) assms(3) L len by simp
  then have "row_ok ?new" by (rule row_okI) (rule e)
  moreover have "c_str ?new = take ?i L @ ?x" unfolding e by (rule c_str_append) (use b(3) x(2) in \<open>auto dest: in_set_takeD\<close>)
  moreover have "delete_word (vi_row s) (vi_col s) w s = Some (set_row (vi_row s) ?new s)"
    using q r(1) by (simp add: delete_word_def Let_def)
  ultimately show ?thesis using L by blast
qed

lemma set_row_body:
  assumes "body_ok s" "0 \<le> r" "r < 1024" "row_ok b"
  shows "body_ok (set_row r b s)" "text_lines (set_row r b s) = (text_lines s)[nat r := c_str b]"
  using assms by (auto simp: body_ok_def set_row_def text_lines_def map_update take_update_swap dest!: set_update_subset_insert [THEN subsetD])

lemma length_text_lines: "body_ok s \<Longrightarrow> length (text_lines s) = nat (vi_lines s)"
  by (auto simp: body_ok_def text_lines_def)

lemma nth_text_lines: "i < nat (vi_lines s) \<Longrightarrow> body_ok s \<Longrightarrow> text_lines s ! i = c_str (buffer s ! i)"
  by (auto simp: body_ok_def text_lines_def)

lemma text_linesI:
  assumes "body_ok s" "length t = nat (vi_lines s)" "\<And>i. i < length t \<Longrightarrow> c_str (buffer s ! i) = t ! i"
  shows "text_lines s = t"
  by (rule nth_equalityI) (use assms in \<open>auto simp: length_text_lines nth_text_lines\<close>)

text \<open>The lines without \<open>n\<close> of them; an empty text has one empty line.\<close>

definition without_lines :: "nat \<Rightarrow> nat \<Rightarrow> bytes list \<Rightarrow> bytes list" where
  "without_lines r n t = (if r + n \<le> length t then (if n = length t then [[]] else take r t @ drop (r + n) t) else t)"

lemma delete_lines_run:
  assumes s: "body_ok s" and r: "r < nat (vi_lines s)" and n: "0 < n" "int r + int n < 2 ^ 31"
  shows "\<exists>b l. delete_lines (int r) (int n) s = Some (s\<lparr>buffer := b, vi_lines := l\<rparr>) \<and> body_ok (s\<lparr>buffer := b, vi_lines := l\<rparr>)
    \<and> text_lines (s\<lparr>buffer := b, vi_lines := l\<rparr>) = without_lines r n (text_lines s)"
proof (cases "int r + int n \<le> vi_lines s")
  case False
  then have "delete_lines (int r) (int n) s = Some s" using n by (simp add: delete_lines_def to_long_id)
  moreover have "without_lines r n (text_lines s) = text_lines s" using False s n(1) by (auto simp: without_lines_def length_text_lines)
  moreover have "s = s\<lparr>buffer := buffer s, vi_lines := vi_lines s\<rparr>" by simp
  ultimately show ?thesis using s by metis
next
  case True
  have L: "1 \<le> vi_lines s" "nat (vi_lines s) \<le> length (buffer s)" "length (buffer s) = 1024" "vi_lines s \<le> 1024" "int (nat (vi_lines s)) = vi_lines s" 
    using s by (auto simp: body_ok_def)
  have "int (nat (vi_lines s)) + int n < 2 ^ 31" using L True by simp
  from delete_loop_rows [OF L(2) n(1) this, of r] obtain b where
    b: "delete_loop [r..<nat (vi_lines s)] (int n) (vi_lines s) (buffer s) = Some b" "length b = 1024"
    "\<And>i. i < 1024 \<Longrightarrow> b ! i = (if r \<le> i \<and> i < nat (vi_lines s) then (if i + n < nat (vi_lines s) then buffer s ! (i + n) else replicate 256 0) else buffer s ! i)"
    using L by auto
  define l where "l = (if vi_lines s - int n < 1 then 1 else vi_lines s - int n)"
  have run: "delete_lines (int r) (int n) s = Some (s\<lparr>buffer := b, vi_lines := l\<rparr>)"
    using True n b(1) by (simp add: delete_lines_def to_long_id l_def Let_def)
  have ok: "\<forall>i<1024. row_ok (b ! i)" using s b(3) L row_ok_zero by (auto simp: body_ok_def)
  then have body: "body_ok (s\<lparr>buffer := b, vi_lines := l\<rparr>)"
    using s b(2) n(1) by (auto simp: body_ok_def l_def in_set_conv_nth)
  have "text_lines (s\<lparr>buffer := b, vi_lines := l\<rparr>) = without_lines r n (text_lines s)"
  proof (rule text_linesI [OF body])
    show "length (without_lines r n (text_lines s)) = nat (vi_lines (s\<lparr>buffer := b, vi_lines := l\<rparr>))"
      using True s r L n(1) by (auto simp: without_lines_def length_text_lines l_def)
  next
    fix i
    assume i: "i < length (without_lines r n (text_lines s))"
    then have i': "i < 1024" using True s r L n(1) by (auto simp: without_lines_def length_text_lines split: if_splits)
    have z: "c_str (replicate 256 0) = []" by (simp add: c_str_def)
    show "c_str (buffer (s\<lparr>buffer := b, vi_lines := l\<rparr>) ! i) = without_lines r n (text_lines s) ! i"
      using i b(3) [OF i'] True s r L n(1) z
      by (auto simp: without_lines_def length_text_lines nth_append nth_text_lines add.commute split: if_splits)
  qed
  then show ?thesis using run body by blast
qed

definition split_at :: "nat \<Rightarrow> nat \<Rightarrow> bytes list \<Rightarrow> bytes list" where
  "split_at r i t = take r t @ [take i (t ! r), drop i (t ! r)] @ drop (Suc r) t"

lemma split_at_length: "r < length t \<Longrightarrow> length (split_at r i t) = Suc (length t)"
  unfolding split_at_def length_append length_take length_drop by simp

lemma split_line_run:
  assumes s: "body_ok s" and c: "cursor_ok s" and l: "vi_lines s < 1024"
  shows "\<exists>b. split_line s = Some (s\<lparr>buffer := b, vi_lines := vi_lines s + 1\<rparr>) \<and> body_ok (s\<lparr>buffer := b, vi_lines := vi_lines s + 1\<rparr>)
    \<and> text_lines (s\<lparr>buffer := b, vi_lines := vi_lines s + 1\<rparr>) = split_at (nat (vi_row s)) (nat (vi_col s)) (text_lines s)"
proof -
  obtain R N I where e: "vi_row s = int R" "vi_lines s = int N" "vi_col s = int I"
    using s c zero_le_imp_eq_int [of "vi_row s"] zero_le_imp_eq_int [of "vi_lines s"] zero_le_imp_eq_int [of "vi_col s"]
    by (auto simp: body_ok_def cursor_ok_def)
  let ?b = "buffer s ! R"
  have L: "length (buffer s) = 1024" "R < N" "N < 1024" "I \<le> length (c_str ?b)" "nat (vi_lines s + 1) = Suc N"
    using s c l by (auto simp: body_ok_def cursor_ok_def cur_line_def e)
  have ok: "row_ok ?b" using s L by (auto simp: body_ok_def)
  obtain b1 where b1: "split_loop (rev [R + 2..<N + 1]) (buffer s) = Some b1" "length b1 = 1024"
    "\<And>i. i < 1024 \<Longrightarrow> b1 ! i = (if R + 2 \<le> i \<and> i \<le> N then buffer s ! (i - 1) else buffer s ! i)"
    using split_loop_rows [of N "buffer s" R] L by auto
  have r2: "\<not> 1023 \<le> R" using L(2,3) by linarith
  have r1: "b1 ! R = ?b" using b1(3) [of R] L by simp
  let ?new = "take (length (c_str ?b) - I) (drop I ?b) @ replicate (256 - (length (c_str ?b) - I)) 0"
  let ?b2 = "b1[R + 1 := ?new, R := ?b[I := 0]]"
  note tail = c_str_tail [OF ok L(4)] and cut = c_str_cut [OF ok L(4)]
  have run: "split_line s = Some (s\<lparr>buffer := ?b2, vi_lines := vi_lines s + 1\<rparr>)"
    using b1(1,2) r2 tail(1) r1 by (simp add: split_line_def Let_def e)
  have "\<forall>i<1024. row_ok (?b2 ! i)"
    using s b1 L tail(2) cut(1) by (auto simp: nth_list_update body_ok_def)
  then have body: "body_ok (s\<lparr>buffer := ?b2, vi_lines := vi_lines s + 1\<rparr>)"
    using s b1(2) l by (auto simp: body_ok_def in_set_conv_nth)
  have "text_lines (s\<lparr>buffer := ?b2, vi_lines := vi_lines s + 1\<rparr>) = split_at R I (text_lines s)"
  proof (rule text_linesI [OF body])
    show "length (split_at R I (text_lines s)) = nat (vi_lines (s\<lparr>buffer := ?b2, vi_lines := vi_lines s + 1\<rparr>))"
      using L s by (simp add: split_at_def length_text_lines e)
  next
    fix i
    assume i: "i < length (split_at R I (text_lines s))"
    then have i': "i < 1024" "i \<le> N" using L s by (auto simp: split_at_def length_text_lines e)
    consider "i < R" | "i = R" | "i = R + 1" | "R + 2 \<le> i" by linarith
    then show "c_str (buffer (s\<lparr>buffer := ?b2, vi_lines := vi_lines s + 1\<rparr>) ! i) = split_at R I (text_lines s) ! i"
    proof cases
      case 4
      then obtain k where k: "i = R + 2 + k" using le_Suc_ex by blast
      then show ?thesis using i' b1(2,3) L s by (simp add: split_at_def nth_append length_text_lines e nth_text_lines)
    qed (use i' b1(2,3) L s tail(3) cut(2) in \<open>simp_all add: split_at_def nth_append length_text_lines e nth_text_lines\<close>)
  qed
  then show ?thesis using run body by (auto simp: e)
qed

section \<open>Safety\<close>

text \<open>The commands that leave the arrays of the editor in some states.\<close>

definition risky_cmd :: "int \<Rightarrow> bytes \<Rightarrow> vi \<Rightarrow> bool" where
  "risky_cmd real_count cmd s \<longleftrightarrow>
     (let n = (if real_count < 1 then 1 else real_count); len = int (length (cur_line s))
      in cmd \<in> {[27, 91, 70], [36]} \<and> vi_row s + row_offset s \<ge> 1024
         \<or> cmd = [120] \<and> (vi_col s + n \<ge> 2 ^ 31 \<or> vi_col s + n \<le> len \<and> len + n > 256)
         \<or> cmd = [100, 100] \<and> vi_row s + n \<ge> 2 ^ 31
         \<or> cmd \<in> {[100, 119], [99, 119]} \<and> vi_col s \<ge> len)"

definition fine :: "vi \<Rightarrow> vi \<Rightarrow> bool" where
  "fine s s' \<longleftrightarrow> body_ok s' \<and> cursor_ok s' \<and> cmdline s' = cmdline s \<and> vi_mode s' \<in> {ModeCommand, ModeInsert, ModeCommandLine}"

definition works :: "vi \<Rightarrow> (bytes \<times> vi) option \<Rightarrow> bool" where
  "works s x \<longleftrightarrow> (\<exists>k s'. x = Some (k, s') \<and> fine s s')"

lemma works_if: "(b \<Longrightarrow> works s x) \<Longrightarrow> (\<not> b \<Longrightarrow> works s y) \<Longrightarrow> works s (if b then x else y)"
  by simp

lemma works_move:
  assumes "body_ok t" "cmdline t = cmdline s" "vi_mode t \<in> {ModeCommand, ModeInsert, ModeCommandLine}"
  shows "works s (map_option (\<lambda>s'. (keys, s')) (move_cursor r c t))"
  using move_cursor_ok [OF assms(1), of r c] assms(2,3) by (auto simp: works_def fine_def)

lemma body_mode [simp]: "body_ok (s\<lparr>vi_mode := m\<rparr>) = body_ok s" "cursor_ok (s\<lparr>vi_mode := m\<rparr>) = cursor_ok s"
  by (simp_all add: body_ok_def cursor_ok_def cur_line_def)

lemma set_row_fields [simp]: "cmdline (set_row r b s) = cmdline s" "vi_mode (set_row r b s) = vi_mode s" "vi_lines (set_row r b s) = vi_lines s"
  "vi_row (set_row r b s) = vi_row s" "vi_col (set_row r b s) = vi_col s" "row_offset (set_row r b s) = row_offset s" "want_col (set_row r b s) = want_col s"
  by (simp_all add: set_row_def)

lemma cursor_row:
  assumes "body_ok s" "cursor_ok s"
  shows "row_at s (vi_row s) = Some (buffer s ! nat (vi_row s))" "row_ok (buffer s ! nat (vi_row s))" "vi_row s < 1024" "0 \<le> vi_row s"
    "0 \<le> vi_col s" "nat (vi_col s) \<le> length (cur_line s)" "length (cur_line s) \<le> 255"
  using assms body_row [of s "vi_row s"] c_str_short by (auto simp: cursor_ok_def body_ok_def cur_line_def)

lemma cursor_set_row:
  assumes "body_ok s" "cursor_ok s" "nat (vi_col s) \<le> length (c_str b)"
  shows "cursor_ok (set_row (vi_row s) b s)"
  using assms cursor_row [OF assms(1,2)] by (auto simp: cursor_ok_def cur_line_def body_ok_def set_row_def)

lemma to_long_add:
  assumes "0 \<le> k" "k < 2 ^ 31" "0 \<le> n" "n < 2 ^ 31"
  shows "to_long (k + n) = k + n \<and> k + n < 2 ^ 31 \<or> to_long (k + n) < 0 \<and> 2 ^ 31 \<le> k + n"
proof (cases "k + n < 2 ^ 31")
  case True
  then show ?thesis using assms by (simp add: to_long_id)
next
  case False
  then have "to_long (k + n) \<le> k + n - 2 ^ Suc 31" using signed_take_bit_int_less_eq [of 31 "k + n"] unfolding to_long_def by linarith
  then show ?thesis using assms False by simp
qed

lemma replaced_row:
  assumes "row_ok b" "i + n \<le> length (c_str b)" "0 < n"
  shows "row_ok (take i b @ replicate n c @ drop (i + n) b) \<and> i \<le> length (c_str (take i b @ replicate n c @ drop (i + n) b))"
proof (cases "c = 0")
  case False
  then show ?thesis using c_str_replace [OF assms(1,2) False] assms(2) by simp
next
  case True
  have len: "length b = 256" using assms(1) by (simp add: row_ok_def)
  have t: "take i b = take i (c_str b)" using assms by (simp add: c_str_take)
  obtain m where m: "n = Suc m" using assms(3) by (cases n) auto
  then have e: "take i b @ replicate n c @ drop (i + n) b = take i (c_str b) @ 0 # (replicate m 0 @ drop (i + n) b)" using True t by simp
  have "0 \<notin> set (take i (c_str b))" by (auto dest: in_set_takeD)
  then show ?thesis
    using row_okI [OF _ e] c_str_append e len assms(2) c_str_short [OF assms(1)] m by auto
qed

lemma works_replace:
  assumes "body_ok s" "cursor_ok s" "0 < n" "n < 2 ^ 31"
  shows "works s (map_option (\<lambda>(k, s'). (k, s'\<lparr>vi_mode := ModeCommand\<rparr>)) (replace_char n keys (s\<lparr>vi_mode := ModeReplaceChar\<rparr>)))"
proof (cases keys)
  case Nil
  then show ?thesis using assms by (simp add: replace_char_def works_def fine_def)
next
  case (Cons c rest)
  note r = cursor_row [OF assms(1,2)]
  let ?s = "s\<lparr>vi_mode := ModeReplaceChar\<rparr>"
  let ?b = "buffer s ! nat (vi_row s)" and ?i = "nat (vi_col s)" and ?e = "to_long (vi_col s + n)"
  let ?new = "take ?i ?b @ replicate (nat ?e - ?i) c @ drop (max ?i (nat ?e)) ?b"
  have run: "replace_char n keys ?s = Some (rest, if ?e \<le> int (length (cur_line s)) then set_row (vi_row s) ?new ?s else ?s)"
    using r Cons by (simp add: replace_char_def row_at_def cur_line_def Let_def split: if_splits)
  have "row_ok ?new \<and> ?i \<le> length (c_str ?new)" if "?e \<le> int (length (cur_line s))"
  proof -
    consider "?e < 0" | "?e = vi_col s + n" using to_long_add [of "vi_col s" n] r assms(3,4) by fastforce
    then show ?thesis
    proof cases
      case 1
      then have "?new = ?b" by (simp add: max_def)
      then show ?thesis using r by (simp add: cur_line_def)
    next
      case 2
      have m: "nat ?e = ?i + nat n" "max ?i (nat ?e) = ?i + nat n" "nat ?e - ?i = nat n" using 2 r(5) assms(3) by (auto simp: nat_add_distrib)
      have "?i + nat n \<le> length (c_str ?b)" using that 2 r(5) assms(3) by (simp add: cur_line_def)
      then show ?thesis using replaced_row [OF r(2), of ?i "nat n" c] assms(3) unfolding m by simp
    qed
  qed
  then show ?thesis
    using run assms(1,2) r set_row_body(1) [of ?s "vi_row s" ?new] cursor_set_row [of ?s ?new]
    by (auto simp: works_def fine_def)
qed

lemma works_delete:
  assumes "body_ok s" "cursor_ok s" "vi_mode s = ModeCommand" "0 < n" "vi_col s + n < 2 ^ 31"
    "vi_col s + n \<le> int (length (cur_line s)) \<Longrightarrow> int (length (cur_line s)) + n \<le> 256"
  shows "works s (map_option (\<lambda>s'. (keys, s')) (Option.bind (row_at s (vi_row s)) (\<lambda>b. Option.bind (row_len b) (\<lambda>k.
     let e = to_long (vi_col s + n) in if e \<le> int k then
       Option.bind (row_len (drop (nat (vi_col s)) b)) (\<lambda>m.
       Option.bind (row_move (vi_col s) e m b) (\<lambda>b'. move_cursor (vi_row s) (vi_col s) (set_row (vi_row s) b' s))) else Some s))))"
proof -
  note r = cursor_row [OF assms(1,2)]
  let ?b = "buffer s ! nat (vi_row s)" and ?i = "nat (vi_col s)"
  have e: "to_long (vi_col s + n) = vi_col s + n" using assms(4,5) r by (simp add: to_long_id)
  show ?thesis
  proof (cases "vi_col s + n \<le> int (length (cur_line s))")
    case True
    have "?i + nat n \<le> length (c_str ?b)" "length (c_str ?b) + nat n \<le> 256" "0 < nat n"
      using True assms(4,6) r(5) by (auto simp: cur_line_def)
    from c_str_delete [OF r(2) this] obtain m b' where
      "row_len (drop ?i ?b) = Some m" "row_move (vi_col s) (vi_col s + n) m ?b = Some b'" "row_ok b'"
      using r(5) assms(4) by auto
    then show ?thesis
      using True works_move [OF set_row_body(1) [OF assms(1) r(4,3)], of b' s] r e assms(3) by (simp add: Let_def cur_line_def)
  next
    case False
    then show ?thesis using r e assms(1-3) by (simp add: Let_def cur_line_def works_def fine_def)
  qed
qed

lemma save_ok: "body_ok s \<Longrightarrow> \<exists>c. save s = Some (s\<lparr>contents := c\<rparr>)"
proof -
  assume s: "body_ok s"
  have "\<not> (\<exists>l<nat (vi_lines s). l \<ge> length (buffer s) \<or> 0 \<notin> set (buffer s ! l))"
    using s by (force simp: body_ok_def row_ok_def)
  moreover have "s = s\<lparr>contents := contents s\<rparr>" by simp
  ultimately show ?thesis unfolding save_def by metis
qed

lemma works_save:
  "body_ok s \<Longrightarrow> cursor_ok s \<Longrightarrow> vi_mode s = ModeCommand \<Longrightarrow> works s (map_option (\<lambda>s'. (keys, s')) (map_option quit (save s)))"
  using save_ok [of s] by (auto simp: works_def fine_def quit_def body_ok_def cursor_ok_def cur_line_def)

lemma works_end:
  assumes "body_ok s" "cursor_ok s" "vi_mode s = ModeCommand" "vi_row s + row_offset s < 1024"
  shows "works s (map_option (\<lambda>s'. (keys, s')) (Option.bind (row_at s (vi_row s + row_offset s)) (\<lambda>b.
     Option.bind (row_len b) (\<lambda>n. move_cursor (vi_row s) (if n > 0 then int n - 1 else 0) s))))"
proof -
  have "0 \<le> vi_row s + row_offset s" using assms(1,2) by (auto simp: body_ok_def cursor_ok_def)
  from body_row [OF assms(1) this assms(4)] show ?thesis using works_move [of s s keys] assms by simp
qed

lemma works_lines:
  assumes "body_ok s" "cursor_ok s" "vi_mode s = ModeCommand" "0 < n" "vi_row s + n < 2 ^ 31"
  shows "works s (map_option (\<lambda>s'. (keys, s')) (Option.bind (delete_lines (vi_row s) n s) (move_cursor (vi_row s) (vi_col s))))"
proof -
  have r: "vi_row s = int (nat (vi_row s))" "nat (vi_row s) < nat (vi_lines s)" "n = int (nat n)" using assms by (auto simp: cursor_ok_def)
  obtain b l where "delete_lines (vi_row s) n s = Some (s\<lparr>buffer := b, vi_lines := l\<rparr>)" "body_ok (s\<lparr>buffer := b, vi_lines := l\<rparr>)"
    using delete_lines_run [OF assms(1) r(2), of "nat n"] r assms(4,5) by (metis zero_less_nat_eq)
  then show ?thesis using works_move [of "s\<lparr>buffer := b, vi_lines := l\<rparr>" s] assms(3) by simp
qed

lemma works_word:
  assumes "body_ok s" "cursor_ok s" "vi_mode s = ModeCommand" "vi_col s < int (length (cur_line s))"
    and m: "m \<in> {ModeCommand, ModeInsert}"
  shows "works s (map_option (\<lambda>s'. (keys, s')) (Option.bind (delete_word (vi_row s) (vi_col s) w s) (\<lambda>s'. move_cursor (vi_row s) (vi_col s) (s'\<lparr>vi_mode := m\<rparr>))))"
proof -
  note r = cursor_row [OF assms(1,2)]
  obtain b where "delete_word (vi_row s) (vi_col s) w s = Some (set_row (vi_row s) b s)" "row_ok b"
    using delete_word_row [OF assms(1,2), of w] assms(4) r by (auto simp: nat_less_iff)
  then show ?thesis using works_move [of "set_row (vi_row s) b s\<lparr>vi_mode := m\<rparr>" s] set_row_body(1) [OF assms(1) r(4,3)] assms(3) m by auto
qed

lemma run_command_ok:
  assumes "body_ok s" "cursor_ok s" "vi_mode s = ModeCommand" "real_count < 2 ^ 31" "\<not> risky_cmd real_count cmd s"
  shows "works s (run_command real_count cmd keys s)"
proof -
  note ok = assms(1-3)
  have stay: "works s (map_option (\<lambda>s'. (keys, s')) (Some t))" if "fine s t" for t using that by (simp add: works_def)
  have fine: "fine s s" "fine s (s\<lparr>vi_mode := ModeInsert\<rparr>)" "fine s (s\<lparr>vi_mode := ModeCommandLine\<rparr>)" using ok by (simp_all add: fine_def)
  have mv: "works s (map_option (\<lambda>s'. (keys, s')) (move_cursor r c s))" "works s (map_option (\<lambda>s'. (keys, s')) (move_cursor r c (s\<lparr>vi_mode := ModeInsert\<rparr>)))" for r c
    using ok by (simp_all add: works_move)
  have dw: "works s (map_option (\<lambda>s'. (keys, s')) (Option.bind (delete_word (vi_row s) (vi_col s) True s) (move_cursor (vi_row s) (vi_col s))))"
    if col: "vi_col s < int (length (cur_line s))"
  proof -
    obtain b where "delete_word (vi_row s) (vi_col s) True s = Some (set_row (vi_row s) b s)"
      using delete_word_row [OF ok(1,2), of True] col cursor_row(5) [OF ok(1,2)] by (auto simp: nat_less_iff)
    moreover have "set_row (vi_row s) b s\<lparr>vi_mode := ModeCommand\<rparr> = set_row (vi_row s) b s" using ok(3) by (cases s) (simp add: set_row_def)
    ultimately show ?thesis using works_word [OF ok col, of ModeCommand keys True] by simp
  qed
  define n where "n = (if real_count < 1 then 1 else real_count)"
  have n: "0 < n" "n < 2 ^ 31" using assms(4) by (auto simp: n_def)
  have risk: "cmd = [27, 91, 70] \<or> cmd = [36] \<Longrightarrow> vi_row s + row_offset s < 1024" "cmd = [100, 100] \<Longrightarrow> vi_row s + n < 2 ^ 31"
    "cmd = [120] \<Longrightarrow> vi_col s + n < 2 ^ 31" "cmd = [120] \<Longrightarrow> vi_col s + n \<le> int (length (cur_line s)) \<Longrightarrow> int (length (cur_line s)) + n \<le> 256"
    "cmd = [100, 119] \<Longrightarrow> vi_col s < int (length (cur_line s))" "cmd = [99, 119] \<Longrightarrow> vi_col s < int (length (cur_line s))"
    using assms(5) by (auto simp: risky_cmd_def Let_def n_def [symmetric])
  show ?thesis
    unfolding run_command_def Let_def n_def [symmetric]
    by (rule works_if, rule stay, rule fine(2), rule works_if, rule mv(2), rule works_if, rule works_replace [OF ok(1,2) n],
        rule works_if, rule mv(1), rule works_if, rule mv(1), rule works_if, rule mv(1), rule works_if, rule mv(1), rule works_if, rule mv(1),
        rule works_if, rule mv(1), rule works_if, rule mv(1), rule works_if, rule works_end [OF ok], erule risk(1),
        rule works_if, rule works_delete [OF ok n(1), unfolded Let_def], erule risk(3), erule risk(4), assumption,
        rule works_if, rule works_save [OF ok], rule works_if, rule works_lines [OF ok n(1)], erule risk(2),
        rule works_if, rule dw, erule risk(5), rule works_if, rule works_word [OF ok], erule risk(6), simp,
        rule works_if, rule mv(1), rule works_if, rule stay, rule fine(3), rule stay, rule fine(1))
qed

text \<open>The rows that \<open>fgets\<close> makes of a file.\<close>

function file_rows :: "bytes \<Rightarrow> bytes list" where
  "file_rows text = (if text = [] then [] else take_line 255 text # file_rows (drop (length (take_line 255 text)) text))"
  by pat_completeness auto
termination
  by (relation "measure length") (auto simp: neq_Nil_conv)

declare file_rows.simps [simp del] load_loop.simps [simp del] take_line_numeral [simp del]

lemma take_line_length: "length (take_line n xs) \<le> n"
  by (induction n xs rule: take_line.induct) auto

lemma take_line_set: "set (take_line n xs) \<subseteq> set xs"
  by (induction n xs rule: take_line.induct) auto

definition strip_nl :: "bytes \<Rightarrow> bytes" where
  "strip_nl l = (if l \<noteq> [] \<and> last l = 10 then butlast l else l)"

definition loaded_row :: "bytes \<Rightarrow> bytes \<Rightarrow> bytes" where
  "loaded_row l old =
     (let r = l @ 0 # drop (length l + 1) old; len = length (c_str r)
      in if len > 0 \<and> r ! (len - 1) = 10 then r[len - 1 := 0] else r)"

lemma loaded_row_ok:
  assumes "length l \<le> 255" "length old = 256"
  shows "row_ok (loaded_row l old)" "0 \<notin> set l \<Longrightarrow> c_str (loaded_row l old) = strip_nl l"
proof -
  let ?r = "l @ 0 # drop (length l + 1) old"
  have r: "row_ok ?r" using assms by (simp add: row_ok_def)
  show "row_ok (loaded_row l old)"
    using c_str_cut(1) [OF r, of "length (c_str ?r) - 1"] r by (simp add: loaded_row_def Let_def)
  show "c_str (loaded_row l old) = strip_nl l" if z: "0 \<notin> set l"
  proof -
    have e: "c_str ?r = l" using z by simp
    have cut: "c_str (?r[length l - 1 := 0]) = take (length l - 1) l" using c_str_cut(2) [OF r, of "length l - 1", unfolded e] by simp
    have nth: "l \<noteq> [] \<Longrightarrow> ?r ! (length l - 1) = last l" by (simp add: nth_append last_conv_nth)
    show ?thesis
      unfolding loaded_row_def Let_def e using cut nth e
      by (cases "l \<noteq> [] \<and> last l = 10") (auto simp: strip_nl_def butlast_conv_take)
  qed
qed

lemma load_loop_step:
  "tx \<noteq> [] \<Longrightarrow> n < length b \<Longrightarrow>
   load_loop tx n b = load_loop (drop (length (take_line 255 tx)) tx) (n + 1) (b[n := loaded_row (take_line 255 tx) (b ! n)])"
  by (subst load_loop.simps) (simp add: loaded_row_def Let_def)

lemma take_line_progress: "tx \<noteq> [] \<Longrightarrow> length (drop (length (take_line 255 tx)) tx) < length tx"
  by (cases tx) (simp_all add: take_line_numeral)

lemma load_loop_rows:
  assumes "n + length (file_rows tx) \<le> length b" "\<forall>r\<in>set b. row_ok r"
  shows "\<exists>b'. load_loop tx n b = Some (n + length (file_rows tx), b') \<and> length b' = length b \<and> (\<forall>r\<in>set b'. row_ok r)
    \<and> take n b' = take n b \<and> (0 \<notin> set tx \<longrightarrow> map c_str (take (length (file_rows tx)) (drop n b')) = map strip_nl (file_rows tx))"
  using assms
proof (induction tx arbitrary: n b rule: length_induct)
  case (1 tx)
  show ?case
  proof (cases "tx = []")
    case True
    then show ?thesis using "1.prems" by (simp add: load_loop.simps file_rows.simps)
  next
    case False
    let ?l = "take_line 255 tx" and ?tx = "drop (length (take_line 255 tx)) tx"
    have rows: "file_rows tx = ?l # file_rows ?tx" using False by (simp add: file_rows.simps [of tx])
    have n: "n < length b" using "1.prems"(1) rows by simp
    let ?r = "loaded_row ?l (b ! n)"
    have old: "length (b ! n) = 256" using "1.prems"(2) n by (simp add: row_ok_def)
    note r = loaded_row_ok [OF take_line_length [of 255 tx] old]
    have "\<forall>x\<in>set (b[n := ?r]). row_ok x" using "1.prems"(2) r(1) by (auto dest!: set_update_subset_insert [THEN subsetD])
    then obtain b' where b': "load_loop ?tx (n + 1) (b[n := ?r]) = Some (n + 1 + length (file_rows ?tx), b')" "length b' = length b"
      "\<forall>r\<in>set b'. row_ok r" "take (n + 1) b' = take (n + 1) (b[n := ?r])"
      "0 \<notin> set ?tx \<longrightarrow> map c_str (take (length (file_rows ?tx)) (drop (n + 1) b')) = map strip_nl (file_rows ?tx)"
      using "1.IH" [rule_format, OF take_line_progress [OF False], of "n + 1" "b[n := ?r]"] "1.prems"(1) rows by auto
    have run: "load_loop tx n b = Some (n + length (file_rows tx), b')"
      using b'(1) rows by (simp add: load_loop_step [OF False n])
    have nth: "b' ! n = ?r" using b'(4) n b'(2) by (metis length_list_update less_add_one nth_list_update_eq nth_take)
    have "take n b' = take n b" using arg_cong [OF b'(4), of "take n"] by simp
    moreover have "map c_str (take (length (file_rows tx)) (drop n b')) = map strip_nl (file_rows tx)" if z: "0 \<notin> set tx"
    proof -
      have "set ?l \<subseteq> set tx" "0 \<notin> set ?tx" using z by (auto dest: in_set_dropD intro: take_line_set [THEN subsetD])
      then have "c_str ?r = strip_nl ?l" using r(2) z by blast
      then show ?thesis using b'(5) \<open>0 \<notin> set ?tx\<close> n b'(2) rows nth by (simp add: Cons_nth_drop_Suc [symmetric, of n b'])
    qed
    ultimately show ?thesis using run b'(2,3) by blast
  qed
qed

definition rows_ok :: "vi \<Rightarrow> bool" where
  "rows_ok s \<longleftrightarrow> length (buffer s) = MAX_ROWS \<and> (\<forall>b\<in>set (buffer s). row_ok b) \<and> 0 \<le> row_offset s"

lemma body_rows: "body_ok s \<longleftrightarrow> rows_ok s \<and> 1 \<le> vi_lines s \<and> vi_lines s \<le> 1024"
  by (auto simp: body_ok_def rows_ok_def)

definition fits :: "bytes option \<Rightarrow> bool" where
  "fits f = (case f of None \<Rightarrow> True | Some tx \<Rightarrow> length (file_rows tx) \<le> MAX_ROWS)"

lemma load_file_run:
  assumes "rows_ok s" "length name < 256" "fits (contents s name)"
  shows "\<exists>b l. load_file name s = Some (s\<lparr>filename := name, buffer := b, vi_lines := l\<rparr>) \<and> body_ok (s\<lparr>filename := name, buffer := b, vi_lines := l\<rparr>)
    \<and> (\<forall>tx. contents s name = Some tx \<longrightarrow> tx \<noteq> [] \<longrightarrow> 0 \<notin> set tx \<longrightarrow>
        text_lines (s\<lparr>filename := name, buffer := b, vi_lines := l\<rparr>) = map strip_nl (file_rows tx))"
proof (cases "contents s name")
  case None
  then have "load_file name s = Some (s\<lparr>filename := name, buffer := buffer s, vi_lines := 1\<rparr>)" using assms(2) by (simp add: load_file_def)
  moreover have "body_ok (s\<lparr>filename := name, buffer := buffer s, vi_lines := 1\<rparr>)" using assms(1) by (simp add: body_rows rows_ok_def)
  ultimately show ?thesis using None by (intro exI [of _ "buffer s"] exI [of _ 1]) simp
next
  case (Some tx)
  let ?n = "length (file_rows tx)"
  have rows: "length (buffer s) = 1024" "\<forall>b\<in>set (buffer s). row_ok b" using assms(1) by (auto simp: rows_ok_def)
  have n: "?n \<le> 1024" using assms(3) Some by (simp add: fits_def)
  obtain b where b: "load_loop tx 0 (buffer s) = Some (?n, b)" "length b = 1024" "\<forall>r\<in>set b. row_ok r"
    "0 \<notin> set tx \<longrightarrow> map c_str (take ?n b) = map strip_nl (file_rows tx)"
    using load_loop_rows [of 0 tx "buffer s"] n rows by auto
  let ?l = "if ?n = 0 then 1 else int ?n"
  have "load_file name s = Some (s\<lparr>filename := name, buffer := b, vi_lines := ?l\<rparr>)" using assms(2) Some b(1) by (simp add: load_file_def)
  moreover have "body_ok (s\<lparr>filename := name, buffer := b, vi_lines := ?l\<rparr>)" using assms(1) b n by (auto simp: body_rows rows_ok_def Suc_le_eq)
  moreover have "tx \<noteq> [] \<Longrightarrow> ?n \<noteq> 0" by (simp add: file_rows.simps)
  ultimately show ?thesis using Some b(4) by (intro exI [of _ b] exI [of _ ?l]) (auto simp: text_lines_def)
qed

text \<open>The keys that leave the arrays of the editor.\<close>

definition risky :: "u8 \<Rightarrow> vi \<Rightarrow> bool" where
  "risky c s =
     (case vi_mode s of
        ModeInsert \<Rightarrow>
          c = 10 \<and> vi_lines s \<ge> int MAX_ROWS
          \<or> c \<noteq> 10 \<and> c \<noteq> 27 \<and> \<not> (c = 127 \<and> vi_col s > 0) \<and> length (cur_line s) \<ge> MAX_COLS - 1
      | ModeCommandLine \<Rightarrow>
          isprint (sint c) \<and> length (cmdline s) \<ge> 255
          \<or> (c = 10 \<or> c = 13) \<and> take 2 (cmdline s) = [114, 32] \<and> \<not> fits (contents s (drop 2 (cmdline s)))
      | ModeCommand \<Rightarrow> risky_cmd (vi_count s) (vi_cmd s @ [c]) s
      | _ \<Rightarrow> False)"

lemma moved_good:
  assumes "body_ok t" "keys_ok t"
  shows "\<exists>s'. move_cursor r c t = Some s' \<and> good s'"
  using move_cursor_ok [OF assms(1), of r c] assms(2) by (auto simp: good_def keys_ok_def)

lemma insert_good:
  assumes "good s" "vi_mode s = ModeInsert" "c \<noteq> 0" "\<not> risky c s"
  shows "\<exists>s'. insert_mode_input c s = Some s' \<and> good s'"
proof -
  have s: "body_ok s" "cursor_ok s" "keys_ok s" using assms(1) by (auto simp: good_def)
  note r = cursor_row [OF s(1,2)]
  let ?b = "buffer s ! nat (vi_row s)"
  consider "c = 27" | "c = 127" "vi_col s > 0" | "c = 10" | "c \<noteq> 10" "c \<noteq> 27" "\<not> (c = 127 \<and> vi_col s > 0)" by blast
  then show ?thesis
  proof cases
    case 1
    have "keys_ok (s\<lparr>vi_mode := ModeCommand\<rparr>)" using s(3) by (simp add: keys_ok_def)
    then show ?thesis using 1 moved_good [of "s\<lparr>vi_mode := ModeCommand\<rparr>"] s(1) by (simp add: insert_mode_input_def)
  next
    case 2
    let ?new = "?b[nat (vi_col s - 1) := 0]"
    have i: "nat (vi_col s - 1) \<le> length (c_str ?b)" "nat (vi_col s - 1) < 256" "length ?b = 256" using 2 r by (auto simp: cur_line_def row_ok_def)
    have "body_ok (set_row (vi_row s) ?new s)" using set_row_body(1) [OF s(1) r(4,3)] c_str_cut(1) [OF r(2) i(1)] by simp
    moreover have "keys_ok (set_row (vi_row s) ?new s)" using s(3) by (simp add: keys_ok_def set_row_def)
    ultimately show ?thesis using 2 moved_good [of "set_row (vi_row s) ?new s"] r(1) i by (simp add: insert_mode_input_def)
  next
    case 3
    then have "vi_lines s < 1024" using assms(2,4) by (simp add: risky_def)
    then obtain b where "split_line s = Some (s\<lparr>buffer := b, vi_lines := vi_lines s + 1\<rparr>)" "body_ok (s\<lparr>buffer := b, vi_lines := vi_lines s + 1\<rparr>)"
      using split_line_run [OF s(1,2)] by auto
    then show ?thesis using 3 moved_good [of "s\<lparr>buffer := b, vi_lines := vi_lines s + 1\<rparr>"] s(3) by (simp add: insert_mode_input_def keys_ok_def)
  next
    case 4
    then have "length (c_str ?b) < 255" using assms(2,4) by (auto simp: risky_def cur_line_def)
    from c_str_insert [OF r(2) r(6) [unfolded cur_line_def] this assms(3)] r(5) obtain b' where
      b': "row_move (vi_col s + 1) (vi_col s) (256 - nat (vi_col s) - 1) ?b = Some b'" "row_ok (b'[nat (vi_col s) := c])" by auto
    let ?t = "set_row (vi_row s) (b'[nat (vi_col s) := c]) s\<lparr>vi_col := vi_col s + 1\<rparr>"
    have "body_ok ?t" using set_row_body(1) [OF s(1) r(4,3) b'(2)] by (simp add: body_ok_def)
    moreover have "keys_ok ?t" using s(3) by (simp add: keys_ok_def set_row_def)
    ultimately show ?thesis using 4 moved_good [of ?t] b'(1) r(1) by (auto simp: insert_mode_input_def Let_def)
  qed
qed

lemma isprint_range: "c = 10 \<or> c = 13 \<or> c = 27 \<or> c = 127 \<Longrightarrow> \<not> isprint (sint (c :: u8))"
  by (auto simp: isprint_def)

lemma saved_good: "good s \<Longrightarrow> \<exists>s'. save s = Some s' \<and> good s' \<and> cmdline s' = cmdline s"
  using save_ok [of s] by (auto simp: good_def body_ok_def cursor_ok_def cur_line_def keys_ok_def)

lemma commandline_good:
  assumes "good s" "vi_mode s = ModeCommandLine" "\<not> risky c s"
  shows "\<exists>s'. commandline_mode_input c s = Some s' \<and> good s'"
proof -
  have s: "body_ok s" "cursor_ok s" "keys_ok s" using assms(1) by (auto simp: good_def)
  have reset: "good (t\<lparr>cmdline := [], vi_mode := ModeCommand\<rparr>)" if "good t" for t
    using that by (auto simp: good_def body_ok_def cursor_ok_def cur_line_def keys_ok_def)
  have q: "good (quit t)" if "good t" for t using that by (simp add: quit_def good_def body_ok_def cursor_ok_def cur_line_def keys_ok_def)
  have named: "good (s\<lparr>filename := f\<rparr>)" for f using assms(1) by (simp add: good_def body_ok_def cursor_ok_def cur_line_def keys_ok_def)
  have len: "length (cmdline s) \<le> 255" using s(3) by (simp add: keys_ok_def)
  have load: "\<exists>t. Option.bind (load_file (drop 2 (cmdline s)) s) (move_cursor 0 0) = Some t \<and> good t" if "fits (contents s (drop 2 (cmdline s)))"
  proof -
    have rows: "rows_ok s" and nm: "length (drop 2 (cmdline s)) < 256" using s(1) len by (simp_all add: body_rows)
    from load_file_run [OF rows nm that] obtain b l where
      l: "load_file (drop 2 (cmdline s)) s = Some (s\<lparr>filename := drop 2 (cmdline s), buffer := b, vi_lines := l\<rparr>)"
      "body_ok (s\<lparr>filename := drop 2 (cmdline s), buffer := b, vi_lines := l\<rparr>)" by auto
    moreover have "keys_ok (s\<lparr>filename := drop 2 (cmdline s), buffer := b, vi_lines := l\<rparr>)" using s(3) by (simp add: keys_ok_def)
    ultimately show ?thesis using moved_good by simp
  qed
  show ?thesis
  proof (cases "c = 10 \<or> c = 13")
    case True
    have fit: "take 2 (cmdline s) = [114, 32] \<Longrightarrow> fits (contents s (drop 2 (cmdline s)))" using assms(2,3) True by (auto simp: risky_def)
    let ?G = "\<lambda>x. \<exists>t. x = Some t \<and> good t"
    have if_: "?G (if b then x else y)" if "b \<Longrightarrow> ?G x" "\<not> b \<Longrightarrow> ?G y" for b x y using that by simp
    obtain sv where sv: "save s = Some sv" "good sv" using saved_good [OF assms(1)] by blast
    have g: "?G (Some s)" "?G (Some (quit s))" "?G (save s)" "?G (map_option quit (save s))"
      using assms(1) q [OF assms(1)] sv q [OF sv(2)] by simp_all
    have "length (drop 2 (cmdline s)) < 256" using len by simp
    then have as': "?G (save_as (drop 2 (cmdline s)) s)"
      using saved_good [OF named, of "drop 2 (cmdline s)"] unfolding save_as_def by (metis not_le)
    have "?G (run_commandline (cmdline s) s)"
      unfolding run_commandline_def
      by (rule if_, rule g(1), rule if_, rule load, erule fit, rule if_, rule g(4), rule if_, rule g(3), rule if_, rule as', rule if_, rule g(2), rule g(1))
    then show ?thesis using True len reset by (auto simp: commandline_mode_input_def)
  next
    case False
    have g: "good (s\<lparr>vi_mode := ModeCommand, cmdline := []\<rparr>)" "length l \<le> 255 \<Longrightarrow> good (s\<lparr>cmdline := l\<rparr>)" for l
      using assms(1) by (auto simp: good_def body_ok_def cursor_ok_def cur_line_def keys_ok_def)
    have "isprint (sint c) \<Longrightarrow> length (cmdline s) \<le> 254" using assms(2,3) by (auto simp: risky_def)
    then show ?thesis using False g(1) g(2) [of "butlast (cmdline s)"] g(2) [of "cmdline s @ [c]"] len assms(1) by (simp add: commandline_mode_input_def)
  qed
qed

lemma no_zero_cmd: "keys_ok s \<Longrightarrow> c \<noteq> 0 \<Longrightarrow> c_str (vi_cmd s @ [c]) = vi_cmd s @ [c]"
  by (auto simp: keys_ok_def prefix_cmds_def c_str_def)

lemma to_long_range: "- (2 ^ 31) \<le> to_long n \<and> to_long n < 2 ^ 31"
  unfolding to_long_def using signed_take_bit_int_greater_eq_minus_exp [of 31 n] signed_take_bit_int_less_exp [of 31 n] by simp

lemma command_good:
  assumes "good s" "vi_mode s = ModeCommand" "c \<noteq> 0" "\<not> risky c s"
  shows "\<exists>k s'. command_mode_input c keys s = Some (k, s') \<and> good s'"
proof -
  have s: "body_ok s" "cursor_ok s" "keys_ok s" using assms(1) by (auto simp: good_def)
  have upd: "good (s\<lparr>vi_count := to_long n\<rparr>)" "l \<in> set prefix_cmds \<Longrightarrow> good (s\<lparr>vi_cmd := l\<rparr>)" for n l
    using assms(1) to_long_range [of n] by (auto simp: good_def body_ok_def cursor_ok_def cur_line_def keys_ok_def)
  have reset: "good (t\<lparr>vi_cmd := [], vi_count := 0\<rparr>)" if "fine s t" for t
    using that s(3) by (auto simp: fine_def good_def body_ok_def cursor_ok_def cur_line_def keys_ok_def)
  have len: "length (vi_cmd s) < 8" using s(3) by (auto simp: keys_ok_def prefix_cmds_def)
  have "works s (run_command (vi_count s) (vi_cmd s @ [c]) keys s)"
    using run_command_ok [OF s(1,2) assms(2)] s(3) assms(2,4) by (simp add: keys_ok_def risky_def)
  then show ?thesis
    using upd reset len no_zero_cmd [OF s(3) assms(3)] by (auto simp: command_mode_input_def works_def Let_def)
qed

lemma step_good:
  assumes "good s" "c \<noteq> 0" "\<not> risky c s"
  shows "\<exists>k s'. process_input c keys s = Some (k, s') \<and> good s'"
proof -
  have "vi_mode s \<in> {ModeCommand, ModeInsert, ModeCommandLine}" using assms(1) by (cases "vi_mode s") (auto simp: good_def keys_ok_def)
  then show ?thesis
    using insert_good [of s c] commandline_good [of s c] command_good [of s c keys] assms by (auto simp: process_input_def)
qed

lemma start_good:
  assumes "length name < 256" "fits (fs name)"
  shows "\<exists>b l. load_file name (vi_start fs wr) = Some (vi_start fs wr\<lparr>filename := name, buffer := b, vi_lines := l\<rparr>)
    \<and> good (vi_start fs wr\<lparr>filename := name, buffer := b, vi_lines := l\<rparr>)
    \<and> (\<forall>tx. fs name = Some tx \<longrightarrow> tx \<noteq> [] \<longrightarrow> 0 \<notin> set tx \<longrightarrow>
        text_lines (vi_start fs wr\<lparr>filename := name, buffer := b, vi_lines := l\<rparr>) = map strip_nl (file_rows tx))"
proof -
  have "rows_ok (vi_start fs wr)" "contents (vi_start fs wr) = fs" using row_ok_zero by (simp_all add: rows_ok_def vi_start_def)
  with load_file_run [of "vi_start fs wr" name] assms obtain b l where
    "load_file name (vi_start fs wr) = Some (vi_start fs wr\<lparr>filename := name, buffer := b, vi_lines := l\<rparr>)"
    "body_ok (vi_start fs wr\<lparr>filename := name, buffer := b, vi_lines := l\<rparr>)"
    "\<forall>tx. fs name = Some tx \<longrightarrow> tx \<noteq> [] \<longrightarrow> 0 \<notin> set tx \<longrightarrow>
        text_lines (vi_start fs wr\<lparr>filename := name, buffer := b, vi_lines := l\<rparr>) = map strip_nl (file_rows tx)" by auto
  moreover from this(2) have "good (vi_start fs wr\<lparr>filename := name, buffer := b, vi_lines := l\<rparr>)"
    by (auto simp: good_def cursor_ok_def body_ok_def keys_ok_def vi_start_def)
  ultimately show ?thesis by blast
qed

text \<open>No key of the input is risky when it is processed.\<close>

function calm :: "bytes \<Rightarrow> vi \<Rightarrow> bool" where
  "calm [] s = True"
| "calm (c # keys) s =
     (\<not> running s \<or> c \<noteq> 0 \<and> \<not> risky c s \<and> (case process_input c keys s of None \<Rightarrow> True | Some (keys', s') \<Rightarrow> calm keys' s'))"
  by pat_completeness auto
termination
  by (relation "measure (\<lambda>(keys, s). length keys)") (auto dest: process_input_rest simp: less_Suc_eq_le)

lemma calm_run: "good s \<Longrightarrow> calm keys s \<Longrightarrow> \<exists>s'. vi_run keys s = Some s' \<and> good s'"
proof (induction keys s rule: vi_run.induct)
  case (2 c keys s)
  show ?case
  proof (cases "running s")
    case True
    then obtain k s' where k: "process_input c keys s = Some (k, s')" "good s'" using step_good [OF "2.prems"(1), of c keys] "2.prems"(2) by auto
    then show ?thesis using "2.IH" [OF _ k(1) refl k(2)] "2.prems"(2) True by simp
  qed (use "2.prems" in simp)
qed simp

text \<open>
  C15: The editor stays within its arrays.  Whatever keys are typed, it ends with a good state: all rows of the buffer end
  with a terminator, there is at least one line, the cursor is on a character or behind the last one of a line of the text,
  and the window shows its line.  This holds for every file of at most 1024 rows, as long as no key is risky: text
  beyond 254 characters in a line, beyond 1024 lines or beyond 255 characters of a command line, deletion of more
  characters than fit behind the line in its row, the end key where the window is scrolled down by half of the buffer, and
  deletion of a word in an empty line.
\<close>

theorem vi_safe:
  assumes "length name < 256" "fits (fs name)" "\<And>s. load_file name (vi_start fs wr) = Some s \<Longrightarrow> calm keys s"
  shows "\<exists>s. vi_main (Some name) keys fs wr = Some s \<and> good s"
proof -
  obtain s where "load_file name (vi_start fs wr) = Some s" "good s" using start_good [of name fs wr] assms(1,2) by blast
  then show ?thesis using calm_run [OF _ assms(3)] by (simp add: vi_main_def)
qed

theorem vi_safe_witness:
  "\<exists>s. vi_main (Some [102]) [58, 113, 10] (\<lambda>_. None) (\<lambda>_. True) = Some s \<and> good s"
proof (rule vi_safe)
  fix s
  assume "load_file [102] (vi_start (\<lambda>_. None) (\<lambda>_. True)) = Some s"
  then have s: "vi_mode s = ModeCommand" "vi_cmd s = []" "vi_count s = 0" "running s" "cmdline s = []"
    by (auto simp: load_file_def vi_start_def)
  show "calm [58, 113, 10] s"
    using s by (simp add: risky_def risky_cmd_def process_input_def command_mode_input_def c_str_def prefix_cmds_def run_command_def
        left_keys_def right_keys_def up_keys_def down_keys_def commandline_mode_input_def isprint_def run_commandline_def quit_def)
qed (simp_all add: fits_def)

lemma cur_line_text: "body_ok s \<Longrightarrow> cursor_ok s \<Longrightarrow> nat (vi_row s) < length (text_lines s) \<and> text_lines s ! nat (vi_row s) = cur_line s"
  by (auto simp: cursor_ok_def length_text_lines nth_text_lines cur_line_def)

section \<open>Commands\<close>

text \<open>
  What a command does to the lines \<open>t\<close> of the text with the cursor at column \<open>i\<close> of line \<open>r\<close>.  Commands that only move the
  cursor leave the text alone.
\<close>

definition edit_text :: "bytes \<Rightarrow> nat \<Rightarrow> bytes \<Rightarrow> nat \<Rightarrow> nat \<Rightarrow> bytes list \<Rightarrow> bytes list" where
  "edit_text cmd n keys r i t =
     (let l = t ! r
      in if cmd = [114] \<and> keys \<noteq> [] \<and> i + n \<le> length l then t[r := take i l @ replicate n (hd keys) @ drop (i + n) l]
         else if cmd = [120] \<and> i + n \<le> length l then t[r := take i l @ drop (i + n) l]
         else if cmd = [100, 100] then without_lines r n t
         else if cmd = [100, 119] \<or> cmd = [99, 119] then t[r := take i l @ after_word (cmd = [100, 119]) (drop i l)]
         else t)"

definition gives_text :: "bytes list \<Rightarrow> (bytes \<times> vi) option \<Rightarrow> bool" where
  "gives_text t x \<longleftrightarrow> (\<exists>k s'. x = Some (k, s') \<and> text_lines s' = t)"

lemma gives_if: "(b \<Longrightarrow> gives_text t x) \<Longrightarrow> (\<not> b \<Longrightarrow> gives_text t y) \<Longrightarrow> gives_text t (if b then x else y)"
  by simp

lemma gives_move: "body_ok u \<Longrightarrow> text_lines u = t \<Longrightarrow> gives_text t (map_option (\<lambda>s'. (keys, s')) (move_cursor r c u))"
  using move_cursor_ok [of u r c] by (auto simp: gives_text_def text_lines_def)

lemma gives_row:
  assumes "body_ok s" "cursor_ok s" "row_ok b"
  shows "gives_text ((text_lines s)[nat (vi_row s) := c_str b]) (map_option (\<lambda>s'. (keys, s')) (move_cursor r c (set_row (vi_row s) b s)))"
  by (rule gives_move) (use set_row_body [OF assms(1) cursor_row(4,3) [OF assms(1,2)] assms(3)] in auto)

lemma text_mode [simp]: "text_lines (s\<lparr>vi_mode := m\<rparr>) = text_lines s"
  by (simp add: text_lines_def)

lemma gives_replace:
  assumes "body_ok s" "cursor_ok s" "0 < n" "n < 2 ^ 31" "0 \<notin> set (take 1 keys)"
  shows "gives_text (edit_text [114] (nat n) keys (nat (vi_row s)) (nat (vi_col s)) (text_lines s))
    (map_option (\<lambda>(k, s'). (k, s'\<lparr>vi_mode := ModeCommand\<rparr>)) (replace_char n keys (s\<lparr>vi_mode := ModeReplaceChar\<rparr>)))"
proof (cases keys)
  case Nil
  then show ?thesis by (simp add: replace_char_def gives_text_def edit_text_def without_lines_def Let_def)
next
  case (Cons c rest)
  note r = cursor_row [OF assms(1,2)] and cl = cur_line_text [OF assms(1,2)]
  let ?s = "s\<lparr>vi_mode := ModeReplaceChar\<rparr>"
  let ?b = "buffer s ! nat (vi_row s)" and ?i = "nat (vi_col s)" and ?e = "to_long (vi_col s + n)"
  let ?new = "take ?i ?b @ replicate (nat ?e - ?i) c @ drop (max ?i (nat ?e)) ?b"
  have run: "replace_char n keys ?s = Some (rest, if ?e \<le> int (length (cur_line s)) then set_row (vi_row s) ?new ?s else ?s)"
    using r Cons by (simp add: replace_char_def row_at_def cur_line_def Let_def split: if_splits)
  consider (wrap) "?e < 0" "2 ^ 31 \<le> vi_col s + n" | (fit) "?e = vi_col s + n" using to_long_add [of "vi_col s" n] r assms(3,4) by fastforce
  then show ?thesis
  proof cases
    case wrap
    then have "?new = ?b" "\<not> ?i + nat n \<le> length (cur_line s)" using r by (auto simp: max_def)
    moreover have "set_row (vi_row s) ?b ?s = ?s" using r by (simp add: set_row_def)
    ultimately show ?thesis using run cl by (auto simp: gives_text_def edit_text_def Let_def)
  next
    case fit
    have m: "max ?i (nat ?e) = ?i + nat n" "nat ?e - ?i = nat n" "?e \<le> int (length (cur_line s)) \<longleftrightarrow> ?i + nat n \<le> length (cur_line s)"
      using fit r(5) assms(3) by (auto simp: nat_add_distrib)
    show ?thesis
    proof (cases "?i + nat n \<le> length (cur_line s)")
      case True
      note rep = c_str_replace [OF r(2), of ?i "nat n" c, folded cur_line_def]
      have "c \<noteq> 0" using assms(5) Cons by simp
      then have "body_ok (set_row (vi_row s) ?new ?s)" "text_lines (set_row (vi_row s) ?new ?s) = (text_lines s)[nat (vi_row s) := c_str ?new]"
        using set_row_body [of ?s "vi_row s" ?new] assms(1) r(3,4) rep True unfolding m by simp_all
      then show ?thesis using run rep True cl Cons \<open>c \<noteq> 0\<close> unfolding m by (simp add: gives_text_def edit_text_def Let_def)
    next
      case False
      then show ?thesis using run m cl by (simp add: gives_text_def edit_text_def Let_def)
    qed
  qed
qed

lemma gives_delete:
  assumes "body_ok s" "cursor_ok s" "0 < n" "vi_col s + n < 2 ^ 31"
    "vi_col s + n \<le> int (length (cur_line s)) \<Longrightarrow> int (length (cur_line s)) + n \<le> 256"
  shows "gives_text (edit_text [120] (nat n) keys (nat (vi_row s)) (nat (vi_col s)) (text_lines s))
    (map_option (\<lambda>s'. (keys, s')) (Option.bind (row_at s (vi_row s)) (\<lambda>b. Option.bind (row_len b) (\<lambda>k.
     let e = to_long (vi_col s + n) in if e \<le> int k then
       Option.bind (row_len (drop (nat (vi_col s)) b)) (\<lambda>m.
       Option.bind (row_move (vi_col s) e m b) (\<lambda>b'. move_cursor (vi_row s) (vi_col s) (set_row (vi_row s) b' s))) else Some s))))"
proof -
  note r = cursor_row [OF assms(1,2)] and cl = cur_line_text [OF assms(1,2)]
  let ?b = "buffer s ! nat (vi_row s)" and ?i = "nat (vi_col s)"
  have e: "to_long (vi_col s + n) = vi_col s + n" using assms(3,4) r by (simp add: to_long_id)
  show ?thesis
  proof (cases "vi_col s + n \<le> int (length (cur_line s))")
    case True
    have i: "?i + nat n \<le> length (c_str ?b)" "length (c_str ?b) + nat n \<le> 256" "0 < nat n"
      using True assms(3,5) r(5) by (auto simp: cur_line_def)
    from c_str_delete [OF r(2) this] obtain m b' where b':
      "row_len (drop ?i ?b) = Some m" "row_move (vi_col s) (vi_col s + n) m ?b = Some b'" "row_ok b'"
      "c_str b' = take ?i (cur_line s) @ drop (?i + nat n) (cur_line s)"
      using r(5) assms(3) by (auto simp: cur_line_def)
    then show ?thesis
      using True gives_row [OF assms(1,2) b'(3), of keys "vi_row s" "vi_col s"] r e cl i(1) by (simp add: Let_def cur_line_def edit_text_def)
  next
    case False
    then have "\<not> ?i + nat n \<le> length (cur_line s)" using assms(3) r(5) by auto
    then show ?thesis using False r e cl by (simp add: Let_def cur_line_def gives_text_def edit_text_def)
  qed
qed

lemma gives_lines:
  assumes "body_ok s" "cursor_ok s" "0 < n" "vi_row s + n < 2 ^ 31"
  shows "gives_text (edit_text [100, 100] (nat n) keys (nat (vi_row s)) (nat (vi_col s)) (text_lines s))
    (map_option (\<lambda>s'. (keys, s')) (Option.bind (delete_lines (vi_row s) n s) (move_cursor (vi_row s) (vi_col s))))"
proof -
  have r: "vi_row s = int (nat (vi_row s))" "nat (vi_row s) < nat (vi_lines s)" "n = int (nat n)" using assms by (auto simp: cursor_ok_def)
  have n: "0 < nat n" "int (nat (vi_row s)) + int (nat n) < 2 ^ 31" using r assms(3,4) by auto
  obtain b l where "delete_lines (vi_row s) n s = Some (s\<lparr>buffer := b, vi_lines := l\<rparr>)" "body_ok (s\<lparr>buffer := b, vi_lines := l\<rparr>)"
    "text_lines (s\<lparr>buffer := b, vi_lines := l\<rparr>) = without_lines (nat (vi_row s)) (nat n) (text_lines s)"
    using delete_lines_run [OF assms(1) r(2) n] r by auto
  then show ?thesis using gives_move by (simp add: edit_text_def Let_def)
qed

lemma gives_word:
  assumes "body_ok s" "cursor_ok s" "vi_col s < int (length (cur_line s))"
  shows "gives_text ((text_lines s)[nat (vi_row s) := take (nat (vi_col s)) (cur_line s) @ after_word w (drop (nat (vi_col s)) (cur_line s))])
      (map_option (\<lambda>s'. (keys, s')) (Option.bind (delete_word (vi_row s) (vi_col s) w s) (move_cursor (vi_row s) (vi_col s))))"
    "gives_text ((text_lines s)[nat (vi_row s) := take (nat (vi_col s)) (cur_line s) @ after_word w (drop (nat (vi_col s)) (cur_line s))])
      (map_option (\<lambda>s'. (keys, s')) (Option.bind (delete_word (vi_row s) (vi_col s) w s) (\<lambda>s'. move_cursor (vi_row s) (vi_col s) (s'\<lparr>vi_mode := ModeInsert\<rparr>))))"
proof -
  note r = cursor_row [OF assms(1,2)]
  have "nat (vi_col s) < length (cur_line s)" using assms(3) r(5) by (simp add: nat_less_iff)
  from delete_word_row [OF assms(1,2) this, of w] obtain b where
    b: "delete_word (vi_row s) (vi_col s) w s = Some (set_row (vi_row s) b s)" "row_ok b"
    "c_str b = take (nat (vi_col s)) (cur_line s) @ after_word w (drop (nat (vi_col s)) (cur_line s))" by blast
  note sb = set_row_body [OF assms(1) r(4,3) b(2)]
  show "gives_text ((text_lines s)[nat (vi_row s) := take (nat (vi_col s)) (cur_line s) @ after_word w (drop (nat (vi_col s)) (cur_line s))])
      (map_option (\<lambda>s'. (keys, s')) (Option.bind (delete_word (vi_row s) (vi_col s) w s) (move_cursor (vi_row s) (vi_col s))))"
    using b sb gives_move [of "set_row (vi_row s) b s"] by simp
  show "gives_text ((text_lines s)[nat (vi_row s) := take (nat (vi_col s)) (cur_line s) @ after_word w (drop (nat (vi_col s)) (cur_line s))])
      (map_option (\<lambda>s'. (keys, s')) (Option.bind (delete_word (vi_row s) (vi_col s) w s) (\<lambda>s'. move_cursor (vi_row s) (vi_col s) (s'\<lparr>vi_mode := ModeInsert\<rparr>))))"
    using b sb gives_move [of "set_row (vi_row s) b s\<lparr>vi_mode := ModeInsert\<rparr>"] by simp
qed

text \<open>
  C16: The commands of the editor change the text as they should.  In a good state every command that is not risky is
  carried out and the lines of the text are afterwards those that \<open>edit_text\<close> makes of them: \<open>x\<close> with a count deletes that many
  characters from the cursor on, \<open>r\<close> overwrites them with the next key, both only within the line; \<open>dd\<close> deletes that
  many lines if there are as many, \<open>dw\<close> and \<open>cw\<close> the rest of the word, whatever
  the count, which \<open>delete_word\<close> ignores; all other commands leave the text as it is.  Risky are \<open>dw\<close> and \<open>cw\<close> with the cursor
  behind the last character of the line, \<open>x\<close> when the length of the line and the count together exceed the 256 bytes of
  the row, \<open>x\<close> and \<open>dd\<close> with a count that reaches \<open>2 ^ 31\<close> from the cursor, and the end key when the row and the
  offset of the window together pass the last line of the buffer.
\<close>

theorem vi_commands_edit:
  assumes s: "good s" "vi_mode s = ModeCommand" and c: "real_count < 2 ^ 31" "\<not> risky_cmd real_count cmd s" "0 \<notin> set (take 1 keys)"
  shows "\<exists>k s'. run_command real_count cmd keys s = Some (k, s') \<and>
    text_lines s' = edit_text cmd (nat (if real_count < 1 then 1 else real_count)) keys (nat (vi_row s)) (nat (vi_col s)) (text_lines s)"
proof -
  have ok: "body_ok s" "cursor_ok s" using s by (auto simp: good_def)
  note cl = cur_line_text [OF ok]
  define n where "n = (if real_count < 1 then 1 else real_count)"
  have n: "0 < n" "n < 2 ^ 31" using c(1) by (auto simp: n_def)
  let ?e = "edit_text cmd (nat n) keys (nat (vi_row s)) (nat (vi_col s)) (text_lines s)"
  have risk: "cmd = [27, 91, 70] \<or> cmd = [36] \<Longrightarrow> vi_row s + row_offset s < 1024" "cmd = [100, 100] \<Longrightarrow> vi_row s + n < 2 ^ 31"
    "cmd = [120] \<Longrightarrow> vi_col s + n < 2 ^ 31" "cmd = [120] \<Longrightarrow> vi_col s + n \<le> int (length (cur_line s)) \<Longrightarrow> int (length (cur_line s)) + n \<le> 256"
    "cmd = [100, 119] \<or> cmd = [99, 119] \<Longrightarrow> vi_col s < int (length (cur_line s))"
    using c(2) by (auto simp: risky_cmd_def Let_def n_def [symmetric])
  let ?edits = "{[114], [120], [100, 100], [100, 119], [99, 119]}"
  have keep: "cmd \<notin> ?edits \<Longrightarrow> ?e = text_lines s" by (simp add: edit_text_def)
  have mv: "cmd \<notin> ?edits \<Longrightarrow> gives_text ?e (map_option (\<lambda>s'. (keys, s')) (move_cursor r c s))"
    "cmd \<notin> ?edits \<Longrightarrow> gives_text ?e (map_option (\<lambda>s'. (keys, s')) (move_cursor r c (s\<lparr>vi_mode := ModeInsert\<rparr>)))" for r c
    using keep gives_move ok(1) by simp_all
  have st: "cmd \<notin> ?edits \<Longrightarrow> text_lines u = text_lines s \<Longrightarrow> gives_text ?e (map_option (\<lambda>s'. (keys, s')) (Some u))" for u
    using keep by (simp add: gives_text_def)
  have rep: "cmd = [114] \<Longrightarrow> gives_text ?e (map_option (\<lambda>(k, s'). (k, s'\<lparr>vi_mode := ModeCommand\<rparr>)) (replace_char n keys (s\<lparr>vi_mode := ModeReplaceChar\<rparr>)))"
    using gives_replace [OF ok n c(3)] by simp
  have en: "cmd = [27, 91, 70] \<or> cmd = [36] \<Longrightarrow> gives_text ?e (map_option (\<lambda>s'. (keys, s')) (Option.bind (row_at s (vi_row s + row_offset s)) (\<lambda>b.
      Option.bind (row_len b) (\<lambda>k. move_cursor (vi_row s) (if k > 0 then int k - 1 else 0) s))))"
    using body_row [OF ok(1), of "vi_row s + row_offset s"] risk(1) ok gives_move [OF ok(1) refl] keep by (auto simp: body_ok_def cursor_ok_def)
  have del: "cmd = [120] \<Longrightarrow> gives_text ?e (map_option (\<lambda>s'. (keys, s')) (Option.bind (row_at s (vi_row s)) (\<lambda>b. Option.bind (row_len b) (\<lambda>k.
      if to_long (vi_col s + n) \<le> int k then
       Option.bind (row_len (drop (nat (vi_col s)) b)) (\<lambda>m.
       Option.bind (row_move (vi_col s) (to_long (vi_col s + n)) m b) (\<lambda>b'. move_cursor (vi_row s) (vi_col s) (set_row (vi_row s) b' s))) else Some s))))"
    using gives_delete [OF ok n(1), unfolded Let_def] risk(3,4) by simp
  have sv: "cmd = [90, 90] \<Longrightarrow> gives_text ?e (map_option (\<lambda>s'. (keys, s')) (map_option quit (save s)))"
    using save_ok [OF ok(1)] keep by (auto simp: gives_text_def quit_def text_lines_def)
  have dd: "cmd = [100, 100] \<Longrightarrow> gives_text ?e (map_option (\<lambda>s'. (keys, s')) (Option.bind (delete_lines (vi_row s) n s) (move_cursor (vi_row s) (vi_col s))))"
    using gives_lines [OF ok n(1)] risk(2) by simp
  have w: "cmd = [100, 119] \<Longrightarrow> gives_text ?e (map_option (\<lambda>s'. (keys, s')) (Option.bind (delete_word (vi_row s) (vi_col s) True s) (move_cursor (vi_row s) (vi_col s))))"
    "cmd = [99, 119] \<Longrightarrow> gives_text ?e (map_option (\<lambda>s'. (keys, s')) (Option.bind (delete_word (vi_row s) (vi_col s) False s)
      (\<lambda>s'. move_cursor (vi_row s) (vi_col s) (s'\<lparr>vi_mode := ModeInsert\<rparr>))))"
    using gives_word [OF ok] risk(5) cl by (simp_all add: edit_text_def Let_def)
  have "gives_text ?e (run_command real_count cmd keys s)"
    unfolding run_command_def Let_def n_def [symmetric]
    by (rule gives_if, rule st, simp, simp, rule gives_if, rule mv(2), simp, rule gives_if, erule rep,
        rule gives_if, rule mv(1), (auto simp: left_keys_def)[1], rule gives_if, rule mv(1), (auto simp: right_keys_def)[1],
        rule gives_if, rule mv(1), (auto simp: up_keys_def)[1], rule gives_if, rule mv(1), (auto simp: down_keys_def)[1],
        rule gives_if, rule mv(1), simp, rule gives_if, rule mv(1), simp, rule gives_if, rule mv(1), (auto)[1],
        rule gives_if, erule en, rule gives_if, erule del, rule gives_if, erule sv, rule gives_if, erule dd, rule gives_if, erule w(1),
        rule gives_if, erule w(2), rule gives_if, rule mv(1), simp, rule gives_if, rule st, simp, simp, rule st, simp, simp)
  then show ?thesis by (simp add: gives_text_def n_def)
qed

definition abc_state :: vi where
  "abc_state = vi_start (\<lambda>_. None) (\<lambda>_. True)\<lparr>buffer := ([97, 98, 99, 0] @ replicate 252 0) # replicate 1023 (replicate 256 0), vi_lines := 1\<rparr>"

lemma abc_good: "good abc_state" "text_lines abc_state = [[97, 98, 99]]" "cur_line abc_state = [97, 98, 99]" "vi_col abc_state = 0"
  "vi_row abc_state = 0" "vi_mode abc_state = ModeCommand" "row_offset abc_state = 0"
proof -
  have l: "c_str ([97, 98, 99, 0] @ replicate 252 0) = [97, 98, 99]" by (simp add: c_str_def)
  show f: "cur_line abc_state = [97, 98, 99]" "vi_col abc_state = 0" "vi_row abc_state = 0" "vi_mode abc_state = ModeCommand" "row_offset abc_state = 0"
    using l by (simp_all add: cur_line_def abc_state_def vi_start_def)
  show "text_lines abc_state = [[97, 98, 99]]" using l by (simp add: text_lines_def abc_state_def)
  have "body_ok abc_state" by (auto simp: body_ok_def abc_state_def vi_start_def row_ok_def)
  moreover have "cursor_ok abc_state" using f by (simp add: cursor_ok_def) (simp add: abc_state_def)
  moreover have "keys_ok abc_state" by (simp add: keys_ok_def abc_state_def vi_start_def)
  ultimately show "good abc_state" by (simp add: good_def)
qed

theorem vi_commands_witness:
  "\<exists>k s'. run_command 2 [120] [] abc_state = Some (k, s') \<and> text_lines s' = [[99]]"
  using vi_commands_edit [of abc_state 2 "[120]" "[]"] by (simp add: abc_good risky_cmd_def edit_text_def)

text \<open>The backspace key deletes the rest of the line with the character before the cursor.\<close>

lemma backspace_cuts:
  assumes "good s" "vi_mode s = ModeInsert" "0 < vi_col s"
  shows "\<exists>s'. insert_mode_input 127 s = Some s' \<and> text_lines s' = (text_lines s)[nat (vi_row s) := take (nat (vi_col s) - 1) (cur_line s)]"
proof -
  have ok: "body_ok s" "cursor_ok s" using assms(1) by (auto simp: good_def)
  note r = cursor_row [OF ok]
  let ?b = "buffer s ! nat (vi_row s)" and ?i = "nat (vi_col s) - 1"
  have i: "?i \<le> length (c_str ?b)" "nat (vi_col s - 1) = ?i" "?i < length ?b" using r assms(3) by (auto simp: cur_line_def row_ok_def)
  note cut = c_str_cut [OF r(2) i(1)]
  from gives_row [OF ok cut(1), of "[]" "vi_row s" "vi_col s - 1"] obtain s' where
    "move_cursor (vi_row s) (vi_col s - 1) (set_row (vi_row s) (?b[?i := 0]) s) = Some s'"
    "text_lines s' = (text_lines s)[nat (vi_row s) := take ?i (cur_line s)]" using cut(2) by (auto simp: gives_text_def cur_line_def)
  then show ?thesis using assms(3) r(1) i by (auto simp: insert_mode_input_def)
qed

section \<open>Typing\<close>

definition file_text :: "bytes list \<Rightarrow> bytes" where
  "file_text t = concat (map (\<lambda>l. l @ [10]) t)"

lemma file_text_simps [simp]: "file_text [] = []" "file_text (l # t) = l @ 10 # file_text t" "file_text (t @ u) = file_text t @ file_text u"
  by (simp_all add: file_text_def)

lemma file_text_set: "l \<in> set t \<Longrightarrow> set l \<subseteq> set (file_text t)"
  by (induction t) auto

text \<open>The position of the cursor in the text.\<close>

definition cursor_pos :: "vi \<Rightarrow> nat" where
  "cursor_pos s = length (file_text (take (nat (vi_row s)) (text_lines s))) + nat (vi_col s)"

text \<open>An editor that takes text, with no column to go back to.\<close>

definition typing :: "vi \<Rightarrow> bool" where
  "typing s \<longleftrightarrow> good s \<and> vi_mode s = ModeInsert \<and> want_col s = 0 \<and> running s"

definition same_file :: "vi \<Rightarrow> vi \<Rightarrow> bool" where
  "same_file s s' \<longleftrightarrow> filename s' = filename s \<and> contents s' = contents s \<and> writable s' = writable s \<and> vi_cmd s' = vi_cmd s \<and> vi_count s' = vi_count s"

definition insert_at :: "nat \<Rightarrow> bytes \<Rightarrow> bytes \<Rightarrow> bytes" where
  "insert_at k t f = take k f @ t @ drop k f"

lemma text_split: "r < length t \<Longrightarrow> t = take r t @ t ! r # drop (Suc r) t"
  by (rule id_take_nth_drop)

lemma insert_at_line:
  assumes "r < length t" "i \<le> length (t ! r)"
  shows "insert_at (length (file_text (take r t)) + i) x (file_text t)
    = file_text (take r t) @ take i (t ! r) @ x @ drop i (t ! r) @ 10 # file_text (drop (Suc r) t)"
  using assms by (subst (2) text_split [OF assms(1)]) (simp add: insert_at_def del: take_append drop_append, simp)

lemma type_char:
  assumes s: "typing s" and c: "c \<noteq> 0" "c \<noteq> 10" "c \<noteq> 27" "c \<noteq> 127" and len: "length (cur_line s) < 255"
  shows "\<exists>s'. insert_mode_input c s = Some s' \<and> typing s' \<and> same_file s s' \<and> cursor_pos s' = cursor_pos s + 1
    \<and> text_lines s' = (text_lines s)[nat (vi_row s) := take (nat (vi_col s)) (cur_line s) @ c # drop (nat (vi_col s)) (cur_line s)]"
proof -
  have ok: "body_ok s" "cursor_ok s" "keys_ok s" using s by (auto simp: typing_def good_def)
  note r = cursor_row [OF ok(1,2)]
  let ?i = "nat (vi_col s)" and ?r = "nat (vi_row s)"
  from c_str_insert [OF r(2) r(6) [unfolded cur_line_def] len [unfolded cur_line_def] c(1)] r(5) obtain b' where
    b': "row_move (vi_col s + 1) (vi_col s) (256 - ?i - 1) (buffer s ! ?r) = Some b'" "row_ok (b'[?i := c])"
    "c_str (b'[?i := c]) = take ?i (cur_line s) @ c # drop ?i (cur_line s)" by (auto simp: cur_line_def)
  define t where "t = set_row (vi_row s) (b'[?i := c]) s\<lparr>vi_col := vi_col s + 1\<rparr>"
  have body: "body_ok t" "text_lines t = (text_lines s)[?r := take ?i (cur_line s) @ c # drop ?i (cur_line s)]"
    using set_row_body [OF ok(1) r(4,3) b'(2)] b'(3) by (simp_all add: t_def body_ok_def text_lines_def)
  have n: "nat (vi_row s) < length (buffer s)" "vi_row s < vi_lines s" using ok by (auto simp: body_ok_def cursor_ok_def)
  have line: "c_str (buffer t ! ?r) = take ?i (cur_line s) @ c # drop ?i (cur_line s)" using n b'(3) by (simp add: t_def set_row_def)
  have f: "vi_row t = vi_row s" "vi_col t = vi_col s + 1" "row_offset t = row_offset s" "vi_lines t = vi_lines s" "vi_mode t = ModeInsert" "want_col t = 0"
    using s by (simp_all add: t_def typing_def)
  have "move_cursor (vi_row t) (vi_col t) t = Some (t\<lparr>vi_row := vi_row s, vi_col := min (vi_col s + 1) (int (length (cur_line s)) + 1),
      want_col := if vi_col s + 1 > int (length (cur_line s)) + 1 then vi_col s + 1 else want_col t, row_offset := row_offset s\<rparr>)"
    by (rule move_cursor_run [OF body(1)]) (use r ok(2) n f line in \<open>auto simp: Let_def cursor_ok_def\<close>)
  then have run: "insert_mode_input c s = Some t"
    using c b'(1) r(1,5,6) ok(2) f unfolding insert_mode_input_def t_def [symmetric] Let_def
    by (cases t) (auto simp: cursor_ok_def t_def [symmetric] Let_def min_def)
  have "cursor_ok t" using ok(2) r(5,6) n line by (auto simp: cursor_ok_def cur_line_def f)
  then have "typing t" using s body(1) ok(3) by (simp add: typing_def good_def f keys_ok_def) (simp add: t_def set_row_def)
  moreover have "same_file s t" by (simp add: same_file_def t_def set_row_def)
  moreover have "cursor_pos t = cursor_pos s + 1" using r(5) by (simp add: cursor_pos_def f body(2) nat_add_distrib)
  ultimately show ?thesis using run body(2) by blast
qed

lemma type_newline:
  assumes s: "typing s" and len: "vi_lines s < 1024"
  shows "\<exists>s'. insert_mode_input 10 s = Some s' \<and> typing s' \<and> same_file s s' \<and> cursor_pos s' = cursor_pos s + 1
    \<and> text_lines s' = split_at (nat (vi_row s)) (nat (vi_col s)) (text_lines s)"
proof -
  have ok: "body_ok s" "cursor_ok s" "keys_ok s" using s by (auto simp: typing_def good_def)
  note r = cursor_row [OF ok(1,2)]
  let ?i = "nat (vi_col s)" and ?r = "nat (vi_row s)"
  obtain b where b: "split_line s = Some (s\<lparr>buffer := b, vi_lines := vi_lines s + 1\<rparr>)" "body_ok (s\<lparr>buffer := b, vi_lines := vi_lines s + 1\<rparr>)"
    "text_lines (s\<lparr>buffer := b, vi_lines := vi_lines s + 1\<rparr>) = split_at ?r ?i (text_lines s)"
    using split_line_run [OF ok(1,2) len] by auto
  define t where "t = s\<lparr>buffer := b, vi_lines := vi_lines s + 1\<rparr>"
  define off where "off = (if vi_row s + 1 \<ge> row_offset s + 24 then vi_row s + 1 - 23 else min (vi_row s + 1) (row_offset s))"
  define u where "u = t\<lparr>vi_row := vi_row s + 1, vi_col := 0, want_col := 0, row_offset := off\<rparr>"
  note b = b [folded t_def]
  have f: "vi_row t = vi_row s" "vi_col t = vi_col s" "row_offset t = row_offset s" "vi_lines t = vi_lines s + 1" "vi_mode t = ModeInsert" "want_col t = 0"
    using s by (simp_all add: t_def typing_def)
  have n: "vi_row s < vi_lines s" using ok(2) by (simp add: cursor_ok_def)
  let ?lc = "int (length (c_str (buffer t ! nat (vi_row s + 1))))"
  have "move_cursor (vi_row t + 1) 0 t = Some (t\<lparr>vi_row := vi_row s + 1, vi_col := min 0 ?lc, want_col := if 0 > ?lc then 0 else want_col t, row_offset := off\<rparr>)"
    by (rule move_cursor_run [OF b(2)]) (use r n f in \<open>auto simp: Let_def off_def\<close>)
  then have "move_cursor (vi_row t + 1) 0 t = Some u" by (simp add: u_def f min_def)
  then have run: "insert_mode_input 10 s = Some u" using b(1) by (simp add: insert_mode_input_def)
  have tx: "text_lines u = text_lines t" by (simp add: u_def text_lines_def)
  have "body_ok u" "cursor_ok u" using b(2) ok(2) r n by (auto simp: u_def body_ok_def cursor_ok_def f off_def)
  then have "typing u" using s ok(3) by (simp add: typing_def good_def keys_ok_def u_def t_def)
  moreover have "same_file s u" by (simp add: same_file_def u_def t_def)
  moreover have "cursor_pos u = cursor_pos s + 1"
  proof -
    note cl = cur_line_text [OF ok(1,2)]
    have "nat (vi_row u) = Suc ?r" "vi_col u = 0" using r(4) by (simp_all add: u_def nat_add_distrib)
    moreover have "take (Suc ?r) (split_at ?r ?i (text_lines s)) = take ?r (text_lines s) @ [take ?i (cur_line s)]"
      using cl by (simp add: split_at_def)
    ultimately show ?thesis using r(6) by (simp add: cursor_pos_def tx b(3))
  qed
  ultimately show ?thesis using run b(3) tx by auto
qed

text \<open>The limits that text of \<open>n\<close> characters cannot exceed.\<close>

definition space_for :: "nat \<Rightarrow> vi \<Rightarrow> bool" where
  "space_for n s \<longleftrightarrow> (\<forall>l\<in>set (text_lines s). length l + n \<le> 255) \<and> vi_lines s + int n \<le> 1024"

lemma type_key:
  assumes s: "typing s" and c: "c \<noteq> 0" "c \<noteq> 27" "c \<noteq> 127" and space: "space_for (Suc n) s"
  shows "\<exists>s'. insert_mode_input c s = Some s' \<and> typing s' \<and> same_file s s' \<and> space_for n s' \<and> cursor_pos s' = Suc (cursor_pos s)
    \<and> file_text (text_lines s') = insert_at (cursor_pos s) [c] (file_text (text_lines s))"
proof -
  have ok: "body_ok s" "cursor_ok s" using s by (auto simp: typing_def good_def)
  note cl = cur_line_text [OF ok] and r = cursor_row [OF ok]
  let ?r = "nat (vi_row s)" and ?i = "nat (vi_col s)" and ?t = "text_lines s"
  have "cur_line s \<in> set ?t" using cl nth_mem by metis
  then have len: "length (cur_line s) + Suc n \<le> 255" using space by (auto simp: space_for_def)
  have pos: "insert_at (cursor_pos s) [c] (file_text ?t) = file_text (take ?r ?t) @ take ?i (cur_line s) @ [c] @ drop ?i (cur_line s) @ 10 # file_text (drop (Suc ?r) ?t)"
    using insert_at_line [of ?r ?t ?i "[c]"] cl r(6) by (simp add: cursor_pos_def)
  show ?thesis
  proof (cases "c = 10")
    case False
    obtain s' where s': "insert_mode_input c s = Some s'" "typing s'" "same_file s s'" "cursor_pos s' = cursor_pos s + 1"
      "text_lines s' = ?t[?r := take ?i (cur_line s) @ c # drop ?i (cur_line s)]"
      using type_char [OF s c(1) False c(2,3)] len by auto
    have "file_text (text_lines s') = insert_at (cursor_pos s) [c] (file_text ?t)"
      unfolding pos s'(5) using cl by (simp add: upd_conv_take_nth_drop)
    moreover have "vi_lines s' = vi_lines s"
      using s' ok length_text_lines [of s] length_text_lines [of s'] by (auto simp: typing_def good_def body_ok_def)
    moreover have "length l + n \<le> 255" if "l \<in> set (text_lines s')" for l
      using that space len r(6) unfolding s'(5) by (auto simp: space_for_def dest!: set_update_subset_insert [THEN subsetD])
    ultimately show ?thesis using s' space by (auto simp: space_for_def)
  next
    case True
    have "vi_lines s < 1024" using space by (simp add: space_for_def)
    from type_newline [OF s this] obtain s' where s': "insert_mode_input 10 s = Some s'" "typing s'" "same_file s s'" "cursor_pos s' = cursor_pos s + 1"
      "text_lines s' = split_at ?r ?i ?t" by auto
    have "file_text (text_lines s') = insert_at (cursor_pos s) [c] (file_text ?t)"
      unfolding pos s'(5) using cl True by (simp add: split_at_def)
    moreover have "vi_lines s' = vi_lines s + 1"
    proof -
      have "length (text_lines s') = Suc (length ?t)" unfolding s'(5) by (rule split_at_length [OF conjunct1 [OF cl]])
      then show ?thesis using s'(2) ok length_text_lines [of s] length_text_lines [of s'] by (auto simp: typing_def good_def body_ok_def)
    qed
    moreover have "length l + n \<le> 255" if "l \<in> set (text_lines s')" for l
      using that space len cl unfolding s'(5) by (fastforce simp: split_at_def space_for_def dest: in_set_takeD in_set_dropD)
    ultimately show ?thesis using s' space True by (auto simp: space_for_def)
  qed
qed

lemma same_file_trans: "same_file a b \<Longrightarrow> same_file b c \<Longrightarrow> same_file a c"
  by (simp add: same_file_def)

lemma type_keys:
  assumes "typing s" "\<forall>c\<in>set t. c \<noteq> 0 \<and> c \<noteq> 27 \<and> c \<noteq> 127" "space_for (length t) s"
  shows "\<exists>s'. vi_run (t @ keys) s = vi_run keys s' \<and> typing s' \<and> same_file s s'
    \<and> file_text (text_lines s') = insert_at (cursor_pos s) t (file_text (text_lines s))"
  using assms
proof (induction t arbitrary: s)
  case Nil
  then show ?case by (intro exI [of _ s]) (simp add: same_file_def insert_at_def)
next
  case (Cons c t)
  obtain s1 where s1: "insert_mode_input c s = Some s1" "typing s1" "same_file s s1" "space_for (length t) s1" "cursor_pos s1 = Suc (cursor_pos s)"
    "file_text (text_lines s1) = insert_at (cursor_pos s) [c] (file_text (text_lines s))"
    using type_key [of s c "length t"] Cons.prems by auto
  obtain s' where s': "vi_run (t @ keys) s1 = vi_run keys s'" "typing s'" "same_file s1 s'"
    "file_text (text_lines s') = insert_at (cursor_pos s1) t (file_text (text_lines s1))"
    using Cons.IH [OF s1(2) _ s1(4)] Cons.prems(2) by auto
  have "vi_run ((c # t) @ keys) s = vi_run keys s'"
    using s1(1) s'(1) Cons.prems(1) by (simp add: typing_def process_input_def)
  moreover have "cursor_pos s \<le> length (file_text (text_lines s))"
  proof -
    have ok: "body_ok s" "cursor_ok s" using Cons.prems(1) by (auto simp: typing_def good_def)
    note cl = cur_line_text [OF ok]
    have "file_text (text_lines s) = file_text (take (nat (vi_row s)) (text_lines s)) @ cur_line s @ 10 # file_text (drop (Suc (nat (vi_row s))) (text_lines s))"
      using text_split [of "nat (vi_row s)" "text_lines s"] cl file_text_simps by metis
    then show ?thesis using cursor_row(6) [OF ok] by (simp add: cursor_pos_def)
  qed
  ultimately show ?case
    using s' s1 same_file_trans by (intro exI [of _ s']) (simp add: insert_at_def)
qed

lemma take_line_newline: "10 \<notin> set l \<Longrightarrow> length l < n \<Longrightarrow> take_line n (l @ 10 # rest) = l @ [10]"
proof (induction l arbitrary: n)
  case Nil
  then show ?case by (cases n) auto
next
  case (Cons x l)
  then show ?case by (cases n) auto
qed

lemma file_rows_text: "\<forall>l\<in>set ls. 10 \<notin> set l \<and> length l \<le> 254 \<Longrightarrow> file_rows (file_text ls) = map (\<lambda>l. l @ [10]) ls"
proof (induction ls)
  case (Cons l ls)
  have "take_line 255 (l @ 10 # file_text ls) = l @ [10]" using Cons.prems by (intro take_line_newline) auto
  then show ?case using Cons by (subst file_rows.simps) simp
qed (simp add: file_rows.simps)

lemma printed_ascii: "\<forall>c\<in>set l. 0 \<le> sint c \<Longrightarrow> printed l = l"
  by (simp add: printed_def)

text \<open>The command that writes the file and ends the editor, and the key before it.\<close>

lemma escape_key:
  assumes "typing s"
  shows "\<exists>s'. vi_run (27 # keys) s = vi_run keys s' \<and> good s' \<and> vi_mode s' = ModeCommand \<and> same_file s s' \<and> running s' \<and> text_lines s' = text_lines s"
proof -
  have s: "body_ok (s\<lparr>vi_mode := ModeCommand\<rparr>)" "keys_ok (s\<lparr>vi_mode := ModeCommand\<rparr>)" using assms by (auto simp: typing_def good_def keys_ok_def)
  obtain row col want off where m: "move_cursor (vi_row s) (vi_col s - 1) (s\<lparr>vi_mode := ModeCommand\<rparr>)
      = Some (s\<lparr>vi_mode := ModeCommand, vi_row := row, vi_col := col, want_col := want, row_offset := off\<rparr>)"
    and g: "good (s\<lparr>vi_mode := ModeCommand, vi_row := row, vi_col := col, want_col := want, row_offset := off\<rparr>)"
    using move_cursor_ok [OF s(1), of "vi_row s" "vi_col s - 1"] s(2) by (auto simp: good_def keys_ok_def)
  show ?thesis
    using assms m g
    by (intro exI [of _ "s\<lparr>vi_mode := ModeCommand, vi_row := row, vi_col := col, want_col := want, row_offset := off\<rparr>"])
      (simp add: typing_def process_input_def insert_mode_input_def same_file_def text_lines_def)
qed

lemma write_quit:
  assumes "good s" "vi_mode s = ModeCommand" "running s" "vi_cmd s = []" "filename s \<noteq> []" "writable s (filename s)"
    "\<forall>c\<in>set (file_text (text_lines s)). 0 \<le> sint c"
  shows "\<exists>s'. vi_run [90, 90] s = Some s' \<and> \<not> running s' \<and> contents s' = (contents s)(filename s \<mapsto> file_text (text_lines s))"
proof -
  have b: "body_ok s" using assms(1) by (simp add: good_def)
  then have no: "\<not> (\<exists>l<nat (vi_lines s). l \<ge> length (buffer s) \<or> 0 \<notin> set (buffer s ! l))" by (force simp: body_ok_def row_ok_def)
  have "printed (c_str b) = c_str b" if "b \<in> set (take (nat (vi_lines s)) (buffer s))" for b
    using file_text_set [of "c_str b" "text_lines s"] that assms(7) by (intro printed_ascii) (auto simp: text_lines_def)
  then have "concat (map (\<lambda>b. printed (c_str b) @ [10]) (take (nat (vi_lines s)) (buffer s))) = file_text (text_lines s)"
    unfolding file_text_def text_lines_def map_map by (intro arg_cong [of _ _ concat] map_cong) auto
  with no have sv: "save (s\<lparr>vi_cmd := [90]\<rparr>) = Some (s\<lparr>vi_cmd := [90], contents := (contents s)(filename s \<mapsto> file_text (text_lines s))\<rparr>)"
    using assms(5,6) by (simp add: save_def)
  show ?thesis
    using assms(2-4) sv
    by (simp add: process_input_def command_mode_input_def prefix_cmds_def c_str_def run_command_def Let_def left_keys_def right_keys_def
        up_keys_def down_keys_def quit_def)
qed

text \<open>
  C17: What is typed gets into the file.  Starting the editor on a text file, typing \<open>i\<close>, any text, the escape key and
  \<open>ZZ\<close> ends the editor and leaves the file with the text in front of its old contents, line breaks included, while every other
  file is unchanged; the text and the lines of the file stay within the limits of the buffer and are plain
  characters.
\<close>

theorem vi_insert_session:
  assumes f: "fs name = Some (file_text ls)" "ls \<noteq> []" "name \<noteq> []" "length name < 256" "wr name"
    and ls: "\<forall>l\<in>set ls. 10 \<notin> set l \<and> length l + length t \<le> 254" "length ls + length t \<le> 1024"
    and t: "\<forall>c\<in>set t \<union> set (file_text ls). 0 < sint c" "27 \<notin> set t" "127 \<notin> set t"
  shows "\<exists>s. vi_main (Some name) ([105] @ t @ [27, 90, 90]) fs wr = Some s \<and> \<not> running s \<and> contents s = fs(name \<mapsto> t @ file_text ls)"
proof -
  have rows: "file_rows (file_text ls) = map (\<lambda>l. l @ [10]) ls" using ls by (intro file_rows_text) auto
  have strip: "map strip_nl (map (\<lambda>l. l @ [10]) ls) = ls" by (simp add: strip_nl_def map_idI)
  have "fits (fs name)" using f(1) rows ls(2) by (simp add: fits_def)
  then obtain b l where l: "load_file name (vi_start fs wr) = Some (vi_start fs wr\<lparr>filename := name, buffer := b, vi_lines := l\<rparr>)"
    "good (vi_start fs wr\<lparr>filename := name, buffer := b, vi_lines := l\<rparr>)"
    and tl: "\<forall>tx. fs name = Some tx \<longrightarrow> tx \<noteq> [] \<longrightarrow> 0 \<notin> set tx \<longrightarrow>
      text_lines (vi_start fs wr\<lparr>filename := name, buffer := b, vi_lines := l\<rparr>) = map strip_nl (file_rows tx)"
    using start_good [of name fs wr] f(4) by blast
  define s0 where "s0 = vi_start fs wr\<lparr>filename := name, buffer := b, vi_lines := l\<rparr>"
  note l = l [folded s0_def] and tl = tl [folded s0_def]
  have "file_text ls \<noteq> []" using f(2) by (cases ls) auto
  moreover have "0 \<notin> set (file_text ls)" using t(1) by force
  ultimately have tx: "text_lines s0 = ls" using tl f(1) rows strip by simp
  let ?s1 = "s0\<lparr>vi_mode := ModeInsert, vi_cmd := [], vi_count := 0\<rparr>"
  have body: "body_ok s0" using l(2) by (simp add: good_def)
  have lines: "l = int (length ls)" using length_text_lines [OF body] body tx by (auto simp: body_ok_def s0_def)
  have i: "vi_run ([105] @ t @ [27, 90, 90]) s0 = vi_run (t @ [27, 90, 90]) ?s1"
    by (simp add: process_input_def command_mode_input_def prefix_cmds_def c_str_def run_command_def Let_def s0_def vi_start_def)
  have "typing ?s1" using l(2) by (simp add: typing_def good_def keys_ok_def body_ok_def cursor_ok_def cur_line_def s0_def vi_start_def)
  moreover have t1: "text_lines ?s1 = ls" using tx by (simp add: text_lines_def)
  moreover have "space_for (length t) ?s1" unfolding space_for_def t1 using ls lines by (auto simp: s0_def)
  moreover have "\<forall>c\<in>set t. c \<noteq> 0 \<and> c \<noteq> 27 \<and> c \<noteq> 127" using t by force
  ultimately obtain s2 where s2: "vi_run (t @ [27, 90, 90]) ?s1 = vi_run [27, 90, 90] s2" "typing s2" "same_file ?s1 s2"
    "file_text (text_lines s2) = insert_at (cursor_pos ?s1) t (file_text ls)" using type_keys [of ?s1 t "[27, 90, 90]"] by auto
  have tx2: "file_text (text_lines s2) = t @ file_text ls" using s2(4) by (simp add: insert_at_def cursor_pos_def s0_def vi_start_def)
  obtain s3 where s3: "vi_run [27, 90, 90] s2 = vi_run [90, 90] s3" "good s3" "vi_mode s3 = ModeCommand" "same_file s2 s3" "running s3" "text_lines s3 = text_lines s2"
    using escape_key [OF s2(2), of "[90, 90]"] by blast
  have sf: "vi_cmd s3 = []" "filename s3 = name" "contents s3 = fs" "writable s3 = wr" using s3(4) s2(3) by (simp_all add: same_file_def s0_def vi_start_def)
  have "\<forall>c\<in>set (file_text (text_lines s3)). 0 \<le> sint c" unfolding s3(6) tx2 set_append using t(1) less_imp_le by blast
  from write_quit [OF s3(2,3,5) sf(1) _ _ this] show ?thesis
    using f(3,5) l(1) i s2(1) s3(1,6) tx2 sf by (simp add: vi_main_def)
qed

theorem vi_insert_witness:
  "\<exists>s. vi_main (Some [102]) ([105] @ [104, 105, 10] @ [27, 90, 90]) [[102] \<mapsto> [120, 10]] (\<lambda>_. True) = Some s \<and> \<not> running s
    \<and> contents s = [[102] \<mapsto> [104, 105, 10, 120, 10]]"
  using vi_insert_session [of "[[102] \<mapsto> [120, 10]]" "[102]" "[[120]]" "\<lambda>_. True" "[104, 105, 10]"] by simp

end
