(* ===== verification/Boot.thy ===== *)
theory Boot
  imports Vmm Codec
begin

text \<open>
  Memory at the start of the kernel, \<open>mem_detect\<close> of \<open>sys/i386/mem.c\<close>: the memory map of the boot loader decides which
  pages the page allocator gives out.  The map is a sequence of bytes with entries of variable size.
\<close>

type_synonym u64 = "64 word"

record mmap_entry =
  mm_size :: u32
  mm_addr :: u64
  mm_len :: u64
  mm_type :: u32

definition get64 :: "bytes \<Rightarrow> nat \<Rightarrow> u64" where
  "get64 bs off = ucast (get32 bs off) OR push_bit 32 (ucast (get32 bs (off + 4)))"

definition entry_at :: "bytes \<Rightarrow> nat \<Rightarrow> mmap_entry option" where
  "entry_at bs off =
     (if off + 24 \<le> length bs then
        Some \<lparr>mm_size = get32 bs off, mm_addr = get64 bs (off + 4), mm_len = get64 bs (off + 12), mm_type = get32 bs (off + 20)\<rparr>
      else None)"

text \<open>The entries that the outer loop visits.\<close>

partial_function (option) mmap_list :: "bytes \<Rightarrow> u32 \<Rightarrow> u32 \<Rightarrow> mmap_entry list option" where
  "mmap_list bs mmap_length offset =
     (if offset < mmap_length then
        Option.bind (entry_at bs (unat offset)) (\<lambda>e.
        Option.bind (mmap_list bs mmap_length (offset + (mm_size e + 4))) (\<lambda>es. Some (e # es)))
      else Some [])"

text \<open>
  The inner loop.  The page address has 32 bits and the end of the region 64.  The kernel ends long before the last
  page of the address space, so \<open>vmm_free_page\<close> has panicked before the address could wrap around.
\<close>

function free_region :: "u32 \<Rightarrow> u64 \<Rightarrow> u32 \<Rightarrow> u32 \<Rightarrow> u32 kernel" where
  "free_region ke region_end page avail =
     (if ucast (page + of_nat PAGE_SIZE) < region_end then
        bindK (if page > ke then thenK (vmm_free_page page) (returnK (avail + of_nat PAGE_SIZE)) else returnK avail) (\<lambda>avail'.
        if page + of_nat PAGE_SIZE \<le> page then faultK else free_region ke region_end (page + of_nat PAGE_SIZE) avail')
      else returnK avail)"
  by pat_completeness auto
termination
  by (relation "measure (\<lambda>(ke, re, page, avail). 2 ^ 32 - unat page)")
    (auto simp: not_le word_less_nat_alt unat_of_nat intro!: diff_less_mono2 unat32_less [simplified])

declare free_region.simps [simp del]

definition first_page :: "u64 \<Rightarrow> u32" where
  "first_page addr = ucast ((addr + of_nat PAGE_SIZE - 1) AND 0xFFFFF000)"

definition add_region :: "u32 \<Rightarrow> mmap_entry \<Rightarrow> u32 \<times> u32 \<Rightarrow> (u32 \<times> u32) kernel" where
  "add_region ke e t =
     (case t of (real_mem, avail_mem) \<Rightarrow>
        bindK (if mm_type e = 1 then free_region ke (mm_addr e + mm_len e) (first_page (mm_addr e)) avail_mem else returnK avail_mem) (\<lambda>avail.
        returnK (real_mem + ucast (mm_len e), avail)))"

fun add_regions :: "u32 \<Rightarrow> mmap_entry list \<Rightarrow> u32 \<times> u32 \<Rightarrow> (u32 \<times> u32) kernel" where
  "add_regions ke [] t = returnK t"
| "add_regions ke (e # es) t = bindK (add_region ke e t) (add_regions ke es)"

text \<open>The information of the boot loader; the result is the two numbers that are printed.\<close>

record multiboot_info =
  mb_flags :: u32
  mem_lower :: u32
  mem_upper :: u32
  mmap_bytes :: bytes
  mmap_len :: u32

definition mem_detect :: "u32 \<Rightarrow> multiboot_info \<Rightarrow> (u32 \<times> u32) kernel" where
  "mem_detect ke mb =
     (if mb_flags mb AND 0x40 \<noteq> 0 then
        (case mmap_list (mmap_bytes mb) (mmap_len mb) 0 of None \<Rightarrow> faultK | Some es \<Rightarrow> add_regions ke es (0, 0))
      else if mb_flags mb AND 1 \<noteq> 0 then returnK (push_bit 10 (mem_lower mb + mem_upper mb), 0)
      else returnK (0, 0))"


section \<open>Reading the memory map\<close>

text \<open>A memory map as a boot loader lays it out; an entry may be longer than the fields the kernel knows.\<close>

definition le64 :: "u64 \<Rightarrow> bytes" where
  "le64 w = le32 (ucast w) @ le32 (ucast (drop_bit 32 w))"

definition entry_bytes :: "mmap_entry \<Rightarrow> bytes" where
  "entry_bytes e = le32 (mm_size e) @ le64 (mm_addr e) @ le64 (mm_len e) @ le32 (mm_type e) @ replicate (unat (mm_size e) - 20) 0"

definition map_bytes :: "mmap_entry list \<Rightarrow> bytes" where
  "map_bytes es = concat (map entry_bytes es)"

lemma length_le64 [simp]: "length (le64 w) = 8"
  by (simp add: le64_def)

lemma get64_le64: "get64 (xs @ le64 w @ ys) (length xs) = w"
proof -
  have "get32 (xs @ le64 w @ ys) (length xs) = ucast w"
    using get32_le32 [of xs "ucast w" "le32 (ucast (drop_bit 32 w)) @ ys"] by (simp add: le64_def)
  moreover have "get32 (xs @ le64 w @ ys) (length xs + 4) = ucast (drop_bit 32 w)"
    using get32_le32 [of "xs @ le32 (ucast w)" "ucast (drop_bit 32 w)" ys] by (simp add: le64_def)
  moreover have "ucast (ucast w :: u32) OR push_bit 32 (ucast (ucast (drop_bit 32 w) :: u32)) = w"
    by (rule bit_word_eqI) (auto simp: bit_simps not_less)
  ultimately show ?thesis by (simp add: get64_def)
qed

lemma length_entry_bytes: "20 \<le> mm_size e \<Longrightarrow> length (entry_bytes e) = unat (mm_size e) + 4"
  by (simp add: entry_bytes_def word_le_nat_alt)

lemma entry_at_entry:
  assumes "20 \<le> mm_size e"
  shows "entry_at (xs @ entry_bytes e @ ys) (length xs) = Some e"
proof -
  let ?pad = "replicate (unat (mm_size e) - 20) 0 @ ys"
  have b: "xs @ entry_bytes e @ ys = xs @ le32 (mm_size e) @ le64 (mm_addr e) @ le64 (mm_len e) @ le32 (mm_type e) @ ?pad"
    by (simp add: entry_bytes_def)
  show ?thesis
    unfolding b
    using get32_le32 [of xs "mm_size e" "le64 (mm_addr e) @ le64 (mm_len e) @ le32 (mm_type e) @ ?pad"]
      get64_le64 [of "xs @ le32 (mm_size e)" "mm_addr e" "le64 (mm_len e) @ le32 (mm_type e) @ ?pad"]
      get64_le64 [of "xs @ le32 (mm_size e) @ le64 (mm_addr e)" "mm_len e" "le32 (mm_type e) @ ?pad"]
      get32_le32 [of "xs @ le32 (mm_size e) @ le64 (mm_addr e) @ le64 (mm_len e)" "mm_type e" ?pad]
    by (simp add: entry_at_def)
qed

lemma mmap_list_bytes:
  assumes "\<forall>e\<in>set es. 20 \<le> mm_size e" "length (xs @ map_bytes es) < 2 ^ 32"
  shows "mmap_list (xs @ map_bytes es) (of_nat (length (xs @ map_bytes es))) (of_nat (length xs)) = Some es"
  using assms
proof (induction es arbitrary: xs)
  case Nil
  then show ?case by (subst mmap_list.simps) (simp add: map_bytes_def)
next
  case (Cons e es)
  let ?bs = "xs @ map_bytes (e # es)"
  have bs: "?bs = xs @ entry_bytes e @ map_bytes es" "?bs = (xs @ entry_bytes e) @ map_bytes es" by (simp_all add: map_bytes_def)
  have u: "unat (of_nat (length xs) :: u32) = length xs" "unat (of_nat (length ?bs) :: u32) = length ?bs"
    using Cons.prems(2) by (rule_tac unat_of_nat_small, simp)+
  have e: "length (entry_bytes e) = unat (mm_size e) + 4" using Cons.prems(1) length_entry_bytes by simp
  then have "(of_nat (length xs) :: u32) < of_nat (length ?bs)" unfolding word_less_nat_alt u by (simp add: bs(1))
  moreover have "of_nat (length xs) + (mm_size e + 4) = (of_nat (length (xs @ entry_bytes e)) :: u32)" using e by simp
  moreover have "mmap_list ?bs (of_nat (length ?bs)) (of_nat (length (xs @ entry_bytes e))) = Some es"
    unfolding bs(2) using Cons.IH [of "xs @ entry_bytes e"] Cons.prems bs(2) by simp
  moreover have "entry_at ?bs (length xs) = Some e" using entry_at_entry [of e xs "map_bytes es"] Cons.prems(1) by (simp add: bs(1))
  ultimately show ?case by (subst mmap_list.simps) (simp add: u)
qed

section \<open>The pages of a region\<close>

definition region_pages :: "nat \<Rightarrow> nat \<Rightarrow> nat \<Rightarrow> nat set" where
  "region_pages k a e = {p. a \<le> p * PAGE_SIZE \<and> (p + 1) * PAGE_SIZE < e \<and> k < p * PAGE_SIZE}"

lemma region_pages_step:
  "region_pages k (q * PAGE_SIZE) e =
     (if (q + 1) * PAGE_SIZE < e then (if k < q * PAGE_SIZE then {q} else {}) \<union> region_pages k ((q + 1) * PAGE_SIZE) e else {})"
proof (rule set_eqI)
  fix p
  consider "p < q" | "p = q" | "q + 1 \<le> p" by linarith
  then show "p \<in> region_pages k (q * PAGE_SIZE) e \<longleftrightarrow>
      p \<in> (if (q + 1) * PAGE_SIZE < e then (if k < q * PAGE_SIZE then {q} else {}) \<union> region_pages k ((q + 1) * PAGE_SIZE) e else {})"
  proof cases
    case 3
    then have "q * PAGE_SIZE + PAGE_SIZE \<le> p * PAGE_SIZE" by simp
    then show ?thesis using 3 by (simp add: region_pages_def)
  qed (auto simp: region_pages_def)
qed

lemma finite_region [simp]: "finite (region_pages k a e)"
  by (rule finite_subset [of _ "{..e}"]) (auto simp: region_pages_def)

lemma free_region_end: "\<not> ucast (w + of_nat PAGE_SIZE) < re \<Longrightarrow> free_region ke re w avail s = Ok avail s"
  by (subst free_region.simps) (simp add: kern_simps)

lemma free_region_skip:
  "ucast (w + of_nat PAGE_SIZE) < re \<Longrightarrow> \<not> w + of_nat PAGE_SIZE \<le> w \<Longrightarrow> \<not> ke < w \<Longrightarrow>
   free_region ke re w avail s = free_region ke re (w + of_nat PAGE_SIZE) avail s"
  by (subst free_region.simps) (simp add: kern_simps)

lemma free_region_page:
  "ucast (w + of_nat PAGE_SIZE) < re \<Longrightarrow> \<not> w + of_nat PAGE_SIZE \<le> w \<Longrightarrow> ke < w \<Longrightarrow> vmm_free_page w s = Ok r t \<Longrightarrow>
   free_region ke re w avail s = free_region ke re (w + of_nat PAGE_SIZE) (avail + of_nat PAGE_SIZE) t"
  by (subst free_region.simps) (simp add: kern_simps bindK_def thenK_def)

lemma free_region_run:
  assumes "vmm_inv s" "unat re \<le> 2 ^ 27" "q * PAGE_SIZE \<le> 2 ^ 27" "region_pages (unat ke) (q * PAGE_SIZE) (unat re) \<subseteq> pages_used s"
  shows "\<exists>bm. free_region ke re (of_nat (q * PAGE_SIZE)) avail s
      = Ok (avail + of_nat (PAGE_SIZE * card (region_pages (unat ke) (q * PAGE_SIZE) (unat re)))) (s\<lparr>vmm_bitmap := bm\<rparr>)
    \<and> vmm_inv (s\<lparr>vmm_bitmap := bm\<rparr>)
    \<and> pages_used (s\<lparr>vmm_bitmap := bm\<rparr>) = pages_used s - region_pages (unat ke) (q * PAGE_SIZE) (unat re)"
  using assms
proof (induction "2 ^ 27 - q * PAGE_SIZE" arbitrary: q s avail rule: less_induct)
  case less
  let ?w = "of_nat (q * PAGE_SIZE) :: u32" and ?w' = "of_nat ((q + 1) * PAGE_SIZE) :: u32"
  let ?R = "region_pages (unat ke) (q * PAGE_SIZE) (unat re)" and ?R' = "region_pages (unat ke) ((q + 1) * PAGE_SIZE) (unat re)"
  have u: "unat ?w = q * PAGE_SIZE" "unat ?w' = (q + 1) * PAGE_SIZE" using less.prems(3) by (rule_tac unat_of_nat_small, simp)+
  have nxt: "?w + of_nat PAGE_SIZE = ?w'" by (simp add: algebra_simps)
  have big: "(ucast ?w' < re) = ((q + 1) * PAGE_SIZE < unat re)" using u(2) less.prems(3) by (simp add: word_less_nat_alt unsigned_ucast_eq take_bit_nat_eq_self del: of_nat_mult)
  have ke: "(ke < ?w) = (unat ke < q * PAGE_SIZE)" using u(1) by (simp add: word_less_nat_alt del: of_nat_mult)
  have wrap: "\<not> ?w' \<le> ?w" unfolding word_le_nat_alt u by simp
  show ?case
  proof (cases "(q + 1) * PAGE_SIZE < unat re")
    case False
    then have "?R = {}" by (subst region_pages_step) simp
    then show ?thesis using free_region_end [of ?w re ke avail s, unfolded nxt] False big less.prems(1) by (intro exI [of _ "vmm_bitmap s"]) simp
  next
    case True
    have R: "?R = (if unat ke < q * PAGE_SIZE then {q} else {}) \<union> ?R'" using True by (subst region_pages_step) simp
    have new: "q \<notin> ?R'" by (simp add: region_pages_def)
    have q: "q < 32768" using True less.prems(2) by simp
    have dec: "2 ^ 27 - (q + 1) * PAGE_SIZE < 2 ^ 27 - q * PAGE_SIZE" "(q + 1) * PAGE_SIZE \<le> 2 ^ 27" using True less.prems(2) by auto
    show ?thesis
    proof (cases "unat ke < q * PAGE_SIZE")
      case False
      then obtain bm where "free_region ke re ?w' avail s = Ok (avail + of_nat (PAGE_SIZE * card ?R')) (s\<lparr>vmm_bitmap := bm\<rparr>)"
        "vmm_inv (s\<lparr>vmm_bitmap := bm\<rparr>)" "pages_used (s\<lparr>vmm_bitmap := bm\<rparr>) = pages_used s - ?R'"
        using less.hyps [OF dec(1) less.prems(1,2) dec(2), of avail] less.prems(4) R by auto
      then show ?thesis using free_region_skip [of ?w re ke avail s, unfolded nxt, OF _ wrap] False True ke big R by (intro exI [of _ bm]) simp
    next
      case k: True
      let ?bm = "(vmm_bitmap s)[q div 8 := vmm_bitmap s ! (q div 8) AND NOT (mask1 (q mod 8))]"
      let ?s = "s\<lparr>vmm_bitmap := ?bm\<rparr>"
      have "q \<in> pages_used s" using less.prems(4) R k by auto
      then have run: "vmm_free_page ?w s = Ok 0 ?s" using vmm_free_page_exec [OF less.prems(1) q] by simp
      have pu: "pages_used ?s = pages_used s - {q}" using pages_used_free [OF less.prems(1) q] by simp
      have "vmm_inv ?s" using less.prems(1) by (simp add: vmm_inv_def)
      moreover have "?R' \<subseteq> pages_used ?s" using less.prems(4) R new pu by auto
      ultimately obtain bm where bm:
        "free_region ke re ?w' (avail + of_nat PAGE_SIZE) ?s = Ok (avail + of_nat PAGE_SIZE + of_nat (PAGE_SIZE * card ?R')) (?s\<lparr>vmm_bitmap := bm\<rparr>)"
        "vmm_inv (?s\<lparr>vmm_bitmap := bm\<rparr>)" "pages_used (?s\<lparr>vmm_bitmap := bm\<rparr>) = pages_used ?s - ?R'"
        using less.hyps [OF dec(1) _ less.prems(2) dec(2), of ?s "avail + of_nat PAGE_SIZE"] by auto
      have "card ?R = Suc (card ?R')" using R k new by simp
      then have c: "avail + of_nat PAGE_SIZE + of_nat (PAGE_SIZE * card ?R') = avail + of_nat (PAGE_SIZE * card ?R)" by (simp add: algebra_simps)
      have "free_region ke re ?w avail s = Ok (avail + of_nat (PAGE_SIZE * card ?R)) (s\<lparr>vmm_bitmap := bm\<rparr>)"
        using free_region_page [of ?w re ke s, unfolded nxt, OF _ wrap _ run] bm(1) True k ke big c by simp
      then show ?thesis using bm(2,3) pu R k by (intro exI [of _ bm]) auto
    qed
  qed
qed

text \<open>The pages that an entry of the map gives to the allocator.\<close>

definition entry_pages :: "u32 \<Rightarrow> mmap_entry \<Rightarrow> nat set" where
  "entry_pages ke e =
     (if mm_type e = 1 then region_pages (unat ke) (unat (mm_addr e)) (unat (mm_addr e) + unat (mm_len e)) else {})"

lemma finite_entry_pages [simp]: "finite (entry_pages ke e)"
  by (simp add: entry_pages_def)

lemma page_mask: "(w :: u32) AND 0xFFFFF000 = of_nat (unat w div PAGE_SIZE * PAGE_SIZE)"
proof -
  have m: "(0xFFFFF000 :: u32) = push_bit 12 (mask 20)" by (simp add: mask_eq_exp_minus_1 push_bit_eq_mult)
  have "w AND 0xFFFFF000 = push_bit 12 (drop_bit 12 w)" unfolding m by (rule bit_word_eqI) (auto simp: bit_simps)
  also have "unat \<dots> = unat w div PAGE_SIZE * PAGE_SIZE mod 2 ^ 32"
    by (simp add: push_bit_eq_mult unat_word_ariths drop_bit_eq_div unat_div mod_mult_left_eq)
  finally have "unat (w AND 0xFFFFF000) = unat (of_nat (unat w div PAGE_SIZE * PAGE_SIZE) :: u32)"
    by (simp add: unat_of_nat del: of_nat_mult)
  then show ?thesis by (simp only: word_unat_eq_iff)
qed

lemma first_page_nat:
  assumes "unat a \<le> 2 ^ 27"
  shows "first_page a = of_nat ((unat a + 4095) div PAGE_SIZE * PAGE_SIZE)"
proof -
  have u: "unat (a + 4095) = unat a + 4095" using assms by (subst unat_add_lem [THEN iffD1]) simp_all
  have "unat (ucast (a + 4095) :: u32) = unat a + 4095" using u assms by (simp add: unsigned_ucast_eq take_bit_nat_eq_self)
  moreover have "first_page a = ucast (a + 4095) AND 0xFFFFF000" 
  proof -
    have "a + of_nat PAGE_SIZE - 1 = a + 4095" by simp
    then show ?thesis unfolding first_page_def by (simp only: unsigned_and_eq) simp
  qed
  ultimately show ?thesis using page_mask [of "ucast (a + 4095)"] by simp
qed

lemma add_region_run:
  assumes "vmm_inv s" "mm_type e = 1 \<Longrightarrow> unat (mm_addr e) + unat (mm_len e) \<le> 2 ^ 27" "entry_pages ke e \<subseteq> pages_used s"
  shows "\<exists>bm. add_region ke e (r, a) s = Ok (r + ucast (mm_len e), a + of_nat (PAGE_SIZE * card (entry_pages ke e))) (s\<lparr>vmm_bitmap := bm\<rparr>)
    \<and> vmm_inv (s\<lparr>vmm_bitmap := bm\<rparr>) \<and> pages_used (s\<lparr>vmm_bitmap := bm\<rparr>) = pages_used s - entry_pages ke e"
proof (cases "mm_type e = 1")
  case False
  then show ?thesis using assms(1) by (intro exI [of _ "vmm_bitmap s"]) (simp add: add_region_def entry_pages_def kern_simps)
next
  case True
  let ?a = "unat (mm_addr e)" and ?re = "mm_addr e + mm_len e"
  let ?q = "(?a + 4095) div PAGE_SIZE"
  have le: "?a + unat (mm_len e) \<le> 2 ^ 27" using assms(2) True by simp
  then have re: "unat ?re = ?a + unat (mm_len e)" by (subst unat_add_lem [THEN iffD1]) simp_all
  have up: "?a \<le> p * PAGE_SIZE \<longleftrightarrow> ?q * PAGE_SIZE \<le> p * PAGE_SIZE" for p
  proof -
    have "?q \<le> p \<longleftrightarrow> ?a \<le> p * 4096" by (simp add: less_Suc_eq_le [symmetric] div_less_iff_less_mult)
    then show ?thesis by simp
  qed
  then have R: "entry_pages ke e = region_pages (unat ke) (?q * PAGE_SIZE) (unat ?re)"
    using True re by (simp add: entry_pages_def region_pages_def)
  have fp: "first_page (mm_addr e) = of_nat (?q * PAGE_SIZE)" using first_page_nat [of "mm_addr e"] le by simp
  have q: "?q * PAGE_SIZE \<le> 2 ^ 27"
  proof -
    have "?q \<le> 32768" using le by (simp add: less_Suc_eq_le [symmetric] div_less_iff_less_mult)
    then show ?thesis by simp
  qed
  from free_region_run [of s ?re ?q ke a, OF assms(1) _ q] obtain bm where
    "free_region ke ?re (of_nat (?q * PAGE_SIZE)) a s = Ok (a + of_nat (PAGE_SIZE * card (entry_pages ke e))) (s\<lparr>vmm_bitmap := bm\<rparr>)"
    "vmm_inv (s\<lparr>vmm_bitmap := bm\<rparr>)" "pages_used (s\<lparr>vmm_bitmap := bm\<rparr>) = pages_used s - entry_pages ke e"
    using re le assms(3) R by auto
  then show ?thesis using True fp by (intro exI [of _ bm]) (simp add: add_region_def bindK_def kern_simps del: of_nat_mult)
qed

text \<open>Two entries that do not both give memory, or give memory that does not overlap.\<close>

definition separate :: "mmap_entry \<Rightarrow> mmap_entry \<Rightarrow> bool" where
  "separate e f \<longleftrightarrow> (mm_type e = 1 \<and> mm_type f = 1 \<longrightarrow>
     unat (mm_addr e) + unat (mm_len e) \<le> unat (mm_addr f) \<or> unat (mm_addr f) + unat (mm_len f) \<le> unat (mm_addr e))"

lemma separate_pages: "separate e f \<Longrightarrow> entry_pages ke e \<inter> entry_pages ke f = {}"
  by (auto simp: separate_def entry_pages_def region_pages_def)

lemma add_regions_run:
  assumes "vmm_inv s" "\<forall>e\<in>set es. mm_type e = 1 \<longrightarrow> unat (mm_addr e) + unat (mm_len e) \<le> 2 ^ 27"
    "sorted_wrt separate es" "\<forall>e\<in>set es. entry_pages ke e \<subseteq> pages_used s"
  shows "\<exists>bm. add_regions ke es (r, a) s
      = Ok (r + (\<Sum>e\<leftarrow>es. ucast (mm_len e)), a + of_nat (PAGE_SIZE * card (\<Union>e\<in>set es. entry_pages ke e))) (s\<lparr>vmm_bitmap := bm\<rparr>)
    \<and> vmm_inv (s\<lparr>vmm_bitmap := bm\<rparr>) \<and> pages_used (s\<lparr>vmm_bitmap := bm\<rparr>) = pages_used s - (\<Union>e\<in>set es. entry_pages ke e)"
  using assms
proof (induction es arbitrary: s r a)
  case Nil
  then show ?case by (intro exI [of _ "vmm_bitmap s"]) (simp add: kern_simps)
next
  case (Cons e es)
  let ?U = "\<Union>e\<in>set es. entry_pages ke e"
  have dis: "entry_pages ke e \<inter> ?U = {}" using Cons.prems(3) separate_pages [of e] by auto
  obtain bm where bm: "add_region ke e (r, a) s = Ok (r + ucast (mm_len e), a + of_nat (PAGE_SIZE * card (entry_pages ke e))) (s\<lparr>vmm_bitmap := bm\<rparr>)"
    "vmm_inv (s\<lparr>vmm_bitmap := bm\<rparr>)" "pages_used (s\<lparr>vmm_bitmap := bm\<rparr>) = pages_used s - entry_pages ke e"
    using add_region_run [of s e ke r a] Cons.prems by auto
  have "\<forall>e'\<in>set es. entry_pages ke e' \<subseteq> pages_used (s\<lparr>vmm_bitmap := bm\<rparr>)" using Cons.prems(4) dis unfolding bm(3) by auto
  from Cons.IH [OF bm(2) _ _ this, of "r + ucast (mm_len e)" "a + of_nat (PAGE_SIZE * card (entry_pages ke e))"] Cons.prems(2,3) obtain bm' where bm':
    "add_regions ke es (r + ucast (mm_len e), a + of_nat (PAGE_SIZE * card (entry_pages ke e))) (s\<lparr>vmm_bitmap := bm\<rparr>)
      = Ok (r + ucast (mm_len e) + (\<Sum>e\<leftarrow>es. ucast (mm_len e)), a + of_nat (PAGE_SIZE * card (entry_pages ke e)) + of_nat (PAGE_SIZE * card ?U)) (s\<lparr>vmm_bitmap := bm'\<rparr>)"
    "vmm_inv (s\<lparr>vmm_bitmap := bm'\<rparr>)" "pages_used (s\<lparr>vmm_bitmap := bm'\<rparr>) = pages_used s - entry_pages ke e - ?U"
    using bm(3) by auto
  have "card (entry_pages ke e \<union> ?U) = card (entry_pages ke e) + card ?U" using dis by (intro card_Un_disjoint) auto
  then have c: "a + of_nat (PAGE_SIZE * card (entry_pages ke e)) + of_nat (PAGE_SIZE * card ?U) = a + of_nat (PAGE_SIZE * card (entry_pages ke e \<union> ?U))"
    by (simp add: algebra_simps)
  show ?case using bm(1) bm' c by (intro exI [of _ bm']) (auto simp: bindK_def add.assoc simp del: of_nat_mult)
qed

section \<open>Available memory is given to the allocator\<close>

text \<open>
  C20: the kernel starts with exactly the memory that the boot loader reports.  For any memory map whose entries are at
  least as long as the fields the kernel reads and whose available regions do not overlap and end below 128 MB,
  \<open>vmm_bitmap_init\<close> and \<open>mem_detect\<close> return, and a page is free afterwards exactly when it lies in an available region,
  ends before the end of that region, and is above the kernel; the numbers that are printed are the sum of the
  lengths of all regions and the size of the free pages.
\<close>

theorem mem_detect_correct:
  assumes "mb_flags mb AND 0x40 \<noteq> 0" "mmap_bytes mb = map_bytes es" "mmap_len mb = of_nat (length (map_bytes es))" "length (map_bytes es) < 2 ^ 32"
    "\<forall>e\<in>set es. 20 \<le> mm_size e" "\<forall>e\<in>set es. mm_type e = 1 \<longrightarrow> unat (mm_addr e) + unat (mm_len e) \<le> 2 ^ 27" "sorted_wrt separate es"
  shows "\<exists>t. thenK vmm_bitmap_init (mem_detect ke mb) s = Ok (\<Sum>e\<leftarrow>es. ucast (mm_len e), of_nat (PAGE_SIZE * card ({..<32768} - pages_used t))) t
    \<and> vmm_inv t
    \<and> (\<forall>p<32768. p \<notin> pages_used t \<longleftrightarrow> unat ke < p * PAGE_SIZE
         \<and> (\<exists>e\<in>set es. mm_type e = 1 \<and> unat (mm_addr e) \<le> p * PAGE_SIZE \<and> (p + 1) * PAGE_SIZE < unat (mm_addr e) + unat (mm_len e)))"
proof -
  let ?s = "s\<lparr>vmm_bitmap := replicate PAGE_BITMAP_SIZE 0xFF, vmm_bitmap_index := 0\<rparr>" and ?U = "\<Union>e\<in>set es. entry_pages ke e"
  have inv: "vmm_inv ?s" by (simp add: vmm_inv_def)
  have "{..<32768} \<subseteq> bmap_set (replicate PAGE_BITMAP_SIZE (0xFF :: u8))" using bmap_full_iff [of "replicate PAGE_BITMAP_SIZE (0xFF :: u8)"] by simp
  then have pu: "pages_used ?s = {..<32768}" using bmap_set_bound [of "replicate PAGE_BITMAP_SIZE (0xFF :: u8)"] by (auto simp: pages_used_def)
  have sub: "\<forall>e\<in>set es. entry_pages ke e \<subseteq> pages_used ?s" unfolding pu
  proof (intro ballI subsetI)
    fix e p
    assume e: "e \<in> set es" "p \<in> entry_pages ke e"
    then have "mm_type e = 1" "(p + 1) * PAGE_SIZE < unat (mm_addr e) + unat (mm_len e)" by (auto simp: entry_pages_def region_pages_def split: if_splits)
    with e(1) assms(6) have "(p + 1) * PAGE_SIZE < 2 ^ 27" by fastforce
    then show "p \<in> {..<32768}" by simp
  qed
  obtain bm where bm: "add_regions ke es (0, 0) ?s = Ok (0 + (\<Sum>e\<leftarrow>es. ucast (mm_len e)), 0 + of_nat (PAGE_SIZE * card ?U)) (?s\<lparr>vmm_bitmap := bm\<rparr>)"
    "vmm_inv (?s\<lparr>vmm_bitmap := bm\<rparr>)" "pages_used (?s\<lparr>vmm_bitmap := bm\<rparr>) = pages_used ?s - ?U"
    using add_regions_run [OF inv assms(6,7) sub, of 0 0] by blast
  have U: "{..<32768} - pages_used (?s\<lparr>vmm_bitmap := bm\<rparr>) = ?U" using sub unfolding bm(3) pu by auto
  have "mmap_list (mmap_bytes mb) (mmap_len mb) 0 = Some es" using mmap_list_bytes [OF assms(5), of "[]"] assms(2-4) by simp
  then have run: "thenK vmm_bitmap_init (mem_detect ke mb) s = Ok (\<Sum>e\<leftarrow>es. ucast (mm_len e), of_nat (PAGE_SIZE * card ?U)) (?s\<lparr>vmm_bitmap := bm\<rparr>)"
    using assms(1) bm(1) by (simp add: vmm_bitmap_init_def mem_detect_def kern_simps)
  have "p \<notin> pages_used (?s\<lparr>vmm_bitmap := bm\<rparr>) \<longleftrightarrow> unat ke < p * PAGE_SIZE
      \<and> (\<exists>e\<in>set es. mm_type e = 1 \<and> unat (mm_addr e) \<le> p * PAGE_SIZE \<and> (p + 1) * PAGE_SIZE < unat (mm_addr e) + unat (mm_len e))"
    if "p < 32768" for p
    using that unfolding bm(3) pu by (auto simp: entry_pages_def region_pages_def)
  then show ?thesis using run bm(2) U by (intro exI [of _ "?s\<lparr>vmm_bitmap := bm\<rparr>"]) simp
qed

text \<open>Two megabytes of memory; the last page of the second region stays used although all of it is available.\<close>

definition small_map :: "mmap_entry list" where
  "small_map = [\<lparr>mm_size = 20, mm_addr = 0, mm_len = 0x9FC00, mm_type = 1\<rparr>, \<lparr>mm_size = 24, mm_addr = 0x9FC00, mm_len = 0x400, mm_type = 2\<rparr>,
     \<lparr>mm_size = 20, mm_addr = 0x100000, mm_len = 0x100000, mm_type = 1\<rparr>]"

definition small_info :: multiboot_info where
  "small_info = \<lparr>mb_flags = 0x41, mem_lower = 639, mem_upper = 1024, mmap_bytes = map_bytes small_map, mmap_len = of_nat (length (map_bytes small_map))\<rparr>"

theorem mem_detect_witness:
  "\<exists>r a t. thenK vmm_bitmap_init (mem_detect 0x110000 small_info) bss_state = Ok (r, a) t
    \<and> 0x111 \<notin> pages_used t \<and> 0x110 \<in> pages_used t \<and> 0x1FE \<notin> pages_used t \<and> 0x1FF \<in> pages_used t"
proof -
  have "\<exists>t. thenK vmm_bitmap_init (mem_detect 0x110000 small_info) bss_state
      = Ok (\<Sum>e\<leftarrow>small_map. ucast (mm_len e), of_nat (PAGE_SIZE * card ({..<32768} - pages_used t))) t
    \<and> vmm_inv t
    \<and> (\<forall>p<32768. p \<notin> pages_used t \<longleftrightarrow> unat (0x110000 :: u32) < p * PAGE_SIZE
         \<and> (\<exists>e\<in>set small_map. mm_type e = 1 \<and> unat (mm_addr e) \<le> p * PAGE_SIZE \<and> (p + 1) * PAGE_SIZE < unat (mm_addr e) + unat (mm_len e)))"
  proof (rule mem_detect_correct)
    show "length (map_bytes small_map) < 2 ^ 32" by (simp add: map_bytes_def small_map_def length_entry_bytes)
  qed (simp_all add: small_info_def small_map_def separate_def)
  then obtain t where t: "thenK vmm_bitmap_init (mem_detect 0x110000 small_info) bss_state
      = Ok (\<Sum>e\<leftarrow>small_map. ucast (mm_len e), of_nat (PAGE_SIZE * card ({..<32768} - pages_used t))) t"
    "\<forall>p<32768. p \<notin> pages_used t \<longleftrightarrow> unat (0x110000 :: u32) < p * PAGE_SIZE
         \<and> (\<exists>e\<in>set small_map. mm_type e = 1 \<and> unat (mm_addr e) \<le> p * PAGE_SIZE \<and> (p + 1) * PAGE_SIZE < unat (mm_addr e) + unat (mm_len e))"
    by blast
  show ?thesis using t(1) t(2) [THEN spec, of "0x111"] t(2) [THEN spec, of "0x110"] t(2) [THEN spec, of "0x1FE"] t(2) [THEN spec, of "0x1FF"] by (auto simp: small_map_def)
qed

text \<open>Memory above 128 MB stops the kernel: a page of it cannot be marked.\<close>

lemma high_memory_panics:
  "2 ^ 27 \<le> unat w \<Longrightarrow> ke < w \<Longrightarrow> \<not> w + of_nat PAGE_SIZE \<le> w \<Longrightarrow> ucast (w + of_nat PAGE_SIZE) < re \<Longrightarrow>
   free_region ke re w avail s = Panic ''free page out of bounds''"
  by (subst free_region.simps)
    (simp add: vmm_free_page_def page_no_def Let_def bindK_def thenK_def kern_simps less_eq_div_iff_mult_less_eq)

end
