(* ===== verification/Pci.thy ===== *)
theory Pci
  imports Prelude
begin

text \<open>
  The functions of the PCI bus, \<open>sys/dev/pci.c\<close>: every bus, slot and function is asked for its header through the
  configuration ports.  What the bus answers is a function from configuration addresses to registers.
\<close>

section \<open>Headers\<close>

abbreviation (input) PCI_MAX_DEV :: nat where "PCI_MAX_DEV \<equiv> 16"

text \<open>The union of the structure and the sixteen registers is the registers; the fields are cut out of them.\<close>

record pci_dev =
  pci_bus :: u8
  pci_slot :: u8
  pci_function :: u8
  pci_raw :: "u32 list"

definition vendor_id :: "u32 list \<Rightarrow> u16" where
  "vendor_id raw = ucast (raw ! 0)"

definition device_id :: "u32 list \<Rightarrow> u16" where
  "device_id raw = ucast (drop_bit 16 (raw ! 0))"

definition pci_bar0 :: "u32 list \<Rightarrow> u32" where
  "pci_bar0 raw = raw ! 4"

definition pci_irq :: "u32 list \<Rightarrow> u8" where
  "pci_irq raw = ucast (raw ! 15)"

definition zero_dev :: pci_dev where
  "zero_dev = \<lparr>pci_bus = 0, pci_slot = 0, pci_function = 0, pci_raw = replicate 16 0\<rparr>"

definition pci_address :: "u32 \<Rightarrow> u32 \<Rightarrow> u32 \<Rightarrow> u8 \<Rightarrow> u32" where
  "pci_address bus slot func offset =
     push_bit 16 bus OR push_bit 11 slot OR push_bit 8 func OR ucast (offset AND 0xFC) OR 0x80000000"

section \<open>Probing\<close>

text \<open>The loop over the registers of a header, from register \<open>i\<close> on.\<close>

function read_hdr :: "(u32 \<Rightarrow> u32) \<Rightarrow> nat \<Rightarrow> u32 \<Rightarrow> u32 list \<Rightarrow> u32 list" where
  "read_hdr inl i address raw =
     (if i < 16 then
        (let raw' = raw[i := inl address]
         in if vendor_id raw' = 0xFFFF then raw' else read_hdr inl (Suc i) (address + 4) raw')
      else raw)"
  by pat_completeness auto
termination by (relation "measure (\<lambda>(inl, i, address, raw). 16 - i)") auto

declare read_hdr.simps [simp del]

text \<open>
  The body of the three loops.  The table and the number of devices found; the entry behind the last device is
  written for functions that do not exist, too.
\<close>

definition probe_function :: "(u32 \<Rightarrow> u32) \<Rightarrow> nat \<times> nat \<times> nat \<Rightarrow> pci_dev list \<times> nat \<Rightarrow> (pci_dev list \<times> nat) option" where
  "probe_function inl p t =
     (case p of (bus, slot, func) \<Rightarrow> case t of (devs, n) \<Rightarrow>
        if n < length devs then
          (let raw = read_hdr inl 0 (pci_address (of_nat bus) (of_nat slot) (of_nat func) 0) (pci_raw (devs ! n));
               dev = (devs ! n)\<lparr>pci_raw := raw\<rparr>
           in if vendor_id raw \<noteq> 0xFFFF
              then Some (devs[n := dev\<lparr>pci_bus := of_nat bus, pci_slot := of_nat slot, pci_function := of_nat func\<rparr>], Suc n)
              else Some (devs[n := dev], n))
        else None)"

fun probe_all :: "(u32 \<Rightarrow> u32) \<Rightarrow> (nat \<times> nat \<times> nat) list \<Rightarrow> pci_dev list \<times> nat \<Rightarrow> (pci_dev list \<times> nat) option" where
  "probe_all inl [] t = Some t"
| "probe_all inl (p # ps) t = Option.bind (probe_function inl p t) (probe_all inl ps)"

definition pci_functions :: "(nat \<times> nat \<times> nat) list" where
  "pci_functions = List.product [0..<256] (List.product [0..<32] [0..<8])"

definition pci_probe :: "(u32 \<Rightarrow> u32) \<Rightarrow> (pci_dev list \<times> nat) option" where
  "pci_probe inl = probe_all inl pci_functions (replicate PCI_MAX_DEV zero_dev, 0)"

text \<open>What \<open>pci_write_hdr_reg\<close> writes: an address and a register.\<close>

definition pci_write_hdr_reg :: "pci_dev \<Rightarrow> u8 \<Rightarrow> u32 \<times> u32" where
  "pci_write_hdr_reg dev offset =
     (pci_address (ucast (pci_bus dev)) (ucast (pci_slot dev)) (ucast (pci_function dev)) offset, pci_raw dev ! unat (drop_bit 2 offset))"

section \<open>Every function is found\<close>

definition address_of :: "nat \<times> nat \<times> nat \<Rightarrow> nat \<Rightarrow> u32" where
  "address_of p i = (case p of (bus, slot, func) \<Rightarrow> pci_address (of_nat bus) (of_nat slot) (of_nat func) (of_nat (4 * i)))"

definition is_there :: "(u32 \<Rightarrow> u32) \<Rightarrow> nat \<times> nat \<times> nat \<Rightarrow> bool" where
  "is_there inl p \<longleftrightarrow> (ucast (inl (address_of p 0)) :: u16) \<noteq> 0xFFFF"

definition device_at :: "(u32 \<Rightarrow> u32) \<Rightarrow> nat \<times> nat \<times> nat \<Rightarrow> pci_dev" where
  "device_at inl p = (case p of (bus, slot, func) \<Rightarrow>
     \<lparr>pci_bus = of_nat bus, pci_slot = of_nat slot, pci_function = of_nat func, pci_raw = map (\<lambda>i. inl (address_of p i)) [0..<16]\<rparr>)"

lemma address_step:
  assumes "i < 16"
  shows "address_of p 0 + of_nat (4 * i) = address_of p i"
proof -
  obtain b s f where p: "p = (b, s, f)" by (cases p)
  let ?a = "push_bit 16 (of_nat b) OR push_bit 11 (of_nat s) OR push_bit 8 (of_nat f) OR 0x80000000 :: u32"
  let ?w = "ucast (of_nat (4 * i) AND 0xFC :: u8) :: u32"
  have top: "(0x80000000 :: u32) = push_bit 31 1" by (simp add: push_bit_eq_mult)
  have "\<not> bit ?a n \<or> \<not> bit ?w n" for n
    unfolding top bit_or_iff bit_push_bit_iff by (cases "n < 8") (auto simp: bit_simps)
  then have "?a + ?w = ?a OR ?w" by (intro disjunctive_add_eq_or) (auto intro!: bit_word_eqI simp: bit_simps)
  moreover have "?w = of_nat (4 * i)"
  proof -
    have "i \<in> set [0..<16]" using assms by simp
    then show ?thesis by (simp add: upt_conv_Cons) (elim disjE; simp)
  qed
  ultimately show ?thesis by (simp add: p address_of_def pci_address_def or.assoc or.commute or.left_commute)
qed

lemma read_hdr_rest:
  assumes "length raw = 16" "vendor_id raw \<noteq> 0xFFFF" "0 < i" "i \<le> 16"
  shows "read_hdr inl i a raw = take i raw @ map (\<lambda>k. inl (a + of_nat (4 * k))) [0..<16 - i]"
  using assms
proof (induction "16 - i" arbitrary: i a raw)
  case 0
  then show ?case by (subst read_hdr.simps) simp
next
  case (Suc m)
  let ?raw = "raw[i := inl a]"
  have i: "i < 16" "16 - i = Suc (16 - Suc i)" "m = 16 - Suc i" using Suc.hyps(2) by simp_all
  have v: "vendor_id ?raw \<noteq> 0xFFFF" using Suc.prems by (simp add: vendor_id_def)
  have "read_hdr inl i a raw = read_hdr inl (Suc i) (a + 4) ?raw" using i(1) v by (subst read_hdr.simps) (simp add: Let_def)
  also have "\<dots> = take (Suc i) ?raw @ map (\<lambda>k. inl (a + 4 + of_nat (4 * k))) [0..<16 - Suc i]"
    using Suc.hyps(1) [OF i(3), of ?raw] Suc.prems(1) v i(1) by simp
  also have "take (Suc i) ?raw = take i raw @ [inl a]" using Suc.prems(1) i(1) by (simp add: take_Suc_conv_app_nth)
  also have "map (\<lambda>k. inl (a + 4 + of_nat (4 * k))) [0..<16 - Suc i] = map (\<lambda>k. inl (a + of_nat (4 * Suc k))) [0..<16 - Suc i]"
    by (simp add: algebra_simps)
  finally show ?case unfolding i(2) upt_conv_Cons [OF zero_less_Suc] map_Suc_upt [symmetric] by (simp add: comp_def)
qed

lemma read_hdr_there:
  assumes "length raw = 16" "is_there inl p"
  shows "read_hdr inl 0 (address_of p 0) raw = map (\<lambda>i. inl (address_of p i)) [0..<16]"
proof -
  let ?a = "address_of p 0"
  have v: "vendor_id (raw[0 := inl ?a]) \<noteq> 0xFFFF" using assms by (simp add: vendor_id_def is_there_def)
  then have "read_hdr inl 0 ?a raw = read_hdr inl 1 (?a + 4) (raw[0 := inl ?a])" by (subst read_hdr.simps) (simp add: Let_def)
  also have "\<dots> = take 1 (raw[0 := inl ?a]) @ map (\<lambda>k. inl (?a + 4 + of_nat (4 * k))) [0..<16 - 1]"
    by (rule read_hdr_rest) (use assms v in simp_all)
  also have "\<dots> = map (\<lambda>k. inl (?a + of_nat (4 * k))) [0..<16]"
    using assms(1) by (cases raw) (simp_all add: upt_conv_Cons algebra_simps)
  also have "\<dots> = map (\<lambda>i. inl (address_of p i)) [0..<16]" by (intro map_cong refl) (simp add: address_step del: of_nat_mult)
  finally show ?thesis .
qed

lemma read_hdr_absent: "length raw = 16 \<Longrightarrow> \<not> is_there inl p \<Longrightarrow> read_hdr inl 0 (address_of p 0) raw = raw[0 := inl (address_of p 0)]"
  by (subst read_hdr.simps) (simp add: vendor_id_def is_there_def Let_def)

definition table_ok :: "pci_dev list \<Rightarrow> bool" where
  "table_ok devs \<longleftrightarrow> length devs = PCI_MAX_DEV \<and> (\<forall>d\<in>set devs. length (pci_raw d) = 16)"

lemma probe_function_run:
  assumes "table_ok devs" "n < PCI_MAX_DEV"
  shows "\<exists>d. table_ok (devs[n := d]) \<and> probe_function inl p (devs, n) = Some (devs[n := d], if is_there inl p then Suc n else n)
    \<and> (is_there inl p \<longrightarrow> d = device_at inl p)"
proof -
  obtain b s f where p: "p = (b, s, f)" by (cases p)
  have n: "n < length devs" "length (pci_raw (devs ! n)) = 16" using assms by (auto simp: table_ok_def)
  have a: "pci_address (of_nat b) (of_nat s) (of_nat f) 0 = address_of p 0" by (simp add: p address_of_def)
  have ok: "table_ok (devs[n := d])" if "length (pci_raw d) = 16" for d
    using assms(1) that set_update_subset_insert [of devs n d] by (auto simp: table_ok_def)
  show ?thesis
  proof (cases "is_there inl p")
    case True
    have eq: "r\<lparr>pci_raw := x, pci_bus := bb, pci_slot := ss, pci_function := ff\<rparr> = \<lparr>pci_bus = bb, pci_slot = ss, pci_function = ff, pci_raw = x\<rparr>" for r x bb ss ff
      by (cases r) simp
    have "vendor_id (map (\<lambda>i. inl (address_of p i)) [0..<16]) \<noteq> 0xFFFF" using True by (simp add: vendor_id_def is_there_def)
    then show ?thesis using True n read_hdr_there [OF n(2) True] ok [of "device_at inl p"]
      by (intro exI [of _ "device_at inl p"]) (simp add: probe_function_def p a [unfolded p] device_at_def Let_def eq)
  next
    case False
    let ?raw = "(pci_raw (devs ! n))[0 := inl (address_of p 0)]"
    have "vendor_id ?raw = 0xFFFF" using False n by (simp add: vendor_id_def is_there_def)
    then show ?thesis using False n read_hdr_absent [OF n(2) False] ok [of "(devs ! n)\<lparr>pci_raw := ?raw\<rparr>"]
      by (intro exI [of _ "(devs ! n)\<lparr>pci_raw := ?raw\<rparr>"]) (simp add: probe_function_def p a [unfolded p] Let_def)
  qed
qed

lemma probe_all_run:
  assumes "table_ok devs" "n + length (filter (is_there inl) ps) < PCI_MAX_DEV"
  shows "\<exists>devs'. probe_all inl ps (devs, n) = Some (devs', n + length (filter (is_there inl) ps)) \<and> table_ok devs'
    \<and> take (n + length (filter (is_there inl) ps)) devs' = take n devs @ map (device_at inl) (filter (is_there inl) ps)"
  using assms
proof (induction ps arbitrary: devs n)
  case (Cons p ps)
  obtain d where d: "table_ok (devs[n := d])" "probe_function inl p (devs, n) = Some (devs[n := d], if is_there inl p then Suc n else n)"
    "is_there inl p \<longrightarrow> d = device_at inl p"
    using probe_function_run [of devs n inl p] Cons.prems by auto
  have "n < length devs" using Cons.prems by (simp add: table_ok_def)
  then show ?case
    using Cons.IH [OF d(1), of "if is_there inl p then Suc n else n"] d(2,3) Cons.prems(2)
    by (auto simp: take_Suc_conv_app_nth split: if_splits)
qed simp

lemma probe_all_full: "n = PCI_MAX_DEV \<Longrightarrow> table_ok devs \<Longrightarrow> ps \<noteq> [] \<Longrightarrow> probe_all inl ps (devs, n) = None"
  by (cases ps) (auto simp: probe_function_def table_ok_def)

lemma probe_all_overflow:
  assumes "table_ok devs" "n \<le> PCI_MAX_DEV" "PCI_MAX_DEV < n + length (filter (is_there inl) ps)"
  shows "probe_all inl ps (devs, n) = None"
  using assms
proof (induction ps arbitrary: devs n)
  case (Cons p ps)
  show ?case
  proof (cases "n = PCI_MAX_DEV")
    case True
    then show ?thesis by (rule probe_all_full) (simp_all add: Cons.prems(1))
  next
    case False
    then obtain d where "table_ok (devs[n := d])" "probe_function inl p (devs, n) = Some (devs[n := d], if is_there inl p then Suc n else n)"
      using probe_function_run [OF Cons.prems(1), of n inl p] Cons.prems(2) by (auto simp: le_less)
    moreover have "probe_all inl ps (devs[n := d], if is_there inl p then Suc n else n) = None"
      by (rule Cons.IH) (use calculation(1) Cons.prems False in \<open>simp_all split: if_splits\<close>)
    ultimately show ?thesis by simp
  qed
qed simp

section \<open>The addresses and the order of the search\<close>

text \<open>The configuration address of a register as the bus defines it, in numbers.\<close>

definition config_address :: "nat \<Rightarrow> nat \<Rightarrow> nat \<Rightarrow> nat \<Rightarrow> u32" where
  "config_address bus slot func i = of_nat (2 ^ 31 + 2 ^ 16 * bus + 2 ^ 11 * slot + 2 ^ 8 * func + 4 * i)"

lemma small_take_bit: "n < 2 ^ k \<Longrightarrow> (of_nat n :: u32) = take_bit k (of_nat n)"
  by (simp add: of_nat_take_bit [symmetric] take_bit_nat_eq_self)

lemma address_of_config:
  assumes "b < 256" "sl < 32" "f < 8" "i < 16"
  shows "address_of (b, sl, f) i = config_address b sl f i"
proof -
  let ?B = "push_bit 16 (of_nat b) :: u32" and ?S = "push_bit 11 (of_nat sl) :: u32" and ?F = "push_bit 8 (of_nat f) :: u32"
  define T where "T = (push_bit 31 1 :: u32)"
  have tb: "bit T n \<longleftrightarrow> n = 31" for n unfolding T_def bit_push_bit_iff bit_1_iff by auto
  have t: "of_nat b = (take_bit 8 (of_nat b) :: u32)" "of_nat sl = (take_bit 5 (of_nat sl) :: u32)" "of_nat f = (take_bit 3 (of_nat f) :: u32)"
    by (rule small_take_bit, use assms in simp)+
  have w: "address_of (b, sl, f) 0 = ?B OR ?S OR ?F OR T"
    by (simp add: address_of_def pci_address_def T_def push_bit_eq_mult)
  have "?B OR ?S OR ?F OR T = ?B + ?S + ?F + T"
  proof -
    have 1: "?B + ?S = ?B OR ?S"
      by (rule disjunctive_add_eq_or, subst t(1), subst t(2), rule bit_word_eqI) (auto simp: bit_simps)
    have 2: "(?B OR ?S) + ?F = ?B OR ?S OR ?F"
      by (subst disjunctive_add_eq_or, subst t(1), subst t(2), subst t(3), rule bit_word_eqI) (auto simp: bit_simps or.assoc)
    have 3: "(?B OR ?S OR ?F) + T = ?B OR ?S OR ?F OR T"
      by (subst disjunctive_add_eq_or, subst t(1), subst t(2), subst t(3), rule bit_word_eqI) (auto simp: bit_simps or.assoc tb)
    show ?thesis unfolding 1 2 3 ..
  qed
  then have "address_of (b, sl, f) 0 = config_address b sl f 0"
    unfolding w config_address_def by (simp add: T_def push_bit_eq_mult algebra_simps)
  then show ?thesis using address_step [OF assms(4), of "(b, sl, f)"] by (simp add: config_address_def algebra_simps)
qed

definition before :: "nat \<times> nat \<times> nat \<Rightarrow> nat \<times> nat \<times> nat \<Rightarrow> bool" where
  "before p q \<longleftrightarrow> (case p of (b, sl, f) \<Rightarrow> case q of (b', sl', f') \<Rightarrow> b < b' \<or> b = b' \<and> (sl < sl' \<or> sl = sl' \<and> f < f'))"

lemma sorted_wrt_product:
  assumes "sorted_wrt R xs" "sorted_wrt S ys"
  shows "sorted_wrt (\<lambda>p q. R (fst p) (fst q) \<or> fst p = fst q \<and> S (snd p) (snd q)) (List.product xs ys)"
  using assms by (induction xs) (auto simp: sorted_wrt_append sorted_wrt_map elim: sorted_wrt_mono_rel [rotated])

lemma before_distinct: "sorted_wrt P xs \<Longrightarrow> (\<And>x. \<not> P x x) \<Longrightarrow> distinct xs"
  by (induction xs) auto

lemma pci_functions_order: "sorted_wrt before pci_functions" "set pci_functions = {..<256} \<times> {..<32} \<times> {..<8}"
proof -
  have up: "sorted_wrt (<) [0..<n]" for n :: nat by (rule sorted_wrt_upt)
  have "sorted_wrt (\<lambda>p q. fst p < fst q \<or> fst p = fst q \<and> (fst (snd p) < fst (snd q) \<or> fst (snd p) = fst (snd q) \<and> snd (snd p) < snd (snd q))) pci_functions"
    unfolding pci_functions_def by (rule sorted_wrt_product [OF up sorted_wrt_product [OF up up]])
  then show "sorted_wrt before pci_functions" by (rule sorted_wrt_mono_rel [rotated]) (auto simp: before_def)
  show "set pci_functions = {..<256} \<times> {..<32} \<times> {..<8}" unfolding pci_functions_def by (simp add: atLeast0LessThan)
qed

text \<open>
  C23: \<open>pci_probe\<close> finds what is on the bus.  A function \<open>f < 8\<close> of a slot \<open>s < 32\<close> of a bus \<open>b < 256\<close> is there when register 0
  at the configuration address \<open>2^31 + 2^16 b + 2^11 s + 2^8 f\<close> does not give \<open>0xFFFF\<close> in its low half.  When fewer
  than sixteen functions are there, the table holds exactly these, in the order of bus, slot and function, each with its numbers and with its sixteen
  registers, register \<open>i\<close> read at offset \<open>4 i\<close>; when more than sixteen are there, the table is written past its end.
\<close>

theorem pci_probe_correct:
  "let there = {(b, sl, f). b < 256 \<and> sl < 32 \<and> f < 8 \<and> (ucast (inl (config_address b sl f 0)) :: u16) \<noteq> 0xFFFF} in
   if card there < PCI_MAX_DEV
   then \<exists>devs fs. pci_probe inl = Some (devs, card there) \<and> set fs = there \<and> sorted_wrt before fs
     \<and> take (card there) devs = map (\<lambda>(b, sl, f). \<lparr>pci_bus = of_nat b, pci_slot = of_nat sl, pci_function = of_nat f,
          pci_raw = map (\<lambda>i. inl (config_address b sl f i)) [0..<16]\<rparr>) fs
   else card there = PCI_MAX_DEV \<or> pci_probe inl = None"
proof -
  have ok: "table_ok (replicate PCI_MAX_DEV zero_dev)" by (simp add: table_ok_def zero_dev_def)
  define found where "found = filter (is_there inl) pci_functions"
  define there where "there = {(b, sl, f). b < 256 \<and> sl < 32 \<and> f < 8 \<and> (ucast (inl (config_address b sl f 0)) :: u16) \<noteq> 0xFFFF}"
  have inside: "b < 256 \<and> sl < 32 \<and> f < 8" if "(b, sl, f) \<in> set found" for b sl f
    using that pci_functions_order(2) by (auto simp: found_def)
  have set: "set found = there"
    using pci_functions_order(2) address_of_config by (auto simp: found_def there_def is_there_def)
  have sorted: "sorted_wrt before found" unfolding found_def by (rule sorted_wrt_filter [OF pci_functions_order(1)])
  have "distinct found" using sorted by (rule before_distinct) (auto simp: before_def)
  then have card: "length found = card there" using set distinct_card by metis
  have dev: "map (device_at inl) found = map (\<lambda>(b, sl, f). \<lparr>pci_bus = of_nat b, pci_slot = of_nat sl, pci_function = of_nat f,
      pci_raw = map (\<lambda>i. inl (config_address b sl f i)) [0..<16]\<rparr>) found"
    using inside address_of_config by (intro map_cong) (auto simp: device_at_def)
  have few: "\<exists>devs. pci_probe inl = Some (devs, card there) \<and> take (card there) devs = map (device_at inl) found" if "card there < PCI_MAX_DEV"
    using probe_all_run [OF ok, of 0 inl pci_functions] that card by (auto simp: pci_probe_def found_def)
  have many: "pci_probe inl = None" if "PCI_MAX_DEV < card there"
    using probe_all_overflow [OF ok, of 0 inl pci_functions] that card by (simp add: pci_probe_def found_def)
  have "if card there < PCI_MAX_DEV
   then \<exists>devs fs. pci_probe inl = Some (devs, card there) \<and> set fs = there \<and> sorted_wrt before fs
     \<and> take (card there) devs = map (\<lambda>(b, sl, f). \<lparr>pci_bus = of_nat b, pci_slot = of_nat sl, pci_function = of_nat f,
          pci_raw = map (\<lambda>i. inl (config_address b sl f i)) [0..<16]\<rparr>) fs
   else card there = PCI_MAX_DEV \<or> pci_probe inl = None"
    using few many set sorted dev by (cases "card there" PCI_MAX_DEV rule: linorder_cases) fastforce+
  then show ?thesis unfolding there_def Let_def .
qed

end
