(* ===== verification/Machine.thy ===== *)
theory Machine
  imports Prelude
begin

text \<open>
  The tables of the processor and the interrupt controllers: segment descriptors (\<open>sys/i386/gdt.c\<close>), interrupt gates
  and the dispatch of interrupts (\<open>sys/i386/idt.c\<close>), and the masks of the two controllers (\<open>sys/i386/pic.c\<close>).
\<close>

section \<open>Segments\<close>

record gdt_descr =
  limit_low :: u16
  base_low :: u16
  base_middle :: u8
  gdt_access :: u8
  limit_high :: "4 word"
  gdt_flags :: "4 word"
  base_high :: u8

definition zero_descr :: gdt_descr where
  "zero_descr = \<lparr>limit_low = 0, base_low = 0, base_middle = 0, gdt_access = 0, limit_high = 0, gdt_flags = 0, base_high = 0\<rparr>"

definition gdt_set_descr :: "nat \<Rightarrow> u32 \<Rightarrow> u32 \<Rightarrow> u8 \<Rightarrow> u8 \<Rightarrow> gdt_descr list \<Rightarrow> gdt_descr list" where
  "gdt_set_descr index base limit access flags gdt =
     gdt[index := \<lparr>limit_low = ucast (limit AND 0xFFFF), base_low = ucast (base AND 0xFFFF), base_middle = ucast (drop_bit 16 base AND 0xFF),
       gdt_access = access, limit_high = ucast (drop_bit 16 limit AND 0x0F), gdt_flags = ucast flags, base_high = ucast (drop_bit 24 base AND 0xFF)\<rparr>]"

text \<open>The task state segment, of 104 bytes; its address is an argument.\<close>

record tss =
  tss_link :: u32
  tss_esp0 :: u32
  tss_ss0 :: u32
  tss_esp1 :: u32
  tss_ss1 :: u32
  tss_esp2 :: u32
  tss_ss2 :: u32
  tss_cr3 :: u32
  tss_eip :: u32
  tss_eflags :: u32
  tss_eax :: u32
  tss_ecx :: u32
  tss_edx :: u32
  tss_ebx :: u32
  tss_esp :: u32
  tss_ebp :: u32
  tss_esi :: u32
  tss_edi :: u32
  tss_es :: u32
  tss_cs :: u32
  tss_ss :: u32
  tss_ds :: u32
  tss_fs :: u32
  tss_gs :: u32
  tss_ldt :: u32
  tss_trap :: u16
  tss_iomap_base :: u16

definition zero_tss :: tss where
  "zero_tss = \<lparr>tss_link = 0, tss_esp0 = 0, tss_ss0 = 0, tss_esp1 = 0, tss_ss1 = 0, tss_esp2 = 0, tss_ss2 = 0, tss_cr3 = 0, tss_eip = 0,
     tss_eflags = 0, tss_eax = 0, tss_ecx = 0, tss_edx = 0, tss_ebx = 0, tss_esp = 0, tss_ebp = 0, tss_esi = 0,
     tss_edi = 0, tss_es = 0, tss_cs = 0, tss_ss = 0, tss_ds = 0, tss_fs = 0, tss_gs = 0, tss_ldt = 0, tss_trap = 0, tss_iomap_base = 0\<rparr>"

definition tss_set_descr :: "nat \<Rightarrow> u32 \<Rightarrow> u16 \<Rightarrow> u32 \<Rightarrow> gdt_descr list \<Rightarrow> gdt_descr list \<times> tss" where
  "tss_set_descr index tss_addr ss0 esp0 gdt =
     (gdt_set_descr index tss_addr 104 0xE9 0 gdt,
      zero_tss\<lparr>tss_ss0 := ucast ss0, tss_esp0 := esp0, tss_cs := 8 OR 3, tss_ss := 16 OR 3, tss_ds := 16 OR 3, tss_es := 16 OR 3,
        tss_fs := 16 OR 3, tss_gs := 16 OR 3\<rparr>)"

definition tss_set_esp :: "u32 \<Rightarrow> tss \<Rightarrow> tss" where
  "tss_set_esp p t = t\<lparr>tss_esp0 := p\<rparr>"

definition gdt_init :: "u32 \<Rightarrow> gdt_descr list \<times> tss" where
  "gdt_init tss_addr =
     tss_set_descr 5 tss_addr 16 0
       (gdt_set_descr 4 0 0xFFFFFFFF 0xF2 0x0C
       (gdt_set_descr 3 0 0xFFFFFFFF 0xFA 0x0C
       (gdt_set_descr 2 0 0xFFFFFFFF 0x92 0x0C
       (gdt_set_descr 1 0 0xFFFFFFFF 0x9A 0x0C
       (gdt_set_descr 0 0 0 0 0 (replicate 6 zero_descr))))))"

section \<open>Interrupts\<close>

record idt_descr =
  gate_low :: u16
  gate_segment :: u16
  gate_reserved :: u8
  gate_flags :: u8
  gate_high :: u16

abbreviation (input) INTERRUPT_GATE :: u8 where "INTERRUPT_GATE \<equiv> 0x8E"

definition zero_gate :: idt_descr where
  "zero_gate = \<lparr>gate_low = 0, gate_segment = 0, gate_reserved = 0, gate_flags = 0, gate_high = 0\<rparr>"

definition idt_set_descr :: "nat \<Rightarrow> u32 \<Rightarrow> u8 \<Rightarrow> idt_descr list \<Rightarrow> idt_descr list" where
  "idt_set_descr n isr flags idt =
     idt[n := \<lparr>gate_low = ucast (isr AND 0xFFFF), gate_segment = 8, gate_reserved = 0, gate_flags = flags, gate_high = ucast (drop_bit 16 isr)\<rparr>]"

text \<open>The gates.  The addresses of the entry points \<open>isr0\<close> to \<open>isr47\<close> and \<open>isr128\<close> are the argument; the interrupts have no handlers yet.\<close>

definition idt_gates :: "(nat \<Rightarrow> u32) \<Rightarrow> idt_descr list" where
  "idt_gates isr =
     idt_set_descr 128 (isr 128) (INTERRUPT_GATE OR 0x60)
       (fold (\<lambda>n. idt_set_descr n (isr n) INTERRUPT_GATE) [0..<48] (replicate 256 zero_gate))"

definition idt_init :: "(nat \<Rightarrow> u32) \<Rightarrow> idt_descr list \<times> 'h option list" where
  "idt_init isr = (idt_gates isr, replicate 16 None)"

text \<open>The bound is that of the vectors and not that of the table of handlers.\<close>

definition idt_set_isr :: "nat \<Rightarrow> 'h \<Rightarrow> 'h option list \<Rightarrow> 'h option list option" where
  "idt_set_isr irq h irq_handler =
     (if irq \<le> 0x2F then (if irq < length irq_handler then Some (irq_handler[irq := Some h]) else None) else Some irq_handler)"

datatype 'h trap_end = Call 'h | Exit_process int | Halt_machine

definition isr_handler :: "u32 \<Rightarrow> u32 \<Rightarrow> 'h option list \<Rightarrow> 'h trap_end" where
  "isr_handler int_no cs irq_handler =
     (if 0x20 \<le> int_no \<and> int_no \<le> 0x2F then
        (case irq_handler ! unat (int_no - 0x20) of Some h \<Rightarrow> Call h | None \<Rightarrow> Halt_machine)
      else if int_no < 0x20 then (if cs AND 3 = 3 then Exit_process (-1) else Halt_machine)
      else Halt_machine)"

section \<open>Interrupt controllers\<close>

text \<open>The masks are read and written at the data ports; a set bit holds the interrupt back.\<close>

record pic =
  pic1_mask :: u8
  pic2_mask :: u8

definition pic_enable_interrupt :: "int \<Rightarrow> pic \<Rightarrow> pic" where
  "pic_enable_interrupt irq_no p =
     (if irq_no < 0 \<or> irq_no \<ge> 16 then p
      else if irq_no \<ge> 8 then p\<lparr>pic2_mask := pic2_mask p XOR mask1 (nat irq_no mod 8)\<rparr>
      else p\<lparr>pic1_mask := pic1_mask p XOR mask1 (nat irq_no)\<rparr>)"

definition pic_init :: "pic \<Rightarrow> pic" where
  "pic_init p = pic_enable_interrupt 2 (p\<lparr>pic1_mask := 0xFF, pic2_mask := 0xFF\<rparr>)"

text \<open>How a driver installs its handler, at the end of \<open>uart_init_port\<close>, \<open>kb_init\<close>, \<open>pit_init\<close> and \<open>re_init\<close>.\<close>

definition install_irq :: "nat \<times> 'h \<Rightarrow> 'h option list \<times> pic \<Rightarrow> ('h option list \<times> pic) option" where
  "install_irq d t =
     (case d of (irq, h) \<Rightarrow> map_option (\<lambda>hs. (hs, pic_enable_interrupt (int irq) (snd t))) (idt_set_isr irq h (fst t)))"

fun install_all :: "(nat \<times> 'h) list \<Rightarrow> 'h option list \<times> pic \<Rightarrow> ('h option list \<times> pic) option" where
  "install_all [] t = Some t"
| "install_all (d # ds) t = Option.bind (install_irq d t) (install_all ds)"

section \<open>How the processor reads the tables\<close>

definition seg_base :: "gdt_descr \<Rightarrow> u32" where
  "seg_base d = ucast (base_low d) OR push_bit 16 (ucast (base_middle d)) OR push_bit 24 (ucast (base_high d))"

definition seg_limit :: "gdt_descr \<Rightarrow> u32" where
  "seg_limit d = ucast (limit_low d) OR push_bit 16 (ucast (limit_high d))"

definition gate_offset :: "idt_descr \<Rightarrow> u32" where
  "gate_offset g = ucast (gate_low g) OR push_bit 16 (ucast (gate_high g))"

definition gate_present :: "idt_descr \<Rightarrow> bool" where
  "gate_present g = bit (gate_flags g) 7"

definition gate_dpl :: "idt_descr \<Rightarrow> u8" where
  "gate_dpl g = drop_bit 5 (gate_flags g) AND 3"

text \<open>An interrupt line that the controllers let through; those of the second one pass line 2 of the first.\<close>

definition unmasked :: "pic \<Rightarrow> nat \<Rightarrow> bool" where
  "unmasked p irq \<longleftrightarrow> irq < 16 \<and> (if irq < 8 then \<not> bit (pic1_mask p) irq else \<not> bit (pic1_mask p) 2 \<and> \<not> bit (pic2_mask p) (irq - 8))"

lemma byte_masks: "(0xFFFF :: u32) = mask 16" "(0xFF :: u32) = mask 8" "(0x0F :: u32) = mask 4" "(0xFFFFF :: u32) = mask 20"
  by (simp_all add: mask_eq_exp_minus_1)

lemma join_halves: "(ucast (ucast (w AND 0xFFFF) :: u16) :: u32) OR push_bit 16 (ucast (ucast (drop_bit 16 w) :: u16)) = w" for w :: u32
  unfolding byte_masks by (rule bit_word_eqI) (auto simp: bit_simps not_less)

lemma seg_base_set: "i < length gdt \<Longrightarrow> seg_base (gdt_set_descr i base limit a f gdt ! i) = base"
  unfolding seg_base_def gdt_set_descr_def byte_masks
  by (simp, rule bit_word_eqI, rename_tac n, case_tac "n < 24") (auto simp: bit_simps not_less)

lemma seg_limit_set: "i < length gdt \<Longrightarrow> seg_limit (gdt_set_descr i base limit a f gdt ! i) = limit AND 0xFFFFF"
  unfolding seg_limit_def gdt_set_descr_def byte_masks
  by (simp, rule bit_word_eqI) (auto simp: bit_simps not_less)

section \<open>Segments cover memory\<close>

text \<open>
  \<open>gdt_init\<close> sets up flat segments.  The descriptors of kernel and user code and data have base 0 and, with the
  granularity of pages, a limit of 4 GB, the kernel's with privilege level 0 and the user's with level 3; the descriptor
  of the task state segment has the address of the segment, so that interrupts find the kernel stack that \<open>tss_set_esp\<close>
  puts there.
\<close>

theorem gdt_flat:
  "let (gdt, t) = gdt_init tss_addr in
     length gdt = 6
     \<and> map (\<lambda>i. (seg_base (gdt ! i), seg_limit (gdt ! i), bit (gdt_flags (gdt ! i)) 3)) [1, 2, 3, 4] 
          = [(0, 0xFFFFF, True), (0, 0xFFFFF, True), (0, 0xFFFFF, True), (0, 0xFFFFF, True)]
     \<and> map (\<lambda>i. drop_bit 5 (gdt_access (gdt ! i)) AND 3) [1, 2, 3, 4] = [0, 0, 3, 3]
     \<and> seg_base (gdt ! 5) = tss_addr \<and> seg_limit (gdt ! 5) = 104 \<and> tss_ss0 t = 16
     \<and> tss_esp0 (tss_set_esp p t) = p \<and> tss_ss0 (tss_set_esp p t) = 16"
proof -
  have flat: "seg_base (gdt_set_descr i 0 0xFFFFFFFF a 0x0C gdt ! i) = 0" "seg_limit (gdt_set_descr i 0 0xFFFFFFFF a 0x0C gdt ! i) = 0xFFFFF"
    if "i < length gdt" for i a gdt using seg_base_set [OF that] seg_limit_set [OF that] by simp_all
  have other: "gdt_set_descr i b l a f gdt ! j = gdt ! j" if "i \<noteq> j" for i b l a f gdt j using that by (simp add: gdt_set_descr_def)
  have len: "length (gdt_set_descr i b l a f gdt) = length gdt" for i b l a f gdt by (simp add: gdt_set_descr_def)
  have acc: "gdt_access (gdt_set_descr i b l a f gdt ! i) = a" "gdt_flags (gdt_set_descr i b l a f gdt ! i) = ucast f" if "i < length gdt" for i b l a f gdt
    using that by (simp_all add: gdt_set_descr_def)
  have tss: "seg_base (gdt_set_descr 5 tss_addr 104 a f gdt ! 5) = tss_addr" "seg_limit (gdt_set_descr 5 tss_addr 104 a f gdt ! 5) = 104" if "5 < length gdt" for a f gdt
    using seg_base_set [OF that] seg_limit_set [OF that] by simp_all
  show ?thesis
    unfolding gdt_init_def tss_set_descr_def tss_set_esp_def
    by (simp add: flat tss other len acc)
qed

section \<open>Interrupts reach their handlers\<close>

lemma fold_gates:
  "k \<le> length t \<Longrightarrow> n < length t \<Longrightarrow>
   fold (\<lambda>n. idt_set_descr n (isr n) f) [0..<k] t ! n
     = (if n < k then \<lparr>gate_low = ucast (isr n AND 0xFFFF), gate_segment = 8, gate_reserved = 0, gate_flags = f, gate_high = ucast (drop_bit 16 (isr n))\<rparr> else t ! n)
   \<and> length (fold (\<lambda>n. idt_set_descr n (isr n) f) [0..<k] t) = length t"
  by (induction k) (auto simp: idt_set_descr_def nth_list_update)

lemma idt_gate:
  assumes "n < 48"
  shows "gate_offset (idt_gates isr ! n) = isr n" "gate_present (idt_gates isr ! n)" "gate_dpl (idt_gates isr ! n) = 0"
    "gate_segment (idt_gates isr ! n) = 8"
proof -
  have "idt_gates isr ! n = \<lparr>gate_low = ucast (isr n AND 0xFFFF), gate_segment = 8, gate_reserved = 0, gate_flags = 0x8E, gate_high = ucast (drop_bit 16 (isr n))\<rparr>"
    using assms fold_gates [of 48 "replicate 256 zero_gate" n isr INTERRUPT_GATE] by (simp add: idt_gates_def idt_set_descr_def del: upt_Suc)
  then show "gate_offset (idt_gates isr ! n) = isr n" "gate_present (idt_gates isr ! n)" "gate_dpl (idt_gates isr ! n) = 0"
    "gate_segment (idt_gates isr ! n) = 8"
    using join_halves [of "isr n"] by (simp_all add: gate_offset_def gate_present_def gate_dpl_def)
qed

lemma user_gate:
  assumes "n < 256"
  shows "gate_present (idt_gates isr ! n) \<and> gate_dpl (idt_gates isr ! n) = 3 \<longleftrightarrow> n = 128" "gate_offset (idt_gates isr ! 128) = isr 128"
proof -
  let ?g = "\<lparr>gate_low = ucast (isr 128 AND 0xFFFF), gate_segment = 8, gate_reserved = 0, gate_flags = 0xEE, gate_high = ucast (drop_bit 16 (isr 128))\<rparr>"
  have len: "length (fold (\<lambda>n. idt_set_descr n (isr n) INTERRUPT_GATE) [0..<48] (replicate 256 zero_gate)) = 256"
    using fold_gates [of 48 "replicate 256 zero_gate" 0 isr INTERRUPT_GATE] by simp
  have g: "idt_gates isr ! 128 = ?g" using len by (simp add: idt_gates_def idt_set_descr_def)
  then show "gate_offset (idt_gates isr ! 128) = isr 128" using join_halves [of "isr 128"] by (simp add: gate_offset_def)
  have "idt_gates isr ! n = zero_gate" if "48 \<le> n" "n \<noteq> 128"
    using that assms fold_gates [of 48 "replicate 256 zero_gate" n isr INTERRUPT_GATE] by (simp add: idt_gates_def idt_set_descr_def del: upt_Suc)
  then show "gate_present (idt_gates isr ! n) \<and> gate_dpl (idt_gates isr ! n) = 3 \<longleftrightarrow> n = 128"
    using g idt_gate(3) [of n isr] by (cases "n < 48"; cases "n = 128") (auto simp: gate_present_def gate_dpl_def zero_gate_def)
qed

definition line_open :: "pic \<Rightarrow> nat \<Rightarrow> bool" where
  "line_open p irq \<longleftrightarrow> (if irq < 8 then \<not> bit (pic1_mask p) irq else \<not> bit (pic2_mask p) (irq - 8))"

lemma line_open_enable: "irq < 16 \<Longrightarrow> j < 16 \<Longrightarrow> line_open (pic_enable_interrupt (int irq) p) j = (line_open p j \<noteq> (j = irq))"
proof -
  assume a: "irq < 16" "j < 16"
  have m: "bit (w XOR mask1 n) i = (bit w i \<noteq> (i = n))" if "i < 8" for w :: u8 and i n
    using that by (auto simp: bit_xor_iff mask1_def bit_simps)
  have "8 \<le> irq \<Longrightarrow> irq mod 8 = irq - 8" using a(1) by (simp add: mod_if)
  then show ?thesis
    using a m [of j] m [of "j - 8"] by (auto simp: line_open_def pic_enable_interrupt_def nat_mod_distrib)
qed

lemma install_lines:
  assumes "distinct (map fst ds)" "\<forall>d\<in>set ds. fst d < 16 \<and> \<not> line_open p (fst d)" "length hs = 16"
  shows "\<exists>hs' p'. install_all ds (hs, p) = Some (hs', p') \<and> length hs' = 16
    \<and> (\<forall>j<16. line_open p' j \<longleftrightarrow> line_open p j \<or> j \<in> fst ` set ds)
    \<and> (\<forall>d\<in>set ds. hs' ! fst d = Some (snd d)) \<and> (\<forall>j. j \<notin> fst ` set ds \<longrightarrow> hs' ! j = hs ! j)"
  using assms
proof (induction ds arbitrary: hs p)
  case (Cons d ds)
  obtain irq h where d: "d = (irq, h)" by (cases d)
  let ?p = "pic_enable_interrupt (int irq) p" and ?hs = "hs[irq := Some h]"
  have irq: "irq < 16" "\<not> line_open p irq" "irq \<notin> fst ` set ds" using Cons.prems d by auto
  have l: "line_open ?p j = (line_open p j \<or> j = irq)" if "j < 16" for j using line_open_enable [OF irq(1) that] irq(2) by auto
  have "\<forall>e\<in>set ds. fst e < 16 \<and> \<not> line_open ?p (fst e)" using Cons.prems(2) l irq(3) by force
  then obtain hs' p' where i: "install_all ds (?hs, ?p) = Some (hs', p')" "length hs' = 16"
    "\<forall>j<16. line_open p' j \<longleftrightarrow> line_open ?p j \<or> j \<in> fst ` set ds" "\<forall>e\<in>set ds. hs' ! fst e = Some (snd e)" "\<forall>j. j \<notin> fst ` set ds \<longrightarrow> hs' ! j = ?hs ! j"
    using Cons.IH [of ?p ?hs] Cons.prems by auto
  have "install_all (d # ds) (hs, p) = Some (hs', p')"
    using i(1) irq(1) Cons.prems(3) d by (simp add: install_irq_def idt_set_isr_def)
  then show ?case using i l irq Cons.prems(3) d by (intro exI [of _ hs'] exI [of _ p']) auto
qed simp

text \<open>
  C22: Interrupts reach their handlers.  After the initialisation of the interrupt table and of the controllers, when
  drivers have installed handlers for distinct lines, the controllers let exactly these lines through, with the line
  that connects the second controller.  The vector of each line is a present gate of the kernel segment to the entry point
  of the line, and from there \<open>isr_handler\<close> calls the handler of the driver.  The only gate that user programs can call is
  0x80, the system call.
\<close>

theorem interrupts_reach_handlers:
  assumes "distinct (map fst ds)" "\<forall>d\<in>set ds. fst d < 16 \<and> fst d \<noteq> 2"
  shows "\<exists>hs p. install_all ds (snd (idt_init isr), pic_init p0) = Some (hs, p)
    \<and> (\<forall>irq. unmasked p irq \<longleftrightarrow> irq = 2 \<or> irq \<in> fst ` set ds)
    \<and> (\<forall>d\<in>set ds. let gate = idt_gates isr ! (32 + fst d) in
         gate_present gate \<and> gate_segment gate = 8 \<and> gate_dpl gate = 0 \<and> gate_offset gate = isr (32 + fst d)
         \<and> isr_handler (of_nat (32 + fst d)) cs hs = Call (snd d))
    \<and> (\<forall>n<256. gate_present (idt_gates isr ! n) \<and> gate_dpl (idt_gates isr ! n) = 3 \<longleftrightarrow> n = 128)"
proof -
  have ff: "(0xFF :: u8) = mask 8" by (simp add: mask_eq_exp_minus_1)
  have l: "line_open (pic_init p0) j \<longleftrightarrow> j = 2" if "j < 16" for j
  proof -
    have f: "\<not> line_open (p0\<lparr>pic1_mask := 0xFF, pic2_mask := 0xFF\<rparr>) j" using that
      by (auto simp: line_open_def ff bit_mask_iff)
    then show ?thesis using line_open_enable [of 2 j "p0\<lparr>pic1_mask := 0xFF, pic2_mask := 0xFF\<rparr>"] that by (simp add: pic_init_def)
  qed
  then have "\<forall>d\<in>set ds. fst d < 16 \<and> \<not> line_open (pic_init p0) (fst d)" using assms(2) by auto
  from install_lines [OF assms(1) this, of "snd (idt_init isr)"] obtain hs p where
    i: "install_all ds (snd (idt_init isr), pic_init p0) = Some (hs, p)" "length hs = 16"
    "\<forall>j<16. line_open p j \<longleftrightarrow> line_open (pic_init p0) j \<or> j \<in> fst ` set ds" "\<forall>d\<in>set ds. hs ! fst d = Some (snd d)"
    by (auto simp: idt_init_def)
  have lo: "line_open p j \<longleftrightarrow> j = 2 \<or> j \<in> fst ` set ds" if "j < 16" for j using i(3) l that by blast
  have "unmasked p irq \<longleftrightarrow> irq = 2 \<or> irq \<in> fst ` set ds" for irq
  proof -
    have "unmasked p irq \<longleftrightarrow> irq < 16 \<and> line_open p irq" using lo [of 2] by (auto simp: unmasked_def line_open_def)
    then show ?thesis using lo assms(2) by auto
  qed
  moreover have "isr_handler (of_nat (32 + irq)) cs hs = Call h" if "(irq, h) \<in> set ds" for irq h
  proof -
    have irq: "irq < 16" "hs ! irq = Some h" using that assms(2) i(4) by force+
    have u: "unat (of_nat (32 + irq) :: u32) = 32 + irq" using irq(1) by (intro unat_of_nat_small) simp
    have "(0x20 :: u32) \<le> of_nat (32 + irq)" "of_nat (32 + irq) \<le> (0x2F :: u32)" using u irq(1) by (simp_all add: word_le_nat_alt del: of_nat_add)
    moreover have "unat (of_nat (32 + irq) - 0x20 :: u32) = irq" using irq(1) by (simp add: unat_of_nat_small)
    ultimately show ?thesis using irq(2) by (simp add: isr_handler_def del: of_nat_add)
  qed
  ultimately show ?thesis using i(1) idt_gate assms(2) user_gate(1) by (intro exI [of _ hs] exI [of _ p]) (auto simp: Let_def)
qed

theorem interrupts_witness:
  "\<exists>hs p. install_all [(0, ''pit''), (1, ''kb'')] (snd (idt_init of_nat), pic_init \<lparr>pic1_mask = 0, pic2_mask = 0\<rparr>) = Some (hs, p)
    \<and> unmasked p 1 \<and> \<not> unmasked p 3 \<and> isr_handler 33 8 hs = Call ''kb''"
  using interrupts_reach_handlers [of "[(0, ''pit''), (1, ''kb'')]" of_nat "\<lparr>pic1_mask = 0, pic2_mask = 0\<rparr>" 8] by (auto simp: Let_def)

text \<open>Installing a second handler on a line shuts the line again.\<close>

lemma shared_line_masked:
  "irq < 16 \<Longrightarrow> line_open (pic_enable_interrupt (int irq) (pic_enable_interrupt (int irq) p)) irq = line_open p irq"
  by (simp add: line_open_enable)

end
