(* ===== verification/Net.thy ===== *)
theory Net
  imports Pci Machine Codec
begin

text \<open>
  The network: byte order (\<open>sys/i386/endian.h\<close>), the headers of packets (\<open>sys/net\<close>, \<open>sys/netinet\<close>), the driver of
  the RTL8139 card (\<open>sys/dev/if_re.c\<close>), and what the kernel does with a frame: it answers ARP requests and the first
  segment of a TCP connection, and prints the rest.
\<close>

section \<open>Byte order\<close>

definition bswap16 :: "u16 \<Rightarrow> u16" where
  "bswap16 v = (drop_bit 8 v AND 0xFF) OR push_bit 8 (v AND 0xFF)"

text \<open>The processor instruction \<open>bswap\<close>.\<close>

definition bswap32 :: "u32 \<Rightarrow> u32" where
  "bswap32 v = drop_bit 24 v OR (drop_bit 8 v AND 0xFF00) OR (push_bit 8 v AND 0xFF0000) OR push_bit 24 v"

abbreviation (input) ntohs :: "u16 \<Rightarrow> u16" where "ntohs \<equiv> bswap16"
abbreviation (input) htons :: "u16 \<Rightarrow> u16" where "htons \<equiv> bswap16"
abbreviation (input) ntohl :: "u32 \<Rightarrow> u32" where "ntohl \<equiv> bswap32"
abbreviation (input) htonl :: "u32 \<Rightarrow> u32" where "htonl \<equiv> bswap32"

section \<open>Headers\<close>

record ether_header =
  ether_dst :: bytes
  ether_src :: bytes
  ether_type :: u16

record arphdr =
  ar_htype :: u16
  ar_ptype :: u16
  ar_hlen :: u8
  ar_plen :: u8
  ar_op :: u16
  ar_sha :: bytes
  ar_spa :: u32
  ar_tha :: bytes
  ar_tpa :: u32

record ip =
  ip_hl :: "4 word"
  ip_ver :: "4 word"
  ip_tos :: u8
  ip_len :: u16
  ip_id :: u16
  ip_offset :: u16
  ip_ttl :: u8
  ip_proto :: u8
  ip_checksum :: u16
  ip_src :: u32
  ip_dst :: u32

record tcphdr =
  th_src_port :: u16
  th_dst_port :: u16
  th_seq :: u32
  th_ack_seq :: u32
  th_res1 :: "4 word"
  th_doff :: "4 word"
  th_fin :: "1 word"
  th_syn :: "1 word"
  th_rst :: "1 word"
  th_psh :: "1 word"
  th_ack :: "1 word"
  th_urg :: "1 word"
  th_res2 :: "2 word"
  th_window :: u16
  th_check :: u16
  th_urg_ptr :: u16

record udphdr =
  uh_src_port :: u16
  uh_dst_port :: u16
  uh_length :: u16
  uh_checksum :: u16

text \<open>The packed structures in memory: reading one at an offset, and its bytes.\<close>

definition ether_at :: "bytes \<Rightarrow> nat \<Rightarrow> ether_header" where
  "ether_at bs off = \<lparr>ether_dst = take 6 (drop off bs), ether_src = take 6 (drop (off + 6) bs), ether_type = get16 bs (off + 12)\<rparr>"

definition ether_bytes :: "ether_header \<Rightarrow> bytes" where
  "ether_bytes eh = ether_dst eh @ ether_src eh @ le16 (ether_type eh)"

definition arp_at :: "bytes \<Rightarrow> nat \<Rightarrow> arphdr" where
  "arp_at bs off = \<lparr>ar_htype = get16 bs off, ar_ptype = get16 bs (off + 2), ar_hlen = bs ! (off + 4), ar_plen = bs ! (off + 5),
     ar_op = get16 bs (off + 6), ar_sha = take 6 (drop (off + 8) bs), ar_spa = get32 bs (off + 14), ar_tha = take 6 (drop (off + 18) bs),
     ar_tpa = get32 bs (off + 24)\<rparr>"

definition arp_bytes :: "arphdr \<Rightarrow> bytes" where
  "arp_bytes a = le16 (ar_htype a) @ le16 (ar_ptype a) @ [ar_hlen a, ar_plen a] @ le16 (ar_op a) @ ar_sha a @ le32 (ar_spa a)
     @ ar_tha a @ le32 (ar_tpa a)"

text \<open>Bit fields in a byte, the first one in the low bits.\<close>

definition nibbles :: "4 word \<Rightarrow> 4 word \<Rightarrow> u8" where
  "nibbles lo hi = ucast lo OR push_bit 4 (ucast hi)"

definition flag_bits :: "1 word \<Rightarrow> 1 word \<Rightarrow> 1 word \<Rightarrow> 1 word \<Rightarrow> 1 word \<Rightarrow> 1 word \<Rightarrow> 2 word \<Rightarrow> u8" where
  "flag_bits a b c d e f g = ucast a OR push_bit 1 (ucast b) OR push_bit 2 (ucast c) OR push_bit 3 (ucast d)
     OR push_bit 4 (ucast e) OR push_bit 5 (ucast f) OR push_bit 6 (ucast g)"

definition ip_at :: "bytes \<Rightarrow> nat \<Rightarrow> ip" where
  "ip_at bs off = \<lparr>ip_hl = ucast (bs ! off), ip_ver = ucast (drop_bit 4 (bs ! off)), ip_tos = bs ! (off + 1), ip_len = get16 bs (off + 2),
     ip_id = get16 bs (off + 4), ip_offset = get16 bs (off + 6), ip_ttl = bs ! (off + 8), ip_proto = bs ! (off + 9),
     ip_checksum = get16 bs (off + 10), ip_src = get32 bs (off + 12), ip_dst = get32 bs (off + 16)\<rparr>"

definition ip_bytes :: "ip \<Rightarrow> bytes" where
  "ip_bytes p = [nibbles (ip_hl p) (ip_ver p), ip_tos p] @ le16 (ip_len p) @ le16 (ip_id p) @ le16 (ip_offset p)
     @ [ip_ttl p, ip_proto p] @ le16 (ip_checksum p) @ le32 (ip_src p) @ le32 (ip_dst p)"

definition tcp_at :: "bytes \<Rightarrow> nat \<Rightarrow> tcphdr" where
  "tcp_at bs off = (let d = bs ! (off + 12); f = bs ! (off + 13) in
     \<lparr>th_src_port = get16 bs off, th_dst_port = get16 bs (off + 2), th_seq = get32 bs (off + 4), th_ack_seq = get32 bs (off + 8),
      th_res1 = ucast d, th_doff = ucast (drop_bit 4 d), th_fin = ucast f, th_syn = ucast (drop_bit 1 f), th_rst = ucast (drop_bit 2 f),
      th_psh = ucast (drop_bit 3 f), th_ack = ucast (drop_bit 4 f), th_urg = ucast (drop_bit 5 f), th_res2 = ucast (drop_bit 6 f),
      th_window = get16 bs (off + 14), th_check = get16 bs (off + 16), th_urg_ptr = get16 bs (off + 18)\<rparr>)"

definition tcp_bytes :: "tcphdr \<Rightarrow> bytes" where
  "tcp_bytes t = le16 (th_src_port t) @ le16 (th_dst_port t) @ le32 (th_seq t) @ le32 (th_ack_seq t)
     @ [nibbles (th_res1 t) (th_doff t), flag_bits (th_fin t) (th_syn t) (th_rst t) (th_psh t) (th_ack t) (th_urg t) (th_res2 t)]
     @ le16 (th_window t) @ le16 (th_check t) @ le16 (th_urg_ptr t)"

definition udp_at :: "bytes \<Rightarrow> nat \<Rightarrow> udphdr" where
  "udp_at bs off = \<lparr>uh_src_port = get16 bs off, uh_dst_port = get16 bs (off + 2), uh_length = get16 bs (off + 4), uh_checksum = get16 bs (off + 6)\<rparr>"

section \<open>The card\<close>

text \<open>The bytes of \<open>rx_buf\<close> are written by the card; a frame is sent by giving the card a transmit buffer and a length.\<close>

record re_dev =
  re_io_base :: u32
  re_irq :: u16
  re_dev_id :: u16
  re_mac :: bytes
  rx_buf :: bytes
  rx_buf_head :: u16
  tx_round_robin :: u8
  tx_buf :: "bytes list"

record net =
  re_devsw :: "re_dev list"
  re_num_dev :: nat
  tx_frames :: "bytes list"

definition re_send :: "nat \<Rightarrow> ether_header \<Rightarrow> bytes \<Rightarrow> net \<Rightarrow> net option" where
  "re_send i eh data s =
     (let re = re_devsw s ! i; k = unat (tx_round_robin re); frame = ether_bytes eh @ data;
          buf = frame @ drop (length frame) (tx_buf re ! k)
      in if i < length (re_devsw s) \<and> k < length (tx_buf re) \<and> length frame \<le> length (tx_buf re ! k)
         then Some (s\<lparr>re_devsw := (re_devsw s)[i := re\<lparr>tx_buf := (tx_buf re)[k := buf], tx_round_robin := (tx_round_robin re + 1) AND 3\<rparr>],
                      tx_frames := tx_frames s @ [take (length frame) buf]\<rparr>)
         else None)"

definition re_output :: "u16 \<Rightarrow> bytes \<Rightarrow> bytes \<Rightarrow> net \<Rightarrow> net option" where
  "re_output type dst data s = re_send 0 \<lparr>ether_dst = dst, ether_src = re_mac (re_devsw s ! 0), ether_type = htons type\<rparr> data s"

definition ether_output :: "u16 \<Rightarrow> u32 \<Rightarrow> bytes \<Rightarrow> net \<Rightarrow> net option" where
  "ether_output type dst data = re_output type [0x52, 0x55, 0x0A, 0x00, 0x02, 0x02] data"

section \<open>Protocols\<close>

definition arp_output :: "u16 \<Rightarrow> bytes \<Rightarrow> u32 \<Rightarrow> bytes \<Rightarrow> u32 \<Rightarrow> net \<Rightarrow> net option" where
  "arp_output op sender_hwaddr sender_ip target_hwaddr target_ip =
     ether_output 0x0806 sender_ip
       (arp_bytes \<lparr>ar_htype = htons 1, ar_ptype = htons 0x0800, ar_hlen = 6, ar_plen = 4, ar_op = htons op,
          ar_sha = sender_hwaddr, ar_spa = sender_ip, ar_tha = target_hwaddr, ar_tpa = target_ip\<rparr>)"

definition myhw_addr :: bytes where
  "myhw_addr = [0x52, 0x54, 0x00, 0x12, 0x34, 0x56]"

definition ip_output :: "u32 \<Rightarrow> u32 \<Rightarrow> u8 \<Rightarrow> bytes \<Rightarrow> net \<Rightarrow> net option" where
  "ip_output dst src proto phdr s =
     (let packet = ip_bytes \<lparr>ip_hl = 5, ip_ver = 4, ip_tos = 0, ip_len = 0, ip_id = 0, ip_offset = 0, ip_ttl = 64, ip_proto = proto,
          ip_checksum = 0, ip_src = htonl src, ip_dst = htonl dst\<rparr> @ phdr
      in if length packet \<le> 1024 then ether_output 0x0800 0 packet s else None)"

definition zero_tcp :: tcphdr where
  "zero_tcp = \<lparr>th_src_port = 0, th_dst_port = 0, th_seq = 0, th_ack_seq = 0, th_res1 = 0, th_doff = 0, th_fin = 0, th_syn = 0, th_rst = 0,
     th_psh = 0, th_ack = 0, th_urg = 0, th_res2 = 0, th_window = 0, th_check = 0, th_urg_ptr = 0\<rparr>"

definition tcp_output :: "u32 \<Rightarrow> u32 \<Rightarrow> tcphdr \<Rightarrow> net \<Rightarrow> net option" where
  "tcp_output dst src tcp = ip_output dst src 6 (tcp_bytes tcp)"

definition tcp_input :: "ip \<Rightarrow> tcphdr \<Rightarrow> net \<Rightarrow> net option" where
  "tcp_input p tcp s =
     (if th_syn tcp = 1 \<and> th_ack tcp = 0 then
        tcp_output (ntohl (ip_src p)) (ntohl (ip_dst p))
          (zero_tcp\<lparr>th_syn := 1, th_ack := 1, th_ack_seq := htonl (ntohl (th_seq tcp) + 1), th_seq := htonl 100,
             th_src_port := th_dst_port tcp, th_dst_port := th_src_port tcp\<rparr>) s
      else Some s)"

text \<open>
  The packets lie in the receive buffer of a card, and a pointer to one is an offset.  \<open>udp_input\<close> ends the data with a
  null byte before it prints them.
\<close>

definition rx_bytes :: "nat \<Rightarrow> net \<Rightarrow> bytes" where
  "rx_bytes i s = rx_buf (re_devsw s ! i)"

definition in_rx :: "nat \<Rightarrow> net \<Rightarrow> nat \<Rightarrow> nat \<Rightarrow> bool" where
  "in_rx i s off n \<longleftrightarrow> off + n \<le> length (rx_bytes i s)"

definition udp_input :: "nat \<Rightarrow> nat \<Rightarrow> net \<Rightarrow> net option" where
  "udp_input i off s =
     (if in_rx i s off 8 then
        (let data_len = ucast (ntohs (uh_length (udp_at (rx_bytes i s) off))) - 8 :: u32;
             at = unat (of_nat (off + 8) + data_len :: u32)
         in if at < length (rx_bytes i s)
            then Some (s\<lparr>re_devsw := (re_devsw s)[i := (re_devsw s ! i)\<lparr>rx_buf := (rx_bytes i s)[at := 0]\<rparr>]\<rparr>)
            else None)
      else None)"

definition ip_input :: "nat \<Rightarrow> nat \<Rightarrow> u32 \<Rightarrow> net \<Rightarrow> net option" where
  "ip_input i off data_len s =
     (if in_rx i s off 20 \<and> in_rx i s (off + 20) (unat (data_len - 20)) then
        (let p = ip_at (rx_bytes i s) off
         in if ip_proto p = 6 then (if in_rx i s (off + 20) 20 then tcp_input p (tcp_at (rx_bytes i s) (off + 20)) s else None)
            else if ip_proto p = 17 then udp_input i (off + 20) s
            else Some s)
      else None)"

definition arp_input :: "nat \<Rightarrow> nat \<Rightarrow> net \<Rightarrow> net option" where
  "arp_input i off s =
     (if in_rx i s off 28 then
        (let arp = arp_at (rx_bytes i s) off
         in if ntohs (ar_op arp) = 1 then arp_output 2 myhw_addr (ar_tpa arp) (ar_sha arp) (ar_spa arp) s else Some s)
      else None)"

definition ether_input :: "nat \<Rightarrow> nat \<Rightarrow> nat \<Rightarrow> u32 \<Rightarrow> net \<Rightarrow> net option" where
  "ether_input i eh data data_len s =
     (let type = ntohs (ether_type (ether_at (rx_bytes i s) eh))
      in if type = 0x0806 then arp_input i data s
         else if type = 0x0800 then ip_input i data data_len s
         else Some s)"

section \<open>Interrupts of the card\<close>

text \<open>The frame at the head of the receive buffer, behind the status and the length that the card puts there.\<close>

definition re_input :: "nat \<Rightarrow> net \<Rightarrow> net option" where
  "re_input i s =
     (let h = unat (rx_buf_head (re_devsw s ! i))
      in if i < length (re_devsw s) \<and> in_rx i s h 18 then
           (let frame_len = ucast (get16 (rx_bytes i s) (h + 2)) :: u32; data_len = frame_len - 14
            in if in_rx i s (h + 4) (unat frame_len) then
                 map_option (\<lambda>t. t\<lparr>re_devsw := (re_devsw t)[i := (re_devsw t ! i)\<lparr>rx_buf_head :=
                     rx_buf_head (re_devsw t ! i) + ucast ((ucast (get16 (rx_bytes i t) (h + 2)) + 4 + 3 :: u32) AND NOT 3)\<rparr>]\<rparr>)
                   (ether_input i (h + 4) (h + 18) data_len s)
               else None)
         else None)"

text \<open>The devices from number \<open>i\<close> on; the status registers are arguments.\<close>

fun intr_loop :: "u16 list \<Rightarrow> nat \<Rightarrow> net \<Rightarrow> net option" where
  "intr_loop [] i s = Some s"
| "intr_loop (status # rest) i s =
     Option.bind (if status AND 1 \<noteq> 0 then re_input i s else Some s) (intr_loop rest (Suc i))"

definition re_intr :: "u16 list \<Rightarrow> net \<Rightarrow> net option" where
  "re_intr statuses s = intr_loop (take (re_num_dev s) statuses) 0 s"

section \<open>Finding cards\<close>

text \<open>
  The ports of the card are the argument \<open>inb\<close>; the reset of the card is over when the loop of the code ends.  The command
  register of the device gets the bit of bus masters, and the handler is installed.
\<close>

definition re_init :: "(u16 \<Rightarrow> u8) \<Rightarrow> 'h \<Rightarrow> pci_dev \<Rightarrow> 'h option list \<times> pic \<Rightarrow> (re_dev \<times> pci_dev \<times> (u32 \<times> u32) \<times> ('h option list \<times> pic)) option" where
  "re_init inb h pci t =
     (let io_base = pci_bar0 (pci_raw pci) AND 0xFFFFFFFC; irq = pci_irq (pci_raw pci); io = ucast io_base;
          pci' = pci\<lparr>pci_raw := (pci_raw pci)[1 := pci_raw pci ! 1 OR 4]\<rparr>
      in map_option (\<lambda>t'.
           (\<lparr>re_io_base = io_base, re_irq = ucast irq, re_dev_id = device_id (pci_raw pci), re_mac = map (\<lambda>k. inb (io + of_nat k)) [0..<6],
             rx_buf = replicate 9708 0, rx_buf_head = 0, tx_round_robin = 0, tx_buf = replicate 4 (replicate 1500 0)\<rparr>,
            pci', pci_write_hdr_reg pci' 4, t'))
         (install_irq (unat irq, h) t))"

abbreviation (input) RE_MAX_DEV :: nat where "RE_MAX_DEV \<equiv> 2"

text \<open>The loop over the devices from number \<open>i\<close> on; what is written to the configuration space is collected.\<close>

function probe_cards :: "(u16 \<Rightarrow> u8) \<Rightarrow> 'h \<Rightarrow> nat \<Rightarrow> nat \<Rightarrow> pci_dev list \<Rightarrow> (u32 \<times> u32) list \<Rightarrow> net \<Rightarrow> 'h option list \<times> pic
    \<Rightarrow> (pci_dev list \<times> (u32 \<times> u32) list \<times> net \<times> ('h option list \<times> pic)) option" where
  "probe_cards inb h n i devs ws s t =
     (if i < n \<and> re_num_dev s < RE_MAX_DEV then
        (if i < length devs then
           (if vendor_id (pci_raw (devs ! i)) = 0x10EC \<and> device_id (pci_raw (devs ! i)) = 0x8139 then
              Option.bind (re_init inb h (devs ! i) t) (\<lambda>(re, d, w, t').
              probe_cards inb h n (Suc i) (devs[i := d]) (ws @ [w])
                (s\<lparr>re_devsw := (re_devsw s)[re_num_dev s := re], re_num_dev := Suc (re_num_dev s)\<rparr>) t')
            else probe_cards inb h n (Suc i) devs ws s t)
         else None)
      else Some (devs, ws, s, t))"
  by pat_completeness auto
termination by (relation "measure (\<lambda>(inb, h, n, i, devs, ws, s, t). n - i)") auto

declare probe_cards.simps [simp del]

definition re_probe :: "(u16 \<Rightarrow> u8) \<Rightarrow> 'h \<Rightarrow> pci_dev list \<times> nat \<Rightarrow> net \<Rightarrow> 'h option list \<times> pic
    \<Rightarrow> (pci_dev list \<times> (u32 \<times> u32) list \<times> net \<times> ('h option list \<times> pic)) option" where
  "re_probe inb h p s t = probe_cards inb h (snd p) 0 (fst p) [] s t"

section \<open>Headers are read back\<close>

lemma bswap16_twice [simp]: "bswap16 (bswap16 v) = v"
proof -
  have m: "(0xFF :: u16) = mask 8" by (simp add: mask_eq_exp_minus_1)
  show ?thesis unfolding bswap16_def m by (rule bit_word_eqI, rename_tac n, case_tac "n < 8") (auto simp: bit_simps)
qed

lemma bswap32_twice [simp]: "bswap32 (bswap32 v) = v"
proof -
  have m: "(0xFF00 :: u32) = push_bit 8 (mask 8)" "(0xFF0000 :: u32) = push_bit 16 (mask 8)" by (simp_all add: mask_eq_exp_minus_1 push_bit_eq_mult)
  show ?thesis unfolding bswap32_def m
  proof (rule bit_word_eqI)
    fix n
    assume n: "n < LENGTH(32)"
    let ?b = "\<lambda>v. drop_bit 24 v OR (drop_bit 8 v AND push_bit 8 (mask 8)) OR (push_bit 8 v AND push_bit 16 (mask 8)) OR push_bit 24 v :: u32"
    consider "n < 8" | "8 \<le> n" "n < 16" | "16 \<le> n" "n < 24" | "24 \<le> n" by linarith
    then show "bit (?b (?b v)) n = bit v n" using n by cases (auto simp: bit_simps dest: bit_imp_le_length)
  qed
qed

text \<open>A header that lies inside a frame is read the same in the buffer around it.\<close>

lemma get_inside:
  "off + 2 \<le> length f \<Longrightarrow> get16 (xs @ f @ ys) (length xs + off) = get16 f off"
  "off + 4 \<le> length f \<Longrightarrow> get32 (xs @ f @ ys) (length xs + off) = get32 f off"
  by (simp_all add: get16_def get32_def nth_append)

lemmas get16_inside2 = get_inside(1) [of "Suc (Suc off)" f xs ys for off f xs ys, simplified]

lemma headers_inside:
  "off + 14 \<le> length f \<Longrightarrow> ether_at (xs @ f @ ys) (length xs + off) = ether_at f off"
  "off + 28 \<le> length f \<Longrightarrow> arp_at (xs @ f @ ys) (length xs + off) = arp_at f off"
  "off + 20 \<le> length f \<Longrightarrow> ip_at (xs @ f @ ys) (length xs + off) = ip_at f off"
  "off + 20 \<le> length f \<Longrightarrow> tcp_at (xs @ f @ ys) (length xs + off) = tcp_at f off"
  "off + 8 \<le> length f \<Longrightarrow> udp_at (xs @ f @ ys) (length xs + off) = udp_at f off"
  by (simp_all add: ether_at_def arp_at_def ip_at_def tcp_at_def udp_at_def get_inside get16_inside2 add.assoc nth_append Let_def)

lemma ether_roundtrip: "length (ether_dst e) = 6 \<Longrightarrow> length (ether_src e) = 6 \<Longrightarrow> ether_at (ether_bytes e @ ys) 0 = e"
  using get16_le16 [of "ether_dst e @ ether_src e" "ether_type e" ys] by (simp add: ether_at_def ether_bytes_def)

lemma six_bytes: "length xs = 6 \<Longrightarrow> \<exists>a b c d e f. xs = [a, b, c, d, e, f]" for xs :: bytes
  by (auto simp: numeral_eq_Suc length_Suc_conv)

lemma arp_roundtrip:
  assumes "length (ar_sha a) = 6" "length (ar_tha a) = 6"
  shows "arp_at (arp_bytes a) 0 = a"
proof -
  obtain s t where st: "ar_sha a = s" "ar_tha a = t" by simp
  obtain s1 s2 s3 s4 s5 s6 t1 t2 t3 t4 t5 t6 where "s = [s1, s2, s3, s4, s5, s6]" "t = [t1, t2, t3, t4, t5, t6]"
    using six_bytes assms st by metis
  then show ?thesis using st by (simp add: arp_at_def arp_bytes_def le16_def le32_def get16_def get32_def get16_parts get32_parts)
qed

lemma nibbles_fields: "ucast (nibbles v w) = v" "ucast (drop_bit 4 (nibbles v w)) = w"
  unfolding nibbles_def by (rule bit_word_eqI; auto simp: bit_simps dest: bit_imp_le_length)+

lemma flag_fields:
  "ucast (flag_bits a b c d e f g) = a" "ucast (drop_bit 1 (flag_bits a b c d e f g)) = b" "ucast (drop_bit 2 (flag_bits a b c d e f g)) = c"
  "ucast (drop_bit 3 (flag_bits a b c d e f g)) = d" "ucast (drop_bit 4 (flag_bits a b c d e f g)) = e"
  "ucast (drop_bit 5 (flag_bits a b c d e f g)) = f" "ucast (drop_bit 6 (flag_bits a b c d e f g)) = g"
  unfolding flag_bits_def by (rule bit_word_eqI; auto simp: bit_simps simp del: push_bit_Suc drop_bit_Suc dest: bit_imp_le_length)+

lemmas field_bytes = le16_def le32_def get16_def get32_def get16_parts get32_parts nibbles_fields flag_fields flag_fields(2) [simplified]

lemma ip_roundtrip: "ip_at (ip_bytes p) 0 = p"
  by (simp add: ip_at_def ip_bytes_def field_bytes)

lemma tcp_roundtrip: "tcp_at (tcp_bytes t) 0 = t"
  by (simp add: tcp_at_def tcp_bytes_def field_bytes Let_def)

section \<open>What a frame causes\<close>

text \<open>The frames the kernel can handle: the headers it reads are there, and the length of a UDP packet is within the frame.\<close>

definition eth_type :: "bytes \<Rightarrow> u16" where
  "eth_type f = ntohs (ether_type (ether_at f 0))"

definition frame_ok :: "bytes \<Rightarrow> bool" where
  "frame_ok f \<longleftrightarrow> 14 \<le> length f \<and> length f \<le> 1518
     \<and> (eth_type f = 0x0806 \<longrightarrow> 42 \<le> length f)
     \<and> (eth_type f = 0x0800 \<longrightarrow> 34 \<le> length f
          \<and> (ip_proto (ip_at f 14) = 6 \<longrightarrow> 54 \<le> length f)
          \<and> (ip_proto (ip_at f 14) = 17 \<longrightarrow> 42 \<le> length f \<and> 34 + unat (ntohs (uh_length (udp_at f 34))) < length f))"

definition arp_request :: "bytes \<Rightarrow> bool" where
  "arp_request f \<longleftrightarrow> eth_type f = 0x0806 \<and> ntohs (ar_op (arp_at f 14)) = 1"

definition tcp_syn :: "bytes \<Rightarrow> bool" where
  "tcp_syn f \<longleftrightarrow> eth_type f = 0x0800 \<and> ip_proto (ip_at f 14) = 6 \<and> th_syn (tcp_at f 34) = 1 \<and> th_ack (tcp_at f 34) = 0"

text \<open>The answers, by the fields of their headers.\<close>

definition arp_answer :: "bytes \<Rightarrow> bytes \<Rightarrow> bytes \<Rightarrow> bool" where
  "arp_answer mac f r \<longleftrightarrow> length r = 42
     \<and> ether_at r 0 = \<lparr>ether_dst = [0x52, 0x55, 0x0A, 0x00, 0x02, 0x02], ether_src = mac, ether_type = htons 0x0806\<rparr>
     \<and> arp_at r 14 = \<lparr>ar_htype = htons 1, ar_ptype = htons 0x0800, ar_hlen = 6, ar_plen = 4, ar_op = htons 2,
          ar_sha = myhw_addr, ar_spa = ar_tpa (arp_at f 14), ar_tha = ar_sha (arp_at f 14), ar_tpa = ar_spa (arp_at f 14)\<rparr>"

definition syn_answer :: "bytes \<Rightarrow> bytes \<Rightarrow> bytes \<Rightarrow> bool" where
  "syn_answer mac f r \<longleftrightarrow> length r = 54
     \<and> ether_at r 0 = \<lparr>ether_dst = [0x52, 0x55, 0x0A, 0x00, 0x02, 0x02], ether_src = mac, ether_type = htons 0x0800\<rparr>
     \<and> ip_ver (ip_at r 14) = 4 \<and> ip_hl (ip_at r 14) = 5 \<and> ip_proto (ip_at r 14) = 6
     \<and> ip_src (ip_at r 14) = ip_dst (ip_at f 14) \<and> ip_dst (ip_at r 14) = ip_src (ip_at f 14)
     \<and> tcp_at r 34 = zero_tcp\<lparr>th_syn := 1, th_ack := 1, th_ack_seq := htonl (ntohl (th_seq (tcp_at f 34)) + 1), th_seq := htonl 100,
          th_src_port := th_dst_port (tcp_at f 34), th_dst_port := th_src_port (tcp_at f 34)\<rparr>"

definition answered :: "bytes \<Rightarrow> bytes \<Rightarrow> bytes list \<Rightarrow> bool" where
  "answered mac f rs \<longleftrightarrow>
     (if arp_request f then (\<exists>r. rs = [r] \<and> arp_answer mac f r)
      else if tcp_syn f then (\<exists>r. rs = [r] \<and> syn_answer mac f r)
      else rs = [])"

section \<open>Sending\<close>

definition card_ok :: "re_dev \<Rightarrow> bool" where
  "card_ok re \<longleftrightarrow> length (re_mac re) = 6 \<and> unat (tx_round_robin re) < 4 \<and> map length (tx_buf re) = replicate 4 1500"

definition cards_ok :: "net \<Rightarrow> bool" where
  "cards_ok s \<longleftrightarrow> 0 < length (re_devsw s) \<and> card_ok (re_devsw s ! 0)"

text \<open>What sending and receiving do not change.\<close>

definition kept :: "net \<Rightarrow> net \<Rightarrow> bool" where
  "kept s t \<longleftrightarrow> length (re_devsw t) = length (re_devsw s) \<and> re_num_dev t = re_num_dev s
     \<and> (\<forall>j. rx_buf_head (re_devsw t ! j) = rx_buf_head (re_devsw s ! j) \<and> re_mac (re_devsw t ! j) = re_mac (re_devsw s ! j))"

lemma field_update: "f y = f (xs ! i) \<Longrightarrow> f (xs[i := y] ! j) = f (xs ! j)"
  by (cases "i = j"; cases "j < length xs") (auto simp: list_update_beyond)

lemma ether_output_run:
  assumes "cards_ok s" "length data \<le> 1486"
  shows "\<exists>t. ether_output type dst data s = Some t \<and> cards_ok t \<and> kept s t \<and> (\<forall>j. rx_bytes j t = rx_bytes j s)
    \<and> tx_frames t = tx_frames s @ [ether_bytes \<lparr>ether_dst = [0x52, 0x55, 0x0A, 0x00, 0x02, 0x02], ether_src = re_mac (re_devsw s ! 0), ether_type = htons type\<rparr> @ data]"
proof -
  define re where "re = re_devsw s ! 0"
  define k where "k = unat (tx_round_robin re)"
  define f where "f = ether_bytes \<lparr>ether_dst = [0x52, 0x55, 0x0A, 0x00, 0x02, 0x02], ether_src = re_mac re, ether_type = htons type\<rparr> @ data"
  define buf where "buf = f @ drop (length f) (tx_buf re ! k)"
  define re' where "re' = re\<lparr>tx_buf := (tx_buf re)[k := buf], tx_round_robin := (tx_round_robin re + 1) AND 3\<rparr>"
  let ?t = "s\<lparr>re_devsw := (re_devsw s)[0 := re'], tx_frames := tx_frames s @ [f]\<rparr>"
  have ok: "0 < length (re_devsw s)" "length (re_mac re) = 6" "k < 4" "map length (tx_buf re) = replicate 4 1500"
    using assms(1) by (simp_all add: cards_ok_def card_ok_def re_def k_def)
  have f: "length f = 14 + length data" using ok(2) by (simp add: f_def ether_bytes_def)
  have n: "length (tx_buf re) = 4" using ok(4) map_eq_imp_length_eq [of length "tx_buf re"] by (metis length_map length_replicate)
  have b: "length (tx_buf re ! k) = 1500" using ok(3,4) n by (metis nth_map nth_replicate)
  then have "map length ((tx_buf re)[k := buf]) = replicate 4 1500" using ok(3,4) f assms(2) by (simp add: map_update buf_def list_update_same_conv)
  moreover have "unat ((tx_round_robin re + 1) AND 3) < 4"
  proof -
    have "(tx_round_robin re + 1) AND 3 \<le> 3" by (rule word_and_le1)
    then show ?thesis by (simp add: word_le_nat_alt)
  qed
  ultimately have "card_ok re'" using ok(2) by (simp add: card_ok_def re'_def)
  then have "cards_ok ?t" using ok(1) by (simp add: cards_ok_def)
  moreover have "kept s ?t" "\<forall>j. rx_bytes j ?t = rx_bytes j s"
    using field_update [of rx_buf re' "re_devsw s" 0] field_update [of rx_buf_head re' "re_devsw s" 0] field_update [of re_mac re' "re_devsw s" 0]
    by (simp_all add: kept_def rx_bytes_def re'_def re_def)
  moreover have "ether_output type dst data s = Some ?t"
    using ok(1,3) n b f assms(2) unfolding ether_output_def re_output_def re_send_def
    by (simp add: Let_def re_def [symmetric] k_def [symmetric] f_def [symmetric] re'_def buf_def)
  ultimately show ?thesis by (intro exI [of _ ?t]) (simp add: f_def re_def)
qed

section \<open>Receiving a frame\<close>

lemma arp_input_frame:
  assumes "cards_ok s" "rx_bytes i s = xs @ f @ ys" "length xs = h" "frame_ok f" "eth_type f = 0x0806"
  shows "\<exists>t rs. arp_input i (h + 14) s = Some t \<and> cards_ok t \<and> kept s t \<and> (\<forall>j. rx_bytes j t = rx_bytes j s)
    \<and> tx_frames t = tx_frames s @ rs \<and> answered (re_mac (re_devsw s ! 0)) f rs"
proof -
  have len: "42 \<le> length f" using assms(4,5) by (simp add: frame_ok_def)
  have arp: "arp_at (rx_bytes i s) (h + 14) = arp_at f 14" using headers_inside(2) [of 14 f xs ys] assms(2,3) len by simp
  have in_: "in_rx i s (h + 14) 28" using assms(2,3) len by (simp add: in_rx_def)
  have no: "\<not> tcp_syn f" using assms(5) by (simp add: tcp_syn_def)
  let ?mac = "re_mac (re_devsw s ! 0)"
  show ?thesis
  proof (cases "ntohs (ar_op (arp_at f 14)) = 1")
    case False
    then have "\<not> arp_request f" by (simp add: arp_request_def)
    then show ?thesis using False in_ arp assms(1) no by (intro exI [of _ s] exI [of _ "[]"]) (simp add: arp_input_def answered_def kept_def Let_def)
  next
    case True
    define a where "a = \<lparr>ar_htype = htons 1, ar_ptype = htons 0x0800, ar_hlen = 6, ar_plen = 4, ar_op = htons 2,
      ar_sha = myhw_addr, ar_spa = ar_tpa (arp_at f 14), ar_tha = ar_sha (arp_at f 14), ar_tpa = ar_spa (arp_at f 14)\<rparr>"
    define e where "e = \<lparr>ether_dst = [0x52, 0x55, 0x0A, 0x00, 0x02, 0x02], ether_src = ?mac, ether_type = htons 0x0806\<rparr>"
    have a6: "length (ar_sha a) = 6" "length (ar_tha a) = 6" using len by (simp_all add: a_def myhw_addr_def arp_at_def)
    have e6: "length (ether_dst e) = 6" "length (ether_src e) = 6" using assms(1) by (simp_all add: e_def cards_ok_def card_ok_def)
    have l: "length (arp_bytes a) = 28" "length (ether_bytes e) = 14" using a6 e6 by (simp_all add: arp_bytes_def ether_bytes_def)
    obtain t where t: "ether_output 0x0806 (ar_tpa (arp_at f 14)) (arp_bytes a) s = Some t" "cards_ok t" "kept s t" "\<forall>j. rx_bytes j t = rx_bytes j s"
      "tx_frames t = tx_frames s @ [ether_bytes e @ arp_bytes a]"
      using ether_output_run [OF assms(1), of "arp_bytes a" "0x0806" "ar_tpa (arp_at f 14)"] l(1) unfolding e_def by auto
    have "arp_at (ether_bytes e @ arp_bytes a) 14 = a"
      using headers_inside(2) [of 0 "arp_bytes a" "ether_bytes e" "[]"] arp_roundtrip [OF a6] l by simp
    then have "arp_answer ?mac f (ether_bytes e @ arp_bytes a)"
      using ether_roundtrip [OF e6] l by (simp add: arp_answer_def a_def [symmetric] e_def [symmetric])
    then have "answered ?mac f [ether_bytes e @ arp_bytes a]" using True assms(5) by (simp add: answered_def arp_request_def)
    moreover have "arp_input i (h + 14) s = Some t" using t(1) True in_ arp by (simp add: arp_input_def arp_output_def a_def Let_def)
    ultimately show ?thesis using t(2-5) by blast
  qed
qed

lemma tcp_input_frame:
  assumes "cards_ok s" "eth_type f = 0x0800" "ip_proto (ip_at f 14) = 6"
  shows "\<exists>t rs. tcp_input (ip_at f 14) (tcp_at f 34) s = Some t \<and> cards_ok t \<and> kept s t \<and> (\<forall>j. rx_bytes j t = rx_bytes j s)
    \<and> tx_frames t = tx_frames s @ rs \<and> answered (re_mac (re_devsw s ! 0)) f rs"
proof (cases "tcp_syn f")
  case False
  then have "answered (re_mac (re_devsw s ! 0)) f []" using assms(2) by (simp add: answered_def arp_request_def)
  then show ?thesis using False assms by (intro exI [of _ s] exI [of _ "[]"]) (auto simp: tcp_input_def tcp_syn_def kept_def)
next
  case True
  let ?mac = "re_mac (re_devsw s ! 0)"
  define r where "r = zero_tcp\<lparr>th_syn := 1, th_ack := 1, th_ack_seq := htonl (ntohl (th_seq (tcp_at f 34)) + 1), th_seq := htonl 100,
    th_src_port := th_dst_port (tcp_at f 34), th_dst_port := th_src_port (tcp_at f 34)\<rparr>"
  define q where "q = \<lparr>ip_hl = 5, ip_ver = 4, ip_tos = 0, ip_len = 0, ip_id = 0, ip_offset = 0, ip_ttl = 64, ip_proto = 6,
    ip_checksum = 0, ip_src = ip_dst (ip_at f 14), ip_dst = ip_src (ip_at f 14)\<rparr>"
  define e where "e = \<lparr>ether_dst = [0x52, 0x55, 0x0A, 0x00, 0x02, 0x02], ether_src = ?mac, ether_type = htons 0x0800\<rparr>"
  have e6: "length (ether_dst e) = 6" "length (ether_src e) = 6" using assms(1) by (simp_all add: e_def cards_ok_def card_ok_def)
  have l: "length (ip_bytes q) = 20" "length (tcp_bytes r) = 20" "length (ether_bytes e) = 14"
    using e6 by (simp_all add: ip_bytes_def tcp_bytes_def ether_bytes_def)
  obtain t where t: "ether_output 0x0800 0 (ip_bytes q @ tcp_bytes r) s = Some t" "cards_ok t" "kept s t" "\<forall>j. rx_bytes j t = rx_bytes j s"
    "tx_frames t = tx_frames s @ [ether_bytes e @ ip_bytes q @ tcp_bytes r]"
    using ether_output_run [OF assms(1), of "ip_bytes q @ tcp_bytes r" "0x0800" 0] l unfolding e_def by auto
  have "ip_at (ether_bytes e @ ip_bytes q @ tcp_bytes r) 14 = q"
    using headers_inside(3) [of 0 "ip_bytes q" "ether_bytes e" "tcp_bytes r"] ip_roundtrip [of q] l by simp
  moreover have "tcp_at (ether_bytes e @ ip_bytes q @ tcp_bytes r) 34 = r"
    using headers_inside(4) [of 0 "tcp_bytes r" "ether_bytes e @ ip_bytes q" "[]"] tcp_roundtrip [of r] l by simp
  ultimately have "syn_answer ?mac f (ether_bytes e @ ip_bytes q @ tcp_bytes r)"
    using ether_roundtrip [OF e6] l by (simp add: syn_answer_def r_def [symmetric] e_def [symmetric] q_def)
  then have "answered ?mac f [ether_bytes e @ ip_bytes q @ tcp_bytes r]" using True assms(2) by (simp add: answered_def arp_request_def)
  moreover have "tcp_input (ip_at f 14) (tcp_at f 34) s = Some t"
    using t(1) True l unfolding tcp_input_def tcp_output_def ip_output_def r_def [symmetric] bswap32_twice q_def [symmetric]
    by (simp add: tcp_syn_def Let_def)
  ultimately show ?thesis using t(2-5) by blast
qed

lemma udp_input_frame:
  assumes "cards_ok s" "i < length (re_devsw s)" "rx_bytes i s = xs @ f @ ys" "length xs = h" "h \<le> 2 ^ 17" "frame_ok f" "eth_type f = 0x0800"
    "ip_proto (ip_at f 14) = 17"
  shows "\<exists>t f'. udp_input i (h + 34) s = Some t \<and> cards_ok t \<and> kept s t \<and> rx_bytes i t = xs @ f' @ ys \<and> length f' = length f \<and> tx_frames t = tx_frames s"
proof -
  define n where "n = unat (ntohs (uh_length (udp_at f 34)))"
  have len: "42 \<le> length f" "34 + n < length f" "length f \<le> 1518" using assms(6-8) by (simp_all add: frame_ok_def n_def)
  have udp: "udp_at (rx_bytes i s) (h + 34) = udp_at f 34" using headers_inside(5) [of 34 f xs ys] assms(3,4) len(1) by simp
  have "of_nat (h + 34 + 8) + (ucast (ntohs (uh_length (udp_at f 34))) - 8) = (of_nat (h + 34 + n) :: u32)"
    by (simp add: n_def)
  moreover have "unat (of_nat (h + 34 + n) :: u32) = h + 34 + n" using assms(5) len by (intro unat_of_nat_small) simp
  ultimately have at: "unat (of_nat (h + 34 + 8) + (ucast (ntohs (uh_length (udp_at f 34))) - 8) :: u32) = h + 34 + n" by (simp only:)
  define t where "t = s\<lparr>re_devsw := (re_devsw s)[i := (re_devsw s ! i)\<lparr>rx_buf := (rx_bytes i s)[h + 34 + n := 0]\<rparr>]\<rparr>"
  have "udp_input i (h + 34) s = Some t"
    using len assms(3,4) unfolding udp_input_def Let_def udp at by (simp add: in_rx_def t_def)
  moreover have "cards_ok t"
    using assms(1) field_update [of card_ok "(re_devsw s ! i)\<lparr>rx_buf := (rx_bytes i s)[h + 34 + n := 0]\<rparr>" "re_devsw s" i 0]
    by (simp add: cards_ok_def t_def card_ok_def)
  moreover have "kept s t"
    using field_update [of rx_buf_head "(re_devsw s ! i)\<lparr>rx_buf := (rx_bytes i s)[h + 34 + n := 0]\<rparr>" "re_devsw s" i]
      field_update [of re_mac "(re_devsw s ! i)\<lparr>rx_buf := (rx_bytes i s)[h + 34 + n := 0]\<rparr>" "re_devsw s" i]
    by (simp add: kept_def t_def)
  moreover have "rx_bytes i t = xs @ f[34 + n := 0] @ ys"
  proof -
    have "rx_bytes i t = (xs @ f @ ys)[h + 34 + n := 0]" using assms(2,3) by (simp add: t_def rx_bytes_def)
    also have "\<dots> = xs @ f[34 + n := 0] @ ys" using assms(4) len(2) by (simp add: list_update_append)
    finally show ?thesis .
  qed
  ultimately show ?thesis by (intro exI [of _ t] exI [of _ "f[34 + n := 0]"]) (simp add: t_def)
qed

lemma ether_input_frame:
  assumes "cards_ok s" "i < length (re_devsw s)" "rx_bytes i s = xs @ f @ ys" "length xs = h" "h \<le> 2 ^ 17" "frame_ok f"
  shows "\<exists>t rs f'. ether_input i h (h + 14) (of_nat (length f) - 14) s = Some t \<and> cards_ok t \<and> kept s t
    \<and> rx_bytes i t = xs @ f' @ ys \<and> length f' = length f \<and> tx_frames t = tx_frames s @ rs \<and> answered (re_mac (re_devsw s ! 0)) f rs"
proof -
  have len: "14 \<le> length f" "length f \<le> 1518" using assms(6) by (simp_all add: frame_ok_def)
  have type: "ntohs (ether_type (ether_at (rx_bytes i s) h)) = eth_type f"
    using headers_inside(1) [of 0 f xs ys] assms(3,4) len(1) by (simp add: eth_type_def)
  consider "eth_type f = 0x0806" | "eth_type f = 0x0800" | "eth_type f \<noteq> 0x0806" "eth_type f \<noteq> 0x0800" by blast
  then show ?thesis
  proof cases
    case 1
    from arp_input_frame [OF assms(1,3,4,6) 1] obtain t rs where "arp_input i (h + 14) s = Some t" "cards_ok t" "kept s t" "\<forall>j. rx_bytes j t = rx_bytes j s"
      "tx_frames t = tx_frames s @ rs" "answered (re_mac (re_devsw s ! 0)) f rs" by blast
    then show ?thesis using 1 type assms(3) by (intro exI [of _ t] exI [of _ rs] exI [of _ f]) (simp add: ether_input_def Let_def)
  next
    case 2
    have l34: "34 \<le> length f" using assms(6) 2 by (simp add: frame_ok_def)
    have ip: "ip_at (rx_bytes i s) (h + 14) = ip_at f 14" using headers_inside(3) [of 14 f xs ys] assms(3,4) l34 by simp
    have dl: "unat (of_nat (length f) - 14 - 20 :: u32) = length f - 34"
    proof -
      have "of_nat (length f) - 14 - 20 = (of_nat (length f - 34) :: u32)" using l34 by (simp add: of_nat_diff)
      then show ?thesis using len(2) by (simp add: unat_of_nat_small)
    qed
    have guard: "in_rx i s (h + 14) 20" "in_rx i s (h + 14 + 20) (unat (of_nat (length f) - 14 - 20 :: u32))"
      using assms(3,4) l34 unfolding dl by (simp_all add: in_rx_def)
    have e: "ether_input i h (h + 14) (of_nat (length f) - 14) s = ip_input i (h + 14) (of_nat (length f) - 14) s" using 2 type by (simp add: ether_input_def Let_def)
    show ?thesis
    proof (cases "ip_proto (ip_at f 14) = 6")
      case True
      then have l54: "54 \<le> length f" using assms(6) 2 by (simp add: frame_ok_def)
      have tcp: "tcp_at (rx_bytes i s) (h + 14 + 20) = tcp_at f 34" "in_rx i s (h + 14 + 20) 20"
        using headers_inside(4) [of 34 f xs ys] assms(3,4) l54 by (simp_all add: in_rx_def add.assoc)
      have run: "ip_input i (h + 14) (of_nat (length f) - 14) s = tcp_input (ip_at f 14) (tcp_at f 34) s"
        using True guard tcp ip by (simp add: ip_input_def Let_def)
      from tcp_input_frame [OF assms(1) 2 True] obtain t rs where "tcp_input (ip_at f 14) (tcp_at f 34) s = Some t" "cards_ok t" "kept s t"
        "\<forall>j. rx_bytes j t = rx_bytes j s" "tx_frames t = tx_frames s @ rs" "answered (re_mac (re_devsw s ! 0)) f rs" by blast
      then show ?thesis using e run assms(3) by (intro exI [of _ t] exI [of _ rs] exI [of _ f]) simp
    next
      case False
      then have ans: "answered (re_mac (re_devsw s ! 0)) f []" using 2 by (simp add: answered_def arp_request_def tcp_syn_def)
      show ?thesis
      proof (cases "ip_proto (ip_at f 14) = 17")
        case True
        have run: "ip_input i (h + 14) (of_nat (length f) - 14) s = udp_input i (h + 34) s"
          using False True guard ip by (simp add: ip_input_def Let_def add.commute)
        from udp_input_frame [OF assms 2 True] obtain t f' where "udp_input i (h + 34) s = Some t" "cards_ok t" "kept s t" "rx_bytes i t = xs @ f' @ ys"
          "length f' = length f" "tx_frames t = tx_frames s" by blast
        then show ?thesis using e run ans by (intro exI [of _ t] exI [of _ "[]"] exI [of _ f']) simp
      next
        case no: False
        have "ip_input i (h + 14) (of_nat (length f) - 14) s = Some s" using False no guard ip by (simp add: ip_input_def Let_def)
        then show ?thesis using e ans assms(1,3) by (intro exI [of _ s] exI [of _ "[]"] exI [of _ f]) (simp add: kept_def)
      qed
    qed
  next
    case 3
    then have "answered (re_mac (re_devsw s ! 0)) f []" by (simp add: answered_def arp_request_def tcp_syn_def)
    then show ?thesis using 3 type assms(1,3) by (intro exI [of _ s] exI [of _ "[]"] exI [of _ f]) (simp add: ether_input_def kept_def Let_def)
  qed
qed

text \<open>The entry of a frame in the receive buffer: status, length, the frame, and bytes up to a multiple of four.\<close>

definition entry_size :: "bytes \<Rightarrow> nat" where
  "entry_size f = (length f + 7) div 4 * 4"

definition ring_entry :: "u16 \<times> bytes \<times> bytes \<Rightarrow> bytes" where
  "ring_entry e = (case e of (st, f, pad) \<Rightarrow> le16 st @ le16 (of_nat (length f)) @ f @ pad)"

definition entry_ok :: "u16 \<times> bytes \<times> bytes \<Rightarrow> bool" where
  "entry_ok e \<longleftrightarrow> (case e of (st, f, pad) \<Rightarrow> frame_ok f \<and> 4 + length f + length pad = entry_size f)"

lemma length_ring_entry: "entry_ok (st, f, pad) \<Longrightarrow> length (ring_entry (st, f, pad)) = entry_size f"
  by (simp add: ring_entry_def entry_ok_def)

lemma round_up:
  assumes "length f \<le> 1518"
  shows "ucast ((ucast (of_nat (length f) :: u16) + 4 + 3 :: u32) AND NOT 3) = (of_nat (entry_size f) :: u16)"
proof -
  have m: "(3 :: u32) = mask 2" by (simp add: mask_eq_exp_minus_1)
  have "ucast (of_nat (length f) :: u16) = (of_nat (length f) :: u32)" using assms by (simp add: unsigned_of_nat take_bit_nat_eq_self)
  then have w: "ucast (of_nat (length f) :: u16) + 4 + 3 = (of_nat (length f + 7) :: u32)" by simp
  have ss: "2 \<le> n \<Longrightarrow> Suc (Suc (n - 2)) = n" for n by simp
  have "w AND NOT 3 = push_bit 2 (drop_bit 2 w)" for w :: u32
    unfolding m by (rule bit_word_eqI) (auto simp: bit_simps not_less ss)
  then have "(of_nat (length f + 7) :: u32) AND NOT 3 = push_bit 2 (drop_bit 2 (of_nat (length f + 7)))" .
  also have "\<dots> = of_nat (entry_size f)"
  proof -
    have "unat (of_nat (length f + 7) :: u32) = length f + 7" by (rule unat_of_nat_small) (use assms in simp)
    then have "unat (drop_bit 2 (of_nat (length f + 7) :: u32)) = (length f + 7) div 4" by (simp add: drop_bit_eq_div unat_div del: of_nat_add)
    then have "of_nat (unat (drop_bit 2 (of_nat (length f + 7) :: u32))) = (of_nat ((length f + 7) div 4) :: u32)" by (simp only:)
    then have "drop_bit 2 (of_nat (length f + 7) :: u32) = of_nat ((length f + 7) div 4)" by (simp only: of_nat_unat ucast_id)
    then show ?thesis by (simp add: push_bit_eq_mult entry_size_def)
  qed
  finally have "(of_nat (length f + 7) :: u32) AND NOT 3 = of_nat (entry_size f)" .
  moreover have "entry_size f < 2 ^ 16" using assms by (simp add: entry_size_def)
  ultimately show ?thesis unfolding w by (simp add: unsigned_of_nat take_bit_nat_eq_self)
qed

lemma re_input_entry:
  assumes "cards_ok s" "i < length (re_devsw s)" "rx_bytes i s = xs @ ring_entry (st, f, pad) @ ys" "length xs = unat (rx_buf_head (re_devsw s ! i))"
    "entry_ok (st, f, pad)"
  shows "\<exists>t rs zs. re_input i s = Some t \<and> cards_ok t \<and> length (re_devsw t) = length (re_devsw s) \<and> re_num_dev t = re_num_dev s
    \<and> re_mac (re_devsw t ! 0) = re_mac (re_devsw s ! 0)
    \<and> rx_bytes i t = zs @ ys \<and> length zs = length xs + entry_size f \<and> rx_buf_head (re_devsw t ! i) = rx_buf_head (re_devsw s ! i) + of_nat (entry_size f)
    \<and> tx_frames t = tx_frames s @ rs \<and> answered (re_mac (re_devsw s ! 0)) f rs"
proof -
  let ?h = "length xs" and ?l = "le16 st @ le16 (of_nat (length f))"
  have ok: "frame_ok f" "4 + length f + length pad = entry_size f" using assms(5) by (simp_all add: entry_ok_def)
  then have len: "14 \<le> length f" "length f \<le> 1518" by (simp_all add: frame_ok_def)
  have rx: "rx_bytes i s = (xs @ ?l) @ f @ (pad @ ys)" using assms(3) by (simp add: ring_entry_def)
  have h: "?h < 2 ^ 16" using assms(4) unsigned_less [of "rx_buf_head (re_devsw s ! i)"] by simp
  have h4: "length (xs @ ?l) = ?h + 4" by simp
  have frame_len: "get16 ((xs @ ?l) @ zs) (?h + 2) = of_nat (length f)" for zs
    using get16_le16 [of "xs @ le16 st" "of_nat (length f)" zs] by simp
  have fl: "ucast (of_nat (length f) :: u16) = (of_nat (length f) :: u32)" "unat (of_nat (length f) :: u32) = length f"
    using len(2) by (simp_all add: unsigned_of_nat take_bit_nat_eq_self)
  obtain t rs f' where t: "ether_input i (?h + 4) (?h + 4 + 14) (of_nat (length f) - 14) s = Some t" "cards_ok t" "kept s t"
    "rx_bytes i t = (xs @ ?l) @ f' @ (pad @ ys)" "length f' = length f" "tx_frames t = tx_frames s @ rs" "answered (re_mac (re_devsw s ! 0)) f rs"
    using ether_input_frame [OF assms(1,2) rx h4 _ ok(1)] h by auto
  define d where "d = (re_devsw t ! i)\<lparr>rx_buf_head := rx_buf_head (re_devsw t ! i) + of_nat (entry_size f)\<rparr>"
  define u where "u = t\<lparr>re_devsw := (re_devsw t)[i := d]\<rparr>"
  have l: "i < length (re_devsw t)" using t(3) assms(2) by (simp add: kept_def)
  have "re_input i s = Some u"
    using assms(2) t(1) rx len fl frame_len round_up [OF len(2)] unfolding re_input_def assms(4) [symmetric] Let_def
    by (simp add: in_rx_def t(4) u_def d_def add.assoc)
  moreover have "cards_ok u" using t(2) l field_update [of card_ok d "re_devsw t" i 0] by (simp add: cards_ok_def u_def d_def card_ok_def)
  moreover have "re_mac (re_devsw u ! 0) = re_mac (re_devsw s ! 0)"
    using t(3) field_update [of re_mac d "re_devsw t" i 0] by (simp add: u_def d_def kept_def)
  moreover have "rx_bytes i u = ((xs @ ?l) @ f' @ pad) @ ys" using l t(4) by (simp add: u_def d_def rx_bytes_def)
  moreover have "length ((xs @ ?l) @ f' @ pad) = ?h + entry_size f" using t(5) ok(2) by simp
  moreover have "rx_buf_head (re_devsw u ! i) = rx_buf_head (re_devsw s ! i) + of_nat (entry_size f)" using t(3) l by (simp add: u_def d_def kept_def)
  ultimately show ?thesis using t(3,6,7)
    by (intro exI [of _ u] exI [of _ rs] exI [of _ "(xs @ ?l) @ f' @ pad"]) (simp add: u_def kept_def)
qed

section \<open>A sequence of interrupts\<close>

text \<open>One interrupt after the other, with the status words of the cards at each of them.\<close>

fun interrupts :: "u16 list list \<Rightarrow> net \<Rightarrow> net option" where
  "interrupts [] s = Some s"
| "interrupts (st # sts) s = Option.bind (re_intr st s) (interrupts sts)"

definition frame_of :: "u16 \<times> bytes \<times> bytes \<Rightarrow> bytes" where
  "frame_of e = fst (snd e)"

text \<open>
  C21: the kernel answers what it receives.  Let the receive buffer of the only card hold any number of frames from its
  head on, each with the status and the length that the card puts in front and filled up to a multiple of four bytes; the frames have
  the headers that their types announce, and a UDP packet ends inside its frame.  Then an interrupt for each of them returns, and
  the frames that are sent are, in the order of the requests, one answer for each ARP request, with the addresses of the two
  sides exchanged, and one for each first segment of a TCP connection, with addresses and ports exchanged, both flags set and the next
  sequence number acknowledged; nothing is sent for other frames.  The head of the buffer is then behind the frames.
\<close>

theorem net_answers:
  assumes "cards_ok s" "re_num_dev s = 1" "rx_bytes 0 s = xs @ concat (map ring_entry es) @ ys" "length xs = unat (rx_buf_head (re_devsw s ! 0))"
    "list_all entry_ok es" "length (xs @ concat (map ring_entry es)) < 2 ^ 16" "length sts = length es" "list_all (\<lambda>st. bit st 0) sts"
  shows "\<exists>t rss. interrupts (map (\<lambda>st. [st]) sts) s = Some t \<and> tx_frames t = tx_frames s @ concat rss
    \<and> list_all2 (\<lambda>e rs. answered (re_mac (re_devsw s ! 0)) (frame_of e) rs) es rss
    \<and> unat (rx_buf_head (re_devsw t ! 0)) = length (xs @ concat (map ring_entry es))"
  using assms
proof (induction es arbitrary: s xs sts)
  case Nil
  then show ?case by simp
next
  case (Cons e es)
  obtain st f pad where e: "e = (st, f, pad)" by (cases e)
  obtain w ws where sts: "sts = w # ws" "bit w 0" "length ws = length es" "list_all (\<lambda>st. bit st 0) ws" using Cons.prems(7,8) by (cases sts) auto
  have ok: "entry_ok (st, f, pad)" "list_all entry_ok es" using Cons.prems(5) e by simp_all
  have rx: "rx_bytes 0 s = xs @ ring_entry (st, f, pad) @ (concat (map ring_entry es) @ ys)" using Cons.prems(3) e by simp
  have "0 < length (re_devsw s)" using Cons.prems(1) by (simp add: cards_ok_def)
  from re_input_entry [OF Cons.prems(1) this rx Cons.prems(4) ok(1)] obtain t rs zs where
    t: "re_input 0 s = Some t" "cards_ok t" "re_num_dev t = re_num_dev s" "re_mac (re_devsw t ! 0) = re_mac (re_devsw s ! 0)"
    "rx_bytes 0 t = zs @ (concat (map ring_entry es) @ ys)" "length zs = length xs + entry_size f"
    "rx_buf_head (re_devsw t ! 0) = rx_buf_head (re_devsw s ! 0) + of_nat (entry_size f)"
    "tx_frames t = tx_frames s @ rs" "answered (re_mac (re_devsw s ! 0)) f rs"
    by blast
  have total: "length zs + length (concat (map ring_entry es)) = length (xs @ concat (map ring_entry (e # es)))"
    using t(6) length_ring_entry [OF ok(1)] e by simp
  have "length zs < 2 ^ 16" using total Cons.prems(6) by simp
  then have head: "length zs = unat (rx_buf_head (re_devsw t ! 0))"
    unfolding t(6,7) Cons.prems(4) by (subst unat_plus_of_nat) simp_all
  have "w AND 1 \<noteq> 0" using sts(2) by (simp add: bit_0 and_one_eq odd_iff_mod_2_eq_one)
  then have "re_intr [w] s = Some t" using t(1) Cons.prems(2) by (simp add: re_intr_def)
  moreover obtain u rss where "interrupts (map (\<lambda>st. [st]) ws) t = Some u" "tx_frames u = tx_frames t @ concat rss"
    "list_all2 (\<lambda>e rs. answered (re_mac (re_devsw t ! 0)) (frame_of e) rs) es rss"
    "unat (rx_buf_head (re_devsw u ! 0)) = length (zs @ concat (map ring_entry es))"
    using Cons.IH [OF t(2) _ t(5) head ok(2) _ sts(3,4)] t(3) Cons.prems(2,6) total by auto
  ultimately show ?case using sts(1) t(4,8,9) total e
    by (intro exI [of _ u] exI [of _ "rs # rss"]) (simp add: frame_of_def)
qed

text \<open>A machine that is asked for the hardware address of 10.0.2.15.\<close>

definition who_has :: arphdr where
  "who_has = \<lparr>ar_htype = htons 1, ar_ptype = htons 0x0800, ar_hlen = 6, ar_plen = 4, ar_op = htons 1, ar_sha = [2, 0, 0, 0, 0, 7], ar_spa = 0x0202000A,
     ar_tha = [0, 0, 0, 0, 0, 0], ar_tpa = 0x0F02000A\<rparr>"

definition asking :: bytes where
  "asking = ether_bytes \<lparr>ether_dst = replicate 6 0xFF, ether_src = [2, 0, 0, 0, 0, 7], ether_type = htons 0x0806\<rparr> @ arp_bytes who_has"

definition asked_net :: net where
  "asked_net = \<lparr>re_devsw = [\<lparr>re_io_base = 0xC000, re_irq = 11, re_dev_id = 0x8139, re_mac = myhw_addr, rx_buf = ring_entry (1, asking, [0, 0]),
     rx_buf_head = 0, tx_round_robin = 0, tx_buf = replicate 4 (replicate 1500 0)\<rparr>], re_num_dev = 1, tx_frames = []\<rparr>"

lemma asking_facts: "length asking = 42" "eth_type asking = 0x0806" "arp_at asking 14 = who_has"
proof -
  let ?e = "\<lparr>ether_dst = replicate 6 0xFF, ether_src = [2, 0, 0, 0, 0, 7], ether_type = htons 0x0806\<rparr>"
  have l: "length (ether_bytes ?e) = 14" "length (arp_bytes who_has) = 28" by (simp_all add: ether_bytes_def arp_bytes_def who_has_def)
  show "length asking = 42" using l by (simp add: asking_def)
  show "eth_type asking = 0x0806" using ether_roundtrip [of ?e "arp_bytes who_has"] by (simp add: eth_type_def asking_def)
  show "arp_at asking 14 = who_has"
    using headers_inside(2) [of 0 "arp_bytes who_has" "ether_bytes ?e" "[]"] arp_roundtrip [of who_has] l by (simp add: asking_def who_has_def)
qed

theorem net_witness:
  "\<exists>t r. interrupts [[1]] asked_net = Some t \<and> tx_frames t = [r] \<and> ar_sha (arp_at r 14) = myhw_addr
    \<and> ar_spa (arp_at r 14) = 0x0F02000A \<and> ar_tpa (arp_at r 14) = 0x0202000A"
proof -
  have c: "cards_ok asked_net" by (simp add: cards_ok_def card_ok_def asked_net_def myhw_addr_def map_replicate)
  have e: "entry_ok (1, asking, [0, 0])" using asking_facts by (simp add: entry_ok_def frame_ok_def entry_size_def)
  have l: "length (ring_entry (1, asking, [0, 0])) = 48" using asking_facts(1) by (simp add: ring_entry_def)
  have "\<exists>t rss. interrupts (map (\<lambda>st. [st]) [1]) asked_net = Some t \<and> tx_frames t = tx_frames asked_net @ concat rss
    \<and> list_all2 (\<lambda>e rs. answered (re_mac (re_devsw asked_net ! 0)) (frame_of e) rs) [(1, asking, [0, 0])] rss
    \<and> unat (rx_buf_head (re_devsw t ! 0)) = length ([] @ concat (map ring_entry [(1, asking, [0, 0])]))"
    by (rule net_answers [OF c, where ys = "[]"]) (use e l in \<open>simp_all add: asked_net_def rx_bytes_def\<close>)
  then obtain t rs where t: "interrupts [[1]] asked_net = Some t" "tx_frames t = rs" "answered myhw_addr asking rs"
    by (auto simp: asked_net_def frame_of_def list_all2_Cons1)
  moreover have "arp_request asking" using asking_facts by (simp add: arp_request_def who_has_def)
  ultimately obtain r where "rs = [r]" "arp_answer myhw_addr asking r" by (auto simp: answered_def)
  then show ?thesis using t(1,2) asking_facts(3) by (intro exI [of _ t] exI [of _ r]) (simp add: arp_answer_def who_has_def)
qed

text \<open>The length field of a UDP packet decides where a byte is written, also outside the receive buffer.\<close>

lemma udp_write_anywhere:
  assumes "in_rx i s off 8" "ntohs (uh_length (udp_at (rx_bytes i s) off)) = n" "off + unat n < 2 ^ 32" "length (rx_bytes i s) \<le> off + unat n"
  shows "udp_input i off s = None"
proof -
  have "of_nat (off + 8) + (ucast n - 8) = (of_nat (off + unat n) :: u32)" by simp
  moreover have "unat (of_nat (off + unat n) :: u32) = off + unat n" by (rule unat_of_nat_small) (use assms(3) in simp)
  ultimately have "unat (of_nat (off + 8) + (ucast n - 8) :: u32) = off + unat n" by (simp only:)
  then show ?thesis using assms(1,4) unfolding udp_input_def Let_def assms(2) by simp
qed

end
