(* ===== verification/Spec2Isabelle.thy ===== *)
theory Spec2Isabelle
  imports Cons Kbd Clock Globs Grep Qsort Bc Malloc Users Shexec Vi Boot Net
begin

text \<open>
  A verification of osix, a small Unix for the i386: its kernel (\<open>src/sys\<close>), the C library (\<open>src/lib/libc\<close>)
  and commands (\<open>src/bin\<close>, \<open>src/usr.bin\<close>).

  \<^bold>\<open>The program.\<close>  The kernel runs processes from a table of eight entries, switches between them when they
  sleep or the clock ticks, and offers system calls on processes, signals, files, pipes and terminals.  Files lie
  in a Minix file system on an ATA disk, which the kernel reads and writes through a cache of 64 block buffers;
  inodes are cached in a table of their own, and an entry of the open file table joins an inode or a pipe to the
  descriptors of processes.  Memory is given out in pages by a bitmap and mapped by two-level page tables.  The C
  library has buffered streams, formatted output, a storage allocator, the environment and the user files on top of
  the system calls, and the commands use the library.

  \<^bold>\<open>The form of the model.\<close>  The whole state of the kernel is the record \<open>kstate\<close> of \<open>KTypes\<close>; its fields are
  the global variables and tables of the code, with the structures as records, machine integers as words and
  pointers into a table as its indices.  A kernel path is a function of type \<open>'a kernel\<close> (\<open>Kmonad\<close>): from a state it
  returns a value and a new state, or it sleeps on an address and leaves a state to the other processes, or it panics,
  or it faults (a null pointer, an index outside an array).  The library and the commands are functions on their own
  state; \<open>None\<close> stands for behaviour that C does not define, or for a loop that does not end.  Every definition names
  the function it follows.  What a device or the rest of the world contributes is an argument or a field of the
  state: sectors of the disk, scan codes and bytes from the serial line, results of system calls for the library.

  \<^bold>\<open>Bounds.\<close>  There is no fuel.  A loop over a table is a list function or a scan up to the length of the table.
  Loops whose end needs an argument have a \<open>termination\<close> proof with a measure: the rest of a path in \<open>walk\<close>, the rest of
  the line in \<open>tokenize_loop\<close> and \<open>parse_redir\<close>, the distance to the last address in \<open>page_loop\<close>, the digits of a
  number, the length of the array in \<open>qsort\<close>, the keys in \<open>vi_run\<close>.  Loops that can run forever on some inputs are
  \<open>partial_function (option)\<close>: \<open>pm_loop\<close>, \<open>glob_loop\<close>, \<open>free_loop\<close>, \<open>malloc_loop\<close>, \<open>mmap_list\<close> and \<open>bc_parse\<close>; theorems
  about them prove that they return (\<open>pattern_match_correct\<close>, \<open>glob_arguments\<close>, \<open>malloc_free_correct\<close>,
  \<open>mem_detect_correct\<close>, \<open>bc_terminates\<close>).
\<close>

section \<open>The theories\<close>

text \<open>
  \<^bold>\<open>Foundation.\<close>
  \<^item> \<open>Prelude\<close>: types of machine words, the table scan \<open>first_index\<close>, lemmas on lists and words that the
    components share, and the collection \<open>kern_simps\<close>.
  \<^item> \<open>Kmonad\<close>, \<open>KTypes\<close>: kernel paths with their weakest preconditions, and the data of \<open>sys/sys/*.h\<close>.
  \<^item> \<open>Cstring\<close>: \<open>sys/libkern\<close> on a byte-addressed store; \<open>Codec\<close>: C structures as bytes; \<open>Ctype\<close>: C strings as lists,
    character classes and \<open>atoi\<close>.
  \<^item> \<open>Bitmap\<close>: the contract \<open>slot_pool\<close> of an allocator of numbered slots.  It is interpreted for physical pages, for the
    zones and for the inodes of a disk, so that distinctness of what was given out, exhaustion and release are
    proved once.
  \<^item> \<open>Fifo\<close>: the contracts \<open>bounded_fifo\<close> (interpreted for pipes) and \<open>lossy_ring\<close> (interpreted for the
    input rings of \<open>Rxring\<close>: the terminal, the keyboard and the serial ports).

  \<^bold>\<open>Kernel.\<close>
  \<^item> \<open>Proctab\<close>: the process table, \<open>sleep\<close> and \<open>wakeup\<close>, \<open>wait\<close>, signals, identities and the scheduler
    (\<open>proc.c\<close>, \<open>sched.c\<close>, \<open>kern_prot.c\<close>, \<open>kern_signal.c\<close>, \<open>pit.c\<close>).  Process ids stay unique, \<open>wait\<close> has its four
    outcomes, signals reach their targets, sleepers wake on time and the scheduler starves nobody.
  \<^item> \<open>Vmm\<close>, \<open>Pmap\<close>: physical pages and page tables (\<open>vmm.c\<close>, \<open>pmap.c\<close>).
  \<^item> \<open>Boot\<close>: the memory map of the boot loader (\<open>mem.c\<close>): which pages the kernel starts with.
  \<^item> \<open>Machine\<close>: segments, interrupt gates, the dispatch of interrupts and the interrupt controllers (\<open>gdt.c\<close>, \<open>idt.c\<close>,
    \<open>pic.c\<close>): each device interrupt that a driver enables reaches its handler, and user code has one gate.
  \<^item> \<open>Pci\<close>, \<open>Net\<close>: the devices on the PCI bus (\<open>dev/pci.c\<close>), the network card (\<open>dev/if_re.c\<close>) and the protocols
    (\<open>net\<close>, \<open>netinet\<close>): requests in the receive buffer are answered in order with the right headers.
  \<^item> \<open>Wd\<close>, \<open>Bio\<close>, \<open>Blockio\<close>: the disk driver (\<open>wd.c\<close>) and the buffer cache (\<open>bio.c\<close>).  The contract
    \<open>block_store\<close> says that reads and writes through the cache are those of a plain map of blocks; it is
    interpreted for immediate and for delayed writes.
  \<^item> \<open>Zones\<close>, \<open>Inode\<close>, \<open>Idata\<close>, \<open>Imap\<close>, \<open>Namei\<close>: block allocation, inodes in memory and on disk, the contents of
    files, inode allocation and path names (\<open>bio.c\<close>, \<open>inode.c\<close>, \<open>fs.c\<close>).  What is written is read back, also through
    the indirect block, and nothing else in use changes.
  \<^item> \<open>Filetab\<close>, \<open>Pipe\<close>: open files, descriptors and pipes (\<open>file.c\<close>, \<open>pipe.c\<close>).  A pipe is a stream: no byte is
    lost, doubled or reordered, and a transfer completes.
  \<^item> \<open>Proclife\<close>, \<open>Sysent\<close>: \<open>fork\<close>, \<open>exec\<close>, \<open>exit\<close>, the break and the system call entry (\<open>kern_fork.c\<close>,
    \<open>kern_exec.c\<close>, \<open>kern_exit.c\<close>, \<open>proc.c\<close>, \<open>sysent.c\<close>).
  \<^item> \<open>Frames\<close>, \<open>Fdrefs\<close>, \<open>Kstep\<close>: what operations leave alone, triples for reference counts, and the step relation of
    the whole kernel: system calls that return or sleep, switches, and clock ticks, which take the processor from the running process.
    A step carries a number, 1 for an \<open>open\<close> that fails for want of a descriptor, which leaks a reference, and 0 otherwise.
    The invariant is that the reference count of each open file is the number of descriptors of live processes that refer to it
    and the references lost so far, at most one for each such \<open>open\<close>.
  \<^item> \<open>Tty\<close>, \<open>Kbd\<close>, \<open>Cons\<close>, \<open>Clock\<close>: the line discipline, keyboard and serial input, the text console and calendar
    time (\<open>tty.c\<close>, \<open>kb.c\<close>, \<open>uart.c\<close>, \<open>cons.c\<close>, \<open>rtc.c\<close>, \<open>mktime.c\<close>, \<open>time.c\<close>).

  \<^bold>\<open>C library and commands.\<close>
  \<^item> \<open>Stdio\<close>, \<open>Printf\<close>: streams (\<open>stdio.c\<close>) and formatted output (\<open>printf.c\<close>).  The contract \<open>char_sink\<close> of \<open>fputc\<close> is
    interpreted for streams on descriptors and for the arrays of \<open>snprintf\<close>, and the output functions are proved in it.
  \<^item> \<open>Malloc\<close>: the storage allocator (\<open>malloc.c\<close>, \<open>brk.c\<close>): live blocks never overlap.
  \<^item> \<open>Environ\<close>, \<open>Users\<close>: the environment is a map; the search of \<open>execvp\<close>; user and group files, password hashes
    and \<open>login\<close>, which makes the calls of the kernel model to set its numbers, groups and directory (\<open>environ.c\<close>, \<open>exec.c\<close>, \<open>getpwuid.c\<close>, \<open>getgrgid.c\<close>, \<open>crypt.c\<close>, \<open>login.c\<close>).
  \<^item> \<open>Qsort\<close>: \<open>qsort\<close> of \<open>stdlib.c\<close> and \<open>sort\<close>; \<open>Bc\<close>: the calculator; \<open>Grep\<close>: regular expressions.
  \<^item> \<open>Tokens\<close>, \<open>Globs\<close>, \<open>Shell\<close>, \<open>Shexec\<close>: the shell (\<open>sh.c\<close>): command lines, file name patterns, the expansion of
    arguments, and pipelines, which run on the system calls of the kernel model: which open file each process of a pipeline
    has as its standard input and output.
  \<^item> \<open>Vi\<close>: the screen editor (\<open>usr.bin/vi\<close>): its invariant, the meaning of its commands on the lines of the text, and
    that typed text gets into the file.
\<close>

section \<open>What is not modelled\<close>

text \<open>
  \<^item> Assembly (\<open>entry.S\<close>, \<open>isr.S\<close>, \<open>swtch.S\<close>): it saves and restores registers around the handlers, which are modelled.  A switch of processes is the choice of the next one.
  \<^item> Detection of the processor and of disks (\<open>cpu.c\<close>, parts of \<open>wd.c\<close>), which copies what
    the hardware reports.
  \<^item> What the editor draws, the formatter of manual pages and small commands that make a few system calls and print.
  \<^item> The main loops of commands around the parts that are modelled, and text that is only printed.
  \<^item> Interleaving inside one kernel path: the gates of the kernel keep interrupts off, so a path runs until it returns or sleeps, and
    interrupt handlers, the clock that preempts a process among them, are steps of their own between paths.  The wait
    of a process for its disk block is one step with the interrupt that ends it; no other process runs meanwhile in the model.
\<close>

end
